(* ===== verification/NrkPrelude.thy ===== *)
theory NrkPrelude
  imports Main "HOL-Library.Word"
begin

text \<open>
  Shared vocabulary of the development: machine integer types, the result type of fallible
  kernel code, the allocation schedule that stands for the kernel heap, and generic lemmas on
  lists that the components use.

  A Rust function that returns \<open>Result<T, E>\<close> and may panic is modelled by a value of
  \<open>('e, 'a) result\<close>: \<open>Ok\<close>, \<open>Err\<close> or \<open>Panic\<close> (the kernel is built with
  \<open>panic = "abort"\<close>, so a panic ends every thread).  A method on \<open>&mut self\<close> returns the
  new state beside its result, also when the result is \<open>Err\<close>: what a failing operation leaves
  behind is part of its behaviour.
\<close>

section \<open>Machine integers\<close>

type_synonym u8 = "8 word"
type_synonym u64 = "64 word"

abbreviation usize_max :: nat where
  "usize_max \<equiv> 18446744073709551615"

abbreviation usize_limit :: nat where
  "usize_limit \<equiv> 18446744073709551616"

text \<open>Page sizes of x86-64.\<close>

abbreviation BASE_PAGE_SIZE :: nat where "BASE_PAGE_SIZE \<equiv> 4096"
abbreviation LARGE_PAGE_SIZE :: nat where "LARGE_PAGE_SIZE \<equiv> 2097152"
abbreviation HUGE_PAGE_SIZE :: nat where "HUGE_PAGE_SIZE \<equiv> 1073741824"

text \<open>The bytes of a \<open>u64\<close> in memory, least significant byte first.\<close>

definition u64_bytes :: "nat \<Rightarrow> u8 list" where
  "u64_bytes n = map (\<lambda>i. of_nat (n div 256 ^ i)) [0..<8]"

section \<open>Results\<close>

datatype ('e, 'a) result = Ok 'a | Err 'e | Panic

fun is_ok :: "('e, 'a) result \<Rightarrow> bool" where
  "is_ok (Ok _) = True"
| "is_ok (Err _) = False"
| "is_ok Panic = False"

fun map_result :: "('a \<Rightarrow> 'b) \<Rightarrow> ('e, 'a) result \<Rightarrow> ('e, 'b) result" where
  "map_result f (Ok a) = Ok (f a)"
| "map_result f (Err e) = Err e"
| "map_result f Panic = Panic"

fun bind_result :: "('e, 'a) result \<Rightarrow> ('a \<Rightarrow> ('e, 'b) result) \<Rightarrow> ('e, 'b) result" where
  "bind_result (Ok a) f = f a"
| "bind_result (Err e) f = Err e"
| "bind_result Panic f = Panic"

definition ok_or :: "'e \<Rightarrow> 'a option \<Rightarrow> ('e, 'a) result" where
  "ok_or e x = (case x of None \<Rightarrow> Err e | Some a \<Rightarrow> Ok a)"

lemma ok_or_simps [simp]:
  "ok_or e None = Err e" "ok_or e (Some a) = Ok a"
  by (simp_all add: ok_or_def)

lemma ok_or_eq_Ok [simp]: "ok_or e x = Ok a \<longleftrightarrow> x = Some a"
  by (cases x) simp_all

lemma ok_or_not_Panic [simp]: "ok_or e x \<noteq> Panic"
  by (cases x) simp_all

lemma map_result_eq [simp]:
  "map_result f r = Panic \<longleftrightarrow> r = Panic"
  "map_result f r = Err e \<longleftrightarrow> r = Err e"
  "map_result f r = Ok b \<longleftrightarrow> (\<exists>a. r = Ok a \<and> b = f a)"
  by (cases r; auto)+

lemma bind_result_Ok_iff:
  "bind_result r f = Ok b \<longleftrightarrow> (\<exists>a. r = Ok a \<and> f a = Ok b)"
  by (cases r) auto

text \<open>Composition of state-passing operations: the \<open>?\<close> operator on a \<open>&mut self\<close> method.\<close>

definition and_then ::
  "'s \<times> ('e, 'a) result \<Rightarrow> ('s \<Rightarrow> 'a \<Rightarrow> 's \<times> ('e, 'b) result) \<Rightarrow> 's \<times> ('e, 'b) result" where
  "and_then r f = (case r of
       (s, Ok a) \<Rightarrow> f s a
     | (s, Err e) \<Rightarrow> (s, Err e)
     | (s, Panic) \<Rightarrow> (s, Panic))"

lemma and_then_simps [simp]:
  "and_then (s, Ok a) f = f s a"
  "and_then (s, Err e) f = (s, Err e)"
  "and_then (s, Panic) f = (s, Panic)"
  by (simp_all add: and_then_def)

text \<open>\<open>expect\<close> and \<open>unwrap\<close> on the result of an operation.\<close>

definition expect :: "'s \<times> ('e, 'a) result \<Rightarrow> 's \<times> ('f, 'a) result" where
  "expect r = (case r of (s, Ok a) \<Rightarrow> (s, Ok a) | (s, _) \<Rightarrow> (s, Panic))"

lemma expect_simps [simp]:
  "expect (s, Ok a) = (s, Ok a)" "expect (s, Err e) = (s, Panic)" "expect (s, Panic) = (s, Panic)"
  by (simp_all add: expect_def)

lemma and_then_Ok:
  "and_then r f = (s, Ok b) \<longleftrightarrow> (\<exists>s' a. r = (s', Ok a) \<and> f s' a = (s, Ok b))"
  by (cases r; cases "snd r") auto

lemma and_then_cases:
  assumes "and_then r f = (s', x)"
  obtains (ok) s a where "r = (s, Ok a)" "f s a = (s', x)" | (err) e where "r = (s', Err e)" "x = Err e" | (panic) "r = (s', Panic)" "x = Panic"
  using assms by (cases r; cases "snd r") auto

lemma expect_Ok [simp]: "expect r = (s, Ok a) \<longleftrightarrow> r = (s, Ok a)"
  by (cases r; cases "snd r") auto

text \<open>A loop whose body returns early with \<open>?\<close>.\<close>

primrec try_each :: "('s \<Rightarrow> 'a \<Rightarrow> 's \<times> ('e, unit) result) \<Rightarrow> 's \<Rightarrow> 'a list \<Rightarrow> 's \<times> ('e, unit) result" where
  "try_each f s [] = (s, Ok ())"
| "try_each f s (x # xs) = and_then (f s x) (\<lambda>s _. try_each f s xs)"

lemma try_each_append: "try_each f s (xs @ ys) = and_then (try_each f s xs) (\<lambda>s _. try_each f s ys)"
proof (induction xs arbitrary: s)
  case (Cons x xs)
  then show ?case by (cases "f s x"; cases "snd (f s x)") auto
qed simp

section \<open>The kernel heap as a schedule\<close>

text \<open>
  Fallible allocations (\<open>try_reserve\<close>, \<open>try_with_capacity\<close>, \<open>Arc::try_new\<close>, \<open>Box::try_new\<close>)
  go to the global allocator, whose answer depends on the rest of the system.  An operation that
  allocates takes a schedule: the head says whether the next allocation succeeds, and an
  exhausted schedule answers \<open>True\<close> from then on.  Every finite pattern of failures is such a
  schedule, and \<open>[]\<close> is the heap that never fails.
\<close>

type_synonym heap = "bool list"

fun heap_take :: "heap \<Rightarrow> bool \<times> heap" where
  "heap_take [] = (True, [])"
| "heap_take (b # h) = (b, h)"

definition never_fails :: "heap \<Rightarrow> bool" where
  "never_fails h \<longleftrightarrow> list_all id h"

lemma never_fails_Nil [simp]: "never_fails []"
  by (simp add: never_fails_def)

lemma never_fails_take [simp]:
  assumes "never_fails h"
  shows "fst (heap_take h) = True" and "never_fails (snd (heap_take h))"
  using assms by (cases h; simp add: never_fails_def)+

lemma heap_take_cases:
  assumes "never_fails h"
  obtains h' where "heap_take h = (True, h')" and "never_fails h'"
  using assms by (cases h) (auto simp: never_fails_def)

lemma heap_take_False: "heap_take h = (False, h') \<Longrightarrow> \<not> never_fails h"
  by (cases h) (auto simp: never_fails_def)

lemma heap_take_keeps: "heap_take h = (c, h') \<Longrightarrow> never_fails h \<Longrightarrow> never_fails h'"
  by (cases h) (auto simp: never_fails_def)

section \<open>Generic arithmetic and list lemmas\<close>

named_theorems page_arith \<open>arithmetic of page-sized blocks\<close>

text \<open>\<open>round_up!\<close> of the kernel prelude.\<close>

definition round_up :: "nat \<Rightarrow> nat \<Rightarrow> nat" where
  "round_up num multiple = ((num + multiple - 1) div multiple) * multiple"

lemma round_up_dvd [page_arith]: "m dvd round_up n m"
  by (simp add: round_up_def)

lemma round_up_ge [page_arith]:
  assumes "0 < m"
  shows "n \<le> round_up n m"
proof -
  have "n + m - 1 = (n + m - 1) div m * m + (n + m - 1) mod m"
    by (simp add: div_mult_mod_eq)
  moreover have "(n + m - 1) mod m < m"
    using assms by simp
  ultimately have "n + m - 1 < round_up n m + m"
    unfolding round_up_def by linarith
  then show ?thesis using assms by linarith
qed

lemma round_up_less [page_arith]:
  assumes "0 < m"
  shows "round_up n m < n + m"
proof -
  have "round_up n m \<le> n + m - 1"
    by (simp add: round_up_def)
  then show ?thesis using assms by linarith
qed

lemma round_up_least:
  assumes "0 < m" and "m dvd k" and "n \<le> k"
  shows "round_up n m \<le> k"
proof -
  obtain q where k: "k = m * q" using assms(2) by (auto elim: dvdE)
  have "(n + m - 1) div m \<le> (k + m - 1) div m"
    using assms(3) by (intro div_le_mono) simp
  also have "k + m - 1 = (m - 1) + m * q"
    using assms(1) k by simp
  also have "((m - 1) + m * q) div m = q"
    using assms(1) by (subst div_mult_self2) simp_all
  finally show ?thesis
    using k by (simp add: round_up_def mult.commute)
qed

lemma concat_length_full:
  assumes "\<forall>b \<in> set bs. length b = n"
  shows "length (concat bs) = n * length bs"
  using assms by (induction bs) auto

subsection \<open>Slices\<close>

text \<open>
  \<open>slice xs a b\<close> is the Rust range \<open>xs[a..b]\<close>, \<open>copy_into xs a ys\<close> is the list after
  \<open>xs[a..a + ys.len()].copy_from_slice(ys)\<close>.  The bounds checks that make Rust panic are
  conditions at the places that use them.
\<close>

definition slice :: "'a list \<Rightarrow> nat \<Rightarrow> nat \<Rightarrow> 'a list" where
  "slice xs a b = take (b - a) (drop a xs)"

definition copy_into :: "'a list \<Rightarrow> nat \<Rightarrow> 'a list \<Rightarrow> 'a list" where
  "copy_into xs a ys = take a xs @ ys @ drop (a + length ys) xs"

lemma length_slice [simp]: "b \<le> length xs \<Longrightarrow> length (slice xs a b) = b - a"
  by (simp add: slice_def)

lemma slice_empty [simp]: "slice xs a a = []"
  by (simp add: slice_def)

lemma slice_append:
  assumes "a \<le> b" and "b \<le> c"
  shows "slice xs a b @ slice xs b c = slice xs a c"
proof -
  have "c - a = (b - a) + (c - b)" using assms by simp
  moreover have "drop b xs = drop (b - a) (drop a xs)" using assms by simp
  ultimately show ?thesis by (simp add: slice_def take_add)
qed

lemma length_copy_into [simp]:
  "a + length ys \<le> length xs \<Longrightarrow> length (copy_into xs a ys) = length xs"
  by (simp add: copy_into_def)

lemma copy_into_Nil [simp]: "copy_into xs a [] = xs"
  by (simp add: copy_into_def)

lemma copy_into_middle:
  assumes "a + length ys \<le> length xs"
  shows "copy_into (p @ xs @ q) (length p + a) ys = p @ copy_into xs a ys @ q"
  using assms by (simp add: copy_into_def)

lemma copy_into_copy_into:
  assumes "a + length ys \<le> length xs"
  shows "copy_into (copy_into xs a ys) (a + length ys) zs = copy_into xs a (ys @ zs)"
proof -
  have l: "length (take a xs @ ys) = a + length ys"
    using assms by simp
  have "take (a + length ys) (copy_into xs a ys) = take a xs @ ys"
    using l by (simp add: copy_into_def)
  moreover have "drop (a + length ys + length zs) (copy_into xs a ys)
      = drop (a + length ys + length zs) xs"
    using l by (simp add: copy_into_def add.commute add.left_commute)
  ultimately show ?thesis
    by (simp add: copy_into_def [of "copy_into xs a ys"] copy_into_def [of xs a "ys @ zs"] add.assoc)
qed

lemma slice_copy_into:
  assumes "a + length ys \<le> length xs"
  shows "slice (copy_into xs a ys) a (a + length ys) = ys"
  using assms by (simp add: copy_into_def slice_def)

lemma concat_split_at:
  assumes "i < length bs"
  shows "concat bs = concat (take i bs) @ bs ! i @ concat (drop (Suc i) bs)"
proof -
  have "bs = take i bs @ bs ! i # drop (Suc i) bs"
    using assms by (rule id_take_nth_drop)
  then have "concat bs = concat (take i bs @ bs ! i # drop (Suc i) bs)" by simp
  then show ?thesis by simp
qed

lemma concat_list_update:
  assumes "i < length bs"
  shows "concat (bs[i := b]) = concat (take i bs) @ b @ concat (drop (Suc i) bs)"
  using assms by (simp add: upd_conv_take_nth_drop)

end
