(* ===== verification/KernelError.thy ===== *)
theory KernelError
  imports NrkPrelude
begin

text \<open>
  Errors of the kernel (\<open>kernel/src/error.rs\<close>) and of the system call interface
  (\<open>lib/kpi/src/lib.rs\<close>), and the conversions between them.  Addresses and counts carried by
  an error are natural numbers, as everywhere in the development.
\<close>

section \<open>Kernel errors\<close>

datatype (plugins only: code size) KError =
    BadAddress | GlobalMemoryNotSet | CoreAlreadyAllocated | OutOfMemory | ReplicaNotSet
  | ProcessNotSet | NotSupported | OutOfPids | NoExecutorForCore
  | InvalidSyscallArgument1 nat | InvalidVSpaceOperation nat | InvalidProcessOperation nat
  | InvalidSystemOperation nat
  | InvalidLayout | CacheExhausted | CacheFull | CantGrowFurther nat | KcbUnavailable
  | ManagerAlreadyBorrowed | InvalidAffinityId | CapacityOverflow
  | ProcessLoadingFailed | ProcessCreate | NoProcessFoundForPid | UnableToLoad
  | UnableToParseElf | NoExecutorAllocated | ExecutorCacheExhausted | InvalidGlobalThreadId
  | ExecutorNoLongerValid | ExecutorAlreadyBorrowed | NotEnoughMemory | InvalidFrameId
  | TooManyProcesses | TooManyRegisteredFrames | InvalidFileDescriptor | BinaryNotFound string
  | InvalidFrame | AlreadyMapped nat | BaseOverflow nat | NotMapped | InvalidLength | InvalidBase
  | InvalidFile | InvalidFlags | InvalidOffset | PermissionError | AlreadyPresent
  | DirectoryError | OpenFileLimit | FileDescForPidAlreadyAdded | NoFileDescForPid
  | DebuggerAlreadyAttached | DebuggerStmFailure | DebuggerUnableToReadRegister
  | DebuggerUnableToWriteRegister

type_synonym 'a kres = "(KError, 'a) result"

definition KError_default :: KError where
  "KError_default = NotSupported"

text \<open>
  The \<open>From\<close> implementations that turn a library error into a kernel error.  The sources carry
  no information that survives the conversion, except for \<open>slabmalloc::AllocationError\<close>.
\<close>

datatype LibraryError =
    CapacityError
  | BorrowMutError
  | FallibleTryReserveError
  | HashbrownTryReserveError
  | ElfLoaderErr
  | AllocError
  | SlabInvalidLayout
  | SlabOutOfMemory

fun KError_from :: "LibraryError \<Rightarrow> KError" where
  "KError_from CapacityError = CacheFull"
| "KError_from BorrowMutError = ManagerAlreadyBorrowed"
| "KError_from FallibleTryReserveError = OutOfMemory"
| "KError_from HashbrownTryReserveError = OutOfMemory"
| "KError_from ElfLoaderErr = ProcessCreate"
| "KError_from AllocError = OutOfMemory"
| "KError_from SlabInvalidLayout = InvalidLayout"
| "KError_from SlabOutOfMemory = CacheExhausted"

section \<open>System call errors\<close>

datatype SystemCallError =
    SceOk | SceNotLogged | SceNotSupported | SceVSpaceAlreadyMapped | SceOutOfMemory
  | SceInternalError | SceBadAddress | SceBadFileDescriptor | SceBadFlags | ScePermissionError
  | SceOffsetError | SceUnknown

text \<open>The discriminants of the \<open>repr(u64)\<close> enum; \<open>Unknown\<close> follows \<open>OffsetError = 10\<close>.\<close>

fun SystemCallError_code :: "SystemCallError \<Rightarrow> u64" where
  "SystemCallError_code SceOk = 0"
| "SystemCallError_code SceNotLogged = 1"
| "SystemCallError_code SceNotSupported = 2"
| "SystemCallError_code SceVSpaceAlreadyMapped = 3"
| "SystemCallError_code SceOutOfMemory = 4"
| "SystemCallError_code SceInternalError = 5"
| "SystemCallError_code SceBadAddress = 6"
| "SystemCallError_code SceBadFileDescriptor = 7"
| "SystemCallError_code SceBadFlags = 8"
| "SystemCallError_code ScePermissionError = 9"
| "SystemCallError_code SceOffsetError = 10"
| "SystemCallError_code SceUnknown = 11"

definition SystemCallError_from :: "u64 \<Rightarrow> SystemCallError" where
  "SystemCallError_from e =
     (if e = 1 then SceNotLogged
      else if e = 2 then SceNotSupported
      else if e = 3 then SceVSpaceAlreadyMapped
      else if e = 4 then SceOutOfMemory
      else if e = 5 then SceInternalError
      else if e = 6 then SceBadAddress
      else if e = 7 then SceBadFileDescriptor
      else if e = 8 then SceBadFlags
      else if e = 9 then ScePermissionError
      else if e = 10 then SceOffsetError
      else SceUnknown)"

fun KError_to_SystemCallError :: "KError \<Rightarrow> SystemCallError" where
  "KError_to_SystemCallError (InvalidSyscallArgument1 _) = SceNotSupported"
| "KError_to_SystemCallError (InvalidVSpaceOperation _) = SceNotSupported"
| "KError_to_SystemCallError (InvalidProcessOperation _) = SceNotSupported"
| "KError_to_SystemCallError BadAddress = SceBadAddress"
| "KError_to_SystemCallError _ = SceInternalError"

text \<open>
  Every error code except \<open>Ok\<close> survives the trip through the return register: the user-space
  side decodes exactly the error the kernel stored.
\<close>

lemma SystemCallError_roundtrip:
  "e \<noteq> SceOk \<Longrightarrow> SystemCallError_from (SystemCallError_code e) = e"
  by (cases e) (simp_all add: SystemCallError_from_def)

lemma SystemCallError_code_inj: "SystemCallError_code a = SystemCallError_code b \<longleftrightarrow> a = b"
  by (cases a; cases b; simp)

text \<open>A kernel error never reaches user space as success: the translated code is not 0.\<close>

lemma KError_to_SystemCallError_not_Ok: "KError_to_SystemCallError e \<noteq> SceOk"
  by (cases e) simp_all

lemma KError_visible_to_user:
  "SystemCallError_from (SystemCallError_code (KError_to_SystemCallError e))
     = KError_to_SystemCallError e"
  by (rule SystemCallError_roundtrip) (rule KError_to_SystemCallError_not_Ok)

end
