(* ===== verification/Kpi.thy ===== *)
theory Kpi
  imports NrkPrelude
begin

unbundle bit_operations_syntax

text \<open>
  The public kernel interface (\<open>lib/kpi\<close>): file metadata, open flags and modes
  (\<open>lib/kpi/src/io.rs\<close>), and the operation codes of the system calls (\<open>lib/kpi/src/lib.rs\<close>).
  A \<open>bitflags!\<close> type is its bit pattern; \<open>from_bits_truncate\<close> keeps the bits of the declared
  flags.
\<close>

section \<open>File metadata, flags and modes\<close>

record FileInfo =
  fi_ftype :: nat
  fi_fsize :: nat

datatype FileType = Directory | File

fun FileType_code :: "FileType \<Rightarrow> nat" where
  "FileType_code Directory = 1"
| "FileType_code File = 2"

abbreviation O_NONE :: u64 where "O_NONE \<equiv> 0"
abbreviation O_RDONLY :: u64 where "O_RDONLY \<equiv> 0x0001"
abbreviation O_WRONLY :: u64 where "O_WRONLY \<equiv> 0x0002"
abbreviation O_RDWR :: u64 where "O_RDWR \<equiv> 0x0003"
abbreviation O_CREAT :: u64 where "O_CREAT \<equiv> 0x0200"
abbreviation O_TRUNC :: u64 where "O_TRUNC \<equiv> 0x0400"
abbreviation O_APPEND :: u64 where "O_APPEND \<equiv> 0x2000"

definition FileFlags_all :: u64 where
  "FileFlags_all = O_NONE OR O_RDONLY OR O_WRONLY OR O_RDWR OR O_CREAT OR O_TRUNC OR O_APPEND"

definition FileFlags_from :: "u64 \<Rightarrow> u64" where
  "FileFlags_from flag = flag AND FileFlags_all"

definition flags_is_read :: "u64 \<Rightarrow> bool" where
  "flags_is_read f \<longleftrightarrow> f AND O_RDONLY = O_RDONLY"

definition flags_is_write :: "u64 \<Rightarrow> bool" where
  "flags_is_write f \<longleftrightarrow> f AND O_WRONLY = O_WRONLY"

definition flags_is_create :: "u64 \<Rightarrow> bool" where
  "flags_is_create f \<longleftrightarrow> f AND O_CREAT = O_CREAT"

definition flags_is_truncate :: "u64 \<Rightarrow> bool" where
  "flags_is_truncate f \<longleftrightarrow> f AND O_TRUNC = O_TRUNC"

definition flags_is_append :: "u64 \<Rightarrow> bool" where
  "flags_is_append f \<longleftrightarrow> f AND O_APPEND = O_APPEND"

abbreviation S_IRWXU :: u64 where "S_IRWXU \<equiv> 0x007"
abbreviation S_IRUSR :: u64 where "S_IRUSR \<equiv> 0x004"
abbreviation S_IWUSR :: u64 where "S_IWUSR \<equiv> 0x002"
abbreviation S_IXUSR :: u64 where "S_IXUSR \<equiv> 0x001"

definition FileModes_all :: u64 where
  "FileModes_all = S_IRWXU OR S_IRUSR OR S_IWUSR OR S_IXUSR"

definition FileModes_from :: "u64 \<Rightarrow> u64" where
  "FileModes_from mode = mode AND FileModes_all"

definition modes_is_readable :: "u64 \<Rightarrow> bool" where
  "modes_is_readable m \<longleftrightarrow> m AND S_IRUSR = S_IRUSR"

definition modes_is_writable :: "u64 \<Rightarrow> bool" where
  "modes_is_writable m \<longleftrightarrow> m AND S_IWUSR = S_IWUSR"

definition modes_is_executable :: "u64 \<Rightarrow> bool" where
  "modes_is_executable m \<longleftrightarrow> m AND S_IXUSR = S_IXUSR"

lemmas flag_defs =
  flags_is_read_def flags_is_write_def flags_is_create_def flags_is_truncate_def
  flags_is_append_def FileFlags_from_def FileFlags_all_def

lemmas mode_defs =
  modes_is_readable_def modes_is_writable_def modes_is_executable_def FileModes_from_def
  FileModes_all_def

lemma flag_all_eq: "FileFlags_all = 0x2603"
  by (simp add: FileFlags_all_def)

lemma and_mask_absorb:
  fixes f :: u64
  assumes "all AND bits = bits"
  shows "((f AND all) AND bits = bits) \<longleftrightarrow> (f AND bits = bits)"
  using assms by (metis and.assoc)

text \<open>
  Truncating the user's bits to the declared ones loses no permission: each query answers the
  same on the raw argument of the system call and on the stored flags.
\<close>

lemma FileFlags_from_queries:
  "flags_is_read (FileFlags_from f) = flags_is_read f"
  "flags_is_write (FileFlags_from f) = flags_is_write f"
  "flags_is_create (FileFlags_from f) = flags_is_create f"
  "flags_is_truncate (FileFlags_from f) = flags_is_truncate f"
  "flags_is_append (FileFlags_from f) = flags_is_append f"
  unfolding flags_is_read_def flags_is_write_def flags_is_create_def flags_is_truncate_def
    flags_is_append_def FileFlags_from_def
  by (rule and_mask_absorb, simp add: FileFlags_all_def)+

lemma FileModes_from_queries:
  "modes_is_readable (FileModes_from m) = modes_is_readable m"
  "modes_is_writable (FileModes_from m) = modes_is_writable m"
  "modes_is_executable (FileModes_from m) = modes_is_executable m"
  unfolding modes_is_readable_def modes_is_writable_def modes_is_executable_def FileModes_from_def
  by (rule and_mask_absorb, simp add: FileModes_all_def)+

section \<open>Operation codes\<close>

datatype ProcessOperation =
    PExit | PLog | PGetVCpuArea | PAllocateVector | PSubscribeEvent | PGetProcessInfo
  | PRequestCore | PAllocatePhysical | PUnknown

definition ProcessOperation_from :: "u64 \<Rightarrow> ProcessOperation" where
  "ProcessOperation_from op =
     (if op = 1 then PExit
      else if op = 2 then PLog
      else if op = 3 then PGetVCpuArea
      else if op = 4 then PAllocateVector
      else if op = 5 then PSubscribeEvent
      else if op = 6 then PGetProcessInfo
      else if op = 7 then PRequestCore
      else if op = 8 then PAllocatePhysical
      else PUnknown)"

definition ProcessOperation_from_str :: "string \<Rightarrow> ProcessOperation" where
  "ProcessOperation_from_str op =
     (if op = ''Exit'' then PExit
      else if op = ''Log'' then PLog
      else if op = ''GetVCpuArea'' then PGetVCpuArea
      else if op = ''AllocateVector'' then PAllocateVector
      else if op = ''SubscribeEvent'' then PSubscribeEvent
      else if op = ''GetProcessInfo'' then PGetProcessInfo
      else if op = ''RequestCore'' then PRequestCore
      else if op = ''AllocatePhysical'' then PAllocatePhysical
      else PUnknown)"

datatype MemType = MemDram | MemPMem | MemInvalid

datatype VSpaceOperation =
    VMapMem | VUnmapMem | VMapDevice | VMapMemFrame | VIdentify | VMapPMem | VUnmapPMem
  | VUnknown

definition VSpaceOperation_from :: "u64 \<Rightarrow> VSpaceOperation" where
  "VSpaceOperation_from op =
     (if op = 1 then VMapMem
      else if op = 2 then VUnmapMem
      else if op = 3 then VMapDevice
      else if op = 4 then VMapMemFrame
      else if op = 5 then VIdentify
      else if op = 6 then VMapPMem
      else if op = 7 then VUnmapPMem
      else VUnknown)"

definition VSpaceOperation_from_str :: "string \<Rightarrow> VSpaceOperation" where
  "VSpaceOperation_from_str op =
     (if op = ''MapMem'' then VMapMem
      else if op = ''UnmapMem'' then VUnmapMem
      else if op = ''MapDevice'' then VMapDevice
      else if op = ''MapMemFrame'' then VMapMemFrame
      else if op = ''Identify'' then VIdentify
      else if op = ''MapPMem'' then VMapPMem
      else if op = ''UnmapPMem'' then VUnmapPMem
      else VUnknown)"

datatype FileOperation =
    FCreate | FOpen | FRead | FReadAt | FWrite | FWriteAt | FClose | FGetInfo | FDelete
  | FWriteDirect | FFileRename | FMkDir | FUnknown

definition FileOperation_from :: "u64 \<Rightarrow> FileOperation" where
  "FileOperation_from op =
     (if op = 1 then FCreate
      else if op = 2 then FOpen
      else if op = 3 then FRead
      else if op = 4 then FReadAt
      else if op = 5 then FWrite
      else if op = 6 then FWriteAt
      else if op = 7 then FClose
      else if op = 8 then FGetInfo
      else if op = 9 then FDelete
      else if op = 10 then FWriteDirect
      else if op = 11 then FFileRename
      else if op = 12 then FMkDir
      else FUnknown)"

definition FileOperation_from_str :: "string \<Rightarrow> FileOperation" where
  "FileOperation_from_str op =
     (if op = ''Create'' then FCreate
      else if op = ''Open'' then FOpen
      else if op = ''Read'' then FRead
      else if op = ''ReadAt'' then FReadAt
      else if op = ''Write'' then FWrite
      else if op = ''WriteAt'' then FWriteAt
      else if op = ''Close'' then FClose
      else if op = ''GetInfo'' then FGetInfo
      else if op = ''Delete'' then FDelete
      else if op = ''WriteDirect'' then FWriteDirect
      else if op = ''Rename'' then FFileRename
      else if op = ''MkDir'' then FMkDir
      else FUnknown)"

datatype SystemOperation = SGetHardwareThreads | SStats | SGetCoreID | SUnknown

definition SystemOperation_from :: "u64 \<Rightarrow> SystemOperation" where
  "SystemOperation_from op =
     (if op = 1 then SGetHardwareThreads
      else if op = 2 then SStats
      else if op = 3 then SGetCoreID
      else SUnknown)"

definition SystemOperation_from_str :: "string \<Rightarrow> SystemOperation" where
  "SystemOperation_from_str op =
     (if op = ''GetHardwareThreads'' then SGetHardwareThreads
      else if op = ''Stats'' then SStats
      else if op = ''GetCoreID'' then SGetCoreID
      else SUnknown)"

datatype SystemCall = ScSystem | ScProcess | ScVSpace | ScFileIO | ScUnknown

definition SystemCall_new :: "u64 \<Rightarrow> SystemCall" where
  "SystemCall_new domain =
     (if domain = 1 then ScSystem
      else if domain = 2 then ScProcess
      else if domain = 3 then ScVSpace
      else if domain = 4 then ScFileIO
      else ScUnknown)"

definition SystemCall_from_str :: "string \<Rightarrow> SystemCall" where
  "SystemCall_from_str op =
     (if op = ''System'' then ScSystem
      else if op = ''Process'' then ScProcess
      else if op = ''VSpace'' then ScVSpace
      else if op = ''FileIO'' then ScFileIO
      else ScUnknown)"

text \<open>The discriminants of the \<open>repr(u64)\<close> enum of file operations, as user space passes them.\<close>

fun FileOperation_code :: "FileOperation \<Rightarrow> u64" where
  "FileOperation_code FCreate = 1"
| "FileOperation_code FOpen = 2"
| "FileOperation_code FRead = 3"
| "FileOperation_code FReadAt = 4"
| "FileOperation_code FWrite = 5"
| "FileOperation_code FWriteAt = 6"
| "FileOperation_code FClose = 7"
| "FileOperation_code FGetInfo = 8"
| "FileOperation_code FDelete = 9"
| "FileOperation_code FWriteDirect = 10"
| "FileOperation_code FFileRename = 11"
| "FileOperation_code FMkDir = 12"
| "FileOperation_code FUnknown = 13"

lemma FileOperation_roundtrip: "FileOperation_from (FileOperation_code op) = op"
  by (cases op) (simp_all add: FileOperation_from_def)

end
