(* ===== verification/FileBuf.thy ===== *)
theory FileBuf
  imports KernelError Kpi
begin

text \<open>
  In-memory files (\<open>kernel/src/fs/file.rs\<close>).  A file is a list of buffers of at most one base
  page each; all buffers but the last are full.  The model follows the two copy loops and the
  growth of a file buffer by buffer, with every bounds check that makes the Rust code panic and
  every allocation that can fail.  The abstract content of a file is the concatenation of its
  buffers; the theorems relate \<open>write_file\<close>, \<open>read_file\<close> and \<open>get_size\<close> to it.
\<close>

section \<open>Model\<close>

record MFile =
  mcache :: "u8 list list"
  modes :: u64

text \<open>
  \<open>Vec::resize\<close>, and \<open>try_resize\<close> on a buffer: a buffer is created with a capacity of one base
  page, so only a longer vector asks the heap for memory.
\<close>

definition vec_resize :: "'a list \<Rightarrow> nat \<Rightarrow> 'a \<Rightarrow> 'a list" where
  "vec_resize d n z = take n d @ replicate (n - length d) z"

definition try_resize :: "heap \<Rightarrow> u8 list \<Rightarrow> nat \<Rightarrow> heap \<times> u8 list kres" where
  "try_resize h d n =
     (if n \<le> BASE_PAGE_SIZE then (h, Ok (vec_resize d n 0))
      else (case heap_take h of
              (True, h') \<Rightarrow> (h', Ok (vec_resize d n 0))
            | (False, h') \<Rightarrow> (h', Err OutOfMemory)))"

definition try_alloc_buffer :: "heap \<Rightarrow> heap \<times> u8 list kres" where
  "try_alloc_buffer h =
     (case heap_take h of (True, h') \<Rightarrow> (h', Ok []) | (False, h') \<Rightarrow> (h', Err OutOfMemory))"

text \<open>\<open>File::new\<close>: the buffer list is pre-allocated with room for \<open>64 * size_of::<Buffer>()\<close> entries.\<close>

abbreviation MCACHE_CAPACITY :: nat where
  "MCACHE_CAPACITY \<equiv> 1536"

definition File_new :: "heap \<Rightarrow> u64 \<Rightarrow> heap \<times> MFile kres" where
  "File_new h m =
     (case heap_take h of
        (True, h') \<Rightarrow> (h', Ok \<lparr>mcache = [], modes = FileModes_from m\<rparr>)
      | (False, h') \<Rightarrow> (h', Err OutOfMemory))"

text \<open>The size of a file; the scan stops at the first empty buffer.\<close>

fun scan_size :: "u8 list list \<Rightarrow> nat" where
  "scan_size [] = 0"
| "scan_size (b # bs) = (if length b = 0 then 0 else length b + scan_size bs)"

definition get_size :: "MFile \<Rightarrow> nat" where
  "get_size f =
     (let n = length (mcache f) in
      if n = 0 then 0
      else if n = 1 then length (mcache f ! (n - 1))
      else if length (mcache f ! (n - 1)) = 0 then scan_size (mcache f)
      else (n - 1) * BASE_PAGE_SIZE + length (mcache f ! (n - 1)))"

definition get_mode :: "MFile \<Rightarrow> u64" where
  "get_mode f = modes f"

definition ceil_div :: "nat \<Rightarrow> nat \<Rightarrow> nat" where
  "ceil_div bytes buffer_size =
     (let val = bytes div buffer_size in
      if bytes > val * buffer_size then val + 1 else val)"

definition offset_to_buffernum :: "nat \<Rightarrow> nat \<Rightarrow> nat" where
  "offset_to_buffernum offset buffer_size = offset div buffer_size"

text \<open>The allocation loop of \<open>increase_file_size\<close>: \<open>n\<close> zeroed buffers of one base page.\<close>

fun alloc_buffers :: "heap \<Rightarrow> nat \<Rightarrow> u8 list list \<Rightarrow> heap \<times> u8 list list kres" where
  "alloc_buffers h 0 vec = (h, Ok vec)"
| "alloc_buffers h (Suc n) vec =
     and_then (try_alloc_buffer h) (\<lambda>h1 buffer.
     and_then (try_resize h1 buffer BASE_PAGE_SIZE) (\<lambda>h2 buffer'.
       alloc_buffers h2 n (vec @ [buffer'])))"

text \<open>
  \<open>mcache.try_append\<close>: the buffer list grows through the heap once it exceeds the capacity it
  was created with (a growth served from spare capacity is a schedule entry \<open>True\<close>).
\<close>

definition try_append :: "heap \<Rightarrow> MFile \<Rightarrow> u8 list list \<Rightarrow> (heap \<times> MFile) \<times> unit kres" where
  "try_append h f vec =
     (if length (mcache f) + length vec \<le> MCACHE_CAPACITY
      then ((h, f\<lparr>mcache := mcache f @ vec\<rparr>), Ok ())
      else (case heap_take h of
              (True, h') \<Rightarrow> ((h', f\<lparr>mcache := mcache f @ vec\<rparr>), Ok ())
            | (False, h') \<Rightarrow> ((h', f), Err OutOfMemory)))"

text \<open>Replacing the last buffer, through \<open>last_mut().unwrap()\<close>.\<close>

definition set_last :: "'a list \<Rightarrow> 'a \<Rightarrow> 'a list" where
  "set_last xs x = butlast xs @ [x]"

text \<open>
  The second branch of \<open>increase_file_size\<close>: the last buffer is filled up, then whole buffers
  are added, the last of which is cut to the new length.  The first component of the state is
  the heap; the file keeps the padding of its last buffer when a later allocation fails.
\<close>

definition add_buffers ::
  "heap \<Rightarrow> MFile \<Rightarrow> nat \<Rightarrow> nat \<Rightarrow> (heap \<times> MFile) \<times> unit kres" where
  "add_buffers h f new_len remaining =
     (let new_buffers = ceil_div remaining BASE_PAGE_SIZE
      in case heap_take h of
           (False, h2) \<Rightarrow> ((h2, f), Err OutOfMemory)
         | (True, h2) \<Rightarrow>
             (case alloc_buffers h2 new_buffers [] of
                (h3, Ok vec) \<Rightarrow>
                  (if new_len mod BASE_PAGE_SIZE \<noteq> 0
                   then (let sure = (new_buffers - 1) * BASE_PAGE_SIZE
                         in if new_len < get_size f + sure then ((h3, f), Panic)
                            else (case try_resize h3 (last vec)
                                         (new_len - (get_size f + sure)) of
                                    (h4, Ok b) \<Rightarrow> try_append h4 f (set_last vec b)
                                  | (h4, Err e) \<Rightarrow> ((h4, f), Err e)
                                  | (h4, Panic) \<Rightarrow> ((h4, f), Panic)))
                   else try_append h3 f vec)
              | (h3, Err e) \<Rightarrow> ((h3, f), Err e)
              | (h3, Panic) \<Rightarrow> ((h3, f), Panic)))"

definition grow_with_buffers ::
  "heap \<Rightarrow> MFile \<Rightarrow> nat \<Rightarrow> nat \<Rightarrow> nat \<Rightarrow> (heap \<times> MFile) \<times> unit kres" where
  "grow_with_buffers h f new_len add_new free_in_last_buffer =
     (let padded =
        (if mcache f = [] then ((h, f), Ok ())
         else (case try_resize h (last (mcache f)) BASE_PAGE_SIZE of
                 (h1, Ok b) \<Rightarrow> ((h1, f\<lparr>mcache := set_last (mcache f) b\<rparr>), Ok ())
               | (h1, Err e) \<Rightarrow> ((h1, f), Err e)
               | (h1, Panic) \<Rightarrow> ((h1, f), Panic)))
      in and_then padded (\<lambda>(h1, f1) _. add_buffers h1 f1 new_len (add_new - free_in_last_buffer)))"

definition increase_file_size ::
  "heap \<Rightarrow> MFile \<Rightarrow> nat \<Rightarrow> nat \<Rightarrow> (heap \<times> MFile) \<times> unit kres" where
  "increase_file_size h f curr_file_len new_len =
     (if new_len = 0 then ((h, f), Ok ())
      else if mcache f \<noteq> [] \<and> BASE_PAGE_SIZE < length (last (mcache f)) then ((h, f), Panic)
      else let free_in_last_buffer =
                 (if mcache f = [] then 0 else BASE_PAGE_SIZE - length (last (mcache f)))
        in if new_len < curr_file_len then ((h, f), Panic)
           else let add_new = new_len - curr_file_len
             in if add_new \<le> free_in_last_buffer
                then if mcache f = [] then ((h, f), Panic)
                     else (case try_resize h (last (mcache f))
                                  (length (last (mcache f)) + add_new) of
                             (h1, Ok b) \<Rightarrow> ((h1, f\<lparr>mcache := set_last (mcache f) b\<rparr>), Ok ())
                           | (h1, Err e) \<Rightarrow> ((h1, f), Err e)
                           | (h1, Panic) \<Rightarrow> ((h1, f), Panic))
                else grow_with_buffers h f new_len add_new free_in_last_buffer)"

text \<open>
  The copy loop of \<open>read_file\<close>.  \<open>None\<close> is a panic: a buffer index, a source range or a
  destination range out of bounds, or a subtraction below zero.
\<close>

function read_loop ::
  "u8 list list \<Rightarrow> u8 list \<Rightarrow> nat \<Rightarrow> nat \<Rightarrow> nat \<Rightarrow> nat \<Rightarrow> nat \<Rightarrow> (u8 list \<times> nat) option" where
  "read_loop mc user_slice len buffer_num offset_in_buffer copied dst_start =
     (if copied < len
      then if length mc \<le> buffer_num \<or> length (mc ! buffer_num) < offset_in_buffer then None
        else let useful = length (mc ! buffer_num) - offset_in_buffer;
                 remaining = len - copied;
                 n = (if remaining \<ge> useful then useful else remaining);
                 dst_end = dst_start + n;
                 src_end = offset_in_buffer + n
          in if length user_slice < dst_end then None
             else read_loop mc
                    (copy_into user_slice dst_start (slice (mc ! buffer_num) offset_in_buffer src_end))
                    len (buffer_num + 1) 0 (copied + n) dst_end
      else Some (user_slice, copied))"
  by pat_completeness auto
termination
  by (relation "measure (\<lambda>(mc, us, len, bn, off, copied, ds). length mc - bn)") auto

definition read_file :: "MFile \<Rightarrow> u8 list \<Rightarrow> nat \<Rightarrow> nat \<Rightarrow> (u8 list \<times> nat) kres" where
  "read_file f user_slice start_offset end_offset =
     (if end_offset < start_offset then Panic
      else let buffer_num = offset_to_buffernum start_offset BASE_PAGE_SIZE;
               offset_in_buffer = start_offset - buffer_num * BASE_PAGE_SIZE
        in case read_loop (mcache f) user_slice (end_offset - start_offset)
                  buffer_num offset_in_buffer 0 0 of
             None \<Rightarrow> Panic
           | Some r \<Rightarrow> Ok r)"

text \<open>The copy loop of \<open>write_file\<close>; here a buffer is always taken to extend to a full page.\<close>

function write_loop ::
  "u8 list list \<Rightarrow> u8 list \<Rightarrow> nat \<Rightarrow> nat \<Rightarrow> nat \<Rightarrow> nat \<Rightarrow> nat \<Rightarrow> u8 list list option" where
  "write_loop mc user_slice len buffer_num offset_in_buffer copied dst_start =
     (if copied < len
      then if BASE_PAGE_SIZE < offset_in_buffer then None
        else let useful = BASE_PAGE_SIZE - offset_in_buffer;
                 remaining = len - copied;
                 n = (if remaining \<ge> useful then useful else remaining);
                 dst_end = dst_start + n;
                 src_end = offset_in_buffer + n
          in if length mc \<le> buffer_num \<or> length (mc ! buffer_num) < src_end
                \<or> length user_slice < dst_end then None
             else write_loop
                    (mc[buffer_num := copy_into (mc ! buffer_num) offset_in_buffer
                                        (slice user_slice dst_start dst_end)])
                    user_slice len (buffer_num + 1) 0 (copied + n) dst_end
      else Some mc)"
  by pat_completeness auto
termination
  by (relation "measure (\<lambda>(mc, us, len, bn, off, copied, ds). length mc - bn)")
    (auto intro!: diff_less_mono2)

definition write_file ::
  "heap \<Rightarrow> MFile \<Rightarrow> u8 list \<Rightarrow> nat \<Rightarrow> nat \<Rightarrow> (heap \<times> MFile) \<times> nat kres" where
  "write_file h f user_slice len start_offset =
     (if usize_limit \<le> start_offset + len then ((h, f), Panic)
      else let curr_file_len = get_size f;
               new_len = start_offset + len;
               grown = (if new_len > 0 \<and> new_len > curr_file_len
                        then increase_file_size h f curr_file_len new_len
                        else ((h, f), Ok ()))
        in case grown of
             ((h1, f1), Panic) \<Rightarrow> ((h1, f1), Panic)
           | ((h1, f1), Err e) \<Rightarrow> ((h1, f1), Err OutOfMemory)
           | ((h1, f1), Ok _) \<Rightarrow>
               let buffer_num = offset_to_buffernum start_offset BASE_PAGE_SIZE;
                   offset_in_buffer = start_offset - buffer_num * BASE_PAGE_SIZE
               in case write_loop (mcache f1) user_slice len buffer_num offset_in_buffer 0 0 of
                    None \<Rightarrow> ((h1, f1), Panic)
                  | Some mc \<Rightarrow> ((h1, f1\<lparr>mcache := mc\<rparr>), Ok len))"

definition file_truncate :: "MFile \<Rightarrow> MFile" where
  "file_truncate f = f\<lparr>mcache := []\<rparr>"

section \<open>Well-formed files and their content\<close>

definition buffers_ok :: "u8 list list \<Rightarrow> bool" where
  "buffers_ok mc \<longleftrightarrow>
     (\<forall>b \<in> set (butlast mc). length b = BASE_PAGE_SIZE)
     \<and> (mc \<noteq> [] \<longrightarrow> 0 < length (last mc) \<and> length (last mc) \<le> BASE_PAGE_SIZE)"

definition file_inv :: "MFile \<Rightarrow> bool" where
  "file_inv f \<longleftrightarrow> buffers_ok (mcache f)"

definition contents :: "MFile \<Rightarrow> u8 list" where
  "contents f = concat (mcache f)"

text \<open>The effect of a write on the content: zero-fill up to the offset, then overwrite.\<close>

definition pad_to :: "u8 list \<Rightarrow> nat \<Rightarrow> u8 list" where
  "pad_to c n = c @ replicate (n - length c) 0"

definition write_spec :: "u8 list \<Rightarrow> nat \<Rightarrow> u8 list \<Rightarrow> u8 list" where
  "write_spec c off d = copy_into (pad_to c (off + length d)) off d"

lemma buffers_ok_Nil [simp]: "buffers_ok []"
  by (simp add: buffers_ok_def)

lemma buffers_ok_snoc:
  "buffers_ok (bs @ [b]) \<longleftrightarrow>
     (\<forall>x \<in> set bs. length x = BASE_PAGE_SIZE) \<and> 0 < length b \<and> length b \<le> BASE_PAGE_SIZE"
  by (simp add: buffers_ok_def)

lemma buffers_ok_nth:
  assumes "buffers_ok mc" and "Suc i < length mc"
  shows "length (mc ! i) = BASE_PAGE_SIZE"
proof -
  have "mc ! i = butlast mc ! i" and "i < length (butlast mc)"
    using assms(2) by (auto simp: nth_butlast)
  then have "mc ! i \<in> set (butlast mc)" by (metis nth_mem)
  with assms(1) show ?thesis by (auto simp: buffers_ok_def)
qed

lemma buffers_ok_nth_le:
  assumes "buffers_ok mc" and "i < length mc"
  shows "0 < length (mc ! i) \<and> length (mc ! i) \<le> BASE_PAGE_SIZE"
proof (cases "Suc i < length mc")
  case True
  then show ?thesis using buffers_ok_nth [OF assms(1)] by simp
next
  case False
  then have "mc ! i = last mc" using assms(2)
    by (metis Suc_lessI assms(2) diff_Suc_1 last_conv_nth less_nat_zero_code list.size(3))
  then show ?thesis using assms by (auto simp: buffers_ok_def)
qed

lemma buffers_ok_prefix_length:
  assumes "buffers_ok mc" and "i < length mc"
  shows "length (concat (take i mc)) = i * BASE_PAGE_SIZE"
proof -
  have "length x = BASE_PAGE_SIZE" if x: "x \<in> set (take i mc)" for x
  proof -
    obtain j where j: "j < length (take i mc)" "take i mc ! j = x"
      using x by (metis in_set_conv_nth)
    then have "Suc j < length mc" "mc ! j = x" using assms(2) by auto
    then show ?thesis using buffers_ok_nth [OF assms(1)] by blast
  qed
  then have "length (concat (take i mc)) = BASE_PAGE_SIZE * length (take i mc)"
    by (intro concat_length_full) blast
  then show ?thesis using assms(2) by simp
qed

text \<open>\<open>get_size\<close> is the length of the content of a well-formed file.\<close>

lemma get_size_contents:
  assumes "file_inv f"
  shows "get_size f = length (contents f)"
proof (cases "mcache f" rule: rev_cases)
  case Nil
  then show ?thesis by (simp add: get_size_def contents_def)
next
  case (snoc bs b)
  have ok: "\<forall>x \<in> set bs. length x = BASE_PAGE_SIZE" "0 < length b"
    using assms snoc by (auto simp: file_inv_def buffers_ok_snoc)
  have "length (concat bs) = length bs * BASE_PAGE_SIZE"
    using concat_length_full [OF ok(1)] by simp
  then show ?thesis using ok(2) snoc
    by (simp add: get_size_def contents_def Let_def nth_append)
qed

lemma buffers_ok_map_length:
  assumes "map length mc' = map length mc"
  shows "buffers_ok mc' = buffers_ok mc"
proof (cases mc rule: rev_cases)
  case Nil
  with assms show ?thesis by simp
next
  case (snoc bs b)
  with assms obtain bs' b' where mc': "mc' = bs' @ [b']"
    by (cases mc' rule: rev_cases) auto
  have len: "length b' = length b" "map length bs' = map length bs"
    using assms snoc mc' by auto
  have "length ` set bs' = length ` set bs"
    using len(2) by (metis set_map)
  then have "(\<forall>x \<in> set bs'. length x = n) = (\<forall>x \<in> set bs. length x = n)" for n
    by (metis (mono_tags, lifting) imageE imageI)
  then show ?thesis using snoc mc' len(1) by (simp add: buffers_ok_snoc)
qed

section \<open>The copy loops\<close>

lemma buffers_ok_concat_le:
  assumes "buffers_ok mc"
  shows "length (concat mc) \<le> BASE_PAGE_SIZE * length mc"
proof (cases mc rule: rev_cases)
  case (snoc bs b)
  then have "length (concat bs) = BASE_PAGE_SIZE * length bs" "length b \<le> BASE_PAGE_SIZE"
    using assms concat_length_full [of bs BASE_PAGE_SIZE] by (auto simp: buffers_ok_snoc)
  then show ?thesis using snoc by simp
qed simp

lemma fits_in_buffer:
  assumes ok: "buffers_ok mc"
    and fit: "bn * BASE_PAGE_SIZE + off + n \<le> length (concat mc)"
    and n: "0 < n" "off + n \<le> BASE_PAGE_SIZE"
  shows "bn < length mc" and "off + n \<le> length (mc ! bn)"
proof -
  show bn: "bn < length mc"
    using buffers_ok_concat_le [OF ok] fit n(1) by linarith
  show "off + n \<le> length (mc ! bn)"
  proof (cases "Suc bn < length mc")
    case True
    then show ?thesis using buffers_ok_nth [OF ok] n by simp
  next
    case False
    then have "drop (Suc bn) mc = []" by simp
    then have "length (concat mc) = bn * BASE_PAGE_SIZE + length (mc ! bn)"
      using concat_split_at [OF bn] buffers_ok_prefix_length [OF ok bn] by simp
    then show ?thesis using fit by linarith
  qed
qed

lemma concat_copy_into_buffer:
  assumes ok: "buffers_ok mc" and bn: "bn < length mc"
    and fit: "off + length d \<le> length (mc ! bn)"
  shows "concat (mc[bn := copy_into (mc ! bn) off d])
           = copy_into (concat mc) (bn * BASE_PAGE_SIZE + off) d"
    and "map length (mc[bn := copy_into (mc ! bn) off d]) = map length mc"
proof -
  have pre: "length (concat (take bn mc)) = bn * BASE_PAGE_SIZE"
    by (rule buffers_ok_prefix_length [OF ok bn])
  show "concat (mc[bn := copy_into (mc ! bn) off d])
           = copy_into (concat mc) (bn * BASE_PAGE_SIZE + off) d"
    using copy_into_middle [OF fit, of "concat (take bn mc)" "concat (drop (Suc bn) mc)"]
    by (simp add: concat_list_update [OF bn] concat_split_at [OF bn] pre)
  show "map length (mc[bn := copy_into (mc ! bn) off d]) = map length mc"
    using fit bn by (simp add: map_update list_update_same_conv)
qed

lemma slice_concat_buffer:
  assumes ok: "buffers_ok mc" and bn: "bn < length mc" and b: "b \<le> length (mc ! bn)"
  shows "slice (concat mc) (bn * BASE_PAGE_SIZE + a) (bn * BASE_PAGE_SIZE + b)
           = slice (mc ! bn) a b"
proof (cases "a \<le> b")
  case True
  have pre: "length (concat (take bn mc)) = bn * BASE_PAGE_SIZE"
    by (rule buffers_ok_prefix_length [OF ok bn])
  show ?thesis
    using True b by (simp add: concat_split_at [OF bn] slice_def pre)
qed (simp add: slice_def)

declare write_loop.simps [simp del] read_loop.simps [simp del]

text \<open>
  The write loop overwrites exactly the bytes from its position on, keeps the length of every
  buffer, and returns whenever the range it writes lies within the file.
\<close>

lemma write_loop_correct:
  assumes "buffers_ok mc" and "copied \<le> len" and "len \<le> length us" and "off < BASE_PAGE_SIZE"
    and "bn * BASE_PAGE_SIZE + off + (len - copied) \<le> length (concat mc)"
  shows "\<exists>mc'. write_loop mc us len bn off copied copied = Some mc'
           \<and> map length mc' = map length mc
           \<and> concat mc' = copy_into (concat mc) (bn * BASE_PAGE_SIZE + off) (slice us copied len)"
  using assms
proof (induction "len - copied" arbitrary: mc bn off copied rule: less_induct)
  case less
  show ?case
  proof (cases "copied < len")
    case False
    with less.prems(2) show ?thesis by (simp add: write_loop.simps)
  next
    case True
    define n where "n = (if len - copied \<ge> BASE_PAGE_SIZE - off then BASE_PAGE_SIZE - off
                         else len - copied)"
    have n: "0 < n" "off + n \<le> BASE_PAGE_SIZE" "n \<le> len - copied"
      using True less.prems(4) by (auto simp: n_def)
    define d where "d = slice us copied (copied + n)"
    have ld: "length d = n" using n(3) less.prems(3) True by (simp add: d_def)
    have "bn * BASE_PAGE_SIZE + off + n \<le> length (concat mc)"
      using less.prems(5) n(3) by linarith
    note fit = fits_in_buffer [OF less.prems(1) this n(1,2)]
    define mc1 where "mc1 = mc[bn := copy_into (mc ! bn) off d]"
    have step: "concat mc1 = copy_into (concat mc) (bn * BASE_PAGE_SIZE + off) d"
      "map length mc1 = map length mc"
      using concat_copy_into_buffer [OF less.prems(1) fit(1)] fit(2) ld
      by (simp_all add: mc1_def)
    have len1: "length (concat mc1) = length (concat mc)"
      using step(2) by (simp add: length_concat)
    have unfold: "write_loop mc us len bn off copied copied
        = write_loop mc1 us len (bn + 1) 0 (copied + n) (copied + n)"
      using True less.prems(4) fit n(3) less.prems(3)
      by (subst write_loop.simps) (auto simp: Let_def n_def [symmetric] d_def mc1_def)
    show ?thesis
    proof (cases "copied + n = len")
      case full: True
      then have "write_loop mc us len bn off copied copied = Some mc1"
        unfolding unfold by (simp add: write_loop.simps)
      with step full show ?thesis by (simp add: d_def)
    next
      case False
      then have e: "off + n = BASE_PAGE_SIZE" "copied + n < len"
        using n(3) True less.prems(4) by (auto simp: n_def split: if_splits)
      have pos: "(bn + 1) * BASE_PAGE_SIZE = bn * BASE_PAGE_SIZE + off + n"
        using e(1) by simp
      have "(bn + 1) * BASE_PAGE_SIZE + 0 + (len - (copied + n)) \<le> length (concat mc1)"
        unfolding pos len1 using less.prems(5) n(3) by linarith
      moreover have "buffers_ok mc1"
        using buffers_ok_map_length [OF step(2)] less.prems(1) by simp
      moreover have "len - (copied + n) < len - copied" using n(1) True by linarith
      ultimately obtain mc2 where
        mc2: "write_loop mc1 us len (bn + 1) 0 (copied + n) (copied + n) = Some mc2"
          "map length mc2 = map length mc1"
          "concat mc2 = copy_into (concat mc1) ((bn + 1) * BASE_PAGE_SIZE + 0) (slice us (copied + n) len)"
        using less.hyps [of "copied + n" mc1 0 "bn + 1"] less.prems(3) e(2) by auto
      have "concat mc2 = copy_into (concat mc) (bn * BASE_PAGE_SIZE + off)
              (d @ slice us (copied + n) len)"
        unfolding mc2(3) step(1) add_0_right pos
        using copy_into_copy_into [of "bn * BASE_PAGE_SIZE + off" d "concat mc"]
          ld less.prems(5) n(3) by simp
      also have "d @ slice us (copied + n) len = slice us copied len"
        unfolding d_def using e(2) by (intro slice_append) simp_all
      finally show ?thesis using mc2 step(2) unfold by auto
    qed
  qed
qed

text \<open>The read loop copies exactly the requested range of the content to the front of the slice.\<close>

lemma read_loop_correct:
  assumes "buffers_ok mc" and "copied \<le> len" and "len \<le> length us" and "off < BASE_PAGE_SIZE"
    and "bn * BASE_PAGE_SIZE + off + (len - copied) \<le> length (concat mc)"
  shows "read_loop mc us len bn off copied copied
           = Some (copy_into us copied
                     (slice (concat mc) (bn * BASE_PAGE_SIZE + off)
                        (bn * BASE_PAGE_SIZE + off + (len - copied))), len)"
  using assms
proof (induction "len - copied" arbitrary: us bn off copied rule: less_induct)
  case less
  show ?case
  proof (cases "copied < len")
    case False
    with less.prems(2) show ?thesis by (simp add: read_loop.simps)
  next
    case True
    have "bn * BASE_PAGE_SIZE + off + 1 \<le> length (concat mc)" "off + 1 \<le> BASE_PAGE_SIZE"
      using True less.prems(4,5) by linarith+
    note bn = fits_in_buffer [OF less.prems(1) this(1) zero_less_one this(2)]
    define useful where "useful = length (mc ! bn) - off"
    have u: "0 < useful" "off + useful = length (mc ! bn)"
      using bn(2) by (auto simp: useful_def)
    define n where "n = (if len - copied \<ge> useful then useful else len - copied)"
    have n: "0 < n" "n \<le> len - copied" "off + n \<le> length (mc ! bn)"
      using True u by (auto simp: n_def)
    define d where "d = slice (mc ! bn) off (off + n)"
    have ld: "length d = n" using n(3) by (simp add: d_def)
    have d: "d = slice (concat mc) (bn * BASE_PAGE_SIZE + off) (bn * BASE_PAGE_SIZE + off + n)"
      using slice_concat_buffer [OF less.prems(1) bn(1) n(3), of off]
      by (simp add: d_def add.assoc)
    define us1 where "us1 = copy_into us copied d"
    have us1: "length us1 = length us"
      using ld n(2) less.prems(3) True by (simp add: us1_def)
    have unfold: "read_loop mc us len bn off copied copied
        = read_loop mc us1 len (bn + 1) 0 (copied + n) (copied + n)"
      using True bn n(2) less.prems(3)
      by (subst read_loop.simps)
        (auto simp: Let_def useful_def [symmetric] n_def [symmetric] d_def us1_def)
    show ?thesis
    proof (cases "copied + n = len")
      case full: True
      then have "len - copied = n" by simp
      with full show ?thesis unfolding unfold using d by (simp add: read_loop.simps us1_def)
    next
      case False
      then have e: "n = useful" "copied + n < len" using n(2) True by (auto simp: n_def split: if_splits)
      have "Suc bn < length mc"
      proof (rule ccontr)
        assume "\<not> Suc bn < length mc"
        then have "length (concat mc) = bn * BASE_PAGE_SIZE + length (mc ! bn)"
          using concat_split_at [OF bn(1)] buffers_ok_prefix_length [OF less.prems(1) bn(1)] by simp
        with less.prems(5) e u show False by linarith
      qed
      then have full: "length (mc ! bn) = BASE_PAGE_SIZE" by (rule buffers_ok_nth [OF less.prems(1)])
      have pos: "(bn + 1) * BASE_PAGE_SIZE = bn * BASE_PAGE_SIZE + off + n"
        using e(1) u(2) full by simp
      have "len - (copied + n) < len - copied" using n(1) True by linarith
      moreover have "(bn + 1) * BASE_PAGE_SIZE + 0 + (len - (copied + n)) \<le> length (concat mc)"
        unfolding pos using less.prems(5) n(2) by linarith
      ultimately have IH: "read_loop mc us1 len (bn + 1) 0 (copied + n) (copied + n)
          = Some (copy_into us1 (copied + n)
              (slice (concat mc) ((bn + 1) * BASE_PAGE_SIZE)
                 ((bn + 1) * BASE_PAGE_SIZE + (len - (copied + n)))), len)"
        using less.hyps [of "copied + n" us1 0 "bn + 1"] less.prems(1,3) e(2) us1 by simp
      let ?p = "bn * BASE_PAGE_SIZE + off"
      have "copy_into us1 (copied + n) z = copy_into us copied (d @ z)" for z
        using copy_into_copy_into [of copied d us] ld n(2) less.prems(3) True
        by (simp add: us1_def)
      moreover have "d @ slice (concat mc) (?p + n) (?p + (len - copied))
          = slice (concat mc) ?p (?p + (len - copied))"
        unfolding d using n(2) by (intro slice_append) simp_all
      moreover have "?p + n + (len - (copied + n)) = ?p + (len - copied)"
        using n(2) by linarith
      ultimately show ?thesis unfolding unfold IH pos by (simp only:)
    qed
  qed
qed

section \<open>Growing a file\<close>

lemma vec_resize_grow:
  "length d \<le> n \<Longrightarrow> vec_resize d n z = d @ replicate (n - length d) z"
  by (simp add: vec_resize_def)

lemma vec_resize_replicate:
  "vec_resize (replicate m z) n z = replicate n z"
  by (simp add: vec_resize_def replicate_add [symmetric])

lemma ceil_div_bounds:
  assumes "0 < r" and "0 < s"
  shows "0 < ceil_div r s" and "(ceil_div r s - 1) * s < r" and "r \<le> ceil_div r s * s"
proof -
  have r: "r = r div s * s + r mod s" by simp
  have m: "r mod s < s" using assms(2) by simp
  show le: "r \<le> ceil_div r s * s"
  proof (cases "r div s * s < r")
    case True
    then have "ceil_div r s * s = r div s * s + s" by (simp add: ceil_div_def Let_def)
    then show ?thesis using r m by linarith
  qed (simp add: ceil_div_def Let_def)
  show pos: "0 < ceil_div r s" using le assms(1) by (cases "ceil_div r s") auto
  show "(ceil_div r s - 1) * s < r"
  proof (cases "r mod s = 0")
    case True
    then have "ceil_div r s = r div s" "0 < r div s"
      using r assms(1) pos by (auto simp: ceil_div_def Let_def)
    then show ?thesis using r True assms(2) by (cases "r div s") auto
  next
    case False
    then have "r div s * s < r" using r by linarith
    then have "ceil_div r s = r div s + 1" by (simp add: ceil_div_def Let_def)
    then show ?thesis using \<open>r div s * s < r\<close> by simp
  qed
qed

lemma alloc_buffers_cases:
  obtains (ok) h' where
      "alloc_buffers h n vec = (h', Ok (vec @ replicate n (replicate BASE_PAGE_SIZE 0)))"
      "never_fails h \<Longrightarrow> never_fails h'"
  | (oom) h' where "alloc_buffers h n vec = (h', Err OutOfMemory)" "\<not> never_fails h"
proof (induction n arbitrary: h vec thesis)
  case 0
  then show ?case by simp
next
  case (Suc n)
  obtain c h1 where t: "heap_take h = (c, h1)" by (cases "heap_take h")
  show ?case
  proof (cases c)
    case False
    then show ?thesis
      using Suc.prems(2) [of h1] t heap_take_False [of h h1]
      by (simp add: try_alloc_buffer_def)
  next
    case True
    have step: "alloc_buffers h (Suc n) vec
        = alloc_buffers h1 n (vec @ [replicate BASE_PAGE_SIZE 0])"
      using t True by (simp add: try_alloc_buffer_def try_resize_def vec_resize_def)
    note nf = heap_take_keeps [OF t]
    show ?thesis
      by (rule Suc.IH [of h1 "vec @ [replicate BASE_PAGE_SIZE 0]"])
        (use Suc.prems step nf in \<open>auto\<close>)
  qed
qed

lemma try_append_cases:
  obtains (ok) h' where "try_append h f vec = ((h', f\<lparr>mcache := mcache f @ vec\<rparr>), Ok ())"
      "never_fails h \<Longrightarrow> never_fails h'"
  | (oom) h' where "try_append h f vec = ((h', f), Err OutOfMemory)" "\<not> never_fails h"
proof (cases "length (mcache f) + length vec \<le> MCACHE_CAPACITY")
  case True
  then show ?thesis using ok by (simp add: try_append_def)
next
  case False
  obtain c h1 where t: "heap_take h = (c, h1)" by (cases "heap_take h")
  then show ?thesis
    using False ok [of h1] oom [of h1] heap_take_False [of h h1] heap_take_keeps [OF t]
    by (cases c) (simp_all add: try_append_def)
qed

lemma zero_buffers:
  assumes full: "\<forall>b \<in> set mc. length b = BASE_PAGE_SIZE"
    and n: "0 < n" "n \<le> BASE_PAGE_SIZE"
  shows "buffers_ok (mc @ replicate k (replicate BASE_PAGE_SIZE 0) @ [replicate n 0])"
    and "concat (mc @ replicate k (replicate BASE_PAGE_SIZE 0) @ [replicate n 0])
           = concat mc @ replicate (k * BASE_PAGE_SIZE + n) 0"
proof -
  show "buffers_ok (mc @ replicate k (replicate BASE_PAGE_SIZE 0) @ [replicate n 0])"
    using buffers_ok_snoc [of "mc @ replicate k (replicate BASE_PAGE_SIZE 0)" "replicate n 0"]
      full n by auto
  have "concat (replicate k (replicate m (0::u8))) = replicate (k * m) 0" for m
    by (induction k) (simp_all add: replicate_add)
  then show "concat (mc @ replicate k (replicate BASE_PAGE_SIZE 0) @ [replicate n 0])
           = concat mc @ replicate (k * BASE_PAGE_SIZE + n) 0"
    by (simp add: replicate_add)
qed

lemma add_buffers_cases:
  assumes full: "\<forall>b \<in> set (mcache f). length b = BASE_PAGE_SIZE"
    and r: "0 < r" and new_len: "new_len = get_size f + r"
    and size: "get_size f = BASE_PAGE_SIZE * length (mcache f)"
  obtains (ok) h' f' where "add_buffers h f new_len r = ((h', f'), Ok ())" "file_inv f'"
      "contents f' = contents f @ replicate r 0" "modes f' = modes f"
      "never_fails h \<Longrightarrow> never_fails h'"
  | (oom) h' where "add_buffers h f new_len r = ((h', f), Err OutOfMemory)" "\<not> never_fails h"
proof -
  define m where "m = ceil_div r BASE_PAGE_SIZE"
  define n where "n = r - (m - 1) * BASE_PAGE_SIZE"
  have "0 < BASE_PAGE_SIZE" by simp
  note b = ceil_div_bounds [OF r this, folded m_def]
  have n: "0 < n" "n \<le> BASE_PAGE_SIZE" "(m - 1) * BASE_PAGE_SIZE + n = r"
    using b by (auto simp: n_def diff_mult_distrib)
  let ?vec = "replicate (m - 1) (replicate BASE_PAGE_SIZE 0) @ [replicate n 0] :: u8 list list"
  obtain m' where m': "m = Suc m'" using b(1) by (cases m) auto
  have vec: "replicate m (replicate BASE_PAGE_SIZE 0)
      = replicate (m - 1) (replicate BASE_PAGE_SIZE (0::u8)) @ [replicate BASE_PAGE_SIZE 0]"
    unfolding m' by (simp add: replicate_append_same)
  have whole: "n = BASE_PAGE_SIZE" if "new_len mod BASE_PAGE_SIZE = 0"
  proof -
    have "new_len = n + BASE_PAGE_SIZE * (length (mcache f) + (m - 1))"
      using new_len size n(3) by (simp add: algebra_simps)
    then have "n mod BASE_PAGE_SIZE = 0" using that mod_mult_self2 by metis
    then show ?thesis using n(1,2) by (cases "n = BASE_PAGE_SIZE") auto
  qed
  obtain c h1 where t: "heap_take h = (c, h1)" by (cases "heap_take h")
  show ?thesis
  proof (cases c)
    case False
    then show ?thesis using oom [of h1] t heap_take_False [of h h1] by (simp add: add_buffers_def)
  next
    case True
    note nf = heap_take_keeps [OF t]
    show ?thesis
    proof (cases rule: alloc_buffers_cases [of h1 m "[]"])
      case oom1: (oom h2)
      then show ?thesis using oom [of h2] t True nf by (auto simp: add_buffers_def m_def)
    next
      case ok1: (ok h2)
      have "new_len - (get_size f + (m - 1) * BASE_PAGE_SIZE) = n"
        "\<not> new_len < get_size f + (m - 1) * BASE_PAGE_SIZE"
        using new_len n(3) by linarith+
      then have eq: "add_buffers h f new_len r = try_append h2 f ?vec"
        using t True ok1(1) whole n(2)
        by (simp add: add_buffers_def m_def [symmetric] vec Let_def set_last_def try_resize_def
            vec_resize_replicate del: replicate_append_same)
      note zb = zero_buffers [OF full n(1,2), of "m - 1"]
      show ?thesis
      proof (cases rule: try_append_cases [of h2 f ?vec])
        case (ok h3)
        show ?thesis
          by (rule that(1) [of h3 "f\<lparr>mcache := mcache f @ ?vec\<rparr>"])
            (use eq ok zb n(3) ok1(2) nf in \<open>simp_all add: file_inv_def contents_def\<close>)
      next
        case (oom h3)
        then show ?thesis using eq that(2) ok1(2) nf by auto
      qed
    qed
  qed
qed

lemma full_get_size:
  assumes "\<forall>b \<in> set (mcache f). length b = BASE_PAGE_SIZE"
  shows "file_inv f" and "get_size f = BASE_PAGE_SIZE * length (mcache f)"
proof -
  show inv: "file_inv f"
    using assms by (cases "mcache f" rule: rev_cases) (auto simp: file_inv_def buffers_ok_snoc)
  show "get_size f = BASE_PAGE_SIZE * length (mcache f)"
    unfolding get_size_contents [OF inv] contents_def by (rule concat_length_full [OF assms])
qed

text \<open>
  \<open>increase_file_size\<close> on a well-formed file: it appends zeros up to the new length, or it
  reports that memory ran out and has at most padded the last buffer with zeros.
\<close>

lemma increase_file_size_cases:
  assumes inv: "file_inv f" and grow: "get_size f < new_len"
  obtains (ok) h' f' where "increase_file_size h f (get_size f) new_len = ((h', f'), Ok ())"
      "file_inv f'" "contents f' = pad_to (contents f) new_len" "modes f' = modes f"
      "never_fails h \<Longrightarrow> never_fails h'"
  | (oom) h' f' k where
      "increase_file_size h f (get_size f) new_len = ((h', f'), Err OutOfMemory)"
      "file_inv f'" "contents f' = contents f @ replicate k 0" "k < BASE_PAGE_SIZE"
      "length (contents f) + k < new_len" "modes f' = modes f" "\<not> never_fails h"
proof -
  note size = get_size_contents [OF inv]
  show ?thesis
  proof (cases "mcache f" rule: rev_cases)
    case Nil
    then have eq: "increase_file_size h f (get_size f) new_len = add_buffers h f new_len new_len"
      and z: "get_size f = 0" "contents f = []"
      using grow by (auto simp: increase_file_size_def grow_with_buffers_def get_size_def contents_def)
    show ?thesis
      by (rule add_buffers_cases [of f new_len new_len h])
        (use that Nil eq z grow inv in \<open>auto simp: pad_to_def\<close>)
  next
    case (snoc bs b)
    have b: "\<forall>x \<in> set bs. length x = BASE_PAGE_SIZE" "0 < length b" "length b \<le> BASE_PAGE_SIZE"
      using inv snoc by (auto simp: file_inv_def buffers_ok_snoc)
    define fr where "fr = BASE_PAGE_SIZE - length b"
    define add where "add = new_len - get_size f"
    show ?thesis
    proof (cases "add \<le> fr")
      case True
      define f' where "f' = f\<lparr>mcache := bs @ [b @ replicate add 0]\<rparr>"
      have "length b + add \<le> BASE_PAGE_SIZE" using True b(3) by (simp add: fr_def)
      then have "increase_file_size h f (get_size f) new_len = ((h, f'), Ok ())"
        using grow snoc b(3) True
        by (simp add: increase_file_size_def Let_def try_resize_def vec_resize_grow set_last_def
            f'_def add_def fr_def)
      moreover have "file_inv f'"
        using b \<open>length b + add \<le> BASE_PAGE_SIZE\<close>
        by (simp add: file_inv_def buffers_ok_snoc f'_def)
      moreover have "contents f' = pad_to (contents f) new_len"
        using size snoc by (simp add: contents_def pad_to_def f'_def add_def)
      ultimately show ?thesis using ok [of h f'] by (simp add: f'_def)
    next
      case False
      define f1 where "f1 = f\<lparr>mcache := bs @ [b @ replicate fr 0]\<rparr>"
      have eq: "increase_file_size h f (get_size f) new_len = add_buffers h f1 new_len (add - fr)"
        using grow snoc b(3) False
        by (simp add: increase_file_size_def grow_with_buffers_def Let_def try_resize_def
            vec_resize_grow set_last_def f1_def add_def [symmetric] fr_def [symmetric])
      have full: "\<forall>x \<in> set (mcache f1). length x = BASE_PAGE_SIZE"
        using b by (simp add: f1_def fr_def)
      note f1 = full_get_size [OF full]
      have c1: "contents f1 = contents f @ replicate fr 0"
        using snoc by (simp add: f1_def contents_def)
      then have s1: "get_size f1 = get_size f + fr"
        using get_size_contents [OF f1(1)] size by simp
      then have "new_len = get_size f1 + (add - fr)" "0 < add - fr"
        using False grow by (auto simp: add_def)
      note pre = full this(2,1) f1(2)
      have fr: "fr < BASE_PAGE_SIZE" "length (contents f) + fr < new_len"
        using b(2) False grow size by (auto simp: fr_def add_def)
      have p: "replicate fr (0::u8) @ replicate (add - fr) 0 = replicate (new_len - length (contents f)) 0"
        using False by (simp add: replicate_add [symmetric] add_def size)
      show ?thesis
        by (rule add_buffers_cases [OF pre, of h])
          (use that eq c1 p fr f1 in \<open>auto simp: pad_to_def f1_def\<close>)
    qed
  qed
qed

section \<open>Reading and writing\<close>

lemma length_pad_to [simp]: "length (pad_to c n) = max (length c) n"
  by (simp add: pad_to_def)

lemma pad_to_short: "n \<le> length c \<Longrightarrow> pad_to c n = c"
  by (simp add: pad_to_def)

lemma length_write_spec:
  "length (write_spec c off d) = max (length c) (off + length d)"
  by (simp add: write_spec_def)

lemma page_split:
  "offset_to_buffernum off BASE_PAGE_SIZE * BASE_PAGE_SIZE
     + (off - offset_to_buffernum off BASE_PAGE_SIZE * BASE_PAGE_SIZE) = off"
  "off - offset_to_buffernum off BASE_PAGE_SIZE * BASE_PAGE_SIZE < BASE_PAGE_SIZE"
  by (simp_all add: offset_to_buffernum_def minus_div_mult_eq_mod)

lemma write_file_in_place:
  assumes inv: "file_inv f" and len: "len \<le> length us" and fit: "off + len \<le> length (contents f)"
  obtains f' where
    "(case write_loop (mcache f) us len (offset_to_buffernum off BASE_PAGE_SIZE)
        (off - offset_to_buffernum off BASE_PAGE_SIZE * BASE_PAGE_SIZE) 0 0 of
        None \<Rightarrow> ((h, f), Panic)
      | Some mc \<Rightarrow> ((h, f\<lparr>mcache := mc\<rparr>), Ok len)) = ((h, f'), Ok len)"
    "file_inv f'" "modes f' = modes f" "contents f' = copy_into (contents f) off (take len us)"
proof -
  let ?bn = "offset_to_buffernum off BASE_PAGE_SIZE"
  have "?bn * BASE_PAGE_SIZE + (off - ?bn * BASE_PAGE_SIZE) + (len - 0) \<le> length (concat (mcache f))"
    unfolding page_split using fit by (simp add: contents_def)
  from write_loop_correct [OF inv [unfolded file_inv_def] le0 len page_split(2) this]
  obtain mc where mc:
    "write_loop (mcache f) us len ?bn (off - ?bn * BASE_PAGE_SIZE) 0 0 = Some mc"
    "map length mc = map length (mcache f)"
    "concat mc = copy_into (concat (mcache f)) off (slice us 0 len)"
    unfolding page_split by blast
  have "file_inv (f\<lparr>mcache := mc\<rparr>)"
    using inv buffers_ok_map_length [OF mc(2)] by (simp add: file_inv_def)
  then show ?thesis
    using that [of "f\<lparr>mcache := mc\<rparr>"] mc by (simp add: contents_def slice_def)
qed

lemma write_file_cases:
  assumes inv: "file_inv f" and len: "len \<le> length us" and lim: "off + len < usize_limit"
  obtains (ok) h' f' where "write_file h f us len off = ((h', f'), Ok len)"
      "file_inv f'" "modes f' = modes f" "contents f' = write_spec (contents f) off (take len us)"
      "never_fails h \<Longrightarrow> never_fails h'"
  | (oom) h' f' k where "write_file h f us len off = ((h', f'), Err OutOfMemory)"
      "file_inv f'" "modes f' = modes f" "contents f' = contents f @ replicate k 0"
      "k < BASE_PAGE_SIZE" "length (contents f) + k < off + len" "\<not> never_fails h"
proof -
  note size = get_size_contents [OF inv]
  have tk: "length (take len us) = len" using len by simp
  show ?thesis
  proof (cases "get_size f < off + len")
    case False
    then have "off + len \<le> length (contents f)" using size by simp
    then obtain f' where f': "write_file h f us len off = ((h, f'), Ok len)" "file_inv f'"
      "modes f' = modes f" "contents f' = copy_into (contents f) off (take len us)"
      using write_file_in_place [OF inv len, of off h] False lim
      by (auto simp: write_file_def Let_def)
    then show ?thesis using False size tk ok by (simp add: write_spec_def pad_to_short)
  next
    case True
    then have pos: "0 < off \<or> 0 < len" by auto
    from inv True show ?thesis
    proof (cases rule: increase_file_size_cases [of f "off + len" h])
      case (oom h1 f1 k)
      then show ?thesis using that(2) [of h1 f1 k] True lim pos by (simp add: write_file_def)
    next
      case (ok h1 f1)
      have "off + len \<le> length (contents f1)" using ok(3) by simp
      then obtain f' where f': "write_file h f us len off = ((h1, f'), Ok len)" "file_inv f'"
        "modes f' = modes f1" "contents f' = copy_into (contents f1) off (take len us)"
        using write_file_in_place [OF ok(2) len, of off h1] True lim pos ok(1)
        by (auto simp: write_file_def Let_def)
      then show ?thesis using ok tk that(1) by (simp add: write_spec_def)
    qed
  qed
qed

lemma read_file_eq:
  assumes inv: "file_inv f" and le: "a \<le> b" "b \<le> length (contents f)" "b - a \<le> length us"
  shows "read_file f us a b = Ok (copy_into us 0 (slice (contents f) a b), b - a)"
proof -
  let ?bn = "offset_to_buffernum a BASE_PAGE_SIZE"
  have "?bn * BASE_PAGE_SIZE + (a - ?bn * BASE_PAGE_SIZE) + ((b - a) - 0) \<le> length (concat (mcache f))"
    unfolding page_split using le by (simp add: contents_def)
  from read_loop_correct [OF inv [unfolded file_inv_def] le0 le(3) page_split(2) this]
  show ?thesis
    using le(1) unfolding page_split by (simp add: read_file_def contents_def)
qed

section \<open>The contract of a byte file\<close>

text \<open>
  What the node layer relies on: an abstract content, a size, and a read and a write that act on
  the content.  The lemmas of the locale hold for every implementation of the contract.
\<close>

locale byte_file =
  fixes inv :: "'f \<Rightarrow> bool"
    and content :: "'f \<Rightarrow> u8 list"
    and size_of :: "'f \<Rightarrow> nat"
    and readf :: "'f \<Rightarrow> u8 list \<Rightarrow> nat \<Rightarrow> nat \<Rightarrow> (u8 list \<times> nat) kres"
    and writef :: "'f \<Rightarrow> u8 list \<Rightarrow> nat \<Rightarrow> 'f \<times> nat kres"
  assumes size_law: "inv f \<Longrightarrow> size_of f = length (content f)"
    and read_law: "\<lbrakk>inv f; a \<le> b; b \<le> length (content f); b - a \<le> length us\<rbrakk>
      \<Longrightarrow> readf f us a b = Ok (copy_into us 0 (slice (content f) a b), b - a)"
    and write_law: "\<lbrakk>inv f; off + length d < usize_limit\<rbrakk>
      \<Longrightarrow> \<exists>f'. writef f d off = (f', Ok (length d)) \<and> inv f' \<and> content f' = write_spec (content f) off d"
begin

lemma size_after_write:
  assumes "inv f" and "off + length d < usize_limit"
  shows "size_of (fst (writef f d off)) = max (size_of f) (off + length d)"
  using write_law [OF assms] size_law assms(1) by (auto simp: length_write_spec)

lemma read_after_write:
  assumes "inv f" and "off + length d < usize_limit" and "length d \<le> length us"
  shows "readf (fst (writef f d off)) us off (off + length d) = Ok (copy_into us 0 d, length d)"
proof -
  obtain f' where f': "writef f d off = (f', Ok (length d))" "inv f'"
    "content f' = write_spec (content f) off d"
    using write_law [OF assms(1,2)] by blast
  have "slice (write_spec (content f) off d) off (off + length d) = d"
    by (simp add: write_spec_def slice_copy_into)
  then show ?thesis
    using read_law [OF f'(2), of off "off + length d" us] f'(1,3) assms(3)
    by (simp add: length_write_spec)
qed

end

text \<open>\<open>file.rs\<close> meets the contract on a heap that does not run out of memory.\<close>

definition write_all :: "MFile \<Rightarrow> u8 list \<Rightarrow> nat \<Rightarrow> MFile \<times> nat kres" where
  "write_all f d off = (case write_file [] f d (length d) off of ((h, f'), r) \<Rightarrow> (f', r))"

lemma write_all_ok:
  assumes "file_inv f" and "off + length d < usize_limit"
  shows "\<exists>f'. write_all f d off = (f', Ok (length d)) \<and> file_inv f'
           \<and> contents f' = write_spec (contents f) off d"
  using assms(1) le_refl [of "length d"] assms(2)
  by (cases rule: write_file_cases [of f "length d" d off "[]"]) (auto simp: write_all_def)

interpretation mfile: byte_file file_inv contents get_size read_file write_all
  by unfold_locales (use write_all_ok in \<open>auto simp: get_size_contents read_file_eq\<close>)

section \<open>Properties\<close>



text \<open>
  Whatever allocations fail, \<open>write_file\<close> on a well-formed file never panics and keeps the
  file well formed; its only error is \<open>OutOfMemory\<close>, after which the old content is still there
  and at most the rest of its last page has been filled with zeros.
\<close>
lemma write_file_any_heap:
  assumes "file_inv f" and "len \<le> length user_slice" and "start_offset + len < usize_limit"
  shows "case write_file h f user_slice len start_offset of ((h', f'), r) \<Rightarrow>
           file_inv f' \<and> modes f' = modes f
           \<and> (r = Ok len \<and> contents f' = write_spec (contents f) start_offset (take len user_slice)
              \<or> r = Err OutOfMemory
                \<and> (\<exists>k < BASE_PAGE_SIZE. contents f' = contents f @ replicate k 0))"
  using assms
  by (cases rule: write_file_cases [of f len user_slice start_offset h]) auto

text \<open>
  A range that was written is read back unchanged, and the size reported afterwards is the
  larger of the old size and the end of the range.
\<close>
lemma read_file_after_write:
  assumes "file_inv f" and "start_offset + length d < usize_limit" and "length d \<le> length buf"
  shows "read_file (fst (write_all f d start_offset)) buf start_offset (start_offset + length d)
           = Ok (copy_into buf 0 d, length d)
         \<and> get_size (fst (write_all f d start_offset)) = max (get_size f) (start_offset + length d)"
  using mfile.read_after_write [OF assms] mfile.size_after_write [OF assms(1,2)] by blast

end
