(* ===== verification/MemNodes.thy ===== *)
theory MemNodes
  imports FileBuf
begin

text \<open>
  Memory nodes, the inodes of the in-memory file system (\<open>kernel/src/fs/mnode.rs\<close>), and the
  fallible copy of a string (\<open>kernel/src/fallible_string.rs\<close>).  A node is a directory or a file;
  reads and writes check the mode bits of the file before they reach its buffers.
\<close>

section \<open>Model\<close>

text \<open>\<open>TryString::try_from\<close>: an empty string reserves nothing.\<close>

definition TryString_try_from :: "heap \<Rightarrow> string \<Rightarrow> heap \<times> string kres" where
  "TryString_try_from h s =
     (if s = [] then (h, Ok s)
      else (case heap_take h of (True, h') \<Rightarrow> (h', Ok s) | (False, h') \<Rightarrow> (h', Err OutOfMemory)))"

record MemNode =
  mnode_num :: nat
  mname :: string
  node_type :: FileType
  mfile :: "MFile option"

definition MemNode_default :: MemNode where
  "MemNode_default = \<lparr>mnode_num = usize_max, mname = [], node_type = File, mfile = None\<rparr>"

definition MemNode_new :: "heap \<Rightarrow> nat \<Rightarrow> string \<Rightarrow> u64 \<Rightarrow> FileType \<Rightarrow> heap \<times> MemNode kres" where
  "MemNode_new h mno pathname md nt =
     and_then (case nt of
                 Directory \<Rightarrow> (h, Ok None)
               | File \<Rightarrow> (case File_new h md of (h', r) \<Rightarrow> (h', map_result Some r)))
       (\<lambda>h1 file. and_then (TryString_try_from h1 pathname)
         (\<lambda>h2 nm. (h2, Ok \<lparr>mnode_num = mno, mname = nm, node_type = nt, mfile = file\<rparr>)))"

text \<open>\<open>self.file.as_ref().unwrap()\<close> on a file node without a file is a panic.\<close>

definition MemNode_write :: "heap \<Rightarrow> MemNode \<Rightarrow> u8 list \<Rightarrow> nat \<Rightarrow> (heap \<times> MemNode) \<times> nat kres" where
  "MemNode_write h n buffer off =
     (if node_type n \<noteq> File then ((h, n), Err PermissionError)
      else case mfile n of
             None \<Rightarrow> ((h, n), Panic)
           | Some f \<Rightarrow>
               (if \<not> modes_is_writable (get_mode f) then ((h, n), Err PermissionError)
                else case write_file h f buffer (length buffer) off of
                       ((h', f'), r) \<Rightarrow> ((h', n\<lparr>mfile := Some f'\<rparr>), r)))"

definition get_file_size :: "MemNode \<Rightarrow> nat kres" where
  "get_file_size n = (case mfile n of None \<Rightarrow> Panic | Some f \<Rightarrow> Ok (get_size f))"

definition get_mnode_type :: "MemNode \<Rightarrow> FileType" where
  "get_mnode_type n = node_type n"

definition MemNode_read :: "MemNode \<Rightarrow> u8 list \<Rightarrow> nat \<Rightarrow> (u8 list \<times> nat) kres" where
  "MemNode_read n buffer off =
     (if node_type n \<noteq> File then Err PermissionError
      else case mfile n of
             None \<Rightarrow> Panic
           | Some f \<Rightarrow>
               (if \<not> modes_is_readable (get_mode f) then Err PermissionError
                else bind_result (get_file_size n) (\<lambda>file_size.
                  if off > file_size then Ok (buffer, 0)
                  else let bytes_to_read = min (file_size - off) (length buffer);
                           new_offset = off + bytes_to_read
                    in if bytes_to_read = 0 then Ok (buffer, 0)
                       else if off \<ge> new_offset \<or> new_offset > file_size then Err InvalidOffset
                       else read_file f buffer off new_offset)))"

definition MemNode_truncate :: "MemNode \<Rightarrow> MemNode \<times> unit kres" where
  "MemNode_truncate n =
     (if node_type n \<noteq> File then (n, Err PermissionError)
      else case mfile n of
             None \<Rightarrow> (n, Panic)
           | Some f \<Rightarrow>
               (if \<not> modes_is_writable (get_mode f) then (n, Err PermissionError)
                else (n\<lparr>mfile := Some (file_truncate f)\<rparr>, Ok ())))"

section \<open>Well-formed nodes\<close>

definition memnode_inv :: "MemNode \<Rightarrow> bool" where
  "memnode_inv n \<longleftrightarrow>
     (case mfile n of None \<Rightarrow> node_type n = Directory | Some f \<Rightarrow> node_type n = File \<and> file_inv f)"

text \<open>What a client can see of a node: its type, its mode bits and its bytes.\<close>

record FsObject =
  obj_type :: FileType
  obj_modes :: u64
  obj_data :: "u8 list"

definition node_object :: "MemNode \<Rightarrow> FsObject" where
  "node_object n = (case mfile n of
       None \<Rightarrow> \<lparr>obj_type = node_type n, obj_modes = 0, obj_data = []\<rparr>
     | Some f \<Rightarrow> \<lparr>obj_type = node_type n, obj_modes = modes f, obj_data = contents f\<rparr>)"

lemma memnode_inv_cases:
  assumes "memnode_inv n"
  obtains (dir) "node_type n = Directory" "mfile n = None"
  | (regular) f where "node_type n = File" "mfile n = Some f" "file_inv f"
  using assms by (cases "mfile n") (auto simp: memnode_inv_def)

lemma TryString_cases:
  obtains (ok) h' where "TryString_try_from h s = (h', Ok s)" "never_fails h \<Longrightarrow> never_fails h'"
  | (oom) h' where "TryString_try_from h s = (h', Err OutOfMemory)" "\<not> never_fails h"
proof (cases "s = []")
  case True
  then show ?thesis using ok [of h] by (simp add: TryString_try_from_def)
next
  case False
  obtain c h1 where t: "heap_take h = (c, h1)" by (cases "heap_take h")
  then show ?thesis
    using False ok [of h1] oom [of h1] heap_take_False [of h h1] heap_take_keeps [OF t]
    by (cases c) (simp_all add: TryString_try_from_def)
qed

lemma File_new_cases:
  obtains (ok) h' where "File_new h md = (h', Ok \<lparr>mcache = [], modes = FileModes_from md\<rparr>)"
      "never_fails h \<Longrightarrow> never_fails h'"
  | (oom) h' where "File_new h md = (h', Err OutOfMemory)" "\<not> never_fails h"
proof -
  obtain c h1 where t: "heap_take h = (c, h1)" by (cases "heap_take h")
  then show ?thesis
    using ok [of h1] oom [of h1] heap_take_False [of h h1] heap_take_keeps [OF t]
    by (cases c) (simp_all add: File_new_def)
qed

text \<open>The object a new node stands for.\<close>

definition new_object :: "FileType \<Rightarrow> u64 \<Rightarrow> FsObject" where
  "new_object nt md =
     \<lparr>obj_type = nt, obj_modes = (if nt = File then FileModes_from md else 0), obj_data = []\<rparr>"

lemma MemNode_new_cases:
  obtains (ok) h' n where "MemNode_new h mno p md nt = (h', Ok n)" "memnode_inv n"
      "mnode_num n = mno" "mname n = p" "node_object n = new_object nt md"
      "never_fails h \<Longrightarrow> never_fails h'"
  | (oom) h' where "MemNode_new h mno p md nt = (h', Err OutOfMemory)" "\<not> never_fails h"
proof (cases nt)
  case Directory
  show ?thesis
    by (cases rule: TryString_cases [of h p])
      (use that Directory in \<open>auto simp: MemNode_new_def memnode_inv_def node_object_def new_object_def\<close>)
next
  case nt: File
  show ?thesis
  proof (cases rule: File_new_cases [of h md])
    case ok1: (ok h1)
    show ?thesis
      by (cases rule: TryString_cases [of h1 p])
        (use that nt ok1 in \<open>auto simp: MemNode_new_def memnode_inv_def node_object_def
           new_object_def file_inv_def contents_def\<close>)
  next
    case oom1: (oom h1)
    then show ?thesis using that nt by (simp add: MemNode_new_def)
  qed
qed

lemma MemNode_write_cases:
  assumes "memnode_inv n" and "off + length d < usize_limit"
  obtains (denied) "MemNode_write h n d off = ((h, n), Err PermissionError)"
      "\<not> (node_type n = File \<and> modes_is_writable (obj_modes (node_object n)))"
  | (ok) h' n' where "MemNode_write h n d off = ((h', n'), Ok (length d))" "memnode_inv n'"
      "mnode_num n' = mnode_num n" "node_type n = File" "modes_is_writable (obj_modes (node_object n))"
      "node_object n' = (node_object n)\<lparr>obj_data := write_spec (obj_data (node_object n)) off d\<rparr>"
      "never_fails h \<Longrightarrow> never_fails h'"
  | (oom) h' n' k where "MemNode_write h n d off = ((h', n'), Err OutOfMemory)" "memnode_inv n'"
      "mnode_num n' = mnode_num n" "node_type n = File" "modes_is_writable (obj_modes (node_object n))"
      "node_object n' = (node_object n)\<lparr>obj_data := obj_data (node_object n) @ replicate k 0\<rparr>"
      "k < BASE_PAGE_SIZE" "\<not> never_fails h"
  using assms(1)
proof (cases rule: memnode_inv_cases)
  case dir
  then show ?thesis using denied by (simp add: MemNode_write_def)
next
  case reg: (regular f)
  have m: "obj_modes (node_object n) = get_mode f" using reg by (simp add: node_object_def get_mode_def)
  show ?thesis
  proof (cases "modes_is_writable (get_mode f)")
    case False
    then show ?thesis using denied reg m by (simp add: MemNode_write_def)
  next
    case True
    from reg(3) le_refl [of "length d"] assms(2) show ?thesis
    proof (cases rule: write_file_cases [of f "length d" d off h])
      case w: (ok h' f')
      show ?thesis
        by (rule ok [of h' "n\<lparr>mfile := Some f'\<rparr>"])
          (use reg True w m in \<open>simp_all add: MemNode_write_def memnode_inv_def node_object_def\<close>)
    next
      case w: (oom h' f' k)
      show ?thesis
        by (rule oom [of h' "n\<lparr>mfile := Some f'\<rparr>" k])
          (use reg True w m in \<open>simp_all add: MemNode_write_def memnode_inv_def node_object_def\<close>)
    qed
  qed
qed

text \<open>
  A read returns as many bytes as the buffer takes and the file has after the offset; beyond the
  end of the file that is none.
\<close>

definition read_spec :: "u8 list \<Rightarrow> u8 list \<Rightarrow> nat \<Rightarrow> u8 list \<times> nat" where
  "read_spec c buffer off =
     (let k = min (length c - off) (length buffer) in (copy_into buffer 0 (take k (drop off c)), k))"

lemma MemNode_read_eq:
  assumes "memnode_inv n"
  shows "MemNode_read n buf off =
    (if node_type n = File \<and> modes_is_readable (obj_modes (node_object n))
     then Ok (read_spec (obj_data (node_object n)) buf off)
     else Err PermissionError)"
  using assms
proof (cases rule: memnode_inv_cases)
  case dir
  then show ?thesis by (simp add: MemNode_read_def)
next
  case reg: (regular f)
  define k where "k = min (length (contents f) - off) (length buf)"
  have obj: "node_object n = \<lparr>obj_type = File, obj_modes = get_mode f, obj_data = contents f\<rparr>"
    using reg by (simp add: node_object_def get_mode_def)
  have size: "get_file_size n = Ok (length (contents f))"
    using reg by (simp add: get_file_size_def get_size_contents)
  show ?thesis
  proof (cases "modes_is_readable (get_mode f)")
    case False
    then show ?thesis using reg obj by (simp add: MemNode_read_def)
  next
    case True
    have spec: "read_spec (contents f) buf off = (copy_into buf 0 (take k (drop off (contents f))), k)"
      by (simp add: read_spec_def k_def Let_def)
    show ?thesis
    proof (cases "k = 0")
      case z: True
      then show ?thesis using True reg obj size spec k_def
        by (auto simp: MemNode_read_def Let_def)
    next
      case False
      then have le: "off < length (contents f)" "off + k \<le> length (contents f)" "k \<le> length buf"
        by (auto simp: k_def)
      then have "read_file f buf off (off + k)
          = Ok (copy_into buf 0 (slice (contents f) off (off + k)), k)"
        using read_file_eq [OF reg(3), of off "off + k" buf] by simp
      then show ?thesis using True reg obj size spec k_def le False
        by (auto simp: MemNode_read_def Let_def slice_def)
    qed
  qed
qed

lemma MemNode_truncate_cases:
  assumes "memnode_inv n"
  obtains (denied) "MemNode_truncate n = (n, Err PermissionError)"
      "\<not> (node_type n = File \<and> modes_is_writable (obj_modes (node_object n)))"
  | (ok) n' where "MemNode_truncate n = (n', Ok ())" "memnode_inv n'" "mnode_num n' = mnode_num n"
      "node_type n = File" "modes_is_writable (obj_modes (node_object n))"
      "node_object n' = (node_object n)\<lparr>obj_data := []\<rparr>"
  using assms
proof (cases rule: memnode_inv_cases)
  case dir
  then show ?thesis using denied by (simp add: MemNode_truncate_def)
next
  case reg: (regular f)
  show ?thesis
  proof (cases "modes_is_writable (get_mode f)")
    case False
    then show ?thesis using denied reg
      by (simp add: MemNode_truncate_def node_object_def get_mode_def)
  next
    case True
    show ?thesis
      by (rule ok [of "n\<lparr>mfile := Some (file_truncate f)\<rparr>"])
        (use True reg in \<open>simp_all add: MemNode_truncate_def memnode_inv_def node_object_def
           get_mode_def file_truncate_def file_inv_def contents_def\<close>)
  qed
qed

end
