(* ===== verification/MlnrFs.thy ===== *)
theory MlnrFs
  imports MemNodes
begin

text \<open>
  The in-memory file system (\<open>kernel/src/fs/mod.rs\<close>) and the per-process descriptor table
  (\<open>kernel/src/fs/fd.rs\<close>).

  \<open>MlnrFS\<close> maps path names to memory node numbers and node numbers to nodes.  The path map of the
  code holds an \<open>Arc<Mnode>\<close>; \<open>arcs\<close> is the strong count of the \<open>Arc\<close> that was created for a
  node number, which \<open>delete\<close> inspects.  Every lock of the code protects one field, and each
  operation is modelled as it runs when no other thread holds a lock.  The functions that allocate
  thread the allocation schedule beside the file system.
\<close>

section \<open>Model\<close>

abbreviation MNODE_OFFSET :: nat where "MNODE_OFFSET \<equiv> 2"

record MlnrFS =
  mnodes :: "nat \<rightharpoonup> MemNode"
  files :: "string \<rightharpoonup> nat"
  arcs :: "nat \<Rightarrow> nat"
  root :: "string \<times> nat"
  nextmemnode :: nat

text \<open>
  Allocation helpers: \<open>try_reserve\<close> and \<open>Arc::try_new\<close> report exhaustion, a \<open>HashMap::insert\<close>
  without a reservation aborts, and \<open>unwrap\<close> or \<open>expect\<close> turn an error into a panic.
\<close>

definition try_reserve :: "heap \<Rightarrow> heap \<times> unit kres" where
  "try_reserve h = (case heap_take h of (True, h') \<Rightarrow> (h', Ok ()) | (False, h') \<Rightarrow> (h', Err OutOfMemory))"

definition infallible_alloc :: "heap \<Rightarrow> heap \<times> unit kres" where
  "infallible_alloc h = (case heap_take h of (True, h') \<Rightarrow> (h', Ok ()) | (False, h') \<Rightarrow> (h', Panic))"

definition in_fs :: "'f \<Rightarrow> heap \<times> 'a kres \<Rightarrow> (heap \<times> 'f) \<times> 'a kres" where
  "in_fs fs r = (case r of (h, x) \<Rightarrow> ((h, fs), x))"

definition with_heap :: "heap \<Rightarrow> 'f \<times> 'a kres \<Rightarrow> (heap \<times> 'f) \<times> 'a kres" where
  "with_heap h r = (case r of (fs, x) \<Rightarrow> ((h, fs), x))"

lemma with_heap_simp [simp]: "with_heap h (fs, x) = ((h, fs), x)"
  by (simp add: with_heap_def)

lemma in_fs_simp [simp]: "in_fs fs (h, x) = ((h, fs), x)"
  by (simp add: in_fs_def)

definition MlnrFS_default :: "heap \<Rightarrow> heap \<times> MlnrFS kres" where
  "MlnrFS_default h =
     and_then (expect (MemNode_new h 1 ''/'' S_IRWXU Directory)) (\<lambda>h1 rootnode.
     and_then (infallible_alloc h1) (\<lambda>h2 _.
     and_then (expect (TryString_try_from h2 ''/'')) (\<lambda>h3 key.
     and_then (expect (try_reserve h3)) (\<lambda>h4 _.
     and_then (infallible_alloc h4) (\<lambda>h5 _.
     and_then (expect (TryString_try_from h5 ''/'')) (\<lambda>h6 rootname.
       (h6, Ok \<lparr>mnodes = [1 \<mapsto> rootnode], files = [key \<mapsto> 1], arcs = (\<lambda>_. 0)(1 := 1),
                root = (rootname, 1), nextmemnode = MNODE_OFFSET\<rparr>)))))))"

text \<open>\<open>fetch_add\<close> on the \<open>AtomicUsize\<close> returns the old value and wraps.\<close>

definition get_next_mno :: "MlnrFS \<Rightarrow> MlnrFS \<times> nat" where
  "get_next_mno fs = (fs\<lparr>nextmemnode := (nextmemnode fs + 1) mod usize_limit\<rparr>, nextmemnode fs)"

text \<open>The common body of \<open>create\<close> and \<open>mkdir\<close>.\<close>

definition add_memnode ::
  "heap \<Rightarrow> MlnrFS \<Rightarrow> string \<Rightarrow> u64 \<Rightarrow> FileType \<Rightarrow> (heap \<times> MlnrFS) \<times> nat kres" where
  "add_memnode h fs pathname md nt =
     (if files fs pathname \<noteq> None then ((h, fs), Err AlreadyPresent)
      else and_then (in_fs fs (TryString_try_from h pathname)) (\<lambda>(h1, fs) key.
        case get_next_mno fs of (fs1, mno) \<Rightarrow>
        and_then (in_fs fs1 (try_reserve h1)) (\<lambda>(h2, fs1) _.
        and_then (in_fs fs1 (try_reserve h2)) (\<lambda>(h3, fs1) _.
        and_then (in_fs fs1 (MemNode_new h3 mno pathname md nt)) (\<lambda>(h4, fs1) memnode.
        and_then (in_fs fs1 (infallible_alloc h4)) (\<lambda>(h5, fs1) _.
          ((h5, fs1\<lparr>files := (files fs1)(key \<mapsto> mno), arcs := (arcs fs1)(mno := 1),
                    mnodes := (mnodes fs1)(mno \<mapsto> memnode)\<rparr>), Ok mno)))))))"

definition MlnrFS_create :: "heap \<Rightarrow> MlnrFS \<Rightarrow> string \<Rightarrow> u64 \<Rightarrow> (heap \<times> MlnrFS) \<times> nat kres" where
  "MlnrFS_create h fs pathname md = add_memnode h fs pathname md File"

definition MlnrFS_mkdir :: "heap \<Rightarrow> MlnrFS \<Rightarrow> string \<Rightarrow> u64 \<Rightarrow> (heap \<times> MlnrFS) \<times> unit kres" where
  "MlnrFS_mkdir h fs pathname md =
     (case add_memnode h fs pathname md Directory of (s, r) \<Rightarrow> (s, map_result (\<lambda>_. ()) r))"

definition MlnrFS_write ::
  "heap \<Rightarrow> MlnrFS \<Rightarrow> nat \<Rightarrow> u8 list \<Rightarrow> nat \<Rightarrow> (heap \<times> MlnrFS) \<times> nat kres" where
  "MlnrFS_write h fs mno buffer off =
     (case mnodes fs mno of
        Some n \<Rightarrow> (case MemNode_write h n buffer off of
                     ((h', n'), r) \<Rightarrow> ((h', fs\<lparr>mnodes := (mnodes fs)(mno \<mapsto> n')\<rparr>), r))
      | None \<Rightarrow> ((h, fs), Err InvalidFile))"

definition MlnrFS_read :: "MlnrFS \<Rightarrow> nat \<Rightarrow> u8 list \<Rightarrow> nat \<Rightarrow> (u8 list \<times> nat) kres" where
  "MlnrFS_read fs mno buffer off =
     (case mnodes fs mno of
        Some n \<Rightarrow> MemNode_read n buffer off
      | None \<Rightarrow> Err InvalidFile)"

text \<open>\<open>lookup\<close> clones the \<open>Arc\<close>; the caller's clone is dropped when it goes out of scope.\<close>

definition MlnrFS_lookup :: "MlnrFS \<Rightarrow> string \<Rightarrow> MlnrFS \<times> nat option" where
  "MlnrFS_lookup fs pathname =
     (case files fs pathname of
        Some mno \<Rightarrow> (fs\<lparr>arcs := (arcs fs)(mno := arcs fs mno + 1)\<rparr>, Some mno)
      | None \<Rightarrow> (fs, None))"

definition arc_drop :: "MlnrFS \<Rightarrow> nat \<Rightarrow> MlnrFS" where
  "arc_drop fs mno = fs\<lparr>arcs := (arcs fs)(mno := arcs fs mno - 1)\<rparr>"

definition MlnrFS_file_info :: "MlnrFS \<Rightarrow> nat \<Rightarrow> FileInfo kres" where
  "MlnrFS_file_info fs mno =
     (case mnodes fs mno of
        Some n \<Rightarrow>
          (case get_mnode_type n of
             Directory \<Rightarrow> Ok \<lparr>fi_ftype = FileType_code Directory, fi_fsize = 0\<rparr>
           | File \<Rightarrow> map_result (\<lambda>sz. \<lparr>fi_ftype = FileType_code File, fi_fsize = sz\<rparr>)
                       (get_file_size n))
      | None \<Rightarrow> Panic)"

definition MlnrFS_delete :: "MlnrFS \<Rightarrow> string \<Rightarrow> MlnrFS \<times> unit kres" where
  "MlnrFS_delete fs pathname =
     (case files fs pathname of
        Some mno \<Rightarrow>
          (if arcs fs mno = 1
           then ((arc_drop fs mno)\<lparr>mnodes := (mnodes fs)(mno := None),
                    files := (files fs)(pathname := None)\<rparr>, Ok ())
           else (fs, Err PermissionError))
      | None \<Rightarrow> (fs, Err InvalidFile))"

definition MlnrFS_truncate :: "MlnrFS \<Rightarrow> string \<Rightarrow> MlnrFS \<times> unit kres" where
  "MlnrFS_truncate fs pathname =
     (case files fs pathname of
        Some mno \<Rightarrow>
          (case mnodes fs mno of
             Some n \<Rightarrow> (case MemNode_truncate n of
                          (n', r) \<Rightarrow> (fs\<lparr>mnodes := (mnodes fs)(mno \<mapsto> n')\<rparr>, r))
           | None \<Rightarrow> (fs, Err InvalidFile))
      | None \<Rightarrow> (fs, Err InvalidFile))"

text \<open>\<open>rename\<close> first deletes a file that already has the new name.\<close>

definition overwrite_target :: "MlnrFS \<Rightarrow> string \<Rightarrow> MlnrFS \<times> unit kres" where
  "overwrite_target fs newname =
     (if files fs newname \<noteq> None then expect (MlnrFS_delete fs newname) else (fs, Ok ()))"

definition MlnrFS_rename ::
  "heap \<Rightarrow> MlnrFS \<Rightarrow> string \<Rightarrow> string \<Rightarrow> (heap \<times> MlnrFS) \<times> unit kres" where
  "MlnrFS_rename h fs oldname newname =
     (if files fs oldname = None then ((h, fs), Err InvalidFile)
      else and_then (in_fs fs (TryString_try_from h newname)) (\<lambda>(h1, fs) newname_key.
        and_then (with_heap h1 (overwrite_target fs newname)) (\<lambda>(h1, fs) _.
          case files fs oldname of
            None \<Rightarrow> ((h1, fs), Err InvalidFile)
          | Some oldmnode \<Rightarrow>
              let fs1 = fs\<lparr>files := (files fs)(oldname := None)\<rparr> in
              (case files fs1 newname_key of
                 None \<Rightarrow> and_then (in_fs fs1 (infallible_alloc h1)) (\<lambda>(h2, fs1) _.
                   ((h2, fs1\<lparr>files := (files fs1)(newname_key \<mapsto> oldmnode)\<rparr>), Ok ()))
               | Some other \<Rightarrow>
                   ((h1, (arc_drop fs1 other)\<lparr>files := (files fs1)(newname_key \<mapsto> oldmnode)\<rparr>),
                    Err PermissionError)))))"

section \<open>Invariant and abstraction\<close>

text \<open>
  Between operations every path names a live node, no node has two names or none, node numbers
  are below the next one to hand out, and the only handle on a node's \<open>Arc\<close> is the path map's.
\<close>

definition fs_inv :: "MlnrFS \<Rightarrow> bool" where
  "fs_inv fs \<longleftrightarrow>
     (\<forall>p m. files fs p = Some m \<longrightarrow> mnodes fs m \<noteq> None \<and> arcs fs m = 1)
     \<and> (\<forall>p q m. files fs p = Some m \<longrightarrow> files fs q = Some m \<longrightarrow> p = q)
     \<and> (\<forall>m n. mnodes fs m = Some n \<longrightarrow>
          m < nextmemnode fs \<and> mnode_num n = m \<and> memnode_inv n \<and> (\<exists>p. files fs p = Some m))"

text \<open>The file system a client sees: a map from path names to objects.\<close>

definition fs_view :: "MlnrFS \<Rightarrow> string \<Rightarrow> FsObject option" where
  "fs_view fs p = (case files fs p of None \<Rightarrow> None | Some m \<Rightarrow> map_option node_object (mnodes fs m))"

text \<open>There is a node number left: the counter is an \<open>AtomicUsize\<close> that wraps.\<close>

definition has_room :: "MlnrFS \<Rightarrow> bool" where
  "has_room fs \<longleftrightarrow> nextmemnode fs + 1 < usize_limit"

lemma fs_inv_pathD:
  assumes "fs_inv fs" and "files fs p = Some m"
  obtains n where "mnodes fs m = Some n" "arcs fs m = 1" "m < nextmemnode fs" "mnode_num n = m"
    "memnode_inv n" "fs_view fs p = Some (node_object n)"
proof -
  obtain n where n: "mnodes fs m = Some n" "arcs fs m = 1"
    using assms unfolding fs_inv_def by blast
  moreover have "m < nextmemnode fs" "mnode_num n = m" "memnode_inv n"
    using assms(1) n(1) unfolding fs_inv_def by blast+
  ultimately show ?thesis using that assms(2) by (simp add: fs_view_def)
qed

lemma fs_view_None: "fs_inv fs \<Longrightarrow> fs_view fs p = None \<longleftrightarrow> files fs p = None"
  by (cases "files fs p") (auto simp: fs_view_def elim: fs_inv_pathD)

lemma fs_inv_nodeD:
  assumes "fs_inv fs" and "mnodes fs m = Some n"
  obtains p where "files fs p = Some m" "m < nextmemnode fs" "mnode_num n = m" "memnode_inv n"
  using assms unfolding fs_inv_def by blast

lemma fs_inv_next: "fs_inv fs \<Longrightarrow> nextmemnode fs \<le> k \<Longrightarrow> fs_inv (fs\<lparr>nextmemnode := k\<rparr>)"
  unfolding fs_inv_def by simp (meson less_le_trans)

lemma fs_view_next [simp]: "fs_view (fs\<lparr>nextmemnode := k\<rparr>) = fs_view fs"
  by (rule ext) (simp add: fs_view_def cong: option.case_cong)

lemma fs_inv_add:
  assumes inv: "fs_inv fs" and p: "files fs p = None" and m: "mnodes fs m = None" "m < nextmemnode fs"
    and n: "memnode_inv n" "mnode_num n = m"
  defines "fs' \<equiv> fs\<lparr>files := (files fs)(p \<mapsto> m), arcs := (arcs fs)(m := 1),
                   mnodes := (mnodes fs)(m \<mapsto> n)\<rparr>"
  shows "fs_inv fs'" and "fs_view fs' = (fs_view fs)(p \<mapsto> node_object n)"
proof -
  have other: "k \<noteq> m" if "files fs q = Some k" for q k
    by (rule fs_inv_pathD [OF inv that]) (use m(1) in auto)
  show "fs_inv fs'"
    unfolding fs_inv_def
  proof (intro conjI allI impI)
    fix q k
    assume "files fs' q = Some k"
    then show "mnodes fs' k \<noteq> None" "arcs fs' k = 1"
      using inv other [of q k] unfolding fs_inv_def by (auto simp: fs'_def split: if_splits)
  next
    fix q r k
    assume "files fs' q = Some k" "files fs' r = Some k"
    then show "q = r"
      using inv other unfolding fs_inv_def by (auto simp: fs'_def split: if_splits)
  next
    fix k nd
    assume k: "mnodes fs' k = Some nd"
    show "k < nextmemnode fs'" "mnode_num nd = k" "memnode_inv nd"
      using k inv m n unfolding fs_inv_def by (auto simp: fs'_def split: if_splits)
    show "\<exists>q. files fs' q = Some k"
    proof (cases "k = m")
      case True
      then show ?thesis by (auto simp: fs'_def)
    next
      case False
      then have "mnodes fs k = Some nd" using k by (simp add: fs'_def)
      then obtain q where "files fs q = Some k" by (rule fs_inv_nodeD [OF inv])
      moreover have "q \<noteq> p" using p calculation by auto
      ultimately show ?thesis by (auto simp: fs'_def)
    qed
  qed
  show "fs_view fs' = (fs_view fs)(p \<mapsto> node_object n)"
    using other by (auto simp: fs_view_def fs'_def fun_eq_iff split: option.splits)
qed

lemma fs_inv_node_update:
  assumes inv: "fs_inv fs" and m: "files fs p = Some m" "mnodes fs m = Some n"
    and n: "memnode_inv n'" "mnode_num n' = mnode_num n"
  shows "fs_inv (fs\<lparr>mnodes := (mnodes fs)(m \<mapsto> n')\<rparr>)"
    and "fs_view (fs\<lparr>mnodes := (mnodes fs)(m \<mapsto> n')\<rparr>) = (fs_view fs)(p \<mapsto> node_object n')"
proof -
  show "fs_inv (fs\<lparr>mnodes := (mnodes fs)(m \<mapsto> n')\<rparr>)"
    using inv m n unfolding fs_inv_def by (auto split: if_splits)
  have "fs_view (fs\<lparr>mnodes := (mnodes fs)(m \<mapsto> n')\<rparr>) q = ((fs_view fs)(p \<mapsto> node_object n')) q" for q
  proof (cases "q = p")
    case False
    then have "files fs q \<noteq> Some m" using inv m(1) unfolding fs_inv_def by blast
    with False show ?thesis by (cases "files fs q") (auto simp: fs_view_def)
  qed (simp add: fs_view_def m)
  then show "fs_view (fs\<lparr>mnodes := (mnodes fs)(m \<mapsto> n')\<rparr>) = (fs_view fs)(p \<mapsto> node_object n')"
    by (rule ext)
qed

lemma fs_inv_remove:
  assumes inv: "fs_inv fs" and m: "files fs p = Some m"
  defines "fs' \<equiv> fs\<lparr>arcs := (arcs fs)(m := 0), mnodes := (mnodes fs)(m := None),
                   files := (files fs)(p := None)\<rparr>"
  shows "fs_inv fs'" and "fs_view fs' = (fs_view fs)(p := None)"
proof -
  have uniq: "files fs q = Some m \<longleftrightarrow> q = p" for q using inv m unfolding fs_inv_def by blast
  show "fs_inv fs'"
    unfolding fs_inv_def
  proof (intro conjI allI impI)
    fix q k
    assume "files fs' q = Some k"
    then show "mnodes fs' k \<noteq> None" "arcs fs' k = 1"
      using inv uniq [of q] unfolding fs_inv_def by (auto simp: fs'_def split: if_splits)
  next
    fix q r k
    assume "files fs' q = Some k" "files fs' r = Some k"
    then show "q = r" using inv unfolding fs_inv_def by (auto simp: fs'_def split: if_splits)
  next
    fix k nd
    assume k: "mnodes fs' k = Some nd"
    then have k': "mnodes fs k = Some nd" "k \<noteq> m" by (auto simp: fs'_def split: if_splits)
    obtain q where q: "files fs q = Some k" "k < nextmemnode fs" "mnode_num nd = k" "memnode_inv nd"
      using fs_inv_nodeD [OF inv k'(1)] .
    then show "k < nextmemnode fs'" "mnode_num nd = k" "memnode_inv nd" by (simp_all add: fs'_def)
    show "\<exists>q. files fs' q = Some k" using q(1) k'(2) m by (intro exI [of _ q]) (auto simp: fs'_def)
  qed
  have "fs_view fs' q = ((fs_view fs)(p := None)) q" for q
    using uniq [of q] by (cases "files fs q") (auto simp: fs_view_def fs'_def)
  then show "fs_view fs' = (fs_view fs)(p := None)" by (rule ext)
qed

section \<open>Behaviour of the operations\<close>

lemma try_reserve_cases:
  obtains (ok) h' where "try_reserve h = (h', Ok ())" "never_fails h \<Longrightarrow> never_fails h'"
  | (oom) h' where "try_reserve h = (h', Err OutOfMemory)" "\<not> never_fails h"
proof -
  obtain c h1 where t: "heap_take h = (c, h1)" by (cases "heap_take h")
  then show ?thesis
    using ok [of h1] oom [of h1] heap_take_False [of h h1] heap_take_keeps [OF t]
    by (cases c) (simp_all add: try_reserve_def)
qed

lemma infallible_alloc_cases:
  obtains (ok) h' where "infallible_alloc h = (h', Ok ())" "never_fails h \<Longrightarrow> never_fails h'"
  | (abort) h' where "infallible_alloc h = (h', Panic)" "\<not> never_fails h"
proof -
  obtain c h1 where t: "heap_take h = (c, h1)" by (cases "heap_take h")
  then show ?thesis
    using ok [of h1] abort [of h1] heap_take_False [of h h1] heap_take_keeps [OF t]
    by (cases c) (simp_all add: infallible_alloc_def)
qed

lemma add_memnode_dup:
  "files fs p \<noteq> None \<Longrightarrow> add_memnode h fs p md nt = ((h, fs), Err AlreadyPresent)"
  by (simp add: add_memnode_def)

lemma add_memnode_cases:
  assumes inv: "fs_inv fs" and room: "has_room fs" and p: "files fs p = None"
  obtains (ok) h' fs' where "add_memnode h fs p md nt = ((h', fs'), Ok (nextmemnode fs))"
      "fs_inv fs'" "fs_view fs' = (fs_view fs)(p \<mapsto> new_object nt md)"
      "files fs' = (files fs)(p \<mapsto> nextmemnode fs)" "never_fails h \<Longrightarrow> never_fails h'"
  | (oom) h' fs' where "add_memnode h fs p md nt = ((h', fs'), Err OutOfMemory)"
      "fs_inv fs'" "fs_view fs' = fs_view fs" "files fs' = files fs" "\<not> never_fails h"
  | (abort) h' fs' where "add_memnode h fs p md nt = ((h', fs'), Panic)" "\<not> never_fails h"
proof -
  define m where "m = nextmemnode fs"
  define fs1 where "fs1 = fs\<lparr>nextmemnode := m + 1\<rparr>"
  have next1: "get_next_mno fs = (fs1, m)"
    using room by (simp add: get_next_mno_def has_room_def fs1_def m_def)
  have fs1: "fs_inv fs1" "fs_view fs1 = fs_view fs" "files fs1 = files fs"
    using fs_inv_next [OF inv, of "m + 1"] by (simp_all add: fs1_def m_def)
  have fresh: "mnodes fs1 m = None" "m < nextmemnode fs1"
  proof -
    show "mnodes fs1 m = None"
    proof (rule ccontr)
      assume "mnodes fs1 m \<noteq> None"
      then obtain n where "mnodes fs m = Some n" by (auto simp: fs1_def)
      then show False by (rule fs_inv_nodeD [OF inv]) (simp add: m_def)
    qed
  qed (simp add: fs1_def)
  show ?thesis
  proof (cases rule: TryString_cases [of h p])
    case a: (oom h1)
    then show ?thesis using that(2) [of h1 fs] inv p by (simp add: add_memnode_def)
  next
    case a: (ok h1)
    show ?thesis
    proof (cases rule: try_reserve_cases [of h1])
      case b: (oom h2)
      then show ?thesis using that(2) [of h2 fs1] a p next1 fs1 by (auto simp: add_memnode_def)
    next
      case b: (ok h2)
      show ?thesis
      proof (cases rule: try_reserve_cases [of h2])
        case c: (oom h3)
        then show ?thesis using that(2) [of h3 fs1] a b p next1 fs1 by (auto simp: add_memnode_def)
      next
        case c: (ok h3)
        show ?thesis
        proof (cases rule: MemNode_new_cases [of h3 m p md nt])
          case d: (oom h4)
          then show ?thesis using that(2) [of h4 fs1] a b c p next1 fs1 by (auto simp: add_memnode_def)
        next
          case d: (ok h4 n)
          show ?thesis
          proof (cases rule: infallible_alloc_cases [of h4])
            case e: (abort h5)
            then show ?thesis using that(3) [of h5 fs1] a b c d p next1 by (auto simp: add_memnode_def)
          next
            case e: (ok h5)
            note add = fs_inv_add [OF fs1(1) p [folded fs1(3)] fresh d(2,3)]
            show ?thesis
              by (rule that(1) [of h5, OF _ add(1)])
                (use a b c d e p next1 fs1 add(2) in \<open>auto simp: add_memnode_def m_def\<close>)
          qed
        qed
      qed
    qed
  qed
qed

lemma MlnrFS_write_cases:
  assumes inv: "fs_inv fs" and p: "files fs p = Some m" and lim: "off + length d < usize_limit"
  obtains (denied) obj where "MlnrFS_write h fs m d off = ((h, fs), Err PermissionError)"
      "fs_view fs p = Some obj" "\<not> (obj_type obj = File \<and> modes_is_writable (obj_modes obj))"
  | (ok) h' fs' obj where "MlnrFS_write h fs m d off = ((h', fs'), Ok (length d))"
      "fs_inv fs'" "files fs' = files fs" "nextmemnode fs' = nextmemnode fs"
      "fs_view fs p = Some obj" "obj_type obj = File" "modes_is_writable (obj_modes obj)"
      "fs_view fs' = (fs_view fs)(p \<mapsto> obj\<lparr>obj_data := write_spec (obj_data obj) off d\<rparr>)"
      "never_fails h \<Longrightarrow> never_fails h'"
  | (oom) h' fs' obj k where "MlnrFS_write h fs m d off = ((h', fs'), Err OutOfMemory)"
      "fs_inv fs'" "files fs' = files fs" "nextmemnode fs' = nextmemnode fs"
      "fs_view fs p = Some obj" "obj_type obj = File" "modes_is_writable (obj_modes obj)"
      "fs_view fs' = (fs_view fs)(p \<mapsto> obj\<lparr>obj_data := obj_data obj @ replicate k 0\<rparr>)"
      "k < BASE_PAGE_SIZE" "\<not> never_fails h"
proof -
  obtain n where n: "mnodes fs m = Some n" "memnode_inv n" "fs_view fs p = Some (node_object n)"
    by (rule fs_inv_pathD [OF inv p])
  have ty: "obj_type (node_object n) = node_type n" by (simp add: node_object_def split: option.split)
  have same: "fs\<lparr>mnodes := (mnodes fs)(m \<mapsto> n)\<rparr> = fs"
  proof -
    have "(mnodes fs)(m \<mapsto> n) = mnodes fs" using n(1) by (simp add: fun_upd_idem)
    then show ?thesis by simp
  qed
  from n(2) lim show ?thesis
  proof (cases rule: MemNode_write_cases [of n off d h])
    case w: denied
    then show ?thesis using that(1) n same ty by (simp add: MlnrFS_write_def)
  next
    case w: (ok h' n')
    note up = fs_inv_node_update [OF inv p n(1) w(2,3)]
    show ?thesis
      by (rule that(2) [of h', OF _ up(1) _ _ n(3)]) (use w up n ty in \<open>simp_all add: MlnrFS_write_def\<close>)
  next
    case w: (oom h' n' k)
    note up = fs_inv_node_update [OF inv p n(1) w(2,3)]
    show ?thesis
      by (rule that(3) [of h', OF _ up(1) _ _ n(3)]) (use w up n ty in \<open>simp_all add: MlnrFS_write_def\<close>)
  qed
qed

lemma MlnrFS_read_eq:
  assumes inv: "fs_inv fs" and p: "files fs p = Some m" and obj: "fs_view fs p = Some obj"
  shows "MlnrFS_read fs m buf off =
    (if obj_type obj = File \<and> modes_is_readable (obj_modes obj)
     then Ok (read_spec (obj_data obj) buf off) else Err PermissionError)"
proof -
  obtain n where n: "mnodes fs m = Some n" "memnode_inv n" "fs_view fs p = Some (node_object n)"
    by (rule fs_inv_pathD [OF inv p])
  have "obj_type (node_object n) = node_type n" by (simp add: node_object_def split: option.split)
  then show ?thesis using n obj MemNode_read_eq [OF n(2)] by (simp add: MlnrFS_read_def)
qed

lemma MlnrFS_delete_ok:
  assumes inv: "fs_inv fs" and p: "files fs p = Some m"
  obtains fs' where "MlnrFS_delete fs p = (fs', Ok ())" "fs_inv fs'"
    "fs_view fs' = (fs_view fs)(p := None)" "files fs' = (files fs)(p := None)"
    "nextmemnode fs' = nextmemnode fs"
proof -
  have "arcs fs m = 1" by (rule fs_inv_pathD [OF inv p])
  then have "MlnrFS_delete fs p = (fs\<lparr>arcs := (arcs fs)(m := 0), mnodes := (mnodes fs)(m := None),
      files := (files fs)(p := None)\<rparr>, Ok ())"
    using p by (simp add: MlnrFS_delete_def arc_drop_def)
  from that [OF this fs_inv_remove [OF inv p]] show ?thesis by simp
qed

lemma MlnrFS_truncate_cases:
  assumes inv: "fs_inv fs" and p: "files fs p = Some m"
  obtains (denied) obj where "MlnrFS_truncate fs p = (fs, Err PermissionError)"
      "fs_view fs p = Some obj" "\<not> (obj_type obj = File \<and> modes_is_writable (obj_modes obj))"
  | (ok) fs' obj where "MlnrFS_truncate fs p = (fs', Ok ())" "fs_inv fs'" "files fs' = files fs"
      "nextmemnode fs' = nextmemnode fs"
      "fs_view fs p = Some obj" "obj_type obj = File" "modes_is_writable (obj_modes obj)"
      "fs_view fs' = (fs_view fs)(p \<mapsto> obj\<lparr>obj_data := []\<rparr>)"
proof -
  obtain n where n: "mnodes fs m = Some n" "memnode_inv n" "fs_view fs p = Some (node_object n)"
    by (rule fs_inv_pathD [OF inv p])
  have ty: "obj_type (node_object n) = node_type n" by (simp add: node_object_def split: option.split)
  have same: "(mnodes fs)(m \<mapsto> n) = mnodes fs" using n(1) by (simp add: fun_upd_idem)
  from n(2) show ?thesis
  proof (cases rule: MemNode_truncate_cases)
    case w: denied
    then show ?thesis using that(1) n p same ty by (simp add: MlnrFS_truncate_def)
  next
    case w: (ok n')
    note up = fs_inv_node_update [OF inv p n(1) w(2,3)]
    show ?thesis
      by (rule that(2) [OF _ up(1) _ _ n(3)]) (use w up n p ty in \<open>simp_all add: MlnrFS_truncate_def\<close>)
  qed
qed

lemma fs_inv_move:
  assumes inv: "fs_inv fs" and a: "files fs a = Some m" and b: "files fs b = None"
  defines "fs' \<equiv> fs\<lparr>files := ((files fs)(a := None))(b \<mapsto> m)\<rparr>"
  shows "fs_inv fs'" and "fs_view fs' = ((fs_view fs)(a := None))(b := fs_view fs a)"
proof -
  have ab: "a \<noteq> b" using a b by auto
  have uniq: "files fs q = Some m \<longleftrightarrow> q = a" for q using inv a unfolding fs_inv_def by blast
  show "fs_inv fs'"
    unfolding fs_inv_def
  proof (intro conjI allI impI)
    fix q k
    assume "files fs' q = Some k"
    then have "files fs (if q = b then a else q) = Some k"
      using a by (auto simp: fs'_def split: if_splits)
    from fs_inv_pathD [OF inv this] show "mnodes fs' k \<noteq> None" "arcs fs' k = 1"
      by (auto simp: fs'_def)
  next
    fix q r k
    assume "files fs' q = Some k" "files fs' r = Some k"
    then show "q = r"
      using inv uniq [of q] uniq [of r] unfolding fs_inv_def by (auto simp: fs'_def split: if_splits)
  next
    fix k nd
    assume "mnodes fs' k = Some nd"
    then have "mnodes fs k = Some nd" by (simp add: fs'_def)
    from fs_inv_nodeD [OF inv this] obtain q where
      q: "files fs q = Some k" "k < nextmemnode fs" "mnode_num nd = k" "memnode_inv nd" .
    then show "k < nextmemnode fs'" "mnode_num nd = k" "memnode_inv nd" by (simp_all add: fs'_def)
    show "\<exists>q. files fs' q = Some k"
    proof (cases "q = a")
      case True
      then show ?thesis using q(1) a by (intro exI [of _ b]) (simp add: fs'_def)
    next
      case False
      moreover have "q \<noteq> b" using q(1) b by auto
      ultimately show ?thesis using q(1) by (intro exI [of _ q]) (simp add: fs'_def)
    qed
  qed
  have "fs_view fs' q = (((fs_view fs)(a := None))(b := fs_view fs a)) q" for q
    using ab a by (cases "files fs q") (auto simp: fs_view_def fs'_def)
  then show "fs_view fs' = ((fs_view fs)(a := None))(b := fs_view fs a)" by (rule ext)
qed

text \<open>Making the target name free: the first half of \<open>rename\<close>.\<close>

lemma rename_target:
  assumes inv: "fs_inv fs"
  obtains fs1 where
    "overwrite_target fs b = (fs1, Ok ())"
    "fs_inv fs1" "fs_view fs1 = (fs_view fs)(b := None)" "files fs1 = (files fs)(b := None)"
    "nextmemnode fs1 = nextmemnode fs"
proof (cases "files fs b")
  case None
  then have "(fs_view fs)(b := None) = fs_view fs" "(files fs)(b := None) = files fs"
    using fs_view_None [OF inv] by (auto simp: fun_upd_idem)
  then show ?thesis using that [of fs] None inv by (simp add: overwrite_target_def)
next
  case (Some m)
  show ?thesis
    by (rule MlnrFS_delete_ok [OF inv Some]) (use that Some in \<open>simp add: overwrite_target_def expect_def\<close>)
qed

lemma MlnrFS_rename_cases:
  assumes inv: "fs_inv fs" and a: "files fs a = Some m" and ab: "a \<noteq> b"
  obtains (ok) h' fs' where "MlnrFS_rename h fs a b = ((h', fs'), Ok ())" "fs_inv fs'"
      "fs_view fs' = ((fs_view fs)(a := None))(b := fs_view fs a)"
      "files fs' = ((files fs)(a := None))(b \<mapsto> m)" "nextmemnode fs' = nextmemnode fs"
      "never_fails h \<Longrightarrow> never_fails h'"
  | (oom) h' where "MlnrFS_rename h fs a b = ((h', fs), Err OutOfMemory)" "\<not> never_fails h"
  | (abort) h' fs' where "MlnrFS_rename h fs a b = ((h', fs'), Panic)" "\<not> never_fails h"
proof (cases rule: TryString_cases [of h b])
  case t: (oom h1)
  then show ?thesis using oom [of h1] a by (simp add: MlnrFS_rename_def)
next
  case t: (ok h1)
  obtain fs1 where fs1:
    "overwrite_target fs b = (fs1, Ok ())"
    "fs_inv fs1" "fs_view fs1 = (fs_view fs)(b := None)" "files fs1 = (files fs)(b := None)"
    "nextmemnode fs1 = nextmemnode fs"
    by (rule rename_target [OF inv])
  have a1: "files fs1 a = Some m" and b1: "files fs1 b = None" using fs1(4) a ab by auto
  note move = fs_inv_move [OF fs1(2) a1 b1]
  define fs' where "fs' = fs1\<lparr>files := ((files fs1)(a := None))(b \<mapsto> m)\<rparr>"
  have eq: "MlnrFS_rename h fs a b = (case infallible_alloc h1 of
      (h2, Ok _) \<Rightarrow> ((h2, fs'), Ok ())
    | (h2, Err e) \<Rightarrow> ((h2, fs1\<lparr>files := (files fs1)(a := None)\<rparr>), Err e)
    | (h2, Panic) \<Rightarrow> ((h2, fs1\<lparr>files := (files fs1)(a := None)\<rparr>), Panic))"
    using t a a1 b1 ab
    by (simp add: MlnrFS_rename_def fs1(1) Let_def fs'_def split: prod.split result.split)
  have view: "fs_view fs' = ((fs_view fs)(a := None))(b := fs_view fs a)"
    using move(2) fs1(3) ab by (auto simp: fs'_def fun_eq_iff)
  have fl: "files fs' = ((files fs)(a := None))(b \<mapsto> m)" "nextmemnode fs' = nextmemnode fs"
    using fs1(4,5) by (auto simp: fs'_def)
  show ?thesis
  proof (cases rule: infallible_alloc_cases [of h1])
    case i: (abort h2)
    then show ?thesis using abort eq t by auto
  next
    case i: (ok h2)
    show ?thesis
      by (rule ok [of h2 fs'])
        (use eq i t view fl move(1) [folded fs'_def] in auto)
  qed
qed

text \<open>Renaming a file to its own name: the \<open>delete\<close> of the target removes the source.\<close>

lemma MlnrFS_rename_self:
  assumes inv: "fs_inv fs" and a: "files fs a = Some m" and h: "never_fails h"
  obtains h' fs' where "MlnrFS_rename h fs a a = ((h', fs'), Err InvalidFile)" "fs_inv fs'"
    "fs_view fs' = (fs_view fs)(a := None)"
proof -
  obtain h1 where t: "TryString_try_from h a = (h1, Ok a)"
    using h by (cases rule: TryString_cases [of h a]) auto
  obtain fs1 where fs1: "MlnrFS_delete fs a = (fs1, Ok ())" "fs_inv fs1"
    "fs_view fs1 = (fs_view fs)(a := None)" "files fs1 = (files fs)(a := None)"
    by (rule MlnrFS_delete_ok [OF inv a])
  then have "MlnrFS_rename h fs a a = ((h1, fs1), Err InvalidFile)"
    using t a by (simp add: MlnrFS_rename_def overwrite_target_def expect_def)
  then show ?thesis using that fs1 by blast
qed

lemma MlnrFS_default_ok:
  assumes "never_fails h"
  obtains h' fs where "MlnrFS_default h = (h', Ok fs)" "fs_inv fs" "has_room fs"
    "fs_view fs = [''/'' \<mapsto> new_object Directory S_IRWXU]" "files fs = [''/'' \<mapsto> 1]"
proof -
  obtain h1 where 1: "TryString_try_from h ''/'' = (h1, Ok ''/'')" "never_fails h1"
    using assms by (cases rule: TryString_cases [of h "''/''"]) auto
  obtain h2 where 2: "infallible_alloc h1 = (h2, Ok ())" "never_fails h2"
    using 1 by (cases rule: infallible_alloc_cases [of h1]) auto
  obtain h3 where 3: "TryString_try_from h2 ''/'' = (h3, Ok ''/'')" "never_fails h3"
    using 2 by (cases rule: TryString_cases [of h2 "''/''"]) auto
  obtain h4 where 4: "try_reserve h3 = (h4, Ok ())" "never_fails h4"
    using 3 by (cases rule: try_reserve_cases [of h3]) auto
  obtain h5 where 5: "infallible_alloc h4 = (h5, Ok ())" "never_fails h5"
    using 4 by (cases rule: infallible_alloc_cases [of h4]) auto
  obtain h6 where 6: "TryString_try_from h5 ''/'' = (h6, Ok ''/'')"
    using 5 by (cases rule: TryString_cases [of h5 "''/''"]) auto
  define n where "n = \<lparr>mnode_num = 1, mname = ''/'', node_type = Directory, mfile = None\<rparr>"
  define fs where "fs = \<lparr>mnodes = [1 \<mapsto> n], files = [''/'' \<mapsto> 1], arcs = (\<lambda>_. 0)(1 := 1),
                         root = (''/'', 1), nextmemnode = MNODE_OFFSET\<rparr>"
  have "MlnrFS_default h = (h6, Ok fs)"
    using 1 2 3 4 5 6 by (simp add: MlnrFS_default_def MemNode_new_def expect_def fs_def n_def)
  moreover have "fs_inv fs" "has_room fs" "files fs = [''/'' \<mapsto> 1]"
    by (auto simp: fs_inv_def fs_def n_def memnode_inv_def has_room_def split: if_splits)
  moreover have "fs_view fs = [''/'' \<mapsto> new_object Directory S_IRWXU]"
    by (auto simp: fs_view_def fs_def n_def node_object_def new_object_def fun_eq_iff)
  ultimately show ?thesis using that by blast
qed

section \<open>The contract of a flat file system\<close>

text \<open>
  A flat file system maps path names to objects; \<open>create\<close>, \<open>delete\<close> and \<open>rename\<close> act on that map.
\<close>

locale flat_fs =
  fixes inv :: "'s \<Rightarrow> bool"
    and view :: "'s \<Rightarrow> string \<Rightarrow> FsObject option"
    and room :: "'s \<Rightarrow> bool"
    and create :: "'s \<Rightarrow> string \<Rightarrow> u64 \<Rightarrow> 's \<times> nat kres"
    and delete :: "'s \<Rightarrow> string \<Rightarrow> 's \<times> unit kres"
    and rename :: "'s \<Rightarrow> string \<Rightarrow> string \<Rightarrow> 's \<times> unit kres"
  assumes create_new: "\<lbrakk>inv s; room s; view s p = None\<rbrakk>
      \<Longrightarrow> \<exists>s' m. create s p md = (s', Ok m) \<and> inv s' \<and> view s' = (view s)(p \<mapsto> new_object File md)"
    and create_dup: "\<lbrakk>inv s; view s p \<noteq> None\<rbrakk> \<Longrightarrow> create s p md = (s, Err AlreadyPresent)"
    and delete_present: "\<lbrakk>inv s; view s p \<noteq> None\<rbrakk>
      \<Longrightarrow> \<exists>s'. delete s p = (s', Ok ()) \<and> inv s' \<and> view s' = (view s)(p := None)"
    and delete_absent: "\<lbrakk>inv s; view s p = None\<rbrakk> \<Longrightarrow> delete s p = (s, Err InvalidFile)"
    and rename_present: "\<lbrakk>inv s; view s p \<noteq> None; p \<noteq> q\<rbrakk>
      \<Longrightarrow> \<exists>s'. rename s p q = (s', Ok ()) \<and> inv s' \<and> view s' = ((view s)(p := None))(q := view s p)"
    and rename_absent: "\<lbrakk>inv s; view s p = None\<rbrakk> \<Longrightarrow> rename s p q = (s, Err InvalidFile)"
begin

lemma create_delete:
  assumes "inv s" and "room s" and "view s p = None"
  shows "view (fst (delete (fst (create s p md)) p)) = view s"
proof -
  obtain s1 m where s1: "create s p md = (s1, Ok m)" "inv s1"
    "view s1 = (view s)(p \<mapsto> new_object File md)"
    using create_new [OF assms] by blast
  then have "view s1 p \<noteq> None" by simp
  from delete_present [OF s1(2) this] s1 assms(3) show ?thesis by (auto simp: fun_eq_iff)
qed

lemma delete_twice:
  assumes "inv s" and "view s p \<noteq> None"
  shows "snd (delete (fst (delete s p)) p) = Err InvalidFile"
proof -
  obtain s1 where "delete s p = (s1, Ok ())" "inv s1" "view s1 = (view s)(p := None)"
    using delete_present [OF assms] by blast
  then show ?thesis using delete_absent [of s1 p] by simp
qed

lemma rename_back:
  assumes "inv s" and "view s p \<noteq> None" and "view s q = None"
  shows "view (fst (rename (fst (rename s p q)) q p)) = view s"
proof -
  have pq: "p \<noteq> q" using assms by auto
  obtain s1 where s1: "rename s p q = (s1, Ok ())" "inv s1"
    "view s1 = ((view s)(p := None))(q := view s p)"
    using rename_present [OF assms(1,2) pq] by blast
  have "view s1 q \<noteq> None" "q \<noteq> p" using s1(3) assms(2) pq by auto
  from rename_present [OF s1(2) this] s1 assms(3) pq show ?thesis by (auto simp: fun_eq_iff)
qed

end

text \<open>The operations of \<open>MlnrFS\<close> on a heap that does not run out of memory.\<close>

definition fs_create :: "MlnrFS \<Rightarrow> string \<Rightarrow> u64 \<Rightarrow> MlnrFS \<times> nat kres" where
  "fs_create fs p md = (case MlnrFS_create [] fs p md of ((h, fs'), r) \<Rightarrow> (fs', r))"

definition fs_rename :: "MlnrFS \<Rightarrow> string \<Rightarrow> string \<Rightarrow> MlnrFS \<times> unit kres" where
  "fs_rename fs p q = (case MlnrFS_rename [] fs p q of ((h, fs'), r) \<Rightarrow> (fs', r))"

lemma fs_create_new:
  assumes "fs_inv fs" and "has_room fs" and "fs_view fs p = None"
  shows "\<exists>fs' m. fs_create fs p md = (fs', Ok m) \<and> fs_inv fs'
           \<and> fs_view fs' = (fs_view fs)(p \<mapsto> new_object File md)"
proof -
  have "files fs p = None" using assms fs_view_None by blast
  with assms(1,2) show ?thesis
    by (cases rule: add_memnode_cases [of fs p "[]" md File])
      (auto simp: fs_create_def MlnrFS_create_def)
qed

lemma fs_rename_present:
  assumes "fs_inv fs" and "fs_view fs p \<noteq> None" and "p \<noteq> q"
  shows "\<exists>fs'. fs_rename fs p q = (fs', Ok ()) \<and> fs_inv fs'
           \<and> fs_view fs' = ((fs_view fs)(p := None))(q := fs_view fs p)"
proof -
  obtain m where "files fs p = Some m" using assms fs_view_None [of fs p] by auto
  from assms(1) this assms(3) show ?thesis
    by (cases rule: MlnrFS_rename_cases [of fs p m q "[]"]) (auto simp: fs_rename_def)
qed

lemma fs_delete_present:
  assumes "fs_inv fs" and "fs_view fs p \<noteq> None"
  shows "\<exists>fs'. MlnrFS_delete fs p = (fs', Ok ()) \<and> fs_inv fs' \<and> fs_view fs' = (fs_view fs)(p := None)"
proof -
  obtain m where "files fs p = Some m" using assms fs_view_None [of fs p] by auto
  from MlnrFS_delete_ok [OF assms(1) this] show ?thesis by metis
qed

interpretation mlnr: flat_fs fs_inv fs_view has_room fs_create MlnrFS_delete fs_rename
proof unfold_locales
  fix fs p md
  assume inv: "fs_inv fs"
  show "fs_create fs p md = (fs, Err AlreadyPresent)" if "fs_view fs p \<noteq> None"
    using that fs_view_None [OF inv] by (simp add: fs_create_def MlnrFS_create_def add_memnode_dup)
  show "MlnrFS_delete fs p = (fs, Err InvalidFile)" if "fs_view fs p = None"
    using that fs_view_None [OF inv] by (simp add: MlnrFS_delete_def)
  show "fs_rename fs p q = (fs, Err InvalidFile)" if "fs_view fs p = None" for q
    using that fs_view_None [OF inv] by (simp add: fs_rename_def MlnrFS_rename_def)
qed (fact fs_create_new fs_delete_present fs_rename_present)+

text \<open>The file system at boot.\<close>

definition boot_fs :: MlnrFS where
  "boot_fs = \<lparr>mnodes = [1 \<mapsto> \<lparr>mnode_num = 1, mname = ''/'', node_type = Directory, mfile = None\<rparr>],
     files = [''/'' \<mapsto> 1], arcs = (\<lambda>_. 0)(1 := 1), root = (''/'', 1), nextmemnode = 2\<rparr>"

lemma boot_fs_default: "MlnrFS_default [] = ([], Ok boot_fs)"
  by (simp add: MlnrFS_default_def MemNode_new_def expect_def TryString_try_from_def
      infallible_alloc_def try_reserve_def boot_fs_def)

lemma boot_fs_facts:
  "fs_inv boot_fs" "has_room boot_fs" "files boot_fs = [''/'' \<mapsto> 1]" "nextmemnode boot_fs = 2"
  "fs_view boot_fs = [''/'' \<mapsto> new_object Directory S_IRWXU]" "arcs boot_fs 1 = 1"
proof -
  obtain h' fs where "MlnrFS_default [] = (h', Ok fs)" "fs_inv fs" "has_room fs"
    "fs_view fs = [''/'' \<mapsto> new_object Directory S_IRWXU]" "files fs = [''/'' \<mapsto> 1]"
    by (rule MlnrFS_default_ok [OF never_fails_Nil])
  then show "fs_inv boot_fs" "has_room boot_fs" "files boot_fs = [''/'' \<mapsto> 1]"
    "fs_view boot_fs = [''/'' \<mapsto> new_object Directory S_IRWXU]"
    by (auto simp: boot_fs_default)
qed (simp_all add: boot_fs_def)

section \<open>Properties\<close>



text \<open>
  \<open>delete\<close> removes exactly the named path.  A path that a clone of its \<open>Arc\<close> still refers
  to is refused with \<open>PermissionError\<close> and a path that does not exist with \<open>InvalidFile\<close>, both
  without a change; deleting twice in a row fails the second time.
\<close>
lemma delete_refines:
  "(files fs p = None \<longrightarrow> MlnrFS_delete fs p = (fs, Err InvalidFile))
   \<and> (\<forall>m. files fs p = Some m \<and> arcs fs m \<noteq> 1 \<longrightarrow> MlnrFS_delete fs p = (fs, Err PermissionError))
   \<and> (fs_inv fs \<and> fs_view fs p \<noteq> None \<longrightarrow>
        (\<exists>fs'. MlnrFS_delete fs p = (fs', Ok ()) \<and> fs_inv fs' \<and> fs_view fs' = (fs_view fs)(p := None)
           \<and> snd (MlnrFS_delete fs' p) = Err InvalidFile))"
proof (intro conjI impI)
  assume a: "fs_inv fs \<and> fs_view fs p \<noteq> None"
  then have "snd (MlnrFS_delete (fst (MlnrFS_delete fs p)) p) = Err InvalidFile"
    by (intro mlnr.delete_twice) auto
  with a show "\<exists>fs'. MlnrFS_delete fs p = (fs', Ok ()) \<and> fs_inv fs'
      \<and> fs_view fs' = (fs_view fs)(p := None) \<and> snd (MlnrFS_delete fs' p) = Err InvalidFile"
    using fs_delete_present [of fs p] by auto
qed (auto simp: MlnrFS_delete_def)



text \<open>
  Renaming an existing file to its own name, which should be a no-op, destroys it: the file is
  deleted as the target of the rename and the call then fails with \<open>InvalidFile\<close>.
\<close>
lemma rename_onto_itself_deletes:
  assumes "fs_inv fs" and "fs_view fs p \<noteq> None"
  shows "\<exists>fs'. fs_rename fs p p = (fs', Err InvalidFile) \<and> fs_view fs' = (fs_view fs)(p := None)"
proof -
  obtain m where m: "files fs p = Some m" using assms fs_view_None [of fs p] by auto
  show ?thesis
    by (rule MlnrFS_rename_self [OF assms(1) m never_fails_Nil]) (simp add: fs_rename_def)
qed

end
