(* ===== verification/SlotTable.thy ===== *)
theory SlotTable
  imports NrkPrelude
begin

text \<open>
  Tables of optional slots.  The kernel keeps file descriptors (\<open>kernel/src/fs/fd.rs\<close>) and the
  registered frames of a process (\<open>kernel/src/arch/x86_64/process.rs\<close>) in arrays of
  \<open>Option<T>\<close>, takes the first free slot with \<open>iter().position(|x| x.is_none())\<close> and empties a
  slot on release.  The locale states what the users of such a table rely on; the lemmas on
  \<open>position\<close> discharge it for both tables.
\<close>

primrec position :: "('a \<Rightarrow> bool) \<Rightarrow> 'a list \<Rightarrow> nat option" where
  "position P [] = None"
| "position P (x # xs) = (if P x then Some 0 else map_option Suc (position P xs))"

definition slot :: "'a option list \<Rightarrow> nat \<Rightarrow> 'a option" where
  "slot xs i = (if i < length xs then xs ! i else None)"

lemma position_SomeD:
  "position P xs = Some i \<Longrightarrow> i < length xs \<and> P (xs ! i) \<and> (\<forall>j < i. \<not> P (xs ! j))"
proof (induction xs arbitrary: i)
  case (Cons x xs)
  show ?case
  proof (cases "P x")
    case True
    with Cons.prems show ?thesis by simp
  next
    case False
    then obtain k where k: "position P xs = Some k" "i = Suc k" using Cons.prems by auto
    show ?thesis using Cons.IH [OF k(1)] k(2) False by (auto simp: less_Suc_eq_0_disj)
  qed
qed simp

lemma position_None: "position P xs = None \<longleftrightarrow> (\<forall>x \<in> set xs. \<not> P x)"
  by (induction xs) auto

lemma position_replicate [simp]: "0 < n \<Longrightarrow> P x \<Longrightarrow> position P (replicate n x) = Some 0"
  by (cases n) auto

lemma position_slot_SomeD:
  assumes "position Option.is_none xs = Some i"
  shows "i < length xs" and "slot xs i = None" and "\<And>j. j < i \<Longrightarrow> slot xs j \<noteq> None"
  using position_SomeD [OF assms] by (auto simp: slot_def Option.is_none_def)

lemma position_slot_None:
  "position Option.is_none xs = None \<longleftrightarrow> (\<forall>i < length xs. slot xs i \<noteq> None)"
proof -
  have "(\<forall>x \<in> set xs. \<not> Option.is_none x) \<longleftrightarrow> (\<forall>i < length xs. xs ! i \<noteq> None)"
    by (metis Option.is_none_def in_set_conv_nth)
  then show ?thesis by (simp add: position_None slot_def)
qed

lemma slot_update: "i < length xs \<Longrightarrow> slot (xs[i := v]) = (slot xs)(i := v)"
  by (auto simp: slot_def)

lemma slot_replicate [simp]: "slot (replicate n None) i = None"
  by (simp add: slot_def)

section \<open>The contract of a slot table\<close>

locale slot_table =
  fixes inv :: "'t \<Rightarrow> bool"
    and lookup :: "'t \<Rightarrow> nat \<Rightarrow> 'a option"
    and capacity :: nat
    and put :: "'t \<Rightarrow> 'a \<Rightarrow> ('t \<times> nat) option"
    and release :: "'t \<Rightarrow> nat \<Rightarrow> 't option"
  assumes put_Some: "\<lbrakk>inv t; put t x = Some (t', i)\<rbrakk>
      \<Longrightarrow> inv t' \<and> i < capacity \<and> lookup t i = None \<and> lookup t' = (lookup t)(i \<mapsto> x)"
    and put_None: "inv t \<Longrightarrow> put t x = None \<longleftrightarrow> (\<forall>i < capacity. lookup t i \<noteq> None)"
    and release_used: "\<lbrakk>inv t; lookup t i \<noteq> None\<rbrakk>
      \<Longrightarrow> \<exists>t'. release t i = Some t' \<and> inv t' \<and> lookup t' = (lookup t)(i := None)"
    and release_free: "\<lbrakk>inv t; lookup t i = None\<rbrakk> \<Longrightarrow> release t i = None"
    and range: "\<lbrakk>inv t; lookup t i \<noteq> None\<rbrakk> \<Longrightarrow> i < capacity"
begin

lemma put_release:
  assumes "inv t" and "put t x = Some (t', i)"
  shows "\<exists>t''. release t' i = Some t'' \<and> inv t'' \<and> lookup t'' = lookup t"
proof -
  have t': "inv t'" "lookup t i = None" "lookup t' = (lookup t)(i \<mapsto> x)"
    using put_Some [OF assms] by blast+
  then obtain t'' where "release t' i = Some t''" "inv t''" "lookup t'' = (lookup t')(i := None)"
    using release_used [of t' i] by auto
  then show ?thesis using t' by (auto simp: fun_eq_iff)
qed

lemma put_twice:
  assumes "inv t" and "put t x = Some (t1, i)" and "put t1 y = Some (t2, j)"
  shows "i \<noteq> j \<and> lookup t2 i = Some x \<and> lookup t2 j = Some y"
proof -
  have 1: "inv t1" "lookup t1 = (lookup t)(i \<mapsto> x)" using put_Some [OF assms(1,2)] by blast+
  have 2: "lookup t1 j = None" "lookup t2 = (lookup t1)(j \<mapsto> y)"
    using put_Some [OF 1(1) assms(3)] by blast+
  have "i \<noteq> j" using 1(2) 2(1) by auto
  then show ?thesis using 1(2) 2(2) by simp
qed

lemma release_makes_room:
  assumes "inv t" and "release t i = Some t'"
  shows "\<exists>t'' j. put t' x = Some (t'', j)"
proof -
  have used: "lookup t i \<noteq> None" using assms release_free by fastforce
  then have t': "inv t'" "lookup t' = (lookup t)(i := None)"
    using release_used [OF assms(1) used] assms(2) by auto
  then have "put t' x \<noteq> None"
    using put_None [OF t'(1)] range [OF assms(1) used] by (metis fun_upd_same)
  then show ?thesis by auto
qed

end

end
