(* ===== verification/FileDesc.thy ===== *)
theory FileDesc
  imports SlotTable KernelError Kpi
begin

text \<open>
  File descriptors (\<open>Fd\<close> of \<open>kernel/src/fs/mod.rs\<close>) and the descriptor table of a process
  (\<open>kernel/src/fs/fd.rs\<close>).
\<close>

section \<open>Model\<close>

abbreviation MAX_FILES_PER_PROCESS :: nat where "MAX_FILES_PER_PROCESS \<equiv> 4096"

record Fd =
  fd_mnode :: nat
  fd_flags :: u64
  fd_offset :: nat

definition Fd_default :: Fd where
  "Fd_default = \<lparr>fd_mnode = 0, fd_flags = O_NONE, fd_offset = 0\<rparr>"

definition update_fd :: "Fd \<Rightarrow> nat \<Rightarrow> u64 \<Rightarrow> Fd" where
  "update_fd fd mno flags = fd\<lparr>fd_mnode := mno, fd_flags := flags\<rparr>"

definition update_offset :: "Fd \<Rightarrow> nat \<Rightarrow> Fd" where
  "update_offset fd new_offset = fd\<lparr>fd_offset := new_offset\<rparr>"

record FileDesc =
  fds :: "Fd option list"

definition FileDesc_default :: FileDesc where
  "FileDesc_default = \<lparr>fds = replicate MAX_FILES_PER_PROCESS None\<rparr>"

definition allocate_fd :: "FileDesc \<Rightarrow> (FileDesc \<times> nat) option" where
  "allocate_fd p =
     (case position Option.is_none (fds p) of
        Some fid \<Rightarrow> Some (p\<lparr>fds := (fds p)[fid := Some Fd_default]\<rparr>, fid)
      | None \<Rightarrow> None)"

text \<open>Writing through the \<open>&mut Fd\<close> that \<open>allocate_fd\<close> returned, or through \<open>&Fd\<close> for the offset.\<close>

definition set_fd :: "FileDesc \<Rightarrow> nat \<Rightarrow> Fd \<Rightarrow> FileDesc" where
  "set_fd p fid fd = p\<lparr>fds := (fds p)[fid := Some fd]\<rparr>"

definition deallocate_fd :: "FileDesc \<Rightarrow> nat \<Rightarrow> FileDesc \<times> nat kres" where
  "deallocate_fd p fd =
     (if fd < length (fds p)
      then (case fds p ! fd of
              Some _ \<Rightarrow> (p\<lparr>fds := (fds p)[fd := None]\<rparr>, Ok fd)
            | None \<Rightarrow> (p, Err InvalidFileDescriptor))
      else (p, Err InvalidFileDescriptor))"

text \<open>\<open>get_fd\<close> indexes the array: a descriptor number out of range is a panic.\<close>

definition get_fd :: "FileDesc \<Rightarrow> nat \<Rightarrow> Fd option kres" where
  "get_fd p index = (if index < length (fds p) then Ok (fds p ! index) else Panic)"

section \<open>The table is a slot table\<close>

definition filedesc_inv :: "FileDesc \<Rightarrow> bool" where
  "filedesc_inv p \<longleftrightarrow> length (fds p) = MAX_FILES_PER_PROCESS"

definition fd_lookup :: "FileDesc \<Rightarrow> nat \<Rightarrow> Fd option" where
  "fd_lookup p = slot (fds p)"

definition open_fd :: "FileDesc \<Rightarrow> Fd \<Rightarrow> (FileDesc \<times> nat) option" where
  "open_fd p fd = map_option (\<lambda>(p', fid). (set_fd p' fid fd, fid)) (allocate_fd p)"

definition close_fd :: "FileDesc \<Rightarrow> nat \<Rightarrow> FileDesc option" where
  "close_fd p fid = (case deallocate_fd p fid of (p', Ok _) \<Rightarrow> Some p' | _ \<Rightarrow> None)"

lemma FileDesc_default_inv: "filedesc_inv FileDesc_default"
  by (simp add: filedesc_inv_def FileDesc_default_def)

lemma fd_lookup_default [simp]: "fd_lookup FileDesc_default = (\<lambda>_. None)"
  by (rule ext) (simp add: fd_lookup_def FileDesc_default_def)

lemma get_fd_lookup:
  "filedesc_inv p \<Longrightarrow> get_fd p i = (if i < MAX_FILES_PER_PROCESS then Ok (fd_lookup p i) else Panic)"
  by (simp add: get_fd_def filedesc_inv_def fd_lookup_def slot_def)

lemma allocate_fd_Some:
  assumes "filedesc_inv p" and "allocate_fd p = Some (p', i)"
  shows "filedesc_inv p'" "i < MAX_FILES_PER_PROCESS" "fd_lookup p i = None"
    "fd_lookup p' = (fd_lookup p)(i \<mapsto> Fd_default)" "\<And>j. j < i \<Longrightarrow> fd_lookup p j \<noteq> None"
proof -
  obtain "position Option.is_none (fds p) = Some i" "p' = p\<lparr>fds := (fds p)[i := Some Fd_default]\<rparr>"
    using assms(2) by (auto simp: allocate_fd_def split: option.splits)
  note p' = this
  note pos = position_slot_SomeD [OF p'(1)]
  show "filedesc_inv p'" "i < MAX_FILES_PER_PROCESS" "fd_lookup p i = None"
    using p'(2) pos assms(1) by (auto simp: filedesc_inv_def fd_lookup_def)
  show "fd_lookup p' = (fd_lookup p)(i \<mapsto> Fd_default)"
    using p'(2) pos(1) by (simp add: fd_lookup_def slot_update)
  show "\<And>j. j < i \<Longrightarrow> fd_lookup p j \<noteq> None" using pos(3) by (simp add: fd_lookup_def)
qed

lemma allocate_fd_None:
  "filedesc_inv p \<Longrightarrow> allocate_fd p = None \<longleftrightarrow> (\<forall>i < MAX_FILES_PER_PROCESS. fd_lookup p i \<noteq> None)"
  using position_slot_None [of "fds p"]
  by (auto simp: allocate_fd_def filedesc_inv_def fd_lookup_def split: option.splits)

lemma set_fd_lookup:
  assumes "filedesc_inv p" and "i < MAX_FILES_PER_PROCESS"
  shows "filedesc_inv (set_fd p i fd)" "fd_lookup (set_fd p i fd) = (fd_lookup p)(i \<mapsto> fd)"
  using assms by (simp_all add: set_fd_def filedesc_inv_def fd_lookup_def slot_update)

lemma deallocate_fd_used:
  assumes "filedesc_inv p" and "fd_lookup p i \<noteq> None"
  obtains p' where "deallocate_fd p i = (p', Ok i)" "filedesc_inv p'"
    "fd_lookup p' = (fd_lookup p)(i := None)"
proof -
  have i: "i < length (fds p)" using assms(2) by (auto simp: fd_lookup_def slot_def split: if_splits)
  then show ?thesis
    using that [of "p\<lparr>fds := (fds p)[i := None]\<rparr>"] assms
    by (auto simp: deallocate_fd_def fd_lookup_def slot_update filedesc_inv_def)
      (auto simp: slot_def)
qed

lemma deallocate_fd_free:
  "fd_lookup p i = None \<Longrightarrow> deallocate_fd p i = (p, Err InvalidFileDescriptor)"
  by (auto simp: deallocate_fd_def fd_lookup_def slot_def split: if_splits)

interpretation fdtab: slot_table filedesc_inv fd_lookup MAX_FILES_PER_PROCESS open_fd close_fd
proof unfold_locales
  fix t t' :: FileDesc and x :: Fd and i :: nat
  assume t: "filedesc_inv t"
  show "filedesc_inv t' \<and> i < MAX_FILES_PER_PROCESS \<and> fd_lookup t i = None
      \<and> fd_lookup t' = (fd_lookup t)(i \<mapsto> x)" if put: "open_fd t x = Some (t', i)"
  proof -
    obtain t1 where t1: "allocate_fd t = Some (t1, i)" "t' = set_fd t1 i x"
      using put by (auto simp: open_fd_def)
    note a = allocate_fd_Some [OF t t1(1)]
    show ?thesis using a(2,3,4) set_fd_lookup [OF a(1,2), of x] t1(2) by simp
  qed
  show "open_fd t x = None \<longleftrightarrow> (\<forall>i < MAX_FILES_PER_PROCESS. fd_lookup t i \<noteq> None)"
    unfolding open_fd_def option.map_disc_iff by (rule allocate_fd_None [OF t])
  show "\<exists>t'. close_fd t i = Some t' \<and> filedesc_inv t' \<and> fd_lookup t' = (fd_lookup t)(i := None)"
    if "fd_lookup t i \<noteq> None"
    by (rule deallocate_fd_used [OF t that]) (simp add: close_fd_def)
  show "close_fd t i = None" if "fd_lookup t i = None"
    using deallocate_fd_free [OF that] by (simp add: close_fd_def)
  show "i < MAX_FILES_PER_PROCESS" if "fd_lookup t i \<noteq> None"
    using that t by (simp add: fd_lookup_def slot_def filedesc_inv_def split: if_splits)
qed

end
