(* ===== verification/UserMem.thy ===== *)
theory UserMem
  imports MemNodes
begin

text \<open>
  User memory as the kernel sees it inside a system call: \<open>UserSlice\<close>
  (\<open>kernel/src/arch/x86_64/process.rs\<close>), \<open>KernSlice\<close> and \<open>userptr_to_str\<close>
  (\<open>kernel/src/process.rs\<close>).  The memory of the calling process is a byte store indexed by
  virtual address.
\<close>

section \<open>Model\<close>

type_synonym umem = "nat \<Rightarrow> u8"

text \<open>The bytes of a slice made from a base address and a length, and writing them back.\<close>

definition UserSlice_load :: "umem \<Rightarrow> nat \<Rightarrow> nat \<Rightarrow> u8 list" where
  "UserSlice_load um base len = map (\<lambda>i. um (base + i)) [0..<len]"

definition UserSlice_store :: "umem \<Rightarrow> nat \<Rightarrow> u8 list \<Rightarrow> umem" where
  "UserSlice_store um base bs =
     (\<lambda>a. if base \<le> a \<and> a < base + length bs then bs ! (a - base) else um a)"

text \<open>\<open>KernSlice::new\<close> copies the user's buffer; its \<open>Arc<[u8]>\<close> is allocated infallibly.\<close>

definition KernSlice_new :: "heap \<Rightarrow> umem \<Rightarrow> nat \<Rightarrow> nat \<Rightarrow> heap \<times> u8 list kres" where
  "KernSlice_new h um base len =
     (case heap_take h of
        (True, h') \<Rightarrow> (h', Ok (UserSlice_load um base len))
      | (False, h') \<Rightarrow> (h', Panic))"

text \<open>
  \<open>CStr::from_ptr\<close> reads bytes up to the first zero byte; \<open>None\<close> is a string that runs off the
  end of the address space.
\<close>

function cstr_bytes :: "umem \<Rightarrow> nat \<Rightarrow> u8 list option" where
  "cstr_bytes um addr =
     (if usize_limit \<le> addr then None
      else if um addr = 0 then Some []
      else map_option ((#) (um addr)) (cstr_bytes um (addr + 1)))"
  by pat_completeness auto
termination
  by (relation "measure (\<lambda>(um, addr). usize_limit - addr)") auto

declare cstr_bytes.simps [simp del]

text \<open>
  \<open>userptr_to_str\<close>: both a byte sequence that is no UTF-8 and one with non-ASCII characters is
  \<open>NotSupported\<close>, as is the empty string.
\<close>

definition userptr_to_str :: "heap \<Rightarrow> umem \<Rightarrow> nat \<Rightarrow> heap \<times> string kres" where
  "userptr_to_str h um useraddr =
     (case cstr_bytes um useraddr of
        None \<Rightarrow> (h, Panic)
      | Some bs \<Rightarrow>
          (if list_all (\<lambda>b. unat b < 128) bs \<and> bs \<noteq> []
           then TryString_try_from h (map (\<lambda>b. char_of (unat b)) bs)
           else (h, Err NotSupported)))"

section \<open>Loads, stores and strings\<close>

lemma length_UserSlice_load [simp]: "length (UserSlice_load um base len) = len"
  by (simp add: UserSlice_load_def)

lemma load_store:
  "UserSlice_load (UserSlice_store um base bs) base (length bs) = bs"
  by (rule nth_equalityI) (simp_all add: UserSlice_load_def UserSlice_store_def)

lemma store_outside:
  "a < base \<or> base + length bs \<le> a \<Longrightarrow> UserSlice_store um base bs a = um a"
  by (auto simp: UserSlice_store_def)

text \<open>Putting a C string into memory and reading it back.\<close>

lemma cstr_bytes_stored:
  assumes "\<forall>i < length bs. um (addr + i) = bs ! i" and "um (addr + length bs) = 0"
    and "0 \<notin> set bs" and "addr + length bs < usize_limit"
  shows "cstr_bytes um addr = Some bs"
  using assms
proof (induction bs arbitrary: addr)
  case Nil
  then show ?case by (simp add: cstr_bytes.simps [of um addr])
next
  case (Cons b bs)
  have b: "um addr = b" "b \<noteq> 0" using Cons.prems(1,3) by force+
  have "um (addr + 1 + i) = bs ! i" if "i < length bs" for i
    using spec [OF Cons.prems(1), of "Suc i"] that by simp
  then have "cstr_bytes um (addr + 1) = Some bs"
    using Cons.prems by (intro Cons.IH) auto
  then show ?case using b Cons.prems(4) by (simp add: cstr_bytes.simps [of um addr])
qed

lemma userptr_to_str_not_empty:
  assumes "userptr_to_str h um a = (h', Ok s)"
  shows "s \<noteq> []" and "\<forall>c \<in> set s. of_char c < (128 :: nat)"
proof -
  obtain bs where bs: "cstr_bytes um a = Some bs" "list_all (\<lambda>b. unat b < 128) bs" "bs \<noteq> []"
    "TryString_try_from h (map (\<lambda>b. char_of (unat b)) bs) = (h', Ok s)"
    using assms by (auto simp: userptr_to_str_def split: option.splits if_splits)
  then have s: "s = map (\<lambda>b. char_of (unat b)) bs"
    by (auto simp: TryString_try_from_def split: if_splits prod.splits bool.splits)
  show "s \<noteq> []" using s bs(3) by simp
  show "\<forall>c \<in> set s. of_char c < (128 :: nat)"
    using s bs(2) by (auto simp: list_all_iff)
qed

end
