(* ===== verification/CnrFs.thy ===== *)
theory CnrFs
  imports MlnrFs FileDesc UserMem
begin

text \<open>
  The replicated file system node (\<open>kernel/src/cnrfs.rs\<close>): the operations that go through the
  concurrent node replication logs, the mapping of an operation to the logs it must appear in,
  the handlers that a replica runs, and the client functions that the system calls use.

  A handler reads and writes the node, the user memory of the caller and the heap; \<open>CnrState\<close>
  holds the three.  The replicas and their logs are third-party code: the client functions take
  the replica's \<open>execute\<close>, \<open>execute_mut\<close> and \<open>execute_mut_scan\<close> as parameters.
\<close>

section \<open>Operations and their logs\<close>

datatype Modify =
    ProcessAdd nat
  | ProcessRemove nat
  | FileOpen nat string u64 u64
  | FileWrite nat nat nat "u8 list" nat int
  | FileClose nat nat
  | FileDelete nat string
  | FileRename nat string string
  | MkDir nat string u64

datatype Access =
    FileRead nat nat nat nat nat int
  | FileInfoOf nat nat nat nat
  | FdToMnode nat nat
  | FileNameToMnode nat nat
  | Synchronize nat

datatype MlnrNodeResult =
    ProcessAdded nat
  | ProcessRemoved nat
  | FileOpened nat
  | FileAccessed nat
  | FileClosed nat
  | FileDeleted
  | FileInfoResult FileInfo
  | FileRenamed
  | DirCreated
  | MappedFileToMnode nat
  | Synchronized

text \<open>\<open>(mnode - MNODE_OFFSET) % nlogs\<close>: an underflow and a division by zero are panics.\<close>

definition mnode_log :: "nat \<Rightarrow> nat \<Rightarrow> nat list kres" where
  "mnode_log nlogs mno = (if mno < MNODE_OFFSET \<or> nlogs = 0 then Panic else Ok [(mno - MNODE_OFFSET) mod nlogs])"

definition push_to_all :: "nat \<Rightarrow> nat list" where
  "push_to_all nlogs = [0..<nlogs]"

fun Modify_hash :: "nat \<Rightarrow> Modify \<Rightarrow> nat list kres" where
  "Modify_hash nlogs (ProcessAdd pid) = Ok (push_to_all nlogs)"
| "Modify_hash nlogs (ProcessRemove pid) = Ok (push_to_all nlogs)"
| "Modify_hash nlogs (FileOpen pid filename flags md) = Ok (push_to_all nlogs)"
| "Modify_hash nlogs (FileWrite pid fd mno kernslice len off) = mnode_log nlogs mno"
| "Modify_hash nlogs (FileClose pid fd) = Ok (push_to_all nlogs)"
| "Modify_hash nlogs (FileDelete pid filename) = Ok (push_to_all nlogs)"
| "Modify_hash nlogs (FileRename pid oldname newname) = Ok (push_to_all nlogs)"
| "Modify_hash nlogs (MkDir pid filename md) = Ok (push_to_all nlogs)"

fun Access_hash :: "nat \<Rightarrow> Access \<Rightarrow> nat list kres" where
  "Access_hash nlogs (FileRead pid fd mno buffer len off) = mnode_log nlogs mno"
| "Access_hash nlogs (FileInfoOf pid filename mno info_ptr) = mnode_log nlogs mno"
| "Access_hash nlogs (FdToMnode pid fd) = Ok [0]"
| "Access_hash nlogs (FileNameToMnode pid filename) = Ok [0]"
| "Access_hash nlogs (Synchronize log_id) =
     (if log_id < 1 \<or> nlogs = 0 then Panic else Ok [(log_id - 1) mod nlogs])"

section \<open>The node and its handlers\<close>

record MlnrKernelNode =
  process_map :: "nat \<rightharpoonup> FileDesc"
  cfs :: MlnrFS

record CnrState =
  kheap :: heap
  kmem :: umem
  knode :: MlnrKernelNode

type_synonym cnr_result = "CnrState \<times> MlnrNodeResult kres"

abbreviation set_cfs :: "CnrState \<Rightarrow> MlnrFS \<Rightarrow> CnrState" where
  "set_cfs s fs \<equiv> s\<lparr>knode := (knode s)\<lparr>cfs := fs\<rparr>\<rparr>"

abbreviation set_proc :: "CnrState \<Rightarrow> nat \<Rightarrow> FileDesc \<Rightarrow> CnrState" where
  "set_proc s pid p \<equiv> s\<lparr>knode := (knode s)\<lparr>process_map := (process_map (knode s))(pid \<mapsto> p)\<rparr>\<rparr>"

text \<open>\<open>offset as usize\<close> of an \<open>i64\<close>.\<close>

definition usize_of_i64 :: "int \<Rightarrow> nat" where
  "usize_of_i64 off = nat (off mod 18446744073709551616)"

text \<open>Running a file system operation, or a heap operation, inside a handler.\<close>

definition run_fs ::
  "CnrState \<Rightarrow> (heap \<Rightarrow> MlnrFS \<Rightarrow> (heap \<times> MlnrFS) \<times> 'a kres) \<Rightarrow> CnrState \<times> 'a kres" where
  "run_fs s f = (case f (kheap s) (cfs (knode s)) of
       ((h, fs), r) \<Rightarrow> ((set_cfs s fs)\<lparr>kheap := h\<rparr>, r))"

definition run_heap :: "CnrState \<Rightarrow> heap \<times> 'a kres \<Rightarrow> CnrState \<times> 'a kres" where
  "run_heap s r = (case r of (h, x) \<Rightarrow> (s\<lparr>kheap := h\<rparr>, x))"

text \<open>\<open>p.get_fd(fd).ok_or(PermissionError)?\<close>, a panic on an index out of range.\<close>

definition fd_of :: "FileDesc \<Rightarrow> nat \<Rightarrow> Fd kres" where
  "fd_of p fd = bind_result (get_fd p fd) (ok_or PermissionError)"

text \<open>\<open>fd.update_offset(curr_offset + len)\<close> when the call gave no offset.\<close>

definition advance_fd :: "CnrState \<Rightarrow> nat \<Rightarrow> FileDesc \<Rightarrow> nat \<Rightarrow> Fd \<Rightarrow> int \<Rightarrow> nat \<Rightarrow> nat \<Rightarrow> cnr_result" where
  "advance_fd s pid p fd fdinfo off curr_offset len =
     (if off = -1
      then if usize_limit \<le> curr_offset + len then (s, Panic)
           else (set_proc s pid (set_fd p fd (update_offset fdinfo (curr_offset + len))),
                 Ok (FileAccessed len))
      else (s, Ok (FileAccessed len)))"

definition dispatch_FileRead ::
  "CnrState \<Rightarrow> nat \<Rightarrow> nat \<Rightarrow> nat \<Rightarrow> nat \<Rightarrow> int \<Rightarrow> cnr_result" where
  "dispatch_FileRead s pid fd buffer len off =
     (let userslice = UserSlice_load (kmem s) buffer len in
      case process_map (knode s) pid of
        None \<Rightarrow> (s, Err NoProcessFoundForPid)
      | Some p \<Rightarrow>
          (case fd_of p fd of
             Err e \<Rightarrow> (s, Err e)
           | Panic \<Rightarrow> (s, Panic)
           | Ok fdinfo \<Rightarrow>
               (if \<not> flags_is_read (fd_flags fdinfo) then (s, Err PermissionError)
                else let curr_offset = (if off = -1 then fd_offset fdinfo else usize_of_i64 off)
                  in case MlnrFS_read (cfs (knode s)) (fd_mnode fdinfo) userslice curr_offset of
                       Ok (bytes, n) \<Rightarrow>
                         advance_fd (s\<lparr>kmem := UserSlice_store (kmem s) buffer bytes\<rparr>)
                           pid p fd fdinfo off curr_offset n
                     | Err e \<Rightarrow> (s, Err e)
                     | Panic \<Rightarrow> (s, Panic))))"

definition dispatch_FileInfo :: "CnrState \<Rightarrow> nat \<Rightarrow> nat \<Rightarrow> cnr_result" where
  "dispatch_FileInfo s pid name =
     (case process_map (knode s) pid of
        None \<Rightarrow> (s, Err NoProcessFoundForPid)
      | Some _ \<Rightarrow>
          and_then (run_heap s (userptr_to_str (kheap s) (kmem s) name)) (\<lambda>s filename.
            case MlnrFS_lookup (cfs (knode s)) filename of
              (fs, None) \<Rightarrow> (s, Err InvalidFile)
            | (fs, Some mno) \<Rightarrow>
                (set_cfs s (arc_drop fs mno), map_result FileInfoResult (MlnrFS_file_info fs mno))))"

definition dispatch_FdToMnode :: "CnrState \<Rightarrow> nat \<Rightarrow> nat \<Rightarrow> cnr_result" where
  "dispatch_FdToMnode s pid fd =
     (case process_map (knode s) pid of
        None \<Rightarrow> (s, Err NoProcessFoundForPid)
      | Some p \<Rightarrow> (s, map_result (\<lambda>fdinfo. MappedFileToMnode (fd_mnode fdinfo)) (fd_of p fd)))"

definition dispatch_FileNameToMnode :: "CnrState \<Rightarrow> nat \<Rightarrow> nat \<Rightarrow> cnr_result" where
  "dispatch_FileNameToMnode s pid name =
     (case process_map (knode s) pid of
        None \<Rightarrow> (s, Err NoProcessFoundForPid)
      | Some _ \<Rightarrow>
          and_then (run_heap s (userptr_to_str (kheap s) (kmem s) name)) (\<lambda>s filename.
            case MlnrFS_lookup (cfs (knode s)) filename of
              (fs, None) \<Rightarrow> (s, Err InvalidFile)
            | (fs, Some mno) \<Rightarrow> (set_cfs s (arc_drop fs mno), Ok (MappedFileToMnode mno))))"

fun dispatch :: "CnrState \<Rightarrow> Access \<Rightarrow> cnr_result" where
  "dispatch s (FileRead pid fd mno buffer len off) = dispatch_FileRead s pid fd buffer len off"
| "dispatch s (FileInfoOf pid name mno info_ptr) = dispatch_FileInfo s pid name"
| "dispatch s (FdToMnode pid fd) = dispatch_FdToMnode s pid fd"
| "dispatch s (FileNameToMnode pid name) = dispatch_FileNameToMnode s pid name"
| "dispatch s (Synchronize log_id) = (s, Ok Synchronized)"

definition dispatch_ProcessAdd :: "CnrState \<Rightarrow> nat \<Rightarrow> cnr_result" where
  "dispatch_ProcessAdd s pid =
     and_then (run_heap s (try_reserve (kheap s))) (\<lambda>s _.
       if process_map (knode s) pid \<noteq> None then (s, Err FileDescForPidAlreadyAdded)
       else (set_proc s pid FileDesc_default, Ok (ProcessAdded pid)))"

definition dispatch_ProcessRemove :: "CnrState \<Rightarrow> nat \<Rightarrow> cnr_result" where
  "dispatch_ProcessRemove s pid =
     (if process_map (knode s) pid = None then (s, Err NoFileDescForPid)
      else (s\<lparr>knode := (knode s)\<lparr>process_map := (process_map (knode s))(pid := None)\<rparr>\<rparr>,
            Ok (ProcessRemoved pid)))"

text \<open>
  The part of \<open>FileOpen\<close> that finds the node: truncate an existing file when asked to, create a
  missing one.  A failure gives the descriptor back.
\<close>

definition open_mnode :: "CnrState \<Rightarrow> nat option \<Rightarrow> string \<Rightarrow> u64 \<Rightarrow> u64 \<Rightarrow> CnrState \<times> nat kres" where
  "open_mnode s mnode filename flags md =
     (case mnode of
        Some mno \<Rightarrow>
          (if flags_is_truncate flags
           then (case MlnrFS_truncate (cfs (knode s)) filename of
                   (fs, r) \<Rightarrow> (set_cfs s fs, map_result (\<lambda>_. mno) r))
           else (s, Ok mno))
      | None \<Rightarrow> run_fs s (\<lambda>h fs. MlnrFS_create h fs filename md))"

definition drop_arc :: "CnrState \<Rightarrow> nat option \<Rightarrow> CnrState" where
  "drop_arc s mnode = (case mnode of None \<Rightarrow> s | Some mno \<Rightarrow> set_cfs s (arc_drop (cfs (knode s)) mno))"

definition dispatch_FileOpen :: "CnrState \<Rightarrow> nat \<Rightarrow> string \<Rightarrow> u64 \<Rightarrow> u64 \<Rightarrow> cnr_result" where
  "dispatch_FileOpen s0 pid filename flags0 md =
     (let flags = FileFlags_from flags0 in
      case MlnrFS_lookup (cfs (knode s0)) filename of (fs, mnode) \<Rightarrow>
      let s = set_cfs s0 fs in
      if mnode = None \<and> \<not> flags_is_create flags then (s, Err PermissionError)
      else (case process_map (knode s) pid of
          None \<Rightarrow> (s, Panic)
        | Some p \<Rightarrow>
            (case allocate_fd p of
               None \<Rightarrow> (drop_arc s mnode, Err NotSupported)
             | Some (p1, fid) \<Rightarrow>
                 (case open_mnode (set_proc s pid p1) mnode filename flags md of
                    (s1, Ok mno) \<Rightarrow>
                      (drop_arc (set_proc s1 pid (set_fd p1 fid (update_fd Fd_default mno flags))) mnode,
                       Ok (FileOpened fid))
                  | (s1, Err e) \<Rightarrow>
                      (case deallocate_fd p1 fid of
                         (p2, Ok _) \<Rightarrow> (drop_arc (set_proc s1 pid p2) mnode, Err e)
                       | (p2, Err e2) \<Rightarrow> (drop_arc (set_proc s1 pid p2) mnode, Err e2)
                       | (p2, Panic) \<Rightarrow> (s1, Panic))
                  | (s1, Panic) \<Rightarrow> (s1, Panic)))))"

text \<open>The offset a write goes to; without an offset an append goes to the end of the file.\<close>

definition write_offset :: "CnrState \<Rightarrow> Fd \<Rightarrow> int \<Rightarrow> nat kres" where
  "write_offset s fdinfo off =
     (if off = -1
      then if flags_is_append (fd_flags fdinfo)
           then map_result fi_fsize (MlnrFS_file_info (cfs (knode s)) (fd_mnode fdinfo))
           else Ok (fd_offset fdinfo)
      else Ok (usize_of_i64 off))"

definition dispatch_FileWrite ::
  "CnrState \<Rightarrow> nat \<Rightarrow> nat \<Rightarrow> u8 list \<Rightarrow> int \<Rightarrow> cnr_result" where
  "dispatch_FileWrite s pid fd kernslice off =
     (case process_map (knode s) pid of
        None \<Rightarrow> (s, Panic)
      | Some p \<Rightarrow>
          (case fd_of p fd of
             Err e \<Rightarrow> (s, Err e)
           | Panic \<Rightarrow> (s, Panic)
           | Ok fdinfo \<Rightarrow>
               (if \<not> flags_is_write (fd_flags fdinfo) then (s, Err PermissionError)
                else case write_offset s fdinfo off of
                       Err e \<Rightarrow> (s, Err e)
                     | Panic \<Rightarrow> (s, Panic)
                     | Ok curr_offset \<Rightarrow>
                         and_then (run_fs s (\<lambda>h fs. MlnrFS_write h fs (fd_mnode fdinfo) kernslice curr_offset))
                           (\<lambda>s len. advance_fd s pid p fd fdinfo off curr_offset len))))"

definition dispatch_FileClose :: "CnrState \<Rightarrow> nat \<Rightarrow> nat \<Rightarrow> cnr_result" where
  "dispatch_FileClose s pid fd =
     (case process_map (knode s) pid of
        None \<Rightarrow> (s, Panic)
      | Some p \<Rightarrow> (case deallocate_fd p fd of
                     (p', r) \<Rightarrow> (set_proc s pid p', map_result (\<lambda>_. FileClosed fd) r)))"

definition dispatch_FileDelete :: "CnrState \<Rightarrow> nat \<Rightarrow> string \<Rightarrow> cnr_result" where
  "dispatch_FileDelete s pid filename =
     (case process_map (knode s) pid of
        None \<Rightarrow> (s, Err NoProcessFoundForPid)
      | Some _ \<Rightarrow> (case MlnrFS_delete (cfs (knode s)) filename of
                     (fs, r) \<Rightarrow> (set_cfs s fs, map_result (\<lambda>_. FileDeleted) r)))"

definition dispatch_FileRename :: "CnrState \<Rightarrow> nat \<Rightarrow> string \<Rightarrow> string \<Rightarrow> cnr_result" where
  "dispatch_FileRename s pid oldname newname =
     (case process_map (knode s) pid of
        None \<Rightarrow> (s, Err NoProcessFoundForPid)
      | Some _ \<Rightarrow> (case run_fs s (\<lambda>h fs. MlnrFS_rename h fs oldname newname) of
                     (s', r) \<Rightarrow> (s', map_result (\<lambda>_. FileRenamed) r)))"

definition dispatch_MkDir :: "CnrState \<Rightarrow> nat \<Rightarrow> string \<Rightarrow> u64 \<Rightarrow> cnr_result" where
  "dispatch_MkDir s pid filename md =
     (case process_map (knode s) pid of
        None \<Rightarrow> (s, Err NoProcessFoundForPid)
      | Some _ \<Rightarrow> (case run_fs s (\<lambda>h fs. MlnrFS_mkdir h fs filename md) of
                     (s', r) \<Rightarrow> (s', map_result (\<lambda>_. DirCreated) r)))"

fun dispatch_mut :: "CnrState \<Rightarrow> Modify \<Rightarrow> cnr_result" where
  "dispatch_mut s (ProcessAdd pid) = dispatch_ProcessAdd s pid"
| "dispatch_mut s (ProcessRemove pid) = dispatch_ProcessRemove s pid"
| "dispatch_mut s (FileOpen pid filename flags md) = dispatch_FileOpen s pid filename flags md"
| "dispatch_mut s (FileWrite pid fd mno kernslice len off) = dispatch_FileWrite s pid fd kernslice off"
| "dispatch_mut s (FileClose pid fd) = dispatch_FileClose s pid fd"
| "dispatch_mut s (FileDelete pid filename) = dispatch_FileDelete s pid filename"
| "dispatch_mut s (FileRename pid oldname newname) = dispatch_FileRename s pid oldname newname"
| "dispatch_mut s (MkDir pid filename md) = dispatch_MkDir s pid filename md"

section \<open>Client functions\<close>

text \<open>
  The functions the system call layer uses.  \<open>None\<close> for the replica is a core without one
  (\<open>ReplicaNotSet\<close>); otherwise the pair holds \<open>execute_mut\<close> (with \<open>execute_mut_scan\<close>, which
  differs only in the logs it waits for) and \<open>execute\<close>.  An answer of the wrong kind is
  \<open>unreachable!\<close>.
\<close>

type_synonym replica = "((CnrState \<Rightarrow> Modify \<Rightarrow> cnr_result) \<times> (CnrState \<Rightarrow> Access \<Rightarrow> cnr_result)) option"

definition with_replica ::
  "replica \<Rightarrow> CnrState \<Rightarrow> ((CnrState \<Rightarrow> Modify \<Rightarrow> cnr_result) \<Rightarrow> (CnrState \<Rightarrow> Access \<Rightarrow> cnr_result)
     \<Rightarrow> CnrState \<times> (nat \<times> nat) kres) \<Rightarrow> CnrState \<times> (nat \<times> nat) kres" where
  "with_replica r s f = (case r of None \<Rightarrow> (s, Err ReplicaNotSet) | Some (em, ex) \<Rightarrow> f em ex)"

definition expect_response ::
  "(MlnrNodeResult \<Rightarrow> (nat \<times> nat) option) \<Rightarrow> cnr_result \<Rightarrow> CnrState \<times> (nat \<times> nat) kres" where
  "expect_response f r = (case r of
       (s, Ok x) \<Rightarrow> (case f x of Some v \<Rightarrow> (s, Ok v) | None \<Rightarrow> (s, Panic))
     | (s, Err e) \<Rightarrow> (s, Err e)
     | (s, Panic) \<Rightarrow> (s, Panic))"

definition add_process :: "replica \<Rightarrow> CnrState \<Rightarrow> nat \<Rightarrow> CnrState \<times> (nat \<times> nat) kres" where
  "add_process r s pid = with_replica r s (\<lambda>em ex.
     expect_response (\<lambda>x. case x of ProcessAdded p \<Rightarrow> Some (p, 0) | _ \<Rightarrow> None) (em s (ProcessAdd pid)))"

definition user_string :: "CnrState \<Rightarrow> nat \<Rightarrow> CnrState \<times> string kres" where
  "user_string s ptr = run_heap s (userptr_to_str (kheap s) (kmem s) ptr)"

definition map_fd :: "replica \<Rightarrow> CnrState \<Rightarrow> nat \<Rightarrow> nat \<Rightarrow> u64 \<Rightarrow> u64 \<Rightarrow> CnrState \<times> (nat \<times> nat) kres" where
  "map_fd r s pid pathname flags md = with_replica r s (\<lambda>em ex.
     and_then (user_string s pathname) (\<lambda>s filename.
       expect_response (\<lambda>x. case x of FileOpened fd \<Rightarrow> Some (fd, 0) | _ \<Rightarrow> None)
         (em s (FileOpen pid filename flags md))))"

definition fd_to_mnode :: "replica \<Rightarrow> CnrState \<Rightarrow> nat \<Rightarrow> nat \<Rightarrow> CnrState \<times> (nat \<times> nat) kres" where
  "fd_to_mnode r s pid fd = with_replica r s (\<lambda>em ex.
     expect_response (\<lambda>x. case x of MappedFileToMnode m \<Rightarrow> Some (m, 0) | _ \<Rightarrow> None)
       (ex s (FdToMnode pid fd)))"

definition filename_to_mnode :: "replica \<Rightarrow> CnrState \<Rightarrow> nat \<Rightarrow> nat \<Rightarrow> CnrState \<times> (nat \<times> nat) kres" where
  "filename_to_mnode r s pid filename = with_replica r s (\<lambda>em ex.
     expect_response (\<lambda>x. case x of MappedFileToMnode m \<Rightarrow> Some (m, 0) | _ \<Rightarrow> None)
       (ex s (FileNameToMnode pid filename)))"

definition file_io ::
  "replica \<Rightarrow> CnrState \<Rightarrow> FileOperation \<Rightarrow> nat \<Rightarrow> nat \<Rightarrow> nat \<Rightarrow> nat \<Rightarrow> int \<Rightarrow> CnrState \<times> (nat \<times> nat) kres" where
  "file_io r s op pid fd buffer len off =
     (case fd_to_mnode r s pid fd of
        (s, Panic) \<Rightarrow> (s, Panic)
      | (s, Err _) \<Rightarrow> (s, Err InvalidFileDescriptor)
      | (s, Ok (mno, _)) \<Rightarrow> with_replica r s (\<lambda>em ex.
          if op = FWrite \<or> op = FWriteAt
          then and_then (run_heap s (KernSlice_new (kheap s) (kmem s) buffer len)) (\<lambda>s kernslice.
                 expect_response (\<lambda>x. case x of FileAccessed n \<Rightarrow> Some (n, 0) | _ \<Rightarrow> None)
                   (em s (FileWrite pid fd mno kernslice len off)))
          else if op = FRead \<or> op = FReadAt
          then expect_response (\<lambda>x. case x of FileAccessed n \<Rightarrow> Some (n, 0) | _ \<Rightarrow> None)
                 (ex s (FileRead pid fd mno buffer len off))
          else (s, Panic)))"

definition unmap_fd :: "replica \<Rightarrow> CnrState \<Rightarrow> nat \<Rightarrow> nat \<Rightarrow> CnrState \<times> (nat \<times> nat) kres" where
  "unmap_fd r s pid fd = with_replica r s (\<lambda>em ex.
     expect_response (\<lambda>x. case x of FileClosed _ \<Rightarrow> Some (0, 0) | _ \<Rightarrow> None) (em s (FileClose pid fd)))"

definition file_delete :: "replica \<Rightarrow> CnrState \<Rightarrow> nat \<Rightarrow> nat \<Rightarrow> CnrState \<times> (nat \<times> nat) kres" where
  "file_delete r s pid name = with_replica r s (\<lambda>em ex.
     and_then (user_string s name) (\<lambda>s filename.
       expect_response (\<lambda>x. case x of FileDeleted \<Rightarrow> Some (0, 0) | _ \<Rightarrow> None)
         (em s (FileDelete pid filename))))"

text \<open>\<open>file_info\<close> stores the two \<open>u64\<close> fields of \<open>FileInfo\<close>, type first, at the user's pointer.\<close>

definition file_info :: "replica \<Rightarrow> CnrState \<Rightarrow> nat \<Rightarrow> nat \<Rightarrow> nat \<Rightarrow> CnrState \<times> (nat \<times> nat) kres" where
  "file_info r s pid name info_ptr =
     and_then (filename_to_mnode r s pid name) (\<lambda>s (mno, _). with_replica r s (\<lambda>em ex.
       case ex s (FileInfoOf pid name mno info_ptr) of
         (s, Ok (FileInfoResult fi)) \<Rightarrow>
           (s\<lparr>kmem := UserSlice_store (kmem s) info_ptr (u64_bytes (fi_ftype fi) @ u64_bytes (fi_fsize fi))\<rparr>,
            Ok (0, 0))
       | (s, Err e) \<Rightarrow> (s, Err e)
       | (s, _) \<Rightarrow> (s, Panic)))"

definition file_rename :: "replica \<Rightarrow> CnrState \<Rightarrow> nat \<Rightarrow> nat \<Rightarrow> nat \<Rightarrow> CnrState \<times> (nat \<times> nat) kres" where
  "file_rename r s pid oldname newname = with_replica r s (\<lambda>em ex.
     and_then (user_string s oldname) (\<lambda>s oldfilename.
     and_then (user_string s newname) (\<lambda>s newfilename.
       expect_response (\<lambda>x. case x of FileRenamed \<Rightarrow> Some (0, 0) | _ \<Rightarrow> None)
         (em s (FileRename pid oldfilename newfilename)))))"

definition cnr_mkdir :: "replica \<Rightarrow> CnrState \<Rightarrow> nat \<Rightarrow> nat \<Rightarrow> u64 \<Rightarrow> CnrState \<times> (nat \<times> nat) kres" where
  "cnr_mkdir r s pid pathname md = with_replica r s (\<lambda>em ex.
     and_then (user_string s pathname) (\<lambda>s filename.
       expect_response (\<lambda>x. case x of DirCreated \<Rightarrow> Some (0, 0) | _ \<Rightarrow> None)
         (em s (MkDir pid filename md))))"

definition synchronize_log :: "replica \<Rightarrow> CnrState \<Rightarrow> nat \<Rightarrow> CnrState \<times> (nat \<times> nat) kres" where
  "synchronize_log r s log_id = with_replica r s (\<lambda>em ex.
     expect_response (\<lambda>x. case x of Synchronized \<Rightarrow> Some (0, 0) | _ \<Rightarrow> None) (ex s (Synchronize log_id)))"

section \<open>Invariant of the node\<close>

definition knode_inv :: "MlnrKernelNode \<Rightarrow> bool" where
  "knode_inv n \<longleftrightarrow> fs_inv (cfs n) \<and> (\<forall>pid p. process_map n pid = Some p \<longrightarrow> filedesc_inv p)"

lemma knode_invD:
  assumes "knode_inv n"
  shows "fs_inv (cfs n)" and "process_map n pid = Some p \<Longrightarrow> filedesc_inv p"
  using assms by (auto simp: knode_inv_def)

lemma knode_inv_cfs: "knode_inv n \<Longrightarrow> fs_inv fs \<Longrightarrow> knode_inv (n\<lparr>cfs := fs\<rparr>)"
  by (simp add: knode_inv_def)

lemma knode_inv_proc:
  "knode_inv n \<Longrightarrow> filedesc_inv p \<Longrightarrow> knode_inv (n\<lparr>process_map := (process_map n)(pid \<mapsto> p)\<rparr>)"
  by (simp add: knode_inv_def)

lemma fd_of_eq:
  assumes "filedesc_inv p"
  shows "fd_of p fd = (if fd < MAX_FILES_PER_PROCESS then ok_or PermissionError (fd_lookup p fd) else Panic)"
  by (simp add: fd_of_def get_fd_lookup [OF assms])

lemma fd_of_OkD:
  assumes "filedesc_inv p" and "fd_of p fd = Ok fdinfo"
  shows "fd < MAX_FILES_PER_PROCESS" and "fd_lookup p fd = Some fdinfo"
  using assms(2) by (auto simp: fd_of_eq [OF assms(1)] split: if_splits)

text \<open>Taking and dropping a clone of an \<open>Arc\<close> leaves the file system as it was.\<close>

lemma lookup_arc_drop:
  assumes "MlnrFS_lookup fs p = (fs1, Some m)"
  shows "arc_drop fs1 m = fs" and "files fs p = Some m" and "fs1 = fs\<lparr>arcs := arcs fs1\<rparr>"
    and "mnodes fs1 = mnodes fs"
  using assms by (auto simp: MlnrFS_lookup_def arc_drop_def split: option.splits)

lemma lookup_None: "MlnrFS_lookup fs p = (fs1, None) \<Longrightarrow> fs1 = fs \<and> files fs p = None"
  by (auto simp: MlnrFS_lookup_def split: option.splits)

text \<open>A write, whatever its arguments, keeps the file system well formed.\<close>

lemma MlnrFS_write_inv:
  assumes inv: "fs_inv fs" and w: "MlnrFS_write h fs m d off = ((h', fs'), r)" and r: "r \<noteq> Panic"
  shows "fs_inv fs'" and "nextmemnode fs' = nextmemnode fs" and "files fs' = files fs"
proof -
  have "fs_inv fs' \<and> nextmemnode fs' = nextmemnode fs \<and> files fs' = files fs"
  proof (cases "mnodes fs m")
    case None
    then show ?thesis using w inv by (simp add: MlnrFS_write_def)
  next
    case (Some n)
    obtain p where p: "files fs p = Some m" "memnode_inv n" by (rule fs_inv_nodeD [OF inv Some])
    show ?thesis
    proof (cases "off + length d < usize_limit")
      case True
      from inv p(1) True show ?thesis
        by (cases rule: MlnrFS_write_cases [of fs p m off d h]) (use w inv in auto)
    next
      case False
      from p(2) have "fst (MemNode_write h n d off) = (h, n)"
      proof (cases rule: memnode_inv_cases)
        case dir
        then show ?thesis by (simp add: MemNode_write_def)
      next
        case (regular f)
        then have "MemNode_write h n d off = ((h, n), Err PermissionError)"
          using w r Some False
          by (auto simp: MlnrFS_write_def MemNode_write_def write_file_def split: if_splits prod.splits)
        then show ?thesis by simp
      qed
      then have "fs' = fs" using w Some
        by (auto simp: MlnrFS_write_def fun_upd_idem split: prod.splits)
      then show ?thesis using inv by simp
    qed
  qed
  then show "fs_inv fs'" and "nextmemnode fs' = nextmemnode fs" and "files fs' = files fs" by auto
qed

lemma MlnrFS_truncate_inv:
  assumes inv: "fs_inv fs" and t: "MlnrFS_truncate fs p = (fs', r)"
  shows "fs_inv fs' \<and> nextmemnode fs' = nextmemnode fs \<and> files fs' = files fs \<and> r \<noteq> Panic"
proof (cases "files fs p")
  case None
  then show ?thesis using t inv by (auto simp: MlnrFS_truncate_def)
next
  case (Some m)
  from inv Some show ?thesis
    by (cases rule: MlnrFS_truncate_cases [of fs p m]) (use t inv in auto)
qed

lemma MlnrFS_delete_inv:
  assumes inv: "fs_inv fs" and t: "MlnrFS_delete fs p = (fs', r)"
  shows "fs_inv fs' \<and> r \<noteq> Panic"
proof (cases "files fs p")
  case None
  then show ?thesis using t inv by (auto simp: MlnrFS_delete_def)
next
  case (Some m)
  show ?thesis by (rule MlnrFS_delete_ok [OF inv Some]) (use t in auto)
qed

lemma add_memnode_inv:
  assumes inv: "fs_inv fs" and room: "has_room fs" and t: "add_memnode h fs p md nt = ((h', fs'), r)"
  shows "r \<noteq> Panic \<Longrightarrow> fs_inv fs'" and "never_fails h \<Longrightarrow> r \<noteq> Panic"
proof -
  have "(r \<noteq> Panic \<longrightarrow> fs_inv fs') \<and> (never_fails h \<longrightarrow> r \<noteq> Panic)"
  proof (cases "files fs p")
    case None
    from inv room None show ?thesis
      by (cases rule: add_memnode_cases [of fs p h md nt]) (use t in auto)
  next
    case (Some m)
    then show ?thesis using t inv by (auto simp: add_memnode_dup)
  qed
  then show "r \<noteq> Panic \<Longrightarrow> fs_inv fs'" and "never_fails h \<Longrightarrow> r \<noteq> Panic" by auto
qed

lemma MlnrFS_rename_inv:
  assumes inv: "fs_inv fs" and t: "MlnrFS_rename h fs a b = ((h', fs'), r)"
  shows "r \<noteq> Panic \<Longrightarrow> fs_inv fs'" and "never_fails h \<Longrightarrow> r \<noteq> Panic"
proof -
  have "(r \<noteq> Panic \<longrightarrow> fs_inv fs') \<and> (never_fails h \<longrightarrow> r \<noteq> Panic)"
  proof (cases "files fs a")
    case None
    then show ?thesis using t inv by (auto simp: MlnrFS_rename_def)
  next
    case (Some m)
    show ?thesis
    proof (cases "a = b")
      case False
      from inv Some False show ?thesis
        by (cases rule: MlnrFS_rename_cases [of fs a m b h]) (use t inv in auto)
    next
      case True
      show ?thesis
      proof (cases rule: TryString_cases [of h a])
        case (oom h1)
        then show ?thesis using t Some inv True by (auto simp: MlnrFS_rename_def)
      next
        case (ok h1)
        obtain fs1 where fs1: "MlnrFS_delete fs a = (fs1, Ok ())" "fs_inv fs1"
          "files fs1 = (files fs)(a := None)"
          by (rule MlnrFS_delete_ok [OF inv Some])
        then show ?thesis using t Some inv True ok
          by (auto simp: MlnrFS_rename_def overwrite_target_def expect_def)
      qed
    qed
  qed
  then show "r \<noteq> Panic \<Longrightarrow> fs_inv fs'" and "never_fails h \<Longrightarrow> r \<noteq> Panic" by auto
qed

section \<open>Opening a file\<close>

lemma truncate_arcs:
  "MlnrFS_truncate (fs\<lparr>arcs := a\<rparr>) p = (case MlnrFS_truncate fs p of (fs', r) \<Rightarrow> (fs'\<lparr>arcs := a\<rparr>, r))"
  by (simp add: MlnrFS_truncate_def split: option.splits prod.splits)

lemma truncate_keeps_arcs: "MlnrFS_truncate fs p = (fs', r) \<Longrightarrow> fs'\<lparr>arcs := arcs fs\<rparr> = fs'"
  by (auto simp: MlnrFS_truncate_def split: option.splits prod.splits)

lemma deallocate_allocated:
  assumes "filedesc_inv p" and "allocate_fd p = Some (p1, fid)"
  obtains p2 where "deallocate_fd p1 fid = (p2, Ok fid)" "filedesc_inv p2" "fd_lookup p2 = fd_lookup p"
proof -
  note a = allocate_fd_Some [OF assms]
  have "fd_lookup p1 fid \<noteq> None" using a(4) by simp
  from deallocate_fd_used [OF a(1) this] obtain p2 where
    "deallocate_fd p1 fid = (p2, Ok fid)" "filedesc_inv p2" "fd_lookup p2 = (fd_lookup p1)(fid := None)" .
  then show ?thesis using that a(3,4) by (simp add: fun_upd_idem)
qed

text \<open>The node a successful open binds the descriptor to, and the file system it leaves behind.\<close>

definition open_target :: "heap \<Rightarrow> MlnrFS \<Rightarrow> string \<Rightarrow> u64 \<Rightarrow> u64 \<Rightarrow> (heap \<times> MlnrFS) \<times> nat kres" where
  "open_target h fs filename flags md =
     (case files fs filename of
        Some m \<Rightarrow>
          (if flags_is_truncate flags
           then (case MlnrFS_truncate fs filename of (fs', r) \<Rightarrow> ((h, fs'), map_result (\<lambda>_. m) r))
           else ((h, fs), Ok m))
      | None \<Rightarrow> (if flags_is_create flags then MlnrFS_create h fs filename md
                 else ((h, fs), Err PermissionError)))"

lemma dispatch_FileOpen_eq:
  assumes inv: "knode_inv (knode s)" and p: "process_map (knode s) pid = Some p"
    and a: "allocate_fd p = Some (p1, fid)"
    and t: "open_target (kheap s) (cfs (knode s)) filename flags md = ((h', fs'), r)"
  obtains p2 where
    "dispatch_FileOpen s pid filename flags md =
       (case r of
          Ok m \<Rightarrow> ((set_cfs (set_proc s pid (set_fd p1 fid
                     \<lparr>fd_mnode = m, fd_flags = FileFlags_from flags, fd_offset = 0\<rparr>)) fs')\<lparr>kheap := h'\<rparr>,
                  Ok (FileOpened fid))
        | Err e \<Rightarrow> ((set_cfs (set_proc s pid p2) fs')\<lparr>kheap := h'\<rparr>, Err e)
        | Panic \<Rightarrow> (fst (dispatch_FileOpen s pid filename flags md), Panic))"
    "filedesc_inv p2" "fd_lookup p2 = fd_lookup p"
proof (cases "files (cfs (knode s)) filename")
  case (Some m)
  note fi = knode_invD(2) [OF inv p]
  obtain p2 where p2: "deallocate_fd p1 fid = (p2, Ok fid)" "filedesc_inv p2" "fd_lookup p2 = fd_lookup p"
    by (rule deallocate_allocated [OF fi a])
  obtain fs1 r1 where tr: "MlnrFS_truncate (cfs (knode s)) filename = (fs1, r1)"
    by (cases "MlnrFS_truncate (cfs (knode s)) filename")
  have keep: "arcs fs1 = arcs (cfs (knode s))"
    using truncate_keeps_arcs [OF tr] by (metis MlnrFS.ext_inject MlnrFS.surjective MlnrFS.update_convs(3))
  then have keep': "fs1\<lparr>arcs := arcs (cfs (knode s))\<rparr> = fs1" by simp
  show ?thesis
    by (rule that [OF _ p2(2,3)])
      (use Some p a t tr p2(1) in \<open>cases r1; auto simp: dispatch_FileOpen_def Let_def MlnrFS_lookup_def
         open_mnode_def drop_arc_def arc_drop_def open_target_def truncate_arcs FileFlags_from_queries
         update_fd_def Fd_default_def keep' split: if_splits\<close>)
next
  case None
  note fi = knode_invD(2) [OF inv p]
  obtain p2 where p2: "deallocate_fd p1 fid = (p2, Ok fid)" "filedesc_inv p2" "fd_lookup p2 = fd_lookup p"
    by (rule deallocate_allocated [OF fi a])
  show ?thesis
  proof (cases "flags_is_create flags")
    case True
    show ?thesis
      by (rule that [OF _ p2(2,3)])
        (use None True p a t p2(1) in \<open>cases r; auto simp: dispatch_FileOpen_def Let_def MlnrFS_lookup_def
           open_mnode_def drop_arc_def open_target_def FileFlags_from_queries run_fs_def
           update_fd_def Fd_default_def\<close>)
  next
    case False
    have same: "(set_proc s pid p)\<lparr>kheap := kheap s\<rparr> = s"
      using p by (simp add: fun_upd_idem)
    then show ?thesis
      by (intro that [of p])
        (use None False p t fi in \<open>auto simp: dispatch_FileOpen_def Let_def MlnrFS_lookup_def
           open_target_def FileFlags_from_queries fun_upd_idem\<close>)
  qed
qed

lemma open_target_inv:
  assumes inv: "fs_inv fs" and room: "has_room fs"
    and t: "open_target h fs filename flags md = ((h', fs'), r)"
  shows "r \<noteq> Panic \<Longrightarrow> fs_inv fs'" and "never_fails h \<Longrightarrow> r \<noteq> Panic"
proof -
  have "(r \<noteq> Panic \<longrightarrow> fs_inv fs') \<and> (never_fails h \<longrightarrow> r \<noteq> Panic)"
  proof (cases "files fs filename")
    case None
    then show ?thesis
      using t inv add_memnode_inv [OF inv room]
      by (auto simp: open_target_def MlnrFS_create_def split: if_splits)
  next
    case (Some m)
    show ?thesis
    proof (cases "flags_is_truncate flags")
      case True
      obtain fs1 r1 where "MlnrFS_truncate fs filename = (fs1, r1)"
        by (cases "MlnrFS_truncate fs filename")
      with Some True t MlnrFS_truncate_inv [OF inv this] show ?thesis
        by (cases r1) (auto simp: open_target_def)
    next
      case False
      with Some t inv show ?thesis by (auto simp: open_target_def)
    qed
  qed
  then show "r \<noteq> Panic \<Longrightarrow> fs_inv fs'" and "never_fails h \<Longrightarrow> r \<noteq> Panic" by auto
qed

lemma dispatch_FileOpen_inv:
  assumes inv: "knode_inv (knode s)" and room: "has_room (cfs (knode s))"
    and d: "dispatch_FileOpen s pid filename flags md = (s', r)"
  shows "r \<noteq> Panic \<Longrightarrow> knode_inv (knode s')"
    and "never_fails (kheap s) \<Longrightarrow> process_map (knode s) pid \<noteq> None \<Longrightarrow> r \<noteq> Panic"
proof -
  let ?fs = "cfs (knode s)"
  note fsi = knode_invD(1) [OF inv]
  have "(r \<noteq> Panic \<longrightarrow> knode_inv (knode s'))
      \<and> (never_fails (kheap s) \<and> process_map (knode s) pid \<noteq> None \<longrightarrow> r \<noteq> Panic)"
  proof (cases "process_map (knode s) pid")
    case None
    show ?thesis
      using d None inv lookup_None [of ?fs filename]
      by (cases "MlnrFS_lookup ?fs filename")
        (auto simp: dispatch_FileOpen_def Let_def split: if_splits)
  next
    case (Some p)
    note fi = knode_invD(2) [OF inv Some]
    show ?thesis
    proof (cases "allocate_fd p")
      case None
      obtain fs1 mo where l: "MlnrFS_lookup ?fs filename = (fs1, mo)"
        by (cases "MlnrFS_lookup ?fs filename")
      show ?thesis
      proof (cases mo)
        case None
        with l have "fs1 = ?fs" using lookup_None by blast
        then show ?thesis using d l Some \<open>allocate_fd p = None\<close> inv None
          by (auto simp: dispatch_FileOpen_def drop_arc_def Let_def split: if_splits)
      next
        case mo: (Some m)
        with l have "arc_drop fs1 m = ?fs" using lookup_arc_drop by blast
        then show ?thesis using d l Some None inv mo
          by (auto simp: dispatch_FileOpen_def drop_arc_def Let_def split: if_splits)
      qed
    next
      case a: (Some pf)
      obtain p1 fid where pf: "allocate_fd p = Some (p1, fid)" using a by (cases pf) simp
      note al = allocate_fd_Some [OF fi pf]
      obtain h' fs' r' where t: "open_target (kheap s) ?fs filename flags md = ((h', fs'), r')"
        by (metis surj_pair)
      note ti = open_target_inv [OF fsi room t]
      obtain p2 where "dispatch_FileOpen s pid filename flags md =
        (case r' of
          Ok m \<Rightarrow> ((set_cfs (set_proc s pid (set_fd p1 fid
                     \<lparr>fd_mnode = m, fd_flags = FileFlags_from flags, fd_offset = 0\<rparr>)) fs')\<lparr>kheap := h'\<rparr>,
                  Ok (FileOpened fid))
        | Err e \<Rightarrow> ((set_cfs (set_proc s pid p2) fs')\<lparr>kheap := h'\<rparr>, Err e)
        | Panic \<Rightarrow> (fst (dispatch_FileOpen s pid filename flags md), Panic))"
        "filedesc_inv p2"
        by (rule dispatch_FileOpen_eq [OF inv Some pf t])
      then show ?thesis
        using d ti set_fd_lookup(1) [OF al(1,2)] inv
        by (cases r') (auto intro!: knode_inv_cfs knode_inv_proc)
    qed
  qed
  then show "r \<noteq> Panic \<Longrightarrow> knode_inv (knode s')"
    and "never_fails (kheap s) \<Longrightarrow> process_map (knode s) pid \<noteq> None \<Longrightarrow> r \<noteq> Panic" by auto
qed

lemma advance_fd_inv:
  assumes "knode_inv (knode s)" and "filedesc_inv p" and "fd < MAX_FILES_PER_PROCESS"
    and "advance_fd s pid p fd fdinfo off c n = (s', r)" and "r \<noteq> Panic"
  shows "knode_inv (knode s')"
  using assms set_fd_lookup(1) [OF assms(2,3)]
  by (auto simp: advance_fd_def intro!: knode_inv_proc split: if_splits)

lemma dispatch_FileWrite_inv:
  assumes inv: "knode_inv (knode s)" and d: "dispatch_FileWrite s pid fd k off = (s', r)"
    and r: "r \<noteq> Panic"
  shows "knode_inv (knode s')"
proof (cases "process_map (knode s) pid")
  case None
  then show ?thesis using d r by (simp add: dispatch_FileWrite_def)
next
  case (Some p)
  note fi = knode_invD(2) [OF inv Some]
  show ?thesis
  proof (cases "\<exists>fdinfo c. fd_of p fd = Ok fdinfo \<and> flags_is_write (fd_flags fdinfo)
                  \<and> write_offset s fdinfo off = Ok c")
    case False
    then have "s' = s" using d r Some
      by (auto simp: dispatch_FileWrite_def split: result.splits if_splits)
    then show ?thesis using inv by simp
  next
    case True
    then obtain fdinfo c where f: "fd_of p fd = Ok fdinfo" "flags_is_write (fd_flags fdinfo)"
      "write_offset s fdinfo off = Ok c" by blast
    obtain h' fs' r' where w: "MlnrFS_write (kheap s) (cfs (knode s)) (fd_mnode fdinfo) k c = ((h', fs'), r')"
      by (metis surj_pair)
    have fs': "fs_inv fs'" if "r' \<noteq> Panic"
      using MlnrFS_write_inv(1) [OF knode_invD(1) [OF inv] w that] .
    show ?thesis
      using d r Some f w fs' inv fd_of_OkD(1) [OF fi f(1)]
        advance_fd_inv [of "(set_cfs s fs')\<lparr>kheap := h'\<rparr>" p fd pid fdinfo off c _ s' r] fi
      by (cases r') (auto simp: dispatch_FileWrite_def run_fs_def intro!: knode_inv_cfs)
  qed
qed

lemma dispatch_mut_inv:
  assumes inv: "knode_inv (knode s)" and room: "has_room (cfs (knode s))"
    and d: "dispatch_mut s op = (s', r)" and r: "r \<noteq> Panic"
  shows "knode_inv (knode s')"
proof -
  note fsi = knode_invD(1) [OF inv]
  show ?thesis
  proof (cases op)
    case (ProcessAdd pid)
    show ?thesis
      by (cases rule: try_reserve_cases [of "kheap s"])
        (use d r inv ProcessAdd in \<open>auto simp: dispatch_ProcessAdd_def run_heap_def FileDesc_default_inv
           intro!: knode_inv_proc split: if_splits\<close>)
  next
    case (ProcessRemove pid)
    then show ?thesis using d inv
      by (auto simp: dispatch_ProcessRemove_def knode_inv_def split: if_splits)
  next
    case (FileOpen pid fn fl md)
    then show ?thesis using dispatch_FileOpen_inv(1) [OF inv room] d r by simp
  next
    case (FileWrite pid fd m k len off)
    then show ?thesis using dispatch_FileWrite_inv [OF inv] d r by simp
  next
    case (FileClose pid fd)
    have "filedesc_inv p'" if "process_map (knode s) pid = Some p" "deallocate_fd p fd = (p', x)" for p p' x
      using that knode_invD(2) [OF inv that(1)]
      by (auto simp: deallocate_fd_def filedesc_inv_def split: if_splits option.splits)
    then show ?thesis using FileClose d r inv
      by (auto simp: dispatch_FileClose_def intro!: knode_inv_proc split: option.splits prod.splits)
  next
    case (FileDelete pid fn)
    then show ?thesis using d inv MlnrFS_delete_inv [OF fsi]
      by (auto simp: dispatch_FileDelete_def intro!: knode_inv_cfs split: option.splits prod.splits)
  next
    case (FileRename pid a b)
    then show ?thesis using d r inv MlnrFS_rename_inv(1) [OF fsi]
      by (auto simp: dispatch_FileRename_def run_fs_def intro!: knode_inv_cfs
          split: option.splits prod.splits)
  next
    case (MkDir pid fn md)
    obtain h' fs' x where a: "add_memnode (kheap s) (cfs (knode s)) fn md Directory = ((h', fs'), x)"
      by (metis surj_pair)
    show ?thesis using MkDir d r inv add_memnode_inv(1) [OF fsi room a] a
      by (cases x) (auto simp: dispatch_MkDir_def run_fs_def MlnrFS_mkdir_def intro!: knode_inv_cfs
          split: option.splits)
  qed
qed

text \<open>
  The calls a replica survives: the process is registered where the handler insists on it, the
  descriptor number is within the table, an append finds its file, and the end of the written
  range is a \<open>usize\<close>.
\<close>

fun op_ok :: "CnrState \<Rightarrow> Modify \<Rightarrow> bool" where
  "op_ok s (FileOpen pid filename flags md) = (process_map (knode s) pid \<noteq> None)"
| "op_ok s (FileClose pid fd) = (process_map (knode s) pid \<noteq> None)"
| "op_ok s (FileWrite pid fd mno d len off) =
     (case process_map (knode s) pid of
        None \<Rightarrow> False
      | Some p \<Rightarrow> fd < MAX_FILES_PER_PROCESS \<and>
          (case fd_lookup p fd of
             None \<Rightarrow> True
           | Some i \<Rightarrow> (case write_offset s i off of Ok c \<Rightarrow> c + length d < usize_limit | _ \<Rightarrow> False)))"
| "op_ok s (ProcessAdd pid) = True"
| "op_ok s (ProcessRemove pid) = True"
| "op_ok s (FileDelete pid filename) = True"
| "op_ok s (FileRename pid oldname newname) = True"
| "op_ok s (MkDir pid filename md) = True"

lemma MlnrFS_write_no_panic:
  assumes inv: "fs_inv fs" and "off + length d < usize_limit"
    and w: "MlnrFS_write h fs m d off = (hf, r)"
  shows "r \<noteq> Panic" and "r = Ok n \<Longrightarrow> n = length d"
proof -
  have "r \<noteq> Panic \<and> (\<forall>n. r = Ok n \<longrightarrow> n = length d)"
  proof (cases "mnodes fs m")
    case None
    then show ?thesis using w by (auto simp: MlnrFS_write_def)
  next
    case (Some nd)
    obtain p where p: "files fs p = Some m" by (rule fs_inv_nodeD [OF inv Some])
    from inv p assms(2) show ?thesis
      by (cases rule: MlnrFS_write_cases [of fs p m off d h]) (use w in auto)
  qed
  then show "r \<noteq> Panic" and "r = Ok n \<Longrightarrow> n = length d" by auto
qed

lemma dispatch_FileWrite_no_panic:
  assumes inv: "knode_inv (knode s)" and ok: "op_ok s (FileWrite pid fd m k len off)"
  shows "snd (dispatch_FileWrite s pid fd k off) \<noteq> Panic"
proof -
  obtain p where p: "process_map (knode s) pid = Some p" "fd < MAX_FILES_PER_PROCESS"
    using ok by (auto split: option.splits)
  note fi = knode_invD(2) [OF inv p(1)]
  show ?thesis
  proof (cases "fd_lookup p fd")
    case None
    then show ?thesis using p fi by (simp add: dispatch_FileWrite_def fd_of_eq)
  next
    case (Some i)
    then obtain c where c: "write_offset s i off = Ok c" "c + length k < usize_limit"
      using ok p by (auto split: result.splits)
    obtain h' fs' r' where w: "MlnrFS_write (kheap s) (cfs (knode s)) (fd_mnode i) k c = ((h', fs'), r')"
      by (metis surj_pair)
    note np = MlnrFS_write_no_panic [OF knode_invD(1) [OF inv] c(2) w]
    show ?thesis using p fi Some c w np
      by (cases r') (auto simp: dispatch_FileWrite_def fd_of_eq run_fs_def advance_fd_def)
  qed
qed

lemma dispatch_mut_no_panic:
  assumes inv: "knode_inv (knode s)" and room: "has_room (cfs (knode s))"
    and h: "never_fails (kheap s)" and ok: "op_ok s op"
  shows "snd (dispatch_mut s op) \<noteq> Panic"
proof -
  note fsi = knode_invD(1) [OF inv]
  show ?thesis
  proof (cases op)
    case (ProcessAdd pid)
    show ?thesis
      by (cases rule: try_reserve_cases [of "kheap s"])
        (use h ProcessAdd in \<open>auto simp: dispatch_ProcessAdd_def run_heap_def\<close>)
  next
    case (ProcessRemove pid)
    then show ?thesis by (auto simp: dispatch_ProcessRemove_def)
  next
    case (FileOpen pid fn fl md)
    obtain s' r where "dispatch_FileOpen s pid fn fl md = (s', r)" by (metis surj_pair)
    with dispatch_FileOpen_inv(2) [OF inv room this h] ok FileOpen show ?thesis by simp
  next
    case (FileWrite pid fd m k len off)
    then show ?thesis using dispatch_FileWrite_no_panic [OF inv] ok by simp
  next
    case (FileClose pid fd)
    then show ?thesis using ok
      by (auto simp: dispatch_FileClose_def deallocate_fd_def split: option.splits prod.splits if_splits)
  next
    case (FileDelete pid fn)
    obtain fs' r where "MlnrFS_delete (cfs (knode s)) fn = (fs', r)" by (metis surj_pair)
    with MlnrFS_delete_inv [OF fsi this] FileDelete show ?thesis
      by (cases r) (auto simp: dispatch_FileDelete_def split: option.splits)
  next
    case (FileRename pid a b)
    obtain h' fs' r where "MlnrFS_rename (kheap s) (cfs (knode s)) a b = ((h', fs'), r)" by (metis surj_pair)
    with MlnrFS_rename_inv(2) [OF fsi this h] FileRename show ?thesis
      by (cases r) (auto simp: dispatch_FileRename_def run_fs_def split: option.splits)
  next
    case (MkDir pid fn md)
    obtain h' fs' r where "add_memnode (kheap s) (cfs (knode s)) fn md Directory = ((h', fs'), r)"
      by (metis surj_pair)
    with add_memnode_inv(2) [OF fsi room this h] MkDir show ?thesis
      by (cases r) (auto simp: dispatch_MkDir_def run_fs_def MlnrFS_mkdir_def split: option.splits)
  qed
qed

section \<open>Writes to different files commute\<close>

text \<open>
  Concurrent node replication runs operations of different logs in any order, which is sound only
  if they commute.  Writes are the only operations that do not go to every log.  Their effect is
  confined to the descriptor and the node they name.
\<close>

lemma heap_Nil_steps:
  "alloc_buffers [] n vec = ([], Ok (vec @ replicate n (replicate BASE_PAGE_SIZE 0)))"
  "try_resize [] b k = ([], Ok (vec_resize b k 0))"
  "try_append [] f vec = (([], f\<lparr>mcache := mcache f @ vec\<rparr>), Ok ())"
proof -
  show "alloc_buffers [] n vec = ([], Ok (vec @ replicate n (replicate BASE_PAGE_SIZE 0)))"
    by (induction n arbitrary: vec) (simp_all add: try_alloc_buffer_def try_resize_def vec_resize_def)
qed (simp_all add: try_resize_def try_append_def)

lemma increase_file_size_Nil: "fst (fst (increase_file_size [] f c n)) = []"
  by (simp add: increase_file_size_def grow_with_buffers_def add_buffers_def heap_Nil_steps Let_def)

lemma write_file_Nil: "fst (fst (write_file [] f us len off)) = []"
proof -
  obtain f1 r where "increase_file_size [] f (get_size f) (off + len) = (([], f1), r)"
    using increase_file_size_Nil [of f "get_size f" "off + len"] by (metis fst_conv surj_pair)
  then show ?thesis by (cases r) (auto simp: write_file_def Let_def split: option.splits)
qed

lemma MemNode_write_Nil: "fst (fst (MemNode_write [] n d off)) = []"
  using write_file_Nil [of _ d "length d" off]
  by (simp add: MemNode_write_def split: option.splits prod.splits) (metis fst_conv)

definition effect_offset :: "Fd \<Rightarrow> MemNode option \<Rightarrow> int \<Rightarrow> nat kres" where
  "effect_offset i no off =
     (if off = -1
      then if flags_is_append (fd_flags i)
           then map_result fi_fsize
                  (MlnrFS_file_info \<lparr>mnodes = (\<lambda>_. no), files = Map.empty, arcs = (\<lambda>_. 0),
                     root = ([], 0), nextmemnode = 0\<rparr> 0)
           else Ok (fd_offset i)
      else Ok (usize_of_i64 off))"

definition write_effect ::
  "Fd \<Rightarrow> MemNode option \<Rightarrow> u8 list \<Rightarrow> int \<Rightarrow> Fd \<times> MemNode option \<times> MlnrNodeResult kres" where
  "write_effect i no d off =
     (if \<not> flags_is_write (fd_flags i) then (i, no, Err PermissionError)
      else case effect_offset i no off of
             Err e \<Rightarrow> (i, no, Err e)
           | Panic \<Rightarrow> (i, no, Panic)
           | Ok c \<Rightarrow>
               (case no of
                  None \<Rightarrow> (i, None, Err InvalidFile)
                | Some n \<Rightarrow>
                    (case MemNode_write [] n d c of
                       ((_, n'), Err e) \<Rightarrow> (i, Some n', Err e)
                     | ((_, n'), Panic) \<Rightarrow> (i, Some n', Panic)
                     | ((_, n'), Ok len) \<Rightarrow>
                         (if off = -1
                          then if usize_limit \<le> c + len then (i, Some n', Panic)
                               else (update_offset i (c + len), Some n', Ok (FileAccessed len))
                          else (i, Some n', Ok (FileAccessed len))))))"

definition put_effect :: "CnrState \<Rightarrow> nat \<Rightarrow> nat \<Rightarrow> Fd \<Rightarrow> MemNode option \<Rightarrow> CnrState" where
  "put_effect s pid fd i no =
     s\<lparr>knode := \<lparr>process_map = (process_map (knode s))
                    (pid := map_option (\<lambda>p. set_fd p fd i) (process_map (knode s) pid)),
        cfs = (cfs (knode s))\<lparr>mnodes := (mnodes (cfs (knode s)))(fd_mnode i := no)\<rparr>\<rparr>\<rparr>"

definition fd_entry :: "CnrState \<Rightarrow> nat \<Rightarrow> nat \<Rightarrow> Fd option" where
  "fd_entry s pid fd = Option.bind (process_map (knode s) pid) (\<lambda>p. fd_lookup p fd)"

lemma fd_entry_SomeD:
  assumes "fd_entry s pid fd = Some i"
  obtains p where "process_map (knode s) pid = Some p" "fd_lookup p fd = Some i" "set_fd p fd i = p"
    "fd < length (fds p)"
proof -
  obtain p where p: "process_map (knode s) pid = Some p" "fd_lookup p fd = Some i"
    using assms by (auto simp: fd_entry_def bind_eq_Some_conv)
  moreover have "fd < length (fds p)" "set_fd p fd i = p"
    using p(2) by (auto simp: fd_lookup_def slot_def set_fd_def list_update_same_conv split: if_splits)
  ultimately show ?thesis using that by blast
qed

lemma write_effect_mnode: "write_effect i no d off = (i', no', r) \<Longrightarrow> fd_mnode i' = fd_mnode i"
  by (auto simp: write_effect_def update_offset_def split: if_splits result.splits option.splits prod.splits)

lemma file_info_local:
  "MlnrFS_file_info fs m = MlnrFS_file_info \<lparr>mnodes = (\<lambda>_. mnodes fs m), files = Map.empty,
     arcs = (\<lambda>_. 0), root = ([], 0), nextmemnode = 0\<rparr> 0"
  by (simp add: MlnrFS_file_info_def)

lemma dispatch_FileWrite_effect:
  assumes h: "kheap s = []" and i: "fd_entry s pid fd = Some i"
    and e: "write_effect i (mnodes (cfs (knode s)) (fd_mnode i)) d off = (i', no', r)"
  shows "dispatch_FileWrite s pid fd d off = (put_effect s pid fd i' no', r)"
proof -
  obtain p where p: "process_map (knode s) pid = Some p" "fd_lookup p fd = Some i" "set_fd p fd i = p"
    "fd < length (fds p)"
    by (rule fd_entry_SomeD [OF i])
  have fd: "fd_of p fd = Ok i"
    using p(2,4) by (auto simp: fd_of_def get_fd_def fd_lookup_def slot_def)
  have same: "put_effect s pid fd i (mnodes (cfs (knode s)) (fd_mnode i)) = s"
    using p by (simp add: put_effect_def fun_upd_idem)
  have off: "effect_offset i (mnodes (cfs (knode s)) (fd_mnode i)) off = write_offset s i off"
    using file_info_local [of "cfs (knode s)" "fd_mnode i"]
    by (simp add: write_offset_def effect_offset_def)
  have nil: "s\<lparr>kheap := []\<rparr> = s" using h by simp
  show ?thesis
  proof (cases "flags_is_write (fd_flags i) \<and> (\<exists>c. write_offset s i off = Ok c)")
    case False
    then show ?thesis
      using e same p(1) fd off by (auto simp: write_effect_def dispatch_FileWrite_def
          split: if_splits result.splits)
  next
    case True
    then obtain c where c: "flags_is_write (fd_flags i)" "write_offset s i off = Ok c" by blast
    show ?thesis
    proof (cases "mnodes (cfs (knode s)) (fd_mnode i)")
      case None
      then show ?thesis using e c same p(1) fd h off nil
        by (auto simp: write_effect_def dispatch_FileWrite_def run_fs_def MlnrFS_write_def)
    next
      case (Some n)
      obtain n' x where w: "MemNode_write [] n d c = (([], n'), x)"
        using MemNode_write_Nil [of n d c] by (metis fst_conv surj_pair)
      show ?thesis
        using e c p fd h Some w off
        by (cases x) (auto simp: write_effect_def dispatch_FileWrite_def run_fs_def
            MlnrFS_write_def advance_fd_def put_effect_def update_offset_def fun_upd_idem split: if_splits)
    qed
  qed
qed

lemma fd_entry_put_other:
  "(pid', fd') \<noteq> (pid, fd) \<Longrightarrow> fd_entry (put_effect s pid fd i no) pid' fd' = fd_entry s pid' fd'"
  by (cases "process_map (knode s) pid")
    (auto simp: fd_entry_def put_effect_def fd_lookup_def set_fd_def slot_def)

lemma put_effect_simps [simp]:
  "kheap (put_effect s pid fd i no) = kheap s"
  "mnodes (cfs (knode (put_effect s pid fd i no))) = (mnodes (cfs (knode s)))(fd_mnode i := no)"
  by (simp_all add: put_effect_def)

lemma put_commute:
  assumes "(pid, fd) \<noteq> (pid', fd')" and "fd_mnode i \<noteq> fd_mnode j"
  shows "put_effect (put_effect s pid fd i no) pid' fd' j no'
           = put_effect (put_effect s pid' fd' j no') pid fd i no"
proof (cases "pid = pid'")
  case True
  then have "fd \<noteq> fd'" using assms(1) by simp
  then have "map_option (\<lambda>p. set_fd p fd' j) (map_option (\<lambda>p. set_fd p fd i) x)
      = map_option (\<lambda>p. set_fd p fd i) (map_option (\<lambda>p. set_fd p fd' j) x)" for x
    by (cases x) (simp_all add: set_fd_def list_update_swap)
  then show ?thesis using True assms(2) by (simp add: put_effect_def fun_upd_twist)
next
  case False
  then show ?thesis using assms(2) by (simp add: put_effect_def fun_upd_twist [of pid pid'])
      (simp add: fun_upd_twist)
qed

lemma FileWrite_commute:
  assumes h: "kheap s = []"
    and i: "fd_entry s pid1 fd1 = Some i" and j: "fd_entry s pid2 fd2 = Some j"
    and ne: "fd_mnode i \<noteq> fd_mnode j"
  shows "\<exists>s1 s2 s12 r1 r2.
     dispatch_FileWrite s pid1 fd1 d1 off1 = (s1, r1) \<and> dispatch_FileWrite s1 pid2 fd2 d2 off2 = (s12, r2)
   \<and> dispatch_FileWrite s pid2 fd2 d2 off2 = (s2, r2) \<and> dispatch_FileWrite s2 pid1 fd1 d1 off1 = (s12, r1)"
proof -
  let ?mn = "mnodes (cfs (knode s))"
  have fds: "(pid1, fd1) \<noteq> (pid2, fd2)" using i j ne by auto
  obtain i' no1 r1 where e1: "write_effect i (?mn (fd_mnode i)) d1 off1 = (i', no1, r1)"
    by (metis surj_pair)
  obtain j' no2 r2 where e2: "write_effect j (?mn (fd_mnode j)) d2 off2 = (j', no2, r2)"
    by (metis surj_pair)
  note m = write_effect_mnode [OF e1] write_effect_mnode [OF e2]
  let ?s1 = "put_effect s pid1 fd1 i' no1" and ?s2 = "put_effect s pid2 fd2 j' no2"
  have 1: "dispatch_FileWrite s pid1 fd1 d1 off1 = (?s1, r1)"
    by (rule dispatch_FileWrite_effect [OF h i e1])
  have 2: "dispatch_FileWrite s pid2 fd2 d2 off2 = (?s2, r2)"
    by (rule dispatch_FileWrite_effect [OF h j e2])
  have s1: "kheap ?s1 = []" "fd_entry ?s1 pid2 fd2 = Some j"
    "mnodes (cfs (knode ?s1)) (fd_mnode j) = ?mn (fd_mnode j)"
    using h j ne m fd_entry_put_other [OF fds [symmetric]] by simp_all
  have s2: "kheap ?s2 = []" "fd_entry ?s2 pid1 fd1 = Some i"
    "mnodes (cfs (knode ?s2)) (fd_mnode i) = ?mn (fd_mnode i)"
    using h i ne m fd_entry_put_other [OF fds] by simp_all
  have 12: "dispatch_FileWrite ?s1 pid2 fd2 d2 off2 = (put_effect ?s1 pid2 fd2 j' no2, r2)"
    by (rule dispatch_FileWrite_effect [OF s1(1,2)]) (simp only: s1(3) e2)
  have 21: "dispatch_FileWrite ?s2 pid1 fd1 d1 off1 = (put_effect ?s2 pid1 fd1 i' no1, r1)"
    by (rule dispatch_FileWrite_effect [OF s2(1,2)]) (simp only: s2(3) e1)
  have "put_effect ?s1 pid2 fd2 j' no2 = put_effect ?s2 pid1 fd1 i' no1"
    by (rule put_commute [OF fds]) (use ne m in simp)
  with 1 2 12 21 show ?thesis by auto
qed

text \<open>
  A client looks a descriptor up first and logs the write under the node number it found;
  \<open>logged\<close> says that this number is still the descriptor's.
\<close>

definition logged :: "CnrState \<Rightarrow> Modify \<Rightarrow> bool" where
  "logged s op = (case op of
       FileWrite pid fd m d len off \<Rightarrow> (case fd_entry s pid fd of None \<Rightarrow> False | Some i \<Rightarrow> fd_mnode i = m)
     | _ \<Rightarrow> True)"

lemma disjoint_logs_are_writes:
  assumes "0 < nlogs" and "Modify_hash nlogs op1 = Ok l1" and "Modify_hash nlogs op2 = Ok l2"
    and "set l1 \<inter> set l2 = {}"
  obtains pid1 fd1 m1 d1 len1 off1 pid2 fd2 m2 d2 len2 off2 where
    "op1 = FileWrite pid1 fd1 m1 d1 len1 off1" "op2 = FileWrite pid2 fd2 m2 d2 len2 off2" "m1 \<noteq> m2"
proof -
  have all: "l \<subseteq> set (push_to_all nlogs) \<longrightarrow> l \<noteq> {} \<longrightarrow> l \<inter> set (push_to_all nlogs) \<noteq> {}" for l
    by auto
  have sub: "set l \<subseteq> set (push_to_all nlogs) \<and> set l \<noteq> {}" if "Modify_hash nlogs op = Ok l" for op l
    using that assms(1) by (cases op) (auto simp: push_to_all_def mnode_log_def split: if_splits)
  have w1: "\<exists>pid fd m d len off. op1 = FileWrite pid fd m d len off"
    using assms(2,4) sub [OF assms(3)] all [of "set l2"] by (cases op1) (auto simp: Int_commute)
  have w2: "\<exists>pid fd m d len off. op2 = FileWrite pid fd m d len off"
    using assms(3,4) sub [OF assms(2)] all [of "set l1"] by (cases op2) auto
  from w1 w2 obtain pid fd m d len off pid' fd' m' d' len' off' where
    w: "op1 = FileWrite pid fd m d len off" "op2 = FileWrite pid' fd' m' d' len' off'" by blast
  with assms(2-4) have "m \<noteq> m'" by (auto simp: mnode_log_def split: if_splits)
  with w that show ?thesis by blast
qed

section \<open>Responses and the client path\<close>

text \<open>The kind of answer each client function expects.\<close>

fun response_for :: "Modify \<Rightarrow> MlnrNodeResult \<Rightarrow> bool" where
  "response_for (ProcessAdd pid) x = (x = ProcessAdded pid)"
| "response_for (ProcessRemove pid) x = (x = ProcessRemoved pid)"
| "response_for (FileOpen pid filename flags md) x = (\<exists>fd. x = FileOpened fd \<and> fd < MAX_FILES_PER_PROCESS)"
| "response_for (FileWrite pid fd m d len off) x = (x = FileAccessed (length d))"
| "response_for (FileClose pid fd) x = (x = FileClosed fd)"
| "response_for (FileDelete pid filename) x = (x = FileDeleted)"
| "response_for (FileRename pid oldname newname) x = (x = FileRenamed)"
| "response_for (MkDir pid filename md) x = (x = DirCreated)"

lemma dispatch_FileOpen_response:
  assumes inv: "knode_inv (knode s)" and d: "dispatch_FileOpen s pid fn fl md = (s', Ok x)"
  shows "\<exists>fd. x = FileOpened fd \<and> fd < MAX_FILES_PER_PROCESS"
proof -
  obtain p where p: "process_map (knode s) pid = Some p"
    using d by (auto simp: dispatch_FileOpen_def Let_def split: prod.splits if_splits option.splits)
  obtain p1 fid where a: "allocate_fd p = Some (p1, fid)" "x = FileOpened fid"
    using d p by (auto simp: dispatch_FileOpen_def Let_def
        split: prod.splits if_splits option.splits result.splits)
  then show ?thesis using allocate_fd_Some(2) [OF knode_invD(2) [OF inv p] a(1)] by simp
qed

lemma dispatch_FileWrite_response:
  assumes inv: "knode_inv (knode s)" and d: "dispatch_FileWrite s pid fd k off = (s', Ok x)"
  shows "x = FileAccessed (length k)"
proof -
  obtain p i c where p: "process_map (knode s) pid = Some p" "fd_of p fd = Ok i"
    "write_offset s i off = Ok c" "flags_is_write (fd_flags i)"
    using d by (auto simp: dispatch_FileWrite_def split: option.splits result.splits if_splits)
  obtain h' fs' r' where w: "MlnrFS_write (kheap s) (cfs (knode s)) (fd_mnode i) k c = ((h', fs'), r')"
    by (metis surj_pair)
  obtain n where n: "r' = Ok n" "x = FileAccessed n"
    using d p w by (cases r') (auto simp: dispatch_FileWrite_def run_fs_def advance_fd_def split: if_splits)
  have "n = length k"
    using w n(1) by (auto simp: MlnrFS_write_def MemNode_write_def write_file_def Let_def
        split: option.splits if_splits prod.splits result.splits)
  then show ?thesis using n(2) by simp
qed

lemma dispatch_mut_response:
  assumes inv: "knode_inv (knode s)" and d: "dispatch_mut s op = (s', Ok x)"
  shows "response_for op x"
proof (cases op)
  case (ProcessAdd pid)
  show ?thesis
    by (cases rule: try_reserve_cases [of "kheap s"])
      (use d ProcessAdd in \<open>auto simp: dispatch_ProcessAdd_def run_heap_def split: if_splits\<close>)
next
  case (FileOpen pid fn fl md)
  then show ?thesis using dispatch_FileOpen_response [OF inv] d by simp
next
  case (FileWrite pid fd m k len off)
  then show ?thesis using dispatch_FileWrite_response [OF inv] d by simp
qed (use d in \<open>auto simp: dispatch_ProcessRemove_def dispatch_FileClose_def dispatch_FileDelete_def
       dispatch_FileRename_def dispatch_MkDir_def split: if_splits option.splits prod.splits\<close>)

text \<open>A positioned write through the client path on a core with a replica.\<close>

abbreviation local_replica :: replica where
  "local_replica \<equiv> Some (dispatch_mut, dispatch)"

lemma fd_of_entry:
  assumes "fd_entry s pid fd = Some i"
  obtains p where "process_map (knode s) pid = Some p" "fd_of p fd = Ok i"
proof -
  obtain p where p: "process_map (knode s) pid = Some p" "fd_lookup p fd = Some i" "fd < length (fds p)"
    by (rule fd_entry_SomeD [OF assms])
  then show ?thesis using that by (auto simp: fd_of_def get_fd_def fd_lookup_def slot_def)
qed

lemma file_io_write_at:
  assumes inv: "knode_inv (knode s)" and h: "kheap s = []"
    and i: "fd_entry s pid fd = Some i" "flags_is_write (fd_flags i)"
    and f: "files (cfs (knode s)) p = Some (fd_mnode i)" "fs_view (cfs (knode s)) p = Some obj"
      "obj_type obj = File" "modes_is_writable (obj_modes obj)"
    and off: "0 \<le> off" "nat off + len < usize_limit"
  obtains s' where "file_io local_replica s FWriteAt pid fd buffer len off = (s', Ok (len, 0))"
    "knode_inv (knode s')" "kmem s' = kmem s" "never_fails (kheap s')" "fd_entry s' pid fd = Some i"
    "files (cfs (knode s')) = files (cfs (knode s))"
    "fs_view (cfs (knode s')) = (fs_view (cfs (knode s)))(p \<mapsto> obj\<lparr>obj_data :=
        write_spec (obj_data obj) (nat off) (UserSlice_load (kmem s) buffer len)\<rparr>)"
proof -
  obtain q where q: "process_map (knode s) pid = Some q" "fd_of q fd = Ok i"
    by (rule fd_of_entry [OF i(1)])
  let ?d = "UserSlice_load (kmem s) buffer len"
  have o: "usize_of_i64 off = nat off" "off \<noteq> -1"
    using off by (simp_all add: usize_of_i64_def nat_less_iff)
  have lim: "nat off + length ?d < usize_limit" using off(2) by simp
  have s0: "s\<lparr>kheap := []\<rparr> = s" using h by simp
  from knode_invD(1) [OF inv] f(1) lim show ?thesis
  proof (cases rule: MlnrFS_write_cases [of "cfs (knode s)" p "fd_mnode i" "nat off" ?d "[]"])
    case (ok h' fs' ob)
    show ?thesis
      by (rule that [of "(set_cfs s fs')\<lparr>kheap := h'\<rparr>"])
        (use ok q i(2) o h f(2) inv s0 i(1) in \<open>auto simp: file_io_def fd_to_mnode_def with_replica_def
           expect_response_def dispatch_FdToMnode_def run_heap_def KernSlice_new_def
           dispatch_FileWrite_def write_offset_def run_fs_def advance_fd_def fd_entry_def
           intro!: knode_inv_cfs\<close>)
  qed (use f in auto)
qed

lemma file_io_read_at:
  assumes inv: "knode_inv (knode s)"
    and i: "fd_entry s pid fd = Some i" "flags_is_read (fd_flags i)"
    and f: "files (cfs (knode s)) p = Some (fd_mnode i)" "fs_view (cfs (knode s)) p = Some obj"
      "obj_type obj = File" "modes_is_readable (obj_modes obj)"
    and off: "0 \<le> off" "nat off < usize_limit"
  shows "file_io local_replica s FReadAt pid fd buffer len off =
     (case read_spec (obj_data obj) (UserSlice_load (kmem s) buffer len) (nat off) of
        (bytes, n) \<Rightarrow> (s\<lparr>kmem := UserSlice_store (kmem s) buffer bytes\<rparr>, Ok (n, 0)))"
proof -
  obtain q where q: "process_map (knode s) pid = Some q" "fd_of q fd = Ok i"
    by (rule fd_of_entry [OF i(1)])
  have o: "usize_of_i64 off = nat off" "off \<noteq> -1"
    using off by (simp_all add: usize_of_i64_def nat_less_iff)
  show ?thesis
    using q i(2) f o MlnrFS_read_eq [OF knode_invD(1) [OF inv] f(1,2)]
    by (simp add: file_io_def fd_to_mnode_def with_replica_def expect_response_def
        dispatch_FdToMnode_def dispatch_FileRead_def advance_fd_def split: prod.split)
qed

section \<open>Properties\<close>


text \<open>A node with two files open for reading and writing, as a concrete input.\<close>

definition two_files :: CnrState where
  "two_files = \<lparr>kheap = [], kmem = (\<lambda>_. 0),
     knode = \<lparr>process_map = [7 \<mapsto> \<lparr>fds = [Some \<lparr>fd_mnode = 2, fd_flags = O_RDWR, fd_offset = 0\<rparr>,
                                         Some \<lparr>fd_mnode = 3, fd_flags = O_RDWR, fd_offset = 0\<rparr>]
                                        @ replicate 4094 None\<rparr>],
       cfs = \<lparr>mnodes = [2 \<mapsto> \<lparr>mnode_num = 2, mname = ''a'', node_type = File,
                              mfile = Some \<lparr>mcache = [], modes = S_IRWXU\<rparr>\<rparr>,
                        3 \<mapsto> \<lparr>mnode_num = 3, mname = ''b'', node_type = File,
                              mfile = Some \<lparr>mcache = [], modes = S_IRWXU\<rparr>\<rparr>],
              files = [''a'' \<mapsto> 2, ''b'' \<mapsto> 3], arcs = (\<lambda>_. 0)(2 := 1, 3 := 1), root = (''/'', 1),
              nextmemnode = 4\<rparr>\<rparr>\<rparr>"

lemma two_files_facts:
  "kheap two_files = []" "knode_inv (knode two_files)" "has_room (cfs (knode two_files))"
  "fd_entry two_files 7 0 = Some \<lparr>fd_mnode = 2, fd_flags = O_RDWR, fd_offset = 0\<rparr>"
  "fd_entry two_files 7 1 = Some \<lparr>fd_mnode = 3, fd_flags = O_RDWR, fd_offset = 0\<rparr>"
proof -
  let ?e = "\<lparr>mnodes = Map.empty, files = Map.empty, arcs = (\<lambda>_. 0), root = (''/'', 1), nextmemnode = 4\<rparr>"
  let ?n = "\<lambda>m nm. \<lparr>mnode_num = m, mname = nm, node_type = File,
                mfile = Some \<lparr>mcache = [], modes = S_IRWXU\<rparr>\<rparr>"
  have e: "fs_inv ?e" by (simp add: fs_inv_def)
  have n: "memnode_inv (?n m nm)" for m nm by (simp add: memnode_inv_def file_inv_def)
  note a = fs_inv_add(1) [OF e, of "''a''" 2 "?n 2 ''a''", simplified, OF n]
  from fs_inv_add(1) [OF a, of "''b''" 3 "?n 3 ''b''", simplified, OF n]
  have "fs_inv (cfs (knode two_files))" by (simp add: two_files_def)
  then show "knode_inv (knode two_files)"
    by (simp add: knode_inv_def) (simp add: two_files_def filedesc_inv_def)
qed (simp_all add: two_files_def has_room_def fd_entry_def fd_lookup_def slot_def)


text \<open>
  C23. Every operation of the node, whatever its arguments and whichever allocations fail, either
  panics or leaves a well-formed node: descriptor tables of full length and a file system in
  which every path names exactly one live node.
\<close>
theorem dispatch_mut_keeps_invariant:
  assumes "knode_inv (knode s)" and "has_room (cfs (knode s))"
    and "dispatch_mut s op = (s', r)" and "r \<noteq> Panic"
  shows "knode_inv (knode s')"
  using assms by (rule dispatch_mut_inv)

theorem dispatch_mut_keeps_invariant_witness:
  "knode_inv (knode (fst (dispatch_mut two_files (FileDelete 7 ''a''))))"
proof -
  have "snd (dispatch_mut two_files (FileDelete 7 ''a'')) = Ok FileDeleted"
    by (simp add: dispatch_FileDelete_def MlnrFS_delete_def two_files_def)
  then show ?thesis
    using dispatch_mut_keeps_invariant [OF two_files_facts(2,3), of "FileDelete 7 ''a''"]
    by (metis prod.collapse result.distinct(3))
qed

text \<open>
  C24. On a heap with memory, the only calls that make a replica panic are those \<open>op_ok\<close> excludes:
  an open, write or close for an unregistered process, a write through a descriptor number outside
  the table, an append to a deleted file, and a write whose end exceeds \<open>usize\<close>.
\<close>
theorem dispatch_mut_survives:
  assumes "knode_inv (knode s)" and "has_room (cfs (knode s))" and "never_fails (kheap s)"
    and "op_ok s op"
  shows "snd (dispatch_mut s op) \<noteq> Panic"
  using assms by (rule dispatch_mut_no_panic)

theorem dispatch_mut_survives_witness:
  "snd (dispatch_mut two_files (FileOpen 7 ''c'' O_CREAT S_IRWXU)) \<noteq> Panic"
  using dispatch_mut_survives [OF two_files_facts(2,3), of "FileOpen 7 ''c'' O_CREAT S_IRWXU"]
  by (simp add: two_files_def)

text \<open>
  A descriptor number at or above 4096, which a process may put into any system call,
  panics the kernel: the descriptor table is indexed without a range check.
\<close>
lemma wild_descriptor_panics:
  assumes "knode_inv (knode s)" and "process_map (knode s) pid = Some p" and "MAX_FILES_PER_PROCESS \<le> fd"
  shows "snd (dispatch_mut s (FileWrite pid fd m d len off)) = Panic
     \<and> snd (dispatch s (FdToMnode pid fd)) = Panic"
  using assms
  by (simp add: dispatch_FileWrite_def dispatch_FdToMnode_def fd_of_eq [OF knode_invD(2) [OF assms(1,2)]])

text \<open>
  Through a descriptor open for writing on a writable file, the offset -2 with at least two
  bytes panics the kernel: only -1 is reserved, every other negative offset is cast to \<open>usize\<close>
  and the end of the range overflows.
\<close>
lemma negative_offset_panics:
  assumes "knode_inv (knode s)" and "process_map (knode s) pid = Some p"
    and "fd_lookup p fd = Some i" and "flags_is_write (fd_flags i)"
    and "mnodes (cfs (knode s)) (fd_mnode i) = Some n" and "mfile n = Some f" and "node_type n = File"
    and "modes_is_writable (get_mode f)" and "2 \<le> length d"
  shows "snd (dispatch_mut s (FileWrite pid fd m d len (-2))) = Panic"
proof -
  note fi = knode_invD(2) [OF assms(1,2)]
  have "fd < MAX_FILES_PER_PROCESS" using assms(3) by (intro fdtab.range [OF fi]) simp
  then show ?thesis
    using assms(2-)
    by (simp add: dispatch_FileWrite_def fd_of_eq [OF fi] write_offset_def run_fs_def MlnrFS_write_def
        MemNode_write_def usize_of_i64_def write_file_def)
qed



text \<open>
  Every answer of the node has the kind its client function expects, so none of the
  \<open>unreachable!\<close> arms of the client functions is reached: with a registered replica a client
  call returns the answer or the error of the node.
\<close>
lemma responses_match:
  assumes "knode_inv (knode s)" and "dispatch_mut s op = (s', Ok x)"
  shows "response_for op x
     \<and> (\<forall>pid. op = ProcessAdd pid \<longrightarrow> add_process local_replica s pid = (s', Ok (pid, 0)))
     \<and> (\<forall>pid fd. op = FileClose pid fd \<longrightarrow> unmap_fd local_replica s pid fd = (s', Ok (0, 0)))
     \<and> (\<forall>s0 ptr pid fn fl md. op = FileOpen pid fn fl md \<and> user_string s0 ptr = (s, Ok fn) \<longrightarrow>
          (\<exists>fd < MAX_FILES_PER_PROCESS. map_fd local_replica s0 pid ptr fl md = (s', Ok (fd, 0))))
     \<and> (\<forall>s0 ptr pid fn. op = FileDelete pid fn \<and> user_string s0 ptr = (s, Ok fn) \<longrightarrow>
          file_delete local_replica s0 pid ptr = (s', Ok (0, 0)))
     \<and> (\<forall>s0 ptr pid fn md. op = MkDir pid fn md \<and> user_string s0 ptr = (s, Ok fn) \<longrightarrow>
          cnr_mkdir local_replica s0 pid ptr md = (s', Ok (0, 0)))"
  using dispatch_mut_response [OF assms] assms(2)
  by (auto simp: add_process_def unmap_fd_def map_fd_def file_delete_def cnr_mkdir_def
      with_replica_def expect_response_def)

end
