(* ===== verification/Frames.thy ===== *)
theory Frames
  imports KernelError
begin

text \<open>
  Physical frames (\<open>Frame\<close> of \<open>kernel/src/memory/mod.rs\<close>), the iteration of a frame page by page,
  the split of a size into pages, and the kernel's linear window on physical memory
  (\<open>kernel/src/arch/x86_64/memory.rs\<close>).  Physical addresses are natural numbers; an address is
  below \<open>2^52\<close> on the hardware, so that sums of addresses and sizes do not reach \<open>2^64\<close>.
\<close>

section \<open>Model\<close>

abbreviation KERNEL_BASE :: nat where "KERNEL_BASE \<equiv> 0x400000000000"

definition paddr_to_kernel_vaddr :: "nat \<Rightarrow> nat" where
  "paddr_to_kernel_vaddr p = KERNEL_BASE + p"

definition kernel_vaddr_to_paddr :: "nat \<Rightarrow> nat kres" where
  "kernel_vaddr_to_paddr v = (if v < KERNEL_BASE then Panic else Ok (v - KERNEL_BASE))"

record Frame =
  fbase :: nat
  fsize :: nat
  affinity :: nat

definition Frame_const_new :: "nat \<Rightarrow> nat \<Rightarrow> nat \<Rightarrow> Frame" where
  "Frame_const_new b sz node = \<lparr>fbase = b, fsize = sz, affinity = node\<rparr>"

definition Frame_from_range :: "nat \<times> nat \<Rightarrow> nat \<Rightarrow> Frame kres" where
  "Frame_from_range r node =
     (if fst r mod BASE_PAGE_SIZE \<noteq> 0 \<or> snd r mod BASE_PAGE_SIZE \<noteq> 0 \<or> \<not> fst r < snd r then Panic
      else Ok \<lparr>fbase = fst r, fsize = snd r - fst r, affinity = node\<rparr>)"

definition Frame_new :: "nat \<Rightarrow> nat \<Rightarrow> nat \<Rightarrow> Frame kres" where
  "Frame_new b sz node =
     (if b mod BASE_PAGE_SIZE \<noteq> 0 \<or> sz mod BASE_PAGE_SIZE \<noteq> 0 then Panic
      else Ok \<lparr>fbase = b, fsize = sz, affinity = node\<rparr>)"

definition Frame_empty :: Frame where
  "Frame_empty = \<lparr>fbase = 0, fsize = 0, affinity = 0\<rparr>"

definition kernel_vaddr :: "Frame \<Rightarrow> nat" where
  "kernel_vaddr f = paddr_to_kernel_vaddr (fbase f)"

definition fend :: "Frame \<Rightarrow> nat" where
  "fend f = fbase f + fsize f"

definition base_pages :: "Frame \<Rightarrow> nat" where
  "base_pages f = fsize f div BASE_PAGE_SIZE"

definition is_large_page_aligned :: "Frame \<Rightarrow> bool" where
  "is_large_page_aligned f \<longleftrightarrow> fbase f mod LARGE_PAGE_SIZE = 0"

definition split_at :: "Frame \<Rightarrow> nat \<Rightarrow> (Frame \<times> Frame) kres" where
  "split_at f sz =
     (if sz mod BASE_PAGE_SIZE \<noteq> 0 then Panic
      else if sz \<ge> fsize f then Ok (f, Frame_empty)
      else bind_result (Frame_new (fbase f) sz (affinity f)) (\<lambda>low.
           bind_result (Frame_new (fbase f + sz) (fsize f - sz) (affinity f)) (\<lambda>high.
           Ok (low, high))))"

definition split_at_nearest_large_page_boundary :: "Frame \<Rightarrow> (Frame \<times> Frame) kres" where
  "split_at_nearest_large_page_boundary f =
     (if fbase f mod LARGE_PAGE_SIZE = 0 then Ok (Frame_empty, f)
      else let new_high_base = round_up (fbase f) LARGE_PAGE_SIZE
        in split_at f (new_high_base - fbase f))"

text \<open>
  \<open>as_mut_slice\<close> of elements of \<open>sz\<close> bytes: the address and the number of elements; \<open>fill\<close>
  writes a pattern of that many bytes over the frame, in physical memory.
\<close>

definition as_mut_slice :: "Frame \<Rightarrow> nat \<Rightarrow> (nat \<times> nat) option" where
  "as_mut_slice f sz = (if fsize f mod sz = 0 then Some (kernel_vaddr f, fsize f div sz) else None)"

definition frame_fill :: "(nat \<Rightarrow> u8) \<Rightarrow> Frame \<Rightarrow> u8 list \<Rightarrow> (nat \<Rightarrow> u8) \<times> bool" where
  "frame_fill pm f pat =
     (case as_mut_slice f (length pat) of
        None \<Rightarrow> (pm, False)
      | Some (v, n) \<Rightarrow>
          ((\<lambda>a. if fbase f \<le> a \<and> a < fbase f + n * length pat
                then pat ! ((a - fbase f) mod length pat) else pm a), True))"

text \<open>\<open>zero\<close> fills with the \<open>i32\<close> zero.\<close>

definition frame_zero :: "(nat \<Rightarrow> u8) \<Rightarrow> Frame \<Rightarrow> (nat \<Rightarrow> u8)" where
  "frame_zero pm f = fst (frame_fill pm f [0, 0, 0, 0])"

text \<open>\<open>IntoBasePageIter\<close>: the state of the iterator is the rest of the frame.\<close>

definition page_iter_len :: "Frame \<Rightarrow> nat" where
  "page_iter_len f = fsize f div BASE_PAGE_SIZE"

definition page_iter_next :: "Frame \<Rightarrow> (Frame \<times> Frame option) kres" where
  "page_iter_next f =
     (if fsize f > BASE_PAGE_SIZE
      then bind_result (split_at f BASE_PAGE_SIZE) (\<lambda>(low, high). Ok (high, Some low))
      else if fsize f = BASE_PAGE_SIZE then Ok (Frame_empty, Some f)
      else Ok (f, None))"

text \<open>All pages of a frame, as a \<open>for\<close> loop over \<open>into_iter\<close> sees them.\<close>

lemma page_iter_next_decreases:
  "page_iter_next f = Ok (f', Some p) \<Longrightarrow> fsize f' < fsize f"
  by (auto simp: page_iter_next_def split_at_def Frame_new_def Frame_empty_def bind_result_Ok_iff
      split: if_splits)

function frame_pages :: "Frame \<Rightarrow> Frame list kres" where
  "frame_pages f =
     (case page_iter_next f of
        Ok (f', Some p) \<Rightarrow> map_result ((#) p) (frame_pages f')
      | Ok (f', None) \<Rightarrow> Ok []
      | Err e \<Rightarrow> Err e
      | Panic \<Rightarrow> Panic)"
  by pat_completeness auto
termination
  by (relation "measure fsize") (auto simp: page_iter_next_decreases)

declare frame_pages.simps [simp del]

definition size_to_pages :: "nat \<Rightarrow> nat \<times> nat" where
  "size_to_pages sz =
     (let bytes_not_in_large = sz mod LARGE_PAGE_SIZE;
          div1 = bytes_not_in_large div BASE_PAGE_SIZE;
          rem1 = bytes_not_in_large mod BASE_PAGE_SIZE;
          base = (if rem1 > 0 then div1 + 1 else div1);
          remaining_size = sz - bytes_not_in_large;
          div2 = remaining_size div LARGE_PAGE_SIZE;
          rem2 = remaining_size mod LARGE_PAGE_SIZE;
          large = (if rem2 > 0 then div2 + 1 else div2)
      in (base, large))"

section \<open>Well-formed frames\<close>

definition frame_ok :: "Frame \<Rightarrow> bool" where
  "frame_ok f \<longleftrightarrow> fbase f mod BASE_PAGE_SIZE = 0 \<and> fsize f mod BASE_PAGE_SIZE = 0"

text \<open>The addresses a frame covers.\<close>

definition frame_bytes :: "Frame \<Rightarrow> nat set" where
  "frame_bytes f = {fbase f ..< fbase f + fsize f}"

lemma frame_bytes_empty [simp]: "frame_bytes Frame_empty = {}"
  by (simp add: frame_bytes_def Frame_empty_def)

lemma frame_ok_empty [simp]: "frame_ok Frame_empty"
  by (simp add: frame_ok_def Frame_empty_def)

lemma mod_add_zero: "(a::nat) mod m = 0 \<Longrightarrow> b mod m = 0 \<Longrightarrow> (a + b) mod m = 0"
  by (simp add: mod_eq_0_iff_dvd)

lemma mod_diff_zero: "(a::nat) mod m = 0 \<Longrightarrow> b mod m = 0 \<Longrightarrow> (a - b) mod m = 0"
  by (simp add: mod_eq_0_iff_dvd dvd_diff_nat)

lemma Frame_new_ok [simp]:
  "b mod BASE_PAGE_SIZE = 0 \<Longrightarrow> sz mod BASE_PAGE_SIZE = 0
     \<Longrightarrow> Frame_new b sz n = Ok \<lparr>fbase = b, fsize = sz, affinity = n\<rparr>"
  by (simp add: Frame_new_def)

lemma split_at_ok:
  assumes "frame_ok f" and "sz mod BASE_PAGE_SIZE = 0"
  obtains low high where "split_at f sz = Ok (low, high)" "frame_ok low" "frame_ok high"
    "frame_bytes low \<union> frame_bytes high = frame_bytes f" "frame_bytes low \<inter> frame_bytes high = {}"
    "fsize low = min sz (fsize f)" "fsize high = fsize f - sz" "fsize low + fsize high = fsize f"
    "fbase low = fbase f" "sz < fsize f \<Longrightarrow> fbase high = fbase f + sz" "affinity low = affinity f"
    "high \<noteq> Frame_empty \<Longrightarrow> affinity high = affinity f"
proof (cases "fsize f \<le> sz")
  case True
  then have "split_at f sz = Ok (f, Frame_empty)" using assms by (simp add: split_at_def)
  then show ?thesis using that True assms(1) by (simp add: Frame_empty_def frame_bytes_def frame_ok_def)
next
  case False
  let ?l = "\<lparr>fbase = fbase f, fsize = sz, affinity = affinity f\<rparr>"
  let ?h = "\<lparr>fbase = fbase f + sz, fsize = fsize f - sz, affinity = affinity f\<rparr>"
  have m: "(fbase f + sz) mod BASE_PAGE_SIZE = 0" "(fsize f - sz) mod BASE_PAGE_SIZE = 0"
    using assms by (auto simp: frame_ok_def intro: mod_add_zero mod_diff_zero)
  then have "split_at f sz = Ok (?l, ?h)" using assms False by (simp add: split_at_def frame_ok_def)
  moreover have "frame_bytes ?l \<union> frame_bytes ?h = frame_bytes f" "frame_bytes ?l \<inter> frame_bytes ?h = {}"
    using False by (auto simp: frame_bytes_def)
  moreover have "frame_ok ?l" "frame_ok ?h" using assms m by (simp_all add: frame_ok_def)
  ultimately show ?thesis using that [of ?l ?h] False by simp
qed

lemma split_boundary_ok:
  assumes "frame_ok f"
  obtains low high where "split_at_nearest_large_page_boundary f = Ok (low, high)"
    "frame_ok low" "frame_ok high" "frame_bytes low \<union> frame_bytes high = frame_bytes f"
    "frame_bytes low \<inter> frame_bytes high = {}" "fsize low + fsize high = fsize f"
    "fbase high mod LARGE_PAGE_SIZE = 0" "fsize low < LARGE_PAGE_SIZE"
    "low \<noteq> Frame_empty \<Longrightarrow> affinity low = affinity f" "high \<noteq> Frame_empty \<Longrightarrow> affinity high = affinity f"
proof (cases "fbase f mod LARGE_PAGE_SIZE = 0")
  case True
  then show ?thesis using that [of Frame_empty f] assms
    by (simp add: split_at_nearest_large_page_boundary_def Frame_empty_def frame_bytes_def frame_ok_def)
next
  case False
  let ?r = "round_up (fbase f) LARGE_PAGE_SIZE"
  have r: "fbase f \<le> ?r" "?r < fbase f + LARGE_PAGE_SIZE" "LARGE_PAGE_SIZE dvd ?r"
    by (simp_all add: page_arith)
  have "BASE_PAGE_SIZE dvd LARGE_PAGE_SIZE" by simp
  from dvd_trans [OF this r(3)] have "?r mod BASE_PAGE_SIZE = 0" by (rule dvd_imp_mod_0)
  then have m: "(?r - fbase f) mod BASE_PAGE_SIZE = 0"
    using assms by (intro mod_diff_zero) (simp_all add: frame_ok_def)
  have eq: "split_at_nearest_large_page_boundary f = split_at f (?r - fbase f)"
    using False by (simp add: split_at_nearest_large_page_boundary_def)
  show ?thesis
  proof (rule split_at_ok [OF assms m])
    fix low high
    assume s: "split_at f (?r - fbase f) = Ok (low, high)" "frame_ok low" "frame_ok high"
      "frame_bytes low \<union> frame_bytes high = frame_bytes f" "frame_bytes low \<inter> frame_bytes high = {}"
      "fsize low = min (?r - fbase f) (fsize f)" "fsize high = fsize f - (?r - fbase f)"
      "fsize low + fsize high = fsize f" "affinity low = affinity f"
      "high \<noteq> Frame_empty \<Longrightarrow> affinity high = affinity f"
      "?r - fbase f < fsize f \<Longrightarrow> fbase high = fbase f + (?r - fbase f)"
    have "fbase high mod LARGE_PAGE_SIZE = 0"
    proof (cases "?r - fbase f < fsize f")
      case True
      then show ?thesis using s(11) r by auto
    next
      case False
      then have "high = Frame_empty" using s(1) m by (auto simp: split_at_def split: if_splits)
      then show ?thesis by (simp add: Frame_empty_def)
    qed
    moreover have "fsize low < LARGE_PAGE_SIZE" using s(6) r(1,2) by linarith
    ultimately show ?thesis using that [of low high] s(1-5,8-10) eq by metis
  qed
qed

section \<open>The pages of a frame\<close>

definition page_list :: "Frame \<Rightarrow> Frame list" where
  "page_list f = map (\<lambda>i. \<lparr>fbase = fbase f + i * BASE_PAGE_SIZE, fsize = BASE_PAGE_SIZE, affinity = affinity f\<rparr>)
     [0..<base_pages f]"

lemma fsize_base_pages: "frame_ok f \<Longrightarrow> fsize f = base_pages f * BASE_PAGE_SIZE"
  using div_mult_mod_eq [of "fsize f" BASE_PAGE_SIZE]
  by (simp only: base_pages_def frame_ok_def add_0_right)

lemma frame_pages_eq:
  assumes "frame_ok f"
  shows "frame_pages f = Ok (page_list f)"
  using assms
proof (induction "base_pages f" arbitrary: f)
  case 0
  then have "fsize f = 0" using fsize_base_pages [of f] by simp
  then have "page_iter_next f = Ok (f, None)" by (simp add: page_iter_next_def)
  then have "frame_pages f = Ok []" by (subst frame_pages.simps) simp
  moreover have "page_list f = []" unfolding page_list_def "0.hyps" [symmetric] by simp
  ultimately show ?case by simp
next
  case (Suc n)
  have sz: "fsize f = BASE_PAGE_SIZE * Suc n"
    using Suc.hyps(2) fsize_base_pages [OF Suc.prems] by (simp only: mult.commute)
  let ?p = "\<lparr>fbase = fbase f, fsize = BASE_PAGE_SIZE, affinity = affinity f\<rparr>"
  show ?case
  proof (cases n)
    case 0
    then have "?p = f" using sz by simp
    then have "page_iter_next f = Ok (Frame_empty, Some ?p)"
      using sz 0 by (simp add: page_iter_next_def)
    moreover have "frame_pages Frame_empty = Ok []"
    proof -
      have "page_iter_next Frame_empty = Ok (Frame_empty, None)"
        by (simp add: page_iter_next_def Frame_empty_def)
      then show ?thesis by (subst frame_pages.simps) simp
    qed
    ultimately have "frame_pages f = Ok [?p]" by (subst frame_pages.simps) simp
    moreover have "page_list f = [?p]" using sz 0 by (simp add: page_list_def base_pages_def)
    ultimately show ?thesis by simp
  next
    case (Suc k)
    let ?f = "\<lparr>fbase = fbase f + BASE_PAGE_SIZE, fsize = BASE_PAGE_SIZE * n, affinity = affinity f\<rparr>"
    have "BASE_PAGE_SIZE < fsize f" "fsize f - BASE_PAGE_SIZE = BASE_PAGE_SIZE * n"
      using sz Suc by simp_all
    moreover have "fbase f mod BASE_PAGE_SIZE = 0" "(fbase f + BASE_PAGE_SIZE) mod BASE_PAGE_SIZE = 0"
      using Suc.prems by (simp_all add: frame_ok_def)
    ultimately have "page_iter_next f = Ok (?f, Some ?p)"
      by (simp add: page_iter_next_def split_at_def)
    moreover have "frame_pages ?f = Ok (page_list ?f)"
      using Suc.prems by (intro Suc.hyps(1)) (simp_all add: base_pages_def frame_ok_def)
    ultimately have "frame_pages f = Ok (?p # page_list ?f)" by (subst frame_pages.simps) simp
    moreover have "page_list f = ?p # page_list ?f"
    proof -
      have "[0..<Suc n] = 0 # map Suc [0..<n]" by (simp add: map_Suc_upt upt_conv_Cons)
      moreover have "base_pages f = Suc n" "base_pages ?f = n" using Suc.hyps(2) by (simp_all add: base_pages_def)
      ultimately show ?thesis by (simp add: page_list_def comp_def algebra_simps del: upt_Suc)
    qed
    ultimately show ?thesis by simp
  qed
qed

lemma page_list_ok:
  assumes "frame_ok f" and "p \<in> set (page_list f)"
  shows "frame_ok p" "fsize p = BASE_PAGE_SIZE" "affinity p = affinity f" "frame_bytes p \<subseteq> frame_bytes f"
proof -
  obtain i where i: "i < base_pages f"
    "p = \<lparr>fbase = fbase f + i * BASE_PAGE_SIZE, fsize = BASE_PAGE_SIZE, affinity = affinity f\<rparr>"
    using assms(2) by (auto simp: page_list_def)
  have "Suc i * BASE_PAGE_SIZE \<le> base_pages f * BASE_PAGE_SIZE" using i(1) by (intro mult_le_mono1) simp
  also have "base_pages f * BASE_PAGE_SIZE = fsize f" using fsize_base_pages [OF assms(1)] by simp
  finally show "frame_bytes p \<subseteq> frame_bytes f" using i(2) by (auto simp: frame_bytes_def)
  show "frame_ok p" "fsize p = BASE_PAGE_SIZE" "affinity p = affinity f"
    using i(2) assms(1) by (auto simp: frame_ok_def mod_add_zero)
qed

lemma page_list_cover:
  assumes "frame_ok f"
  shows "(\<Union>p \<in> set (page_list f). frame_bytes p) = frame_bytes f"
proof
  show "frame_bytes f \<subseteq> (\<Union>p \<in> set (page_list f). frame_bytes p)"
  proof
    fix a
    assume a: "a \<in> frame_bytes f"
    define i where "i = (a - fbase f) div BASE_PAGE_SIZE"
    have sz: "fsize f = base_pages f * BASE_PAGE_SIZE" by (rule fsize_base_pages [OF assms])
    have "i < base_pages f"
      using a sz by (auto simp: i_def frame_bytes_def less_mult_imp_div_less)
    moreover have "i * BASE_PAGE_SIZE \<le> a - fbase f" "a - fbase f < i * BASE_PAGE_SIZE + BASE_PAGE_SIZE"
      unfolding i_def by (simp_all add: dividend_less_div_times)
    ultimately show "a \<in> (\<Union>p \<in> set (page_list f). frame_bytes p)"
      using a by (auto simp: page_list_def frame_bytes_def intro!: bexI [of _ i])
  qed
qed (use page_list_ok [OF assms] in blast)

section \<open>Properties\<close>

text \<open>
  \<open>split_at\<close> and \<open>split_at_nearest_large_page_boundary\<close> partition a frame: the two parts are
  disjoint, cover the frame and are again page aligned; the upper part of the second starts at
  a large-page boundary and the lower part is smaller than a large page.
\<close>
lemma split_partitions:
  assumes "frame_ok f" and "sz mod BASE_PAGE_SIZE = 0"
  shows "(\<exists>low high. split_at f sz = Ok (low, high) \<and> frame_ok low \<and> frame_ok high
           \<and> frame_bytes low \<union> frame_bytes high = frame_bytes f
           \<and> frame_bytes low \<inter> frame_bytes high = {} \<and> fsize low = min sz (fsize f))
     \<and> (\<exists>low high. split_at_nearest_large_page_boundary f = Ok (low, high) \<and> frame_ok low \<and> frame_ok high
           \<and> frame_bytes low \<union> frame_bytes high = frame_bytes f
           \<and> frame_bytes low \<inter> frame_bytes high = {}
           \<and> is_large_page_aligned high \<and> fsize low < LARGE_PAGE_SIZE)"
  by (rule conjI, rule split_at_ok [OF assms], blast)
    (rule split_boundary_ok [OF assms(1)], auto simp: is_large_page_aligned_def)

text \<open>
  Iterating over a page-aligned frame yields exactly its base pages in address order: as many
  as \<open>len\<close> announces, each one aligned and of one base page, together covering the frame.
\<close>
lemma frame_iteration:
  assumes "frame_ok f"
  shows "frame_pages f = Ok (page_list f) \<and> length (page_list f) = page_iter_len f
     \<and> (\<forall>p \<in> set (page_list f). frame_ok p \<and> fsize p = BASE_PAGE_SIZE)
     \<and> (\<Union>p \<in> set (page_list f). frame_bytes p) = frame_bytes f"
proof -
  have "length (page_list f) = page_iter_len f"
    by (simp add: page_list_def page_iter_len_def base_pages_def)
  then show ?thesis
    using frame_pages_eq [OF assms] page_list_ok(1,2) [OF assms] page_list_cover [OF assms] by blast
qed

text \<open>
  \<open>size_to_pages\<close> gives enough pages and wastes less than one base page; as its comment
  promises, the base pages never exceed what fits a large page.
\<close>
lemma size_to_pages_tight:
  "case size_to_pages sz of (base, large) \<Rightarrow>
     sz \<le> base * BASE_PAGE_SIZE + large * LARGE_PAGE_SIZE
     \<and> base * BASE_PAGE_SIZE + large * LARGE_PAGE_SIZE < sz + BASE_PAGE_SIZE
     \<and> base \<le> LARGE_PAGE_SIZE div BASE_PAGE_SIZE"
proof -
  define b where "b = sz mod LARGE_PAGE_SIZE"
  define q where "q = sz div LARGE_PAGE_SIZE"
  have sz: "sz = q * LARGE_PAGE_SIZE + b" "b < LARGE_PAGE_SIZE" by (simp_all add: b_def q_def)
  have large: "snd (size_to_pages sz) = q"
    using sz by (simp add: size_to_pages_def Let_def b_def [symmetric])
  define d where "d = b div BASE_PAGE_SIZE"
  define r where "r = b mod BASE_PAGE_SIZE"
  have b: "b = d * BASE_PAGE_SIZE + r" "r < BASE_PAGE_SIZE" by (simp_all add: d_def r_def)
  have base: "fst (size_to_pages sz) = (if r > 0 then d + 1 else d)"
    by (simp add: size_to_pages_def Let_def b_def [symmetric] d_def [symmetric] r_def [symmetric])
  have "d < LARGE_PAGE_SIZE div BASE_PAGE_SIZE" using sz(2) by (simp add: d_def less_mult_imp_div_less)
  then have "d + 1 \<le> LARGE_PAGE_SIZE div BASE_PAGE_SIZE" by simp
  moreover have "sz = q * LARGE_PAGE_SIZE + d * BASE_PAGE_SIZE + r" using sz b by linarith
  moreover have "size_to_pages sz = (if r > 0 then d + 1 else d, q)" using large base by (metis prod.collapse)
  ultimately show ?thesis using b(2) by (cases "r > 0") simp_all
qed

end
