(* ===== verification/MapActions.thy ===== *)
theory MapActions
  imports Frames
begin

text \<open>
  Mapping rights and the records that address spaces exchange
  (\<open>kernel/src/memory/vspace.rs\<close>): \<open>MapAction\<close> with its translation to the flags of the three
  kinds of page-table entries and back, \<open>MappingInfo\<close>, the TLB flush handle and the bitmap of the
  cores that have to flush.

  The flag types \<open>PDPTFlags\<close>, \<open>PDFlags\<close> and \<open>PTFlags\<close> are bit sets of the \<open>x86\<close> crate.  They
  are sets of named flags here: \<open>|\<close> is union, \<open>remove\<close> is difference, \<open>==\<close> is equality.
\<close>

section \<open>Rights\<close>

datatype pflag = PF_P | PF_RW | PF_US | PF_PWT | PF_PCD | PF_A | PF_D | PF_PS | PF_G | PF_PAT | PF_XD

type_synonym pflags = "pflag set"

text \<open>The source's \<open>MapAction::None\<close> is \<open>NoAccess\<close> here.\<close>

datatype MapAction = NoAccess | ReadUser | ReadKernel | ReadWriteUser | ReadWriteUserNoCache
  | ReadWriteKernel | ReadExecuteUser | ReadExecuteKernel | ReadWriteExecuteUser | ReadWriteExecuteKernel

fun to_pdpt_rights :: "MapAction \<Rightarrow> pflags" where
  "to_pdpt_rights NoAccess = {}"
| "to_pdpt_rights ReadUser = {PF_XD, PF_US}"
| "to_pdpt_rights ReadKernel = {PF_XD}"
| "to_pdpt_rights ReadWriteUser = {PF_RW, PF_XD, PF_US}"
| "to_pdpt_rights ReadWriteUserNoCache = {PF_RW, PF_XD, PF_US}"
| "to_pdpt_rights ReadWriteKernel = {PF_RW, PF_XD}"
| "to_pdpt_rights ReadExecuteUser = {PF_US}"
| "to_pdpt_rights ReadExecuteKernel = {}"
| "to_pdpt_rights ReadWriteExecuteUser = {PF_RW, PF_US}"
| "to_pdpt_rights ReadWriteExecuteKernel = {PF_RW}"

definition is_readable :: "MapAction \<Rightarrow> bool" where
  "is_readable r \<longleftrightarrow> r \<noteq> NoAccess"

definition is_writable :: "MapAction \<Rightarrow> bool" where
  "is_writable r \<longleftrightarrow> r \<in> {ReadWriteUser, ReadWriteUserNoCache, ReadWriteKernel, ReadWriteExecuteUser,
     ReadWriteExecuteKernel}"

definition is_executable :: "MapAction \<Rightarrow> bool" where
  "is_executable r \<longleftrightarrow> r \<in> {ReadExecuteUser, ReadExecuteKernel, ReadWriteExecuteUser, ReadWriteExecuteKernel}"

fun to_pd_rights :: "MapAction \<Rightarrow> pflags" where
  "to_pd_rights NoAccess = {}"
| "to_pd_rights ReadUser = {PF_XD, PF_US}"
| "to_pd_rights ReadKernel = {PF_XD}"
| "to_pd_rights ReadWriteUser = {PF_RW, PF_XD, PF_US}"
| "to_pd_rights ReadWriteUserNoCache = {PF_RW, PF_XD, PF_US}"
| "to_pd_rights ReadWriteKernel = {PF_RW, PF_XD}"
| "to_pd_rights ReadExecuteUser = {PF_US}"
| "to_pd_rights ReadExecuteKernel = {}"
| "to_pd_rights ReadWriteExecuteUser = {PF_RW, PF_US}"
| "to_pd_rights ReadWriteExecuteKernel = {PF_RW}"

fun to_pt_rights :: "MapAction \<Rightarrow> pflags" where
  "to_pt_rights NoAccess = {}"
| "to_pt_rights ReadUser = {PF_XD, PF_US}"
| "to_pt_rights ReadKernel = {PF_XD}"
| "to_pt_rights ReadWriteUser = {PF_RW, PF_XD, PF_US}"
| "to_pt_rights ReadWriteUserNoCache = {PF_RW, PF_XD, PF_US}"
| "to_pt_rights ReadWriteKernel = {PF_RW, PF_XD}"
| "to_pt_rights ReadExecuteUser = {PF_US}"
| "to_pt_rights ReadExecuteKernel = {}"
| "to_pt_rights ReadWriteExecuteUser = {PF_RW, PF_US}"
| "to_pt_rights ReadWriteExecuteKernel = {PF_RW}"

text \<open>The three \<open>From\<close> implementations drop their irrelevant bits and then run one chain of tests.\<close>

definition rights_of :: "pflags \<Rightarrow> MapAction" where
  "rights_of cleaned =
     (if cleaned = {PF_P, PF_US, PF_XD} then ReadUser
      else if cleaned = {PF_XD, PF_P} then ReadKernel
      else if cleaned = {PF_RW, PF_XD, PF_US, PF_P, PF_PCD} then ReadWriteUserNoCache
      else if cleaned = {PF_RW, PF_XD, PF_US, PF_P} then ReadWriteUser
      else if cleaned = {PF_RW, PF_XD, PF_P} then ReadWriteKernel
      else if cleaned = {PF_US, PF_P} then ReadExecuteUser
      else if cleaned = {PF_RW, PF_US, PF_P} then ReadWriteExecuteUser
      else if cleaned = {PF_RW, PF_P} then ReadWriteExecuteKernel
      else if cleaned = {PF_P} then ReadExecuteKernel
      else NoAccess)"

definition MapAction_from_PTFlags :: "pflags \<Rightarrow> MapAction" where
  "MapAction_from_PTFlags f = rights_of (f - {PF_PWT, PF_A, PF_D, PF_G, PF_PWT})"

definition MapAction_from_PDFlags :: "pflags \<Rightarrow> MapAction" where
  "MapAction_from_PDFlags f = rights_of (f - {PF_PWT, PF_A, PF_D, PF_PS, PF_G, PF_PAT})"

definition MapAction_from_PDPTFlags :: "pflags \<Rightarrow> MapAction" where
  "MapAction_from_PDPTFlags f = rights_of (f - {PF_PWT, PF_A, PF_D, PF_PS, PF_G, PF_PAT})"

text \<open>What a page entry made from a \<open>MapAction\<close> grants.\<close>

definition granted :: "MapAction \<Rightarrow> MapAction" where
  "granted r = (case r of NoAccess \<Rightarrow> ReadExecuteKernel | ReadWriteUserNoCache \<Rightarrow> ReadWriteUser | _ \<Rightarrow> r)"

lemma set_eq_bools: "(A::pflags) = B \<longleftrightarrow> (\<forall>x. (x \<in> A) = (x \<in> B))"
  by blast

lemma all_pflag: "(\<forall>x::pflag. Q x) \<longleftrightarrow> Q PF_P \<and> Q PF_RW \<and> Q PF_US \<and> Q PF_PWT \<and> Q PF_PCD \<and> Q PF_A
    \<and> Q PF_D \<and> Q PF_PS \<and> Q PF_G \<and> Q PF_PAT \<and> Q PF_XD"
  by (rule iffI, blast, rule allI, rule pflag.induct) simp_all

lemma rights_of_cases:
  "rights_of ({PF_P} \<union> to_pdpt_rights r) = granted r"
  "rights_of ({PF_P} \<union> to_pd_rights r) = granted r"
  "rights_of ({PF_P} \<union> to_pt_rights r) = granted r"
  by (cases r; simp add: rights_of_def granted_def set_eq_bools all_pflag)+

lemma MapAction_from_rights [simp]:
  "MapAction_from_PDPTFlags (insert PF_P (insert PF_PS (to_pdpt_rights r))) = granted r"
  "MapAction_from_PDFlags (insert PF_P (insert PF_PS (to_pd_rights r))) = granted r"
  "MapAction_from_PTFlags (insert PF_P (to_pt_rights r)) = granted r"
proof -
  have "insert PF_P (insert PF_PS (to_pdpt_rights r)) - {PF_PWT, PF_A, PF_D, PF_PS, PF_G, PF_PAT}
      = {PF_P} \<union> to_pdpt_rights r"
    "insert PF_P (insert PF_PS (to_pd_rights r)) - {PF_PWT, PF_A, PF_D, PF_PS, PF_G, PF_PAT}
      = {PF_P} \<union> to_pd_rights r"
    "insert PF_P (to_pt_rights r) - {PF_PWT, PF_A, PF_D, PF_G, PF_PWT} = {PF_P} \<union> to_pt_rights r"
    by (cases r; auto)+
  then show "MapAction_from_PDPTFlags (insert PF_P (insert PF_PS (to_pdpt_rights r))) = granted r"
    "MapAction_from_PDFlags (insert PF_P (insert PF_PS (to_pd_rights r))) = granted r"
    "MapAction_from_PTFlags (insert PF_P (to_pt_rights r)) = granted r"
    by (simp_all only: MapAction_from_PDPTFlags_def MapAction_from_PDFlags_def MapAction_from_PTFlags_def
        rights_of_cases)
qed

lemma granted_idem [simp]: "granted (granted r) = granted r"
  by (cases r) (simp_all add: granted_def)

section \<open>Cores that have to flush\<close>

text \<open>
  \<open>CoreBitMap\<close> is a 256-bit set made of two \<open>u128\<close>.  \<open>BitField::set_bit\<close> of the \<open>bit_field\<close>
  crate panics on an index outside the integer.
\<close>

record CoreBitMap =
  cores_low :: "128 word"
  cores_high :: "128 word"

definition CoreBitMap_default :: CoreBitMap where
  "CoreBitMap_default = \<lparr>cores_low = 0, cores_high = 0\<rparr>"

definition put_bit :: "128 word \<Rightarrow> nat \<Rightarrow> bool \<Rightarrow> 128 word" where
  "put_bit w i v = (if v then Bit_Operations.set_bit i w else unset_bit i w)"

definition CoreBitMap_set_bit :: "CoreBitMap \<Rightarrow> nat \<Rightarrow> bool \<Rightarrow> CoreBitMap kres" where
  "CoreBitMap_set_bit m i v =
     (if i \<le> 127 then Ok (m\<lparr>cores_low := put_bit (cores_low m) i v\<rparr>)
      else if i - 128 < 128 then Ok (m\<lparr>cores_high := put_bit (cores_high m) (i - 128) v\<rparr>)
      else Panic)"

text \<open>\<open>u128::trailing_zeros\<close>; 128 on zero.\<close>

definition trailing_zeros :: "128 word \<Rightarrow> nat" where
  "trailing_zeros w = length (takeWhile (\<lambda>i. \<not> bit w i) [0..<128])"

definition CoreBitMapIter_next :: "CoreBitMap \<Rightarrow> (nat \<times> CoreBitMap) option" where
  "CoreBitMapIter_next m =
     (if cores_low m = 0 \<and> cores_high m = 0 then None
      else if 0 < cores_low m then
        Some (trailing_zeros (cores_low m),
              m\<lparr>cores_low := xor (cores_low m) (and (cores_low m) (- cores_low m))\<rparr>)
      else
        Some (128 + trailing_zeros (cores_high m),
              m\<lparr>cores_high := xor (cores_high m) (and (cores_high m) (- cores_high m))\<rparr>))"

record TlbFlushHandle =
  tlb_vaddr :: nat
  tlb_frame :: Frame
  core_map :: CoreBitMap

definition TlbFlushHandle_new :: "nat \<Rightarrow> Frame \<Rightarrow> TlbFlushHandle" where
  "TlbFlushHandle_new v f = \<lparr>tlb_vaddr = v, tlb_frame = f, core_map = CoreBitMap_default\<rparr>"

definition add_core :: "TlbFlushHandle \<Rightarrow> nat \<Rightarrow> TlbFlushHandle kres" where
  "add_core h gtid = map_result (\<lambda>m. h\<lparr>core_map := m\<rparr>) (CoreBitMap_set_bit (core_map h) gtid True)"

datatype MappingType = ElfText | ElfData | Executor | Heap

record MappingInfo =
  minfo_frame :: Frame
  minfo_rights :: MapAction
  minfo_typ :: MappingType

definition MappingInfo_new :: "Frame \<Rightarrow> MapAction \<Rightarrow> MappingInfo" where
  "MappingInfo_new f r = \<lparr>minfo_frame = f, minfo_rights = r, minfo_typ = Heap\<rparr>"

definition vrange :: "MappingInfo \<Rightarrow> nat \<Rightarrow> nat \<times> nat" where
  "vrange m base = (base, base + fsize (minfo_frame m))"

subsection \<open>The lowest set bit\<close>

lemma trailing_zeros_bit:
  assumes "w \<noteq> 0"
  shows "bit w (trailing_zeros w)" and "trailing_zeros w < 128" and "\<And>j. j < trailing_zeros w \<Longrightarrow> \<not> bit w j"
proof -
  let ?t = "takeWhile (\<lambda>i. \<not> bit w i) [0..<128]"
  have "\<exists>j < 128. bit w j"
  proof (rule ccontr)
    assume "\<not> ?thesis"
    then have "w = 0" by (intro bit_word_eqI) auto
    with assms show False by simp
  qed
  then have "?t \<noteq> [0..<128]" by (auto simp: takeWhile_eq_all_conv)
  then show l: "trailing_zeros w < 128"
    unfolding trailing_zeros_def
    by (metis takeWhile_eq_take take_all_iff length_upt diff_zero not_le)
  show "bit w (trailing_zeros w)"
    using nth_length_takeWhile [of "\<lambda>i. \<not> bit w i" "[0..<128]"] l by (simp add: trailing_zeros_def)
  show "\<not> bit w j" if "j < trailing_zeros w" for j
  proof -
    have "?t ! j \<in> set ?t" using that by (intro nth_mem) (simp add: trailing_zeros_def)
    moreover have "?t ! j = j" using that l takeWhile_nth [of j "\<lambda>i. \<not> bit w i" "[0..<128]"]
      by (simp add: trailing_zeros_def)
    ultimately show ?thesis by (auto dest!: set_takeWhileD)
  qed
qed

lemma odd_and_minus:
  assumes "odd (v::128 word)"
  shows "and v (- v) = 1"
proof (rule bit_word_eqI)
  fix n assume n: "n < LENGTH(128)"
  have v: "v - 1 = 2 * (v div 2)" using assms by (simp add: minus_mod_eq_mult_div [symmetric] odd_iff_mod_2_eq_one)
  have "bit (v - 1) n = (bit v n \<and> n \<noteq> 0)"
    unfolding v bit_double_iff using n by (cases n) (auto simp: bit_Suc)
  then show "bit (and v (- v)) n = bit (1::128 word) n"
    using n assms by (cases n) (auto simp: bit_and_iff bit_minus_iff bit_1_iff bit_0 even_and_iff)
qed

lemma lowest_bit:
  assumes "w \<noteq> 0"
  shows "and w (- w) = push_bit (trailing_zeros w) (1::128 word)"
proof -
  let ?k = "trailing_zeros w"
  let ?v = "drop_bit ?k w"
  have "?k \<le> n" if "bit w n" for n using trailing_zeros_bit(3) [OF assms, of n] that by (meson not_le)
  then have w: "w = push_bit ?k ?v" by (intro bit_word_eqI) (auto simp: bit_simps)
  have "odd ?v" using trailing_zeros_bit(1) [OF assms] by (simp add: bit_0 [symmetric] bit_drop_bit_eq)
  then have "push_bit ?k (and ?v (- ?v)) = push_bit ?k (1::128 word)" by (simp add: odd_and_minus)
  moreover have "- push_bit ?k ?v = push_bit ?k (- ?v)" by (simp add: push_bit_eq_mult)
  ultimately show ?thesis by (metis w push_bit_and)
qed

lemma bit_clear_lowest:
  assumes "w \<noteq> (0::128 word)"
  shows "bit (xor w (and w (- w))) n \<longleftrightarrow> bit w n \<and> n \<noteq> trailing_zeros w"
  using trailing_zeros_bit [OF assms] unfolding lowest_bit [OF assms]
  by (auto simp: bit_xor_iff bit_exp_iff)

text \<open>The cores in the map.\<close>

definition cores_in :: "CoreBitMap \<Rightarrow> nat set" where
  "cores_in m = {n. bit (cores_low m) n} \<union> {128 + n | n. bit (cores_high m) n}"

lemma cores_in_simps [simp]:
  "n < 128 \<Longrightarrow> n \<in> cores_in m \<longleftrightarrow> bit (cores_low m) n"
  "128 + n \<in> cores_in m \<longleftrightarrow> bit (cores_high m) n"
  by (auto simp: cores_in_def dest: bit_imp_le_length)

lemma cores_in_bound: "n \<in> cores_in m \<Longrightarrow> n < 256"
  by (auto simp: cores_in_def dest!: bit_imp_le_length)

lemma finite_cores_in [simp]: "finite (cores_in m)"
  by (rule finite_subset [of _ "{..<256}"]) (auto dest: cores_in_bound)

lemma CoreBitMapIter_next_None: "CoreBitMapIter_next m = None \<longleftrightarrow> cores_in m = {}"
proof -
  have "cores_in m = {} \<Longrightarrow> cores_low m = 0" "cores_in m = {} \<Longrightarrow> cores_high m = 0"
    by (rule ccontr, drule trailing_zeros_bit(1), auto simp: cores_in_def)+
  moreover have "cores_low m = 0 \<Longrightarrow> cores_high m = 0 \<Longrightarrow> cores_in m = {}" by (simp add: cores_in_def)
  ultimately have "cores_in m = {} \<longleftrightarrow> cores_low m = 0 \<and> cores_high m = 0" by blast
  then show ?thesis by (simp add: CoreBitMapIter_next_def)
qed

lemma CoreBitMapIter_next_Some:
  assumes "CoreBitMapIter_next m = Some (n, m')"
  shows "n \<in> cores_in m" and "\<And>x. x \<in> cores_in m \<Longrightarrow> n \<le> x" and "cores_in m' = cores_in m - {n}"
proof -
  consider (lo) "cores_low m \<noteq> 0" "n = trailing_zeros (cores_low m)"
      "m' = m\<lparr>cores_low := xor (cores_low m) (and (cores_low m) (- cores_low m))\<rparr>"
    | (hi) "cores_low m = 0" "cores_high m \<noteq> 0" "n = 128 + trailing_zeros (cores_high m)"
      "m' = m\<lparr>cores_high := xor (cores_high m) (and (cores_high m) (- cores_high m))\<rparr>"
    using assms by (auto simp: CoreBitMapIter_next_def word_gt_0 split: if_splits)
  then have "n \<in> cores_in m \<and> (\<forall>x \<in> cores_in m. n \<le> x) \<and> cores_in m' = cores_in m - {n}"
  proof cases
    case lo
    note t = trailing_zeros_bit [OF lo(1)]
    have "n \<le> x" if "bit (cores_low m) x" for x using t(3) [of x] that lo(2) by (meson not_le)
    moreover have "cores_in m' = cores_in m - {n}"
      using t(2) by (auto simp: cores_in_def lo(2,3) bit_clear_lowest [OF lo(1)])
    ultimately show ?thesis using t(1,2) lo(2) by (auto simp: cores_in_def)
  next
    case hi
    note t = trailing_zeros_bit [OF hi(2)]
    have "trailing_zeros (cores_high m) \<le> x" if "bit (cores_high m) x" for x
      using t(3) [of x] that by (meson not_le)
    moreover have "cores_in m' = cores_in m - {n}"
      by (auto simp: cores_in_def hi(1,3,4) bit_clear_lowest [OF hi(2)])
    ultimately show ?thesis using t(1) hi(1,3) by (auto simp: cores_in_def)
  qed
  then show "n \<in> cores_in m" "\<And>x. x \<in> cores_in m \<Longrightarrow> n \<le> x" "cores_in m' = cores_in m - {n}" by auto
qed

text \<open>What a loop over \<open>TlbFlushHandle::cores\<close> visits.\<close>

function iter_cores :: "CoreBitMap \<Rightarrow> nat list" where
  "iter_cores m = (case CoreBitMapIter_next m of None \<Rightarrow> [] | Some (n, m') \<Rightarrow> n # iter_cores m')"
  by pat_completeness auto
termination
proof (relation "measure (\<lambda>m. card (cores_in m))")
  fix m p n m'
  assume "CoreBitMapIter_next m = Some p" "(n, m') = p"
  then have "CoreBitMapIter_next m = Some (n, m')" by simp
  note s = CoreBitMapIter_next_Some [OF this]
  have "card (cores_in m') < card (cores_in m)"
    unfolding s(3) by (rule card_Diff1_less [OF finite_cores_in s(1)])
  then show "(m', m) \<in> measure (\<lambda>m. card (cores_in m))" by simp
qed simp

declare iter_cores.simps [simp del]

definition handle_cores :: "TlbFlushHandle \<Rightarrow> nat list" where
  "handle_cores h = iter_cores (core_map h)"

lemma iter_cores_sorted: "iter_cores m = sorted_list_of_set (cores_in m)"
proof (induction m rule: iter_cores.induct)
  case (1 m)
  show ?case
  proof (cases "CoreBitMapIter_next m")
    case None
    then show ?thesis using CoreBitMapIter_next_None [of m] by (simp add: iter_cores.simps)
  next
    case (Some p)
    obtain n m' where p: "p = (n, m')" by (cases p)
    note s = CoreBitMapIter_next_Some [OF Some [unfolded p]]
    have "Min (cores_in m) = n" using s(1,2) by (intro Min_eqI) auto
    moreover have "cores_in m \<noteq> {}" using s(1) by blast
    ultimately have "sorted_list_of_set (cores_in m) = n # sorted_list_of_set (cores_in m - {n})"
      by (simp add: sorted_list_of_set_nonempty)
    then show ?thesis
      using 1 [OF Some p [symmetric]] s(3) by (subst iter_cores.simps) (simp add: Some p)
  qed
qed

lemma add_core_ok:
  assumes "g < 256"
  obtains h' where "add_core h g = Ok h'" "cores_in (core_map h') = insert g (cores_in (core_map h))"
    "tlb_vaddr h' = tlb_vaddr h" "tlb_frame h' = tlb_frame h"
proof (cases "g \<le> 127")
  case True
  then have g: "g < 128" by simp
  have "cores_in (core_map h\<lparr>cores_low := Bit_Operations.set_bit g (cores_low (core_map h))\<rparr>)
      = insert g (cores_in (core_map h))"
    using g by (auto simp: cores_in_def bit_set_bit_iff)
  then show ?thesis
    by (intro that [of "h\<lparr>core_map := core_map h\<lparr>cores_low := Bit_Operations.set_bit g (cores_low (core_map h))\<rparr>\<rparr>"])
      (simp_all add: add_core_def CoreBitMap_set_bit_def put_bit_def True)
next
  case False
  then obtain k where k: "g = 128 + k" using le_Suc_ex [of 128 g] by auto
  have "cores_in (core_map h\<lparr>cores_high := Bit_Operations.set_bit (g - 128) (cores_high (core_map h))\<rparr>)
      = insert g (cores_in (core_map h))"
    using assms by (auto simp: cores_in_def bit_set_bit_iff k)
  then show ?thesis
    using False assms
    by (intro that [of "h\<lparr>core_map := core_map h\<lparr>cores_high :=
        Bit_Operations.set_bit (g - 128) (cores_high (core_map h))\<rparr>\<rparr>"])
      (simp_all add: add_core_def CoreBitMap_set_bit_def put_bit_def)
qed

primrec add_cores :: "TlbFlushHandle \<Rightarrow> nat list \<Rightarrow> TlbFlushHandle kres" where
  "add_cores h [] = Ok h"
| "add_cores h (g # gs) = bind_result (add_core h g) (\<lambda>h'. add_cores h' gs)"

lemma add_cores_ok:
  assumes "\<forall>g \<in> set gs. g < 256"
  shows "\<exists>h'. add_cores h gs = Ok h' \<and> cores_in (core_map h') = set gs \<union> cores_in (core_map h)"
  using assms
proof (induction gs arbitrary: h)
  case (Cons g gs)
  obtain h1 where "add_core h g = Ok h1" "cores_in (core_map h1) = insert g (cores_in (core_map h))"
    by (rule add_core_ok [of g h]) (use Cons.prems in auto)
  with Cons.IH [of h1] Cons.prems show ?case by auto
qed simp

lemma add_cores_page: "add_cores h gs = Ok h' \<Longrightarrow> tlb_vaddr h' = tlb_vaddr h \<and> tlb_frame h' = tlb_frame h"
proof (induction gs arbitrary: h)
  case (Cons g gs)
  then show ?case by (cases "add_core h g") (auto simp: add_core_def)
qed simp

section \<open>Properties\<close>

text \<open>
  A flush handle to which cores have been added is iterated over exactly those cores, each
  once and in increasing order, whatever order they were added in and however often.
\<close>
lemma flush_visits_added_cores:
  assumes "\<forall>g \<in> set gs. g < 256"
  shows "\<exists>h. add_cores (TlbFlushHandle_new v f) gs = Ok h \<and> handle_cores h = sorted_list_of_set (set gs)"
  using add_cores_ok [OF assms, of "TlbFlushHandle_new v f"]
  by (auto simp: handle_cores_def iter_cores_sorted TlbFlushHandle_new_def CoreBitMap_default_def cores_in_def)

text \<open>
  Reading the rights back from a page entry gives the rights it was made with, at all three
  page sizes and whatever the processor sets of the accessed and dirty bits, except for two
  actions: \<open>None\<close> comes back as kernel read-execute, and the uncached user mapping as the cached one.
\<close>
lemma rights_round_trip:
  assumes "hw \<subseteq> {PF_A, PF_D}"
  shows "MapAction_from_PDPTFlags (insert PF_P (insert PF_PS (to_pdpt_rights r)) \<union> hw) = granted r
     \<and> MapAction_from_PDFlags (insert PF_P (insert PF_PS (to_pd_rights r)) \<union> hw) = granted r
     \<and> MapAction_from_PTFlags (insert PF_P (to_pt_rights r) \<union> hw) = granted r
     \<and> (granted r = r \<longleftrightarrow> r \<noteq> NoAccess \<and> r \<noteq> ReadWriteUserNoCache)"
proof -
  have "(F \<union> hw) - {PF_PWT, PF_A, PF_D, PF_PS, PF_G, PF_PAT} = F - {PF_PWT, PF_A, PF_D, PF_PS, PF_G, PF_PAT}"
    "(F \<union> hw) - {PF_PWT, PF_A, PF_D, PF_G, PF_PWT} = F - {PF_PWT, PF_A, PF_D, PF_G, PF_PWT}" for F
    using assms by blast+
  then have "MapAction_from_PDPTFlags (F \<union> hw) = MapAction_from_PDPTFlags F"
    "MapAction_from_PDFlags (F \<union> hw) = MapAction_from_PDFlags F"
    "MapAction_from_PTFlags (F \<union> hw) = MapAction_from_PTFlags F" for F
    by (simp_all only: MapAction_from_PDPTFlags_def MapAction_from_PDFlags_def MapAction_from_PTFlags_def)
  then show ?thesis
    by (intro conjI) (simp_all only: MapAction_from_rights, cases r, simp_all add: granted_def)
qed

end
