(* ===== verification/PageTables.thy ===== *)
theory PageTables
  imports MapActions
begin

text \<open>
  The x86-64 page table (\<open>kernel/src/arch/x86_64/vspace/page_table.rs\<close>).

  Physical memory is a total function from the address of a 4 KiB page to what the page holds when
  it is read as a table of 512 entries; the code reaches tables through physical addresses, and
  reads whatever is there.  An entry is an address with its flags: \<open>PDPTEntry::new\<close>,
  \<open>address\<close> and \<open>flags\<close> of the \<open>x86\<close> crate store and return page-aligned addresses
  below \<open>2\<^sup>5\<^sup>2\<close>.  The allocator behind the table (\<open>DA\<close> or the global one) is the list of
  the frames it is going to return; the code unwraps its answer, so an empty list is a panic.

  Virtual addresses are below \<open>2\<^sup>4\<^sup>8\<close> in the statements.  The depth of a table is 0 for the
  PML4, 1 for a PDPT, 2 for a PD and 3 for a PT; the entries of a table of depth 1, 2, 3 cover
  1 GiB, 2 MiB and 4 KiB of virtual addresses.
\<close>

section \<open>Entries and memory\<close>

record entry =
  eaddr :: nat
  eflags :: pflags

type_synonym table = "nat \<Rightarrow> entry"

definition empty_entry :: entry where
  "empty_entry = \<lparr>eaddr = 0, eflags = {}\<rparr>"

definition is_present :: "entry \<Rightarrow> bool" where
  "is_present e \<longleftrightarrow> PF_P \<in> eflags e"

definition is_page :: "entry \<Rightarrow> bool" where
  "is_page e \<longleftrightarrow> PF_PS \<in> eflags e"

text \<open>\<open>pml4\<close> is the physical address of the boxed PML4, \<open>da\<close> the frames the allocator returns.\<close>

record PageTable =
  pml4 :: nat
  da :: "nat list"
  pmem :: "nat \<Rightarrow> table"

abbreviation PAGE_SIZE_ENTRIES :: nat where "PAGE_SIZE_ENTRIES \<equiv> 512"
abbreviation PML4_SLOT_SIZE :: nat where "PML4_SLOT_SIZE \<equiv> 549755813888"

definition pml4_index :: "nat \<Rightarrow> nat" where
  "pml4_index v = v div PML4_SLOT_SIZE mod PAGE_SIZE_ENTRIES"

definition pdpt_index :: "nat \<Rightarrow> nat" where
  "pdpt_index v = v div HUGE_PAGE_SIZE mod PAGE_SIZE_ENTRIES"

definition pd_index :: "nat \<Rightarrow> nat" where
  "pd_index v = v div LARGE_PAGE_SIZE mod PAGE_SIZE_ENTRIES"

definition pt_index :: "nat \<Rightarrow> nat" where
  "pt_index v = v div BASE_PAGE_SIZE mod PAGE_SIZE_ENTRIES"

definition pml4_entry :: "PageTable \<Rightarrow> nat \<Rightarrow> entry" where
  "pml4_entry t i = pmem t (pml4 t) i"

definition set_entry :: "PageTable \<Rightarrow> nat \<Rightarrow> nat \<Rightarrow> entry \<Rightarrow> PageTable" where
  "set_entry t a i e = t\<lparr>pmem := (pmem t)(a := (pmem t a)(i := e))\<rparr>"

text \<open>\<open>get_pdpt\<close>, \<open>get_pd\<close>, \<open>get_pt\<close> and their mutable versions: the table an entry points to.\<close>

definition get_table :: "PageTable \<Rightarrow> entry \<Rightarrow> table kres" where
  "get_table t e = (if eaddr e = 0 then Panic else Ok (pmem t (eaddr e)))"

section \<open>Creating tables\<close>

definition PageTable_new :: "heap \<Rightarrow> nat \<Rightarrow> nat list \<Rightarrow> (nat \<Rightarrow> table) \<Rightarrow> heap \<times> PageTable kres" where
  "PageTable_new h root frames mem =
     (case heap_take h of
        (False, h') \<Rightarrow> (h', Err OutOfMemory)
      | (True, h') \<Rightarrow> (h', Ok \<lparr>pml4 = root, da = frames, pmem = mem(root := \<lambda>_. empty_entry)\<rparr>))"

definition alloc_frame :: "PageTable \<Rightarrow> PageTable \<times> nat kres" where
  "alloc_frame t = (case da t of
       [] \<Rightarrow> (t, Panic)
     | a # as \<Rightarrow> (t\<lparr>da := as, pmem := (pmem t)(a := \<lambda>_. empty_entry)\<rparr>, Ok a))"

text \<open>\<open>new_pt\<close>, \<open>new_pd\<close> and \<open>new_pdpt\<close> differ in the type of the entry they return.\<close>

definition link_entry :: "nat \<Rightarrow> entry" where
  "link_entry a = \<lparr>eaddr = a, eflags = {PF_P, PF_RW, PF_US}\<rparr>"

definition new_table :: "PageTable \<Rightarrow> PageTable \<times> entry kres" where
  "new_table t = (case alloc_frame t of (t', r) \<Rightarrow> (t', map_result link_entry r))"

definition get_or_alloc_pdpt :: "PageTable \<Rightarrow> nat \<Rightarrow> PageTable \<times> table kres" where
  "get_or_alloc_pdpt t vbase =
     (let i = pml4_index vbase in
      and_then
        (if \<not> is_present (pml4_entry t i)
         then and_then (new_table t) (\<lambda>t' e. (set_entry t' (pml4 t') i e, Ok ()))
         else (t, Ok ()))
        (\<lambda>t' _. if is_present (pml4_entry t' i) then (t', get_table t' (pml4_entry t' i)) else (t', Panic)))"

section \<open>Resolving\<close>

definition pt_resolve :: "PageTable \<Rightarrow> nat \<Rightarrow> (nat \<times> MapAction) kres" where
  "pt_resolve t addr =
     (let e4 = pml4_entry t (pml4_index addr) in
      if \<not> is_present e4 then Err NotMapped else
      bind_result (get_table t e4) (\<lambda>pdpt.
        let e3 = pdpt (pdpt_index addr) in
        if \<not> is_present e3 then Err NotMapped
        else if is_page e3 then Ok (eaddr e3 + addr mod HUGE_PAGE_SIZE, MapAction_from_PDPTFlags (eflags e3))
        else bind_result (get_table t e3) (\<lambda>pd.
          let e2 = pd (pd_index addr) in
          if \<not> is_present e2 then Err NotMapped
          else if is_page e2 then Ok (eaddr e2 + addr mod LARGE_PAGE_SIZE, MapAction_from_PDFlags (eflags e2))
          else bind_result (get_table t e2) (\<lambda>pt.
            let e1 = pt (pt_index addr) in
            if \<not> is_present e1 then Err NotMapped
            else Ok (eaddr e1 + addr mod BASE_PAGE_SIZE, MapAction_from_PTFlags (eflags e1))))))"

section \<open>Mapping\<close>

definition all_entries_empty :: "table \<Rightarrow> bool" where
  "all_entries_empty t \<longleftrightarrow> list_all (\<lambda>i. \<not> is_present (t i)) [0..<PAGE_SIZE_ENTRIES]"

definition can_map_as_huge_page :: "PageTable \<Rightarrow> entry \<Rightarrow> nat \<Rightarrow> nat \<Rightarrow> nat \<Rightarrow> PageTable \<times> bool kres" where
  "can_map_as_huge_page t e4 pbase psize vbase =
     (case get_table t e4 of
        Ok pdpt \<Rightarrow>
          (let e3 = pdpt (pdpt_index vbase);
               vaddr_pos = PML4_SLOT_SIZE * pml4_index vbase + HUGE_PAGE_SIZE * pdpt_index vbase in
           if vbase \<noteq> vaddr_pos \<or> pbase mod HUGE_PAGE_SIZE \<noteq> 0 \<or> psize < HUGE_PAGE_SIZE then (t, Ok False)
           else if \<not> is_present e3 then (t, Ok True)
           else (case get_table t e3 of
               Ok pd \<Rightarrow>
                 if all_entries_empty pd then (set_entry t (eaddr e4) (pdpt_index vbase) empty_entry, Ok True)
                 else (t, Ok False)
             | _ \<Rightarrow> (t, Panic)))
      | _ \<Rightarrow> (t, Panic))"

definition can_map_as_large_page :: "PageTable \<Rightarrow> entry \<Rightarrow> nat \<Rightarrow> nat \<Rightarrow> nat \<Rightarrow> PageTable \<times> bool kres" where
  "can_map_as_large_page t e3 pbase psize vbase =
     (case get_table t e3 of
        Ok pd \<Rightarrow>
          (let e2 = pd (pd_index vbase);
               vaddr_pos = PML4_SLOT_SIZE * pml4_index vbase + HUGE_PAGE_SIZE * pdpt_index vbase
                           + LARGE_PAGE_SIZE * pd_index vbase in
           if vbase \<noteq> vaddr_pos \<or> pbase mod LARGE_PAGE_SIZE \<noteq> 0 \<or> psize < LARGE_PAGE_SIZE then (t, Ok False)
           else if \<not> is_present e2 then (t, Ok True)
           else (case get_table t e2 of
               Ok pt \<Rightarrow>
                 if all_entries_empty pt then (set_entry t (eaddr e3) (pd_index vbase) empty_entry, Ok True)
                 else (t, Ok False)
             | _ \<Rightarrow> (t, Panic)))
      | _ \<Rightarrow> (t, Panic))"

text \<open>
  The three insertion loops are one function of the depth of the table they fill: the size of a
  page, what has to be left of the region for another round, the flags of a page entry, and the
  \<open>From\<close> implementation that reads rights back.
\<close>

definition entry_size :: "nat \<Rightarrow> nat" where
  "entry_size d = (if d = 1 then HUGE_PAGE_SIZE else if d = 2 then LARGE_PAGE_SIZE else BASE_PAGE_SIZE)"

definition loop_needs :: "nat \<Rightarrow> nat" where
  "loop_needs d = (if d = 1 then HUGE_PAGE_SIZE else if d = 2 then LARGE_PAGE_SIZE else 1)"

definition page_flags :: "nat \<Rightarrow> MapAction \<Rightarrow> pflags" where
  "page_flags d r = (if d = 1 then insert PF_P (insert PF_PS (to_pdpt_rights r))
                     else if d = 2 then insert PF_P (insert PF_PS (to_pd_rights r))
                     else insert PF_P (to_pt_rights r))"

definition page_rights :: "nat \<Rightarrow> pflags \<Rightarrow> MapAction" where
  "page_rights d f = (if d = 1 then MapAction_from_PDPTFlags f
                      else if d = 2 then MapAction_from_PDFlags f else MapAction_from_PTFlags f)"

function insert_entries ::
  "nat \<Rightarrow> nat \<Rightarrow> nat \<Rightarrow> nat \<Rightarrow> MapAction \<Rightarrow> bool \<Rightarrow> table \<Rightarrow> nat \<Rightarrow> nat \<Rightarrow> table \<times> nat kres" where
  "insert_entries d vbase pbase psize rights ins t idx mapped =
     (if mapped < psize \<and> loop_needs d \<le> psize - mapped \<and> idx < PAGE_SIZE_ENTRIES then
        if is_present (t idx) \<and> (eaddr (t idx) \<noteq> pbase + mapped \<or> page_rights d (eflags (t idx)) \<noteq> rights)
        then (t, if ins then Panic else Err (AlreadyMapped (vbase + mapped)))
        else insert_entries d vbase pbase psize rights ins
               (if ins then t(idx := \<lparr>eaddr = pbase + mapped, eflags = page_flags d rights\<rparr>) else t)
               (idx + 1) (mapped + entry_size d)
      else if psize < mapped then (t, Panic)
      else (t, Ok mapped))"
  by pat_completeness auto
termination by (relation "measure (\<lambda>(d, v, p, n, r, b, t, idx, m). PAGE_SIZE_ENTRIES - idx)") auto

declare insert_entries.simps [simp del]

text \<open>A loop over the table at physical address \<open>a\<close>; the result is how much has been mapped.\<close>

definition insert_at ::
  "nat \<Rightarrow> PageTable \<Rightarrow> nat \<Rightarrow> nat \<Rightarrow> nat \<Rightarrow> nat \<Rightarrow> nat \<Rightarrow> MapAction \<Rightarrow> bool \<Rightarrow> PageTable \<times> nat kres" where
  "insert_at d t a idx vbase pbase psize rights ins =
     (if a = 0 then (t, Panic) else
      case insert_entries d vbase pbase psize rights ins (pmem t a) idx 0 of
        (tbl, r) \<Rightarrow> (t\<lparr>pmem := (pmem t)(a := tbl)\<rparr>, r))"

definition insert_huge_mappings ::
  "PageTable \<Rightarrow> nat \<Rightarrow> nat \<Rightarrow> nat \<Rightarrow> nat \<Rightarrow> MapAction \<Rightarrow> bool \<Rightarrow> PageTable \<times> nat kres" where
  "insert_huge_mappings t pdpt_idx vbase pbase psize rights ins =
     and_then (get_or_alloc_pdpt t vbase) (\<lambda>t' _.
       insert_at 1 t' (eaddr (pml4_entry t' (pml4_index vbase))) pdpt_idx vbase pbase psize rights ins)"

definition insert_large_mappings ::
  "PageTable \<Rightarrow> entry \<Rightarrow> nat \<Rightarrow> nat \<Rightarrow> nat \<Rightarrow> MapAction \<Rightarrow> bool \<Rightarrow> PageTable \<times> nat kres" where
  "insert_large_mappings t e3 vbase pbase psize rights ins =
     insert_at 2 t (eaddr e3) (pd_index vbase) vbase pbase psize rights ins"

definition insert_base_mappings ::
  "PageTable \<Rightarrow> entry \<Rightarrow> nat \<Rightarrow> nat \<Rightarrow> nat \<Rightarrow> MapAction \<Rightarrow> bool \<Rightarrow> PageTable \<times> nat kres" where
  "insert_base_mappings t e2 vbase pbase psize rights ins =
     insert_at 3 t (eaddr e2) (pt_index vbase) vbase pbase psize rights ins"

text \<open>
  \<open>map_generic\<close> up to the tail call that each insertion loop ends with: \<open>map_prefix\<close> maps a first
  part of the region and returns its size.  It is the PD half of the function below a PDPT entry,
  and the PDPT half above it.
\<close>

definition map_in_pd ::
  "PageTable \<Rightarrow> entry \<Rightarrow> nat \<Rightarrow> nat \<Rightarrow> nat \<Rightarrow> MapAction \<Rightarrow> bool \<Rightarrow> PageTable \<times> nat kres" where
  "map_in_pd t e3 vbase pbase psize rights ins =
     (case get_table t e3 of
        Ok pd \<Rightarrow>
          (let e2 = pd (pd_index vbase) in
           and_then (can_map_as_large_page t e3 pbase psize vbase) (\<lambda>t1 large.
             if large then insert_large_mappings t1 e3 vbase pbase psize rights ins
             else and_then
               (if \<not> is_present e2
                then and_then (new_table t1) (\<lambda>t2 e. (set_entry t2 (eaddr e3) (pd_index vbase) e, Ok ()))
                else (t1, Ok ()))
               (\<lambda>t2 _. let e2' = pmem t2 (eaddr e3) (pd_index vbase) in
                  if \<not> is_present e2' then (t2, Panic)
                  else if is_page e2' then (t2, if ins then Panic else Err (AlreadyMapped vbase))
                  else insert_base_mappings t2 e2' vbase pbase psize rights ins)))
      | _ \<Rightarrow> (t, Panic))"

definition map_prefix ::
  "PageTable \<Rightarrow> nat \<Rightarrow> nat \<Rightarrow> nat \<Rightarrow> MapAction \<Rightarrow> bool \<Rightarrow> PageTable \<times> nat kres" where
  "map_prefix t vbase pbase psize rights ins =
     (if pbase mod BASE_PAGE_SIZE \<noteq> 0 \<or> vbase mod BASE_PAGE_SIZE \<noteq> 0 \<or> psize mod BASE_PAGE_SIZE \<noteq> 0
      then (t, Panic)
      else and_then (get_or_alloc_pdpt t vbase) (\<lambda>t1 pdpt.
        let e3 = pdpt (pdpt_index vbase); e4 = pml4_entry t1 (pml4_index vbase) in
        and_then (can_map_as_huge_page t1 e4 pbase psize vbase) (\<lambda>t2 huge.
          if huge then insert_huge_mappings t2 (pdpt_index vbase) vbase pbase psize rights ins
          else and_then
            (if \<not> is_present e3
             then and_then (new_table t2) (\<lambda>t3 e. (set_entry t3 (eaddr e4) (pdpt_index vbase) e, Ok ()))
             else (t2, Ok ()))
            (\<lambda>t3 _. let e3' = pmem t3 (eaddr e4) (pdpt_index vbase) in
               if \<not> is_present e3' then (t3, Panic)
               else if is_page e3' then (t3, if ins then Panic else Err (AlreadyMapped vbase))
               else map_in_pd t3 e3' vbase pbase psize rights ins))))"

subsection \<open>Progress of the loops\<close>

lemma insert_entries_progress:
  assumes "insert_entries d vbase pbase psize rights ins t idx mapped = (t', Ok m)"
  shows "mapped \<le> m \<and> m \<le> psize
    \<and> (mapped < psize \<and> loop_needs d \<le> psize - mapped \<and> idx < PAGE_SIZE_ENTRIES \<longrightarrow> mapped + entry_size d \<le> m)"
  using assms
proof (induction d vbase pbase psize rights ins t idx mapped rule: insert_entries.induct)
  case (1 d vbase pbase psize rights ins t idx mapped)
  from "1.prems" [unfolded insert_entries.simps [of d vbase pbase psize rights ins t idx mapped]] "1.IH"
  show ?case by (auto split: if_splits)
qed

lemma insert_at_progress:
  assumes "insert_at d t a idx vbase pbase psize rights ins = (t', Ok m)"
  shows "m \<le> psize \<and> (idx < PAGE_SIZE_ENTRIES \<and> 0 < psize \<and> loop_needs d \<le> psize \<longrightarrow> 0 < m)"
proof -
  obtain tbl where "insert_entries d vbase pbase psize rights ins (pmem t a) idx 0 = (tbl, Ok m)"
    using assms by (auto simp: insert_at_def split: if_splits prod.splits)
  from insert_entries_progress [OF this] show ?thesis by (auto simp: entry_size_def split: if_splits)
qed

lemma index_bounds [simp]:
  "pml4_index v < 512" "pdpt_index v < 512" "pd_index v < 512" "pt_index v < 512"
  by (simp_all add: pml4_index_def pdpt_index_def pd_index_def pt_index_def)

lemma can_map_as_large_page_size:
  "can_map_as_large_page t e pbase psize vbase = (t', Ok True) \<Longrightarrow> LARGE_PAGE_SIZE \<le> psize"
  by (auto simp: can_map_as_large_page_def Let_def split: result.splits if_splits)

lemma can_map_as_huge_page_size:
  "can_map_as_huge_page t e pbase psize vbase = (t', Ok True) \<Longrightarrow> HUGE_PAGE_SIZE \<le> psize"
  by (auto simp: can_map_as_huge_page_def Let_def split: result.splits if_splits)

lemma map_in_pd_progress:
  assumes "map_in_pd t e3 vbase pbase psize rights ins = (t', Ok m)"
  shows "m \<le> psize \<and> (0 < psize \<longrightarrow> 0 < m)"
proof -
  obtain t1 large where 1: "can_map_as_large_page t e3 pbase psize vbase = (t1, Ok large)"
    using assms by (auto simp: map_in_pd_def and_then_Ok Let_def split: result.splits)
  show ?thesis
  proof (cases large)
    case True
    then have "insert_at 2 t1 (eaddr e3) (pd_index vbase) vbase pbase psize rights ins = (t', Ok m)"
      using assms 1 by (auto simp: map_in_pd_def insert_large_mappings_def Let_def split: result.splits)
    from insert_at_progress [OF this] can_map_as_large_page_size [of t e3 pbase psize vbase t1] 1 True
    show ?thesis by (simp add: loop_needs_def)
  next
    case False
    then obtain t2 a where "insert_at 3 t2 a (pt_index vbase) vbase pbase psize rights ins = (t', Ok m)"
      using assms 1
      by (auto simp: map_in_pd_def insert_base_mappings_def Let_def and_then_Ok split: result.splits if_splits)
    from insert_at_progress [OF this] show ?thesis by (simp add: loop_needs_def)
  qed
qed

lemma map_prefix_progress:
  assumes "map_prefix t vbase pbase psize rights ins = (t', Ok m)"
  shows "m \<le> psize \<and> (0 < psize \<longrightarrow> 0 < m)"
proof -
  obtain t1 pdpt where 1: "get_or_alloc_pdpt t vbase = (t1, Ok pdpt)"
    using assms by (auto simp: map_prefix_def and_then_Ok split: if_splits)
  then obtain t2 huge where 2: "can_map_as_huge_page t1 (pml4_entry t1 (pml4_index vbase)) pbase psize vbase
      = (t2, Ok huge)"
    using assms by (auto simp: map_prefix_def and_then_Ok Let_def split: if_splits)
  show ?thesis
  proof (cases huge)
    case True
    then obtain t3 a where "insert_at 1 t3 a (pdpt_index vbase) vbase pbase psize rights ins = (t', Ok m)"
      using assms 1 2
      by (auto simp: map_prefix_def insert_huge_mappings_def and_then_Ok Let_def split: if_splits)
    from insert_at_progress [OF this]
      can_map_as_huge_page_size [of t1 "pml4_entry t1 (pml4_index vbase)" pbase psize vbase t2] 2 True
    show ?thesis by (simp add: loop_needs_def)
  next
    case False
    then obtain t3 e where "map_in_pd t3 e vbase pbase psize rights ins = (t', Ok m)"
      using assms 1 2 by (auto simp: map_prefix_def and_then_Ok Let_def split: if_splits)
    then show ?thesis by (rule map_in_pd_progress)
  qed
qed

text \<open>Each tail call is about a strictly smaller region, so the recursion ends.\<close>

function map_generic ::
  "PageTable \<Rightarrow> nat \<Rightarrow> nat \<Rightarrow> nat \<Rightarrow> MapAction \<Rightarrow> bool \<Rightarrow> PageTable \<times> unit kres" where
  "map_generic t vbase pbase psize rights ins =
     (case map_prefix t vbase pbase psize rights ins of
        (t', Ok mapped) \<Rightarrow>
          if mapped = psize then (t', Ok ())
          else map_generic t' (vbase + mapped) (pbase + mapped) (psize - mapped) rights ins
      | (t', Err e) \<Rightarrow> (t', Err e)
      | (t', Panic) \<Rightarrow> (t', Panic))"
  by pat_completeness auto
termination
proof (relation "measure (\<lambda>(t, v, p, n, r, b). n)")
  fix t vbase pbase psize rights ins t' x m
  assume "(t', x) = map_prefix t vbase pbase psize rights ins" "x = Ok m" "m \<noteq> psize"
  then have "m \<le> psize \<and> (0 < psize \<longrightarrow> 0 < m)" using map_prefix_progress [of t vbase pbase psize rights ins t' m] by simp
  then show "((t', vbase + m, pbase + m, psize - m, rights, ins), t, vbase, pbase, psize, rights, ins)
      \<in> measure (\<lambda>(t, v, p, n, r, b). n)"
    using \<open>m \<noteq> psize\<close> by auto
qed simp

declare map_generic.simps [simp del]

text \<open>\<open>PageTable::map_frame\<close>; the debug assertions panic.\<close>

definition pt_map_frame :: "PageTable \<Rightarrow> nat \<Rightarrow> Frame \<Rightarrow> MapAction \<Rightarrow> PageTable \<times> unit kres" where
  "pt_map_frame t base f action =
     (if \<not> 0 < fsize f \<or> fbase f mod fsize f \<noteq> 0 \<or> base mod fsize f \<noteq> 0 then (t, Panic)
      else map_generic t base (fbase f) (fsize f) action True)"

definition map_identity_with_offset ::
  "PageTable \<Rightarrow> nat \<Rightarrow> nat \<Rightarrow> nat \<Rightarrow> MapAction \<Rightarrow> PageTable \<times> unit kres" where
  "map_identity_with_offset t at_offset pbase sz rights =
     (if at_offset mod BASE_PAGE_SIZE \<noteq> 0 \<or> pbase mod BASE_PAGE_SIZE \<noteq> 0 \<or> sz mod BASE_PAGE_SIZE \<noteq> 0
      then (t, Panic)
      else map_generic t (at_offset + pbase) pbase sz rights True)"

definition map_identity :: "PageTable \<Rightarrow> nat \<Rightarrow> nat \<Rightarrow> MapAction \<Rightarrow> PageTable \<times> unit kres" where
  "map_identity t base sz rights = map_identity_with_offset t 0 base sz rights"

section \<open>Changing and removing mappings\<close>

datatype PtModify = UpdateRights MapAction | Unmap

definition modified :: "nat \<Rightarrow> entry \<Rightarrow> PtModify \<Rightarrow> entry" where
  "modified d e action = (case action of
       Unmap \<Rightarrow> empty_entry
     | UpdateRights r \<Rightarrow> \<lparr>eaddr = eaddr e, eflags = page_flags d r\<rparr>)"

definition modify_generic :: "PageTable \<Rightarrow> nat \<Rightarrow> PtModify \<Rightarrow> PageTable \<times> (nat \<times> nat \<times> nat \<times> MapAction) kres" where
  "modify_generic t addr action =
     (let e4 = pml4_entry t (pml4_index addr) in
      if \<not> is_present e4 then (t, Err NotMapped) else
      case get_table t e4 of
        Ok pdpt \<Rightarrow>
          (let e3 = pdpt (pdpt_index addr) in
           if \<not> is_present e3 then (t, Err NotMapped)
           else if is_page e3 then
             (set_entry t (eaddr e4) (pdpt_index addr) (modified 1 e3 action),
              Ok (addr - addr mod HUGE_PAGE_SIZE, eaddr e3, HUGE_PAGE_SIZE, MapAction_from_PDPTFlags (eflags e3)))
           else case get_table t e3 of
             Ok pd \<Rightarrow>
               (let e2 = pd (pd_index addr) in
                if \<not> is_present e2 then (t, Err NotMapped)
                else if is_page e2 then
                  (set_entry t (eaddr e3) (pd_index addr) (modified 2 e2 action),
                   Ok (addr - addr mod LARGE_PAGE_SIZE, eaddr e2, LARGE_PAGE_SIZE, MapAction_from_PDFlags (eflags e2)))
                else case get_table t e2 of
                  Ok pt \<Rightarrow>
                    (let e1 = pt (pt_index addr) in
                     if \<not> is_present e1 then (t, Err NotMapped)
                     else
                       (set_entry t (eaddr e2) (pt_index addr) (modified 3 e1 action),
                        Ok (addr - addr mod BASE_PAGE_SIZE, eaddr e1, BASE_PAGE_SIZE,
                            MapAction_from_PTFlags (eflags e1))))
                | _ \<Rightarrow> (t, Panic))
           | _ \<Rightarrow> (t, Panic))
      | _ \<Rightarrow> (t, Panic))"

definition pt_adjust :: "PageTable \<Rightarrow> nat \<Rightarrow> MapAction \<Rightarrow> PageTable \<times> (nat \<times> nat) kres" where
  "pt_adjust t vaddr rights =
     (if vaddr mod BASE_PAGE_SIZE \<noteq> 0 then (t, Err InvalidBase)
      else and_then (modify_generic t vaddr (UpdateRights rights)) (\<lambda>t' (v, p, sz, old). (t', Ok (v, sz))))"

definition pt_unmap :: "PageTable \<Rightarrow> nat \<Rightarrow> PageTable \<times> TlbFlushHandle kres" where
  "pt_unmap t base =
     (if base mod BASE_PAGE_SIZE \<noteq> 0 then (t, Err InvalidBase)
      else and_then (modify_generic t base Unmap) (\<lambda>t' (v, p, sz, r).
        (t', map_result (TlbFlushHandle_new v) (Frame_new p sz 0))))"

section \<open>Dropping a page table\<close>

text \<open>
  \<open>PageTable::drop\<close> walks the tables below the kernel half and returns their frames to the
  allocator; the result is the list of the frames in the order they are freed.
\<close>

primrec collect :: "(nat \<Rightarrow> nat list kres) \<Rightarrow> nat list \<Rightarrow> nat list kres" where
  "collect f [] = Ok []"
| "collect f (i # is) = bind_result (f i) (\<lambda>xs. map_result (\<lambda>ys. xs @ ys) (collect f is))"

definition free_pd_slot :: "PageTable \<Rightarrow> entry \<Rightarrow> nat \<Rightarrow> nat list kres" where
  "free_pd_slot t e3 i =
     bind_result (get_table t e3) (\<lambda>pd.
       if is_present (pd i) \<and> \<not> is_page (pd i)
       then bind_result (get_table t (pd i)) (\<lambda>_. Ok [eaddr (pd i)])
       else Ok [])"

definition free_pdpt_slot :: "PageTable \<Rightarrow> entry \<Rightarrow> nat \<Rightarrow> nat list kres" where
  "free_pdpt_slot t e4 i =
     bind_result (get_table t e4) (\<lambda>pdpt.
       if is_present (pdpt i) \<and> \<not> is_page (pdpt i)
       then map_result (\<lambda>xs. xs @ [eaddr (pdpt i)]) (collect (free_pd_slot t (pdpt i)) [0..<PAGE_SIZE_ENTRIES])
       else Ok [])"

definition free_pml4_slot :: "PageTable \<Rightarrow> nat \<Rightarrow> nat list kres" where
  "free_pml4_slot t i =
     (let e = pml4_entry t i in
      if i < pml4_index KERNEL_BASE \<and> is_present e
      then map_result (\<lambda>xs. xs @ [eaddr e]) (collect (free_pdpt_slot t e) [0..<PAGE_SIZE_ENTRIES])
      else Ok [])"

definition pt_drop :: "PageTable \<Rightarrow> PageTable \<times> nat list kres" where
  "pt_drop t =
     (t\<lparr>pmem := (pmem t)(pml4 t := (\<lambda>i. if i < pml4_index KERNEL_BASE \<and> is_present (pml4_entry t i)
        then empty_entry else pml4_entry t i))\<rparr>,
      collect (free_pml4_slot t) [0..<PAGE_SIZE_ENTRIES])"

end
