(* ===== verification/PageWalk.thy ===== *)
theory PageWalk
  imports PageTables
begin

text \<open>
  The tree that a page table forms in memory.  \<open>tab t d n\<close> is the physical address of the table
  of depth \<open>d\<close> that covers the \<open>n\<close>-th stretch of virtual addresses of its size, and
  \<open>leaf t d n\<close> the page entry number \<open>n\<close> of depth \<open>d\<close>.  The invariant says that tables do
  not alias: each one hangs in one place of the tree and none is a frame the allocator still has.
  On it rests that writing one entry changes one mapping and nothing else.
\<close>

section \<open>Tables and pages by number\<close>

definition next_table :: "nat \<Rightarrow> entry \<Rightarrow> nat option" where
  "next_table d e = (if d < 3 \<and> is_present e \<and> (d = 0 \<or> \<not> is_page e) then Some (eaddr e) else None)"

definition page_entry :: "nat \<Rightarrow> entry \<Rightarrow> entry option" where
  "page_entry d e = (if is_present e \<and> (d = 3 \<or> (d = 1 \<or> d = 2) \<and> is_page e) then Some e else None)"

fun tab :: "PageTable \<Rightarrow> nat \<Rightarrow> nat \<Rightarrow> nat option" where
  "tab t 0 n = (if n = 0 then Some (pml4 t) else None)"
| "tab t (Suc d) n = (case tab t d (n div 512) of None \<Rightarrow> None | Some a \<Rightarrow> next_table d (pmem t a (n mod 512)))"

declare tab.simps(2) [simp del]

lemmas tab_Suc = tab.simps(2)

definition leaf :: "PageTable \<Rightarrow> nat \<Rightarrow> nat \<Rightarrow> entry option" where
  "leaf t d n = (case tab t d (n div 512) of None \<Rightarrow> None | Some a \<Rightarrow> page_entry d (pmem t a (n mod 512)))"

definition find_page :: "PageTable \<Rightarrow> nat \<Rightarrow> (nat \<times> entry) option" where
  "find_page t v = (case leaf t 1 (v div HUGE_PAGE_SIZE) of
       Some e \<Rightarrow> Some (1, e)
     | None \<Rightarrow> (case leaf t 2 (v div LARGE_PAGE_SIZE) of
         Some e \<Rightarrow> Some (2, e)
       | None \<Rightarrow> (case leaf t 3 (v div BASE_PAGE_SIZE) of
           Some e \<Rightarrow> Some (3, e)
         | None \<Rightarrow> None)))"

abbreviation VADDR_LIMIT :: nat where "VADDR_LIMIT \<equiv> 281474976710656"

definition tables_ok :: "PageTable \<Rightarrow> bool" where
  "tables_ok t \<longleftrightarrow>
     (\<forall>d n a. d \<le> 3 \<and> tab t d n = Some a \<longrightarrow> a \<noteq> 0 \<and> a mod BASE_PAGE_SIZE = 0 \<and> a \<notin> set (da t))"

definition tables_apart :: "PageTable \<Rightarrow> bool" where
  "tables_apart t \<longleftrightarrow>
     (\<forall>d n d' n' a. d \<le> 3 \<and> d' \<le> 3 \<and> tab t d n = Some a \<and> tab t d' n' = Some a \<longrightarrow> d = d' \<and> n = n')"

definition pages_aligned :: "PageTable \<Rightarrow> bool" where
  "pages_aligned t \<longleftrightarrow> (\<forall>d n e. d \<le> 3 \<and> leaf t d n = Some e \<longrightarrow> eaddr e mod entry_size d = 0)"

definition frames_ok :: "PageTable \<Rightarrow> bool" where
  "frames_ok t \<longleftrightarrow> distinct (da t) \<and> (\<forall>a \<in> set (da t). a \<noteq> 0 \<and> a mod BASE_PAGE_SIZE = 0)"

definition pt_inv :: "PageTable \<Rightarrow> bool" where
  "pt_inv t \<longleftrightarrow> tables_ok t \<and> tables_apart t \<and> pages_aligned t \<and> frames_ok t"

lemma tables_okI:
  "(\<And>d n a. \<lbrakk>d \<le> 3; tab t d n = Some a\<rbrakk> \<Longrightarrow> a \<noteq> 0 \<and> a mod BASE_PAGE_SIZE = 0 \<and> a \<notin> set (da t)) \<Longrightarrow> tables_ok t"
  unfolding tables_ok_def by blast

lemma pages_alignedI:
  "(\<And>d n e. \<lbrakk>d \<le> 3; leaf t d n = Some e\<rbrakk> \<Longrightarrow> eaddr e mod entry_size d = 0) \<Longrightarrow> pages_aligned t"
  unfolding pages_aligned_def by blast

lemma pt_inv_tables:
  "\<lbrakk>pt_inv t; tab t d n = Some a; d \<le> 3\<rbrakk> \<Longrightarrow> a \<noteq> 0 \<and> a mod BASE_PAGE_SIZE = 0 \<and> a \<notin> set (da t)"
  unfolding pt_inv_def tables_ok_def by blast

lemma pt_inv_apart:
  "\<lbrakk>pt_inv t; tab t d n = Some a; tab t d' n' = Some a; d \<le> 3; d' \<le> 3\<rbrakk> \<Longrightarrow> d = d' \<and> n = n'"
  unfolding pt_inv_def tables_apart_def by blast

lemma pt_inv_aligned: "\<lbrakk>pt_inv t; leaf t d n = Some e; d \<le> 3\<rbrakk> \<Longrightarrow> eaddr e mod entry_size d = 0"
  unfolding pt_inv_def pages_aligned_def by blast

lemma pt_inv_frames: "pt_inv t \<Longrightarrow> frames_ok t"
  unfolding pt_inv_def by blast

lemma entry_simps [simp]:
  "\<not> is_present empty_entry" "is_present (link_entry a)" "\<not> is_page (link_entry a)" "eaddr (link_entry a) = a"
  "next_table d empty_entry = None" "page_entry d empty_entry = None"
  by (simp_all add: empty_entry_def link_entry_def is_present_def is_page_def next_table_def page_entry_def)

lemma next_table_Some: "next_table d e = Some a \<longleftrightarrow> d < 3 \<and> is_present e \<and> (d = 0 \<or> \<not> is_page e) \<and> a = eaddr e"
  by (auto simp: next_table_def)

lemma page_entry_Some: "page_entry d e = Some e' \<longleftrightarrow> is_present e \<and> (d = 3 \<or> (d = 1 \<or> d = 2) \<and> is_page e) \<and> e' = e"
  by (auto simp: page_entry_def)

lemma page_flags_page:
  "is_present \<lparr>eaddr = a, eflags = page_flags d r\<rparr>"
  "1 \<le> d \<Longrightarrow> d < 3 \<Longrightarrow> is_page \<lparr>eaddr = a, eflags = page_flags d r\<rparr>"
  by (auto simp: is_present_def is_page_def page_flags_def)

lemma page_entry_new [simp]:
  "1 \<le> d \<Longrightarrow> d \<le> 3 \<Longrightarrow> page_entry d \<lparr>eaddr = a, eflags = page_flags d r\<rparr> = Some \<lparr>eaddr = a, eflags = page_flags d r\<rparr>"
  using page_flags_page(1) [of a d r] page_flags_page(2) [of d a r] by (cases "d = 3") (auto simp: page_entry_Some)

lemma next_table_new [simp]: "1 \<le> d \<Longrightarrow> next_table d \<lparr>eaddr = a, eflags = page_flags d r\<rparr> = None"
  using page_flags_page(2) [of d a r] by (auto simp: next_table_def)

lemma page_rights_new [simp]: "page_rights d (page_flags d r) = granted r"
  by (simp add: page_rights_def page_flags_def)

text \<open>A page entry is not a link to a table.\<close>

lemma leaf_no_table:
  assumes "leaf t d n = Some e"
  shows "tab t (Suc d) n = None"
proof -
  obtain a where a: "tab t d (n div 512) = Some a" "page_entry d (pmem t a (n mod 512)) = Some e"
    using assms by (auto simp: leaf_def split: option.splits)
  then have "next_table d (pmem t a (n mod 512)) = None" by (auto simp: page_entry_Some next_table_def)
  then show ?thesis by (simp add: a(1) tab_Suc)
qed

section \<open>Replacing the content of one table\<close>

definition with_table :: "PageTable \<Rightarrow> nat \<Rightarrow> table \<Rightarrow> PageTable" where
  "with_table t a tbl = t\<lparr>pmem := (pmem t)(a := tbl)\<rparr>"

lemma set_entry_with_table: "set_entry t a i e = with_table t a ((pmem t a)(i := e))"
  by (simp add: set_entry_def with_table_def)

lemma with_table_simps [simp]:
  "pml4 (with_table t a tbl) = pml4 t" "da (with_table t a tbl) = da t"
  "pmem (with_table t a tbl) b = (if b = a then tbl else pmem t b)"
  by (simp_all add: with_table_def)

lemma tab_with_table:
  assumes "pt_inv t" and "tab t d n = Some a" and "d \<le> 3"
    and same: "\<And>i. i < 512 \<Longrightarrow> next_table d (tbl i) = next_table d (pmem t a i)"
    and "d' \<le> 3"
  shows "tab (with_table t a tbl) d' m = tab t d' m"
  using \<open>d' \<le> 3\<close>
proof (induction d' arbitrary: m)
  case (Suc k)
  then have IH: "tab (with_table t a tbl) k (m div 512) = tab t k (m div 512)" by simp
  show ?case
  proof (cases "tab t k (m div 512)")
    case (Some b)
    have "next_table k (tbl (m mod 512)) = next_table k (pmem t a (m mod 512))" if "b = a"
      using pt_inv_apart [OF assms(1) assms(2), of k "m div 512"] Some Suc.prems assms(3) same that by simp
    then show ?thesis using IH Some by (simp add: tab_Suc)
  qed (use IH in \<open>simp add: tab_Suc\<close>)
qed simp

lemma leaf_with_table:
  assumes "pt_inv t" and "tab t d n = Some a" and "d \<le> 3"
    and "\<And>i. i < 512 \<Longrightarrow> next_table d (tbl i) = next_table d (pmem t a i)"
    and "d' \<le> 3"
  shows "leaf (with_table t a tbl) d' m =
    (if d' = d \<and> m div 512 = n then page_entry d (tbl (m mod 512)) else leaf t d' m)"
proof (cases "tab t d' (m div 512)")
  case None
  then have "\<not> (d' = d \<and> m div 512 = n)" using assms(2) by auto
  then show ?thesis using None by (simp only: leaf_def tab_with_table [OF assms] option.case if_False)
next
  case (Some b)
  have "b = a \<longleftrightarrow> d' = d \<and> m div 512 = n"
    using pt_inv_apart [OF assms(1) assms(2), of d' "m div 512"] Some assms(2,3,5) by fastforce
  then show ?thesis using Some by (simp add: leaf_def tab_with_table [OF assms])
qed

lemma pt_inv_with_table:
  assumes "pt_inv t" and "tab t d n = Some a" and "d \<le> 3"
    and "\<And>i. i < 512 \<Longrightarrow> next_table d (tbl i) = next_table d (pmem t a i)"
    and "\<And>i e. i < 512 \<Longrightarrow> page_entry d (tbl i) = Some e \<Longrightarrow> eaddr e mod entry_size d = 0"
  shows "pt_inv (with_table t a tbl)"
proof -
  note tw = tab_with_table [OF assms(1-4)]
  have "tables_ok (with_table t a tbl)"
    unfolding tables_ok_def with_table_simps using pt_inv_tables [OF assms(1)] tw by metis
  moreover have "tables_apart (with_table t a tbl)"
    unfolding tables_apart_def using pt_inv_apart [OF assms(1)] tw by metis
  moreover have "pages_aligned (with_table t a tbl)"
  proof (rule pages_alignedI)
    fix d' m e assume "d' \<le> 3" "leaf (with_table t a tbl) d' m = Some e"
    then show "eaddr e mod entry_size d' = 0"
      using pt_inv_aligned [OF assms(1), of d' m e] assms(5) [of "m mod 512" e]
      by (simp add: leaf_with_table [OF assms(1-4)] split: if_splits)
  qed
  moreover have "frames_ok (with_table t a tbl)" using pt_inv_frames [OF assms(1)] by (simp add: frames_ok_def)
  ultimately show ?thesis by (simp add: pt_inv_def)
qed

section \<open>Hanging up a new table, and taking an empty one down\<close>

lemma number_split: "i < 512 \<Longrightarrow> m = n * 512 + i \<longleftrightarrow> m div 512 = n \<and> m mod 512 = (i::nat)"
  by auto

definition add_table :: "PageTable \<Rightarrow> nat \<Rightarrow> nat \<Rightarrow> PageTable" where
  "add_table t a i = (case da t of
       [] \<Rightarrow> t
     | b # bs \<Rightarrow> set_entry (t\<lparr>da := bs, pmem := (pmem t)(b := \<lambda>_. empty_entry)\<rparr>) a i (link_entry b))"

lemma add_table_simps:
  assumes "da t = b # bs"
  shows "pml4 (add_table t a i) = pml4 t" "da (add_table t a i) = bs"
    "a \<noteq> b \<Longrightarrow> pmem (add_table t a i) c =
       (if c = a then (pmem t a)(i := link_entry b) else if c = b then (\<lambda>_. empty_entry) else pmem t c)"
  using assms by (simp_all add: add_table_def set_entry_def)

lemma table_not_free: "\<lbrakk>pt_inv t; tab t d n = Some a; d \<le> 3; da t = b # bs\<rbrakk> \<Longrightarrow> a \<noteq> b"
  by (drule (2) pt_inv_tables) auto

lemma tab_add_table:
  assumes inv: "pt_inv t" and free: "da t = b # bs" and a: "tab t d n = Some a" "d < 3"
    and i: "i < 512" "\<not> is_present (pmem t a i)" and "d' \<le> 3"
  shows "tab (add_table t a i) d' m = (if d' = Suc d \<and> m = n * 512 + i then Some b else tab t d' m)"
  using \<open>d' \<le> 3\<close>
proof (induction d' arbitrary: m)
  case 0
  show ?case by (simp add: add_table_simps [OF free])
next
  case (Suc k)
  note pm = add_table_simps(3) [OF free table_not_free [OF inv a(1) _ free]]
  have none: "tab t (Suc d) (n * 512 + i) = None"
    using a i by (simp add: tab_Suc next_table_def)
  show ?case
  proof (cases "k = Suc d \<and> m div 512 = n * 512 + i")
    case True
    then have "tab t (Suc k) m = None" using none by (simp add: tab_Suc [of _ "Suc d"])
    moreover have "tab (add_table t a i) k (m div 512) = Some b" using Suc True by simp
    then have "tab (add_table t a i) (Suc k) m = None"
      using a(2) pm [of i b] table_not_free [OF inv a(1) _ free] by (simp add: tab_Suc)
    ultimately show ?thesis using True by simp
  next
    case False
    then have IH: "tab (add_table t a i) k (m div 512) = tab t k (m div 512)"
      using Suc.IH [of "m div 512"] Suc.prems by auto
    show ?thesis
    proof (cases "tab t k (m div 512)")
      case None
      then have "\<not> (Suc k = Suc d \<and> m = n * 512 + i)" using a(1) i(1) by auto
      then show ?thesis using IH None by (simp add: tab_Suc)
    next
      case (Some c)
      have ca: "c = a \<longleftrightarrow> k = d \<and> m div 512 = n"
        using pt_inv_apart [OF inv a(1), of k "m div 512"] Some a Suc.prems by fastforce
      have cb: "c \<noteq> b" using table_not_free [OF inv Some _ free] Suc.prems by simp
      show ?thesis
        using IH Some ca cb pm [of i c] a(2) i number_split [OF i(1), of m n]
        by (auto simp: tab_Suc next_table_def)
    qed
  qed
qed

lemma leaf_add_table:
  assumes inv: "pt_inv t" and free: "da t = b # bs" and a: "tab t d n = Some a" "d < 3"
    and i: "i < 512" "\<not> is_present (pmem t a i)" and "d' \<le> 3"
  shows "leaf (add_table t a i) d' m = leaf t d' m"
proof (cases "d' = Suc d \<and> m div 512 = n * 512 + i")
  case True
  have "a \<noteq> b" using table_not_free [OF inv a(1) _ free] a(2) by simp
  moreover have "tab t (Suc d) (n * 512 + i) = None" using a i by (simp add: tab_Suc next_table_def)
  moreover have "tab (add_table t a i) (Suc d) (n * 512 + i) = Some b"
    using tab_add_table [OF assms(1-6), of "Suc d" "n * 512 + i"] a(2) by simp
  ultimately show ?thesis using True by (simp add: leaf_def add_table_simps(3) [OF free])
next
  case False
  then have t: "tab (add_table t a i) d' (m div 512) = tab t d' (m div 512)"
    using tab_add_table [OF assms, of "m div 512"] by auto
  show ?thesis
  proof (cases "tab t d' (m div 512)")
    case (Some c)
    have ca: "c = a \<longleftrightarrow> d' = d \<and> m div 512 = n"
      using pt_inv_apart [OF inv a(1), of d' "m div 512"] Some a assms(7) by fastforce
    have "c \<noteq> b" "a \<noteq> b" using table_not_free [OF inv _ _ free] Some a assms(7) by fastforce+
    then show ?thesis
      using t Some ca add_table_simps(3) [OF free, of a i c] a(2) i by (auto simp: leaf_def page_entry_def)
  qed (simp add: leaf_def t)
qed

lemma pt_inv_add_table:
  assumes inv: "pt_inv t" and free: "da t = b # bs" and a: "tab t d n = Some a" "d < 3"
    and i: "i < 512" "\<not> is_present (pmem t a i)"
  shows "pt_inv (add_table t a i)"
proof -
  note ta = tab_add_table [OF assms]
  have f: "b \<notin> set bs" "b \<noteq> 0 \<and> b mod BASE_PAGE_SIZE = 0" "frames_ok (add_table t a i)"
    using pt_inv_frames [OF inv] by (auto simp: frames_ok_def free add_table_simps(2) [OF free])
  have "tables_ok (add_table t a i)"
  proof (rule tables_okI)
    fix d' m c assume "d' \<le> 3" "tab (add_table t a i) d' m = Some c"
    then show "c \<noteq> 0 \<and> c mod BASE_PAGE_SIZE = 0 \<and> c \<notin> set (da (add_table t a i))"
      using pt_inv_tables [OF inv, of d' m c] f
      by (simp only: ta add_table_simps(2) [OF free]) (auto simp: free split: if_splits)
  qed
  moreover have "tables_apart (add_table t a i)"
    unfolding tables_apart_def by (metis pt_inv_apart [OF inv] table_not_free [OF inv _ _ free] ta option.inject)
  moreover have "pages_aligned (add_table t a i)"
    by (rule pages_alignedI) (metis pt_inv_aligned [OF inv] leaf_add_table [OF assms])
  ultimately show ?thesis using f(3) by (simp add: pt_inv_def)
qed

lemma tab_drop_table:
  assumes inv: "pt_inv t" and a: "tab t d n = Some a" "d < 3"
    and i: "i < 512" "next_table d (pmem t a i) = Some b"
    and empty: "\<And>j. j < 512 \<Longrightarrow> \<not> is_present (pmem t b j)" and "d' \<le> 3"
  shows "tab (set_entry t a i empty_entry) d' m = (if d' = Suc d \<and> m = n * 512 + i then None else tab t d' m)"
  using \<open>d' \<le> 3\<close>
proof (induction d' arbitrary: m)
  case 0
  show ?case by (simp add: set_entry_with_table)
next
  case (Suc k)
  have b: "tab t (Suc d) (n * 512 + i) = Some b" using a i by (simp add: tab_Suc)
  show ?case
  proof (cases "k = Suc d \<and> m div 512 = n * 512 + i")
    case True
    then have "tab t (Suc k) m = None" using b empty by (simp add: tab_Suc [of _ "Suc d"] next_table_def)
    moreover have "tab (set_entry t a i empty_entry) k (m div 512) = None" using Suc True by simp
    ultimately show ?thesis using True by (simp add: tab_Suc)
  next
    case False
    then have IH: "tab (set_entry t a i empty_entry) k (m div 512) = tab t k (m div 512)"
      using Suc.IH [of "m div 512"] Suc.prems by auto
    show ?thesis
    proof (cases "tab t k (m div 512)")
      case None
      then have "\<not> (Suc k = Suc d \<and> m = n * 512 + i)" using a(1) i(1) by auto
      then show ?thesis using IH None by (simp add: tab_Suc)
    next
      case (Some c)
      have "c = a \<longleftrightarrow> k = d \<and> m div 512 = n"
        using pt_inv_apart [OF inv a(1), of k "m div 512"] Some a Suc.prems by fastforce
      then show ?thesis
        using IH Some i number_split [OF i(1), of m n] by (auto simp: set_entry_with_table tab_Suc)
    qed
  qed
qed

lemma leaf_drop_table:
  assumes inv: "pt_inv t" and a: "tab t d n = Some a" "d < 3"
    and i: "i < 512" "next_table d (pmem t a i) = Some b"
    and empty: "\<And>j. j < 512 \<Longrightarrow> \<not> is_present (pmem t b j)" and "d' \<le> 3"
  shows "leaf (set_entry t a i empty_entry) d' m = leaf t d' m"
proof (cases "d' = Suc d \<and> m div 512 = n * 512 + i")
  case True
  have "tab t (Suc d) (n * 512 + i) = Some b" using a i by (simp add: tab_Suc)
  moreover have "tab (set_entry t a i empty_entry) (Suc d) (n * 512 + i) = None"
    using tab_drop_table [OF assms(1-6), of "Suc d" "n * 512 + i"] a(2) by simp
  ultimately show ?thesis using True empty by (simp add: leaf_def page_entry_def)
next
  case False
  then have t: "tab (set_entry t a i empty_entry) d' (m div 512) = tab t d' (m div 512)"
    using tab_drop_table [OF assms, of "m div 512"] by auto
  show ?thesis
  proof (cases "tab t d' (m div 512)")
    case (Some c)
    have "c = a \<longleftrightarrow> d' = d \<and> m div 512 = n"
      using pt_inv_apart [OF inv a(1), of d' "m div 512"] Some a assms(7) by fastforce
    moreover have "page_entry d (pmem t a i) = None" using i(2) by (auto simp: next_table_Some page_entry_def)
    ultimately show ?thesis using t Some by (auto simp: leaf_def set_entry_with_table)
  qed (simp add: leaf_def t)
qed

lemma pt_inv_drop_table:
  assumes inv: "pt_inv t" and a: "tab t d n = Some a" "d < 3"
    and i: "i < 512" "next_table d (pmem t a i) = Some b"
    and empty: "\<And>j. j < 512 \<Longrightarrow> \<not> is_present (pmem t b j)"
  shows "pt_inv (set_entry t a i empty_entry)"
proof -
  let ?t = "set_entry t a i empty_entry"
  note td = tab_drop_table [OF assms]
  have da: "da ?t = da t" by (simp add: set_entry_with_table)
  have "tables_ok ?t"
    by (rule tables_okI) (metis pt_inv_tables [OF inv] td da option.distinct(1))
  moreover have "tables_apart ?t"
    unfolding tables_apart_def by (metis pt_inv_apart [OF inv] td option.distinct(1))
  moreover have "pages_aligned ?t"
    by (rule pages_alignedI) (metis pt_inv_aligned [OF inv] leaf_drop_table [OF assms])
  ultimately show ?thesis using pt_inv_frames [OF inv] by (simp add: pt_inv_def frames_ok_def da)
qed

section \<open>Walking to an address\<close>

lemma number_up:
  "v div HUGE_PAGE_SIZE div 512 = v div PML4_SLOT_SIZE"
  "v div LARGE_PAGE_SIZE div 512 = v div HUGE_PAGE_SIZE"
  "v div BASE_PAGE_SIZE div 512 = v div LARGE_PAGE_SIZE"
  for v :: nat
  by (simp_all only: div_mult2_eq [symmetric]) simp_all

lemma pml4_number:
  assumes "v < VADDR_LIMIT"
  shows "v div PML4_SLOT_SIZE div 512 = 0" and "pml4_index v = v div PML4_SLOT_SIZE mod 512"
    and "pml4_index v = v div PML4_SLOT_SIZE"
proof -
  have "v div PML4_SLOT_SIZE < 512" using assms by (intro less_mult_imp_div_less) simp
  then show "v div PML4_SLOT_SIZE div 512 = 0" "pml4_index v = v div PML4_SLOT_SIZE mod 512"
    "pml4_index v = v div PML4_SLOT_SIZE"
    by (simp_all add: pml4_index_def)
qed

lemma tab_numbers:
  assumes "v < VADDR_LIMIT"
  shows "tab t 1 (v div PML4_SLOT_SIZE) = next_table 0 (pml4_entry t (pml4_index v))"
    and "tab t 2 (v div HUGE_PAGE_SIZE) = (case tab t 1 (v div PML4_SLOT_SIZE) of None \<Rightarrow> None
           | Some a \<Rightarrow> next_table 1 (pmem t a (pdpt_index v)))"
    and "tab t 3 (v div LARGE_PAGE_SIZE) = (case tab t 2 (v div HUGE_PAGE_SIZE) of None \<Rightarrow> None
           | Some a \<Rightarrow> next_table 2 (pmem t a (pd_index v)))"
proof -
  show "tab t 1 (v div PML4_SLOT_SIZE) = next_table 0 (pml4_entry t (pml4_index v))"
    using pml4_number [OF assms] by (simp add: tab_Suc pml4_entry_def)
  show "tab t 2 (v div HUGE_PAGE_SIZE) = (case tab t 1 (v div PML4_SLOT_SIZE) of None \<Rightarrow> None
           | Some a \<Rightarrow> next_table 1 (pmem t a (pdpt_index v)))"
    by (simp only: tab_Suc numeral_2_eq_2 number_up pdpt_index_def One_nat_def)
  show "tab t 3 (v div LARGE_PAGE_SIZE) = (case tab t 2 (v div HUGE_PAGE_SIZE) of None \<Rightarrow> None
           | Some a \<Rightarrow> next_table 2 (pmem t a (pd_index v)))"
    by (simp only: tab_Suc [of _ 2, simplified Suc_numeral add_num_simps] numeral_3_eq_3 numeral_2_eq_2 number_up
        pd_index_def One_nat_def) (simp only: tab_Suc number_up)
qed

lemma leaf_numbers:
  "leaf t 1 (v div HUGE_PAGE_SIZE) = (case tab t 1 (v div PML4_SLOT_SIZE) of None \<Rightarrow> None
     | Some a \<Rightarrow> page_entry 1 (pmem t a (pdpt_index v)))"
  "leaf t 2 (v div LARGE_PAGE_SIZE) = (case tab t 2 (v div HUGE_PAGE_SIZE) of None \<Rightarrow> None
     | Some a \<Rightarrow> page_entry 2 (pmem t a (pd_index v)))"
  "leaf t 3 (v div BASE_PAGE_SIZE) = (case tab t 3 (v div LARGE_PAGE_SIZE) of None \<Rightarrow> None
     | Some a \<Rightarrow> page_entry 3 (pmem t a (pt_index v)))"
  by (simp_all only: leaf_def number_up pdpt_index_def pd_index_def pt_index_def)

text \<open>The five ways a walk can go, as one rule.\<close>

lemma walk_cases:
  assumes "pt_inv t" and "v < VADDR_LIMIT"
  obtains
    (unmapped) "find_page t v = None" "pt_resolve t v = Err NotMapped"
      "\<And>m. modify_generic t v m = (t, Err NotMapped)"
  | (page) d a e where "find_page t v = Some (d, e)" "1 \<le> d" "d \<le> 3" "leaf t d (v div entry_size d) = Some e"
      "tab t d (v div entry_size d div 512) = Some a" "pmem t a (v div entry_size d mod 512) = e"
      "pt_resolve t v = Ok (eaddr e + v mod entry_size d, page_rights d (eflags e))"
      "\<And>m. modify_generic t v m = (set_entry t a (v div entry_size d mod 512) (modified d e m),
          Ok (v - v mod entry_size d, eaddr e, entry_size d, page_rights d (eflags e)))"
proof -
  let ?e4 = "pml4_entry t (pml4_index v)"
  note ln = leaf_numbers [of t v] and tn = tab_numbers [OF assms(2), of t]
  have nz: "d \<le> 3 \<Longrightarrow> tab t d n = Some a \<Longrightarrow> a \<noteq> 0" for d n a using pt_inv_tables [OF assms(1)] by blast
  note defs = pt_resolve_def modify_generic_def get_table_def Let_def find_page_def
  show ?thesis
  proof (cases "is_present ?e4")
    case False
    then have "tab t 1 (v div PML4_SLOT_SIZE) = None" using tn(1) by (simp add: next_table_def)
    then show ?thesis using False ln tn(2,3) by (intro unmapped) (simp_all add: defs)
  next
    case p4: True
    then have t1: "tab t 1 (v div PML4_SLOT_SIZE) = Some (eaddr ?e4)" using tn(1) by (simp add: next_table_def)
    note n1 = nz [OF _ t1, simplified]
    define e3 where "e3 = pmem t (eaddr ?e4) (pdpt_index v)"
    have l1: "leaf t 1 (v div HUGE_PAGE_SIZE) = page_entry 1 e3"
      and t2: "tab t 2 (v div HUGE_PAGE_SIZE) = next_table 1 e3" using ln(1) tn(2) t1 by (simp_all add: e3_def)
    consider "\<not> is_present e3" | "is_present e3" "is_page e3" | "is_present e3" "\<not> is_page e3" by blast
    then show ?thesis
    proof cases
      case 1
      then have "leaf t 1 (v div HUGE_PAGE_SIZE) = None" "tab t 2 (v div HUGE_PAGE_SIZE) = None"
        using l1 t2 by (simp_all add: page_entry_def next_table_def)
      then show ?thesis using 1 p4 n1 ln(2,3) tn(3) by (intro unmapped) (simp_all add: defs e3_def)
    next
      case 2
      then have "leaf t 1 (v div HUGE_PAGE_SIZE) = Some e3" using l1 by (simp add: page_entry_def)
      then show ?thesis using 2 p4 n1 t1
        by (intro page [of 1 e3 "eaddr ?e4"])
          (simp_all add: defs e3_def entry_size_def page_rights_def number_up pdpt_index_def)
    next
      case 3
      then have l1: "leaf t 1 (v div HUGE_PAGE_SIZE) = None" and t2: "tab t 2 (v div HUGE_PAGE_SIZE) = Some (eaddr e3)"
        using l1 t2 by (simp_all add: page_entry_def next_table_def)
      note n2 = nz [OF _ t2, simplified]
      define e2 where "e2 = pmem t (eaddr e3) (pd_index v)"
      have l2: "leaf t 2 (v div LARGE_PAGE_SIZE) = page_entry 2 e2"
        and t3: "tab t 3 (v div LARGE_PAGE_SIZE) = next_table 2 e2" using ln(2) tn(3) t2 by (simp_all add: e2_def)
      consider (a) "\<not> is_present e2" | (b) "is_present e2" "is_page e2" | (c) "is_present e2" "\<not> is_page e2" by blast
      then show ?thesis
      proof cases
        case a
        then have "leaf t 2 (v div LARGE_PAGE_SIZE) = None" "tab t 3 (v div LARGE_PAGE_SIZE) = None"
          using l2 t3 by (simp_all add: page_entry_def next_table_def)
        then show ?thesis using a 3 p4 n1 n2 l1 ln(3) by (intro unmapped) (simp_all add: defs e3_def e2_def)
      next
        case b
        then have "leaf t 2 (v div LARGE_PAGE_SIZE) = Some e2" using l2 by (simp add: page_entry_def)
        then show ?thesis using b 3 p4 n1 n2 l1 t2
          by (intro page [of 2 e2 "eaddr e3"])
            (simp_all add: defs e3_def e2_def entry_size_def page_rights_def number_up pd_index_def)
      next
        case c
        then have l2: "leaf t 2 (v div LARGE_PAGE_SIZE) = None"
          and t3: "tab t 3 (v div LARGE_PAGE_SIZE) = Some (eaddr e2)"
          using l2 t3 by (simp_all add: page_entry_def next_table_def)
        note n3 = nz [OF _ t3, simplified]
        define e1 where "e1 = pmem t (eaddr e2) (pt_index v)"
        have l3: "leaf t 3 (v div BASE_PAGE_SIZE) = page_entry 3 e1" using ln(3) t3 by (simp add: e1_def)
        show ?thesis
        proof (cases "is_present e1")
          case False
          then have "leaf t 3 (v div BASE_PAGE_SIZE) = None" using l3 by (simp add: page_entry_def)
          then show ?thesis using False c 3 p4 n1 n2 n3 l1 l2
            by (intro unmapped) (simp_all add: defs e3_def e2_def e1_def)
        next
          case True
          then have "leaf t 3 (v div BASE_PAGE_SIZE) = Some e1" using l3 by (simp add: page_entry_def)
          then show ?thesis using True c 3 p4 n1 n2 n3 l1 l2 t3
            by (intro page [of 3 e1 "eaddr e2"])
              (simp_all add: defs e3_def e2_def e1_def entry_size_def page_rights_def number_up pt_index_def)
        qed
      qed
    qed
  qed
qed

lemma tab_numbers_up:
  "tab t 2 (v div HUGE_PAGE_SIZE) = (case tab t 1 (v div PML4_SLOT_SIZE) of None \<Rightarrow> None
     | Some a \<Rightarrow> next_table 1 (pmem t a (pdpt_index v)))"
  "tab t 3 (v div LARGE_PAGE_SIZE) = (case tab t 2 (v div HUGE_PAGE_SIZE) of None \<Rightarrow> None
     | Some a \<Rightarrow> next_table 2 (pmem t a (pd_index v)))"
  by (simp_all only: tab_Suc numeral_3_eq_3 numeral_2_eq_2 number_up pdpt_index_def pd_index_def One_nat_def)

lemma find_page_Some:
  "find_page t v = Some (d, e) \<longleftrightarrow> 1 \<le> d \<and> d \<le> 3 \<and> leaf t d (v div entry_size d) = Some e"
proof -
  have 1: "leaf t 2 (v div LARGE_PAGE_SIZE) = None \<and> leaf t 3 (v div BASE_PAGE_SIZE) = None"
    if "leaf t 1 (v div HUGE_PAGE_SIZE) = Some x" for x
    using leaf_no_table [OF that] leaf_numbers(2,3) [of t v] tab_numbers_up(2) [of t v]
    by (simp add: numeral_2_eq_2)
  have 2: "leaf t 3 (v div BASE_PAGE_SIZE) = None" if "leaf t 2 (v div LARGE_PAGE_SIZE) = Some x" for x
    using leaf_no_table [OF that] leaf_numbers(3) [of t v] by (simp add: numeral_3_eq_3)
  have d: "1 \<le> d \<and> d \<le> 3 \<longleftrightarrow> d = 1 \<or> d = 2 \<or> d = 3" by auto
  show ?thesis
    unfolding conj_assoc [symmetric] d using 1 2
    by (auto simp: find_page_def entry_size_def split: option.splits)
qed

lemma find_page_None:
  "find_page t v = None \<longleftrightarrow> (\<forall>d. 1 \<le> d \<and> d \<le> 3 \<longrightarrow> leaf t d (v div entry_size d) = None)"
  using find_page_Some [of t v] by (metis not_None_eq surj_pair)

lemma find_page_cong:
  assumes "\<And>d. \<lbrakk>1 \<le> d; d \<le> 3\<rbrakk> \<Longrightarrow> leaf t' d (v div entry_size d) = leaf t d (v div entry_size d)"
  shows "find_page t' v = find_page t v"
  using assms [of 1] assms [of 2] assms [of 3] by (simp add: find_page_def entry_size_def cong: option.case_cong)

lemma entry_size_pos [simp]: "0 < entry_size d"
  by (simp add: entry_size_def)

text \<open>Removing a page or changing its rights affects that page alone.\<close>

lemma modify_page:
  assumes inv: "pt_inv t" and d: "1 \<le> d" "d \<le> 3" and a: "tab t d (n div 512) = Some a"
    and e: "pmem t a (n mod 512) = e" "leaf t d n = Some e"
    and t'_def: "t' = set_entry t a (n mod 512) (modified d e m)"
  shows "pt_inv t'" and "da t' = da t"
    and "find_page t' w = (if w div entry_size d = n
           then (case m of Unmap \<Rightarrow> None | UpdateRights r \<Rightarrow> Some (d, \<lparr>eaddr = eaddr e, eflags = page_flags d r\<rparr>))
           else find_page t w)"
proof -
  let ?tbl = "(pmem t a)(n mod 512 := modified d e m)"
  have t': "t' = with_table t a ?tbl" by (simp add: t'_def set_entry_with_table)
  have p: "page_entry d e = Some e" using e a by (simp add: leaf_def)
  have nx: "next_table d (?tbl i) = next_table d (pmem t a i)" if "i < 512" for i
    using p d e(1) by (auto simp: modified_def page_entry_Some next_table_def split: PtModify.split)
      (use page_flags_page(2) [of d] in \<open>auto simp: page_entry_Some\<close>)
  have al: "eaddr e' mod entry_size d = 0" if "i < 512" "page_entry d (?tbl i) = Some e'" for i e'
  proof (cases "i = n mod 512")
    case True
    then have "eaddr e' = eaddr e" using that(2) d by (auto simp: modified_def split: PtModify.splits)
    then show ?thesis using pt_inv_aligned [OF inv e(2) d(2)] by simp
  next
    case False
    have "leaf t d (n div 512 * 512 + i) = Some e'" using that False a by (simp add: leaf_def)
    then show ?thesis by (rule pt_inv_aligned [OF inv _ d(2)])
  qed
  show "pt_inv t'" unfolding t' by (rule pt_inv_with_table [OF inv a d(2) nx al])
  show "da t' = da t" by (simp add: t')
  have lf: "leaf t' d' k = (if d' = d \<and> k = n then page_entry d (modified d e m) else leaf t d' k)" if "d' \<le> 3" for d' k
  proof -
    have l: "leaf t' d' k = (if d' = d \<and> k div 512 = n div 512 then page_entry d (?tbl (k mod 512)) else leaf t d' k)"
      unfolding t' by (rule leaf_with_table [OF inv a d(2) nx that])
    show ?thesis
    proof (cases "k = n")
      case False
      then have "\<not> (k div 512 = n div 512 \<and> k mod 512 = n mod 512)" by (metis div_mod_decomp)
      moreover have "leaf t d k = page_entry d (pmem t a (k mod 512))" if "k div 512 = n div 512"
        by (simp only: leaf_def that a option.case)
      ultimately have "leaf t' d' k = leaf t d' k" unfolding l by (metis fun_upd_other)
      then show ?thesis using False by simp
    qed (use l in simp)
  qed
  show "find_page t' w = (if w div entry_size d = n
           then (case m of Unmap \<Rightarrow> None | UpdateRights r \<Rightarrow> Some (d, \<lparr>eaddr = eaddr e, eflags = page_flags d r\<rparr>))
           else find_page t w)"
  proof (cases "w div entry_size d = n")
    case False
    have "find_page t' w = find_page t w" by (rule find_page_cong) (use False lf in auto)
    then show ?thesis using False by simp
  next
    case True
    have here: "find_page t w = Some (d, e)" using d e(2) True by (simp add: find_page_Some)
    have others: "leaf t d' (w div entry_size d') = None" if d': "1 \<le> d'" "d' \<le> 3" "d' \<noteq> d" for d'
      using here d' find_page_Some [of t w d'] by (cases "leaf t d' (w div entry_size d')") auto
    show ?thesis
    proof (cases m)
      case (UpdateRights r)
      then have "find_page t' w = Some (d, \<lparr>eaddr = eaddr e, eflags = page_flags d r\<rparr>)"
        using True d lf [OF d(2)] by (simp add: find_page_Some modified_def)
      then show ?thesis using True UpdateRights by simp
    next
      case Unmap
      then have "find_page t' w = None" using True others lf by (auto simp: find_page_None modified_def)
      then show ?thesis using True Unmap by simp
    qed
  qed
qed

end
