(* ===== verification/PageMap.thy ===== *)
theory PageMap
  imports PageWalk
begin

text \<open>
  Correctness of \<open>map_generic\<close>.  A round of it, \<open>map_prefix\<close>, creates the tables that are
  missing on the way to the first address, takes an empty table down where a larger page fits,
  and fills consecutive entries of one table.  On a region without mappings and without left-over
  tables inside, every round succeeds and adds exactly its pages, so the whole call adds exactly
  the region.
\<close>

section \<open>The insertion loop\<close>

lemma loop_goes_on:
  assumes "1 \<le> d" and "d \<le> 3" and "d = 3 \<Longrightarrow> BASE_PAGE_SIZE dvd r"
  shows "0 < r \<and> loop_needs d \<le> r \<longleftrightarrow> entry_size d \<le> r"
proof -
  have "d = 3 \<Longrightarrow> 0 < r \<Longrightarrow> BASE_PAGE_SIZE \<le> r" using assms(3) by (intro dvd_imp_le) auto
  then show ?thesis using assms(1,2) by (auto simp: loop_needs_def entry_size_def)
qed

lemma no_entries [simp]: "(\<lambda>i. if (k::nat) \<le> i \<and> i < k then f i else g i) = g"
  by (auto simp: fun_eq_iff)

lemma insert_entries_ok:
  assumes "1 \<le> d" and "d \<le> 3" and "mapped \<le> psize"
    and "d = 3 \<Longrightarrow> BASE_PAGE_SIZE dvd psize - mapped"
    and "\<And>i. \<lbrakk>idx \<le> i; i < 512; (i - idx + 1) * entry_size d \<le> psize - mapped\<rbrakk> \<Longrightarrow> \<not> is_present (t i)"
  defines "c \<equiv> min (512 - idx) ((psize - mapped) div entry_size d)"
  shows "insert_entries d vbase pbase psize rights True t idx mapped =
    ((\<lambda>i. if idx \<le> i \<and> i < idx + c
           then \<lparr>eaddr = pbase + mapped + (i - idx) * entry_size d, eflags = page_flags d rights\<rparr> else t i),
     Ok (mapped + c * entry_size d))"
  using assms(3-5) unfolding c_def
proof (induction "512 - idx" arbitrary: t idx mapped)
  case 0
  then show ?case by (subst insert_entries.simps) simp
next
  case (Suc n)
  let ?s = "entry_size d" and ?r = "psize - mapped"
  have idx: "idx < 512" "n = 512 - (idx + 1)" using Suc.hyps(2) by auto
  show ?case
  proof (cases "?s \<le> ?r")
    case False
    then have "\<not> (mapped < psize \<and> loop_needs d \<le> ?r)"
      using loop_goes_on [OF assms(1,2) Suc.prems(2)] by simp
    moreover have "?r div ?s = 0" using False by simp
    ultimately show ?thesis using Suc.prems(1) by (subst insert_entries.simps) auto
  next
    case True
    then have go: "mapped < psize \<and> loop_needs d \<le> ?r"
      using loop_goes_on [OF assms(1,2) Suc.prems(2)] by simp
    have np: "\<not> is_present (t idx)" using Suc.prems(3) [of idx] idx True by simp
    let ?t = "t(idx := \<lparr>eaddr = pbase + mapped, eflags = page_flags d rights\<rparr>)"
    let ?c = "min (512 - (idx + 1)) ((psize - (mapped + ?s)) div ?s)"
    have r: "psize - (mapped + ?s) = ?r - ?s" by simp
    have IH: "insert_entries d vbase pbase psize rights True ?t (idx + 1) (mapped + ?s) =
      ((\<lambda>i. if idx + 1 \<le> i \<and> i < idx + 1 + ?c
           then \<lparr>eaddr = pbase + (mapped + ?s) + (i - (idx + 1)) * ?s, eflags = page_flags d rights\<rparr> else ?t i),
       Ok (mapped + ?s + ?c * ?s))"
    proof (rule Suc.hyps(1) [OF idx(2)])
      show "mapped + ?s \<le> psize" using True go by linarith
      show "BASE_PAGE_SIZE dvd psize - (mapped + ?s)" if "d = 3"
        using dvd_diff_nat [OF Suc.prems(2) [OF that] dvd_refl] that by (simp add: entry_size_def)
      fix i assume "idx + 1 \<le> i" "i < 512" "(i - (idx + 1) + 1) * ?s \<le> psize - (mapped + ?s)"
      moreover from this have "(i - idx + 1) * ?s \<le> ?r" using True by (simp add: algebra_simps Suc_diff_Suc)
      ultimately show "\<not> is_present (?t i)" using Suc.prems(3) [of i] by simp
    qed
    have "?r div ?s = Suc ((?r - ?s) div ?s)" using True by (simp add: le_div_geq)
    then have c: "min (512 - idx) (?r div ?s) = Suc ?c" using idx unfolding r by simp
    have f: "(\<lambda>i. if idx + 1 \<le> i \<and> i < idx + 1 + ?c
           then \<lparr>eaddr = pbase + (mapped + ?s) + (i - (idx + 1)) * ?s, eflags = page_flags d rights\<rparr> else ?t i)
      = (\<lambda>i. if idx \<le> i \<and> i < idx + Suc ?c
           then \<lparr>eaddr = pbase + mapped + (i - idx) * ?s, eflags = page_flags d rights\<rparr> else t i)"
    proof
      fix i
      have "(i - idx) * ?s = ?s + (i - (idx + 1)) * ?s" if "idx + 1 \<le> i"
        using that by (metis Suc_diff_le Suc_eq_plus1 diff_Suc_Suc mult_Suc)
      then show "(if idx + 1 \<le> i \<and> i < idx + 1 + ?c
           then \<lparr>eaddr = pbase + (mapped + ?s) + (i - (idx + 1)) * ?s, eflags = page_flags d rights\<rparr> else ?t i)
        = (if idx \<le> i \<and> i < idx + Suc ?c
           then \<lparr>eaddr = pbase + mapped + (i - idx) * ?s, eflags = page_flags d rights\<rparr> else t i)"
        by (cases "i = idx") auto
    qed
    show ?thesis
      unfolding c f [symmetric] using go np idx(1) IH
      by (subst insert_entries.simps) simp
  qed
qed

section \<open>Filling a table of the tree\<close>

abbreviation new_page :: "nat \<Rightarrow> MapAction \<Rightarrow> nat \<Rightarrow> entry" where
  "new_page d r a \<equiv> \<lparr>eaddr = a, eflags = page_flags d r\<rparr>"

text \<open>\<open>adds t t' d r vbase pbase c\<close>: the pages of \<open>t'\<close> are those of \<open>t\<close> and \<open>c\<close> new ones.\<close>

definition adds :: "PageTable \<Rightarrow> PageTable \<Rightarrow> nat \<Rightarrow> MapAction \<Rightarrow> nat \<Rightarrow> nat \<Rightarrow> nat \<Rightarrow> bool" where
  "adds t t' d r vbase pbase c \<longleftrightarrow> (\<forall>d' m. d' \<le> 3 \<longrightarrow> leaf t' d' m =
     (if d' = d \<and> vbase div entry_size d \<le> m \<and> m < vbase div entry_size d + c
      then Some (new_page d r (pbase + (m - vbase div entry_size d) * entry_size d)) else leaf t d' m))"

lemma not_present_iff:
  "1 \<le> d \<Longrightarrow> d \<le> 3 \<Longrightarrow> \<not> is_present e \<longleftrightarrow> page_entry d e = None \<and> next_table d e = None"
  by (auto simp: page_entry_def next_table_def)

lemma slot_not_present:
  assumes "tab t d (n div 512) = Some a" and "1 \<le> d" and "d \<le> 3"
    and "leaf t d n = None" and "d < 3 \<Longrightarrow> tab t (Suc d) n = None"
  shows "\<not> is_present (pmem t a (n mod 512))"
  using assms not_present_iff [OF assms(2,3), of "pmem t a (n mod 512)"]
  by (cases "d < 3") (auto simp: leaf_def tab_Suc next_table_def)

lemma number_range:
  assumes "n mod 512 + c \<le> (512::nat)"
  shows "m div 512 = n div 512 \<and> n mod 512 \<le> m mod 512 \<and> m mod 512 < n mod 512 + c \<longleftrightarrow> n \<le> m \<and> m < n + c"
proof -
  have n: "n = 512 * (n div 512) + n mod 512" and m: "m = 512 * (m div 512) + m mod 512" "m mod 512 < 512"
    by simp_all
  consider "m div 512 = n div 512" | "m div 512 < n div 512" | "n div 512 < m div 512" by linarith
  then show ?thesis
  proof cases
    case 1
    then show ?thesis using n m by linarith
  next
    case 2
    then have "m < n" using n m by linarith
    then show ?thesis using 2 by simp
  next
    case 3
    then have "n + c \<le> m" using n m assms by linarith
    then show ?thesis using 3 by simp
  qed
qed

lemma number_diff: "m div 512 = n div 512 \<Longrightarrow> m mod 512 - n mod 512 = m - (n::nat)"
  by (metis add_diff_cancel_left mult_div_mod_eq)

lemma insert_at_ok:
  assumes inv: "pt_inv t" and d: "1 \<le> d" "d \<le> 3"
    and a: "tab t d (n div 512) = Some a" and n: "n = vbase div entry_size d"
    and al: "entry_size d dvd vbase" "entry_size d dvd pbase" "BASE_PAGE_SIZE dvd psize" "entry_size d \<le> psize"
    and free: "\<And>m. \<lbrakk>n \<le> m; (m - n + 1) * entry_size d \<le> psize\<rbrakk> \<Longrightarrow> leaf t d m = None \<and> (d < 3 \<longrightarrow> tab t (Suc d) m = None)"
  obtains c t' where "insert_at d t a (n mod 512) vbase pbase psize r True = (t', Ok (c * entry_size d))"
    "1 \<le> c" "c * entry_size d \<le> psize" "pt_inv t'" "adds t t' d r vbase pbase c"
    "\<And>d' m. d' \<le> 3 \<Longrightarrow> tab t' d' m = tab t d' m" "da t' = da t"
proof -
  let ?s = "entry_size d" and ?i = "n mod 512"
  define c where "c = min (512 - ?i) (psize div ?s)"
  define tbl where "tbl = (\<lambda>i. if ?i \<le> i \<and> i < ?i + c then new_page d r (pbase + (i - ?i) * ?s) else pmem t a i)"
  have np: "\<not> is_present (pmem t a i)" if "?i \<le> i" "i < 512" "(i - ?i + 1) * ?s \<le> psize" for i
  proof -
    let ?m = "n div 512 * 512 + i"
    have m: "?m div 512 = n div 512" "?m mod 512 = i" "n \<le> ?m" "?m - n = i - ?i"
      using that(1,2) div_mult_mod_eq [of n 512] by (simp_all, linarith+)
    have "leaf t d ?m = None \<and> (d < 3 \<longrightarrow> tab t (Suc d) ?m = None)" using free [of ?m] m that(3) by simp
    then show ?thesis using slot_not_present [of t d ?m a] a d m by simp
  qed
  have ins: "insert_entries d vbase pbase psize r True (pmem t a) ?i 0 = (tbl, Ok (c * ?s))"
    using insert_entries_ok [of d 0 psize ?i "pmem t a" vbase pbase r] d al np
    by (simp only: c_def tbl_def minus_nat.diff_0 add_0 add_0_right) simp
  have nz: "a \<noteq> 0" using pt_inv_tables [OF inv a d(2)] by simp
  let ?t = "with_table t a tbl"
  have c1: "1 \<le> c" using al(4) by (simp add: c_def div_greater_zero_iff Suc_le_eq)
  have cs: "c * ?s \<le> psize"
    by (rule order_trans [OF mult_le_mono1 div_times_less_eq_dividend]) (simp add: c_def)
  have ci: "?i + c \<le> 512" by (simp add: c_def)
  have inr: "\<not> is_present (pmem t a i)" if "?i \<le> i" "i < ?i + c" for i
  proof -
    have "(i - ?i + 1) * ?s \<le> c * ?s" using that by (intro mult_le_mono1) simp
    then show ?thesis using np [of i] that ci cs by simp
  qed
  have nx: "next_table d (tbl i) = next_table d (pmem t a i)" for i
    using inr [of i] d by (auto simp: tbl_def next_table_def [of d "pmem t a i"])
  have pal: "eaddr e mod ?s = 0" if "i < 512" "page_entry d (tbl i) = Some e" for i e
  proof (cases "?i \<le> i \<and> i < ?i + c")
    case True
    then have "eaddr e = pbase + (i - ?i) * ?s" using that(2) d by (auto simp: tbl_def)
    then show ?thesis using al(2) by (simp add: mod_0_imp_dvd)
  next
    case False
    then have "leaf t d (n div 512 * 512 + i) = Some e" using that a by (auto simp: leaf_def tbl_def)
    then show ?thesis by (rule pt_inv_aligned [OF inv _ d(2)])
  qed
  have "adds t ?t d r vbase pbase c"
    unfolding adds_def
  proof (intro allI impI)
    fix d' m assume d': "d' \<le> (3::nat)"
    note nr = number_range [OF ci, of m] and nd = number_diff [of m n]
    show "leaf ?t d' m = (if d' = d \<and> vbase div ?s \<le> m \<and> m < vbase div ?s + c
      then Some (new_page d r (pbase + (m - vbase div ?s) * ?s)) else leaf t d' m)"
    proof (cases "d' = d \<and> m div 512 = n div 512")
      case True
      then have "leaf ?t d' m = page_entry d (tbl (m mod 512))" "leaf t d' m = page_entry d (pmem t a (m mod 512))"
        using leaf_with_table [OF inv a d(2) nx d', of m] a by (auto simp: leaf_def)
      then show ?thesis using nr nd True d n by (auto simp: tbl_def)
    next
      case False
      then have "leaf ?t d' m = leaf t d' m" using leaf_with_table [OF inv a d(2) nx d', of m] by auto
      then show ?thesis using nr False n by auto
    qed
  qed
  moreover have "insert_at d t a ?i vbase pbase psize r True = (?t, Ok (c * ?s))"
    using nz by (simp add: insert_at_def ins with_table_def)
  moreover have "pt_inv ?t" by (rule pt_inv_with_table [OF inv a d(2) nx pal])
  moreover have "tab ?t d' m = tab t d' m" if "d' \<le> 3" for d' m by (rule tab_with_table [OF inv a d(2) nx that])
  ultimately show ?thesis using c1 cs by (intro that [of ?t c]) simp_all
qed

section \<open>Making room for a page\<close>

text \<open>
  \<open>grows t t' v k\<close>: \<open>t'\<close> has the pages of \<open>t\<close>, its only new tables are those on the way to
  \<open>v\<close>, and at most \<open>k\<close> frames went into them.
\<close>

definition table_number :: "nat \<Rightarrow> nat \<Rightarrow> nat" where
  "table_number d v = (if d = 1 then v div PML4_SLOT_SIZE else if d = 2 then v div HUGE_PAGE_SIZE
                       else v div LARGE_PAGE_SIZE)"

definition grows :: "PageTable \<Rightarrow> PageTable \<Rightarrow> nat \<Rightarrow> nat \<Rightarrow> bool" where
  "grows t t' v k \<longleftrightarrow> pt_inv t' \<and> (\<forall>d n. d \<le> 3 \<longrightarrow> leaf t' d n = leaf t d n)
     \<and> (\<forall>d n. d \<le> 3 \<and> tab t d n = None \<and> tab t' d n \<noteq> None \<longrightarrow> n = table_number d v)
     \<and> length (da t) \<le> length (da t') + k"

lemma growsD:
  assumes "grows t t' v k"
  shows "pt_inv t'" and "d \<le> 3 \<Longrightarrow> leaf t' d n = leaf t d n"
    and "\<lbrakk>d \<le> 3; tab t d n = None; n \<noteq> table_number d v\<rbrakk> \<Longrightarrow> tab t' d n = None"
    and "length (da t) \<le> length (da t') + k"
  using assms unfolding grows_def by blast+

lemma grows_refl: "pt_inv t \<Longrightarrow> grows t t v 0"
  by (auto simp: grows_def)

lemma grows_trans: "\<lbrakk>grows t t' v k; grows t' t'' v l\<rbrakk> \<Longrightarrow> grows t t'' v (k + l)"
  unfolding grows_def by (intro conjI) (simp, simp, metis, simp)

lemma grows_more: "grows t t' v k \<Longrightarrow> k \<le> l \<Longrightarrow> grows t t' v l"
  by (auto simp: grows_def)

text \<open>The three places that create a missing table: below the PML4, a PDPT and a PD.\<close>

definition ensure_table :: "PageTable \<Rightarrow> nat \<Rightarrow> nat \<Rightarrow> PageTable \<times> unit kres" where
  "ensure_table t a i =
     (if \<not> is_present (pmem t a i) then and_then (new_table t) (\<lambda>t' e. (set_entry t' a i e, Ok ())) else (t, Ok ()))"

lemma ensure_table_ok:
  assumes inv: "pt_inv t" and a: "tab t d (n div 512) = Some a" "d < 3" and page: "leaf t d n = None"
    and free: "da t \<noteq> []" and n: "n = table_number (Suc d) v"
  obtains t' b where "ensure_table t a (n mod 512) = (t', Ok ())" "grows t t' v 1"
    "tab t' d (n div 512) = Some a" "tab t' (Suc d) n = Some b" "next_table d (pmem t' a (n mod 512)) = Some b"
    "pml4 t' = pml4 t" "tab t' (Suc d) n = tab t (Suc d) n \<or> (\<forall>i. pmem t' b i = empty_entry)"
    "\<And>c. c \<noteq> a \<Longrightarrow> c \<noteq> b \<Longrightarrow> pmem t' c = pmem t c"
proof (cases "is_present (pmem t a (n mod 512))")
  case True
  then have "next_table d (pmem t a (n mod 512)) = Some (eaddr (pmem t a (n mod 512)))"
    using a page by (cases "d = 0") (auto simp: leaf_def page_entry_def next_table_def split: if_splits)
  then show ?thesis using True a inv grows_more [OF grows_refl [OF inv], of 1 v]
    by (intro that [of t "eaddr (pmem t a (n mod 512))"]) (simp_all add: ensure_table_def tab_Suc)
next
  case False
  obtain b bs where bs: "da t = b # bs" using free by (cases "da t") auto
  let ?i = "n mod 512" and ?t = "add_table t a (n mod 512)"
  note lems = inv bs a
  have i: "?i < 512" by simp
  have nd: "n div 512 * 512 + ?i = n" by simp
  have eq: "ensure_table t a ?i = (?t, Ok ())"
    using False by (simp add: ensure_table_def new_table_def alloc_frame_def bs add_table_def)
  have tb: "tab ?t d' m = (if d' = Suc d \<and> m = n then Some b else tab t d' m)" if "d' \<le> 3" for d' m
    using tab_add_table [OF inv bs a i False that, of m] nd by simp
  have lf: "leaf ?t d' m = leaf t d' m" if "d' \<le> 3" for d' m
    by (rule leaf_add_table [OF inv bs a i False that])
  have "pt_inv ?t" by (rule pt_inv_add_table [OF inv bs a i False])
  then have gr: "grows t ?t v 1"
    using tb lf n by (auto simp: grows_def add_table_simps(2) [OF bs] bs split: if_splits)
  have ab: "a \<noteq> b" using table_not_free [OF inv a(1) _ bs] a(2) by simp
  note pm = add_table_simps(3) [OF bs ab]
  have "next_table d (pmem ?t a ?i) = Some b" using a(2) pm by (simp add: next_table_def)
  moreover have "tab ?t d (n div 512) = Some a" "tab ?t (Suc d) n = Some b" using tb a by simp_all
  ultimately show ?thesis using eq gr pm ab
    by (intro that [of ?t b]) (simp_all add: add_table_simps(1) [OF bs])
qed

lemma split_number: "k * 512 * (q div 512) + k * (q mod 512) = k * (q::nat)"
  by (simp add: mult.assoc distrib_left [symmetric])

lemma slot_start:
  assumes "v < VADDR_LIMIT"
  shows "PML4_SLOT_SIZE * pml4_index v + HUGE_PAGE_SIZE * pdpt_index v = v - v mod HUGE_PAGE_SIZE"
    and "PML4_SLOT_SIZE * pml4_index v + HUGE_PAGE_SIZE * pdpt_index v + LARGE_PAGE_SIZE * pd_index v
      = v - v mod LARGE_PAGE_SIZE"
proof -
  have slot: "HUGE_PAGE_SIZE * 512 = PML4_SLOT_SIZE" and huge: "LARGE_PAGE_SIZE * 512 = HUGE_PAGE_SIZE" by simp_all
  have 1: "PML4_SLOT_SIZE * pml4_index v + HUGE_PAGE_SIZE * pdpt_index v = HUGE_PAGE_SIZE * (v div HUGE_PAGE_SIZE)"
    unfolding pml4_number(3) [OF assms] pdpt_index_def
    by (rule split_number [of HUGE_PAGE_SIZE "v div HUGE_PAGE_SIZE", unfolded slot number_up])
  then show "PML4_SLOT_SIZE * pml4_index v + HUGE_PAGE_SIZE * pdpt_index v = v - v mod HUGE_PAGE_SIZE"
    by (simp only: minus_mod_eq_mult_div)
  have "HUGE_PAGE_SIZE * (v div HUGE_PAGE_SIZE) + LARGE_PAGE_SIZE * pd_index v = LARGE_PAGE_SIZE * (v div LARGE_PAGE_SIZE)"
    unfolding pd_index_def by (rule split_number [of LARGE_PAGE_SIZE "v div LARGE_PAGE_SIZE", unfolded huge number_up])
  then show "PML4_SLOT_SIZE * pml4_index v + HUGE_PAGE_SIZE * pdpt_index v + LARGE_PAGE_SIZE * pd_index v
      = v - v mod LARGE_PAGE_SIZE"
    by (simp only: 1 minus_mod_eq_mult_div)
qed

lemma aligned_start: "v = v - v mod k \<longleftrightarrow> v mod k = (0::nat)"
  using mod_less_eq_dividend [of v k] by arith

lemma at_slot:
  assumes "v < VADDR_LIMIT"
  shows "v = PML4_SLOT_SIZE * pml4_index v + HUGE_PAGE_SIZE * pdpt_index v \<longleftrightarrow> v mod HUGE_PAGE_SIZE = 0"
    and "v = PML4_SLOT_SIZE * pml4_index v + HUGE_PAGE_SIZE * pdpt_index v + LARGE_PAGE_SIZE * pd_index v
      \<longleftrightarrow> v mod LARGE_PAGE_SIZE = 0"
  by (simp_all only: slot_start(2) [OF assms] aligned_start) (simp only: slot_start(1) [OF assms] aligned_start)

lemma drop_table_grows:
  assumes "pt_inv t" and "tab t d (n div 512) = Some a" and "d < 3"
    and "next_table d (pmem t a (n mod 512)) = Some b" and "all_entries_empty (pmem t b)"
  shows "grows t (set_entry t a (n mod 512) empty_entry) v 0"
    and "tab (set_entry t a (n mod 512) empty_entry) (Suc d) n = None"
    and "tab (set_entry t a (n mod 512) empty_entry) d (n div 512) = Some a"
proof -
  have e: "\<not> is_present (pmem t b j)" if "j < 512" for j
    using assms(5) that by (auto simp: all_entries_empty_def list_all_iff)
  have i: "n mod 512 < 512" by simp
  note td = tab_drop_table [OF assms(1-3) i assms(4) e] and ld = leaf_drop_table [OF assms(1-3) i assms(4) e]
  have "pt_inv (set_entry t a (n mod 512) empty_entry)"
    by (rule pt_inv_drop_table [OF assms(1-3) i assms(4) e])
  then show "grows t (set_entry t a (n mod 512) empty_entry) v 0"
    using td ld by (auto simp: grows_def set_entry_def split: if_splits)
  show "tab (set_entry t a (n mod 512) empty_entry) (Suc d) n = None" using td [of "Suc d" n] assms(3) by simp
  show "tab (set_entry t a (n mod 512) empty_entry) d (n div 512) = Some a" using td assms(2,3) by simp
qed

text \<open>A region of virtual addresses that nothing is mapped in.\<close>

definition unmapped :: "PageTable \<Rightarrow> nat \<Rightarrow> nat \<Rightarrow> bool" where
  "unmapped t vbase psize \<longleftrightarrow> (\<forall>v. vbase \<le> v \<and> v < vbase + psize \<longrightarrow> find_page t v = None)"

lemma unmapped_leaf:
  assumes "unmapped t vbase psize" and "1 \<le> d" and "d \<le> 3"
    and "vbase \<le> m * entry_size d" and "m * entry_size d < vbase + psize"
  shows "leaf t d m = None"
  using assms unfolding unmapped_def find_page_None
  by (metis entry_size_pos nonzero_mult_div_cancel_right less_irrefl)

lemma unmapped_first:
  assumes "unmapped t vbase psize" and "0 < psize" and "1 \<le> d" and "d \<le> 3"
  shows "leaf t d (vbase div entry_size d) = None"
proof -
  have "find_page t vbase = None" using assms(1,2) by (simp add: unmapped_def)
  then show ?thesis using assms(3,4) by (simp add: find_page_None)
qed

lemma can_map_large:
  assumes inv: "pt_inv t" and v: "vbase < VADDR_LIMIT" and a: "tab t 2 (vbase div HUGE_PAGE_SIZE) = Some (eaddr e3)"
    and un: "unmapped t vbase psize" and pos: "0 < psize"
  obtains (fits) t' where "can_map_as_large_page t e3 pbase psize vbase = (t', Ok True)"
      "vbase mod LARGE_PAGE_SIZE = 0" "pbase mod LARGE_PAGE_SIZE = 0" "LARGE_PAGE_SIZE \<le> psize"
      "grows t t' vbase 0" "tab t' 2 (vbase div HUGE_PAGE_SIZE) = Some (eaddr e3)"
      "tab t' 3 (vbase div LARGE_PAGE_SIZE) = None"
  | (small) "can_map_as_large_page t e3 pbase psize vbase = (t, Ok False)"
      "\<not> (vbase mod LARGE_PAGE_SIZE = 0 \<and> pbase mod LARGE_PAGE_SIZE = 0 \<and> LARGE_PAGE_SIZE \<le> psize)"
proof (cases "vbase mod LARGE_PAGE_SIZE = 0 \<and> pbase mod LARGE_PAGE_SIZE = 0 \<and> LARGE_PAGE_SIZE \<le> psize")
  case False
  have "can_map_as_large_page t e3 pbase psize vbase = (t, Ok False)"
    using pt_inv_tables [OF inv a] False
    by (auto simp: can_map_as_large_page_def get_table_def Let_def at_slot [OF v])
  then show ?thesis using False by (rule small)
next
  case True
  let ?n = "vbase div LARGE_PAGE_SIZE" and ?e2 = "pmem t (eaddr e3) (pd_index vbase)"
  have n: "?n div 512 = vbase div HUGE_PAGE_SIZE" "?n mod 512 = pd_index vbase"
    by (simp_all only: number_up pd_index_def)
  have nz: "eaddr e3 \<noteq> 0" using pt_inv_tables [OF inv a] by simp
  have leaf2: "page_entry 2 ?e2 = None"
    using unmapped_first [OF un pos, of 2] a n by (simp add: leaf_def entry_size_def)
  show ?thesis
  proof (cases "is_present ?e2")
    case False
    have "can_map_as_large_page t e3 pbase psize vbase = (t, Ok True)"
      using True False nz by (simp add: can_map_as_large_page_def get_table_def Let_def at_slot [OF v])
    moreover have "tab t 3 ?n = None" using False a tab_numbers_up(2) [of t vbase] by (simp add: next_table_def)
    ultimately show ?thesis using True a grows_refl [OF inv, of vbase] by (intro fits) simp_all
  next
    case p: True
    then have nx: "next_table 2 ?e2 = Some (eaddr ?e2)" using leaf2 by (auto simp: page_entry_def next_table_def)
    then have t3: "tab t 3 ?n = Some (eaddr ?e2)" using a tab_numbers_up(2) [of t vbase] by simp
    have empty: "all_entries_empty (pmem t (eaddr ?e2))"
      unfolding all_entries_empty_def list_all_iff
    proof
      fix i assume "i \<in> set [0..<512]"
      then have i: "i < 512" by simp
      have "?n * 512 * BASE_PAGE_SIZE = vbase" using True by (simp add: mult.commute) auto
      then have "leaf t 3 (?n * 512 + i) = None"
        using True i by (intro unmapped_leaf [OF un]) (simp_all add: entry_size_def)
      then show "\<not> is_present (pmem t (eaddr ?e2) i)" using t3 i by (simp add: leaf_def page_entry_def split: if_splits)
    qed
    have nz2: "eaddr ?e2 \<noteq> 0" using pt_inv_tables [OF inv t3] by simp
    have "can_map_as_large_page t e3 pbase psize vbase
        = (set_entry t (eaddr e3) (pd_index vbase) empty_entry, Ok True)"
      using True p nz nz2 empty by (simp add: can_map_as_large_page_def get_table_def Let_def at_slot [OF v])
    moreover note drop_table_grows [where d = 2 and n = ?n and a = "eaddr e3" and b = "eaddr ?e2", unfolded n,
        OF inv a _ nx empty]
    ultimately show ?thesis using True by (intro fits) (simp_all add: numeral_3_eq_3)
  qed
qed

lemma can_map_huge:
  assumes inv: "pt_inv t" and v: "vbase < VADDR_LIMIT" and a: "tab t 1 (vbase div PML4_SLOT_SIZE) = Some (eaddr e4)"
    and un: "unmapped t vbase psize" and pos: "0 < psize"
  obtains (fits) t' where "can_map_as_huge_page t e4 pbase psize vbase = (t', Ok True)"
      "vbase mod HUGE_PAGE_SIZE = 0" "pbase mod HUGE_PAGE_SIZE = 0" "HUGE_PAGE_SIZE \<le> psize"
      "grows t t' vbase 0" "tab t' 1 (vbase div PML4_SLOT_SIZE) = Some (eaddr e4)"
      "tab t' 2 (vbase div HUGE_PAGE_SIZE) = None"
  | (small) "can_map_as_huge_page t e4 pbase psize vbase = (t, Ok False)"
proof -
  let ?n = "vbase div HUGE_PAGE_SIZE" and ?e3 = "pmem t (eaddr e4) (pdpt_index vbase)"
  have n: "?n div 512 = vbase div PML4_SLOT_SIZE" "?n mod 512 = pdpt_index vbase"
    by (simp_all only: number_up pdpt_index_def)
  have nz: "eaddr e4 \<noteq> 0" using pt_inv_tables [OF inv a] by simp
  note cd = can_map_as_huge_page_def get_table_def Let_def at_slot [OF v]
  consider (no) "\<not> (vbase mod HUGE_PAGE_SIZE = 0 \<and> pbase mod HUGE_PAGE_SIZE = 0 \<and> HUGE_PAGE_SIZE \<le> psize)"
    | (absent) "vbase mod HUGE_PAGE_SIZE = 0" "pbase mod HUGE_PAGE_SIZE = 0" "HUGE_PAGE_SIZE \<le> psize" "\<not> is_present ?e3"
    | (table) "vbase mod HUGE_PAGE_SIZE = 0" "pbase mod HUGE_PAGE_SIZE = 0" "HUGE_PAGE_SIZE \<le> psize" "is_present ?e3"
    by metis
  then show ?thesis
  proof cases
    case no
    then show ?thesis using nz by (intro small) (auto simp: cd)
  next
    case absent
    have "tab t 2 ?n = None" using absent(4) a tab_numbers_up(1) [of t vbase] by (simp add: next_table_def)
    then show ?thesis using absent nz a grows_refl [OF inv, of vbase] by (intro fits) (simp_all add: cd)
  next
    case table
    have "page_entry 1 ?e3 = None"
      using unmapped_first [OF un pos, of 1] a n by (simp add: leaf_def entry_size_def)
    then have nx: "next_table 1 ?e3 = Some (eaddr ?e3)" using table(4) by (auto simp: page_entry_def next_table_def)
    then have t2: "tab t 2 ?n = Some (eaddr ?e3)" using a tab_numbers_up(1) [of t vbase] by simp
    have nz2: "eaddr ?e3 \<noteq> 0" using pt_inv_tables [OF inv t2] by simp
    show ?thesis
    proof (cases "all_entries_empty (pmem t (eaddr ?e3))")
      case False
      then show ?thesis using table nz nz2 by (intro small) (simp add: cd)
    next
      case True
      have "can_map_as_huge_page t e4 pbase psize vbase
          = (set_entry t (eaddr e4) (pdpt_index vbase) empty_entry, Ok True)"
        using True table nz nz2 by (simp add: cd)
      moreover note drop_table_grows [where d = 1 and n = ?n and a = "eaddr e4" and b = "eaddr ?e3", unfolded n,
          OF inv a _ nx True]
      ultimately show ?thesis using table by (intro fits) (simp_all add: numeral_2_eq_2)
    qed
  qed
qed

section \<open>One round\<close>

text \<open>No table is left over in a slot that lies inside the region and past its first address.\<close>

definition clear :: "PageTable \<Rightarrow> nat \<Rightarrow> nat \<Rightarrow> bool" where
  "clear t vbase psize \<longleftrightarrow> (\<forall>d n. (d = 1 \<or> d = 2) \<and> vbase < n * entry_size d
     \<and> (n + 1) * entry_size d \<le> vbase + psize \<longrightarrow> tab t (Suc d) n = None)"

lemma clearD:
  assumes "clear t vbase psize" and "d = 1 \<or> d = 2" and "vbase < n * entry_size d"
    and "(n + 1) * entry_size d \<le> vbase + psize"
  shows "tab t (Suc d) n = None"
  by (rule assms(1) [unfolded clear_def, rule_format]) (use assms(2-) in simp)

definition made :: "PageTable \<Rightarrow> PageTable \<Rightarrow> nat \<Rightarrow> MapAction \<Rightarrow> nat \<Rightarrow> nat \<Rightarrow> nat \<Rightarrow> nat \<Rightarrow> bool" where
  "made t t' d r vbase pbase c k \<longleftrightarrow> pt_inv t' \<and> adds t t' d r vbase pbase c
     \<and> (\<forall>d n. d \<le> 3 \<and> tab t d n = None \<and> tab t' d n \<noteq> None \<longrightarrow> n = table_number d vbase)
     \<and> length (da t) \<le> length (da t') + k"

lemma made_after_grows:
  assumes "grows t t1 v k" and "made t1 t' d r v pbase c l"
  shows "made t t' d r v pbase c (k + l)"
proof -
  have "adds t t' d r v pbase c"
    using assms growsD(2) [OF assms(1)] by (simp add: made_def adds_def)
  moreover have "\<forall>d n. d \<le> 3 \<and> tab t d n = None \<and> tab t' d n \<noteq> None \<longrightarrow> n = table_number d v"
    using assms(2) growsD(3) [OF assms(1)] unfolding made_def by metis
  ultimately show ?thesis using assms growsD(4) [OF assms(1)] by (simp add: made_def)
qed

lemma unmapped_grows: "grows t t' v k \<Longrightarrow> unmapped t vbase psize \<Longrightarrow> unmapped t' vbase psize"
  unfolding unmapped_def by (metis find_page_cong growsD(2))

lemma past_number: "0 < k \<Longrightarrow> v < n * k \<Longrightarrow> n \<noteq> v div (k::nat)"
  by (metis div_times_less_eq_dividend not_less)

lemma table_number_Suc: "d = 1 \<or> d = 2 \<Longrightarrow> table_number (Suc d) v = v div entry_size d"
  by (auto simp: table_number_def entry_size_def)

lemma clear_grows:
  assumes "grows t t' vbase k" and "clear t vbase psize"
  shows "clear t' vbase psize"
  unfolding clear_def
proof (intro allI impI)
  fix d n
  assume a: "(d = 1 \<or> d = 2) \<and> vbase < n * entry_size d \<and> (n + 1) * entry_size d \<le> vbase + psize"
  then have "n \<noteq> vbase div entry_size d" by (intro past_number) simp_all
  then have "n \<noteq> table_number (Suc d) vbase" using table_number_Suc a by metis
  moreover have "tab t (Suc d) n = None" by (rule clearD [OF assms(2)]) (use a in simp_all)
  ultimately show "tab t' (Suc d) n = None" using a by (intro growsD(3) [OF assms(1)]) auto
qed

lemma slots_free:
  assumes "unmapped t vbase psize" and "clear t vbase psize" and "1 \<le> d" and "d \<le> 3" and "entry_size d dvd vbase"
    and "d < 3 \<Longrightarrow> tab t (Suc d) (vbase div entry_size d) = None"
    and m: "vbase div entry_size d \<le> m" "(m - vbase div entry_size d + 1) * entry_size d \<le> psize"
  shows "leaf t d m = None \<and> (d < 3 \<longrightarrow> tab t (Suc d) m = None)"
proof -
  let ?s = "entry_size d" and ?n = "vbase div entry_size d"
  have v: "?n * ?s = vbase" using assms(5) by simp
  have e: "(m - ?n + 1) * ?s + ?n * ?s = (m + 1) * ?s"
    unfolding distrib_right [symmetric] using m(1) by simp
  then have le: "(m + 1) * ?s \<le> vbase + psize" using m(2) v by linarith
  moreover have "m * ?s < (m + 1) * ?s" by simp
  ultimately have lt: "m * ?s < vbase + psize" by linarith
  have ge: "vbase \<le> m * ?s" using mult_le_mono1 [OF m(1), of ?s] v by simp
  have "tab t (Suc d) m = None" if "d < 3"
  proof (cases "m = ?n")
    case False
    then have "?n < m" using m(1) by simp
    then have "vbase < m * ?s" using mult_less_mono1 [of ?n m ?s] v by simp
    moreover have "d = 1 \<or> d = 2" using assms(3) that by auto
    ultimately show ?thesis using le by (intro clearD [OF assms(2)])
  qed (use assms(6) that in simp)
  then show ?thesis using unmapped_leaf [OF assms(1,3,4) ge lt] by blast
qed

lemma insert_at_made:
  assumes inv: "pt_inv t" and d: "1 \<le> d" "d \<le> 3" and a: "tab t d (vbase div entry_size d div 512) = Some a"
    and al: "entry_size d dvd vbase" "entry_size d dvd pbase" "BASE_PAGE_SIZE dvd psize" "entry_size d \<le> psize"
    and un: "unmapped t vbase psize" "clear t vbase psize"
    and tab: "d < 3 \<Longrightarrow> tab t (Suc d) (vbase div entry_size d) = None"
  obtains c t' where
    "insert_at d t a (vbase div entry_size d mod 512) vbase pbase psize r True = (t', Ok (c * entry_size d))"
    "1 \<le> c" "c * entry_size d \<le> psize" "made t t' d r vbase pbase c 0"
proof -
  obtain c t' where "insert_at d t a (vbase div entry_size d mod 512) vbase pbase psize r True = (t', Ok (c * entry_size d))"
    "1 \<le> c" "c * entry_size d \<le> psize" "pt_inv t'" "adds t t' d r vbase pbase c"
    "\<And>d' m. d' \<le> 3 \<Longrightarrow> tab t' d' m = tab t d' m" "da t' = da t"
    by (rule insert_at_ok [OF inv d a refl al slots_free [OF un d al(1) tab]], assumption+, rule that)
  then show ?thesis by (intro that) (auto simp: made_def)
qed

lemma map_in_pd_ok:
  assumes inv: "pt_inv t" and v: "vbase < VADDR_LIMIT" and a: "tab t 2 (vbase div HUGE_PAGE_SIZE) = Some (eaddr e3)"
    and al: "BASE_PAGE_SIZE dvd vbase" "BASE_PAGE_SIZE dvd pbase" "BASE_PAGE_SIZE dvd psize" "0 < psize"
    and un: "unmapped t vbase psize" "clear t vbase psize" and free: "da t \<noteq> []"
  obtains d c t' where "map_in_pd t e3 vbase pbase psize r True = (t', Ok (c * entry_size d))"
    "2 \<le> d" "d \<le> 3" "1 \<le> c" "c * entry_size d \<le> psize" "entry_size d dvd vbase" "entry_size d dvd pbase"
    "made t t' d r vbase pbase c 1"
    "d = 3 \<Longrightarrow> \<not> (LARGE_PAGE_SIZE dvd vbase \<and> LARGE_PAGE_SIZE dvd pbase \<and> LARGE_PAGE_SIZE \<le> psize)"
proof -
  have nz: "eaddr e3 \<noteq> 0" using pt_inv_tables [OF inv a] by simp
  from inv v a un(1) al(4) show ?thesis
  proof (cases rule: can_map_large [where pbase = pbase])
    case (fits t1)
    have al2: "entry_size 2 dvd vbase" "entry_size 2 dvd pbase" "entry_size 2 \<le> psize"
      using fits(2-4) by (simp_all add: entry_size_def dvd_eq_mod_eq_0)
    have idx: "vbase div entry_size 2 mod 512 = pd_index vbase" by (simp add: entry_size_def pd_index_def)
    obtain c t' where c: "insert_at 2 t1 (eaddr e3) (pd_index vbase) vbase pbase psize r True = (t', Ok (c * entry_size 2))"
      "1 \<le> c" "c * entry_size 2 \<le> psize" "made t1 t' 2 r vbase pbase c 0"
    proof (rule insert_at_made [of t1 2 vbase "eaddr e3" pbase psize r, unfolded idx])
      show "tab t1 2 (vbase div entry_size 2 div 512) = Some (eaddr e3)"
        using fits(6) by (simp add: entry_size_def number_up)
      show "tab t1 (Suc 2) (vbase div entry_size 2) = None" using fits(7) by (simp add: entry_size_def)
    qed (use al2 al(3) unmapped_grows [OF fits(5) un(1)] clear_grows [OF fits(5) un(2)] growsD(1) [OF fits(5)]
        in \<open>auto intro: that\<close>)
    have "map_in_pd t e3 vbase pbase psize r True = (t', Ok (c * entry_size 2))"
      using nz fits(1) c(1) by (simp add: map_in_pd_def get_table_def insert_large_mappings_def Let_def)
    moreover have "made t t' 2 r vbase pbase c 1"
      using made_after_grows [OF grows_more [OF fits(5), of 1] c(4)] by simp
    ultimately show ?thesis using c(2,3) al2 by (intro that [of t' c 2]) simp_all
  next
    case small
    let ?n = "vbase div LARGE_PAGE_SIZE"
    have n: "?n div 512 = vbase div HUGE_PAGE_SIZE" "?n mod 512 = pd_index vbase"
      by (simp_all only: number_up pd_index_def)
    have l2: "leaf t 2 ?n = None" using unmapped_first [OF un(1) al(4), of 2] by (simp add: entry_size_def)
    obtain t2 b where e: "ensure_table t (eaddr e3) (pd_index vbase) = (t2, Ok ())" "grows t t2 vbase 1"
      "tab t2 (Suc 2) ?n = Some b" "next_table 2 (pmem t2 (eaddr e3) (pd_index vbase)) = Some b"
      by (rule ensure_table_ok [of t 2 ?n "eaddr e3" vbase, unfolded n])
        (use inv a l2 free in \<open>auto simp: table_number_def\<close>)
    let ?e2 = "pmem t2 (eaddr e3) (pd_index vbase)"
    have e2: "is_present ?e2" "\<not> is_page ?e2" "eaddr ?e2 = b" using e(4) by (auto simp: next_table_Some)
    have al3: "entry_size 3 dvd vbase" "entry_size 3 dvd pbase" "entry_size 3 \<le> psize"
      using al dvd_imp_le [OF al(3,4)] by (simp_all add: entry_size_def)
    have idx: "vbase div entry_size 3 mod 512 = pt_index vbase" by (simp add: entry_size_def pt_index_def)
    obtain c t' where c: "insert_at 3 t2 b (pt_index vbase) vbase pbase psize r True = (t', Ok (c * entry_size 3))"
      "1 \<le> c" "c * entry_size 3 \<le> psize" "made t2 t' 3 r vbase pbase c 0"
    proof (rule insert_at_made [of t2 3 vbase b pbase psize r, unfolded idx])
      show "tab t2 3 (vbase div entry_size 3 div 512) = Some b" using e(3) by (simp add: entry_size_def number_up)
    qed (use al3 al(3) unmapped_grows [OF e(2) un(1)] clear_grows [OF e(2) un(2)] growsD(1) [OF e(2)]
        in \<open>auto intro: that\<close>)
    have "map_in_pd t e3 vbase pbase psize r True = (t', Ok (c * entry_size 3))"
      using nz small(1) e(1) e2 c(1)
      by (simp add: map_in_pd_def get_table_def insert_base_mappings_def Let_def ensure_table_def)
    moreover have "made t t' 3 r vbase pbase c 1" using made_after_grows [OF e(2) c(4)] by simp
    ultimately show ?thesis using c(2,3) al3 small(2)
      by (intro that [of t' c 3]) (simp_all add: dvd_eq_mod_eq_0)
  qed
qed

lemma get_or_alloc_pdpt_ok:
  assumes inv: "pt_inv t" and v: "vbase < VADDR_LIMIT" and free: "da t \<noteq> []"
  obtains t' where "get_or_alloc_pdpt t vbase = (t', Ok (pmem t' (eaddr (pml4_entry t' (pml4_index vbase)))))"
    "grows t t' vbase 1" "tab t' 1 (vbase div PML4_SLOT_SIZE) = Some (eaddr (pml4_entry t' (pml4_index vbase)))"
proof -
  let ?n = "vbase div PML4_SLOT_SIZE"
  have n: "?n div 512 = 0" "?n mod 512 = pml4_index vbase" using pml4_number [OF v] by simp_all
  obtain t' b where e: "ensure_table t (pml4 t) (pml4_index vbase) = (t', Ok ())" "grows t t' vbase 1"
    "tab t' (Suc 0) ?n = Some b" "next_table 0 (pmem t' (pml4 t) (pml4_index vbase)) = Some b" "pml4 t' = pml4 t"
    by (rule ensure_table_ok [of t 0 ?n "pml4 t" vbase, unfolded n])
      (use inv free in \<open>auto simp: table_number_def leaf_def page_entry_def split: option.split\<close>)
  have p: "is_present (pml4_entry t' (pml4_index vbase))" "b = eaddr (pml4_entry t' (pml4_index vbase))"
    using e(4,5) by (auto simp: next_table_Some pml4_entry_def)
  have "b \<noteq> 0" using pt_inv_tables [OF growsD(1) [OF e(2)] e(3)] by simp
  moreover have "and_then (new_table t) (\<lambda>t' e. (set_entry t' (pml4 t') (pml4_index vbase) e, Ok ()))
      = and_then (new_table t) (\<lambda>t' e. (set_entry t' (pml4 t) (pml4_index vbase) e, Ok ()))"
    using free by (cases "da t") (simp_all add: new_table_def alloc_frame_def)
  then have "(if \<not> is_present (pml4_entry t (pml4_index vbase))
      then and_then (new_table t) (\<lambda>t' e. (set_entry t' (pml4 t') (pml4_index vbase) e, Ok ())) else (t, Ok ()))
      = (t', Ok ())"
    using e(1) unfolding ensure_table_def pml4_entry_def by (simp split: if_splits)
  ultimately have "get_or_alloc_pdpt t vbase = (t', Ok (pmem t' (eaddr (pml4_entry t' (pml4_index vbase)))))"
    unfolding get_or_alloc_pdpt_def Let_def using p by (simp only: and_then_simps if_True get_table_def if_False)
  then show ?thesis using e(2,3) p(2) by (intro that) simp_all
qed

lemma get_pdpt_present:
  assumes "pt_inv t" and "vbase < VADDR_LIMIT" and "tab t 1 (vbase div PML4_SLOT_SIZE) = Some a"
  shows "get_or_alloc_pdpt t vbase = (t, Ok (pmem t a))" and "eaddr (pml4_entry t (pml4_index vbase)) = a"
proof -
  have "next_table 0 (pml4_entry t (pml4_index vbase)) = Some a" using tab_numbers(1) [OF assms(2)] assms(3) by simp
  then have "is_present (pml4_entry t (pml4_index vbase)) \<and> a = eaddr (pml4_entry t (pml4_index vbase))"
    by (auto simp: next_table_Some)
  moreover have "a \<noteq> 0" using pt_inv_tables [OF assms(1,3)] by simp
  ultimately show "get_or_alloc_pdpt t vbase = (t, Ok (pmem t a))" "eaddr (pml4_entry t (pml4_index vbase)) = a"
    by (simp_all add: get_or_alloc_pdpt_def Let_def get_table_def)
qed

lemma map_prefix_ok:
  assumes inv: "pt_inv t" and v: "vbase < VADDR_LIMIT"
    and al: "BASE_PAGE_SIZE dvd vbase" "BASE_PAGE_SIZE dvd pbase" "BASE_PAGE_SIZE dvd psize" "0 < psize"
    and un: "unmapped t vbase psize" "clear t vbase psize" and free: "3 \<le> length (da t)"
  obtains d c t' where "map_prefix t vbase pbase psize r True = (t', Ok (c * entry_size d))"
    "1 \<le> d" "d \<le> 3" "1 \<le> c" "c * entry_size d \<le> psize" "entry_size d dvd vbase" "entry_size d dvd pbase"
    "made t t' d r vbase pbase c 3"
    "d = 3 \<Longrightarrow> \<not> (LARGE_PAGE_SIZE dvd vbase \<and> LARGE_PAGE_SIZE dvd pbase \<and> LARGE_PAGE_SIZE \<le> psize)"
proof -
  have f0: "da t \<noteq> []" using free by auto
  obtain t1 where g: "get_or_alloc_pdpt t vbase = (t1, Ok (pmem t1 (eaddr (pml4_entry t1 (pml4_index vbase)))))"
    "grows t t1 vbase 1" "tab t1 1 (vbase div PML4_SLOT_SIZE) = Some (eaddr (pml4_entry t1 (pml4_index vbase)))"
    by (rule get_or_alloc_pdpt_ok [OF inv v f0], rule that)
  let ?e4 = "pml4_entry t1 (pml4_index vbase)" and ?i = "pdpt_index vbase"
  note inv1 = growsD(1) [OF g(2)] and un1 = unmapped_grows [OF g(2) un(1)] clear_grows [OF g(2) un(2)]
  have al0: "pbase mod BASE_PAGE_SIZE = 0" "vbase mod BASE_PAGE_SIZE = 0" "psize mod BASE_PAGE_SIZE = 0"
    using al by (simp_all only: dvd_eq_mod_eq_0)
  from inv1 v g(3) un1(1) al(4) show ?thesis
  proof (cases rule: can_map_huge [where pbase = pbase])
    case (fits t2)
    have al1: "entry_size 1 dvd vbase" "entry_size 1 dvd pbase" "entry_size 1 \<le> psize"
      using fits(2-4) by (simp_all add: entry_size_def dvd_eq_mod_eq_0)
    have idx: "vbase div entry_size 1 mod 512 = ?i" by (simp add: entry_size_def pdpt_index_def)
    note inv2 = growsD(1) [OF fits(5)]
    obtain c t' where c: "insert_at 1 t2 (eaddr ?e4) ?i vbase pbase psize r True = (t', Ok (c * entry_size 1))"
      "1 \<le> c" "c * entry_size 1 \<le> psize" "made t2 t' 1 r vbase pbase c 0"
    proof (rule insert_at_made [of t2 1 vbase "eaddr ?e4" pbase psize r, unfolded idx])
      show "tab t2 1 (vbase div entry_size 1 div 512) = Some (eaddr ?e4)"
        using fits(6) by (simp add: entry_size_def number_up)
      show "tab t2 (Suc 1) (vbase div entry_size 1) = None" using fits(7) by (simp add: entry_size_def numeral_2_eq_2)
    qed (use al1 al(3) unmapped_grows [OF fits(5) un1(1)] clear_grows [OF fits(5) un1(2)] inv2
        in \<open>auto intro: that\<close>)
    have "map_prefix t vbase pbase psize r True = (t', Ok (c * entry_size 1))"
      using al0 g(1) fits(1) get_pdpt_present [OF inv2 v fits(6)] c(1)
      by (simp add: map_prefix_def insert_huge_mappings_def Let_def)
    moreover have "made t t' 1 r vbase pbase c 3"
      using made_after_grows [OF grows_more [OF grows_trans [OF g(2) fits(5)], of 3] c(4)] by simp
    ultimately show ?thesis using c(2,3) al1 by (intro that [of t' c 1]) simp_all
  next
    case small
    let ?n = "vbase div HUGE_PAGE_SIZE"
    have n: "?n div 512 = vbase div PML4_SLOT_SIZE" "?n mod 512 = ?i" by (simp_all only: number_up pdpt_index_def)
    have l1: "leaf t1 1 ?n = None" using unmapped_first [OF un1(1) al(4), of 1] by (simp add: entry_size_def)
    have f1: "2 \<le> length (da t1)" using growsD(4) [OF g(2)] free by simp
    obtain t3 b where e: "ensure_table t1 (eaddr ?e4) ?i = (t3, Ok ())" "grows t1 t3 vbase 1"
      "tab t3 (Suc 1) ?n = Some b" "next_table 1 (pmem t3 (eaddr ?e4) ?i) = Some b"
      by (rule ensure_table_ok [of t1 1 ?n "eaddr ?e4" vbase, unfolded n])
        (use inv1 g(3) l1 f1 in \<open>auto simp: table_number_def numeral_2_eq_2\<close>)
    let ?e3 = "pmem t3 (eaddr ?e4) ?i"
    have e3: "is_present ?e3" "\<not> is_page ?e3" "eaddr ?e3 = b" using e(4) by (auto simp: next_table_Some)
    note inv3 = growsD(1) [OF e(2)]
    have t2: "tab t3 2 ?n = Some (eaddr ?e3)" using e(3) e3(3) by (simp add: numeral_2_eq_2)
    have f3: "da t3 \<noteq> []" using growsD(4) [OF e(2)] f1 by auto
    obtain d c t' where p: "map_in_pd t3 ?e3 vbase pbase psize r True = (t', Ok (c * entry_size d))"
      "2 \<le> d" "d \<le> 3" "1 \<le> c" "c * entry_size d \<le> psize" "entry_size d dvd vbase" "entry_size d dvd pbase"
      "made t3 t' d r vbase pbase c 1"
      "d = 3 \<Longrightarrow> \<not> (LARGE_PAGE_SIZE dvd vbase \<and> LARGE_PAGE_SIZE dvd pbase \<and> LARGE_PAGE_SIZE \<le> psize)"
      by (rule map_in_pd_ok [OF inv3 v t2 al unmapped_grows [OF e(2) un1(1)] clear_grows [OF e(2) un1(2)] f3], rule that)
    have "map_prefix t vbase pbase psize r True = (t', Ok (c * entry_size d))"
      using al0 g(1) small e(1) e3 p(1) by (simp add: map_prefix_def Let_def ensure_table_def)
    moreover have "made t t' d r vbase pbase c 3"
      using made_after_grows [OF grows_trans [OF g(2) e(2)] p(8)] by (simp add: numeral_3_eq_3)
    ultimately show ?thesis using p(2-7,9) by (intro that [of t' c d]) simp_all
  qed
qed

section \<open>The whole call\<close>

lemma resolve_find_page:
  assumes "pt_inv t" and "v < VADDR_LIMIT"
  shows "pt_resolve t v = (case find_page t v of None \<Rightarrow> Err NotMapped
     | Some (d, e) \<Rightarrow> Ok (eaddr e + v mod entry_size d, page_rights d (eflags e)))"
  using assms by (cases rule: walk_cases) simp_all

lemma in_pages:
  assumes "0 < s" and "s dvd vbase"
  shows "vbase div s \<le> v div s \<and> v div s < vbase div s + c \<longleftrightarrow> vbase \<le> v \<and> v < vbase + c * (s::nat)"
proof -
  obtain q where q: "vbase = q * s" using assms(2) by (metis dvdE mult.commute)
  have "q \<le> v div s \<longleftrightarrow> q * s \<le> v" using assms(1) by (simp add: less_eq_div_iff_mult_less_eq)
  moreover have "v div s < q + c \<longleftrightarrow> v < (q + c) * s" using assms(1) by (simp add: div_less_iff_less_mult)
  ultimately show ?thesis using q assms(1) by (simp add: distrib_right)
qed

lemma adds_find_page:
  assumes "adds t t' d r vbase pbase c" and "1 \<le> d" and "d \<le> 3" and "entry_size d dvd vbase"
  shows "find_page t' v = (if vbase \<le> v \<and> v < vbase + c * entry_size d
      then Some (d, new_page d r (pbase + (v div entry_size d - vbase div entry_size d) * entry_size d))
      else find_page t v)"
proof -
  let ?s = "entry_size d"
  note ip = in_pages [OF entry_size_pos assms(4), of v c]
  have l: "leaf t' d' m = (if d' = d \<and> vbase div ?s \<le> m \<and> m < vbase div ?s + c
      then Some (new_page d r (pbase + (m - vbase div ?s) * ?s)) else leaf t d' m)" if "d' \<le> 3" for d' m
    using assms(1) that unfolding adds_def by blast
  show ?thesis
  proof (cases "vbase \<le> v \<and> v < vbase + c * ?s")
    case True
    then have "leaf t' d (v div ?s) = Some (new_page d r (pbase + (v div ?s - vbase div ?s) * ?s))"
      using l [OF assms(3), of "v div ?s"] ip by simp
    then have "find_page t' v = Some (d, new_page d r (pbase + (v div ?s - vbase div ?s) * ?s))"
      using assms(2,3) by (simp add: find_page_Some)
    then show ?thesis using True by simp
  next
    case False
    then have "find_page t' v = find_page t v"
      by (intro find_page_cong) (use l ip in auto)
    then show ?thesis using False by auto
  qed
qed

lemma adds_resolve:
  assumes "pt_inv t" and "pt_inv t'" and "adds t t' d r vbase pbase c" and "1 \<le> d" and "d \<le> 3"
    and "entry_size d dvd vbase" and "v < VADDR_LIMIT"
  shows "pt_resolve t' v = (if vbase \<le> v \<and> v < vbase + c * entry_size d
      then Ok (pbase + (v - vbase), granted r) else pt_resolve t v)"
proof -
  let ?s = "entry_size d"
  have "(v div ?s - vbase div ?s) * ?s + v mod ?s = v - vbase" if "vbase \<le> v"
  proof -
    have "vbase div ?s * ?s = vbase" using assms(6) by simp
    then have "(v div ?s - vbase div ?s) * ?s = v div ?s * ?s - vbase" by (simp add: diff_mult_distrib)
    moreover have "vbase \<le> v div ?s * ?s"
      using \<open>vbase div ?s * ?s = vbase\<close> mult_le_mono1 [OF div_le_mono [OF that]] by metis
    moreover have "v div ?s * ?s + v mod ?s = v" by simp
    ultimately show ?thesis by linarith
  qed
  then show ?thesis
    using adds_find_page [OF assms(3-6), of v] resolve_find_page [OF assms(1,7)] resolve_find_page [OF assms(2,7)]
    by (auto simp: add.assoc)
qed

text \<open>What is left of the region after a round is again unmapped and clear.\<close>

lemma made_rest:
  assumes "made t t' d r vbase pbase c k" and d: "1 \<le> d" "d \<le> 3" and "entry_size d dvd vbase"
    and un: "unmapped t vbase psize" "clear t vbase psize" and m: "m = c * entry_size d" "m \<le> psize"
  shows "unmapped t' (vbase + m) (psize - m)" and "clear t' (vbase + m) (psize - m)"
proof -
  have "adds t t' d r vbase pbase c" using assms(1) by (simp add: made_def)
  then show "unmapped t' (vbase + m) (psize - m)"
    unfolding unmapped_def using adds_find_page [OF _ d assms(4)] un(1) m by (simp add: unmapped_def)
  show "clear t' (vbase + m) (psize - m)"
    unfolding clear_def
  proof (intro allI impI)
    fix d' n
    assume a: "(d' = 1 \<or> d' = 2) \<and> vbase + m < n * entry_size d' \<and> (n + 1) * entry_size d' \<le> vbase + m + (psize - m)"
    have "n \<noteq> vbase div entry_size d'" by (rule past_number) (use a in auto)
    then have "n \<noteq> table_number (Suc d') vbase" using table_number_Suc a by metis
    moreover have "tab t (Suc d') n = None" by (rule clearD [OF un(2)]) (use a m(2) in auto)
    moreover have "Suc d' \<le> 3" using a by auto
    ultimately show "tab t' (Suc d') n = None" using assms(1) unfolding made_def by metis
  qed
qed

lemma map_generic_ok:
  assumes "pt_inv t" and "vbase + psize \<le> VADDR_LIMIT"
    and "BASE_PAGE_SIZE dvd vbase" "BASE_PAGE_SIZE dvd pbase" "BASE_PAGE_SIZE dvd psize" "0 < psize"
    and "unmapped t vbase psize" and "clear t vbase psize" and "3 * (psize div BASE_PAGE_SIZE) \<le> length (da t)"
  shows "\<exists>t'. map_generic t vbase pbase psize r True = (t', Ok ()) \<and> pt_inv t'
     \<and> (\<forall>v < VADDR_LIMIT. pt_resolve t' v = (if vbase \<le> v \<and> v < vbase + psize
          then Ok (pbase + (v - vbase), granted r) else pt_resolve t v))"
  using assms
proof (induction psize arbitrary: t vbase pbase rule: less_induct)
  case (less psize)
  have "BASE_PAGE_SIZE \<le> psize" using dvd_imp_le [OF less.prems(5,6)] .
  then have "1 \<le> psize div BASE_PAGE_SIZE" by (simp add: div_greater_zero_iff Suc_le_eq)
  then have f: "3 \<le> length (da t)" using less.prems(9) by linarith
  have v: "vbase < VADDR_LIMIT" using less.prems(2,6) by linarith
  obtain d c t1 where p: "map_prefix t vbase pbase psize r True = (t1, Ok (c * entry_size d))"
    "1 \<le> d" "d \<le> 3" "1 \<le> c" "c * entry_size d \<le> psize" "entry_size d dvd vbase" "entry_size d dvd pbase"
    "made t t1 d r vbase pbase c 3"
    by (rule map_prefix_ok [OF less.prems(1) v less.prems(3-8) f], rule that)
  let ?m = "c * entry_size d"
  have inv1: "pt_inv t1" and ad: "adds t t1 d r vbase pbase c" using p(8) by (simp_all add: made_def)
  note res1 = adds_resolve [OF less.prems(1) inv1 ad p(2,3,6)]
  show ?case
  proof (cases "?m = psize")
    case True
    then have "map_generic t vbase pbase psize r True = (t1, Ok ())" using p(1) by (simp add: map_generic.simps)
    then show ?thesis using inv1 res1 True by simp
  next
    case False
    have bm: "BASE_PAGE_SIZE dvd ?m" by (simp add: entry_size_def)
    have m: "0 < ?m" "?m < psize" "BASE_PAGE_SIZE \<le> ?m" using p(4,5) False dvd_imp_le [OF bm] by simp_all
    have dv: "BASE_PAGE_SIZE dvd psize - ?m" using less.prems(5) bm by (rule dvd_diff_nat)
    have "(psize - ?m) div BASE_PAGE_SIZE + 1 \<le> psize div BASE_PAGE_SIZE"
    proof -
      have "(psize - ?m) div BASE_PAGE_SIZE + 1 = (psize - ?m + BASE_PAGE_SIZE) div BASE_PAGE_SIZE" by simp
      also have "\<dots> \<le> psize div BASE_PAGE_SIZE" by (rule div_le_mono) (use m in linarith)
      finally show ?thesis .
    qed
    moreover have "length (da t) \<le> length (da t1) + 3" using p(8) by (simp add: made_def)
    ultimately have f1: "3 * ((psize - ?m) div BASE_PAGE_SIZE) \<le> length (da t1)" using less.prems(9) by linarith
    have "\<exists>t'. map_generic t1 (vbase + ?m) (pbase + ?m) (psize - ?m) r True = (t', Ok ()) \<and> pt_inv t'
       \<and> (\<forall>v < VADDR_LIMIT. pt_resolve t' v = (if vbase + ?m \<le> v \<and> v < vbase + ?m + (psize - ?m)
          then Ok (pbase + ?m + (v - (vbase + ?m)), granted r) else pt_resolve t1 v))"
      by (rule less.IH [OF _ inv1 _ _ _ dv _ made_rest [OF p(8,2,3,6) less.prems(7,8) refl p(5)] f1])
        (use m less.prems(2-4) bm in auto)
    then obtain t' where t': "map_generic t1 (vbase + ?m) (pbase + ?m) (psize - ?m) r True = (t', Ok ())" "pt_inv t'"
      and res: "\<And>v. v < VADDR_LIMIT \<Longrightarrow> pt_resolve t' v = (if vbase + ?m \<le> v \<and> v < vbase + ?m + (psize - ?m)
          then Ok (pbase + ?m + (v - (vbase + ?m)), granted r) else pt_resolve t1 v)"
      by blast
    have "map_generic t vbase pbase psize r True = (t', Ok ())"
      using p(1) False t'(1) by (simp add: map_generic.simps [of t])
    moreover have "pt_resolve t' v = (if vbase \<le> v \<and> v < vbase + psize
          then Ok (pbase + (v - vbase), granted r) else pt_resolve t v)" if "v < VADDR_LIMIT" for v
      using res [OF that] res1 [OF that] m by auto
    ultimately show ?thesis using t'(2) by blast
  qed
qed

end
