(* ===== verification/PageSpec.thy ===== *)
theory PageSpec
  imports PageMap
begin

text \<open>
  What the page table promises: the mapping that \<open>resolve\<close> shows after \<open>map_generic\<close>,
  \<open>unmap\<close>, \<open>adjust\<close> and \<open>drop\<close>, and two situations in which \<open>map_generic\<close> does not do
  what its description says.
\<close>

section \<open>A fresh table\<close>

abbreviation PADDR_LIMIT :: nat where "PADDR_LIMIT \<equiv> 4503599627370496"

lemma fresh_tab: "tab \<lparr>pml4 = root, da = fs, pmem = mem(root := \<lambda>_. empty_entry)\<rparr> d n
    = (if d = 0 \<and> n = 0 then Some root else None)"
proof (induction d arbitrary: n)
  case (Suc d)
  then show ?case by (simp add: tab_Suc)
qed simp

lemma fresh_pt_inv:
  assumes "root \<noteq> 0" and "root mod BASE_PAGE_SIZE = 0" and "distinct (root # fs)"
    and "\<forall>a \<in> set fs. a \<noteq> 0 \<and> a mod BASE_PAGE_SIZE = 0"
    and t_def: "t = \<lparr>pml4 = root, da = fs, pmem = mem(root := \<lambda>_. empty_entry)\<rparr>"
  shows "pt_inv t" and "unmapped t vbase psize" and "clear t vbase psize" and "find_page t v = None"
proof -
  have lf: "leaf t d n = None" for d n by (simp add: leaf_def t_def fresh_tab)
  show fp: "find_page t v = None" for v by (simp add: find_page_None lf)
  then show "unmapped t vbase psize" by (simp add: unmapped_def)
  show "clear t vbase psize" by (simp add: clear_def t_def fresh_tab)
  have "tables_ok t" using assms(1-3) by (auto simp: tables_ok_def t_def fresh_tab)
  moreover have "tables_apart t" by (auto simp: tables_apart_def t_def fresh_tab split: if_splits)
  moreover have "pages_aligned t" by (simp add: pages_aligned_def lf)
  moreover have "frames_ok t" using assms(3,4) by (simp add: frames_ok_def t_def)
  ultimately show "pt_inv t" by (simp add: pt_inv_def)
qed

definition zero_mem :: "nat \<Rightarrow> table" where
  "zero_mem = (\<lambda>_ _. empty_entry)"

definition fresh_table :: PageTable where
  "fresh_table = \<lparr>pml4 = 4096, da = map (\<lambda>i. 8192 + i * 4096) [0..<8], pmem = zero_mem\<rparr>"

lemma fresh_table_eq: "fresh_table = \<lparr>pml4 = 4096, da = map (\<lambda>i. 8192 + i * 4096) [0..<8],
    pmem = zero_mem(4096 := \<lambda>_. empty_entry)\<rparr>"
  by (simp add: fresh_table_def zero_mem_def fun_eq_iff)

lemma fresh_table_ok:
  "pt_inv fresh_table" "unmapped fresh_table v n" "clear fresh_table v n" "find_page fresh_table v = None"
  "length (da fresh_table) = 8"
  by (rule fresh_pt_inv [OF _ _ _ _ fresh_table_eq]; auto simp: distinct_map inj_on_def)+ (simp add: fresh_table_def)

text \<open>Two pages in it, as an example state.\<close>

definition two_pages :: PageTable where
  "two_pages = fst (map_generic fresh_table 4096 65536 8192 ReadWriteUser True)"

lemma two_pages_ok:
  "pt_inv two_pages" "pt_resolve two_pages 4096 = Ok (65536, ReadWriteUser)"
  "pt_resolve two_pages 8192 = Ok (69632, ReadWriteUser)"
proof -
  obtain t' where "map_generic fresh_table 4096 65536 8192 ReadWriteUser True = (t', Ok ())" "pt_inv t'"
    "\<forall>v < VADDR_LIMIT. pt_resolve t' v = (if 4096 \<le> v \<and> v < 4096 + 8192
          then Ok (65536 + (v - 4096), granted ReadWriteUser) else pt_resolve fresh_table v)"
    using map_generic_ok [OF fresh_table_ok(1) _ _ _ _ _ fresh_table_ok(2,3), of 4096 8192 65536 ReadWriteUser]
    by (auto simp: fresh_table_ok(5))
  then show "pt_inv two_pages" "pt_resolve two_pages 4096 = Ok (65536, ReadWriteUser)"
    "pt_resolve two_pages 8192 = Ok (69632, ReadWriteUser)"
    by (simp_all add: two_pages_def granted_def)
qed

section \<open>Mapping, unmapping and adjusting\<close>



lemma page_region:
  assumes "0 < (s::nat)"
  shows "w div s = v div s \<longleftrightarrow> v - v mod s \<le> w \<and> w < v - v mod s + s"
proof -
  have "v - v mod s = v div s * s" by (simp add: minus_mod_eq_div_mult)
  moreover have "w div s = v div s \<longleftrightarrow> v div s \<le> w div s \<and> w div s < v div s + 1" by linarith
  ultimately show ?thesis using in_pages [OF assms, of "v div s * s" w 1] assms by simp
qed

lemma base_aligned: "a mod entry_size d = 0 \<Longrightarrow> a mod BASE_PAGE_SIZE = 0"
proof -
  assume "a mod entry_size d = 0"
  then have "entry_size d dvd a" by (rule mod_0_imp_dvd)
  moreover have "BASE_PAGE_SIZE dvd entry_size d" by (simp add: entry_size_def)
  ultimately show "a mod BASE_PAGE_SIZE = 0" by (meson dvd_trans dvd_imp_mod_0)
qed

text \<open>The effect of \<open>unmap\<close> and \<open>adjust\<close> on the page that covers an address.\<close>

lemma pt_unmap_page:
  assumes "pt_inv t" and "v < VADDR_LIMIT" and "v mod BASE_PAGE_SIZE = 0" and "find_page t v = Some (d, e)"
  obtains t' where "pt_unmap t v = (t', Ok (TlbFlushHandle_new (v - v mod entry_size d)
      \<lparr>fbase = eaddr e, fsize = entry_size d, affinity = 0\<rparr>))"
    "pt_inv t'" "da t' = da t"
    "\<And>w. find_page t' w = (if w div entry_size d = v div entry_size d then None else find_page t w)"
  using assms(1,2)
proof (cases rule: walk_cases)
  case (page d' a e')
  then have eq: "d' = d" "e' = e" using assms(4) by simp_all
  note m = modify_page [OF assms(1) page(2,3,5,6,4) refl, where m = Unmap, unfolded eq]
  have "Frame_new (eaddr e) (entry_size d) 0 = Ok \<lparr>fbase = eaddr e, fsize = entry_size d, affinity = 0\<rparr>"
    using base_aligned [OF pt_inv_aligned [OF assms(1) page(4,3)]] base_aligned [of "entry_size d" d]
    by (simp add: Frame_new_def eq)
  then show ?thesis
    using m page(8) [of Unmap] assms(3) eq
    by (intro that [OF _ m(1,2)]) (simp_all add: pt_unmap_def)
qed (use assms(4) in simp)

lemma pt_adjust_page:
  assumes "pt_inv t" and "v < VADDR_LIMIT" and "v mod BASE_PAGE_SIZE = 0" and "find_page t v = Some (d, e)"
  obtains t' where "pt_adjust t v r = (t', Ok (v - v mod entry_size d, entry_size d))" "pt_inv t'" "da t' = da t"
    "\<And>w. find_page t' w = (if w div entry_size d = v div entry_size d
       then Some (d, new_page d r (eaddr e)) else find_page t w)"
  using assms(1,2)
proof (cases rule: walk_cases)
  case (page d' a e')
  then have eq: "d' = d" "e' = e" using assms(4) by simp_all
  note m = modify_page [OF assms(1) page(2,3,5,6,4) refl, where m = "UpdateRights r", unfolded eq]
  show ?thesis
    using m page(8) [of "UpdateRights r"] assms(3) eq
    by (intro that [OF _ m(1,2)]) (simp_all add: pt_adjust_def)
qed (use assms(4) in simp)

lemma pt_unmap_none:
  assumes "pt_inv t" and "v < VADDR_LIMIT" and "v mod BASE_PAGE_SIZE = 0" and "find_page t v = None"
  shows "pt_unmap t v = (t, Err NotMapped)" and "pt_adjust t v r = (t, Err NotMapped)"
  using assms(1,2) by (cases rule: walk_cases; use assms(3,4) in \<open>simp add: pt_unmap_def pt_adjust_def\<close>)+

lemma resolve_Ok_page:
  assumes "pt_inv t" and "v < VADDR_LIMIT" and "pt_resolve t v = Ok (p, r)"
  obtains d e where "find_page t v = Some (d, e)" "p = eaddr e + v mod entry_size d" "r = page_rights d (eflags e)"
  using assms resolve_find_page [OF assms(1,2)] by (auto split: option.splits)

text \<open>
  Removing the mapping that covers an address returns the page it was in, with its physical
  frame, and afterwards no address of that page resolves while every other address resolves as before.
\<close>
lemma pt_unmap_removes_page:
  assumes "pt_inv t" and "v < VADDR_LIMIT" and "v mod BASE_PAGE_SIZE = 0" and "pt_resolve t v = Ok (p, r)"
  shows "\<exists>t' h. pt_unmap t v = (t', Ok h) \<and> pt_inv t'
     \<and> tlb_vaddr h \<le> v \<and> v < tlb_vaddr h + fsize (tlb_frame h) \<and> fbase (tlb_frame h) + (v - tlb_vaddr h) = p
     \<and> (\<forall>w < VADDR_LIMIT. pt_resolve t' w =
          (if tlb_vaddr h \<le> w \<and> w < tlb_vaddr h + fsize (tlb_frame h) then Err NotMapped else pt_resolve t w))"
proof -
  obtain d e where p: "find_page t v = Some (d, e)" "p = eaddr e + v mod entry_size d"
    by (rule resolve_Ok_page [OF assms(1,2,4)], rule that)
  obtain t' where t': "pt_unmap t v = (t', Ok (TlbFlushHandle_new (v - v mod entry_size d)
      \<lparr>fbase = eaddr e, fsize = entry_size d, affinity = 0\<rparr>))" "pt_inv t'" "da t' = da t"
    "\<And>w. find_page t' w = (if w div entry_size d = v div entry_size d then None else find_page t w)"
    by (rule pt_unmap_page [OF assms(1-3) p(1)], rule that)
  have "pt_resolve t' w = (if v - v mod entry_size d \<le> w \<and> w < v - v mod entry_size d + entry_size d
      then Err NotMapped else pt_resolve t w)" if "w < VADDR_LIMIT" for w
    using t'(4) [of w] resolve_find_page [OF t'(2) that] resolve_find_page [OF assms(1) that]
      page_region [OF entry_size_pos, of w d v] by auto
  moreover have "v < v - v mod entry_size d + entry_size d" using page_region [OF entry_size_pos, of v d v] by simp
  ultimately show ?thesis using t'(1,2) p(2) by (simp add: TlbFlushHandle_new_def)
qed

text \<open>
  Adjusting the rights at an address changes the rights of the page that covers it and
  nothing else: the page keeps its frame, and every other address resolves as before.
\<close>
lemma pt_adjust_changes_rights:
  assumes "pt_inv t" and "v < VADDR_LIMIT" and "v mod BASE_PAGE_SIZE = 0" and "pt_resolve t v = Ok (p, old)"
  shows "\<exists>t' vs n. pt_adjust t v r = (t', Ok (vs, n)) \<and> pt_inv t' \<and> vs \<le> v \<and> v < vs + n
     \<and> (\<forall>w < VADDR_LIMIT. pt_resolve t' w =
          (if vs \<le> w \<and> w < vs + n then map_result (\<lambda>(q, _). (q, granted r)) (pt_resolve t w) else pt_resolve t w))"
proof -
  obtain d e where p: "find_page t v = Some (d, e)" "p = eaddr e + v mod entry_size d"
    by (rule resolve_Ok_page [OF assms(1,2,4)], rule that)
  obtain t' where t': "pt_adjust t v r = (t', Ok (v - v mod entry_size d, entry_size d))" "pt_inv t'" "da t' = da t"
    "\<And>w. find_page t' w = (if w div entry_size d = v div entry_size d
       then Some (d, new_page d r (eaddr e)) else find_page t w)"
    by (rule pt_adjust_page [OF assms(1-3) p(1)], rule that)
  have same: "find_page t w = Some (d, e)" if "w div entry_size d = v div entry_size d" for w
    using p(1) that by (simp add: find_page_Some)
  have "pt_resolve t' w = (if v - v mod entry_size d \<le> w \<and> w < v - v mod entry_size d + entry_size d
      then map_result (\<lambda>(q, _). (q, granted r)) (pt_resolve t w) else pt_resolve t w)" if "w < VADDR_LIMIT" for w
    using t'(4) [of w] same [of w] resolve_find_page [OF t'(2) that] resolve_find_page [OF assms(1) that]
      page_region [OF entry_size_pos, of w d v] by auto
  moreover have "v < v - v mod entry_size d + entry_size d" using page_region [OF entry_size_pos, of v d v] by simp
  ultimately show ?thesis using t'(1,2) by (intro exI [of _ t']) simp
qed

section \<open>Dropping\<close>

lemma collect_Ok:
  "(\<And>i. i \<in> set is \<Longrightarrow> f i = Ok (g i)) \<Longrightarrow> collect f is = Ok (concat (map g is))"
  by (induction "is") simp_all

lemma distinct_concat_map:
  assumes "distinct is" and "\<And>i. i \<in> set is \<Longrightarrow> distinct (L i)"
    and "\<And>i j. \<lbrakk>i \<in> set is; j \<in> set is; i \<noteq> j\<rbrakk> \<Longrightarrow> set (L i) \<inter> set (L j) = {}"
  shows "distinct (concat (map L is))"
  using assms
proof (induction "is")
  case (Cons i "is")
  have "set (L i) \<inter> (\<Union>j \<in> set is. set (L j)) = {}" using Cons.prems(1,3) by fastforce
  then show ?case using Cons by simp
qed simp

text \<open>The tables below a table of depth 2 and 1, in the order they are freed.\<close>

definition pt_list :: "PageTable \<Rightarrow> nat \<Rightarrow> nat list" where
  "pt_list t n = (case tab t 3 n of None \<Rightarrow> [] | Some b \<Rightarrow> [b])"

definition pd_list :: "PageTable \<Rightarrow> nat \<Rightarrow> nat list" where
  "pd_list t n = (case tab t 2 n of None \<Rightarrow> [] | Some b \<Rightarrow> concat (map (\<lambda>i. pt_list t (n * 512 + i)) [0..<512]) @ [b])"

definition pdpt_list :: "PageTable \<Rightarrow> nat \<Rightarrow> nat list" where
  "pdpt_list t n = (case tab t 1 n of None \<Rightarrow> [] | Some b \<Rightarrow> concat (map (\<lambda>i. pd_list t (n * 512 + i)) [0..<512]) @ [b])"

lemma tab_child: "i < 512 \<Longrightarrow> tab t (Suc d) (n * 512 + i)
    = (case tab t d n of None \<Rightarrow> None | Some a \<Rightarrow> next_table d (pmem t a i))"
  by (simp add: tab_Suc cong: option.case_cong)

lemma ex_below: "(\<exists>m. m div 512 = (n::nat) \<and> Q m) \<longleftrightarrow> (\<exists>i < 512. Q (n * 512 + i))"
proof
  assume "\<exists>m. m div 512 = n \<and> Q m"
  then obtain m where m: "m div 512 = n" "Q m" by blast
  then have "m = n * 512 + m mod 512" "m mod 512 < 512" by auto
  then show "\<exists>i < 512. Q (n * 512 + i)" using m(2) by metis
next
  assume "\<exists>i < 512. Q (n * 512 + i)"
  then obtain i where "i < 512" "Q (n * 512 + i)" by blast
  then show "\<exists>m. m div 512 = n \<and> Q m" by (intro exI [of _ "n * 512 + i"]) simp
qed

lemma set_pt_list: "a \<in> set (pt_list t n) \<longleftrightarrow> tab t 3 n = Some a"
  by (auto simp: pt_list_def split: option.split)

lemma set_pd_list: "a \<in> set (pd_list t n) \<longleftrightarrow> tab t 2 n = Some a \<or> (\<exists>m. m div 512 = n \<and> tab t 3 m = Some a)"
proof -
  have "tab t 3 (n * 512 + i) = None" if "tab t 2 n = None" "i < 512" for i
    using tab_child [OF that(2), of t 2 n] that(1) by simp
  then show ?thesis
    unfolding ex_below pd_list_def by (cases "tab t 2 n") (auto simp: set_pt_list)
qed

lemma set_pdpt_list: "a \<in> set (pdpt_list t n) \<longleftrightarrow> tab t 1 n = Some a \<or> (\<exists>m. m div 512 = n \<and> a \<in> set (pd_list t m))"
proof -
  have "pd_list t (n * 512 + i) = []" if "tab t 1 n = None" "i < 512" for i
  proof -
    have "tab t 2 (n * 512 + i) = None" using tab_child [OF that(2), of t 1 n] that(1) by (simp add: numeral_2_eq_2)
    then show ?thesis by (simp add: pd_list_def)
  qed
  then show ?thesis
    unfolding ex_below pdpt_list_def by (cases "tab t 1 n") auto
qed

lemma distinct_pd_list:
  assumes "pt_inv t"
  shows "distinct (pd_list t n)"
proof -
  have "set (pt_list t i) \<inter> set (pt_list t j) = {}" if "i \<noteq> j" for i j
    using pt_inv_apart [OF assms, of 3 i _ 3 j] that by (auto simp: set_pt_list)
  then have "distinct (concat (map (\<lambda>i. pt_list t (n * 512 + i)) [0..<512]))"
    by (intro distinct_concat_map) (auto simp: pt_list_def split: option.split)
  moreover have "tab t 2 n = Some b \<Longrightarrow> tab t 3 m \<noteq> Some b" for b m
    using pt_inv_apart [OF assms, of 2 n b 3 m] by auto
  ultimately show ?thesis by (auto simp: pd_list_def set_pt_list split: option.split)
qed

lemma pd_list_apart:
  assumes "pt_inv t" and "a \<in> set (pd_list t i)" and "a \<in> set (pd_list t j)"
  shows "i = j"
proof -
  have "tab t 2 n = Some a \<Longrightarrow> tab t 2 m = Some a \<Longrightarrow> n = m" "tab t 3 n = Some a \<Longrightarrow> tab t 3 m = Some a \<Longrightarrow> n = m"
    "tab t 2 n = Some a \<Longrightarrow> tab t 3 m \<noteq> Some a" for n m
    using pt_inv_apart [OF assms(1), of _ n a _ m] by fastforce+
  then show ?thesis using assms(2,3) unfolding set_pd_list by metis
qed

lemma pdpt_list_apart:
  assumes "pt_inv t" and "a \<in> set (pdpt_list t i)" and "a \<in> set (pdpt_list t j)"
  shows "i = j"
proof -
  have "tab t 1 n = Some a \<Longrightarrow> tab t 1 m = Some a \<Longrightarrow> n = m" "tab t 1 n = Some a \<Longrightarrow> a \<notin> set (pd_list t m)" for n m
    using pt_inv_apart [OF assms(1), of 1 n a 1 m] pt_inv_apart [OF assms(1), of 1 n a 2 m]
      pt_inv_apart [OF assms(1), of 1 n a 3] by (auto simp: set_pd_list)
  then show ?thesis using assms(2,3) pd_list_apart [OF assms(1)] unfolding set_pdpt_list by metis
qed

lemma distinct_pdpt_list:
  assumes "pt_inv t"
  shows "distinct (pdpt_list t n)"
proof -
  have "set (pd_list t i) \<inter> set (pd_list t j) = {}" if "i \<noteq> j" for i j
    using pd_list_apart [OF assms] that by blast
  then have "distinct (concat (map (\<lambda>i. pd_list t (n * 512 + i)) [0..<512]))"
    by (intro distinct_concat_map) (auto simp: distinct_pd_list [OF assms])
  moreover have "tab t 1 n = Some b \<Longrightarrow> b \<notin> set (pd_list t m)" for b m
    using pt_inv_apart [OF assms, of 1 n b 2 m] pt_inv_apart [OF assms, of 1 n b 3] by (auto simp: set_pd_list)
  ultimately show ?thesis by (auto simp: pdpt_list_def split: option.split)
qed

lemma free_pd_slot_Ok:
  assumes "pt_inv t" and "tab t 2 n = Some (eaddr e)" and "i < 512"
  shows "free_pd_slot t e i = Ok (pt_list t (n * 512 + i))"
proof -
  have nz: "eaddr e \<noteq> 0" using pt_inv_tables [OF assms(1,2)] by simp
  have t3: "tab t 3 (n * 512 + i) = next_table 2 (pmem t (eaddr e) i)" using tab_child [OF assms(3), of t 2 n] assms(2) by simp
  then show ?thesis
    using nz pt_inv_tables [OF assms(1), of 3 "n * 512 + i"]
    by (auto simp: free_pd_slot_def get_table_def pt_list_def next_table_def split: if_splits)
qed

lemma free_pdpt_slot_Ok:
  assumes "pt_inv t" and "tab t 1 n = Some (eaddr e)" and "i < 512"
  shows "free_pdpt_slot t e i = Ok (pd_list t (n * 512 + i))"
proof -
  let ?e = "pmem t (eaddr e) i"
  have nz: "eaddr e \<noteq> 0" using pt_inv_tables [OF assms(1,2)] by simp
  have t2: "tab t 2 (n * 512 + i) = next_table 1 ?e"
    using tab_child [OF assms(3), of t 1 n] assms(2) by (simp add: numeral_2_eq_2)
  show ?thesis
  proof (cases "next_table 1 ?e")
    case None
    then show ?thesis using nz t2 by (auto simp: free_pdpt_slot_def get_table_def pd_list_def next_table_def split: if_splits)
  next
    case (Some b)
    then have e: "is_present ?e" "\<not> is_page ?e" "b = eaddr ?e" by (auto simp: next_table_Some)
    have "collect (free_pd_slot t ?e) [0..<512] = Ok (concat (map (\<lambda>j. pt_list t ((n * 512 + i) * 512 + j)) [0..<512]))"
      by (rule collect_Ok) (use free_pd_slot_Ok [OF assms(1), of "n * 512 + i" ?e] t2 Some e(3) in simp)
    then show ?thesis using nz t2 Some e by (simp add: free_pdpt_slot_def get_table_def pd_list_def)
  qed
qed

lemma free_pml4_slot_Ok:
  assumes "pt_inv t" and "i < 512"
  shows "free_pml4_slot t i = Ok (if i < pml4_index KERNEL_BASE then pdpt_list t i else [])"
proof -
  have t1: "tab t 1 i = next_table 0 (pml4_entry t i)" using tab_child [OF assms(2), of t 0 0] by (simp add: pml4_entry_def)
  show ?thesis
  proof (cases "is_present (pml4_entry t i)")
    case True
    then have "tab t 1 i = Some (eaddr (pml4_entry t i))" using t1 by (simp add: next_table_def)
    then have "collect (free_pdpt_slot t (pml4_entry t i)) [0..<512] = Ok (concat (map (\<lambda>j. pd_list t (i * 512 + j)) [0..<512]))"
      "pdpt_list t i = concat (map (\<lambda>j. pd_list t (i * 512 + j)) [0..<512]) @ [eaddr (pml4_entry t i)]"
      using free_pdpt_slot_Ok [OF assms(1)] by (auto intro!: collect_Ok simp: pdpt_list_def)
    then show ?thesis using True by (simp add: free_pml4_slot_def Let_def)
  next
    case False
    then have "pdpt_list t i = []" using t1 by (simp add: next_table_def pdpt_list_def)
    then show ?thesis using False by (simp add: free_pml4_slot_def Let_def)
  qed
qed

text \<open>The tables of the user half, which \<open>drop\<close> has to free.\<close>

definition user_tables :: "PageTable \<Rightarrow> nat set" where
  "user_tables t = {a. (\<exists>n. n < pml4_index KERNEL_BASE \<and> tab t 1 n = Some a)
     \<or> (\<exists>n. n div 512 < pml4_index KERNEL_BASE \<and> tab t 2 n = Some a)
     \<or> (\<exists>n. n div 512 div 512 < pml4_index KERNEL_BASE \<and> tab t 3 n = Some a)}"

lemma user_tables_iff: "a \<in> user_tables t \<longleftrightarrow> (\<exists>n < pml4_index KERNEL_BASE. a \<in> set (pdpt_list t n))"
  unfolding user_tables_def set_pdpt_list set_pd_list mem_Collect_eq by blast

text \<open>
  C34. Dropping a page table frees the tables below the kernel half, every one of them exactly
  once and no other frame, and empties their slots of the PML4 without touching the kernel half.
\<close>
theorem drop_frees_user_tables:
  assumes "pt_inv t"
  shows "\<exists>t' freed. pt_drop t = (t', Ok freed) \<and> distinct freed \<and> set freed = user_tables t
     \<and> (\<forall>v < KERNEL_BASE. pt_resolve t' v = Err NotMapped)
     \<and> (\<forall>i. pml4_index KERNEL_BASE \<le> i \<longrightarrow> pml4_entry t' i = pml4_entry t i)"
proof -
  let ?k = "pml4_index KERNEL_BASE"
  let ?L = "\<lambda>i. if i < ?k then pdpt_list t i else []"
  have k: "?k = 128" by (simp add: pml4_index_def)
  have "collect (free_pml4_slot t) [0..<512] = Ok (concat (map ?L [0..<512]))"
    by (rule collect_Ok) (simp add: free_pml4_slot_Ok [OF assms])
  moreover have "distinct (concat (map ?L [0..<512]))"
    using pdpt_list_apart [OF assms]
    by (intro distinct_concat_map) (auto simp: distinct_pdpt_list [OF assms] split: if_splits)
  moreover have "set (concat (map ?L [0..<512])) = user_tables t"
    unfolding set_eq_iff user_tables_iff using k by (auto split: if_splits intro!: bexI)
  moreover have "pt_resolve (fst (pt_drop t)) v = Err NotMapped" if "v < KERNEL_BASE" for v
  proof -
    have "pml4_index v < ?k" using that k by (simp add: pml4_index_def less_mult_imp_div_less mod_less_eq_dividend [THEN le_less_trans])
    then show ?thesis by (simp add: pt_resolve_def pt_drop_def pml4_entry_def Let_def)
  qed
  moreover have "pml4_entry (fst (pt_drop t)) i = pml4_entry t i" if "?k \<le> i" for i
    using that by (simp add: pt_drop_def pml4_entry_def)
  ultimately show ?thesis by (intro exI [of _ "fst (pt_drop t)"] exI conjI) (auto simp: pt_drop_def)
qed

theorem drop_frees_user_tables_witness:
  "\<exists>t' freed. pt_drop two_pages = (t', Ok freed) \<and> distinct freed \<and> set freed = user_tables two_pages"
  using drop_frees_user_tables [OF two_pages_ok(1)] by blast

section \<open>Where the description and the code part\<close>

lemma can_map_as_large_page_state:
  "can_map_as_large_page t e pbase psize vbase = (t', res)
    \<Longrightarrow> t' = t \<or> t' = set_entry t (eaddr e) (pd_index vbase) empty_entry"
  by (auto simp: can_map_as_large_page_def Let_def split: result.splits if_splits)

lemma number_next: "n mod 512 < 511 \<Longrightarrow> (n + 1) div 512 = n div 512 \<and> (n + 1) mod 512 = n mod 512 + (1::nat)"
  by (simp add: div_Suc mod_Suc)

lemma two_large_panic:
  assumes "\<not> is_present (tbl i)" and "i + 1 < 512" and "is_present (tbl (i + 1))"
    and "eaddr (tbl (i + 1)) \<noteq> pbase + LARGE_PAGE_SIZE"
  shows "snd (insert_entries 2 vbase pbase (2 * LARGE_PAGE_SIZE) r True tbl i 0) = Panic"
  using assms by (simp add: insert_entries.simps [of 2] loop_needs_def entry_size_def)

text \<open>
  \<open>unmap\<close> leaves empty page tables behind, and \<open>map_generic\<close> takes one down only in the
  first slot of the region: a 4 MiB region whose second 2 MiB slot holds such a left-over table
  panics the kernel, although nothing is mapped there.
\<close>
lemma leftover_table_panics:
  assumes "pt_inv t" and "vbase + 2 * LARGE_PAGE_SIZE \<le> VADDR_LIMIT"
    and "LARGE_PAGE_SIZE dvd vbase" and "LARGE_PAGE_SIZE dvd pbase"
    and "\<forall>v. vbase \<le> v \<and> v < vbase + 2 * LARGE_PAGE_SIZE \<longrightarrow> find_page t v = None"
    and "pd_index vbase < 511" and "tab t 3 (vbase div LARGE_PAGE_SIZE + 1) = Some b" and "b \<noteq> pbase + LARGE_PAGE_SIZE"
  shows "snd (map_generic t vbase pbase (2 * LARGE_PAGE_SIZE) r True) = Panic"
proof -
  let ?n = "vbase div LARGE_PAGE_SIZE" and ?i = "pd_index vbase" and ?psize = "2 * LARGE_PAGE_SIZE"
  have v: "vbase < VADDR_LIMIT" using assms(2) by simp
  have un: "unmapped t vbase ?psize" using assms(5) by (simp add: unmapped_def)
  have up: "(?n + 1) div 512 = ?n div 512 \<and> (?n + 1) mod 512 = ?n mod 512 + 1"
    using assms(6) number_next [of ?n] by (simp add: pd_index_def)
  have s: "tab t (Suc 2) (?n + 1) = Some b" using assms(7) by simp
  obtain a2 where a2: "tab t 2 (vbase div HUGE_PAGE_SIZE) = Some a2" "next_table 2 (pmem t a2 (?i + 1)) = Some b"
    using s [unfolded tab_Suc] up by (auto simp: number_up pd_index_def split: option.splits)
  obtain a1 where a1: "tab t 1 (vbase div PML4_SLOT_SIZE) = Some a1" "next_table 1 (pmem t a1 (pdpt_index vbase)) = Some a2"
    using a2(1) tab_numbers_up(1) [of t vbase] by (auto split: option.splits)
  let ?e3 = "pmem t a1 (pdpt_index vbase)"
  have e3: "is_present ?e3" "\<not> is_page ?e3" "eaddr ?e3 = a2" using a1(2) by (auto simp: next_table_Some)
  note g = get_pdpt_present [OF assms(1) v a1(1)]
  have nz: "a1 \<noteq> 0" "a2 \<noteq> 0" using pt_inv_tables [OF assms(1)] a1(1) a2(1) by auto
  have nohuge: "can_map_as_huge_page t (pml4_entry t (pml4_index vbase)) pbase ?psize vbase = (t, Ok False)"
    using nz g(2) by (simp add: can_map_as_huge_page_def get_table_def Let_def)
  have al: "vbase mod LARGE_PAGE_SIZE = 0" "pbase mod LARGE_PAGE_SIZE = 0" "?psize mod BASE_PAGE_SIZE = 0"
    "vbase mod BASE_PAGE_SIZE = 0" "pbase mod BASE_PAGE_SIZE = 0"
    using assms(3,4) base_aligned [of vbase 2] base_aligned [of pbase 2] by (simp_all add: entry_size_def dvd_imp_mod_0)
  have pos: "0 < ?psize" by simp
  from assms(1) v a2(1) [folded e3(3)] un pos show ?thesis
  proof (cases rule: can_map_large [where pbase = pbase])
    case (fits t1)
    have i1: "pmem t1 a2 (?i + 1) = pmem t a2 (?i + 1)"
      using can_map_as_large_page_state [OF fits(1)] e3(3) by (auto simp: set_entry_def)
    have "\<not> is_present (pmem t1 a2 ?i)"
      using slot_not_present [of t1 2 ?n a2] fits(6,7) e3(3) growsD(2) [OF fits(5), of 2 ?n]
        unmapped_first [OF un, of 2] by (simp add: number_up entry_size_def pd_index_def)
    then have "snd (insert_entries 2 vbase pbase ?psize r True (pmem t1 a2) ?i 0) = Panic"
      using a2(2) assms(6,8) by (intro two_large_panic) (auto simp: i1 [simplified] next_table_Some)
    then have "snd (insert_at 2 t1 a2 ?i vbase pbase ?psize r True) = Panic"
      using nz by (simp add: insert_at_def case_prod_beta)
    then have "snd (map_in_pd t ?e3 vbase pbase ?psize r True) = Panic"
      using fits(1) nz e3(3) by (simp add: map_in_pd_def get_table_def insert_large_mappings_def)
    then have "snd (map_prefix t vbase pbase ?psize r True) = Panic"
      using al g nohuge e3 by (simp add: map_prefix_def)
    then show ?thesis by (cases "map_prefix t vbase pbase ?psize r True") (simp add: map_generic.simps)
  qed (use al in simp_all)
qed

text \<open>A PT without entries for the second 2 MiB of the address space.\<close>

definition leftover :: PageTable where
  "leftover = add_table (add_table (add_table fresh_table 4096 0) 8192 0) 12288 1"

lemma leftover_ok:
  "pt_inv leftover" "find_page leftover v = None" "tab leftover 3 1 = Some 16384"
proof -
  have da: "da fresh_table = [8192, 12288, 16384, 20480, 24576, 28672, 32768, 36864]"
    by (simp add: fresh_table_def upt_rec)
  let ?t1 = "add_table fresh_table 4096 0"
  have t0: "tab fresh_table 0 0 = Some 4096" by (simp add: fresh_table_def)
  have p0: "\<not> is_present (pmem fresh_table a i)" for a i by (simp add: fresh_table_def zero_mem_def)
  note r1 = fresh_table_ok(1) da t0 _ _ p0
  have da1: "da ?t1 = [12288, 16384, 20480, 24576, 28672, 32768, 36864]"
    and pm1: "pmem ?t1 8192 = (\<lambda>_. empty_entry)" using add_table_simps [OF da, of 4096 0] by simp_all
  have i1: "pt_inv ?t1" by (rule pt_inv_add_table [OF r1]) simp_all
  have t1: "tab ?t1 1 0 = Some 8192" using tab_add_table [OF r1, of 0 1 0] by simp
  let ?t2 = "add_table ?t1 8192 0"
  have n1: "\<not> is_present (pmem ?t1 8192 0)" by (simp add: pm1)
  have da2: "da ?t2 = [16384, 20480, 24576, 28672, 32768, 36864]"
    and pm2: "pmem ?t2 12288 = (\<lambda>_. empty_entry)" using add_table_simps [OF da1, of 8192 0] by simp_all
  have i2: "pt_inv ?t2" by (rule pt_inv_add_table [OF i1 da1 t1 _ _ n1]) simp_all
  have t2: "tab ?t2 2 0 = Some 12288" using tab_add_table [OF i1 da1 t1 _ _ n1, of 2 0] by simp
  have n2: "\<not> is_present (pmem ?t2 12288 1)" by (simp add: pm2)
  show "pt_inv leftover" unfolding leftover_def by (rule pt_inv_add_table [OF i2 da2 t2 _ _ n2]) simp_all
  show "tab leftover 3 1 = Some 16384" unfolding leftover_def
    using tab_add_table [OF i2 da2 t2 _ _ n2, of 3 1] by simp
  have "leaf leftover d n = leaf fresh_table d n" if "d \<le> 3" for d n
    unfolding leftover_def using leaf_add_table [OF i2 da2 t2 _ _ n2 that] leaf_add_table [OF i1 da1 t1 _ _ n1 that]
      leaf_add_table [OF r1 that, of 0] by simp
  then show "find_page leftover v = None" using find_page_cong [of leftover v fresh_table] fresh_table_ok(4) by simp
qed

lemma clear_in_huge_slot:
  assumes "tab t 2 n = None"
  shows "clear t (n * HUGE_PAGE_SIZE) HUGE_PAGE_SIZE"
  unfolding clear_def
proof (intro allI impI, elim conjE disjE)
  fix d m assume m: "n * HUGE_PAGE_SIZE < m * entry_size d" "(m + 1) * entry_size d \<le> n * HUGE_PAGE_SIZE + HUGE_PAGE_SIZE"
  show "tab t (Suc d) m = None" if "d = 1"
    using m that by (simp add: entry_size_def)
  show "tab t (Suc d) m = None" if "d = 2"
  proof -
    have "512 * n < m" "m < 512 * n + 512" using m that by (simp_all add: entry_size_def)
    then have "m div 512 = n" by (intro div_nat_eqI) simp_all
    then show ?thesis using assms that tab_Suc [of t 2 m] by simp
  qed
qed

text \<open>
  \<open>map_generic\<close> announces an error for a location that is already mapped, but where a
  1 GiB page is mapped it reads the page itself as if it were a table: if its first 4 KiB have no
  present bits, for instance because the memory is zero, a new 1 GiB mapping replaces the existing
  one and the call succeeds.
\<close>
lemma remap_over_zero_page:
  assumes "pt_inv t" and "n * HUGE_PAGE_SIZE < VADDR_LIMIT" and "pt_resolve t (n * HUGE_PAGE_SIZE) = Ok (p, old)"
    and "leaf t 1 n = Some e" and "eaddr e \<noteq> 0" and "all_entries_empty (pmem t (eaddr e))"
    and "HUGE_PAGE_SIZE dvd pbase"
  shows "\<exists>t'. map_generic t (n * HUGE_PAGE_SIZE) pbase HUGE_PAGE_SIZE r True = (t', Ok ())
     \<and> pt_resolve t' (n * HUGE_PAGE_SIZE) = Ok (pbase, granted r)"
proof -
  let ?v = "n * HUGE_PAGE_SIZE" and ?i = "n mod 512"
  have v: "?v div entry_size 1 = n" "pdpt_index ?v = ?i" "?v div PML4_SLOT_SIZE = n div 512"
    using number_up(1) [of ?v] by (simp_all add: entry_size_def pdpt_index_def)
  obtain a where a: "tab t 1 (n div 512) = Some a" "pmem t a ?i = e" "is_present e"
    using assms(4) by (auto simp: leaf_def page_entry_Some split: option.splits)
  define t2 where "t2 = set_entry t a ?i (modified 1 e Unmap)"
  note m = modify_page [OF assms(1) _ _ a(1,2) assms(4) t2_def, simplified]
  have a_nz: "a \<noteq> 0" using pt_inv_tables [OF assms(1) a(1)] by simp
  have nx: "next_table 1 e = None" using assms(4) leaf_no_table [OF assms(4)] a by (simp add: tab_Suc)
  have tt: "tab t2 d m = tab t d m" if "d \<le> 3" for d m
    unfolding t2_def set_entry_with_table
    by (rule tab_with_table [OF assms(1) a(1) _ _ that]) (use a(2) nx in \<open>auto simp: modified_def\<close>)
  have t21: "tab t2 1 (?v div PML4_SLOT_SIZE) = Some a" using tt [of 1] a(1) v by simp
  have t22: "tab t2 2 n = None" using tt [of 2 n] leaf_no_table [OF assms(4)] by (simp add: numeral_2_eq_2)
  have un: "unmapped t2 ?v HUGE_PAGE_SIZE"
    unfolding unmapped_def
  proof (intro allI impI)
    fix w assume "?v \<le> w \<and> w < ?v + HUGE_PAGE_SIZE"
    then have "w div HUGE_PAGE_SIZE = n" by (intro div_nat_eqI) simp_all
    then show "find_page t2 w = None" using m(3) [of w] by (simp add: entry_size_def)
  qed
  obtain c t' where c: "insert_at 1 t2 a ?i ?v pbase HUGE_PAGE_SIZE r True = (t', Ok (c * entry_size 1))"
    "1 \<le> c" "c * entry_size 1 \<le> HUGE_PAGE_SIZE" "made t2 t' 1 r ?v pbase c 0"
  proof (rule insert_at_made [of t2 1 ?v a pbase HUGE_PAGE_SIZE r, unfolded v])
    show "tab t2 (Suc 1) n = None" using t22 by (simp add: numeral_2_eq_2)
  qed (use m(1) t21 v un clear_in_huge_slot [OF t22] assms(7) in \<open>auto simp: entry_size_def intro: that\<close>)
  have c1: "c = 1" using c(2,3) by (simp add: entry_size_def)
  have "can_map_as_huge_page t (pml4_entry t (pml4_index ?v)) pbase HUGE_PAGE_SIZE ?v = (t2, Ok True)"
    using get_pdpt_present(2) [OF assms(1,2), of a] a v assms(5-7) a_nz at_slot(1) [OF assms(2)]
    by (simp add: can_map_as_huge_page_def get_table_def Let_def t2_def modified_def dvd_imp_mod_0)
  moreover note get_pdpt_present [OF assms(1,2), of a] get_pdpt_present [OF m(1) assms(2) t21]
  ultimately have "map_prefix t ?v pbase HUGE_PAGE_SIZE r True = (t', Ok HUGE_PAGE_SIZE)"
    using a v c(1) c1 base_aligned [of pbase 1] base_aligned [of ?v 1] assms(7)
    by (simp add: map_prefix_def Let_def insert_huge_mappings_def entry_size_def dvd_imp_mod_0)
  then have "map_generic t ?v pbase HUGE_PAGE_SIZE r True = (t', Ok ())" by (simp add: map_generic.simps)
  moreover have "pt_inv t'" "adds t2 t' 1 r ?v pbase c" using c(4) by (simp_all add: made_def)
  then have "pt_resolve t' ?v = Ok (pbase, granted r)"
    using adds_resolve [OF m(1), of t' 1 r ?v pbase c ?v] assms(2) c1 by (simp add: entry_size_def)
  ultimately show ?thesis by blast
qed

text \<open>The second GiB mapped to zero memory.\<close>

definition zero_gib :: PageTable where
  "zero_gib = set_entry (add_table fresh_table 4096 0) 8192 1 (new_page 1 ReadWriteUser HUGE_PAGE_SIZE)"

lemma zero_gib_ok:
  "pt_inv zero_gib" "leaf zero_gib 1 1 = Some (new_page 1 ReadWriteUser HUGE_PAGE_SIZE)"
  "all_entries_empty (pmem zero_gib HUGE_PAGE_SIZE)"
proof -
  let ?t1 = "add_table fresh_table 4096 0" and ?p = "new_page 1 ReadWriteUser HUGE_PAGE_SIZE"
  have da: "da fresh_table = [8192, 12288, 16384, 20480, 24576, 28672, 32768, 36864]"
    by (simp add: fresh_table_def upt_rec)
  have t0: "tab fresh_table 0 0 = Some 4096" by (simp add: fresh_table_def)
  have p0: "\<not> is_present (pmem fresh_table a i)" for a i by (simp add: fresh_table_def zero_mem_def)
  have pm: "pmem ?t1 c i = (if c = 4096 \<and> i = 0 then link_entry 8192 else empty_entry)" for c i
    using add_table_simps(3) [OF da, of 4096 0 c] by (simp add: fresh_table_def zero_mem_def)
  have inv: "pt_inv ?t1" by (rule pt_inv_add_table [OF fresh_table_ok(1) da t0 _ _ p0]) simp_all
  have t1: "tab ?t1 1 0 = Some 8192" using tab_add_table [OF fresh_table_ok(1) da t0 _ _ p0, of 0 1 0] by simp
  have nx: "next_table 1 (((pmem ?t1 8192)(1 := ?p)) i) = next_table 1 (pmem ?t1 8192 i)" for i
    by (simp add: pm)
  show "pt_inv zero_gib"
    unfolding zero_gib_def set_entry_with_table
    by (rule pt_inv_with_table [OF inv t1 _ nx]) (auto simp: pm entry_size_def split: if_splits)
  show "leaf zero_gib 1 1 = Some ?p"
    unfolding zero_gib_def set_entry_with_table 
    using leaf_with_table [where tbl = "(pmem ?t1 8192)(1 := ?p)" and m = 1 and d' = 1, OF inv t1 _ nx] by simp
  show "all_entries_empty (pmem zero_gib HUGE_PAGE_SIZE)"
    by (simp add: zero_gib_def set_entry_def pm all_entries_empty_def list_all_iff)
qed

end
