(* ===== verification/VSpaces.thy ===== *)
theory VSpaces
  imports PageSpec
begin

text \<open>
  Address spaces: the trait \<open>AddressSpace\<close> with its provided method \<open>map_frames\<close>
  (\<open>memory/vspace.rs\<close>), the hardware address space \<open>VSpace\<close>
  (\<open>arch/x86_64/vspace/mod.rs\<close>) and the reference model \<open>ModelAddressSpace\<close>
  (\<open>memory/vspace_model.rs\<close>), which the repository uses as the specification of the former
  in its property tests.
\<close>

section \<open>The ordered map\<close>

text \<open>A \<open>BTreeMap\<close> is the list of its entries in the order of their keys.\<close>

type_synonym mappings = "(nat \<times> MappingInfo) list"

definition btree_insert :: "nat \<Rightarrow> 'a \<Rightarrow> (nat \<times> 'a) list \<Rightarrow> (nat \<times> 'a) list" where
  "btree_insert k x m = filter (\<lambda>(k', _). k' < k) m @ (k, x) # filter (\<lambda>(k', _). k < k') m"

definition btree_remove :: "nat \<Rightarrow> (nat \<times> 'a) list \<Rightarrow> (nat \<times> 'a) list" where
  "btree_remove k m = filter (\<lambda>(k', _). k' \<noteq> k) m"

definition range_rev :: "(nat \<Rightarrow> bool) \<Rightarrow> (nat \<times> 'a) list \<Rightarrow> (nat \<times> 'a) list" where
  "range_rev within m = rev (filter (\<lambda>(k, _). within k) m)"

section \<open>The hardware address space\<close>

record VSpace =
  mappings :: mappings
  page_table :: PageTable

type_synonym vspace_state = "heap \<times> VSpace"

text \<open>
  The loop of \<open>VSpace::map_frame\<close>: its body leaves the loop or the function in the first
  iteration. \<open>None\<close> means that the function goes on after the loop.
\<close>

fun map_frame_scan :: "mappings \<Rightarrow> nat \<Rightarrow> Frame \<Rightarrow> MapAction \<Rightarrow> unit kres option" where
  "map_frame_scan [] base f action = None"
| "map_frame_scan ((existing_base, existing) # rest) base f action =
     (if snd (vrange existing existing_base) \<le> base then None
      else if existing_base = base \<and> fbase (minfo_frame existing) = fbase f
        \<and> fsize (minfo_frame existing) \<le> fsize f \<and> minfo_rights existing = action
      then Some (Ok ()) else Some (Err (AlreadyMapped existing_base)))"

definition vs_map_frame :: "vspace_state \<Rightarrow> nat \<Rightarrow> Frame \<Rightarrow> MapAction \<Rightarrow> vspace_state \<times> unit kres" where
  "vs_map_frame s base f action = (case s of (h, vs) \<Rightarrow>
     if fsize f = 0 then (s, Err InvalidFrame)
     else if fbase f mod fsize f \<noteq> 0 then (s, Err InvalidFrame)
     else if base mod fsize f \<noteq> 0 then (s, Err InvalidBase)
     else if usize_limit \<le> base + fsize f then (s, Panic)
     else case map_frame_scan (range_rev (\<lambda>k. k < base + fsize f) (mappings vs)) base f action of
       Some r \<Rightarrow> (s, r)
     | None \<Rightarrow> (case heap_take h of
         (False, h') \<Rightarrow> ((h', vs), Err (KError_from FallibleTryReserveError))
       | (True, h') \<Rightarrow> (case pt_map_frame (page_table vs) base f action of (t, r) \<Rightarrow>
           ((h', \<lparr>mappings = btree_insert base (MappingInfo_new f action) (mappings vs), page_table = t\<rparr>), r))))"

definition vs_resolve :: "VSpace \<Rightarrow> nat \<Rightarrow> (nat \<times> MapAction) kres" where
  "vs_resolve vs addr = pt_resolve (page_table vs) addr"

definition vs_unmap :: "VSpace \<Rightarrow> nat \<Rightarrow> VSpace \<times> TlbFlushHandle kres" where
  "vs_unmap vs base =
     (if (case range_rev (\<lambda>k. k \<le> base) (mappings vs) of
            [] \<Rightarrow> False
          | (existing_base, existing) # _ \<Rightarrow>
              (case vrange existing existing_base of (a, b) \<Rightarrow> \<not> (a \<le> base \<and> base < b)))
      then (vs, Err NotMapped)
      else case pt_unmap (page_table vs) base of
        (t, Ok r) \<Rightarrow>
          (vs\<lparr>mappings := btree_remove (tlb_vaddr r) (mappings vs), page_table := t\<rparr>,
           if map_of (mappings vs) (tlb_vaddr r) = None then Panic else Ok r)
      | (t, Err e) \<Rightarrow> (vs\<lparr>page_table := t\<rparr>, Err e)
      | (t, Panic) \<Rightarrow> (vs\<lparr>page_table := t\<rparr>, Panic))"

definition vs_adjust :: "VSpace \<Rightarrow> nat \<Rightarrow> MapAction \<Rightarrow> VSpace \<times> (nat \<times> nat) kres" where
  "vs_adjust vs base new_rights =
     (case pt_adjust (page_table vs) base new_rights of
        (t, Ok (v, n)) \<Rightarrow>
          (case map_of (mappings vs) v of
             None \<Rightarrow> (vs\<lparr>page_table := t\<rparr>, Err NotMapped)
           | Some m \<Rightarrow> (vs\<lparr>mappings := btree_insert v (m\<lparr>minfo_rights := new_rights\<rparr>) (mappings vs),
                          page_table := t\<rparr>, Ok (v, n)))
      | (t, Err e) \<Rightarrow> (vs\<lparr>page_table := t\<rparr>, Err e)
      | (t, Panic) \<Rightarrow> (vs\<lparr>page_table := t\<rparr>, Panic))"

definition VSpace_new :: "heap \<Rightarrow> nat \<Rightarrow> nat list \<Rightarrow> (nat \<Rightarrow> table) \<Rightarrow> heap \<times> VSpace kres" where
  "VSpace_new h root frames mem =
     (case PageTable_new h root frames mem of (h', r) \<Rightarrow>
        (h', map_result (\<lambda>t. \<lparr>mappings = [], page_table = t\<rparr>) r))"

definition vs_map_identity :: "VSpace \<Rightarrow> nat \<Rightarrow> nat \<Rightarrow> MapAction \<Rightarrow> VSpace \<times> unit kres" where
  "vs_map_identity vs base sz rights =
     (case map_identity (page_table vs) base sz rights of (t, r) \<Rightarrow> (vs\<lparr>page_table := t\<rparr>, r))"

section \<open>The reference model\<close>

type_synonym model_entry = "nat \<times> nat \<times> nat \<times> MapAction"
type_synonym oplog = "model_entry list"

definition overlaps :: "nat \<times> nat \<Rightarrow> nat \<times> nat \<Rightarrow> bool" where
  "overlaps a b \<longleftrightarrow> fst a < snd b \<and> fst b < snd a"

definition intersection :: "nat \<times> nat \<Rightarrow> nat \<times> nat \<Rightarrow> (nat \<times> nat) option" where
  "intersection a b =
     (if overlaps a b then
        (case fold (\<lambda>e (lo, hi). if fst b \<le> e \<and> e < snd b then (min e lo, max e hi) else (lo, hi))
                [fst a..<snd a] (usize_max, 0) of (lo, hi) \<Rightarrow> Some (lo, hi + 1))
      else None)"

definition promotable :: "model_entry \<Rightarrow> nat \<Rightarrow> Frame \<Rightarrow> MapAction \<Rightarrow> bool" where
  "promotable e base f action = (case e of (v, p, n, r) \<Rightarrow>
     v = base \<and> v + n \<le> base + fsize f \<and> p = fbase f \<and> r = action)"

fun overlapping_mappings :: "oplog \<Rightarrow> nat \<Rightarrow> Frame \<Rightarrow> MapAction \<Rightarrow> nat list kres" where
  "overlapping_mappings [] base f action = Ok []"
| "overlapping_mappings ((v, p, n, r) # log) base f action =
     (if usize_limit \<le> v + n \<or> usize_limit \<le> base + fsize f then Panic
      else if overlaps (v, v + n) (base, base + fsize f) \<and> \<not> promotable (v, p, n, r) base f action
      then (case intersection (v, v + n) (base, base + fsize f) of
              None \<Rightarrow> Panic
            | Some (a, _) \<Rightarrow> map_result (\<lambda>as. a # as) (overlapping_mappings log base f action))
      else overlapping_mappings log base f action)"

fun promote :: "oplog \<Rightarrow> nat \<Rightarrow> Frame \<Rightarrow> MapAction \<Rightarrow> oplog option" where
  "promote [] base f action = None"
| "promote ((v, p, n, r) # log) base f action =
     (if overlaps (v, v + n) (base, base + fsize f) \<and> promotable (v, p, n, r) base f action
      then Some ((v, p, fsize f, r) # log)
      else map_option (\<lambda>log'. (v, p, n, r) # log') (promote log base f action))"

definition model_map_frame :: "oplog \<Rightarrow> nat \<Rightarrow> Frame \<Rightarrow> MapAction \<Rightarrow> oplog \<times> unit kres" where
  "model_map_frame log base f action =
     (if fsize f = 0 then (log, Err InvalidFrame)
      else if fbase f mod fsize f \<noteq> 0 then (log, Err InvalidFrame)
      else if base mod fsize f \<noteq> 0 then (log, Err InvalidBase)
      else case overlapping_mappings log base f action of
        Ok [] \<Rightarrow> (case promote log base f action of
            Some log' \<Rightarrow> (log', Ok ())
          | None \<Rightarrow> (log @ [(base, fbase f, fsize f, action)], Ok ()))
      | Ok (a # as) \<Rightarrow> (log, Err (AlreadyMapped (hd (sort (a # as)))))
      | Err e \<Rightarrow> (log, Err e)
      | Panic \<Rightarrow> (log, Panic))"

definition covers :: "nat \<Rightarrow> model_entry \<Rightarrow> bool" where
  "covers a e = (case e of (v, p, n, r) \<Rightarrow> v \<le> a \<and> a < v + n)"

text \<open>The loops run from the newest entry to the oldest.\<close>

fun adjust_first :: "oplog \<Rightarrow> nat \<Rightarrow> MapAction \<Rightarrow> (oplog \<times> nat \<times> nat) option" where
  "adjust_first [] base new_rights = None"
| "adjust_first ((v, p, n, r) # log) base new_rights =
     (if covers base (v, p, n, r) then Some ((v, p, n, new_rights) # log, v, n)
      else map_option (\<lambda>(log', x). ((v, p, n, r) # log', x)) (adjust_first log base new_rights))"

definition model_adjust :: "oplog \<Rightarrow> nat \<Rightarrow> MapAction \<Rightarrow> oplog \<times> (nat \<times> nat) kres" where
  "model_adjust log base new_rights =
     (if base mod BASE_PAGE_SIZE \<noteq> 0 then (log, Err InvalidBase)
      else case adjust_first (rev log) base new_rights of
        Some (log', x) \<Rightarrow> (rev log', Ok x)
      | None \<Rightarrow> (log, Err NotMapped))"

definition model_resolve :: "oplog \<Rightarrow> nat \<Rightarrow> (nat \<times> MapAction) kres" where
  "model_resolve log a =
     (case find (covers a) (rev log) of
        Some (v, p, n, r) \<Rightarrow> Ok (p + (a - v), r)
      | None \<Rightarrow> Err NotMapped)"

definition model_unmap :: "oplog \<Rightarrow> nat \<Rightarrow> oplog \<times> TlbFlushHandle kres" where
  "model_unmap log base =
     (if base mod BASE_PAGE_SIZE \<noteq> 0 then (log, Err InvalidBase)
      else (filter (\<lambda>e. \<not> covers base e) log,
        (case filter (covers base) log of
           [] \<Rightarrow> Err NotMapped
         | (v, p, n, r) # others \<Rightarrow>
             if others \<noteq> [] then Panic else map_result (TlbFlushHandle_new v) (Frame_new p n 0))))"

section \<open>The provided method of the trait\<close>

fun map_frames_from ::
  "('s \<Rightarrow> nat \<Rightarrow> Frame \<Rightarrow> MapAction \<Rightarrow> 's \<times> unit kres) \<Rightarrow> 's \<Rightarrow> nat \<Rightarrow> nat \<Rightarrow> (Frame \<times> MapAction) list
    \<Rightarrow> 's \<times> unit kres" where
  "map_frames_from map_frame s base cur_base [] = (s, Ok ())"
| "map_frames_from map_frame s base cur_base ((f, action) # fs) =
     and_then (map_frame s cur_base f action) (\<lambda>s' _.
       if cur_base + fsize f < usize_limit then map_frames_from map_frame s' base (cur_base + fsize f) fs
       else (s', Err (BaseOverflow base)))"

definition map_frames ::
  "('s \<Rightarrow> nat \<Rightarrow> Frame \<Rightarrow> MapAction \<Rightarrow> 's \<times> unit kres) \<Rightarrow> 's \<Rightarrow> nat \<Rightarrow> (Frame \<times> MapAction) list \<Rightarrow> 's \<times> unit kres" where
  "map_frames map_frame s base fs = map_frames_from map_frame s base base fs"

end
