(* ===== verification/VSpaceSpec.thy ===== *)
theory VSpaceSpec
  imports VSpaces
begin

text \<open>
  The hardware address space refines the reference model: a simulation relation between a
  \<open>VSpace\<close> and the log of a \<open>ModelAddressSpace\<close>, kept by every operation on page-sized frames.
\<close>

section \<open>Ordered maps\<close>

lemma range_rev_cases:
  assumes "sorted_wrt (<) (map fst m)"
  obtains (empty) "range_rev P m = []" "\<And>k x. (k, x) \<in> set m \<Longrightarrow> \<not> P k"
  | (top) k x rest where "range_rev P m = (k, x) # rest" "(k, x) \<in> set m" "P k"
      "\<And>k' x'. \<lbrakk>(k', x') \<in> set m; P k'\<rbrakk> \<Longrightarrow> k' \<le> k"
proof (cases "range_rev P m")
  case Nil
  then show ?thesis by (intro empty) (auto simp: range_rev_def filter_empty_conv)
next
  case (Cons kx rest)
  obtain k x where kx: "kx = (k, x)" by (cases kx)
  let ?f = "filter (\<lambda>(k, _). P k) m"
  have f: "?f = rev rest @ [(k, x)]" using Cons kx by (simp add: range_rev_def rev_eq_Cons_iff)
  have "sorted_wrt (\<lambda>a b. fst a < fst b) ?f" using assms by (simp add: sorted_wrt_map sorted_wrt_filter)
  then have s: "\<And>y. y \<in> set rest \<Longrightarrow> fst y < k" using f by (simp add: sorted_wrt_append)
  have i: "y \<in> set m \<and> P (fst y) \<longleftrightarrow> y \<in> set rest \<or> y = (k, x)" for y
    using arg_cong [OF f, of set] by (cases y) (auto simp: set_eq_iff)
  show ?thesis
  proof (rule top)
    show "range_rev P m = (k, x) # rest" using Cons kx by simp
    show "(k, x) \<in> set m" "P k" using i [of "(k, x)"] by simp_all
    fix k' x' assume "(k', x') \<in> set m" "P k'"
    then show "k' \<le> k" using i [of "(k', x')"] s [of "(k', x')"] by auto
  qed
qed

lemma sorted_keys_unique: "\<lbrakk>sorted_wrt (<) (map fst m); (k, x) \<in> set m; (k, y) \<in> set m\<rbrakk> \<Longrightarrow> x = (y::'a)" for k :: nat
  by (metis eq_key_imp_eq_value strict_sorted_iff)

lemma sorted_map_of: "\<lbrakk>sorted_wrt (<) (map fst m); (k, x) \<in> set m\<rbrakk> \<Longrightarrow> map_of m k = Some (x::'a)" for k :: nat
  by (simp add: strict_sorted_iff)

lemma btree_insert_sorted:
  assumes "sorted_wrt (<) (map fst m)"
  shows "sorted_wrt (<) (map fst (btree_insert k x m))"
  using assms
  by (fastforce simp: btree_insert_def sorted_wrt_append sorted_wrt_map sorted_wrt_filter intro: less_trans)

lemma btree_insert_set: "set (btree_insert k x m) = insert (k, x) {y \<in> set m. fst y \<noteq> k}"
  by (auto simp: btree_insert_def)

lemma btree_remove_set: "set (btree_remove k m) = {y \<in> set m. fst y \<noteq> k}"
  by (auto simp: btree_remove_def)

lemma btree_remove_sorted: "sorted_wrt (<) (map fst m) \<Longrightarrow> sorted_wrt (<) (map fst (btree_remove k m))"
  by (simp add: btree_remove_def sorted_wrt_map sorted_wrt_filter)

lemma filter_only: "\<lbrakk>distinct xs; x \<in> set xs\<rbrakk> \<Longrightarrow> filter (\<lambda>y. y = x) xs = [x]"
  by (induction xs) (auto simp: filter_empty_conv)

section \<open>The simulation relation\<close>

definition page_depth :: "nat \<Rightarrow> nat" where
  "page_depth n = (if n = LARGE_PAGE_SIZE then 2 else 3)"

definition entry_ok :: "model_entry \<Rightarrow> bool" where
  "entry_ok e = (case e of (v, p, n, r) \<Rightarrow>
     (n = BASE_PAGE_SIZE \<or> n = LARGE_PAGE_SIZE) \<and> v mod n = 0 \<and> p mod n = 0 \<and> v + n \<le> VADDR_LIMIT \<and> granted r = r)"

definition page_of :: "model_entry \<Rightarrow> nat \<times> entry" where
  "page_of e = (case e of (v, p, n, r) \<Rightarrow> (page_depth n, new_page (page_depth n) r p))"

definition entries_apart :: "model_entry set \<Rightarrow> bool" where
  "entries_apart S \<longleftrightarrow> (\<forall>e \<in> S. \<forall>e' \<in> S. \<forall>a. covers a e \<and> covers a e' \<longrightarrow> e = e')"

definition shown :: "PageTable \<Rightarrow> model_entry set \<Rightarrow> bool" where
  "shown t S \<longleftrightarrow> (\<forall>e \<in> S. \<forall>a. covers a e \<longrightarrow> find_page t a = Some (page_of e))
     \<and> (\<forall>a. find_page t a \<noteq> None \<longrightarrow> (\<exists>e \<in> S. covers a e))"

definition entry_of :: "nat \<times> MappingInfo \<Rightarrow> model_entry" where
  "entry_of x = (fst x, fbase (minfo_frame (snd x)), fsize (minfo_frame (snd x)), minfo_rights (snd x))"

definition sim :: "VSpace \<Rightarrow> oplog \<Rightarrow> bool" where
  "sim vs log \<longleftrightarrow> pt_inv (page_table vs) \<and> sorted_wrt (<) (map fst (mappings vs))
     \<and> set log = entry_of ` set (mappings vs) \<and> distinct log
     \<and> (\<forall>e \<in> set log. entry_ok e) \<and> entries_apart (set log) \<and> shown (page_table vs) (set log)"

lemma simD:
  assumes "sim vs log"
  shows "pt_inv (page_table vs)" and "sorted_wrt (<) (map fst (mappings vs))"
    and "set log = entry_of ` set (mappings vs)" and "distinct log"
    and "\<And>e. e \<in> set log \<Longrightarrow> entry_ok e" and "entries_apart (set log)" and "shown (page_table vs) (set log)"
  using assms by (auto simp: sim_def)

lemma entries_apartD: "\<lbrakk>entries_apart S; e \<in> S; e' \<in> S; covers a e; covers a e'\<rbrakk> \<Longrightarrow> e = e'"
  by (auto simp: entries_apart_def)

lemma entries_apartI: "(\<And>e e' a. \<lbrakk>e \<in> S; e' \<in> S; covers a e; covers a e'\<rbrakk> \<Longrightarrow> e = e') \<Longrightarrow> entries_apart S"
  by (auto simp: entries_apart_def)

lemma entries_apart_subset: "entries_apart S \<Longrightarrow> T \<subseteq> S \<Longrightarrow> entries_apart T"
  by (auto simp: entries_apart_def)

lemma shownI:
  "\<lbrakk>\<And>e a. \<lbrakk>e \<in> S; covers a e\<rbrakk> \<Longrightarrow> find_page t a = Some (page_of e);
    \<And>a. find_page t a \<noteq> None \<Longrightarrow> \<exists>e \<in> S. covers a e\<rbrakk> \<Longrightarrow> shown t S"
  by (auto simp: shown_def)

lemma shownD: "\<lbrakk>shown t S; e \<in> S; covers a e\<rbrakk> \<Longrightarrow> find_page t a = Some (page_of e)"
  by (simp add: shown_def)

text \<open>How the relation follows the page table when an entry goes, changes its rights or is added.\<close>

lemma shown_remove:
  assumes "shown t S" and "entries_apart S" and "e \<in> S"
    and "\<And>w. find_page t' w = (if covers w e then None else find_page t w)"
  shows "shown t' (S - {e})"
proof (rule shownI)
  fix x a assume "x \<in> S - {e}" "covers a x"
  moreover from this have "\<not> covers a e" using entries_apartD [OF assms(2)] assms(3) by blast
  ultimately show "find_page t' a = Some (page_of x)" using assms(1,4) by (simp add: shown_def)
next
  fix a assume "find_page t' a \<noteq> None"
  then have "\<not> covers a e" "find_page t a \<noteq> None" using assms(4) [of a] by (metis, metis)
  then show "\<exists>x \<in> S - {e}. covers a x" using assms(1) unfolding shown_def by blast
qed

lemma shown_add:
  assumes "shown t S" and "\<And>x w. \<lbrakk>x \<in> S; covers w x\<rbrakk> \<Longrightarrow> \<not> covers w e"
    and "\<And>w. find_page t' w = (if covers w e then Some (page_of e) else find_page t w)"
  shows "shown t' (insert e S)"
proof (rule shownI)
  fix x a assume "x \<in> insert e S" "covers a x"
  then show "find_page t' a = Some (page_of x)" using assms(2,3) shownD [OF assms(1)] by (metis insert_iff)
next
  fix a assume "find_page t' a \<noteq> None"
  then have "covers a e \<or> find_page t a \<noteq> None" using assms(3) [of a] by metis
  then show "\<exists>x \<in> insert e S. covers a x" using assms(1) unfolding shown_def by blast
qed

lemma entries_apart_add:
  assumes "entries_apart S" and "\<And>x w. \<lbrakk>x \<in> S; covers w x\<rbrakk> \<Longrightarrow> \<not> covers w e"
  shows "entries_apart (insert e S)"
  by (rule entries_apartI) (use assms entries_apartD [OF assms(1)] in blast)

lemma swap_entry:
  assumes "shown t S" and "entries_apart S" and "e \<in> S" and cov: "\<And>w. covers w e' = covers w e"
    and "\<And>w. find_page t' w = (if covers w e then Some (page_of e') else find_page t w)"
  shows "entries_apart (insert e' (S - {e}))" and "shown t' (insert e' (S - {e}))"
proof -
  have no: "\<not> covers w e'" if "x \<in> S - {e}" "covers w x" for x w
    using that entries_apartD [OF assms(2)] assms(3) cov by blast
  show "entries_apart (insert e' (S - {e}))"
    by (rule entries_apart_add) (use no entries_apart_subset [OF assms(2), of "S - {e}"] in blast)+
  show "shown t' (insert e' (S - {e}))"
  proof (rule shownI)
    fix x a assume "x \<in> insert e' (S - {e})" "covers a x"
    then show "find_page t' a = Some (page_of x)"
      using assms(5) no cov shownD [OF assms(1)] by (metis Diff_iff insert_iff)
  next
    fix a assume "find_page t' a \<noteq> None"
    then have "covers a e \<or> find_page t a \<noteq> None" using assms(5) [of a] by metis
    then show "\<exists>x \<in> insert e' (S - {e}). covers a x" using assms(1) cov unfolding shown_def by blast
  qed
qed

lemma entry_okD:
  assumes "entry_ok (v, p, n, r)"
  shows "0 < n" and "entry_size (page_depth n) = n" and "1 \<le> page_depth n" and "page_depth n \<le> 3"
    and "v + n \<le> VADDR_LIMIT" and "granted r = r" and "v mod n = 0" and "p mod n = 0"
    and "n mod BASE_PAGE_SIZE = 0"
  using assms by (auto simp: entry_ok_def page_depth_def entry_size_def)

lemma covers_start: "entry_ok (v, p, n, r) \<Longrightarrow> covers v (v, p, n, r)"
  using entry_okD(1) by (simp add: covers_def)

lemma covers_page:
  assumes "entry_ok (v, p, n, r)" and "covers a (v, p, n, r)"
  shows "a mod n = a - v" and "a - a mod n = v" and "w div n = a div n \<longleftrightarrow> covers w (v, p, n, r)" and "a < VADDR_LIMIT"
proof -
  have c: "v \<le> a" "a < v + n" "v mod n = 0" "0 < n" using assms entry_okD [OF assms(1)] by (simp_all add: covers_def)
  have "a mod n = (v + (a - v)) mod n" using c by simp
  also have "\<dots> = (a - v) mod n" using c(3) by (metis add.commute mod_add_self2 mod_0_imp_dvd dvd_add_right_iff mod_add_left_eq add_0)
  also have "\<dots> = a - v" using c by (intro mod_less) linarith
  finally show m: "a mod n = a - v" .
  then show s: "a - a mod n = v" using c by simp
  show "w div n = a div n \<longleftrightarrow> covers w (v, p, n, r)" using page_region [OF c(4), of w a] s by (simp add: covers_def)
  show "a < VADDR_LIMIT" using c entry_okD(5) [OF assms(1)] by linarith
qed

text \<open>What covers an address, in the log and in the page table.\<close>

lemma owner_cases:
  assumes "sim vs log"
  obtains (owned) v p n r where "(v, p, n, r) \<in> set log" "entry_ok (v, p, n, r)" "covers a (v, p, n, r)"
      "find (covers a) (rev log) = Some (v, p, n, r)"
      "find_page (page_table vs) a = Some (page_depth n, new_page (page_depth n) r p)"
  | (free) "\<And>e. e \<in> set log \<Longrightarrow> \<not> covers a e" "find (covers a) (rev log) = None"
      "find_page (page_table vs) a = None"
proof (cases "find (covers a) (rev log)")
  case None
  then have n: "\<And>e. e \<in> set log \<Longrightarrow> \<not> covers a e" by (metis find_None_iff set_rev)
  then have "find_page (page_table vs) a = None" using simD(7) [OF assms] unfolding shown_def by blast
  then show ?thesis using n None by (intro free)
next
  case (Some e)
  then have e: "e \<in> set log" "covers a e" by (metis find_Some_iff nth_mem set_rev)+
  obtain v p n r where vpn: "e = (v, p, n, r)" by (cases e)
  have "find_page (page_table vs) a = Some (page_of e)" using simD(7) [OF assms] e by (auto simp: shown_def)
  then show ?thesis using e Some simD(5) [OF assms e(1)] unfolding vpn by (intro owned) (simp_all add: page_of_def)
qed

lemma sim_entry:
  assumes "sim vs log" and "(b, m) \<in> set (mappings vs)"
  shows "entry_of (b, m) \<in> set log" and "entry_ok (entry_of (b, m))" and "covers b (entry_of (b, m))"
    and "covers a (entry_of (b, m)) \<longleftrightarrow> b \<le> a \<and> a < snd (vrange m b)"
proof -
  show i: "entry_of (b, m) \<in> set log" using simD(3) [OF assms(1)] assms(2) by simp
  then show o: "entry_ok (entry_of (b, m))" by (rule simD(5) [OF assms(1)])
  then show "covers b (entry_of (b, m))" unfolding entry_of_def fst_conv by (rule covers_start)
  show "covers a (entry_of (b, m)) \<longleftrightarrow> b \<le> a \<and> a < snd (vrange m b)"
    by (simp add: covers_def entry_of_def vrange_def)
qed

lemma sim_mapping:
  assumes "sim vs log" and "(v, p, n, r) \<in> set log"
  obtains m where "(v, m) \<in> set (mappings vs)" "entry_of (v, m) = (v, p, n, r)"
  using assms simD(3) [OF assms(1)] by (auto simp: entry_of_def)

lemma sim_key:
  assumes "sim vs log" and "(v, m) \<in> set (mappings vs)" and "x \<in> set (mappings vs)"
  shows "fst x = v \<longleftrightarrow> entry_of x = entry_of (v, m)"
proof
  assume "fst x = v"
  then have "x = (v, snd x)" by (cases x) simp
  then have "(v, snd x) \<in> set (mappings vs)" using assms(3) by simp
  then have "snd x = m" using sorted_keys_unique [OF simD(2) [OF assms(1)] _ assms(2)] by blast
  then show "entry_of x = entry_of (v, m)" using \<open>x = (v, snd x)\<close> by simp
qed (simp add: entry_of_def)

lemma entries_without:
  assumes "sim vs log" and "(v, m) \<in> set (mappings vs)"
  shows "entry_of ` {x \<in> set (mappings vs). fst x \<noteq> v} = set log - {entry_of (v, m)}"
proof -
  have "{x \<in> set (mappings vs). fst x \<noteq> v} = {x \<in> set (mappings vs). entry_of x \<noteq> entry_of (v, m)}"
  proof (rule Collect_cong)
    fix x show "x \<in> set (mappings vs) \<and> fst x \<noteq> v \<longleftrightarrow> x \<in> set (mappings vs) \<and> entry_of x \<noteq> entry_of (v, m)"
      using sim_key [OF assms, of x] by argo
  qed
  moreover have "entry_of ` {x \<in> M. entry_of x \<noteq> e} = entry_of ` M - {e}" for M e by auto
  ultimately show ?thesis unfolding simD(3) [OF assms(1)] by (simp only:)
qed

section \<open>Resolving and unmapping\<close>

lemma resolve_sim:
  assumes "sim vs log" and "a < VADDR_LIMIT"
  shows "vs_resolve vs a = model_resolve log a"
  using assms(1)
proof (cases rule: owner_cases [where a = a])
  case (owned v p n r)
  then show ?thesis
    using resolve_find_page [OF simD(1) [OF assms(1)] assms(2)] entry_okD [OF owned(2)] covers_page(1) [OF owned(2,3)]
    by (simp add: vs_resolve_def model_resolve_def)
next
  case free
  then show ?thesis
    using resolve_find_page [OF simD(1) [OF assms(1)] assms(2)] by (simp add: vs_resolve_def model_resolve_def)
qed

text \<open>The guard in front of \<open>unmap\<close> lets an address pass exactly when a mapping covers it, or nothing precedes it.\<close>

lemma unmap_guard_owned:
  assumes s: "sim vs log" and e: "(v, p, n, r) \<in> set log" "covers a (v, p, n, r)"
  shows "\<not> (case range_rev (\<lambda>k. k \<le> a) (mappings vs) of [] \<Rightarrow> False
     | (b, m) # _ \<Rightarrow> (case vrange m b of (x, y) \<Rightarrow> \<not> (x \<le> a \<and> a < y)))"
proof -
  have va: "v \<le> a" "a < v + n" using e(2) by (simp_all add: covers_def)
  obtain m where m: "(v, m) \<in> set (mappings vs)" "entry_of (v, m) = (v, p, n, r)" by (rule sim_mapping [OF s e(1)], rule that)
  show ?thesis
    using simD(2) [OF s]
  proof (cases rule: range_rev_cases [where P = "\<lambda>k. k \<le> a"])
    case (top k x rest)
    have "v \<le> k" using top(4) [OF m(1)] va(1) .
    then have "covers k (v, p, n, r)" using top(3) va by (simp add: covers_def)
    then have "entry_of (k, x) = (v, p, n, r)"
      using entries_apartD [OF simD(6) [OF s] sim_entry(1) [OF s top(2)] e(1) sim_entry(3) [OF s top(2)]] by simp
    then show ?thesis using top(1) va by (auto simp: entry_of_def vrange_def)
  qed simp
qed

lemma unmap_sim:
  assumes s: "sim vs log" and a: "a < VADDR_LIMIT" "a mod BASE_PAGE_SIZE = 0"
  obtains vs' log' x where "vs_unmap vs a = (vs', x)" "model_unmap log a = (log', x)" "sim vs' log'"
    "da (page_table vs') = da (page_table vs)"
  using s
proof (cases rule: owner_cases [where a = a])
  case (owned v p n r)
  note ok = entry_okD [OF owned(2)] and cp = covers_page [OF owned(2,3)]
  obtain t' where t': "pt_unmap (page_table vs) a = (t', Ok (TlbFlushHandle_new v \<lparr>fbase = p, fsize = n, affinity = 0\<rparr>))"
    "pt_inv t'" "da t' = da (page_table vs)"
    "\<And>w. find_page t' w = (if covers w (v, p, n, r) then None else find_page (page_table vs) w)"
    using pt_unmap_page [OF simD(1) [OF s] a owned(5)] unfolding ok(2) cp(2,3) by auto
  obtain m where m: "(v, m) \<in> set (mappings vs)" "entry_of (v, m) = (v, p, n, r)" by (rule sim_mapping [OF s owned(1)], rule that)
  have un: "e = (v, p, n, r)" if "e \<in> set log" "covers w e" "covers w (v, p, n, r)" for e w
    using entries_apartD [OF simD(6) [OF s] that(1) owned(1) that(2,3)] .
  have f: "filter (covers a) log = [(v, p, n, r)]"
  proof -
    have "filter (covers a) log = filter (\<lambda>e. e = (v, p, n, r)) log"
      by (rule filter_cong [OF refl]) (use un [OF _ _ owned(3)] owned(3) in blast)
    then show ?thesis using filter_only [OF simD(4) [OF s] owned(1)] by simp
  qed
  let ?vs = "vs\<lparr>mappings := btree_remove v (mappings vs), page_table := t'\<rparr>" and ?log = "filter (\<lambda>e. \<not> covers a e) log"
  have sl: "set ?log = set log - {(v, p, n, r)}" using un [OF _ _ owned(3)] owned(3) by auto
  have "sim ?vs ?log"
    unfolding sim_def
  proof (intro conjI)
    show "set ?log = entry_of ` set (mappings ?vs)"
      unfolding sl using entries_without [OF s m(1)] m(2) by (simp add: btree_remove_set)
    show "entries_apart (set ?log)" by (rule entries_apart_subset [OF simD(6) [OF s]]) auto
    show "shown (page_table ?vs) (set ?log)"
      unfolding sl using shown_remove [OF simD(7,6) [OF s] owned(1) t'(4)] by simp
  qed (use simD [OF s] t'(2) in \<open>auto intro: btree_remove_sorted\<close>)
  moreover have "vs_unmap vs a = (?vs, Ok (TlbFlushHandle_new v \<lparr>fbase = p, fsize = n, affinity = 0\<rparr>))"
    using unmap_guard_owned [OF s owned(1,3)] t'(1) sorted_map_of [OF simD(2) [OF s] m(1)]
    by (simp add: vs_unmap_def TlbFlushHandle_new_def)
  moreover have "Frame_new p n 0 = Ok \<lparr>fbase = p, fsize = n, affinity = 0\<rparr>"
    using ok(8,9) base_aligned [of p "page_depth n"] ok(2) by (simp add: Frame_new_def)
  ultimately show ?thesis using that t'(3) f a(2) by (simp add: model_unmap_def)
next
  case free
  have f: "filter (covers a) log = []" "filter (\<lambda>e. \<not> covers a e) log = log"
    using free(1) by (simp_all add: filter_empty_conv filter_id_conv)
  have "vs_unmap vs a = (vs, Err NotMapped)"
    using pt_unmap_none(1) [OF simD(1) [OF s] a free(3)] by (simp add: vs_unmap_def split: list.splits)
  then show ?thesis using that s f a(2) by (simp add: model_unmap_def)
qed

section \<open>Adjusting\<close>

lemma adjust_first_eq:
  assumes "(v, p, n, r) \<in> set log" and "covers a (v, p, n, r)" and "distinct log"
    and "\<And>e. \<lbrakk>e \<in> set log; covers a e\<rbrakk> \<Longrightarrow> e = (v, p, n, r)"
  shows "adjust_first log a r' = Some (map (\<lambda>e. if e = (v, p, n, r) then (v, p, n, r') else e) log, v, n)"
  using assms
proof (induction log)
  case (Cons e log)
  obtain v' p' n' r0 where e: "e = (v', p', n', r0)" by (cases e)
  show ?case
  proof (cases "e = (v, p, n, r)")
    case True
    then have "map (\<lambda>e. if e = (v, p, n, r) then (v, p, n, r') else e) log = log"
      using Cons.prems(3) by (intro map_idI) auto
    then show ?thesis using True Cons.prems(2) by simp
  next
    case False
    then have "\<not> covers a e" using Cons.prems(4) [of e] by auto
    moreover have "adjust_first log a r' = Some (map (\<lambda>e. if e = (v, p, n, r) then (v, p, n, r') else e) log, v, n)"
      using Cons.prems False by (intro Cons.IH) auto
    ultimately show ?thesis using False unfolding e by auto
  qed
qed simp

lemma adjust_first_None: "(\<And>e. e \<in> set log \<Longrightarrow> \<not> covers a e) \<Longrightarrow> adjust_first log a r' = None"
  by (induction log) auto

lemma adjust_sim:
  assumes s: "sim vs log" and a: "a < VADDR_LIMIT" "a mod BASE_PAGE_SIZE = 0" and r': "granted r' = r'"
  obtains vs' log' x where "vs_adjust vs a r' = (vs', x)" "model_adjust log a r' = (log', x)" "sim vs' log'"
    "da (page_table vs') = da (page_table vs)"
  using s
proof (cases rule: owner_cases [where a = a])
  case (owned v p n r)
  note ok = entry_okD [OF owned(2)] and cp = covers_page [OF owned(2,3)]
  let ?e = "(v, p, n, r)" and ?e' = "(v, p, n, r')" and ?upd = "\<lambda>e. if e = (v, p, n, r) then (v, p, n, r') else e"
  obtain t' where t': "pt_adjust (page_table vs) a r' = (t', Ok (v, n))"
    "pt_inv t'" "da t' = da (page_table vs)"
    "\<And>w. find_page t' w = (if covers w ?e then Some (page_depth n, new_page (page_depth n) r' p)
       else find_page (page_table vs) w)"
    by (rule pt_adjust_page [OF simD(1) [OF s] a owned(5), of r', unfolded ok(2) cp(2,3) entry.simps(1)], rule that)
  obtain m where m: "(v, m) \<in> set (mappings vs)" "entry_of (v, m) = ?e" by (rule sim_mapping [OF s owned(1)], rule that)
  have un: "e = ?e" if "e \<in> set log" "covers w e" "covers w ?e" for e w
    using entries_apartD [OF simD(6) [OF s] that(1) owned(1) that(2,3)] .
  have cov: "covers w ?e' \<longleftrightarrow> covers w ?e" for w by (simp add: covers_def)
  let ?vs = "vs\<lparr>mappings := btree_insert v (m\<lparr>minfo_rights := r'\<rparr>) (mappings vs), page_table := t'\<rparr>"
    and ?log = "map ?upd log"
  have new: "entry_of (v, m\<lparr>minfo_rights := r'\<rparr>) = ?e'" using m(2) by (simp add: entry_of_def)
  have sl: "set ?log = insert ?e' (set log - {?e})" using owned(1) by auto
  have "find_page t' w = (if covers w ?e then Some (page_of ?e') else find_page (page_table vs) w)" for w
    using t'(4) by (simp add: page_of_def)
  note swap = swap_entry [OF simD(7,6) [OF s] owned(1) cov this]
  have "sim ?vs ?log"
    unfolding sim_def
  proof (intro conjI)
    show "set ?log = entry_of ` set (mappings ?vs)"
      unfolding sl using entries_without [OF s m(1)] m(2) new by (simp add: btree_insert_set)
    show "distinct ?log"
    proof -
      have "inj_on ?upd (set log)" using un [of ?e' v] covers_start [OF owned(2)] cov by (auto simp: inj_on_def)
      then show ?thesis using simD(4) [OF s] by (simp add: distinct_map)
    qed
    show "\<forall>e \<in> set ?log. entry_ok e" using simD(5) [OF s] owned(2) r' by (auto simp: entry_ok_def)
    show "entries_apart (set ?log)" "shown (page_table ?vs) (set ?log)" unfolding sl using swap by simp_all
  qed (use simD [OF s] t'(2) in \<open>auto intro: btree_insert_sorted\<close>)
  moreover have "vs_adjust vs a r' = (?vs, Ok (v, n))"
    using t'(1) sorted_map_of [OF simD(2) [OF s] m(1)] by (simp add: vs_adjust_def)
  moreover have "model_adjust log a r' = (?log, Ok (v, n))"
  proof -
    have "adjust_first (rev log) a r' = Some (map ?upd (rev log), v, n)"
    proof (rule adjust_first_eq)
      fix e assume "e \<in> set (rev log)" "covers a e"
      then show "e = ?e" using un [OF _ _ owned(3)] by (metis set_rev)
    qed (use owned(1,3) simD(4) [OF s] in simp_all)
    then show ?thesis using a(2) by (simp add: model_adjust_def rev_map [symmetric])
  qed
  ultimately show ?thesis using that t'(3) by simp
next
  case free
  have "vs_adjust vs a r' = (vs, Err NotMapped)"
    using pt_unmap_none(2) [OF simD(1) [OF s] a free(3)] by (simp add: vs_adjust_def)
  moreover have "model_adjust log a r' = (log, Err NotMapped)"
    using adjust_first_None [of "rev log" a r'] free(1) a(2) by (simp add: model_adjust_def)
  ultimately show ?thesis using that s by blast
qed

section \<open>Mapping\<close>

lemma map_one_page:
  assumes inv: "pt_inv t" and ok: "entry_ok (v, p, n, r)" and un: "unmapped t v n" and free: "3 \<le> length (da t)"
  obtains t' where "map_generic t v p n r True = (t', Ok ())" "pt_inv t'" "length (da t) \<le> length (da t') + 3"
    "\<And>w. find_page t' w = (if covers w (v, p, n, r) then Some (page_of (v, p, n, r)) else find_page t w)"
proof -
  note o = entry_okD [OF ok]
  have dv: "n dvd v" "n dvd p" "BASE_PAGE_SIZE dvd n" using o(7-9) by (simp_all only: dvd_eq_mod_eq_0)
  have n: "n = BASE_PAGE_SIZE \<or> n = LARGE_PAGE_SIZE" using ok by (simp add: entry_ok_def)
  have cl: "clear t v n"
    unfolding clear_def
  proof (intro allI impI)
    fix d m assume a: "(d = 1 \<or> d = 2) \<and> v < m * entry_size d \<and> (m + 1) * entry_size d \<le> v + n"
    then have "n \<le> entry_size d" using n by (auto simp: entry_size_def)
    moreover have "(m + 1) * entry_size d = m * entry_size d + entry_size d" by simp
    ultimately show "tab t (Suc d) m = None" using a by linarith
  qed
  have v: "v < VADDR_LIMIT" using o(1,5) by linarith
  obtain d c t' where m: "map_prefix t v p n r True = (t', Ok (c * entry_size d))"
    "1 \<le> d" "d \<le> 3" "1 \<le> c" "c * entry_size d \<le> n" "entry_size d dvd v" "entry_size d dvd p" "made t t' d r v p c 3"
    "d = 3 \<Longrightarrow> \<not> (LARGE_PAGE_SIZE dvd v \<and> LARGE_PAGE_SIZE dvd p \<and> LARGE_PAGE_SIZE \<le> n)"
    by (rule map_prefix_ok [OF inv v dvd_trans [OF dv(3,1)] dvd_trans [OF dv(3,2)] dv(3) o(1) un cl free], rule that)
  have "d = 1 \<or> d = 2 \<or> d = 3" using m(2,3) by linarith
  then have d: "d = page_depth n" "c = 1"
    using m(4,5,9) n dv(1,2) by (auto simp: entry_size_def page_depth_def)
  have e: "c * entry_size d = n" using d o(2) by simp
  have inv': "pt_inv t'" and ad: "adds t t' d r v p c" and l: "length (da t) \<le> length (da t') + 3"
    using m(8) by (simp_all add: made_def)
  have "find_page t' w = (if covers w (v, p, n, r) then Some (page_of (v, p, n, r)) else find_page t w)" for w
  proof (cases "covers w (v, p, n, r)")
    case True
    then have "w div n = v div n" using covers_page(3) [OF ok covers_start [OF ok], of w] by simp
    then show ?thesis using adds_find_page [OF ad m(2,3,6), of w] e True d o(2) by (simp add: covers_def page_of_def)
  next
    case False
    then show ?thesis using adds_find_page [OF ad m(2,3,6), of w] e by (auto simp: covers_def)
  qed
  moreover have "map_generic t v p n r True = (t', Ok ())" using m(1) e by (simp add: map_generic.simps)
  ultimately show ?thesis using that inv' l by blast
qed

definition hits :: "nat \<Rightarrow> nat \<Rightarrow> model_entry \<Rightarrow> bool" where
  "hits base n e = (case e of (v, p, k, r) \<Rightarrow> overlaps (v, v + k) (base, base + n))"

lemma hits_iff: "\<lbrakk>entry_ok e; 0 < n\<rbrakk> \<Longrightarrow> hits base n e \<longleftrightarrow> (\<exists>a. base \<le> a \<and> a < base + n \<and> covers a e)"
proof -
  assume a: "entry_ok e" "0 < n"
  obtain v p k r where e: "e = (v, p, k, r)" by (cases e)
  have "0 < k" using entry_okD(1) a(1) unfolding e by blast
  then have "v < base + n \<and> base < v + k \<longleftrightarrow> (\<exists>a. base \<le> a \<and> a < base + n \<and> v \<le> a \<and> a < v + k)"
    using a(2) by (auto intro: exI [of _ "max v base"])
  then show ?thesis by (simp add: hits_def overlaps_def covers_def e)
qed

lemma intersection_Some: "overlaps a b \<Longrightarrow> \<exists>x y. intersection a b = Some (x, y)"
  by (simp add: intersection_def case_prod_beta)

lemma overlapping_mappings_Ok:
  assumes "\<And>e. e \<in> set log \<Longrightarrow> entry_ok e" and "base + fsize f \<le> VADDR_LIMIT"
  shows "\<exists>as. overlapping_mappings log base f r = Ok as
    \<and> (as = [] \<longleftrightarrow> (\<forall>e \<in> set log. hits base (fsize f) e \<longrightarrow> promotable e base f r))"
  using assms(1)
proof (induction log)
  case (Cons e log)
  obtain v p n r' where e: "e = (v, p, n, r')" by (cases e)
  have "v + n \<le> VADDR_LIMIT" using entry_okD(5) [of v p n r'] Cons.prems [of e] e by simp
  then have small: "\<not> (usize_limit \<le> v + n \<or> usize_limit \<le> base + fsize f)" using assms(2) by simp
  have h: "hits base (fsize f) e \<longleftrightarrow> overlaps (v, v + n) (base, base + fsize f)" by (simp add: hits_def e)
  obtain as where as: "overlapping_mappings log base f r = Ok as"
    "as = [] \<longleftrightarrow> (\<forall>e \<in> set log. hits base (fsize f) e \<longrightarrow> promotable e base f r)"
    using Cons.IH Cons.prems by (metis list.set_intros(2))
  show ?case
  proof (cases "hits base (fsize f) e \<and> \<not> promotable e base f r")
    case True
    then obtain a b where "intersection (v, v + n) (base, base + fsize f) = Some (a, b)"
      using h intersection_Some by blast
    then have "overlapping_mappings (e # log) base f r = Ok (a # as)"
      using True h small as(1) unfolding e by simp
    then show ?thesis using True by auto
  next
    case False
    then have "overlapping_mappings (e # log) base f r = Ok as" using h small as(1) unfolding e by auto
    then show ?thesis using False as(2) by auto
  qed
qed simp

lemma promote_same:
  assumes "\<And>v p n r'. \<lbrakk>(v, p, n, r') \<in> set log; hits base (fsize f) (v, p, n, r')\<rbrakk>
      \<Longrightarrow> promotable (v, p, n, r') base f r \<and> n = fsize f"
  shows "promote log base f r = (if \<exists>e \<in> set log. hits base (fsize f) e then Some log else None)"
  using assms
proof (induction log)
  case (Cons e log)
  obtain v p n r' where e: "e = (v, p, n, r')" by (cases e)
  have "promote log base f r = (if \<exists>e \<in> set log. hits base (fsize f) e then Some log else None)"
    using Cons.prems by (intro Cons.IH) (meson list.set_intros(2))
  then show ?case using Cons.prems [of v p n r'] unfolding e by (auto simp: hits_def)
qed simp

text \<open>The first entry that the loop of \<open>map_frame\<close> looks at decides whether anything is hit.\<close>

lemma scan_cases:
  assumes s: "sim vs log" and n: "0 < fsize f"
    and l_def: "l = range_rev (\<lambda>k. k < base + fsize f) (mappings vs)"
  obtains (clear) "map_frame_scan l base f r = None" "\<And>e. e \<in> set log \<Longrightarrow> \<not> hits base (fsize f) e"
  | (same) v p k where "map_frame_scan l base f r = Some (Ok ())" "(v, p, k, r) \<in> set log"
      "promotable (v, p, k, r) base f r" "hits base (fsize f) (v, p, k, r)"
  | (conflict) e b where "map_frame_scan l base f r = Some (Err (AlreadyMapped b))" "e \<in> set log"
      "hits base (fsize f) e" "\<not> promotable e base f r"
  using simD(2) [OF s]
proof (cases rule: range_rev_cases [where P = "\<lambda>k. k < base + fsize f"])
  case empty
  have "\<not> hits base (fsize f) e" if "e \<in> set log" for e
    using that empty(2) unfolding simD(3) [OF s] by (auto simp: hits_def overlaps_def entry_of_def)
  then show ?thesis using clear empty(1) l_def by simp
next
  case (top k x rest)
  let ?e = "entry_of (k, x)"
  note e = sim_entry [OF s top(2)]
  have vr: "snd (vrange x k) = k + fsize (minfo_frame x)" by (simp add: vrange_def)
  have h: "hits base (fsize f) ?e \<longleftrightarrow> base < k + fsize (minfo_frame x)"
    using top(3) by (simp add: hits_def overlaps_def entry_of_def)
  have pr: "promotable ?e base f r \<longleftrightarrow> k = base \<and> fbase (minfo_frame x) = fbase f
      \<and> fsize (minfo_frame x) \<le> fsize f \<and> minfo_rights x = r"
    by (auto simp: promotable_def entry_of_def)
  show ?thesis
  proof (cases "base < k + fsize (minfo_frame x)")
    case False
    have "\<not> hits base (fsize f) e'" if e': "e' \<in> set log" for e'
    proof
      assume "hits base (fsize f) e'"
      then obtain a where a: "base \<le> a" "a < base + fsize f" "covers a e'"
        using hits_iff [OF simD(5) [OF s e'] n] by blast
      obtain v p m q where vp: "e' = (v, p, m, q)" by (cases e')
      have va: "v \<le> a" "a < v + m" using a(3) vp by (simp_all add: covers_def)
      have "v \<le> k" using sim_mapping [OF s e' [unfolded vp]] top(4) va(1) a(2) by (metis le_less_trans)
      moreover have "k < a" using False a(1) e(3) by (simp add: covers_def entry_of_def)
      ultimately have "covers k e'" using va vp by (simp add: covers_def)
      then have "e' = ?e" using entries_apartD [OF simD(6) [OF s] e' e(1) _ e(3)] by blast
      then show False using a(1,3) False by (simp add: covers_def entry_of_def)
    qed
    then show ?thesis using clear False top(1) vr l_def by simp
  next
    case True
    show ?thesis
    proof (cases "promotable ?e base f r")
      case p: True
      then have "minfo_rights x = r" using pr by simp
      then have eq: "?e = (k, fbase (minfo_frame x), fsize (minfo_frame x), r)" by (simp add: entry_of_def)
      show ?thesis
        by (rule same [of k "fbase (minfo_frame x)" "fsize (minfo_frame x)"])
          (use True top(1) vr l_def pr p h e(1) eq in simp_all)
    next
      case np: False
      show ?thesis by (rule conflict [of k ?e]) (use True top(1) vr l_def pr np h e(1) in simp_all)
    qed
  qed
qed

lemma sim_add:
  assumes s: "sim vs log" and ok: "entry_ok (base, fbase f, fsize f, r)"
    and free: "\<And>e. e \<in> set log \<Longrightarrow> \<not> hits base (fsize f) e" and t: "pt_inv t"
    "\<And>w. find_page t w = (if covers w (base, fbase f, fsize f, r) then Some (page_of (base, fbase f, fsize f, r))
       else find_page (page_table vs) w)"
  shows "sim \<lparr>mappings = btree_insert base (MappingInfo_new f r) (mappings vs), page_table = t\<rparr>
     (log @ [(base, fbase f, fsize f, r)])"
proof -
  let ?e = "(base, fbase f, fsize f, r)" and ?m = "btree_insert base (MappingInfo_new f r) (mappings vs)"
  have no: "\<not> covers w ?e" if "x \<in> set log" "covers w x" for x w
    using free [OF that(1)] hits_iff [OF simD(5) [OF s that(1)] entry_okD(1) [OF ok]] that(2) by (auto simp: covers_def)
  have key: "fst x \<noteq> base" if "x \<in> set (mappings vs)" for x
    using sim_entry(1,3) [OF s, of "fst x" "snd x"] no covers_start [OF ok] that by (metis prod.collapse)
  then have "{x \<in> set (mappings vs). fst x \<noteq> base} = set (mappings vs)" by blast
  then have "set (log @ [?e]) = entry_of ` set ?m"
    using simD(3) [OF s] by (simp add: btree_insert_set entry_of_def MappingInfo_new_def)
  moreover have "distinct (log @ [?e])" using simD(4) [OF s] no [OF _ covers_start [OF ok]] covers_start [OF ok] by auto
  moreover have "\<forall>e \<in> set (log @ [?e]). entry_ok e" using simD(5) [OF s] ok by auto
  moreover have "entries_apart (set (log @ [?e]))" "shown t (set (log @ [?e]))"
    using entries_apart_add [OF simD(6) [OF s] no] shown_add [OF simD(7) [OF s] no t(2)] by simp_all
  ultimately show ?thesis using t(1) btree_insert_sorted [OF simD(2) [OF s]] by (simp add: sim_def)
qed

definition no_promotion :: "oplog \<Rightarrow> nat \<Rightarrow> Frame \<Rightarrow> MapAction \<Rightarrow> bool" where
  "no_promotion log base f action =
     list_all (\<lambda>(v, p, n, r). promotable (v, p, n, r) base f action \<longrightarrow> n = fsize f) log"

definition already_mapped :: "'a kres \<Rightarrow> bool" where
  "already_mapped x = (case x of Err e \<Rightarrow> (case e of AlreadyMapped _ \<Rightarrow> True | _ \<Rightarrow> False) | _ \<Rightarrow> False)"

definition same_map_result :: "unit kres \<Rightarrow> unit kres \<Rightarrow> bool" where
  "same_map_result x y \<longleftrightarrow> x = y \<or> already_mapped x \<and> already_mapped y"

lemma same_map_result_simps [simp]:
  "same_map_result x x" "same_map_result (Err (AlreadyMapped a)) (Err (AlreadyMapped b))"
  by (simp_all add: same_map_result_def already_mapped_def)

lemma model_map_clear:
  assumes "\<And>e. e \<in> set log \<Longrightarrow> entry_ok e" and e: "entry_ok (base, fbase f, fsize f, r)"
    and no: "\<And>e. e \<in> set log \<Longrightarrow> \<not> hits base (fsize f) e"
  shows "model_map_frame log base f r = (log @ [(base, fbase f, fsize f, r)], Ok ())"
proof -
  note o = entry_okD [OF e]
  obtain as where as: "overlapping_mappings log base f r = Ok as"
    "as = [] \<longleftrightarrow> (\<forall>e \<in> set log. hits base (fsize f) e \<longrightarrow> promotable e base f r)"
    using overlapping_mappings_Ok [of log base f r] assms(1) o(5) by blast
  have "promote log base f r = None" using promote_same [of log base f r] no by auto
  moreover have "as = []" using as(2) no by blast
  ultimately show ?thesis using o(1,7,8) as(1) by (simp add: model_map_frame_def)
qed

lemma map_clear:
  assumes s: "sim vs log" and h: "never_fails h" and free: "3 \<le> length (da (page_table vs))"
    and e: "entry_ok (base, fbase f, fsize f, r)" and no: "\<And>e. e \<in> set log \<Longrightarrow> \<not> hits base (fsize f) e"
  obtains h' vs' where "vs_map_frame (h, vs) base f r = ((h', vs'), Ok ())"
    "sim vs' (log @ [(base, fbase f, fsize f, r)])" "never_fails h'"
    "length (da (page_table vs)) \<le> length (da (page_table vs')) + 3"
proof -
  note o = entry_okD [OF e]
  have scan: "map_frame_scan (range_rev (\<lambda>k. k < base + fsize f) (mappings vs)) base f r = None"
    using scan_cases [OF s o(1) refl, of base r] no by metis
  have un: "unmapped (page_table vs) base (fsize f)"
    unfolding unmapped_def
  proof (intro allI impI)
    fix v assume v: "base \<le> v \<and> v < base + fsize f"
    have "\<not> covers v x" if "x \<in> set log" for x
      using no [OF that] hits_iff [OF simD(5) [OF s that] o(1), of base] v by blast
    then show "find_page (page_table vs) v = None" using simD(7) [OF s] unfolding shown_def by blast
  qed
  obtain t where t: "map_generic (page_table vs) base (fbase f) (fsize f) r True = (t, Ok ())" "pt_inv t"
    "length (da (page_table vs)) \<le> length (da t) + 3"
    "\<And>w. find_page t w = (if covers w (base, fbase f, fsize f, r) then Some (page_of (base, fbase f, fsize f, r))
       else find_page (page_table vs) w)"
    by (rule map_one_page [OF simD(1) [OF s] e un free], rule that)
  obtain h' where h': "heap_take h = (True, h')" "never_fails h'" by (rule heap_take_cases [OF h], rule that)
  have "vs_map_frame (h, vs) base f r = ((h', \<lparr>mappings = btree_insert base (MappingInfo_new f r) (mappings vs),
      page_table = t\<rparr>), Ok ())"
    using o(1,5,7,8) scan h'(1) t(1) by (simp add: vs_map_frame_def pt_map_frame_def)
  then show ?thesis using that sim_add [OF s e no t(2,4)] h'(2) t(3) by simp
qed

lemma map_sim:
  assumes s: "sim vs log" and h: "never_fails h" and free: "3 \<le> length (da (page_table vs))"
    and ok: "granted r = r" "fsize f \<in> {0, BASE_PAGE_SIZE, LARGE_PAGE_SIZE}" "base + fsize f \<le> VADDR_LIMIT"
    and np: "no_promotion log base f r"
  obtains h' vs' log' x y where "vs_map_frame (h, vs) base f r = ((h', vs'), x)" "model_map_frame log base f r = (log', y)"
    "same_map_result x y" "sim vs' log'" "never_fails h'" "length (da (page_table vs)) \<le> length (da (page_table vs')) + 3"
proof (cases "fsize f = 0 \<or> fbase f mod fsize f \<noteq> 0 \<or> base mod fsize f \<noteq> 0")
  case True
  then have "\<exists>x. vs_map_frame (h, vs) base f r = ((h, vs), Err x) \<and> model_map_frame log base f r = (log, Err x)"
    by (auto simp: vs_map_frame_def model_map_frame_def)
  then obtain x where x: "vs_map_frame (h, vs) base f r = ((h, vs), Err x)" "model_map_frame log base f r = (log, Err x)"
    by blast
  then show ?thesis using that [OF x _ s h] by simp
next
  case False
  then have e: "entry_ok (base, fbase f, fsize f, r)" using ok by (auto simp: entry_ok_def)
  have n: "0 < fsize f" using False by simp
  have small: "\<not> usize_limit \<le> base + fsize f" using ok(3) by simp
  obtain as where as: "overlapping_mappings log base f r = Ok as"
    "as = [] \<longleftrightarrow> (\<forall>e \<in> set log. hits base (fsize f) e \<longrightarrow> promotable e base f r)"
    using overlapping_mappings_Ok [of log base f r] simD(5) [OF s] ok(3) by blast
  define l where l: "l = range_rev (\<lambda>k. k < base + fsize f) (mappings vs)"
  from s n l show ?thesis
  proof (cases rule: scan_cases [where r = r])
    case clear
    obtain h' vs' where "vs_map_frame (h, vs) base f r = ((h', vs'), Ok ())"
      "sim vs' (log @ [(base, fbase f, fsize f, r)])" "never_fails h'"
      "length (da (page_table vs)) \<le> length (da (page_table vs')) + 3"
      using map_clear [OF s h free e] clear(2) by metis
    then show ?thesis using that model_map_clear [OF simD(5) [OF s] e clear(2)] by simp
  next
    case (same v p k)
    have k: "k = fsize f" "v = base" using np same(2,3) by (auto simp: no_promotion_def list_all_iff promotable_def)
    have only: "x = (v, p, k, r)" if "x \<in> set log" "hits base (fsize f) x" for x
      using hits_iff [OF simD(5) [OF s that(1)] n, of base] that(2) k entries_apartD [OF simD(6) [OF s] that(1) same(2)]
      by (auto simp: covers_def)
    have "as = []" using as(2) only same(3) by blast
    moreover have "promote log base f r = Some log"
    proof -
      have "promote log base f r = (if \<exists>e \<in> set log. hits base (fsize f) e then Some log else None)"
        by (rule promote_same) (use only same(3) k(1) in blast)
      then show ?thesis using same(2,4) by auto
    qed
    ultimately have "model_map_frame log base f r = (log, Ok ())" using False as(1) by (simp add: model_map_frame_def)
    moreover have "vs_map_frame (h, vs) base f r = ((h, vs), Ok ())"
      using False small same(1) l by (simp add: vs_map_frame_def)
    ultimately show ?thesis using that s h by simp
  next
    case (conflict x b)
    then have "as \<noteq> []" using as(2) by blast
    then obtain a where "model_map_frame log base f r = (log, Err (AlreadyMapped a))"
      using False as(1) by (cases as) (simp_all add: model_map_frame_def)
    moreover have "vs_map_frame (h, vs) base f r = ((h, vs), Err (AlreadyMapped b))"
      using False small conflict(1) l by (simp add: vs_map_frame_def)
    ultimately show ?thesis using that s h by simp
  qed
qed

section \<open>Sequences of operations\<close>

datatype vop = VMap nat Frame MapAction | VAdjust nat MapAction | VResolve nat | VUnmap nat

datatype vres =
    RMap "unit kres"
  | RAdjust "(nat \<times> nat) kres"
  | RResolve "(nat \<times> MapAction) kres"
  | RUnmap "TlbFlushHandle kres"

fun vs_exec :: "vspace_state \<Rightarrow> vop \<Rightarrow> vspace_state \<times> vres" where
  "vs_exec s (VMap base f r) = (case vs_map_frame s base f r of (s', x) \<Rightarrow> (s', RMap x))"
| "vs_exec (h, vs) (VAdjust a r) = (case vs_adjust vs a r of (vs', x) \<Rightarrow> ((h, vs'), RAdjust x))"
| "vs_exec (h, vs) (VResolve a) = ((h, vs), RResolve (vs_resolve vs a))"
| "vs_exec (h, vs) (VUnmap a) = (case vs_unmap vs a of (vs', x) \<Rightarrow> ((h, vs'), RUnmap x))"

fun model_exec :: "oplog \<Rightarrow> vop \<Rightarrow> oplog \<times> vres" where
  "model_exec log (VMap base f r) = (case model_map_frame log base f r of (log', x) \<Rightarrow> (log', RMap x))"
| "model_exec log (VAdjust a r) = (case model_adjust log a r of (log', x) \<Rightarrow> (log', RAdjust x))"
| "model_exec log (VResolve a) = (log, RResolve (model_resolve log a))"
| "model_exec log (VUnmap a) = (case model_unmap log a of (log', x) \<Rightarrow> (log', RUnmap x))"

primrec run_ops :: "('s \<Rightarrow> vop \<Rightarrow> 's \<times> vres) \<Rightarrow> 's \<Rightarrow> vop list \<Rightarrow> 's \<times> vres list" where
  "run_ops exec s [] = (s, [])"
| "run_ops exec s (op # ops) = (case exec s op of (s', x) \<Rightarrow> (case run_ops exec s' ops of (s'', xs) \<Rightarrow> (s'', x # xs)))"

text \<open>
  The operations for which the two agree: page-sized frames below the address limit, page-aligned
  addresses, rights that survive the page-table flags, and no growth of an existing mapping.
\<close>

fun tame_op :: "oplog \<Rightarrow> vop \<Rightarrow> bool" where
  "tame_op log (VMap base f r) \<longleftrightarrow> granted r = r \<and> fsize f \<in> {0, BASE_PAGE_SIZE, LARGE_PAGE_SIZE}
     \<and> base + fsize f \<le> VADDR_LIMIT \<and> no_promotion log base f r"
| "tame_op log (VAdjust a r) \<longleftrightarrow> granted r = r \<and> a < VADDR_LIMIT \<and> a mod BASE_PAGE_SIZE = 0"
| "tame_op log (VResolve a) \<longleftrightarrow> a < VADDR_LIMIT"
| "tame_op log (VUnmap a) \<longleftrightarrow> a < VADDR_LIMIT \<and> a mod BASE_PAGE_SIZE = 0"

primrec tame :: "oplog \<Rightarrow> vop list \<Rightarrow> bool" where
  "tame log [] \<longleftrightarrow> True"
| "tame log (op # ops) \<longleftrightarrow> tame_op log op \<and> tame (fst (model_exec log op)) ops"

fun same_result :: "vres \<Rightarrow> vres \<Rightarrow> bool" where
  "same_result (RMap x) (RMap y) = same_map_result x y"
| "same_result x y = (x = y)"

lemma exec_sim:
  assumes s: "sim vs log" and h: "never_fails h" and free: "3 \<le> length (da (page_table vs))" and t: "tame_op log op"
  obtains h' vs' log' x y where "vs_exec (h, vs) op = ((h', vs'), x)" "model_exec log op = (log', y)" "same_result x y"
    "sim vs' log'" "never_fails h'" "length (da (page_table vs)) \<le> length (da (page_table vs')) + 3"
proof (cases op)
  case (VMap base f r)
  then have t': "granted r = r" "fsize f \<in> {0, BASE_PAGE_SIZE, LARGE_PAGE_SIZE}" "base + fsize f \<le> VADDR_LIMIT"
    "no_promotion log base f r" using t by simp_all
  obtain h' vs' log' x y where *: "vs_map_frame (h, vs) base f r = ((h', vs'), x)"
    "model_map_frame log base f r = (log', y)" "same_map_result x y" "sim vs' log'" "never_fails h'"
    "length (da (page_table vs)) \<le> length (da (page_table vs')) + 3"
    by (rule map_sim [OF s h free t'], rule that)
  show ?thesis by (rule that [of h' vs' "RMap x" log' "RMap y"]) (use VMap * in simp_all)
next
  case (VAdjust a r)
  then have t': "a < VADDR_LIMIT" "a mod BASE_PAGE_SIZE = 0" "granted r = r" using t by simp_all
  obtain vs' log' x where *: "vs_adjust vs a r = (vs', x)" "model_adjust log a r = (log', x)" "sim vs' log'"
    "da (page_table vs') = da (page_table vs)"
    by (rule adjust_sim [OF s t'], rule that)
  show ?thesis by (rule that [of h vs' "RAdjust x" log' "RAdjust x"]) (use VAdjust * h in simp_all)
next
  case (VResolve a)
  then have "vs_resolve vs a = model_resolve log a" using resolve_sim [OF s] t by simp
  then show ?thesis
    by (intro that [of h vs "RResolve (vs_resolve vs a)" log "RResolve (vs_resolve vs a)"]) (use VResolve h s in simp_all)
next
  case (VUnmap a)
  then have t': "a < VADDR_LIMIT" "a mod BASE_PAGE_SIZE = 0" using t by simp_all
  obtain vs' log' x where *: "vs_unmap vs a = (vs', x)" "model_unmap log a = (log', x)" "sim vs' log'"
    "da (page_table vs') = da (page_table vs)"
    by (rule unmap_sim [OF s t'], rule that)
  show ?thesis by (rule that [of h vs' "RUnmap x" log' "RUnmap x"]) (use VUnmap * h in simp_all)
qed

lemma run_sim:
  assumes "sim vs log" and "never_fails h" and "3 * length ops \<le> length (da (page_table vs))" and "tame log ops"
  shows "\<exists>h' vs' log' xs ys. run_ops vs_exec (h, vs) ops = ((h', vs'), xs) \<and> run_ops model_exec log ops = (log', ys)
     \<and> list_all2 same_result xs ys \<and> sim vs' log'"
  using assms
proof (induction ops arbitrary: h vs log)
  case (Cons op ops)
  have p: "3 \<le> length (da (page_table vs))" "tame_op log op" using Cons.prems(3,4) by simp_all
  obtain h1 vs1 log1 x y where 1: "vs_exec (h, vs) op = ((h1, vs1), x)" "model_exec log op = (log1, y)" "same_result x y"
    "sim vs1 log1" "never_fails h1" "length (da (page_table vs)) \<le> length (da (page_table vs1)) + 3"
    by (rule exec_sim [OF Cons.prems(1,2) p], rule that)
  have "3 * length ops \<le> length (da (page_table vs1))" using 1(6) Cons.prems(3) by simp
  moreover have "tame log1 ops" using Cons.prems(4) 1(2) by simp
  ultimately obtain h' vs' log' xs ys where "run_ops vs_exec (h1, vs1) ops = ((h', vs'), xs)"
    "run_ops model_exec log1 ops = (log', ys)" "list_all2 same_result xs ys" "sim vs' log'"
    using Cons.IH [OF 1(4,5)] by blast
  then show ?case using 1 by (intro exI [of _ h'] exI [of _ vs'] exI [of _ log'] exI [of _ "x # xs"] exI [of _ "y # ys"]) simp
qed simp

lemma sim_fresh:
  assumes "pt_inv t" and "\<And>v. find_page t v = None"
  shows "sim \<lparr>mappings = [], page_table = t\<rparr> []"
  using assms by (simp add: sim_def entries_apart_def shown_def)

text \<open>
  C21. Starting from an empty address space, any sequence of map, adjust, resolve and unmap
  operations gives the same results on the hardware address space, with its page tables in
  physical memory, as on the reference model, up to which conflicting mapping an
  \<open>AlreadyMapped\<close> error names.  Assumed are page-sized frames, addresses and rights that the
  page table can express, frames enough for three tables per operation, and that no mapping is
  grown in place.
\<close>
theorem vspace_refines_model:
  assumes "pt_inv t" and "\<forall>v. find_page t v = None" and "never_fails h"
    and "3 * length ops \<le> length (da t)" and "tame [] ops"
  shows "list_all2 same_result (snd (run_ops vs_exec (h, \<lparr>mappings = [], page_table = t\<rparr>) ops))
     (snd (run_ops model_exec [] ops))"
proof -
  have "sim \<lparr>mappings = [], page_table = t\<rparr> []" using assms(1,2) by (intro sim_fresh) auto
  from run_sim [OF this assms(3) _ assms(5)] show ?thesis using assms(4) by auto
qed

definition sample_ops :: "vop list" where
  "sample_ops = [VMap 4096 \<lparr>fbase = 65536, fsize = 4096, affinity = 0\<rparr> ReadWriteUser, VUnmap 4096]"

theorem vspace_refines_model_witness:
  "list_all2 same_result
     (snd (run_ops vs_exec ([], \<lparr>mappings = [], page_table = fresh_table\<rparr>) sample_ops))
     (snd (run_ops model_exec [] sample_ops))"
  by (rule vspace_refines_model [OF fresh_table_ok(1)])
    (simp_all add: fresh_table_ok sample_ops_def no_promotion_def granted_def)

section \<open>Mapping several frames\<close>

text \<open>
  What the provided method \<open>map_frames\<close> of the trait needs from \<open>map_frame\<close>: on a free stretch of
  addresses it adds the frame and nothing else.
\<close>

locale address_space =
  fixes inv :: "'s \<Rightarrow> bool" and room :: "nat \<Rightarrow> 's \<Rightarrow> bool"
    and resolve :: "'s \<Rightarrow> nat \<Rightarrow> (nat \<times> MapAction) kres"
    and map_frame :: "'s \<Rightarrow> nat \<Rightarrow> Frame \<Rightarrow> MapAction \<Rightarrow> 's \<times> unit kres"
  assumes map_frame_adds: "\<lbrakk>inv s; room (Suc k) s; entry_ok (base, fbase f, fsize f, r);
      \<forall>v. base \<le> v \<and> v < base + fsize f \<longrightarrow> resolve s v = Err NotMapped\<rbrakk>
    \<Longrightarrow> \<exists>s'. map_frame s base f r = (s', Ok ()) \<and> inv s' \<and> room k s'
      \<and> (\<forall>v < VADDR_LIMIT. resolve s' v = (if base \<le> v \<and> v < base + fsize f then Ok (fbase f + (v - base), r) else resolve s v))"

fun frames_fit :: "nat \<Rightarrow> (Frame \<times> MapAction) list \<Rightarrow> bool" where
  "frames_fit base [] \<longleftrightarrow> True"
| "frames_fit base ((f, r) # fs) \<longleftrightarrow> entry_ok (base, fbase f, fsize f, r) \<and> frames_fit (base + fsize f) fs"

fun frame_at :: "nat \<Rightarrow> (Frame \<times> MapAction) list \<Rightarrow> nat \<Rightarrow> (nat \<times> MapAction) option" where
  "frame_at base [] v = None"
| "frame_at base ((f, r) # fs) v =
     (if base \<le> v \<and> v < base + fsize f then Some (fbase f + (v - base), r) else frame_at (base + fsize f) fs v)"

lemma frame_at_above: "frame_at base fs v \<noteq> None \<Longrightarrow> base \<le> v"
  by (induction base fs v rule: frame_at.induct) (auto split: if_splits)

lemma frame_at_limit: "\<lbrakk>frames_fit base fs; frame_at base fs v \<noteq> None\<rbrakk> \<Longrightarrow> v < VADDR_LIMIT"
  by (induction base fs v rule: frame_at.induct) (auto simp: entry_ok_def split: if_splits)

context address_space
begin

lemma map_frames_from_adds:
  assumes "inv s" and "room (length fs) s" and "frames_fit cur fs"
    and "\<And>v. frame_at cur fs v \<noteq> None \<Longrightarrow> resolve s v = Err NotMapped"
  shows "\<exists>s'. map_frames_from map_frame s base cur fs = (s', Ok ()) \<and> inv s'
    \<and> (\<forall>v < VADDR_LIMIT. resolve s' v = (case frame_at cur fs v of Some x \<Rightarrow> Ok x | None \<Rightarrow> resolve s v))"
  using assms
proof (induction fs arbitrary: s cur)
  case (Cons fr fs)
  obtain f r where fr: "fr = (f, r)" by (cases fr)
  have ok: "entry_ok (cur, fbase f, fsize f, r)" and fit: "frames_fit (cur + fsize f) fs"
    using Cons.prems(3) fr by simp_all
  have "\<forall>v. cur \<le> v \<and> v < cur + fsize f \<longrightarrow> resolve s v = Err NotMapped" using Cons.prems(4) fr by simp
  then obtain s1 where s1: "map_frame s cur f r = (s1, Ok ())" "inv s1" "room (length fs) s1"
    "\<And>v. v < VADDR_LIMIT \<Longrightarrow> resolve s1 v = (if cur \<le> v \<and> v < cur + fsize f then Ok (fbase f + (v - cur), r) else resolve s v)"
    using map_frame_adds [OF Cons.prems(1) _ ok, of "length fs"] Cons.prems(2) unfolding list.size(4) by auto
  have "resolve s1 v = Err NotMapped" if v: "frame_at (cur + fsize f) fs v \<noteq> None" for v
    using s1(4) [OF frame_at_limit [OF fit v]] frame_at_above [OF v] Cons.prems(4) [of v] v fr by simp
  then obtain s' where s': "map_frames_from map_frame s1 base (cur + fsize f) fs = (s', Ok ())" "inv s'"
    "\<And>v. v < VADDR_LIMIT \<Longrightarrow> resolve s' v = (case frame_at (cur + fsize f) fs v of Some x \<Rightarrow> Ok x | None \<Rightarrow> resolve s1 v)"
    using Cons.IH [OF s1(2,3) fit] by blast
  have "cur + fsize f < usize_limit" using ok by (simp add: entry_ok_def)
  then have "map_frames_from map_frame s base cur (fr # fs) = (s', Ok ())" using s1(1) s'(1) fr by simp
  moreover have "resolve s' v = (case frame_at cur (fr # fs) v of Some x \<Rightarrow> Ok x | None \<Rightarrow> resolve s v)"
    if v: "v < VADDR_LIMIT" for v
    using s'(3) [OF v] s1(4) [OF v] frame_at_above [of "cur + fsize f" fs v] fr by (auto split: option.splits)
  ultimately show ?case using s'(2) by blast
qed simp

lemmas map_frames_adds = map_frames_from_adds [where base = base and cur = base for base, folded map_frames_def]

end

text \<open>Both address spaces provide it.\<close>

definition model_inv :: "oplog \<Rightarrow> bool" where
  "model_inv log = list_all entry_ok log"

lemma model_resolve_append:
  "model_resolve (log @ [(b, p, n, r)]) v = (if b \<le> v \<and> v < b + n then Ok (p + (v - b), r) else model_resolve log v)"
  by (simp add: model_resolve_def covers_def)

lemma model_resolve_free:
  assumes "model_resolve log v = Err NotMapped" and "e \<in> set log"
  shows "\<not> covers v e"
proof
  assume "covers v e"
  then have "find (covers v) (rev log) \<noteq> None" using assms(2) by (metis find_None_iff set_rev)
  then show False using assms(1) by (auto simp: model_resolve_def)
qed

lemma model_free_hits:
  assumes "\<And>e. e \<in> set log \<Longrightarrow> entry_ok e" and "0 < n"
    and "\<forall>v. base \<le> v \<and> v < base + n \<longrightarrow> model_resolve log v = Err NotMapped" and "e \<in> set log"
  shows "\<not> hits base n e"
  using hits_iff [OF assms(1) [OF assms(4)] assms(2), of base] model_resolve_free [OF _ assms(4)] assms(3) by blast

interpretation model_space: address_space model_inv "\<lambda>_ _. True" model_resolve model_map_frame
proof
  fix s k base and f :: Frame and r
  assume a: "model_inv s" "entry_ok (base, fbase f, fsize f, r)"
    "\<forall>v. base \<le> v \<and> v < base + fsize f \<longrightarrow> model_resolve s v = Err NotMapped"
  have ok: "\<And>e. e \<in> set s \<Longrightarrow> entry_ok e" using a(1) by (simp add: model_inv_def list_all_iff)
  have "model_map_frame s base f r = (s @ [(base, fbase f, fsize f, r)], Ok ())"
    by (rule model_map_clear [OF ok a(2) model_free_hits [OF ok entry_okD(1) [OF a(2)] a(3)]])
  moreover have "model_inv (s @ [(base, fbase f, fsize f, r)])" using a(1,2) by (simp add: model_inv_def)
  ultimately show "\<exists>s'. model_map_frame s base f r = (s', Ok ()) \<and> model_inv s' \<and> True \<and> (\<forall>v < VADDR_LIMIT. model_resolve s' v =
      (if base \<le> v \<and> v < base + fsize f then Ok (fbase f + (v - base), r) else model_resolve s v))"
    using model_resolve_append by blast
qed

definition vspace_inv :: "vspace_state \<Rightarrow> bool" where
  "vspace_inv s \<longleftrightarrow> never_fails (fst s) \<and> (\<exists>log. sim (snd s) log)"

interpretation vspace: address_space vspace_inv "\<lambda>k s. 3 * k \<le> length (da (page_table (snd s)))"
  "\<lambda>s. vs_resolve (snd s)" vs_map_frame
proof
  fix s k base and f :: Frame and r
  assume a: "vspace_inv s" "3 * Suc k \<le> length (da (page_table (snd s)))" "entry_ok (base, fbase f, fsize f, r)"
    "\<forall>v. base \<le> v \<and> v < base + fsize f \<longrightarrow> vs_resolve (snd s) v = Err NotMapped"
  obtain h vs where s: "s = (h, vs)" by (cases s)
  obtain log where l: "sim vs log" "never_fails h" using a(1) s by (auto simp: vspace_inv_def)
  have lim: "v < VADDR_LIMIT" if "v < base + fsize f" for v using that entry_okD(5) [OF a(3)] by linarith
  have m: "\<forall>v. base \<le> v \<and> v < base + fsize f \<longrightarrow> model_resolve log v = Err NotMapped"
    using a(4) resolve_sim [OF l(1)] lim s by simp
  have free: "3 \<le> length (da (page_table vs))" using a(2) s by simp
  obtain h' vs' where r: "vs_map_frame (h, vs) base f r = ((h', vs'), Ok ())"
    "sim vs' (log @ [(base, fbase f, fsize f, r)])" "never_fails h'"
    "length (da (page_table vs)) \<le> length (da (page_table vs')) + 3"
    using map_clear [OF l free a(3)] model_free_hits [OF simD(5) [OF l(1)] entry_okD(1) [OF a(3)] m] by metis
  have "vspace_inv (h', vs')" using r(2,3) by (auto simp: vspace_inv_def)
  moreover have "3 * k \<le> length (da (page_table vs'))" using a(2) r(4) s by simp
  moreover have "vs_resolve vs' v = (if base \<le> v \<and> v < base + fsize f then Ok (fbase f + (v - base), r) else vs_resolve vs v)"
    if "v < VADDR_LIMIT" for v
    using resolve_sim [OF r(2) that] resolve_sim [OF l(1) that] by (simp add: model_resolve_append)
  ultimately show "\<exists>s'. vs_map_frame s base f r = (s', Ok ()) \<and> vspace_inv s' \<and> 3 * k \<le> length (da (page_table (snd s')))
     \<and> (\<forall>v < VADDR_LIMIT. vs_resolve (snd s') v =
          (if base \<le> v \<and> v < base + fsize f then Ok (fbase f + (v - base), r) else vs_resolve (snd s) v))"
    using r(1) s by (intro exI [of _ "(h', vs')"]) simp
qed


lemma vspace_inv_fresh: "vspace_inv ([], \<lparr>mappings = [], page_table = fresh_table\<rparr>)"
  unfolding vspace_inv_def using sim_fresh [OF fresh_table_ok(1,4)] by auto

lemma fresh_resolve: "v < VADDR_LIMIT \<Longrightarrow> vs_resolve \<lparr>mappings = [], page_table = fresh_table\<rparr> v = Err NotMapped"
  using resolve_find_page [OF fresh_table_ok(1)] fresh_table_ok(4) by (simp add: vs_resolve_def)

definition sample_frames :: "(Frame \<times> MapAction) list" where
  "sample_frames = [(\<lparr>fbase = 65536, fsize = 4096, affinity = 0\<rparr>, ReadUser),
     (\<lparr>fbase = 131072, fsize = 4096, affinity = 0\<rparr>, ReadWriteUser)]"


section \<open>Where the two differ\<close>

lemma find_unique:
  assumes "x \<in> set xs" and "Q x" and "\<And>y. \<lbrakk>y \<in> set xs; Q y\<rbrakk> \<Longrightarrow> y = x"
  shows "find Q xs = Some x"
proof (cases "find Q xs")
  case None
  then show ?thesis using assms(1,2) unfolding find_None_iff by blast
next
  case (Some z)
  then obtain i where "i < length xs" "Q (xs ! i)" "z = xs ! i" unfolding find_Some_iff by blast
  then have "z = x" using assms(3) [of z] nth_mem by simp
  then show ?thesis using Some by simp
qed

lemma promote_eq:
  assumes "(b, p, n, r) \<in> set log" and "promotable (b, p, n, r) b f r" and "hits b (fsize f) (b, p, n, r)"
    and "\<And>e. \<lbrakk>e \<in> set log; hits b (fsize f) e\<rbrakk> \<Longrightarrow> e = (b, p, n, r)"
  shows "\<exists>log'. promote log b f r = Some log' \<and> (b, p, fsize f, r) \<in> set log'
     \<and> set log' \<subseteq> insert (b, p, fsize f, r) (set log)"
  using assms
proof (induction log)
  case (Cons e log)
  obtain v q m r' where e: "e = (v, q, m, r')" by (cases e)
  show ?case
  proof (cases "e = (b, p, n, r)")
    case True
    then have "promote (e # log) b f r = Some ((b, p, fsize f, r) # log)"
      using Cons.prems(2,3) unfolding hits_def by (simp only: promote.simps prod.case simp_thms if_True)
    then show ?thesis by (intro exI [of _ "(b, p, fsize f, r) # log"] conjI) auto
  next
    case False
    then have nh: "\<not> hits b (fsize f) e" using Cons.prems(4) [of e] list.set_intros(1) by metis
    obtain log' where l: "promote log b f r = Some log'" "(b, p, fsize f, r) \<in> set log'"
      "set log' \<subseteq> insert (b, p, fsize f, r) (set log)"
    proof -
      have "(b, p, n, r) \<in> set log" using Cons.prems(1) False by simp
      from Cons.IH [OF this Cons.prems(2,3)] Cons.prems(4) show ?thesis using that by (metis list.set_intros(2))
    qed
    have "promote (e # log) b f r = Some (e # log')" using nh l(1) unfolding e by (simp add: hits_def)
    then show ?thesis using l(2,3) by (intro exI [of _ "e # log'"] conjI) auto
  qed
next
  case Nil
  have False using Nil.prems(1) by simp
  then show ?case ..
qed

text \<open>
  Growing a mapping in place is lost by the hardware address space. When a base page is mapped
  and a large frame with the same start and rights is then mapped over it, the reference model
  extends the mapping; \<open>VSpace::map_frame\<close> also answers \<open>Ok\<close> but maps nothing, and the addresses
  after the first page stay unmapped.
\<close>
lemma growing_is_lost:
  assumes s: "sim vs log" and e: "(b, p, BASE_PAGE_SIZE, r) \<in> set log"
    and f: "fbase f = p" "fsize f = LARGE_PAGE_SIZE" "p mod LARGE_PAGE_SIZE = 0" "b mod LARGE_PAGE_SIZE = 0"
      "b + LARGE_PAGE_SIZE \<le> VADDR_LIMIT"
    and only: "\<forall>x \<in> set log. hits b LARGE_PAGE_SIZE x \<longrightarrow> x = (b, p, BASE_PAGE_SIZE, r)"
  shows "vs_map_frame (h, vs) b f r = ((h, vs), Ok ()) \<and> vs_resolve vs (b + BASE_PAGE_SIZE) = Err NotMapped
     \<and> (\<exists>log'. model_map_frame log b f r = (log', Ok ()) \<and> model_resolve log' (b + BASE_PAGE_SIZE) = Ok (p + BASE_PAGE_SIZE, r))"
proof (intro conjI)
  let ?e = "(b, p, BASE_PAGE_SIZE, r)" and ?a = "b + BASE_PAGE_SIZE"
  have pr: "promotable ?e b f r" and h: "hits b (fsize f) ?e" using f by (simp_all add: promotable_def hits_def overlaps_def)
  have only': "x = ?e" if "x \<in> set log" "hits b (fsize f) x" for x using only f(2) that by simp
  have n: "0 < fsize f" using f(2) by simp
  have cover: "hits b (fsize f) x" if "x \<in> set log" "covers ?a x" for x
  proof -
    have "\<exists>a. b \<le> a \<and> a < b + fsize f \<and> covers a x" by (rule exI [of _ ?a]) (use that(2) f(2) in simp)
    then show ?thesis using hits_iff [OF simD(5) [OF s that(1)] n] by blast
  qed
  have free: "\<not> covers ?a x" if "x \<in> set log" for x
    using cover [OF that] only' [OF that] by (auto simp: covers_def)
  have "map_frame_scan (range_rev (\<lambda>k. k < b + fsize f) (mappings vs)) b f r = Some (Ok ())"
    using s n refl
  proof (cases rule: scan_cases [where base = b and r = r])
    case clear
    then show ?thesis using e h by blast
  next
    case (conflict x c)
    then show ?thesis using only' [OF conflict(2,3)] pr by simp
  qed
  then show "vs_map_frame (h, vs) b f r = ((h, vs), Ok ())" using f by (simp add: vs_map_frame_def)
  have "find (covers ?a) (rev log) = None" using free by (metis find_None_iff set_rev)
  then have "model_resolve log ?a = Err NotMapped" by (simp add: model_resolve_def)
  then show "vs_resolve vs ?a = Err NotMapped" using resolve_sim [OF s, of ?a] f(5) by simp
  obtain as where as: "overlapping_mappings log b f r = Ok as"
    "as = [] \<longleftrightarrow> (\<forall>x \<in> set log. hits b (fsize f) x \<longrightarrow> promotable x b f r)"
    using overlapping_mappings_Ok [OF simD(5) [OF s], where base = b and f = f and r = r] f(2,5) by auto
  obtain log' where l: "promote log b f r = Some log'" "(b, p, fsize f, r) \<in> set log'"
    "set log' \<subseteq> insert (b, p, fsize f, r) (set log)"
    using promote_eq [OF e pr h only'] by metis
  have "\<forall>x \<in> set log. hits b (fsize f) x \<longrightarrow> promotable x b f r"
  proof (intro ballI impI)
    fix x assume "x \<in> set log" "hits b (fsize f) x"
    then have "x = ?e" by (rule only')
    then show "promotable x b f r" using pr by simp
  qed
  then have "as = []" using as(2) by simp
  then have "model_map_frame log b f r = (log', Ok ())" using as(1) l(1) f by (simp add: model_map_frame_def)
  moreover have "find (covers ?a) (rev log') = Some (b, p, fsize f, r)"
  proof (rule find_unique)
    fix y assume "y \<in> set (rev log')" "covers ?a y"
    moreover from this have "y = (b, p, fsize f, r) \<or> y \<in> set log" using l(3) unfolding set_rev by blast
    ultimately show "y = (b, p, fsize f, r)" using free [of y] by argo
  next
    show "(b, p, fsize f, r) \<in> set (rev log')" using l(2) by (simp only: set_rev)
    show "covers ?a (b, p, fsize f, r)" by (simp add: covers_def f(2))
  qed
  then have "model_resolve log' ?a = Ok (p + BASE_PAGE_SIZE, r)" by (simp add: model_resolve_def)
  ultimately show "\<exists>log'. model_map_frame log b f r = (log', Ok ()) \<and> model_resolve log' ?a = Ok (p + BASE_PAGE_SIZE, r)"
    by (intro exI conjI)
qed

lemma whole_page:
  assumes inv: "pt_inv t" and f: "find_page t v = Some (d, e)" and d: "d < 3" and v: "v < VADDR_LIMIT"
    and al: "v mod 8192 = 0"
  shows "\<exists>w < VADDR_LIMIT. \<not> (v \<le> w \<and> w < v + 8192) \<and> find_page t w = Some (d, e)"
proof -
  have d12: "d = 1 \<or> d = 2" using f d by (auto simp: find_page_Some)
  let ?s = "entry_size d"
  have same: "find_page t w = Some (d, e)" if "w div ?s = v div ?s" for w using f that by (simp add: find_page_Some)
  show ?thesis
  proof (cases "v mod ?s = 0")
    case True
    have "v div ?s < VADDR_LIMIT div ?s" using v d12 by (auto simp: entry_size_def)
    then have "(v div ?s + 1) * ?s \<le> VADDR_LIMIT div ?s * ?s" by (intro mult_le_mono1) simp
    moreover have "v div ?s * ?s = v" using True by auto
    ultimately have "v + ?s \<le> VADDR_LIMIT" using d12 by (auto simp: entry_size_def algebra_simps)
    moreover have "8192 < ?s" using d12 by (auto simp: entry_size_def)
    moreover have "(v + 8192) div ?s = v div ?s" using True d12 by (auto simp: entry_size_def)
    ultimately show ?thesis using same by (intro exI [of _ "v + 8192"]) simp
  next
    case False
    then have pos: "0 < v" by (cases v) simp_all
    have "(v - 1) div ?s = v div ?s" using False by (cases v) (simp_all add: div_Suc)
    moreover have "v - 1 < VADDR_LIMIT" "\<not> v \<le> v - 1" using v pos by linarith+
    ultimately show ?thesis using same by blast
  qed
qed

text \<open>
  Unmapping a frame of two base pages removes only its first page from the page table but drops
  the record of the whole frame.  The second page stays mapped although the address space has no
  mapping left, and unmapping it as well fails the assertion that a record existed.
\<close>
lemma two_page_unmap_leaks:
  assumes inv: "pt_inv t" and empty: "\<forall>v. find_page t v = None" and h: "never_fails h" and free: "6 \<le> length (da t)"
    and al: "b mod 8192 = 0" "fbase f mod 8192 = 0" "fsize f = 8192" "b + 8192 \<le> VADDR_LIMIT"
  shows "\<exists>h' vs' vs'' x. vs_map_frame (h, \<lparr>mappings = [], page_table = t\<rparr>) b f r = ((h', vs'), Ok ())
     \<and> vs_unmap vs' b = (vs'', Ok x) \<and> fsize (tlb_frame x) = BASE_PAGE_SIZE \<and> mappings vs'' = []
     \<and> vs_resolve vs'' (b + BASE_PAGE_SIZE) = Ok (fbase f + BASE_PAGE_SIZE, granted r)
     \<and> snd (vs_unmap vs'' (b + BASE_PAGE_SIZE)) = Panic"
proof -
  have al4: "b mod BASE_PAGE_SIZE = 0" "fbase f mod BASE_PAGE_SIZE = 0" "(b + BASE_PAGE_SIZE) mod BASE_PAGE_SIZE = 0"
    using mod_mod_cancel [of BASE_PAGE_SIZE 8192 b] mod_mod_cancel [of BASE_PAGE_SIZE 8192 "fbase f"] al(1,2)
    by (simp_all add: mod_add_self2)
  have un: "unmapped t b 8192" using empty by (simp add: unmapped_def)
  have cl: "clear t b 8192" by (auto simp: clear_def entry_size_def)
  obtain t1 where t1: "map_generic t b (fbase f) 8192 r True = (t1, Ok ())" "pt_inv t1"
    "\<And>v. v < VADDR_LIMIT \<Longrightarrow> pt_resolve t1 v = (if b \<le> v \<and> v < b + 8192 then Ok (fbase f + (v - b), granted r) else pt_resolve t v)"
    using map_generic_ok [OF inv al(4) _ _ _ _ un cl, of "fbase f" r] al4 free by (auto simp: dvd_eq_mod_eq_0)
  have lim: "b < VADDR_LIMIT" "b + BASE_PAGE_SIZE < VADDR_LIMIT" using al(4) by simp_all
  have un0: "pt_resolve t v = Err NotMapped" if "v < VADDR_LIMIT" for v using resolve_find_page [OF inv that] empty by simp
  have r0: "pt_resolve t1 b = Ok (fbase f, granted r)" using t1(3) [OF lim(1)] by simp
  obtain d e where p: "find_page t1 b = Some (d, e)" by (rule resolve_Ok_page [OF t1(2) lim(1) r0], rule that)
  have d: "d = 3"
  proof (rule ccontr)
    assume "d \<noteq> 3"
    then have "d < 3" using p by (simp add: find_page_Some)
    then obtain w where "w < VADDR_LIMIT" "\<not> (b \<le> w \<and> w < b + 8192)" "find_page t1 w = Some (d, e)"
      using whole_page [OF t1(2) p _ lim(1) al(1)] by blast
    then show False using t1(3) [of w] un0 [of w] resolve_find_page [OF t1(2), of w] by (auto split: if_splits)
  qed
  obtain t2 where t2: "pt_unmap t1 b = (t2, Ok (TlbFlushHandle_new b \<lparr>fbase = eaddr e, fsize = BASE_PAGE_SIZE, affinity = 0\<rparr>))"
    "pt_inv t2" "\<And>w. find_page t2 w = (if w div BASE_PAGE_SIZE = b div BASE_PAGE_SIZE then None else find_page t1 w)"
    by (rule pt_unmap_page [OF t1(2) lim(1) al4(1) p]) (use al4(1) d that in \<open>simp add: entry_size_def\<close>)
  have "(b + BASE_PAGE_SIZE) div BASE_PAGE_SIZE \<noteq> b div BASE_PAGE_SIZE" by simp
  then have same: "find_page t2 (b + BASE_PAGE_SIZE) = find_page t1 (b + BASE_PAGE_SIZE)" using t2(3) by presburger
  then have res: "pt_resolve t2 (b + BASE_PAGE_SIZE) = Ok (fbase f + BASE_PAGE_SIZE, granted r)"
    using resolve_find_page [OF t1(2) lim(2)] resolve_find_page [OF t2(2) lim(2)] t1(3) [OF lim(2)] by simp
  obtain d' e' where p': "find_page t2 (b + BASE_PAGE_SIZE) = Some (d', e')"
    using resolve_Ok_page [OF t2(2) lim(2) res] by blast
  obtain t3 x where t3: "pt_unmap t2 (b + BASE_PAGE_SIZE) = (t3, Ok x)"
    by (rule pt_unmap_page [OF t2(2) lim(2) al4(3) p'], rule that)
  obtain h' where h': "heap_take h = (True, h')" by (rule heap_take_cases [OF h], rule that)
  let ?vs1 = "\<lparr>mappings = [(b, MappingInfo_new f r)], page_table = t1\<rparr>"
  have "vs_map_frame (h, \<lparr>mappings = [], page_table = t\<rparr>) b f r = ((h', ?vs1), Ok ())"
    using al h' t1(1) by (simp add: vs_map_frame_def range_rev_def pt_map_frame_def btree_insert_def)
  moreover have "vs_unmap ?vs1 b = (\<lparr>mappings = [], page_table = t2\<rparr>,
      Ok (TlbFlushHandle_new b \<lparr>fbase = eaddr e, fsize = BASE_PAGE_SIZE, affinity = 0\<rparr>))"
    using t2(1) al(3)
    by (simp add: vs_unmap_def range_rev_def vrange_def MappingInfo_new_def btree_remove_def TlbFlushHandle_new_def)
  moreover have "snd (vs_unmap \<lparr>mappings = [], page_table = t2\<rparr> (b + BASE_PAGE_SIZE)) = Panic"
    using t3 by (simp add: vs_unmap_def range_rev_def)
  ultimately show ?thesis using res by (auto simp: TlbFlushHandle_new_def vs_resolve_def)
qed

section \<open>Ranges of the reference model\<close>

lemma fold_range:
  "fold (\<lambda>e (lo, hi). if Q e then (min e lo, max e hi) else (lo, hi)) xs (lo, hi)
     = (fold min (filter Q xs) lo, fold max (filter Q xs) (hi::'a::linorder))"
  by (induction xs arbitrary: lo hi) (auto simp: min.commute max.commute)

lemma filter_upt: "filter (\<lambda>e. x \<le> e \<and> e < y) [a..<b] = [max a x..<min b y]"
  by (rule sorted_distinct_set_unique) (auto simp: sorted_wrt_filter)

text \<open>
  The loop of \<open>ModelAddressSpace::intersection\<close>, which visits every element of the first range,
  computes the interval from the larger start to the smaller end, and finds one exactly when the
  non-empty ranges share an address.
\<close>
lemma intersection_is_interval:
  assumes "a < b" and "c < d" and "b \<le> usize_max"
  shows "intersection (a, b) (c, d) = (if max a c < min b d then Some (max a c, min b d) else None)"
proof (cases "max a c < min b d")
  case True
  let ?xs = "[max a c..<min b d]"
  have xs: "set ?xs \<noteq> {}" using True by simp
  have lo: "fold min ?xs usize_max = max a c"
  proof -
    have "fold min ?xs usize_max = Min (insert usize_max (set ?xs))" by (simp add: Min.set_eq_fold [symmetric])
    also have "\<dots> = max a c" by (rule Min_eqI) (use True assms(3) in auto)
    finally show ?thesis .
  qed
  have hi: "fold max ?xs 0 = min b d - 1"
  proof -
    have "fold max ?xs 0 = Max (insert 0 (set ?xs))" by (simp add: Max.set_eq_fold [symmetric])
    also have "\<dots> = min b d - 1" by (rule Max_eqI) (use True in auto)
    finally show ?thesis .
  qed
  have "overlaps (a, b) (c, d)" using True by (simp add: overlaps_def)
  then have "intersection (a, b) (c, d) = Some (fold min ?xs usize_max, fold max ?xs 0 + 1)"
    by (simp only: intersection_def if_True fst_conv snd_conv fold_range filter_upt prod.case)
  then show ?thesis using True lo hi by simp
next
  case False
  then have "\<not> overlaps (a, b) (c, d)" using assms(1,2) by (auto simp: overlaps_def)
  then show ?thesis using False by (simp add: intersection_def)
qed

end
