(* ===== verification/RwLocks.thy ===== *)
theory RwLocks
  imports NrkPrelude
begin

text \<open>
  The distributed readers-writer lock of \<open>fs/rwlock.rs\<close>, as a system of threads that take atomic
  steps on the lock words.  Each load, fetch-and-add and compare-exchange is one step, so every
  interleaving of \<open>read\<close>, \<open>write\<close> and the drops of their guards is an execution of the system.
  The steps are those of a sequentially consistent memory: on x86 the read-modify-write
  instructions that both sides use before they look at the other's word are full barriers.
\<close>

section \<open>The lock\<close>

abbreviation MAX_READER_THREADS :: nat where "MAX_READER_THREADS \<equiv> 192"

record 'd RwLock =
  wlock :: bool
  rlock :: "nat list"
  rwdata :: 'd

definition RwLock_new :: "'d \<Rightarrow> 'd RwLock" where
  "RwLock_new d = \<lparr>wlock = False, rlock = replicate MAX_READER_THREADS 0, rwdata = d\<rparr>"

definition rlock_add :: "nat \<Rightarrow> 'd RwLock \<Rightarrow> 'd RwLock" where
  "rlock_add tid l = l\<lparr>rlock := (rlock l)[tid := rlock l ! tid + 1]\<rparr>"

definition rlock_sub :: "nat \<Rightarrow> 'd RwLock \<Rightarrow> 'd RwLock" where
  "rlock_sub tid l = l\<lparr>rlock := (rlock l)[tid := rlock l ! tid - 1]\<rparr>"

text \<open>
  Where a thread stands.  \<open>RdSpin\<close> and \<open>RdAdd\<close> are the two halves of the loop of \<open>read\<close>, before
  the naked read of the write lock and before the increment; \<open>RdCheck\<close> has incremented and is about
  to check, \<open>RdBack\<close> got unlucky and is about to decrement. \<open>WrSpin\<close> is the compare-exchange loop of
  \<open>write\<close>, \<open>WrScan i\<close> the scan of the reader locks before its \<open>i\<close>-th load.
\<close>

datatype rwpc = Idle | RdSpin | RdAdd | RdCheck | RdBack | Reading | WrSpin | WrScan nat | Writing | Panicked

type_synonym 'd rwsys = "'d RwLock \<times> (nat \<Rightarrow> rwpc)"

text \<open>
  One step of thread \<open>a\<close>, which runs on core \<open>core a\<close>; \<open>n\<close> is \<open>max_threads()\<close>, and \<open>weak\<close> says
  whether a weak compare-exchange may fail although the comparison succeeds.
\<close>

inductive rw_step :: "nat \<Rightarrow> (nat \<Rightarrow> nat) \<Rightarrow> bool \<Rightarrow> nat \<Rightarrow> 'd rwsys \<Rightarrow> 'd rwsys \<Rightarrow> bool"
  for n core weak a where
  read_call: "pcs a = Idle \<Longrightarrow> rw_step n core weak a (l, pcs) (l, pcs(a := RdSpin))"
| read_spin: "pcs a = RdSpin \<Longrightarrow> rw_step n core weak a (l, pcs) (l, pcs(a := if wlock l then RdSpin else RdAdd))"
| read_add: "pcs a = RdAdd \<Longrightarrow> rw_step n core weak a (l, pcs) (rlock_add (core a) l, pcs(a := RdCheck))"
| read_check: "pcs a = RdCheck \<Longrightarrow> rw_step n core weak a (l, pcs) (l, pcs(a := if wlock l then RdBack else Reading))"
| read_back: "pcs a = RdBack \<Longrightarrow> rw_step n core weak a (l, pcs) (rlock_sub (core a) l, pcs(a := RdSpin))"
| read_unlock: "pcs a = Reading \<Longrightarrow> rw_step n core weak a (l, pcs)
     (rlock_sub (core a) l, pcs(a := if rlock l ! core a = 0 then Panicked else Idle))"
| write_call: "pcs a = Idle \<Longrightarrow> rw_step n core weak a (l, pcs) (l, pcs(a := WrSpin))"
| write_cas: "\<lbrakk>pcs a = WrSpin; \<not> wlock l\<rbrakk> \<Longrightarrow> rw_step n core weak a (l, pcs) (l\<lparr>wlock := True\<rparr>, pcs(a := WrScan 0))"
| write_cas_fail: "\<lbrakk>pcs a = WrSpin; wlock l \<or> weak\<rbrakk> \<Longrightarrow> rw_step n core weak a (l, pcs) (l, pcs)"
| write_scan: "\<lbrakk>pcs a = WrScan i; i < n; i < length (rlock l)\<rbrakk>
     \<Longrightarrow> rw_step n core weak a (l, pcs) (l, pcs(a := if rlock l ! i = 0 then WrScan (i + 1) else WrScan 0))"
| write_enter: "\<lbrakk>pcs a = WrScan i; \<not> (i < n \<and> i < length (rlock l))\<rbrakk>
     \<Longrightarrow> rw_step n core weak a (l, pcs) (l, pcs(a := Writing))"
| write_data: "pcs a = Writing \<Longrightarrow> rw_step n core weak a (l, pcs) (l\<lparr>rwdata := d\<rparr>, pcs)"
| write_unlock: "\<lbrakk>pcs a = Writing; wlock l\<rbrakk> \<Longrightarrow> rw_step n core weak a (l, pcs) (l\<lparr>wlock := False\<rparr>, pcs(a := Idle))"
| write_unlock_fail: "\<lbrakk>pcs a = Writing; \<not> wlock l \<or> weak\<rbrakk> \<Longrightarrow> rw_step n core weak a (l, pcs) (l, pcs(a := Panicked))"

text \<open>Executions of the threads of a finite set \<open>A\<close>.\<close>

inductive rw_steps :: "nat \<Rightarrow> (nat \<Rightarrow> nat) \<Rightarrow> bool \<Rightarrow> nat set \<Rightarrow> 'd rwsys \<Rightarrow> 'd rwsys \<Rightarrow> bool"
  for n core weak A where
  none: "rw_steps n core weak A s s"
| more_steps: "\<lbrakk>rw_steps n core weak A s s'; a \<in> A; rw_step n core weak a s' s''\<rbrakk> \<Longrightarrow> rw_steps n core weak A s s''"

definition rw_init :: "'d \<Rightarrow> 'd rwsys" where
  "rw_init d = (RwLock_new d, \<lambda>_. Idle)"

section \<open>The invariant\<close>

definition counted :: "rwpc \<Rightarrow> bool" where
  "counted p \<longleftrightarrow> p = RdCheck \<or> p = RdBack \<or> p = Reading"

definition holds_write :: "rwpc \<Rightarrow> bool" where
  "holds_write p \<longleftrightarrow> p = Writing \<or> (\<exists>i. p = WrScan i)"

text \<open>How many reader locks a writer has already seen free.\<close>

definition scanned :: "rwpc \<Rightarrow> nat \<Rightarrow> nat" where
  "scanned p n = (case p of WrScan i \<Rightarrow> i | Writing \<Rightarrow> n | _ \<Rightarrow> 0)"

definition on_core :: "nat set \<Rightarrow> (nat \<Rightarrow> nat) \<Rightarrow> (nat \<Rightarrow> rwpc) \<Rightarrow> nat \<Rightarrow> nat set" where
  "on_core A core pcs c = {a \<in> A. core a = c \<and> counted (pcs a)}"

definition counts_ok :: "(nat \<Rightarrow> nat) \<Rightarrow> nat set \<Rightarrow> 'd RwLock \<Rightarrow> (nat \<Rightarrow> rwpc) \<Rightarrow> bool" where
  "counts_ok core A l pcs \<longleftrightarrow> length (rlock l) = MAX_READER_THREADS
     \<and> (\<forall>c < MAX_READER_THREADS. rlock l ! c = card (on_core A core pcs c))"

definition writers_ok :: "nat \<Rightarrow> (nat \<Rightarrow> nat) \<Rightarrow> nat set \<Rightarrow> 'd RwLock \<Rightarrow> (nat \<Rightarrow> rwpc) \<Rightarrow> bool" where
  "writers_ok n core A l pcs \<longleftrightarrow> (\<forall>a \<in> A. holds_write (pcs a) \<longrightarrow> wlock l
     \<and> (\<forall>b \<in> A. (holds_write (pcs b) \<longrightarrow> a = b) \<and> (pcs b = Reading \<longrightarrow> scanned (pcs a) n \<le> core b)))"

definition rw_inv :: "nat \<Rightarrow> (nat \<Rightarrow> nat) \<Rightarrow> nat set \<Rightarrow> 'd rwsys \<Rightarrow> bool" where
  "rw_inv n core A s \<longleftrightarrow> counts_ok core A (fst s) (snd s) \<and> writers_ok n core A (fst s) (snd s)"

lemma lock_word_simps [simp]:
  "wlock (rlock_add c l) = wlock l" "wlock (rlock_sub c l) = wlock l"
  "rwdata (rlock_add c l) = rwdata l" "rwdata (rlock_sub c l) = rwdata l"
  by (simp_all add: rlock_add_def rlock_sub_def)

lemma counted_simps [simp]:
  "\<not> counted Idle" "\<not> counted RdSpin" "\<not> counted RdAdd" "counted RdCheck" "counted RdBack" "counted Reading"
  "\<not> counted WrSpin" "\<not> counted (WrScan i)" "\<not> counted Writing" "\<not> counted Panicked"
  by (simp_all add: counted_def)

lemma holds_write_simps [simp]:
  "\<not> holds_write Idle" "\<not> holds_write RdSpin" "\<not> holds_write RdAdd" "\<not> holds_write RdCheck" "\<not> holds_write RdBack"
  "\<not> holds_write Reading" "\<not> holds_write WrSpin" "holds_write (WrScan i)" "holds_write Writing" "\<not> holds_write Panicked"
  by (simp_all add: holds_write_def)

lemma scanned_simps [simp]: "scanned (WrScan i) n = i" "scanned Writing n = n"
  by (simp_all add: scanned_def)

lemma on_core_update:
  assumes "finite A" and "a \<in> A"
  shows "card (on_core A core (pcs(a := p)) c) =
    (if core a = c then (if counted p then 1 else 0) + card (on_core A core pcs c - {a}) else card (on_core A core pcs c))"
proof -
  have "on_core A core (pcs(a := p)) c = (if core a = c \<and> counted p then insert a (on_core A core pcs c - {a})
      else if core a = c then on_core A core pcs c - {a} else on_core A core pcs c)"
    using assms(2) by (auto simp: on_core_def)
  moreover have "finite (on_core A core pcs c)" using assms(1) by (simp add: on_core_def)
  ultimately show ?thesis by (simp add: card.insert_remove)
qed

lemma on_core_remove:
  assumes "finite A" and "a \<in> A"
  shows "card (on_core A core pcs c - {a}) = card (on_core A core pcs c) - (if core a = c \<and> counted (pcs a) then 1 else 0)"
  using assms by (auto simp: on_core_def card_Diff_singleton_if)

text \<open>The counter of a core follows the threads that have incremented it.\<close>

lemma counter_update:
  assumes "finite A" and "a \<in> A"
  shows "card (on_core A core (pcs(a := p)) c) =
    (if core a = c then (if counted p then 1 else 0) + card (on_core A core pcs c) - (if counted (pcs a) then 1 else 0)
     else card (on_core A core pcs c))"
    and "core a = c \<Longrightarrow> counted (pcs a) \<Longrightarrow> 0 < card (on_core A core pcs c)"
proof -
  show pos: "0 < card (on_core A core pcs c)" if "core a = c" "counted (pcs a)"
    using assms that by (auto simp: on_core_def card_gt_0_iff)
  show "card (on_core A core (pcs(a := p)) c) =
    (if core a = c then (if counted p then 1 else 0) + card (on_core A core pcs c) - (if counted (pcs a) then 1 else 0)
     else card (on_core A core pcs c))"
    using on_core_update [OF assms, of core pcs p c] on_core_remove [OF assms, of core pcs c] pos by auto
qed

lemma rw_inv_init: "rw_inv n core A (rw_init d)"
  by (simp add: rw_inv_def counts_ok_def writers_ok_def rw_init_def RwLock_new_def on_core_def)

lemma counts_same:
  assumes "finite A" and "a \<in> A" and "counts_ok core A l pcs" and "counted p \<longleftrightarrow> counted (pcs a)" and "rlock l' = rlock l"
  shows "counts_ok core A l' (pcs(a := p))"
  using assms counter_update [OF assms(1,2)] by (auto simp: counts_ok_def)

lemma counts_add:
  assumes "finite A" and "a \<in> A" and "counts_ok core A l pcs" and "counted p" and "\<not> counted (pcs a)"
  shows "counts_ok core A (rlock_add (core a) l) (pcs(a := p))"
  using assms counter_update(1) [OF assms(1,2)] by (auto simp: counts_ok_def rlock_add_def nth_list_update)

lemma counts_sub:
  assumes "finite A" and "a \<in> A" and "counts_ok core A l pcs" and "\<not> counted p" and "counted (pcs a)"
  shows "counts_ok core A (rlock_sub (core a) l) (pcs(a := p))"
  using assms counter_update(1) [OF assms(1,2)] by (auto simp: counts_ok_def rlock_sub_def nth_list_update)

lemma counts_pos:
  assumes "finite A" and "a \<in> A" and "counts_ok core A l pcs" and "counted (pcs a)" and "core a < MAX_READER_THREADS"
  shows "0 < rlock l ! core a"
  using assms counter_update(2) [OF assms(1,2)] by (auto simp: counts_ok_def)

lemma writers_same:
  assumes "a \<in> A" and "writers_ok n core A l pcs" and "\<not> holds_write p" and "p = Reading \<longrightarrow> \<not> wlock l"
    and "wlock l' = wlock l \<or> holds_write (pcs a)"
  shows "writers_ok n core A l' (pcs(a := p))"
  using assms unfolding writers_ok_def by (metis fun_upd_apply)

lemma writers_take:
  assumes "a \<in> A" and "writers_ok n core A l pcs" and "\<not> wlock l"
  shows "writers_ok n core A (l\<lparr>wlock := True\<rparr>) (pcs(a := WrScan 0))"
  using assms unfolding writers_ok_def by auto

lemma writers_scan:
  assumes "a \<in> A" and "writers_ok n core A l pcs" and "holds_write (pcs a)" and "holds_write p" and "wlock l' = wlock l"
    and "\<And>b. \<lbrakk>b \<in> A; pcs b = Reading; scanned (pcs a) n \<le> core b\<rbrakk> \<Longrightarrow> scanned p n \<le> core b"
  shows "writers_ok n core A l' (pcs(a := p))"
proof -
  have uniq: "x = a" if "x \<in> A" "holds_write ((pcs(a := p)) x)" for x
    using assms(1-3) that unfolding writers_ok_def by (cases "x = a") auto
  have "wlock l'" using assms(1-3,5) unfolding writers_ok_def by auto
  moreover have "scanned p n \<le> core b" if "b \<in> A" "(pcs(a := p)) b = Reading" for b
  proof -
    have "pcs b = Reading" using that(2) assms(4) by (cases "b = a") auto
    moreover from this have "scanned (pcs a) n \<le> core b" using assms(1-3) that(1) unfolding writers_ok_def by auto
    ultimately show ?thesis using assms(6) that(1) by blast
  qed
  ultimately show ?thesis unfolding writers_ok_def using uniq by (metis fun_upd_same)
qed

text \<open>Every step of every thread keeps the invariant.\<close>

lemma rw_inv_step:
  assumes A: "finite A" "a \<in> A" "\<forall>b \<in> A. core b < MAX_READER_THREADS" and i: "rw_inv n core A s"
    and st: "rw_step n core weak a s s'"
  shows "rw_inv n core A s'"
proof -
  have c: "counts_ok core A (fst s) (snd s)" and w: "writers_ok n core A (fst s) (snd s)"
    using i by (simp_all add: rw_inv_def)
  note same = counts_same [OF A(1,2) c] and add = counts_add [OF A(1,2) c] and sub = counts_sub [OF A(1,2) c]
    and keep = writers_same [OF A(2) w] and take = writers_take [OF A(2) w] and scan = writers_scan [OF A(2) w]
  from st show ?thesis
  proof (cases rule: rw_step.cases)
    case (write_scan pcs i l)
    let ?p = "if rlock l ! i = 0 then WrScan (i + 1) else WrScan 0"
    have p: "holds_write ?p" "\<not> counted ?p" by simp_all
    have sc: "scanned ?p n \<le> core b"
      if b: "b \<in> A" "pcs b = Reading" "i \<le> core b" for b
    proof -
      have "rlock l ! i \<noteq> 0" if "core b = i"
        using counts_pos [OF A(1) b(1) c] b(2) that A(3) b(1) write_scan(1) by auto
      then show ?thesis using b(3) by (cases "core b = i") auto
    qed
    have "counts_ok core A l (pcs(a := ?p))" 
      by (rule counts_same [OF A(1,2) c [unfolded write_scan(1) fst_conv snd_conv] _ refl]) (use p(2) write_scan(3) in simp)
    moreover have "writers_ok n core A l (pcs(a := ?p))"
    proof (rule writers_scan [OF A(2) w [unfolded write_scan(1) fst_conv snd_conv] _ p(1) refl])
      show "holds_write (pcs a)" using write_scan(3) by simp
      fix b assume "b \<in> A" "pcs b = Reading" "scanned (pcs a) n \<le> core b"
      then show "scanned ?p n \<le> core b" using write_scan(3) by (intro sc) simp_all
    qed
    ultimately show ?thesis using write_scan(2) by (simp only: rw_inv_def fst_conv snd_conv simp_thms)
  next
    case (write_enter pcs i l)
    have len: "length (rlock l) = MAX_READER_THREADS" using c write_enter(1) by (simp add: counts_ok_def)
    have le: "n \<le> core b" if "b \<in> A" "i \<le> core b" for b
      using write_enter(4) bspec [OF A(3) that(1)] that(2) unfolding len by linarith
    have "counts_ok core A l (pcs(a := Writing))"
      by (rule counts_same [OF A(1,2) c [unfolded write_enter(1) fst_conv snd_conv] _ refl]) (simp add: write_enter(3))
    moreover have "writers_ok n core A l (pcs(a := Writing))"
    proof (rule writers_scan [OF A(2) w [unfolded write_enter(1) fst_conv snd_conv] _ _ refl])
      fix b assume "b \<in> A" "scanned (pcs a) n \<le> core b"
      then show "scanned Writing n \<le> core b" using le write_enter(3) by simp
    qed (simp_all add: write_enter(3))
    ultimately show ?thesis using write_enter(2) by (simp only: rw_inv_def fst_conv snd_conv simp_thms)
  next
    case (write_data pcs l d)
    then show ?thesis using same [of Writing] scan [of Writing] c w
      by (simp add: rw_inv_def counts_ok_def writers_ok_def)
  next
    case (write_cas pcs l)
    then show ?thesis using same [of "WrScan 0" "l\<lparr>wlock := True\<rparr>"] take by (simp add: rw_inv_def)
  next
    case (read_call pcs l)
    then show ?thesis using same [of RdSpin l] keep [of RdSpin l] by (simp add: rw_inv_def)
  next
    case (read_spin pcs l)
    then show ?thesis
      using same [of RdSpin l] keep [of RdSpin l] same [of RdAdd l] keep [of RdAdd l] by (simp add: rw_inv_def)
  next
    case (read_add pcs l)
    then show ?thesis using add [of RdCheck] keep [of RdCheck "rlock_add (core a) l"] by (simp add: rw_inv_def)
  next
    case (read_check pcs l)
    then show ?thesis
      using same [of RdBack l] keep [of RdBack l] same [of Reading l] keep [of Reading l] by (simp add: rw_inv_def)
  next
    case (read_back pcs l)
    then show ?thesis using sub [of RdSpin] keep [of RdSpin "rlock_sub (core a) l"] by (simp add: rw_inv_def)
  next
    case (read_unlock pcs l)
    then show ?thesis
      using sub [of Idle] keep [of Idle "rlock_sub (core a) l"] sub [of Panicked] keep [of Panicked "rlock_sub (core a) l"]
      by (simp add: rw_inv_def)
  next
    case (write_call pcs l)
    then show ?thesis using same [of WrSpin l] keep [of WrSpin l] by (simp add: rw_inv_def)
  next
    case (write_cas_fail pcs l)
    then show ?thesis using i by simp
  next
    case (write_unlock pcs l)
    then show ?thesis
      using same [of Idle "l\<lparr>wlock := False\<rparr>"] keep [of Idle "l\<lparr>wlock := False\<rparr>"] by (simp add: rw_inv_def)
  next
    case (write_unlock_fail pcs l)
    then show ?thesis using same [of Panicked l] keep [of Panicked l] by (simp add: rw_inv_def)
  qed
qed

lemma rw_inv_steps:
  assumes "finite A" and "\<forall>b \<in> A. core b < MAX_READER_THREADS" and "rw_steps n core weak A s s'" and "rw_inv n core A s"
  shows "rw_inv n core A s'"
  using assms(3,4) by (induction rule: rw_steps.induct) (blast intro: rw_inv_step [OF assms(1) _ assms(2)])+

lemma rw_reachable:
  assumes "finite A" and "\<forall>b \<in> A. core b < MAX_READER_THREADS" and "rw_steps n core weak A (rw_init d) (l, pcs)"
  shows "counts_ok core A l pcs" and "writers_ok n core A l pcs"
  using rw_inv_steps [OF assms rw_inv_init] by (simp_all add: rw_inv_def)

section \<open>Mutual exclusion\<close>

lemma writer_excludes:
  assumes "writers_ok n core A l pcs" and "\<forall>b \<in> A. core b < n" and "a \<in> A" "b \<in> A" "pcs a = Writing"
  shows "pcs b \<noteq> Reading" and "pcs b = Writing \<Longrightarrow> b = a"
  using assms unfolding writers_ok_def
  by (metis holds_write_simps(9) not_less scanned_simps(2), metis holds_write_simps(9))

text \<open>
  C25. The lock does what its guards promise, whatever the interleaving of the threads: while a
  thread is inside a write section no other thread is inside a read or write section, and while
  a thread is inside a read section no step of any thread changes the protected data.
\<close>
theorem rwlock_protects:
  assumes "finite A" and "\<forall>a \<in> A. core a < n" and "n \<le> MAX_READER_THREADS"
    and "rw_steps n core weak A (rw_init d) (l, pcs)"
  shows "(\<forall>a \<in> A. \<forall>b \<in> A. pcs a = Writing \<and> (pcs b = Reading \<or> pcs b = Writing) \<longrightarrow> a = b)
    \<and> (\<forall>a \<in> A. \<forall>b \<in> A. \<forall>l' pcs'. pcs a = Reading \<and> rw_step n core weak b (l, pcs) (l', pcs') \<longrightarrow> rwdata l' = rwdata l)"
proof -
  have "\<forall>b \<in> A. core b < MAX_READER_THREADS" using assms(2,3) by (meson less_le_trans)
  then have w: "writers_ok n core A l pcs" by (rule rw_reachable(2) [OF assms(1) _ assms(4)])
  note ex = writer_excludes [OF w assms(2)]
  have "rwdata l' = rwdata l" if "a \<in> A" "b \<in> A" "pcs a = Reading" "rw_step n core weak b (l, pcs) (l', pcs')" for a b l' pcs'
    using that(4)
  proof (cases rule: rw_step.cases)
    case (write_data d')
    then show ?thesis using ex(1) [OF that(2,1)] that(3) by simp
  qed (simp_all add: rlock_add_def rlock_sub_def)
  then show ?thesis using ex by blast
qed

lemma rw_steps_trans: "\<lbrakk>rw_steps n core weak A s' s''; rw_steps n core weak A s s'\<rbrakk> \<Longrightarrow> rw_steps n core weak A s s''"
  by (induction rule: rw_steps.induct) (auto intro: rw_steps.more_steps)

lemma rw_steps_first: "\<lbrakk>a \<in> A; rw_step n core weak a s s'; rw_steps n core weak A s' s''\<rbrakk> \<Longrightarrow> rw_steps n core weak A s s''"
  by (blast intro: rw_steps_trans rw_steps.intros)

text \<open>A run of one reader, from the call of \<open>read\<close> into its section.\<close>

lemma reader_enters:
  assumes "a \<in> A" and "pcs a = Idle" and "\<not> wlock l"
  shows "rw_steps n core weak A (l, pcs) (rlock_add (core a) l, pcs(a := Reading))"
proof -
  note st = rw_steps_first [OF assms(1)]
  have w: "\<not> wlock (rlock_add (core a) l)" using assms(3) by (simp add: rlock_add_def)
  have 4: "rw_steps n core weak A (rlock_add (core a) l, pcs(a := RdCheck)) (rlock_add (core a) l, pcs(a := Reading))"
    by (rule st [OF read_check]) (use w in \<open>simp_all add: rw_steps.none\<close>)
  have 3: "rw_steps n core weak A (l, pcs(a := RdAdd)) (rlock_add (core a) l, pcs(a := Reading))"
    by (rule st [OF read_add]) (use 4 in simp_all)
  have 2: "rw_steps n core weak A (l, pcs(a := RdSpin)) (rlock_add (core a) l, pcs(a := Reading))"
    by (rule st [OF read_spin]) (use 3 assms(3) in simp_all)
  show ?thesis by (rule st [OF read_call]) (use 2 assms(2) in simp_all)
qed

theorem rwlock_protects_witness:
  "\<exists>l pcs. rw_steps 2 (\<lambda>a. a) True {0, 1} (rw_init (0::nat)) (l, pcs) \<and> pcs 0 = Reading
     \<and> (\<forall>l' pcs'. rw_step 2 (\<lambda>a. a) True 1 (l, pcs) (l', pcs') \<longrightarrow> rwdata l' = rwdata l)"
proof -
  let ?l = "rlock_add 0 (RwLock_new (0::nat))" and ?pcs = "(\<lambda>_::nat. Idle)(0 := Reading)"
  have *: "rw_steps 2 (\<lambda>a. a) True {0, 1} (rw_init (0::nat)) (?l, ?pcs)"
    unfolding rw_init_def by (rule reader_enters [where core = "\<lambda>a. a" and a = 0]) (simp_all add: RwLock_new_def)
  have "finite {0, 1::nat}" "\<forall>a \<in> {0, 1::nat}. a < 2" "2 \<le> MAX_READER_THREADS" by simp_all
  note th = rwlock_protects [OF this *, THEN conjunct2, rule_format, of 0 1]
  then show ?thesis using * by (intro exI [of _ ?l] exI [of _ ?pcs] conjI allI impI) simp_all
qed

section \<open>Progress and panics\<close>

lemma scan_succeeds:
  assumes "a \<in> A" and "length (rlock l) = MAX_READER_THREADS" and "\<And>c. c < MAX_READER_THREADS \<Longrightarrow> rlock l ! c = 0"
    and "pcs a = WrScan i"
  shows "rw_steps n core weak A (l, pcs) (l, pcs(a := Writing))"
  using assms(4)
proof (induction "MAX_READER_THREADS - i" arbitrary: i pcs)
  case 0
  show ?case by (rule rw_steps_first [OF assms(1) write_enter [where pcs = pcs and a = a, OF 0(2)] rw_steps.none]) (use 0 assms(2) in simp)
next
  case (Suc k)
  show ?case
  proof (cases "i < n")
    case True
    have "rw_steps n core weak A (l, pcs(a := WrScan (i + 1))) (l, (pcs(a := WrScan (i + 1)))(a := Writing))"
      by (rule Suc(1)) (use Suc(2) in simp_all)
    then have "rw_steps n core weak A (l, pcs(a := if rlock l ! i = 0 then WrScan (i + 1) else WrScan 0)) (l, pcs(a := Writing))"
      using assms(3) [of i] Suc(2) by simp
    then show ?thesis
      by (intro rw_steps_first [OF assms(1) write_scan [where pcs = pcs and a = a, OF Suc(3) True]]) (use Suc(2) assms(2) in simp_all)
  next
    case False
    show ?thesis by (rule rw_steps_first [OF assms(1) write_enter [where pcs = pcs and a = a, OF Suc(3)] rw_steps.none]) (use False in simp)
  qed
qed

definition read_weight :: "rwpc \<Rightarrow> nat" where
  "read_weight p = (case p of RdCheck \<Rightarrow> 3 | RdBack \<Rightarrow> 2 | Reading \<Rightarrow> 1 | _ \<Rightarrow> 0)"

lemma reader_leaves:
  assumes "counted (pcs b)" and "wlock l"
  shows "\<exists>l' p. rw_step n core weak b (l, pcs) (l', pcs(b := p)) \<and> read_weight p < read_weight (pcs b)"
proof -
  consider "pcs b = RdCheck" | "pcs b = RdBack" | "pcs b = Reading" using assms(1) by (auto simp: counted_def)
  then show ?thesis
  proof cases
    case 1
    from read_check [where pcs = pcs and a = b, OF 1, of n core weak l] show ?thesis
      using assms(2) 1 by (intro exI [of _ l] exI [of _ RdBack]) (simp add: read_weight_def)
  next
    case 2
    from read_back [where pcs = pcs and a = b, OF 2, of n core weak l] show ?thesis
      using 2 by (intro exI [of _ "rlock_sub (core b) l"] exI [of _ RdSpin]) (simp add: read_weight_def)
  next
    case 3
    from read_unlock [where pcs = pcs and a = b, OF 3, of n core weak l] show ?thesis
      using 3 by (intro exI [of _ "rlock_sub (core b) l"] exI [of _ "if rlock l ! core b = 0 then Panicked else Idle"])
        (simp add: read_weight_def)
  qed
qed

lemma readers_drain:
  assumes A: "finite A" "a \<in> A" "\<forall>b \<in> A. core b < MAX_READER_THREADS"
  shows "rw_inv n core A (l, pcs) \<Longrightarrow> holds_write (pcs a) \<Longrightarrow>
    \<exists>l' pcs'. rw_steps n core weak A (l, pcs) (l', pcs') \<and> rw_inv n core A (l', pcs') \<and> pcs' a = pcs a
      \<and> (\<forall>b \<in> A. \<not> counted (pcs' b))"
proof (induction "\<Sum>b \<in> A. read_weight (pcs b)" arbitrary: l pcs rule: less_induct)
  case less
  show ?case
  proof (cases "\<exists>b \<in> A. counted (pcs b)")
    case False
    then show ?thesis using less.prems rw_steps.none by blast
  next
    case True
    then obtain b where b: "b \<in> A" "counted (pcs b)" by blast
    then have ba: "b \<noteq> a" using less.prems(2) by (auto simp: counted_def)
    have wl: "wlock l" using less.prems A(2) by (auto simp: rw_inv_def writers_ok_def)
    have "\<exists>l' p. rw_step n core weak b (l, pcs) (l', pcs(b := p)) \<and> read_weight p < read_weight (pcs b)"
      by (rule reader_leaves [where pcs = pcs and b = b, OF b(2) wl])
    then obtain l' p where st: "rw_step n core weak b (l, pcs) (l', pcs(b := p))" "read_weight p < read_weight (pcs b)" by blast
    have "(\<Sum>c \<in> A. read_weight ((pcs(b := p)) c)) < (\<Sum>c \<in> A. read_weight (pcs c))"
      by (rule sum_strict_mono_ex1) (use A(1) b(1) st(2) in auto)
    moreover have "rw_inv n core A (l', pcs(b := p))" by (rule rw_inv_step [OF A(1) b(1) A(3) less.prems(1) st(1)])
    moreover have "holds_write ((pcs(b := p)) a)" using ba less.prems(2) by simp
    ultimately obtain l'' pcs'' where "rw_steps n core weak A (l', pcs(b := p)) (l'', pcs'')" "rw_inv n core A (l'', pcs'')"
      "pcs'' a = (pcs(b := p)) a" "\<forall>b \<in> A. \<not> counted (pcs'' b)"
      using less.hyps by blast
    then show ?thesis using rw_steps_first [OF b(1) st(1)] ba by (intro exI [of _ l''] exI [of _ pcs'']) simp
  qed
qed

text \<open>
  C36. A writer that has taken the write lock is never shut out: from every reachable state the
  readers can leave or step back, and then the writer's scan finds every reader lock free.
\<close>
theorem writer_gets_in:
  assumes A: "finite A" "\<forall>b \<in> A. core b < MAX_READER_THREADS" and r: "rw_steps n core weak A (rw_init d) (l, pcs)"
    and a: "a \<in> A" "pcs a = WrScan i"
  shows "\<exists>l' pcs'. rw_steps n core weak A (l, pcs) (l', pcs') \<and> pcs' a = Writing"
proof -
  have "rw_inv n core A (l, pcs)" by (rule rw_inv_steps [OF A r rw_inv_init])
  then obtain l' pcs' where s: "rw_steps n core weak A (l, pcs) (l', pcs')" "rw_inv n core A (l', pcs')" "pcs' a = WrScan i"
    "\<forall>b \<in> A. \<not> counted (pcs' b)"
    using readers_drain [OF A(1) a(1) A(2)] a(2) by fastforce
  have c: "counts_ok core A l' pcs'" using s(2) by (simp add: rw_inv_def)
  have "rlock l' ! c = 0" if "c < MAX_READER_THREADS" for c
  proof -
    have "on_core A core pcs' c = {}" using s(4) by (auto simp: on_core_def)
    then show ?thesis using c that by (simp add: counts_ok_def)
  qed
  then have "rw_steps n core weak A (l', pcs') (l', pcs'(a := Writing))"
    by (intro scan_succeeds [where i = i]) (use a(1) s(3) c in \<open>simp_all add: counts_ok_def\<close>)
  then show ?thesis using rw_steps_trans s(1) by fastforce
qed

text \<open>A thread alone takes the write lock.\<close>

lemma writer_enters:
  assumes "a \<in> A" and "pcs a = Idle" and "\<not> wlock l" and "length (rlock l) = MAX_READER_THREADS"
    and "\<And>c. c < MAX_READER_THREADS \<Longrightarrow> rlock l ! c = 0"
  shows "rw_steps n core weak A (l, pcs) (l\<lparr>wlock := True\<rparr>, pcs(a := WrScan 0))"
    and "rw_steps n core weak A (l, pcs) (l\<lparr>wlock := True\<rparr>, pcs(a := Writing))"
proof -
  have 1: "rw_steps n core weak A (l, pcs(a := WrSpin)) (l\<lparr>wlock := True\<rparr>, pcs(a := WrScan 0))"
    using rw_steps_first [OF assms(1) write_cas [of "pcs(a := WrSpin)" a l] rw_steps.none] assms(3) by simp
  show 2: "rw_steps n core weak A (l, pcs) (l\<lparr>wlock := True\<rparr>, pcs(a := WrScan 0))"
    by (rule rw_steps_first [OF assms(1) write_call [where pcs = pcs and a = a, OF assms(2)] 1])
  have "rw_steps n core weak A (l\<lparr>wlock := True\<rparr>, pcs(a := WrScan 0)) (l\<lparr>wlock := True\<rparr>, (pcs(a := WrScan 0))(a := Writing))"
    by (rule scan_succeeds [OF assms(1)]) (use assms(4,5) in simp_all)
  then show "rw_steps n core weak A (l, pcs) (l\<lparr>wlock := True\<rparr>, pcs(a := Writing))"
    using rw_steps_trans [OF _ 2] by simp
qed

lemma new_lock: "\<not> wlock (RwLock_new d)" "length (rlock (RwLock_new d)) = MAX_READER_THREADS"
  "c < MAX_READER_THREADS \<Longrightarrow> rlock (RwLock_new d) ! c = 0"
  by (simp_all add: RwLock_new_def)

theorem writer_gets_in_witness:
  "\<exists>l pcs l' pcs'. rw_steps 2 (\<lambda>a. a) False {0, 1} (rw_init (0::nat)) (l, pcs) \<and> pcs 0 = WrScan 0
     \<and> rw_steps 2 (\<lambda>a. a) False {0, 1} (l, pcs) (l', pcs') \<and> pcs' 0 = Writing"
proof -
  let ?l = "(RwLock_new (0::nat))\<lparr>wlock := True\<rparr>" and ?pcs = "(\<lambda>_. Idle)(0 := WrScan 0)"
  have s: "rw_steps 2 (\<lambda>a. a) False {0, 1} (rw_init (0::nat)) (?l, ?pcs)"
    unfolding rw_init_def by (rule writer_enters(1)) (simp_all add: new_lock)
  have "finite {0, 1::nat}" "\<forall>b \<in> {0, 1::nat}. b < MAX_READER_THREADS" by simp_all
  from writer_gets_in [OF this s, of 0 0] obtain l' pcs' where
    "rw_steps 2 (\<lambda>a. a) False {0, 1} (?l, ?pcs) (l', pcs')" "pcs' 0 = Writing" by auto
  then show ?thesis using s by (intro exI [of _ ?l] exI [of _ ?pcs] exI [of _ l'] exI [of _ pcs']) simp
qed

lemma no_panic_step:
  assumes A: "finite A" "a \<in> A" "\<forall>b \<in> A. core b < MAX_READER_THREADS" and i: "rw_inv n core A s"
    and st: "rw_step n core False a s s'" and np: "\<forall>b \<in> A. snd s b \<noteq> Panicked"
  shows "\<forall>b \<in> A. snd s' b \<noteq> Panicked"
  using st
proof (cases rule: rw_step.cases)
  case (read_unlock pcs l)
  have "0 < rlock l ! core a"
    by (rule counts_pos [OF A(1,2), of core l pcs]) (use i read_unlock A(2,3) in \<open>simp_all add: rw_inv_def\<close>)
  then show ?thesis using read_unlock np by simp
next
  case (write_unlock_fail pcs l)
  then have "wlock l" using i A(2) by (auto simp: rw_inv_def writers_ok_def)
  then show ?thesis using write_unlock_fail by simp
qed (use np in auto)

lemma no_panic_steps:
  assumes A: "finite A" "\<forall>b \<in> A. core b < MAX_READER_THREADS" and "rw_steps n core False A s s'" and "rw_inv n core A s"
    and "\<forall>b \<in> A. snd s b \<noteq> Panicked"
  shows "\<forall>b \<in> A. snd s' b \<noteq> Panicked"
  using assms(3-5)
proof (induction rule: rw_steps.induct)
  case (more_steps s s' a s'')
  have "rw_inv n core A s'" by (rule rw_inv_steps [OF A more_steps.hyps(1) more_steps.prems(1)])
  then show ?case using no_panic_step [OF A(1) more_steps.hyps(2) A(2) _ more_steps.hyps(3)] more_steps.IH more_steps.prems by blast
qed

text \<open>
  Dropping a guard panics only when a weak compare-exchange fails spuriously: with
  compare-exchanges that fail only on a mismatch no thread ever panics, and with weak ones, as the
  code uses them, the drop of a write guard may panic although the thread holds the lock.
\<close>
lemma unlock_panics_only_spuriously:
  assumes A: "finite A" "\<forall>b \<in> A. core b < MAX_READER_THREADS" and a: "a \<in> A"
  shows "(\<forall>l pcs. rw_steps n core False A (rw_init d) (l, pcs) \<longrightarrow> pcs a \<noteq> Panicked)
    \<and> (\<exists>l pcs. rw_steps n core True A (rw_init d) (l, pcs) \<and> wlock l \<and> pcs a = Panicked)"
proof (intro conjI allI impI)
  fix l pcs
  assume r: "rw_steps n core False A (rw_init d) (l, pcs)"
  from no_panic_steps [OF A r rw_inv_init] show "pcs a \<noteq> Panicked" using a by (simp add: rw_init_def)
next
  have 1: "rw_steps n core True A (rw_init d) ((RwLock_new d)\<lparr>wlock := True\<rparr>, (\<lambda>_. Idle)(a := Writing))"
    unfolding rw_init_def by (rule writer_enters(2) [OF a]) (simp_all add: new_lock)
  have "rw_step n core True a ((RwLock_new d)\<lparr>wlock := True\<rparr>, (\<lambda>_. Idle)(a := Writing))
      ((RwLock_new d)\<lparr>wlock := True\<rparr>, ((\<lambda>_. Idle)(a := Writing))(a := Panicked))"
    by (rule write_unlock_fail) simp_all
  from rw_steps.more_steps [OF 1 a this]
  show "\<exists>l pcs. rw_steps n core True A (rw_init d) (l, pcs) \<and> wlock l \<and> pcs a = Panicked"
    by (intro exI [of _ "(RwLock_new d)\<lparr>wlock := True\<rparr>"] exI [of _ "((\<lambda>_. Idle)(a := Writing))(a := Panicked)"] conjI) simp_all
qed

end
