(* ===== verification/MCache.thy ===== *)
theory MCache
  imports Frames
begin

text \<open>
  The page caches (\<open>kernel/src/memory/mcache.rs\<close>): two stacks of free page addresses, one of base
  pages and one of large pages, filled from frames.  \<open>TCache\<close> and \<open>NCache\<close> are the same structure
  with different capacities.  An \<open>ArrayVec\<close> is a list with a capacity; \<open>try_push\<close> appends and
  \<open>pop\<close> takes the last element.
\<close>

section \<open>Model\<close>

record MCache =
  node :: nat
  bp_cap :: nat
  lp_cap :: nat
  base_page_addresses :: "nat list"
  large_page_addresses :: "nat list"

definition MCache_new :: "nat \<Rightarrow> nat \<Rightarrow> nat \<Rightarrow> MCache" where
  "MCache_new BP LP n = \<lparr>node = n, bp_cap = BP, lp_cap = LP,
     base_page_addresses = [], large_page_addresses = []\<rparr>"

abbreviation TCache_new :: "nat \<Rightarrow> MCache" where "TCache_new \<equiv> MCache_new 381 128"
abbreviation NCache_new :: "nat \<Rightarrow> MCache" where "NCache_new \<equiv> MCache_new 131071 131070"

definition try_push :: "nat \<Rightarrow> nat list \<Rightarrow> nat \<Rightarrow> nat list option" where
  "try_push cap xs x = (if length xs < cap then Some (xs @ [x]) else None)"

text \<open>The loops that push base pages until the stack is full.\<close>

fun push_base :: "nat \<Rightarrow> nat list \<Rightarrow> Frame list \<Rightarrow> nat list" where
  "push_base cap xs [] = xs"
| "push_base cap xs (p # ps) =
     (case try_push cap xs (fbase p) of Some xs' \<Rightarrow> push_base cap xs' ps | None \<Rightarrow> xs)"

text \<open>The loop that cuts large pages off an aligned frame; a page that does not fit is lost.\<close>

fun push_large :: "nat \<Rightarrow> nat list \<Rightarrow> nat \<Rightarrow> Frame \<Rightarrow> (nat list \<times> Frame) kres" where
  "push_large cap xs 0 f = Ok (xs, f)"
| "push_large cap xs (Suc n) f =
     (if fsize f \<ge> LARGE_PAGE_SIZE
      then bind_result (split_at f LARGE_PAGE_SIZE) (\<lambda>(large_page, rest).
             push_large cap
               (case try_push cap xs (fbase large_page) of Some xs' \<Rightarrow> xs' | None \<Rightarrow> xs) n rest)
      else Ok (xs, f))"

definition populate :: "MCache \<Rightarrow> Frame \<Rightarrow> nat \<Rightarrow> MCache kres" where
  "populate c frame how_many =
     (let how_many_large_pages = (if how_many = 0 then 1 else how_many) in
      bind_result (split_at_nearest_large_page_boundary frame) (\<lambda>(low_frame, aligned).
      bind_result (frame_pages low_frame) (\<lambda>low_pages.
      let base1 = push_base (bp_cap c) (base_page_addresses c) low_pages in
      bind_result (push_large (lp_cap c) (large_page_addresses c) how_many_large_pages aligned)
        (\<lambda>(large1, rest).
      bind_result (frame_pages rest) (\<lambda>rest_pages.
      Ok (c\<lparr>base_page_addresses := push_base (bp_cap c) base1 rest_pages,
            large_page_addresses := large1\<rparr>))))))"

definition populate_4k_first :: "MCache \<Rightarrow> Frame \<Rightarrow> MCache kres" where
  "populate_4k_first c frame =
     populate c frame
       (if base_pages frame > bp_cap c
        then ((base_pages frame - bp_cap c) * BASE_PAGE_SIZE) div LARGE_PAGE_SIZE
        else 1)"

definition populate_2m_first :: "MCache \<Rightarrow> Frame \<Rightarrow> MCache kres" where
  "populate_2m_first c frame = populate c frame ((fsize frame div LARGE_PAGE_SIZE) * 87 div 100)"

definition MCache_new_with_frame :: "nat \<Rightarrow> nat \<Rightarrow> nat \<Rightarrow> Frame \<Rightarrow> MCache kres" where
  "MCache_new_with_frame BP LP n mem = populate_4k_first (MCache_new BP LP n) mem"

definition paddr_to_base_page :: "MCache \<Rightarrow> nat \<Rightarrow> Frame kres" where
  "paddr_to_base_page c pa = Frame_new pa BASE_PAGE_SIZE (node c)"

definition paddr_to_large_page :: "MCache \<Rightarrow> nat \<Rightarrow> Frame kres" where
  "paddr_to_large_page c pa = Frame_new pa LARGE_PAGE_SIZE (node c)"

definition mcache_capacity :: "MCache \<Rightarrow> nat" where
  "mcache_capacity c = bp_cap c * BASE_PAGE_SIZE + lp_cap c * LARGE_PAGE_SIZE"

definition mcache_free :: "MCache \<Rightarrow> nat" where
  "mcache_free c = length (base_page_addresses c) * BASE_PAGE_SIZE
     + length (large_page_addresses c) * LARGE_PAGE_SIZE"

definition allocate_base_page :: "MCache \<Rightarrow> MCache \<times> Frame kres" where
  "allocate_base_page c =
     (if base_page_addresses c = [] then (c, Err CacheExhausted)
      else let c' = c\<lparr>base_page_addresses := butlast (base_page_addresses c)\<rparr>
        in (c', paddr_to_base_page c' (last (base_page_addresses c))))"

definition release_base_page :: "MCache \<Rightarrow> Frame \<Rightarrow> MCache \<times> unit kres" where
  "release_base_page c f =
     (if fsize f \<noteq> BASE_PAGE_SIZE \<or> fbase f mod BASE_PAGE_SIZE \<noteq> 0 \<or> affinity f \<noteq> node c then (c, Panic)
      else case try_push (bp_cap c) (base_page_addresses c) (fbase f) of
             Some xs \<Rightarrow> (c\<lparr>base_page_addresses := xs\<rparr>, Ok ())
           | None \<Rightarrow> (c, Err (CacheFull)))"

definition allocate_large_page :: "MCache \<Rightarrow> MCache \<times> Frame kres" where
  "allocate_large_page c =
     (if large_page_addresses c = [] then (c, Err CacheExhausted)
      else let c' = c\<lparr>large_page_addresses := butlast (large_page_addresses c)\<rparr>
        in (c', paddr_to_large_page c' (last (large_page_addresses c))))"

definition release_large_page :: "MCache \<Rightarrow> Frame \<Rightarrow> MCache \<times> unit kres" where
  "release_large_page c f =
     (if fsize f \<noteq> LARGE_PAGE_SIZE \<or> fbase f mod LARGE_PAGE_SIZE \<noteq> 0 \<or> affinity f \<noteq> node c then (c, Panic)
      else case try_push (lp_cap c) (large_page_addresses c) (fbase f) of
             Some xs \<Rightarrow> (c\<lparr>large_page_addresses := xs\<rparr>, Ok ())
           | None \<Rightarrow> (c, Err (CacheFull)))"

definition spare_base_page_capacity :: "MCache \<Rightarrow> nat" where
  "spare_base_page_capacity c = bp_cap c - length (base_page_addresses c)"

definition spare_large_page_capacity :: "MCache \<Rightarrow> nat" where
  "spare_large_page_capacity c = lp_cap c - length (large_page_addresses c)"

text \<open>Growing adds the frames of a list one by one and stops at the first that does not fit.\<close>

fun grow_base_pages :: "MCache \<Rightarrow> Frame list \<Rightarrow> MCache \<times> unit kres" where
  "grow_base_pages c [] = (c, Ok ())"
| "grow_base_pages c (f # fs) = and_then (release_base_page c f) (\<lambda>c' _. grow_base_pages c' fs)"

fun grow_large_pages :: "MCache \<Rightarrow> Frame list \<Rightarrow> MCache \<times> unit kres" where
  "grow_large_pages c [] = (c, Ok ())"
| "grow_large_pages c (f # fs) = and_then (release_large_page c f) (\<lambda>c' _. grow_large_pages c' fs)"

text \<open>Reaping fills the slots of a list from the cache; the slots left over keep their value.\<close>

fun reap_base_pages :: "MCache \<Rightarrow> Frame option list \<Rightarrow> MCache \<times> Frame option list kres" where
  "reap_base_pages c [] = (c, Ok [])"
| "reap_base_pages c (x # xs) =
     (case allocate_base_page c of
        (c', Ok f) \<Rightarrow> (case reap_base_pages c' xs of (c'', r) \<Rightarrow> (c'', map_result ((#) (Some f)) r))
      | (c', Err _) \<Rightarrow> (c', Ok (x # xs))
      | (c', Panic) \<Rightarrow> (c', Panic))"

fun reap_large_pages :: "MCache \<Rightarrow> Frame option list \<Rightarrow> MCache \<times> Frame option list kres" where
  "reap_large_pages c [] = (c, Ok [])"
| "reap_large_pages c (x # xs) =
     (case allocate_large_page c of
        (c', Ok f) \<Rightarrow> (case reap_large_pages c' xs of (c'', r) \<Rightarrow> (c'', map_result ((#) (Some f)) r))
      | (c', Err _) \<Rightarrow> (c', Ok (x # xs))
      | (c', Panic) \<Rightarrow> (c', Panic))"

section \<open>The memory of a cache\<close>

text \<open>Pages as pairs of an address and a size; a list of pages is apart if no two overlap.\<close>

definition page_bytes :: "nat \<times> nat \<Rightarrow> nat set" where
  "page_bytes p = {fst p ..< fst p + snd p}"

fun apart :: "(nat \<times> nat) list \<Rightarrow> bool" where
  "apart [] = True"
| "apart (p # ps) = ((\<forall>q \<in> set ps. page_bytes p \<inter> page_bytes q = {}) \<and> apart ps)"

definition pages_bytes :: "(nat \<times> nat) list \<Rightarrow> nat set" where
  "pages_bytes ps = (\<Union>p \<in> set ps. page_bytes p)"

definition cache_pages :: "MCache \<Rightarrow> (nat \<times> nat) list" where
  "cache_pages c = map (\<lambda>a. (a, BASE_PAGE_SIZE)) (base_page_addresses c)
     @ map (\<lambda>a. (a, LARGE_PAGE_SIZE)) (large_page_addresses c)"

definition mcache_inv :: "MCache \<Rightarrow> bool" where
  "mcache_inv c \<longleftrightarrow> length (base_page_addresses c) \<le> bp_cap c \<and> length (large_page_addresses c) \<le> lp_cap c
     \<and> (\<forall>a \<in> set (base_page_addresses c). a mod BASE_PAGE_SIZE = 0)
     \<and> (\<forall>a \<in> set (large_page_addresses c). a mod LARGE_PAGE_SIZE = 0)
     \<and> apart (cache_pages c)"

lemma apart_append:
  "apart (ps @ qs) \<longleftrightarrow> apart ps \<and> apart qs \<and> pages_bytes ps \<inter> pages_bytes qs = {}"
  by (induction ps) (auto simp: pages_bytes_def)

lemma pages_bytes_simps [simp]:
  "pages_bytes [] = {}" "pages_bytes (p # ps) = page_bytes p \<union> pages_bytes ps"
  "pages_bytes (ps @ qs) = pages_bytes ps \<union> pages_bytes qs"
  by (auto simp: pages_bytes_def)

lemma push_base_eq:
  "push_base cap xs ps = xs @ take (cap - length xs) (map fbase ps)"
proof (induction ps arbitrary: xs)
  case (Cons p ps)
  show ?case
  proof (cases "length xs < cap")
    case True
    then have "cap - length xs = Suc (cap - Suc (length xs))" by simp
    then show ?thesis using True Cons.IH [of "xs @ [fbase p]"] by (simp add: try_push_def)
  qed (simp add: try_push_def)
qed simp

lemma split_large_page:
  assumes "frame_ok f" and "LARGE_PAGE_SIZE \<le> fsize f"
  obtains rest where
    "split_at f LARGE_PAGE_SIZE
       = Ok (\<lparr>fbase = fbase f, fsize = LARGE_PAGE_SIZE, affinity = affinity f\<rparr>, rest)"
    "frame_ok rest" "page_bytes (fbase f, LARGE_PAGE_SIZE) \<union> frame_bytes rest = frame_bytes f"
    "page_bytes (fbase f, LARGE_PAGE_SIZE) \<inter> frame_bytes rest = {}"
    "fsize rest = fsize f - LARGE_PAGE_SIZE"
    "rest = Frame_empty \<or> fbase rest = fbase f + LARGE_PAGE_SIZE \<and> affinity rest = affinity f"
proof -
  have m: "LARGE_PAGE_SIZE mod BASE_PAGE_SIZE = 0" by simp
  obtain low high where s: "split_at f LARGE_PAGE_SIZE = Ok (low, high)" "frame_ok high"
    "frame_bytes low \<union> frame_bytes high = frame_bytes f" "frame_bytes low \<inter> frame_bytes high = {}"
    "fsize low = min LARGE_PAGE_SIZE (fsize f)" "fsize high = fsize f - LARGE_PAGE_SIZE"
    "fbase low = fbase f" "LARGE_PAGE_SIZE < fsize f \<Longrightarrow> fbase high = fbase f + LARGE_PAGE_SIZE"
    "affinity low = affinity f" "high \<noteq> Frame_empty \<Longrightarrow> affinity high = affinity f"
    by (rule split_at_ok [OF assms(1) m], rule that)
  have low: "low = \<lparr>fbase = fbase f, fsize = LARGE_PAGE_SIZE, affinity = affinity f\<rparr>"
    using s(5,7,9) assms(2) by simp
  have b: "frame_bytes low = page_bytes (fbase f, LARGE_PAGE_SIZE)"
    by (simp add: low frame_bytes_def page_bytes_def)
  have "high = Frame_empty \<or> fbase high = fbase f + LARGE_PAGE_SIZE"
  proof (cases "LARGE_PAGE_SIZE < fsize f")
    case False
    then have "split_at f LARGE_PAGE_SIZE = Ok (f, Frame_empty)" using m by (simp add: split_at_def)
    then show ?thesis using s(1) by simp
  qed (use s(8) in blast)
  then show ?thesis using that [of high] s(1-4,6,10) b low by metis
qed

abbreviation large_pages :: "nat list \<Rightarrow> (nat \<times> nat) list" where
  "large_pages xs \<equiv> map (\<lambda>a. (a, LARGE_PAGE_SIZE)) xs"

abbreviation small_pages :: "nat list \<Rightarrow> (nat \<times> nat) list" where
  "small_pages xs \<equiv> map (\<lambda>a. (a, BASE_PAGE_SIZE)) xs"

text \<open>What the large-page loop adds: pages of the frame, apart from each other and from the rest.\<close>

definition cut_from :: "Frame \<Rightarrow> nat list \<Rightarrow> Frame \<Rightarrow> bool" where
  "cut_from f new rest \<longleftrightarrow> frame_ok rest \<and> fbase rest mod LARGE_PAGE_SIZE = 0
     \<and> (\<forall>a \<in> set new. a mod LARGE_PAGE_SIZE = 0) \<and> apart (large_pages new)
     \<and> pages_bytes (large_pages new) \<subseteq> frame_bytes f \<and> frame_bytes rest \<subseteq> frame_bytes f
     \<and> pages_bytes (large_pages new) \<inter> frame_bytes rest = {}"

lemma cut_from_refl: "frame_ok f \<Longrightarrow> fbase f mod LARGE_PAGE_SIZE = 0 \<Longrightarrow> cut_from f [] f"
  by (simp add: cut_from_def)

lemma cut_from_Cons:
  assumes "cut_from r new rest" and "fbase f mod LARGE_PAGE_SIZE = 0"
    and "page_bytes (fbase f, LARGE_PAGE_SIZE) \<union> frame_bytes r = frame_bytes f"
    and "page_bytes (fbase f, LARGE_PAGE_SIZE) \<inter> frame_bytes r = {}"
  shows "cut_from f (fbase f # new) rest" and "cut_from f new rest"
  using assms unfolding cut_from_def pages_bytes_def by auto

lemma push_large_ok:
  assumes "frame_ok f" and "fbase f mod LARGE_PAGE_SIZE = 0" and "length xs \<le> cap"
  shows "\<exists>new rest. push_large cap xs n f = Ok (xs @ new, rest) \<and> cut_from f new rest
     \<and> length xs + length new \<le> cap
     \<and> (length xs + n \<le> cap \<longrightarrow> pages_bytes (large_pages new) \<union> frame_bytes rest = frame_bytes f)"
  using assms
proof (induction n arbitrary: xs f)
  case 0
  then show ?case using cut_from_refl [of f] by auto
next
  case (Suc n)
  show ?case
  proof (cases "LARGE_PAGE_SIZE \<le> fsize f")
    case False
    then show ?thesis using Suc.prems cut_from_refl [of f] by auto
  next
    case True
    obtain r where r: "split_at f LARGE_PAGE_SIZE
        = Ok (\<lparr>fbase = fbase f, fsize = LARGE_PAGE_SIZE, affinity = affinity f\<rparr>, r)" "frame_ok r"
      "page_bytes (fbase f, LARGE_PAGE_SIZE) \<union> frame_bytes r = frame_bytes f"
      "page_bytes (fbase f, LARGE_PAGE_SIZE) \<inter> frame_bytes r = {}"
      "r = Frame_empty \<or> fbase r = fbase f + LARGE_PAGE_SIZE \<and> affinity r = affinity f"
      by (rule split_large_page [OF Suc.prems(1) True], rule that)
    have m: "fbase r mod LARGE_PAGE_SIZE = 0"
      using r(5) Suc.prems(2) by (auto simp: Frame_empty_def mod_add_self2)
    define xs' where "xs' = (case try_push cap xs (fbase f) of Some ys \<Rightarrow> ys | None \<Rightarrow> xs)"
    have "length xs' \<le> cap" using Suc.prems(3) by (simp add: xs'_def try_push_def)
    from Suc.IH [OF r(2) m this] obtain new rest where IH:
      "push_large cap xs' n r = Ok (xs' @ new, rest)" "cut_from r new rest" "length xs' + length new \<le> cap"
      "length xs' + n \<le> cap \<longrightarrow> pages_bytes (large_pages new) \<union> frame_bytes rest = frame_bytes r"
      by blast
    have eq: "push_large cap xs (Suc n) f = Ok (xs' @ new, rest)"
      using True r(1) IH(1) by (simp add: xs'_def)
    note cut = cut_from_Cons [OF IH(2) Suc.prems(2) r(3,4)]
    show ?thesis
    proof (cases "length xs < cap")
      case room: True
      then have xs': "xs' = xs @ [fbase f]" by (simp add: xs'_def try_push_def)
      show ?thesis
        by (rule exI [of _ "fbase f # new"], rule exI [of _ rest])
          (use eq xs' cut(1) IH(3,4) r(3) in auto)
    next
      case full: False
      then have "xs' = xs" by (simp add: xs'_def try_push_def)
      then show ?thesis using eq cut(2) IH(3) full by auto
    qed
  qed
qed

lemma page_bytes_apart:
  assumes "i \<noteq> j"
  shows "page_bytes (b + i * s, s) \<inter> page_bytes (b + j * s, s) = {}"
proof -
  have *: "b + i * s + s \<le> b + j * s" if "i < j" for i j
  proof -
    have "Suc i * s \<le> j * s" using that by (intro mult_le_mono1) simp
    then show ?thesis by simp
  qed
  from assms consider "i < j" | "j < i" by linarith
  then show ?thesis using * [of i j] * [of j i] by cases (auto simp: page_bytes_def)
qed

lemma apart_steps: "distinct xs \<Longrightarrow> apart (map (\<lambda>i. (b + i * s, s)) xs)"
proof (induction xs)
  case (Cons a xs)
  then have "page_bytes (b + a * s, s) \<inter> page_bytes (b + q * s, s) = {}" if "q \<in> set xs" for q
    using that by (intro page_bytes_apart) auto
  then show ?case using Cons by simp
qed simp

lemma apart_take: "apart ps \<Longrightarrow> apart (take k ps)"
  by (metis append_take_drop_id apart_append)

lemma pages_bytes_take: "pages_bytes (take k ps) \<subseteq> pages_bytes ps"
  unfolding pages_bytes_def using set_take_subset by fast

lemma small_pages_of_frame:
  assumes "frame_ok f"
  defines "as \<equiv> map fbase (page_list f)"
  shows "apart (small_pages as)" "pages_bytes (small_pages as) = frame_bytes f"
    "\<forall>a \<in> set as. a mod BASE_PAGE_SIZE = 0" "length as = base_pages f"
proof -
  have as: "small_pages as = map (\<lambda>i. (fbase f + i * BASE_PAGE_SIZE, BASE_PAGE_SIZE)) [0..<base_pages f]"
    by (simp add: as_def page_list_def comp_def)
  show "apart (small_pages as)" unfolding as by (rule apart_steps) simp
  have "pages_bytes (small_pages as) = (\<Union>p \<in> set (page_list f). frame_bytes p)"
    by (simp add: as_def pages_bytes_def page_list_def page_bytes_def frame_bytes_def)
  then show "pages_bytes (small_pages as) = frame_bytes f" using page_list_cover [OF assms(1)] by simp
  show "\<forall>a \<in> set as. a mod BASE_PAGE_SIZE = 0"
    using page_list_ok(1) [OF assms(1)] by (auto simp: as_def frame_ok_def)
  show "length as = base_pages f" by (simp add: as_def page_list_def)
qed

text \<open>Pushing base pages of a frame onto a stack.\<close>

lemma push_base_frame:
  assumes "frame_ok f" and "length xs \<le> cap"
  obtains new where "push_base cap xs (page_list f) = xs @ new" "length xs + length new \<le> cap"
    "apart (small_pages new)" "pages_bytes (small_pages new) \<subseteq> frame_bytes f"
    "\<forall>a \<in> set new. a mod BASE_PAGE_SIZE = 0"
    "length xs + base_pages f \<le> cap \<Longrightarrow> pages_bytes (small_pages new) = frame_bytes f"
    "length new \<le> base_pages f"
proof -
  note sp = small_pages_of_frame [OF assms(1)]
  let ?new = "take (cap - length xs) (map fbase (page_list f))"
  have "\<forall>a \<in> set ?new. a mod BASE_PAGE_SIZE = 0" using sp(3) by (meson in_set_takeD)
  moreover have new: "small_pages ?new = take (cap - length xs) (small_pages (map fbase (page_list f)))"
    by (simp only: take_map)
  moreover have "apart (small_pages ?new)" unfolding new by (rule apart_take [OF sp(1)])
  moreover have "pages_bytes (small_pages ?new) \<subseteq> frame_bytes f"
    unfolding new sp(2) [symmetric] by (rule pages_bytes_take)
  moreover have "pages_bytes (small_pages ?new) = frame_bytes f" if "length xs + base_pages f \<le> cap"
  proof -
    have "?new = map fbase (page_list f)" using sp(4) that by (intro take_all) linarith
    then show ?thesis using sp(2) by simp
  qed
  moreover have "length xs + length ?new \<le> cap" "length ?new \<le> base_pages f"
    using sp(4) assms(2) by simp_all
  moreover have "push_base cap xs (page_list f) = xs @ ?new" by (rule push_base_eq)
  ultimately show ?thesis using that by blast
qed

lemma populate_ok:
  assumes inv: "mcache_inv c" and f: "frame_ok f"
    and disj: "pages_bytes (cache_pages c) \<inter> frame_bytes f = {}"
  obtains c' where "populate c f n = Ok c'" "mcache_inv c'" "node c' = node c" "bp_cap c' = bp_cap c"
    "lp_cap c' = lp_cap c" "pages_bytes (cache_pages c) \<subseteq> pages_bytes (cache_pages c')"
    "pages_bytes (cache_pages c') \<subseteq> pages_bytes (cache_pages c) \<union> frame_bytes f"
    "base_pages f \<le> spare_base_page_capacity c \<Longrightarrow> max n 1 \<le> spare_large_page_capacity c \<Longrightarrow>
       pages_bytes (cache_pages c') = pages_bytes (cache_pages c) \<union> frame_bytes f"
proof -
  let ?n = "if n = 0 then 1 else n"
  let ?B = "base_page_addresses c" and ?L = "large_page_addresses c"
  have c: "length ?B \<le> bp_cap c" "length ?L \<le> lp_cap c" "apart (small_pages ?B)" "apart (large_pages ?L)"
    "\<forall>a \<in> set ?B. a mod BASE_PAGE_SIZE = 0" "\<forall>a \<in> set ?L. a mod LARGE_PAGE_SIZE = 0"
    "pages_bytes (small_pages ?B) \<inter> pages_bytes (large_pages ?L) = {}"
    using inv unfolding mcache_inv_def cache_pages_def apart_append by blast+
  obtain low high where s: "split_at_nearest_large_page_boundary f = Ok (low, high)"
    "frame_ok low" "frame_ok high" "frame_bytes low \<union> frame_bytes high = frame_bytes f"
    "frame_bytes low \<inter> frame_bytes high = {}" "fsize low + fsize high = fsize f"
    "fbase high mod LARGE_PAGE_SIZE = 0"
    by (rule split_boundary_ok [OF f], rule that)
  obtain n1 where n1: "push_base (bp_cap c) ?B (page_list low) = ?B @ n1" "length ?B + length n1 \<le> bp_cap c"
    "apart (small_pages n1)" "pages_bytes (small_pages n1) \<subseteq> frame_bytes low"
    "\<forall>a \<in> set n1. a mod BASE_PAGE_SIZE = 0"
    "length ?B + base_pages low \<le> bp_cap c \<Longrightarrow> pages_bytes (small_pages n1) = frame_bytes low"
    "length n1 \<le> base_pages low"
    by (rule push_base_frame [OF s(2) c(1)], rule that)
  obtain n2 rest where n2: "push_large (lp_cap c) ?L ?n high = Ok (?L @ n2, rest)" "cut_from high n2 rest"
    "length ?L + length n2 \<le> lp_cap c"
    "length ?L + ?n \<le> lp_cap c \<longrightarrow> pages_bytes (large_pages n2) \<union> frame_bytes rest = frame_bytes high"
    using push_large_ok [OF s(3,7) c(2), of ?n] by blast
  have rest: "frame_ok rest" "frame_bytes rest \<subseteq> frame_bytes high" "apart (large_pages n2)"
    "pages_bytes (large_pages n2) \<subseteq> frame_bytes high" "\<forall>a \<in> set n2. a mod LARGE_PAGE_SIZE = 0"
    "pages_bytes (large_pages n2) \<inter> frame_bytes rest = {}"
    using n2(2) by (simp_all add: cut_from_def)
  have l1: "length (?B @ n1) \<le> bp_cap c" using n1(2) by simp
  obtain n3 where n3: "push_base (bp_cap c) (?B @ n1) (page_list rest) = (?B @ n1) @ n3"
    "length (?B @ n1) + length n3 \<le> bp_cap c" "apart (small_pages n3)"
    "pages_bytes (small_pages n3) \<subseteq> frame_bytes rest" "\<forall>a \<in> set n3. a mod BASE_PAGE_SIZE = 0"
    "length (?B @ n1) + base_pages rest \<le> bp_cap c \<Longrightarrow> pages_bytes (small_pages n3) = frame_bytes rest"
    by (rule push_base_frame [OF rest(1) l1], rule that)
  define c' where "c' = c\<lparr>base_page_addresses := (?B @ n1) @ n3, large_page_addresses := ?L @ n2\<rparr>"
  have eq: "populate c f n = Ok c'"
    using n1(1) n2(1) n3(1)
    by (simp add: populate_def s(1) frame_pages_eq [OF s(2)] frame_pages_eq [OF rest(1)] c'_def Let_def)
  have d: "pages_bytes (small_pages ?B) \<inter> frame_bytes f = {}" "pages_bytes (large_pages ?L) \<inter> frame_bytes f = {}"
    using disj by (auto simp: cache_pages_def)
  have "apart (small_pages ((?B @ n1) @ n3) @ large_pages (?L @ n2))"
    unfolding map_append apart_append pages_bytes_simps
    by (intro conjI) (use c(3,4,7) n1(3,4) n3(3,4) rest(2,3,4,6) s(4,5) d in blast)+
  then have inv': "mcache_inv c'"
    using c(5,6) n1(5) n3(2,5) n2(3) rest(5)
    by (auto simp: mcache_inv_def cache_pages_def c'_def)
  have sub: "pages_bytes (cache_pages c) \<subseteq> pages_bytes (cache_pages c')"
    "pages_bytes (cache_pages c') \<subseteq> pages_bytes (cache_pages c) \<union> frame_bytes f"
    using n1(4) n3(4) rest(2,4) s(4) by (auto simp: cache_pages_def c'_def)
  have full: "pages_bytes (cache_pages c') = pages_bytes (cache_pages c) \<union> frame_bytes f"
    if "base_pages f \<le> spare_base_page_capacity c" "max n 1 \<le> spare_large_page_capacity c"
  proof -
    have "fsize rest \<le> fsize high"
      using rest(2) by (auto simp: frame_bytes_def ivl_subset)
    then have "base_pages low + base_pages rest \<le> base_pages f"
      using s(6) by (simp add: base_pages_def)
    then have "length ?B + base_pages low \<le> bp_cap c" "length (?B @ n1) + base_pages rest \<le> bp_cap c"
      "length ?L + ?n \<le> lp_cap c"
      using that n1(7) c(1,2) by (auto simp: spare_base_page_capacity_def spare_large_page_capacity_def)
    then show ?thesis using n1(6) n3(6) n2(4) s(4) by (auto simp: cache_pages_def c'_def)
  qed
  show ?thesis by (rule that [OF eq inv' _ _ _ sub full]) (simp_all add: c'_def)
qed

section \<open>The contract of a page provider\<close>

text \<open>
  \<open>PhysicalPageProvider\<close> promises to hand out pages of one size from a stock and to take them
  back.  Both halves of a cache keep it: base pages and large pages.
\<close>

locale page_provider =
  fixes inv :: "'c \<Rightarrow> bool"
    and stock :: "'c \<Rightarrow> nat list"
    and page_size :: nat
    and cap :: "'c \<Rightarrow> nat"
    and home :: "'c \<Rightarrow> nat"
    and alloc :: "'c \<Rightarrow> 'c \<times> Frame kres"
    and release :: "'c \<Rightarrow> Frame \<Rightarrow> 'c \<times> unit kres"
  assumes size_pos: "0 < page_size"
    and stock_apart: "inv c \<Longrightarrow> apart (map (\<lambda>a. (a, page_size)) (stock c))"
    and stock_aligned: "\<lbrakk>inv c; a \<in> set (stock c)\<rbrakk> \<Longrightarrow> a mod page_size = 0"
    and alloc_some: "\<lbrakk>inv c; stock c = as @ [a]\<rbrakk> \<Longrightarrow> \<exists>c'. alloc c =
        (c', Ok \<lparr>fbase = a, fsize = page_size, affinity = home c\<rparr>)
        \<and> inv c' \<and> stock c' = as \<and> home c' = home c \<and> cap c' = cap c"
    and alloc_none: "\<lbrakk>inv c; stock c = []\<rbrakk> \<Longrightarrow> alloc c = (c, Err CacheExhausted)"
    and release_room: "\<lbrakk>inv c; length (stock c) < cap c; fsize f = page_size; fbase f mod page_size = 0;
        affinity f = home c\<rbrakk> \<Longrightarrow> \<exists>c'. release c f = (c', Ok ()) \<and> stock c' = stock c @ [fbase f]"
    and release_full: "\<lbrakk>inv c; cap c \<le> length (stock c); fsize f = page_size; fbase f mod page_size = 0;
        affinity f = home c\<rbrakk> \<Longrightarrow> release c f = (c, Err CacheFull)"
    and stock_fits: "inv c \<Longrightarrow> length (stock c) \<le> cap c"
begin

lemma alloc_release:
  assumes "inv c" and "alloc c = (c', Ok f)"
  shows "\<exists>c''. release c' f = (c'', Ok ()) \<and> stock c'' = stock c"
proof -
  obtain as a where s: "stock c = as @ [a]"
    using assms alloc_none [of c] by (cases "stock c" rule: rev_cases) auto
  obtain c1 where c1: "alloc c = (c1, Ok \<lparr>fbase = a, fsize = page_size, affinity = home c\<rparr>)"
    "inv c1" "stock c1 = as" "home c1 = home c" "cap c1 = cap c"
    using alloc_some [OF assms(1) s] by blast
  then have eq: "c' = c1" "f = \<lparr>fbase = a, fsize = page_size, affinity = home c\<rparr>"
    using assms(2) by simp_all
  have "a mod page_size = 0" using stock_aligned [OF assms(1)] s by simp
  moreover have "length (stock c1) < cap c1" using stock_fits [OF assms(1)] s c1 by simp
  ultimately show ?thesis using release_room [OF c1(2), of f] c1 eq s by simp
qed

lemma alloc_twice_apart:
  assumes "inv c" and "alloc c = (c1, Ok f)" and "alloc c1 = (c2, Ok g)"
  shows "frame_bytes f \<inter> frame_bytes g = {}"
proof -
  obtain as a where s: "stock c = as @ [a]"
    using assms alloc_none [of c] by (cases "stock c" rule: rev_cases) auto
  have 1: "f = \<lparr>fbase = a, fsize = page_size, affinity = home c\<rparr>" "inv c1" "stock c1 = as"
    using alloc_some [OF assms(1) s] assms(2) by auto
  obtain bs b where s1: "as = bs @ [b]"
    using assms(3) alloc_none [OF 1(2)] 1(3) by (cases as rule: rev_cases) auto
  have 2: "g = \<lparr>fbase = b, fsize = page_size, affinity = home c1\<rparr>"
    using alloc_some [OF 1(2), of bs b] 1(3) s1 assms(3) by auto
  have "page_bytes (b, page_size) \<inter> page_bytes (a, page_size) = {}"
    using stock_apart [OF assms(1)] s s1 by (simp add: apart_append)
  then show ?thesis using 1(1) 2 by (auto simp: frame_bytes_def page_bytes_def)
qed

end

lemma apart_cache_split:
  "mcache_inv c \<Longrightarrow> apart (small_pages (base_page_addresses c)) \<and> apart (large_pages (large_page_addresses c))"
  by (simp add: mcache_inv_def cache_pages_def apart_append)

lemma mcache_inv_shrink:
  assumes "mcache_inv c" and "base_page_addresses c = B @ xs" and "large_page_addresses c = L @ ys"
  shows "mcache_inv (c\<lparr>base_page_addresses := B, large_page_addresses := L\<rparr>)"
  using assms unfolding mcache_inv_def cache_pages_def by (auto simp: apart_append)

lemma large_aligned_base: "(a::nat) mod LARGE_PAGE_SIZE = 0 \<Longrightarrow> a mod BASE_PAGE_SIZE = 0"
proof -
  assume "a mod LARGE_PAGE_SIZE = 0"
  then have "LARGE_PAGE_SIZE dvd a" by (rule mod_0_imp_dvd)
  moreover have "BASE_PAGE_SIZE dvd LARGE_PAGE_SIZE" by simp
  ultimately show "a mod BASE_PAGE_SIZE = 0" by (meson dvd_trans dvd_imp_mod_0)
qed

lemma allocate_base_page_some:
  assumes "mcache_inv c" and "base_page_addresses c = as @ [a]"
  shows "allocate_base_page c = (c\<lparr>base_page_addresses := as\<rparr>,
      Ok \<lparr>fbase = a, fsize = BASE_PAGE_SIZE, affinity = node c\<rparr>)"
    and "mcache_inv (c\<lparr>base_page_addresses := as\<rparr>)"
proof -
  have "a mod BASE_PAGE_SIZE = 0" using assms by (simp add: mcache_inv_def)
  then show "allocate_base_page c = (c\<lparr>base_page_addresses := as\<rparr>,
      Ok \<lparr>fbase = a, fsize = BASE_PAGE_SIZE, affinity = node c\<rparr>)"
    using assms(2) by (simp add: allocate_base_page_def paddr_to_base_page_def)
  show "mcache_inv (c\<lparr>base_page_addresses := as\<rparr>)"
    using mcache_inv_shrink [OF assms, of "large_page_addresses c" "[]"] by simp
qed

lemma allocate_large_page_some:
  assumes "mcache_inv c" and "large_page_addresses c = as @ [a]"
  shows "allocate_large_page c = (c\<lparr>large_page_addresses := as\<rparr>,
      Ok \<lparr>fbase = a, fsize = LARGE_PAGE_SIZE, affinity = node c\<rparr>)"
    and "mcache_inv (c\<lparr>large_page_addresses := as\<rparr>)"
proof -
  have "a mod LARGE_PAGE_SIZE = 0" using assms unfolding mcache_inv_def by simp
  then have "a mod BASE_PAGE_SIZE = 0" by (rule large_aligned_base)
  then show "allocate_large_page c = (c\<lparr>large_page_addresses := as\<rparr>,
      Ok \<lparr>fbase = a, fsize = LARGE_PAGE_SIZE, affinity = node c\<rparr>)"
    using assms(2) by (simp add: allocate_large_page_def paddr_to_large_page_def)
  show "mcache_inv (c\<lparr>large_page_addresses := as\<rparr>)"
    using mcache_inv_shrink [OF assms(1) _ assms(2), of "base_page_addresses c" "[]"] by simp
qed

interpretation small: page_provider mcache_inv base_page_addresses BASE_PAGE_SIZE bp_cap node
  allocate_base_page release_base_page
proof unfold_locales
  show "\<exists>c'. allocate_base_page c = (c', Ok \<lparr>fbase = a, fsize = BASE_PAGE_SIZE, affinity = node c\<rparr>)
      \<and> mcache_inv c' \<and> base_page_addresses c' = as \<and> node c' = node c \<and> bp_cap c' = bp_cap c"
    if "mcache_inv c" "base_page_addresses c = as @ [a]" for c as a
    using allocate_base_page_some [OF that] by simp
qed (simp_all add: apart_cache_split allocate_base_page_def release_base_page_def try_push_def,
  simp_all add: mcache_inv_def)

interpretation large: page_provider mcache_inv large_page_addresses LARGE_PAGE_SIZE lp_cap node
  allocate_large_page release_large_page
proof unfold_locales
  show "\<exists>c'. allocate_large_page c = (c', Ok \<lparr>fbase = a, fsize = LARGE_PAGE_SIZE, affinity = node c\<rparr>)
      \<and> mcache_inv c' \<and> large_page_addresses c' = as \<and> node c' = node c \<and> lp_cap c' = lp_cap c"
    if "mcache_inv c" "large_page_addresses c = as @ [a]" for c as a
    using allocate_large_page_some [OF that] by simp
  show "a mod LARGE_PAGE_SIZE = 0" if "mcache_inv c" "a \<in> set (large_page_addresses c)" for c a
    using that unfolding mcache_inv_def by blast
qed (simp_all only: apart_cache_split allocate_large_page_def release_large_page_def try_push_def,
  simp_all add: mcache_inv_def)

section \<open>Moving pages between caches\<close>

abbreviation base_frame :: "MCache \<Rightarrow> nat \<Rightarrow> Frame" where
  "base_frame c a \<equiv> \<lparr>fbase = a, fsize = BASE_PAGE_SIZE, affinity = node c\<rparr>"

abbreviation large_frame :: "MCache \<Rightarrow> nat \<Rightarrow> Frame" where
  "large_frame c a \<equiv> \<lparr>fbase = a, fsize = LARGE_PAGE_SIZE, affinity = node c\<rparr>"

lemma reap_base_pages_eq:
  assumes "mcache_inv c"
  shows "\<exists>keep taken. base_page_addresses c = keep @ rev taken
     \<and> length taken = min (length slots) (length (base_page_addresses c))
     \<and> reap_base_pages c slots = (c\<lparr>base_page_addresses := keep\<rparr>,
          Ok (map (\<lambda>a. Some (base_frame c a)) taken @ drop (length taken) slots))
     \<and> mcache_inv (c\<lparr>base_page_addresses := keep\<rparr>)"
  using assms
proof (induction slots arbitrary: c)
  case Nil
  then show ?case by (intro exI [of _ "base_page_addresses c"] exI [of _ "[]"]) simp
next
  case (Cons x xs)
  show ?case
  proof (cases "base_page_addresses c" rule: rev_cases)
    case Nil
    then have "allocate_base_page c = (c, Err CacheExhausted)" by (simp add: allocate_base_page_def)
    moreover have "mcache_inv (c\<lparr>base_page_addresses := []\<rparr>)"
      using mcache_inv_shrink [OF Cons.prems, of "[]" "[]" "large_page_addresses c" "[]"] Nil by simp
    ultimately show ?thesis using Nil Cons.prems by (intro exI [of _ "[]"]) simp
  next
    case (snoc as a)
    let ?c = "c\<lparr>base_page_addresses := as\<rparr>"
    note al = allocate_base_page_some [OF Cons.prems snoc]
    from Cons.IH [OF al(2)] obtain keep taken where IH: "base_page_addresses ?c = keep @ rev taken"
      "length taken = min (length xs) (length (base_page_addresses ?c))"
      "reap_base_pages ?c xs = (?c\<lparr>base_page_addresses := keep\<rparr>,
          Ok (map (\<lambda>a. Some (base_frame ?c a)) taken @ drop (length taken) xs))"
      "mcache_inv (?c\<lparr>base_page_addresses := keep\<rparr>)" by blast
    have "reap_base_pages c (x # xs) = (c\<lparr>base_page_addresses := keep\<rparr>,
          Ok (map (\<lambda>a. Some (base_frame c a)) (a # taken) @ drop (length (a # taken)) (x # xs)))"
      using al(1) IH(3) by simp
    moreover have "length (a # taken) = min (length (x # xs)) (length (base_page_addresses c))"
      using IH(2) snoc by simp
    moreover have "base_page_addresses c = keep @ rev (a # taken)" using IH(1) snoc by simp
    moreover have "mcache_inv (c\<lparr>base_page_addresses := keep\<rparr>)" using IH(4) by simp
    ultimately show ?thesis by blast
  qed
qed

lemma grow_base_pages_eq:
  assumes "length (base_page_addresses c) + length as \<le> bp_cap c"
    and "\<forall>a \<in> set as. a mod BASE_PAGE_SIZE = 0"
  shows "grow_base_pages c (map (base_frame c) as)
           = (c\<lparr>base_page_addresses := base_page_addresses c @ as\<rparr>, Ok ())"
  using assms
proof (induction as arbitrary: c)
  case (Cons a as)
  let ?c = "c\<lparr>base_page_addresses := base_page_addresses c @ [a]\<rparr>"
  have "release_base_page c (base_frame c a) = (?c, Ok ())"
    using Cons.prems by (simp add: release_base_page_def try_push_def)
  moreover have "grow_base_pages ?c (map (base_frame ?c) as)
      = (?c\<lparr>base_page_addresses := base_page_addresses ?c @ as\<rparr>, Ok ())"
    using Cons.prems by (intro Cons.IH) auto
  ultimately show ?case by simp
qed simp

lemma mcache_inv_grow:
  assumes "mcache_inv c" and "length (base_page_addresses c) + length as \<le> bp_cap c"
    and "\<forall>a \<in> set as. a mod BASE_PAGE_SIZE = 0" and "apart (small_pages as)"
    and "pages_bytes (cache_pages c) \<inter> pages_bytes (small_pages as) = {}"
  shows "mcache_inv (c\<lparr>base_page_addresses := base_page_addresses c @ as\<rparr>)"
proof -
  have "apart (small_pages (base_page_addresses c @ as) @ large_pages (large_page_addresses c))"
    using assms(1,4,5) unfolding map_append apart_append mcache_inv_def cache_pages_def by auto
  then show ?thesis using assms by (auto simp: mcache_inv_def cache_pages_def)
qed

section \<open>Properties\<close>

text \<open>
  C35. Populating a cache from a fresh frame keeps it well formed: every page it then holds is
  aligned to its size, comes from the old cache or the frame, and overlaps no other page.  When
  the stacks have room, no byte of the frame is lost.
\<close>
theorem populate_safe:
  assumes "mcache_inv c" and "frame_ok f" and "pages_bytes (cache_pages c) \<inter> frame_bytes f = {}"
  shows "\<exists>c'. populate c f n = Ok c' \<and> mcache_inv c'
     \<and> pages_bytes (cache_pages c) \<subseteq> pages_bytes (cache_pages c')
     \<and> pages_bytes (cache_pages c') \<subseteq> pages_bytes (cache_pages c) \<union> frame_bytes f
     \<and> (base_pages f \<le> spare_base_page_capacity c \<and> max n 1 \<le> spare_large_page_capacity c \<longrightarrow>
          pages_bytes (cache_pages c') = pages_bytes (cache_pages c) \<union> frame_bytes f)"
  by (rule populate_ok [OF assms]) blast

theorem populate_safe_witness:
  "\<exists>c'. populate (TCache_new 0) \<lparr>fbase = 4096, fsize = 8192, affinity = 0\<rparr> 1 = Ok c' \<and> mcache_inv c'
     \<and> pages_bytes (cache_pages c') = {4096..<12288}"
proof -
  let ?f = "\<lparr>fbase = 4096, fsize = 8192, affinity = 0\<rparr>"
  have "mcache_inv (TCache_new 0)" "frame_ok ?f" "cache_pages (TCache_new 0) = []"
    by (simp_all add: MCache_new_def mcache_inv_def cache_pages_def frame_ok_def)
  moreover have "base_pages ?f \<le> spare_base_page_capacity (TCache_new 0)"
    "max 1 1 \<le> spare_large_page_capacity (TCache_new 0)" "frame_bytes ?f = {4096..<12288}"
    by (simp_all add: MCache_new_def base_pages_def spare_base_page_capacity_def
        spare_large_page_capacity_def frame_bytes_def)
  ultimately show ?thesis using populate_safe [of "TCache_new 0" ?f 1] by auto
qed

lemma allocate_base_page_takes:
  assumes "mcache_inv c" and "allocate_base_page c = (c1, Ok f)"
  shows "mcache_inv c1" and "frame_bytes f \<subseteq> pages_bytes (cache_pages c)"
    and "frame_bytes f \<inter> pages_bytes (cache_pages c1) = {}"
    and "pages_bytes (cache_pages c1) \<subseteq> pages_bytes (cache_pages c)"
proof -
  obtain as x where s: "base_page_addresses c = as @ [x]"
    using assms(2) by (cases "base_page_addresses c" rule: rev_cases) (auto simp: allocate_base_page_def)
  note 1 = allocate_base_page_some [OF assms(1) s]
  have c1: "c1 = c\<lparr>base_page_addresses := as\<rparr>" and "f = base_frame c x" using 1(1) assms(2) by simp_all
  then have f: "frame_bytes f = page_bytes (x, BASE_PAGE_SIZE)" by (simp add: frame_bytes_def page_bytes_def)
  show "mcache_inv c1" using 1(2) c1 by simp
  show "frame_bytes f \<subseteq> pages_bytes (cache_pages c)"
    unfolding f by (auto simp: cache_pages_def s pages_bytes_def)
  have "page_bytes (x, BASE_PAGE_SIZE) \<inter> (pages_bytes (small_pages as)
      \<union> pages_bytes (large_pages (large_page_addresses c))) = {}"
    using assms(1) unfolding mcache_inv_def cache_pages_def s apart_append map_append by auto
  then show "frame_bytes f \<inter> pages_bytes (cache_pages c1) = {}"
    unfolding f c1 by (simp add: cache_pages_def Un_commute)
  show "pages_bytes (cache_pages c1) \<subseteq> pages_bytes (cache_pages c)"
    unfolding c1 by (auto simp: cache_pages_def s pages_bytes_def)
qed

lemma allocate_large_page_takes:
  assumes "mcache_inv c" and "allocate_large_page c = (c1, Ok f)"
  shows "mcache_inv c1" and "frame_bytes f \<subseteq> pages_bytes (cache_pages c)"
    and "frame_bytes f \<inter> pages_bytes (cache_pages c1) = {}"
    and "pages_bytes (cache_pages c1) \<subseteq> pages_bytes (cache_pages c)"
proof -
  obtain as x where s: "large_page_addresses c = as @ [x]"
    using assms(2) by (cases "large_page_addresses c" rule: rev_cases) (auto simp: allocate_large_page_def)
  note 1 = allocate_large_page_some [OF assms(1) s]
  have c1: "c1 = c\<lparr>large_page_addresses := as\<rparr>" and "f = large_frame c x" using 1(1) assms(2) by simp_all
  then have f: "frame_bytes f = page_bytes (x, LARGE_PAGE_SIZE)" by (simp add: frame_bytes_def page_bytes_def)
  show "mcache_inv c1" using 1(2) c1 by simp
  show "frame_bytes f \<subseteq> pages_bytes (cache_pages c)"
    unfolding f by (auto simp: cache_pages_def s pages_bytes_def)
  have "page_bytes (x, LARGE_PAGE_SIZE) \<inter> (pages_bytes (large_pages as)
      \<union> pages_bytes (small_pages (base_page_addresses c))) = {}"
    using assms(1) unfolding mcache_inv_def cache_pages_def s apart_append map_append by auto
  then show "frame_bytes f \<inter> pages_bytes (cache_pages c1) = {}"
    unfolding f c1 by (simp add: cache_pages_def Un_commute)
  show "pages_bytes (cache_pages c1) \<subseteq> pages_bytes (cache_pages c)"
    unfolding c1 by (auto simp: cache_pages_def s pages_bytes_def)
qed

text \<open>
  Two pages allocated from a cache one after the other never overlap, whatever the sizes asked
  for, and both come out of the memory the cache held.
\<close>
lemma allocations_do_not_overlap:
  assumes "mcache_inv c" and "first \<in> {allocate_base_page, allocate_large_page}"
    and "second \<in> {allocate_base_page, allocate_large_page}"
    and "first c = (c1, Ok f)" and "second c1 = (c2, Ok g)"
  shows "frame_bytes f \<inter> frame_bytes g = {}
     \<and> frame_bytes f \<union> frame_bytes g \<subseteq> pages_bytes (cache_pages c) \<and> mcache_inv c2"
proof -
  note takes = allocate_base_page_takes allocate_large_page_takes
  have 1: "mcache_inv c1 \<and> frame_bytes f \<subseteq> pages_bytes (cache_pages c)
      \<and> frame_bytes f \<inter> pages_bytes (cache_pages c1) = {}
      \<and> pages_bytes (cache_pages c1) \<subseteq> pages_bytes (cache_pages c)"
    using takes [OF assms(1), of c1 f] assms(2,4) by blast
  then have "mcache_inv c2 \<and> frame_bytes g \<subseteq> pages_bytes (cache_pages c1)"
    using takes [of c1 c2 g] assms(3,5) by blast
  then show ?thesis using 1 by blast
qed

text \<open>
  Releasing a page right after allocating it restores the stock of the cache, for base and for
  large pages: the page is accepted because the slot it came from is free again.
\<close>
lemma release_undoes_allocate:
  assumes "mcache_inv c"
  shows "(\<forall>c1 f. allocate_base_page c = (c1, Ok f) \<longrightarrow> (\<exists>c2. release_base_page c1 f = (c2, Ok ())
           \<and> base_page_addresses c2 = base_page_addresses c))
     \<and> (\<forall>c1 f. allocate_large_page c = (c1, Ok f) \<longrightarrow> (\<exists>c2. release_large_page c1 f = (c2, Ok ())
           \<and> large_page_addresses c2 = large_page_addresses c))"
  using small.alloc_release [OF assms] large.alloc_release [OF assms] by blast

end
