(* ===== verification/KernelMem.thy ===== *)
theory KernelMem
  imports MCache Kpi "HOL-Library.Multiset"
begin

text \<open>
  The memory of a core (\<open>kcb.rs\<close>) and how the kernel allocator (\<open>memory/mod.rs\<close>) moves pages
  between the caches: every core has a \<open>TCache\<close> in its current arena, every NUMA node an
  \<open>NCache\<close> behind a lock in the global memory.  A function here runs with the locks it takes
  held, so it is one step on the state.
\<close>

section \<open>The memory state of a core\<close>

abbreviation MAX_NUMA_NODES :: nat where "MAX_NUMA_NODES \<equiv> 12"

record PhysicalMemoryArena =
  arena_affinity :: nat
  gmanager :: bool
  pmanager :: "MCache option"

definition Arena_new :: "nat \<Rightarrow> PhysicalMemoryArena" where
  "Arena_new n = \<lparr>arena_affinity = n, gmanager = True, pmanager = Some (TCache_new n)\<rparr>"

definition Arena_uninit_with_node :: "nat \<Rightarrow> PhysicalMemoryArena" where
  "Arena_uninit_with_node n = \<lparr>arena_affinity = n, gmanager = False, pmanager = None\<rparr>"

record Kcb =
  in_panic_mode :: bool
  emanager :: MCache
  physical_memory :: PhysicalMemoryArena
  pmem_memory :: PhysicalMemoryArena
  memory_arenas :: "PhysicalMemoryArena option list"
  pmem_arenas :: "PhysicalMemoryArena option list"

definition Kcb_new :: "MCache \<Rightarrow> nat \<Rightarrow> Kcb" where
  "Kcb_new early n = \<lparr>in_panic_mode = False, emanager = early,
     physical_memory = Arena_uninit_with_node n, pmem_memory = Arena_uninit_with_node n,
     memory_arenas = replicate MAX_NUMA_NODES None, pmem_arenas = replicate MAX_NUMA_NODES None\<rparr>"

definition set_panic_mode :: "Kcb \<Rightarrow> Kcb" where
  "set_panic_mode k = k\<lparr>in_panic_mode := True\<rparr>"

definition set_global_mem :: "Kcb \<Rightarrow> Kcb" where
  "set_global_mem k = k\<lparr>physical_memory := (physical_memory k)\<lparr>gmanager := True\<rparr>\<rparr>"

definition set_global_pmem :: "Kcb \<Rightarrow> Kcb" where
  "set_global_pmem k = k\<lparr>pmem_memory := (pmem_memory k)\<lparr>gmanager := True\<rparr>\<rparr>"

definition set_mem_manager :: "Kcb \<Rightarrow> MCache \<Rightarrow> Kcb" where
  "set_mem_manager k c = k\<lparr>physical_memory := (physical_memory k)\<lparr>pmanager := Some c\<rparr>\<rparr>"

definition set_pmem_manager :: "Kcb \<Rightarrow> MCache \<Rightarrow> Kcb" where
  "set_pmem_manager k c = k\<lparr>pmem_memory := (pmem_memory k)\<lparr>pmanager := Some c\<rparr>\<rparr>"

text \<open>
  \<open>mem_manager\<close> and \<open>pmem_manager\<close> return a reference to a cache; here the cache they refer to, and
  the state after that cache was changed through the reference.
\<close>

definition mem_manager :: "Kcb \<Rightarrow> MCache" where
  "mem_manager k = (if in_panic_mode k then emanager k
     else case pmanager (physical_memory k) of None \<Rightarrow> emanager k | Some c \<Rightarrow> c)"

definition put_mem_manager :: "Kcb \<Rightarrow> MCache \<Rightarrow> Kcb" where
  "put_mem_manager k c = (if in_panic_mode k then k\<lparr>emanager := c\<rparr>
     else case pmanager (physical_memory k) of None \<Rightarrow> k\<lparr>emanager := c\<rparr>
       | Some _ \<Rightarrow> k\<lparr>physical_memory := (physical_memory k)\<lparr>pmanager := Some c\<rparr>\<rparr>)"

definition pmem_manager :: "Kcb \<Rightarrow> MCache" where
  "pmem_manager k = (case pmanager (pmem_memory k) of None \<Rightarrow> emanager k | Some c \<Rightarrow> c)"

definition put_pmem_manager :: "Kcb \<Rightarrow> MCache \<Rightarrow> Kcb" where
  "put_pmem_manager k c = (case pmanager (pmem_memory k) of None \<Rightarrow> k\<lparr>emanager := c\<rparr>
     | Some _ \<Rightarrow> k\<lparr>pmem_memory := (pmem_memory k)\<lparr>pmanager := Some c\<rparr>\<rparr>)"

text \<open>Changing the NUMA node that a core allocates from; \<open>nodes\<close> is the number of nodes of the machine.\<close>

definition swap_manager ::
  "nat \<Rightarrow> PhysicalMemoryArena \<Rightarrow> PhysicalMemoryArena option list \<Rightarrow> nat
    \<Rightarrow> (PhysicalMemoryArena \<times> PhysicalMemoryArena option list) \<times> unit kres" where
  "swap_manager nodes current arenas n =
     (if n < length arenas \<and> n < nodes then
        let arena = (case arenas ! n of None \<Rightarrow> Arena_new n | Some a \<Rightarrow> a) in
        if arena_affinity arena \<noteq> n \<or> \<not> arena_affinity current < length arenas then ((current, arenas), Panic)
        else ((arena, (arenas[n := None])[arena_affinity current := Some current]), Ok ())
      else ((current, arenas), Err InvalidAffinityId))"

definition set_mem_affinity :: "nat \<Rightarrow> Kcb \<Rightarrow> nat \<Rightarrow> Kcb \<times> unit kres" where
  "set_mem_affinity nodes k n =
     (if n = arena_affinity (physical_memory k) then (k, Ok ())
      else if \<not> gmanager (physical_memory k) then (k, Err GlobalMemoryNotSet)
      else case swap_manager nodes (physical_memory k) (memory_arenas k) n of
        ((current, arenas), r) \<Rightarrow> (k\<lparr>physical_memory := current, memory_arenas := arenas\<rparr>, r))"

definition set_pmem_affinity :: "nat \<Rightarrow> Kcb \<Rightarrow> nat \<Rightarrow> Kcb \<times> unit kres" where
  "set_pmem_affinity nodes k n =
     (if n = arena_affinity (pmem_memory k) then (k, Ok ())
      else if \<not> gmanager (pmem_memory k) then (k, Err GlobalMemoryNotSet)
      else case swap_manager nodes (pmem_memory k) (pmem_arenas k) n of
        ((current, arenas), r) \<Rightarrow> (k\<lparr>pmem_memory := current, pmem_arenas := arenas\<rparr>, r))"

section \<open>The allocation strategy\<close>

text \<open>\<open>core::alloc::Layout\<close>.\<close>

record Layout =
  l_size :: nat
  l_align :: nat

text \<open>
  Which allocator serves a request, and how many pages a refill asks for.  \<open>max_alloc\<close> and
  \<open>max_base_alloc\<close> are the size limits that the slab allocator's crate declares.
\<close>

datatype AllocatorType = Zone | MemManager | MapBig

definition allocator_for :: "nat \<Rightarrow> nat \<Rightarrow> AllocatorType" where
  "allocator_for max_alloc sz =
     (if sz \<le> max_alloc then Zone else if sz \<le> LARGE_PAGE_SIZE then MemManager else MapBig)"

definition layout_to_pages :: "nat \<Rightarrow> nat \<times> nat" where
  "layout_to_pages sz = size_to_pages sz"

definition refill_amount :: "nat \<Rightarrow> nat \<Rightarrow> nat \<Rightarrow> nat \<times> nat" where
  "refill_amount max_alloc max_base_alloc sz = (case allocator_for max_alloc sz of
       Zone \<Rightarrow> if sz \<le> max_base_alloc then (1, 0) else (0, 1)
     | MemManager \<Rightarrow> if sz \<le> BASE_PAGE_SIZE then (1, 0) else (0, 1)
     | MapBig \<Rightarrow> layout_to_pages sz)"

definition free_base_pages :: "MCache \<Rightarrow> nat" where
  "free_base_pages c = length (base_page_addresses c)"

definition free_large_pages :: "MCache \<Rightarrow> nat" where
  "free_large_pages c = length (large_page_addresses c)"

text \<open>The two loops of a refill: pages go from the node cache to the core cache one at a time.\<close>

fun move_base_pages :: "nat \<Rightarrow> MCache \<times> MCache \<Rightarrow> (MCache \<times> MCache) \<times> unit kres" where
  "move_base_pages 0 s = (s, Ok ())"
| "move_base_pages (Suc n) (ncache, tcache) = (case allocate_base_page ncache of
       (ncache', Ok f) \<Rightarrow> (case grow_base_pages tcache [f] of
           (tcache', Ok _) \<Rightarrow> move_base_pages n (ncache', tcache')
         | (tcache', _) \<Rightarrow> ((ncache', tcache'), Panic))
     | (ncache', Err e) \<Rightarrow> ((ncache', tcache), Err e)
     | (ncache', Panic) \<Rightarrow> ((ncache', tcache), Panic))"

fun move_large_pages :: "nat \<Rightarrow> MCache \<times> MCache \<Rightarrow> (MCache \<times> MCache) \<times> unit kres" where
  "move_large_pages 0 s = (s, Ok ())"
| "move_large_pages (Suc n) (ncache, tcache) = (case allocate_large_page ncache of
       (ncache', Ok f) \<Rightarrow> (case grow_large_pages tcache [f] of
           (tcache', Ok _) \<Rightarrow> move_large_pages n (ncache', tcache')
         | (tcache', _) \<Rightarrow> ((ncache', tcache'), Panic))
     | (ncache', Err e) \<Rightarrow> ((ncache', tcache), Err e)
     | (ncache', Panic) \<Rightarrow> ((ncache', tcache), Panic))"

definition refill_caches :: "nat \<Rightarrow> nat \<Rightarrow> MCache \<times> MCache \<Rightarrow> (MCache \<times> MCache) \<times> unit kres" where
  "refill_caches bp lp s =
     and_then (move_base_pages (min (spare_base_page_capacity (snd s)) bp) s)
       (\<lambda>s' _. move_large_pages (min (spare_large_page_capacity (snd s)) lp) s')"

text \<open>\<open>ncaches\<close> are the node caches of the global memory that belongs to the memory type.\<close>

definition try_refill_tcache ::
  "Kcb \<times> MCache list \<Rightarrow> nat \<Rightarrow> nat \<Rightarrow> MemType \<Rightarrow> (Kcb \<times> MCache list) \<times> unit kres" where
  "try_refill_tcache s bp lp mt = (case s of (k, ncaches) \<Rightarrow>
     let arena = (if mt = MemPMem then pmem_memory k else physical_memory k);
         tcache = (if mt = MemPMem then pmem_manager k else mem_manager k);
         put = (if mt = MemPMem then put_pmem_manager k else put_mem_manager k) in
     if mt = MemInvalid then (s, Panic)
     else if \<not> gmanager arena then (s, Ok ())
     else if \<not> arena_affinity arena < length ncaches then (s, Panic)
     else case refill_caches bp lp (ncaches ! arena_affinity arena, tcache) of
       ((ncache', tcache'), r) \<Rightarrow> ((put tcache', ncaches[arena_affinity arena := ncache']), r))"

definition maybe_refill_tcache :: "Kcb \<times> MCache list \<Rightarrow> nat \<Rightarrow> nat \<Rightarrow> (Kcb \<times> MCache list) \<times> unit kres" where
  "maybe_refill_tcache s bp lp =
     (if free_base_pages (mem_manager (fst s)) < bp \<or> free_large_pages (mem_manager (fst s)) < lp
      then try_refill_tcache s bp lp MemDram else (s, Ok ()))"

text \<open>
  The page-sized branches of \<open>dealloc\<close>, for a block that does not go back to the slab allocator.  A
  base page that the core cache has no room for goes to the node cache; a large page does not.
\<close>

definition dealloc_pages :: "Kcb \<times> MCache list \<Rightarrow> nat \<Rightarrow> nat \<Rightarrow> nat \<Rightarrow> (Kcb \<times> MCache list) \<times> unit kres" where
  "dealloc_pages s paddr sz al = (case s of (k, ncaches) \<Rightarrow>
     let node = arena_affinity (physical_memory k) in
     if sz \<le> BASE_PAGE_SIZE then
       (if BASE_PAGE_SIZE < al then (s, Panic) else
        case Frame_new paddr BASE_PAGE_SIZE node of
          Ok f \<Rightarrow> (case release_base_page (mem_manager k) f of
              (c, Ok _) \<Rightarrow> ((put_mem_manager k c, ncaches), Ok ())
            | (c, Panic) \<Rightarrow> (s, Panic)
            | (c, Err _) \<Rightarrow>
                if \<not> gmanager (physical_memory k) \<or> \<not> node < length ncaches then (s, Panic)
                else case release_base_page (ncaches ! node) f of
                    (nc, Ok _) \<Rightarrow> ((put_mem_manager k c, ncaches[node := nc]), Ok ())
                  | _ \<Rightarrow> (s, Panic))
        | _ \<Rightarrow> (s, Panic))
     else if sz \<le> LARGE_PAGE_SIZE then
       (if LARGE_PAGE_SIZE < al then (s, Panic) else
        case Frame_new paddr LARGE_PAGE_SIZE node of
          Ok f \<Rightarrow> (case release_large_page (mem_manager k) f of
              (c, Ok _) \<Rightarrow> ((put_mem_manager k c, ncaches), Ok ())
            | _ \<Rightarrow> (s, Panic))
        | _ \<Rightarrow> (s, Panic))
     else (s, Ok ()))"

section \<open>Refilling conserves pages\<close>

definition pair_ok :: "MCache \<Rightarrow> MCache \<Rightarrow> bool" where
  "pair_ok nc tc \<longleftrightarrow> mcache_inv nc \<and> mcache_inv tc \<and> node nc = node tc
     \<and> pages_bytes (cache_pages nc) \<inter> pages_bytes (cache_pages tc) = {}"

definition stock :: "MCache \<Rightarrow> MCache \<Rightarrow> (nat \<times> nat) multiset" where
  "stock nc tc = mset (cache_pages nc) + mset (cache_pages tc)"

lemma mcache_inv_grow_large:
  assumes "mcache_inv c" and "length (large_page_addresses c) < lp_cap c"
    and "a mod LARGE_PAGE_SIZE = 0" and "pages_bytes (cache_pages c) \<inter> page_bytes (a, LARGE_PAGE_SIZE) = {}"
  shows "mcache_inv (c\<lparr>large_page_addresses := large_page_addresses c @ [a]\<rparr>)"
proof -
  have "apart (cache_pages c @ [(a, LARGE_PAGE_SIZE)])"
    using assms(1,4) unfolding apart_append mcache_inv_def by simp
  moreover have "cache_pages (c\<lparr>large_page_addresses := large_page_addresses c @ [a]\<rparr>) = cache_pages c @ [(a, LARGE_PAGE_SIZE)]"
    by (simp add: cache_pages_def)
  ultimately show ?thesis using assms(1-3) unfolding mcache_inv_def by auto
qed

lemma base_frame_bytes: "frame_bytes (base_frame c a) = page_bytes (a, BASE_PAGE_SIZE)"
  "frame_bytes (large_frame c a) = page_bytes (a, LARGE_PAGE_SIZE)"
  by (simp_all add: frame_bytes_def page_bytes_def)

text \<open>One page moves.\<close>

lemma move_one_base:
  assumes "pair_ok nc tc" and "base_page_addresses nc = as @ [a]" and "0 < spare_base_page_capacity tc"
    and nc'_def: "nc' = nc\<lparr>base_page_addresses := as\<rparr>" and tc'_def: "tc' = tc\<lparr>base_page_addresses := base_page_addresses tc @ [a]\<rparr>"
  shows "allocate_base_page nc = (nc', Ok (base_frame nc a))" and "grow_base_pages tc [base_frame nc a] = (tc', Ok ())"
    and "pair_ok nc' tc'" and "stock nc' tc' = stock nc tc"
proof -
  have inv: "mcache_inv nc" "mcache_inv tc" "node nc = node tc" "pages_bytes (cache_pages nc) \<inter> pages_bytes (cache_pages tc) = {}"
    using assms(1) by (simp_all add: pair_ok_def)
  show al: "allocate_base_page nc = (nc', Ok (base_frame nc a))"
    using allocate_base_page_some(1) [OF inv(1) assms(2)] nc'_def by simp
  note tk = allocate_base_page_takes [OF inv(1) al, unfolded base_frame_bytes]
  have m: "a mod BASE_PAGE_SIZE = 0" using inv(1) assms(2) by (simp add: mcache_inv_def)
  show "grow_base_pages tc [base_frame nc a] = (tc', Ok ())"
    using grow_base_pages_eq [of tc "[a]"] m assms(3) inv(3) tc'_def by (simp add: spare_base_page_capacity_def)
  have "mcache_inv tc'"
    unfolding tc'_def
    by (rule mcache_inv_grow [OF inv(2)]) (use m assms(3) tk(2) inv(4) in \<open>auto simp: spare_base_page_capacity_def\<close>)
  moreover have "pages_bytes (cache_pages tc') = pages_bytes (cache_pages tc) \<union> page_bytes (a, BASE_PAGE_SIZE)"
    unfolding tc'_def by (auto simp: cache_pages_def)
  ultimately show "pair_ok nc' tc'"
    using tk inv nc'_def tc'_def unfolding pair_ok_def by auto
  show "stock nc' tc' = stock nc tc"
    using assms(2) unfolding stock_def nc'_def tc'_def by (simp add: cache_pages_def)
qed

lemma move_one_large:
  assumes "pair_ok nc tc" and "large_page_addresses nc = as @ [a]" and "0 < spare_large_page_capacity tc"
    and nc'_def: "nc' = nc\<lparr>large_page_addresses := as\<rparr>"
    and tc'_def: "tc' = tc\<lparr>large_page_addresses := large_page_addresses tc @ [a]\<rparr>"
  shows "allocate_large_page nc = (nc', Ok (large_frame nc a))" and "grow_large_pages tc [large_frame nc a] = (tc', Ok ())"
    and "pair_ok nc' tc'" and "stock nc' tc' = stock nc tc"
proof -
  have inv: "mcache_inv nc" "mcache_inv tc" "node nc = node tc" "pages_bytes (cache_pages nc) \<inter> pages_bytes (cache_pages tc) = {}"
    using assms(1) by (simp_all add: pair_ok_def)
  show al: "allocate_large_page nc = (nc', Ok (large_frame nc a))"
    using allocate_large_page_some(1) [OF inv(1) assms(2)] nc'_def by simp
  note tk = allocate_large_page_takes [OF inv(1) al, unfolded base_frame_bytes]
  have m: "a mod LARGE_PAGE_SIZE = 0" using inv(1) assms(2) by (simp add: mcache_inv_def)
  show "grow_large_pages tc [large_frame nc a] = (tc', Ok ())"
    using m assms(3) inv(3) tc'_def
    by (simp add: release_large_page_def try_push_def spare_large_page_capacity_def)
  have "mcache_inv tc'"
    unfolding tc'_def
    by (rule mcache_inv_grow_large [OF inv(2) _ m]) (use assms(3) tk(2) inv(4) in \<open>auto simp: spare_large_page_capacity_def\<close>)
  moreover have "pages_bytes (cache_pages tc') = pages_bytes (cache_pages tc) \<union> page_bytes (a, LARGE_PAGE_SIZE)"
    unfolding tc'_def by (auto simp: cache_pages_def)
  ultimately show "pair_ok nc' tc'"
    using tk inv nc'_def tc'_def unfolding pair_ok_def by auto
  show "stock nc' tc' = stock nc tc"
    using assms(2) unfolding stock_def nc'_def tc'_def by (simp add: cache_pages_def)
qed

lemma move_base_pages_ok:
  assumes "pair_ok nc tc" and "n \<le> spare_base_page_capacity tc"
  shows "\<exists>nc' tc' r. move_base_pages n (nc, tc) = ((nc', tc'), r) \<and> pair_ok nc' tc' \<and> stock nc' tc' = stock nc tc
     \<and> bp_cap tc' = bp_cap tc \<and> lp_cap tc' = lp_cap tc \<and> large_page_addresses tc' = large_page_addresses tc
     \<and> (r = Ok () \<and> free_base_pages tc' = free_base_pages tc + n \<or> r = Err CacheExhausted)"
  using assms
proof (induction n arbitrary: nc tc)
  case (Suc n)
  show ?case
  proof (cases "base_page_addresses nc" rule: rev_cases)
    case Nil
    then have "move_base_pages (Suc n) (nc, tc) = ((nc, tc), Err CacheExhausted)" by (simp add: allocate_base_page_def)
    then show ?thesis using Suc.prems(1) by blast
  next
    case (snoc as a)
    let ?nc = "nc\<lparr>base_page_addresses := as\<rparr>" and ?tc = "tc\<lparr>base_page_addresses := base_page_addresses tc @ [a]\<rparr>"
    have pos: "0 < spare_base_page_capacity tc" using Suc.prems(2) by simp
    note m = move_one_base [OF Suc.prems(1) snoc pos refl refl]
    have "n \<le> spare_base_page_capacity ?tc" using Suc.prems(2) by (simp add: spare_base_page_capacity_def)
    then obtain nc' tc' r where IH: "move_base_pages n (?nc, ?tc) = ((nc', tc'), r)" "pair_ok nc' tc'" "stock nc' tc' = stock ?nc ?tc"
      "bp_cap tc' = bp_cap tc" "lp_cap tc' = lp_cap tc" "large_page_addresses tc' = large_page_addresses tc"
      "r = Ok () \<and> free_base_pages tc' = free_base_pages ?tc + n \<or> r = Err CacheExhausted"
      using Suc.IH [OF m(3)] by fastforce
    have "free_base_pages ?tc = free_base_pages tc + 1" by (simp add: free_base_pages_def)
    moreover have "move_base_pages (Suc n) (nc, tc) = ((nc', tc'), r)"
      using m(1,2) IH(1) by (simp del: grow_base_pages.simps)
    ultimately show ?thesis using IH(2-7) m(4) by (intro exI [of _ nc'] exI [of _ tc'] exI [of _ r]) simp
  qed
qed simp

lemma move_large_pages_ok:
  assumes "pair_ok nc tc" and "n \<le> spare_large_page_capacity tc"
  shows "\<exists>nc' tc' r. move_large_pages n (nc, tc) = ((nc', tc'), r) \<and> pair_ok nc' tc' \<and> stock nc' tc' = stock nc tc
     \<and> bp_cap tc' = bp_cap tc \<and> lp_cap tc' = lp_cap tc \<and> base_page_addresses tc' = base_page_addresses tc
     \<and> (r = Ok () \<and> free_large_pages tc' = free_large_pages tc + n \<or> r = Err CacheExhausted)"
  using assms
proof (induction n arbitrary: nc tc)
  case (Suc n)
  show ?case
  proof (cases "large_page_addresses nc" rule: rev_cases)
    case Nil
    then have "move_large_pages (Suc n) (nc, tc) = ((nc, tc), Err CacheExhausted)" by (simp add: allocate_large_page_def)
    then show ?thesis using Suc.prems(1) by blast
  next
    case (snoc as a)
    let ?nc = "nc\<lparr>large_page_addresses := as\<rparr>" and ?tc = "tc\<lparr>large_page_addresses := large_page_addresses tc @ [a]\<rparr>"
    have pos: "0 < spare_large_page_capacity tc" using Suc.prems(2) by simp
    note m = move_one_large [OF Suc.prems(1) snoc pos refl refl]
    have "n \<le> spare_large_page_capacity ?tc" using Suc.prems(2) by (simp add: spare_large_page_capacity_def)
    then obtain nc' tc' r where IH: "move_large_pages n (?nc, ?tc) = ((nc', tc'), r)" "pair_ok nc' tc'" "stock nc' tc' = stock ?nc ?tc"
      "bp_cap tc' = bp_cap tc" "lp_cap tc' = lp_cap tc" "base_page_addresses tc' = base_page_addresses tc"
      "r = Ok () \<and> free_large_pages tc' = free_large_pages ?tc + n \<or> r = Err CacheExhausted"
      using Suc.IH [OF m(3)] by fastforce
    have "free_large_pages ?tc = free_large_pages tc + 1" by (simp add: free_large_pages_def)
    moreover have "move_large_pages (Suc n) (nc, tc) = ((nc', tc'), r)"
      using m(1,2) IH(1) by (simp del: grow_large_pages.simps)
    ultimately show ?thesis using IH(2-7) m(4) by (intro exI [of _ nc'] exI [of _ tc'] exI [of _ r]) simp
  qed
qed simp

lemma refill_caches_ok:
  assumes "pair_ok nc tc"
  obtains nc' tc' r where "refill_caches bp lp (nc, tc) = ((nc', tc'), r)" "pair_ok nc' tc'" "stock nc' tc' = stock nc tc"
    "r = Ok () \<and> min bp (bp_cap tc) \<le> free_base_pages tc' \<and> min lp (lp_cap tc) \<le> free_large_pages tc' \<or> r = Err CacheExhausted"
proof -
  let ?b = "min (spare_base_page_capacity tc) bp" and ?l = "min (spare_large_page_capacity tc) lp"
  obtain nc1 tc1 r1 where 1: "move_base_pages ?b (nc, tc) = ((nc1, tc1), r1)" "pair_ok nc1 tc1" "stock nc1 tc1 = stock nc tc"
    "bp_cap tc1 = bp_cap tc" "lp_cap tc1 = lp_cap tc" "large_page_addresses tc1 = large_page_addresses tc"
    "r1 = Ok () \<and> free_base_pages tc1 = free_base_pages tc + ?b \<or> r1 = Err CacheExhausted"
    using move_base_pages_ok [OF assms, of ?b] by auto
  have "?l \<le> spare_large_page_capacity tc1" using 1(5,6) by (simp add: spare_large_page_capacity_def)
  then obtain nc2 tc2 r2 where 2: "move_large_pages ?l (nc1, tc1) = ((nc2, tc2), r2)" "pair_ok nc2 tc2" "stock nc2 tc2 = stock nc1 tc1"
    "base_page_addresses tc2 = base_page_addresses tc1"
    "r2 = Ok () \<and> free_large_pages tc2 = free_large_pages tc1 + ?l \<or> r2 = Err CacheExhausted"
    using move_large_pages_ok [OF 1(2), of ?l] by auto
  have b: "min bp (bp_cap tc) \<le> free_base_pages tc2" if "r1 = Ok ()"
    using 1(7) 2(4) that by (auto simp: free_base_pages_def spare_base_page_capacity_def)
  have l: "min lp (lp_cap tc) \<le> free_large_pages tc2" if "r2 = Ok ()"
    using 1(6) 2(5) that by (auto simp: free_large_pages_def spare_large_page_capacity_def)
  show ?thesis
  proof (cases "r1 = Ok ()")
    case True
    then have "refill_caches bp lp (nc, tc) = ((nc2, tc2), r2)" using 1(1) 2(1) by (simp add: refill_caches_def)
    then show ?thesis using that 2(2,3,5) 1(3) b [OF True] l by auto
  next
    case False
    then have "r1 = Err CacheExhausted" using 1(7) by blast
    then have "refill_caches bp lp (nc, tc) = ((nc1, tc1), Err CacheExhausted)" using 1(1) by (simp add: refill_caches_def)
    then show ?thesis using that 1(2,3) by blast
  qed
qed

text \<open>The cache and the arena that a memory type refers to.\<close>

definition arena_of :: "Kcb \<Rightarrow> MemType \<Rightarrow> PhysicalMemoryArena" where
  "arena_of k mt = (if mt = MemPMem then pmem_memory k else physical_memory k)"

definition manager_of :: "Kcb \<Rightarrow> MemType \<Rightarrow> MCache" where
  "manager_of k mt = (if mt = MemPMem then pmem_manager k else mem_manager k)"

lemma manager_of_put [simp]:
  "mem_manager (put_mem_manager k c) = c" "pmem_manager (put_pmem_manager k c) = c"
  "arena_affinity (physical_memory (put_mem_manager k c)) = arena_affinity (physical_memory k)"
  by (auto simp: mem_manager_def put_mem_manager_def pmem_manager_def put_pmem_manager_def split: option.splits)

text \<open>
  C27. A refill moves pages from the node cache to the cache of the core and loses none: on every
  path, also when the node cache runs dry half way, both caches stay well formed and apart and
  hold together the pages they held before.  When it succeeds, the core has the pages it asked
  for, up to the capacity of its cache.
\<close>
theorem refill_conserves_pages:
  assumes "mt \<noteq> MemInvalid" and "gmanager (arena_of k mt)" and "arena_affinity (arena_of k mt) < length ncaches"
    and "pair_ok (ncaches ! arena_affinity (arena_of k mt)) (manager_of k mt)"
  shows "\<exists>k' nc' r. try_refill_tcache (k, ncaches) bp lp mt = ((k', ncaches[arena_affinity (arena_of k mt) := nc']), r)
     \<and> pair_ok nc' (manager_of k' mt)
     \<and> stock nc' (manager_of k' mt) = stock (ncaches ! arena_affinity (arena_of k mt)) (manager_of k mt)
     \<and> (r = Ok () \<and> min bp (bp_cap (manager_of k mt)) \<le> free_base_pages (manager_of k' mt)
          \<and> min lp (lp_cap (manager_of k mt)) \<le> free_large_pages (manager_of k' mt)
        \<or> r = Err CacheExhausted)"
proof -
  obtain nc' tc' r where r: "refill_caches bp lp (ncaches ! arena_affinity (arena_of k mt), manager_of k mt) = ((nc', tc'), r)"
    "pair_ok nc' tc'" "stock nc' tc' = stock (ncaches ! arena_affinity (arena_of k mt)) (manager_of k mt)"
    "r = Ok () \<and> min bp (bp_cap (manager_of k mt)) \<le> free_base_pages tc' \<and> min lp (lp_cap (manager_of k mt)) \<le> free_large_pages tc'
       \<or> r = Err CacheExhausted"
    by (rule refill_caches_ok [OF assms(4)], rule that)
  define k' where "k' = (if mt = MemPMem then put_pmem_manager k tc' else put_mem_manager k tc')"
  have "manager_of k' mt = tc'" by (simp add: manager_of_def k'_def)
  moreover have "try_refill_tcache (k, ncaches) bp lp mt = ((k', ncaches[arena_affinity (arena_of k mt) := nc']), r)"
    using assms(1-3) r(1) by (simp add: try_refill_tcache_def Let_def arena_of_def manager_of_def k'_def)
  ultimately show ?thesis using r(2-4) by blast
qed

definition sample_kcb :: Kcb where
  "sample_kcb = set_mem_manager (set_global_mem (Kcb_new (TCache_new 0) 0)) (TCache_new 0)"

definition sample_ncache :: MCache where
  "sample_ncache = (NCache_new 0)\<lparr>base_page_addresses := [4096, 8192]\<rparr>"

lemma sample_pair: "manager_of sample_kcb MemDram = TCache_new 0" "gmanager (arena_of sample_kcb MemDram)"
  "arena_affinity (arena_of sample_kcb MemDram) = 0" "pair_ok sample_ncache (TCache_new 0)"
  by (simp_all add: manager_of_def arena_of_def mem_manager_def sample_kcb_def set_mem_manager_def set_global_mem_def Kcb_new_def
      Arena_uninit_with_node_def pair_ok_def sample_ncache_def MCache_new_def mcache_inv_def cache_pages_def page_bytes_def)

theorem refill_conserves_pages_witness:
  "\<exists>k' ncs r. try_refill_tcache (sample_kcb, [sample_ncache]) 1 0 MemDram = ((k', ncs), r)
     \<and> stock (ncs ! 0) (manager_of k' MemDram) = {#(4096, 4096), (8192, 4096)#}"
proof -
  have "stock sample_ncache (TCache_new 0) = {#(4096, 4096), (8192, 4096)#}"
    by (simp add: stock_def cache_pages_def sample_ncache_def MCache_new_def)
  then show ?thesis
    using refill_conserves_pages [of MemDram sample_kcb "[sample_ncache]" 1 0] sample_pair by auto
qed

section \<open>Switching the NUMA node\<close>

definition arenas_ok :: "PhysicalMemoryArena \<Rightarrow> PhysicalMemoryArena option list \<Rightarrow> bool" where
  "arenas_ok current arenas \<longleftrightarrow> length arenas = MAX_NUMA_NODES \<and> gmanager current
     \<and> arena_affinity current < MAX_NUMA_NODES \<and> arenas ! arena_affinity current = None
     \<and> (\<forall>i a. i < MAX_NUMA_NODES \<and> arenas ! i = Some a \<longrightarrow> arena_affinity a = i \<and> gmanager a)"

definition arena_at :: "PhysicalMemoryArena option list \<Rightarrow> nat \<Rightarrow> PhysicalMemoryArena" where
  "arena_at arenas n = (case arenas ! n of None \<Rightarrow> Arena_new n | Some a \<Rightarrow> a)"

lemma swap_manager_ok:
  assumes "arenas_ok current arenas" and "n < nodes" and "nodes \<le> MAX_NUMA_NODES" and "n \<noteq> arena_affinity current"
  shows "swap_manager nodes current arenas n =
      ((arena_at arenas n, (arenas[n := None])[arena_affinity current := Some current]), Ok ())"
    and "arenas_ok (arena_at arenas n) ((arenas[n := None])[arena_affinity current := Some current])"
    and "arena_affinity (arena_at arenas n) = n"
proof -
  have n: "n < MAX_NUMA_NODES" using assms(2,3) by simp
  have a: "arena_affinity (arena_at arenas n) = n \<and> gmanager (arena_at arenas n)"
    using assms(1) n by (auto simp: arenas_ok_def arena_at_def Arena_new_def split: option.splits)
  then show "arena_affinity (arena_at arenas n) = n" by simp
  show "swap_manager nodes current arenas n =
      ((arena_at arenas n, (arenas[n := None])[arena_affinity current := Some current]), Ok ())"
    using assms a n by (simp add: swap_manager_def arenas_ok_def arena_at_def [symmetric])
  show "arenas_ok (arena_at arenas n) ((arenas[n := None])[arena_affinity current := Some current])"
    using assms a n by (auto simp: arenas_ok_def nth_list_update)
qed

text \<open>
  Changing the memory affinity of a core to another node and back brings back the arena it
  started with, and with it every page of its cache; the arena of the other node is kept for
  later, and the invariant that each arena is stored under its own node holds throughout.
\<close>
lemma affinity_round_trip:
  assumes "arenas_ok (physical_memory k) (memory_arenas k)" and "n < nodes" and "nodes \<le> MAX_NUMA_NODES"
    and "arena_affinity (physical_memory k) < nodes" and "n \<noteq> arena_affinity (physical_memory k)"
  shows "\<exists>k' k''. set_mem_affinity nodes k n = (k', Ok ()) \<and> arena_affinity (physical_memory k') = n
     \<and> arenas_ok (physical_memory k') (memory_arenas k')
     \<and> set_mem_affinity nodes k' (arena_affinity (physical_memory k)) = (k'', Ok ())
     \<and> physical_memory k'' = physical_memory k
     \<and> memory_arenas k'' = (memory_arenas k)[n := Some (arena_at (memory_arenas k) n)]"
proof -
  let ?c = "physical_memory k" and ?as = "memory_arenas k" let ?o = "arena_affinity ?c"
  note s = swap_manager_ok [OF assms(1-3,5)]
  let ?bs = "(?as[n := None])[?o := Some ?c]"
  have len: "length ?as = MAX_NUMA_NODES" "?o < MAX_NUMA_NODES" "?as ! ?o = None" using assms(1) by (simp_all add: arenas_ok_def)
  have ne: "?o \<noteq> arena_affinity (arena_at ?as n)" using s(3) assms(5) by simp
  note s' = swap_manager_ok [OF s(2) assms(4,3) ne]
  have g0: "gmanager ?c" and g: "gmanager (arena_at ?as n)" using assms(1) s(2) unfolding arenas_ok_def by argo+
  have at: "arena_at ?bs ?o = ?c" using len by (simp add: arena_at_def)
  have "?as[?o := None] = ?as" using len(3) by (metis list_update_id)
  then have "(?bs[?o := None])[n := Some (arena_at ?as n)] = ?as[n := Some (arena_at ?as n)]"
    using assms(5) by (metis list_update_overwrite list_update_swap)
  moreover define k' where "k' = k\<lparr>physical_memory := arena_at ?as n, memory_arenas := ?bs\<rparr>"
  moreover have "set_mem_affinity nodes k n = (k', Ok ())"
    using g0 assms(5) s(1) by (simp add: set_mem_affinity_def k'_def)
  moreover have "set_mem_affinity nodes k' ?o =
      (k'\<lparr>physical_memory := ?c, memory_arenas := (?bs[?o := None])[n := Some (arena_at ?as n)]\<rparr>, Ok ())"
    using s(3) g s'(1) assms(5) at by (simp add: set_mem_affinity_def k'_def)
  ultimately show ?thesis
    using s(2,3)
    by (intro exI [of _ k'] exI [of _ "k'\<lparr>physical_memory := ?c, memory_arenas := ?as[n := Some (arena_at ?as n)]\<rparr>"]) simp
qed

section \<open>Freeing pages\<close>

text \<open>
  Freeing a page-sized block when the cache of the core is full: a base page then goes to the
  node cache, but for a large page there is no such fallback and the kernel panics.
\<close>
lemma dealloc_into_full_cache:
  assumes "node (mem_manager k) = arena_affinity (physical_memory k)" and "paddr mod LARGE_PAGE_SIZE = 0"
    and "length (base_page_addresses (mem_manager k)) = bp_cap (mem_manager k)"
    and "length (large_page_addresses (mem_manager k)) = lp_cap (mem_manager k)"
    and "gmanager (physical_memory k)" and "arena_affinity (physical_memory k) < length ncaches"
    and "nc = ncaches ! arena_affinity (physical_memory k)" and "node nc = arena_affinity (physical_memory k)"
    and "0 < spare_base_page_capacity nc" and "0 < spare_large_page_capacity nc"
  shows "dealloc_pages (k, ncaches) paddr BASE_PAGE_SIZE 8
      = ((put_mem_manager k (mem_manager k), ncaches[arena_affinity (physical_memory k)
          := nc\<lparr>base_page_addresses := base_page_addresses nc @ [paddr]\<rparr>]), Ok ())
    \<and> snd (dealloc_pages (k, ncaches) paddr LARGE_PAGE_SIZE 8) = Panic"
proof -
  have m: "paddr mod BASE_PAGE_SIZE = 0" using assms(2) by (rule large_aligned_base)
  then show ?thesis
    using assms
    by (simp add: dealloc_pages_def Frame_new_def release_base_page_def release_large_page_def try_push_def
        spare_base_page_capacity_def Let_def)
qed

section \<open>Free memory\<close>

text \<open>
  The memory that a core can still hand out: the pages of its cache and, if it is connected to the
  global memory, those of the node cache behind it.
\<close>

definition put_manager :: "Kcb \<Rightarrow> MemType \<Rightarrow> MCache \<Rightarrow> Kcb" where
  "put_manager k mt c = (if mt = MemPMem then put_pmem_manager k c else put_mem_manager k c)"

lemma put_manager_simps [simp]:
  "manager_of (put_manager k mt c) mt = c"
  "gmanager (arena_of (put_manager k mt c) mt) = gmanager (arena_of k mt)"
  "arena_affinity (arena_of (put_manager k mt c) mt) = arena_affinity (arena_of k mt)"
  by (simp_all add: put_manager_def manager_of_def)
    (auto simp: put_manager_def arena_of_def put_mem_manager_def put_pmem_manager_def split: option.splits)

definition node_cache :: "MemType \<Rightarrow> Kcb \<times> MCache list \<Rightarrow> MCache" where
  "node_cache mt m = snd m ! arena_affinity (arena_of (fst m) mt)"

definition memory_ok :: "MemType \<Rightarrow> Kcb \<times> MCache list \<Rightarrow> bool" where
  "memory_ok mt m \<longleftrightarrow> mcache_inv (manager_of (fst m) mt)
     \<and> (gmanager (arena_of (fst m) mt) \<longrightarrow>
          arena_affinity (arena_of (fst m) mt) < length (snd m) \<and> pair_ok (node_cache mt m) (manager_of (fst m) mt))"

definition free_memory :: "MemType \<Rightarrow> Kcb \<times> MCache list \<Rightarrow> nat set" where
  "free_memory mt m = pages_bytes (cache_pages (manager_of (fst m) mt))
     \<union> (if gmanager (arena_of (fst m) mt) then pages_bytes (cache_pages (node_cache mt m)) else {})"

lemma stock_bytes: "stock nc tc = stock nc' tc' \<Longrightarrow>
  pages_bytes (cache_pages nc) \<union> pages_bytes (cache_pages tc) = pages_bytes (cache_pages nc') \<union> pages_bytes (cache_pages tc')"
proof -
  assume "stock nc tc = stock nc' tc'"
  then have "set_mset (stock nc tc) = set_mset (stock nc' tc')" by simp
  then show ?thesis by (simp add: stock_def pages_bytes_def flip: UN_Un)
qed

lemma refill_free_memory:
  assumes "memory_ok mt m" and "mt \<noteq> MemInvalid" and "try_refill_tcache m bp lp mt = (m', r)"
  shows "memory_ok mt m'" and "free_memory mt m' = free_memory mt m" and "r \<noteq> Panic"
proof -
  obtain k ncs where m: "m = (k, ncs)" by (cases m)
  let ?a = "arena_affinity (arena_of k mt)"
  have "memory_ok mt m' \<and> free_memory mt m' = free_memory mt m \<and> r \<noteq> Panic"
  proof (cases "gmanager (arena_of k mt)")
    case False
    then have "m' = m \<and> r = Ok ()" using assms(2,3) m by (auto simp: try_refill_tcache_def arena_of_def Let_def split: if_splits)
    then show ?thesis using assms(1) by simp
  next
    case True
    then have a: "?a < length ncs" "pair_ok (ncs ! ?a) (manager_of k mt)"
      using assms(1) m by (simp_all add: memory_ok_def node_cache_def)
    obtain nc' tc' r' where c: "refill_caches bp lp (ncs ! ?a, manager_of k mt) = ((nc', tc'), r')" "pair_ok nc' tc'"
      "stock nc' tc' = stock (ncs ! ?a) (manager_of k mt)" "r' \<noteq> Panic"
      by (rule refill_caches_ok [OF a(2), of bp lp]) (use that in blast)
    have "m' = (put_manager k mt tc', ncs[?a := nc'])" "r = r'"
      using assms(2,3) True a(1) c(1) m
      by (auto simp: try_refill_tcache_def Let_def arena_of_def manager_of_def put_manager_def)
    then show ?thesis using c(2,4) a(1) True m stock_bytes [OF c(3)]
      by (auto simp: memory_ok_def free_memory_def node_cache_def pair_ok_def Un_commute)
  qed
  then show "memory_ok mt m'" "free_memory mt m' = free_memory mt m" "r \<noteq> Panic" by simp_all
qed

lemma take_free_memory:
  assumes "memory_ok mt (k, ncs)" and "alloc \<in> {allocate_base_page, allocate_large_page}"
    and "alloc (manager_of k mt) = (c, Ok f)"
  shows "memory_ok mt (put_manager k mt c, ncs)" and "frame_bytes f \<subseteq> free_memory mt (k, ncs)"
    and "frame_bytes f \<inter> free_memory mt (put_manager k mt c, ncs) = {}"
    and "free_memory mt (put_manager k mt c, ncs) \<subseteq> free_memory mt (k, ncs)"
proof -
  have inv: "mcache_inv (manager_of k mt)" using assms(1) by (simp add: memory_ok_def)
  have t: "mcache_inv c" "frame_bytes f \<subseteq> pages_bytes (cache_pages (manager_of k mt))"
    "frame_bytes f \<inter> pages_bytes (cache_pages c) = {}" "pages_bytes (cache_pages c) \<subseteq> pages_bytes (cache_pages (manager_of k mt))"
    using assms(2,3) allocate_base_page_takes [OF inv, of c f] allocate_large_page_takes [OF inv, of c f] by auto
  have nd: "node c = node (manager_of k mt)"
    using assms(2,3) by (auto simp: allocate_base_page_def allocate_large_page_def Let_def split: if_splits)
  have p: "pages_bytes (cache_pages (node_cache mt (k, ncs))) \<inter> pages_bytes (cache_pages (manager_of k mt)) = {}"
    if "gmanager (arena_of k mt)" using assms(1) that by (simp add: memory_ok_def pair_ok_def)
  have nc: "node_cache mt (put_manager k mt c, ncs) = node_cache mt (k, ncs)" by (simp add: node_cache_def)
  show "memory_ok mt (put_manager k mt c, ncs)" using assms(1) t(1,4) nd p nc
    by (auto simp: memory_ok_def pair_ok_def)
  show "frame_bytes f \<subseteq> free_memory mt (k, ncs)" using t(2) by (auto simp: free_memory_def)
  show "frame_bytes f \<inter> free_memory mt (put_manager k mt c, ncs) = {}"
    using t(2,3) p nc by (auto simp: free_memory_def)
  show "free_memory mt (put_manager k mt c, ncs) \<subseteq> free_memory mt (k, ncs)"
    using t(4) nc by (auto simp: free_memory_def)
qed

lemma page_shape:
  assumes "mcache_inv c"
  shows "allocate_base_page c = (c', Ok f) \<Longrightarrow> fsize f = BASE_PAGE_SIZE \<and> fbase f mod BASE_PAGE_SIZE = 0"
    and "allocate_large_page c = (c', Ok f) \<Longrightarrow> fsize f = LARGE_PAGE_SIZE \<and> fbase f mod LARGE_PAGE_SIZE = 0"
proof -
  assume a: "allocate_base_page c = (c', Ok f)"
  then obtain as x where s: "base_page_addresses c = as @ [x]"
    by (cases "base_page_addresses c" rule: rev_cases) (auto simp: allocate_base_page_def)
  then show "fsize f = BASE_PAGE_SIZE \<and> fbase f mod BASE_PAGE_SIZE = 0"
    using a allocate_base_page_some(1) [OF assms s] assms by (auto simp: mcache_inv_def)
next
  assume a: "allocate_large_page c = (c', Ok f)"
  then obtain as x where s: "large_page_addresses c = as @ [x]"
    by (cases "large_page_addresses c" rule: rev_cases) (auto simp: allocate_large_page_def)
  moreover from this have "x mod LARGE_PAGE_SIZE = 0" using assms unfolding mcache_inv_def by simp
  ultimately show "fsize f = LARGE_PAGE_SIZE \<and> fbase f mod LARGE_PAGE_SIZE = 0"
    using a allocate_large_page_some(1) [OF assms s] by auto
qed

end
