(* ===== verification/KernelNodes.thy ===== *)
theory KernelNodes
  imports KernelError
begin

text \<open>
  The replicated kernel state of \<open>nr.rs\<close>: which process identifiers are in use and which core runs
  which process.  A replica applies the operations of the shared log one after the other with
  \<open>dispatch_mut\<close>; \<open>replay\<close> is that loop of the node-replication library, as its documentation
  describes it.
\<close>

section \<open>Model\<close>

abbreviation MAX_PROCESSES :: nat where "MAX_PROCESSES \<equiv> 12"
abbreviation MAX_CORES :: nat where "MAX_CORES \<equiv> 192"

datatype nr_ReadOps = CurrentProcess nat

datatype nr_Op =
    AllocatePid
  | FreePid nat
  | SchedAllocateCore nat "nat option" "nat option" nat

record CoreInfo =
  ci_pid :: nat
  ci_entry_point :: nat

datatype nr_NodeResult = PidAllocated nat | PidReturned | CoreInfoResult CoreInfo | CoreAllocated nat

record KernelNode =
  process_map :: "nat \<rightharpoonup> unit"
  scheduler_map :: "nat \<rightharpoonup> CoreInfo"

definition KernelNode_default :: KernelNode where
  "KernelNode_default = \<lparr>process_map = Map.empty, scheduler_map = Map.empty\<rparr>"

definition nr_dispatch :: "KernelNode \<Rightarrow> nr_ReadOps \<Rightarrow> nr_NodeResult kres" where
  "nr_dispatch k op = (case op of CurrentProcess gtid \<Rightarrow>
     map_result CoreInfoResult (ok_or NoExecutorForCore (scheduler_map k gtid)))"

definition nr_allocate_pid :: "heap \<times> KernelNode \<Rightarrow> (heap \<times> KernelNode) \<times> nr_NodeResult kres" where
  "nr_allocate_pid s = (case s of (h, k) \<Rightarrow>
     (case find (\<lambda>i. process_map k i = None) [0..<MAX_PROCESSES] of
        None \<Rightarrow> (s, Err OutOfPids)
      | Some i \<Rightarrow> (case heap_take h of
          (True, h') \<Rightarrow> ((h', k\<lparr>process_map := (process_map k)(i \<mapsto> ())\<rparr>), Ok (PidAllocated i))
        | (False, h') \<Rightarrow> ((h', k), Err (KError_from HashbrownTryReserveError)))))"

definition nr_allocate_core :: "heap \<times> KernelNode \<Rightarrow> nat \<Rightarrow> nat \<Rightarrow> nat \<Rightarrow> (heap \<times> KernelNode) \<times> nr_NodeResult kres" where
  "nr_allocate_core s pid gtid entry_point = (case s of (h, k) \<Rightarrow>
     if \<not> gtid < MAX_CORES then (s, Panic)
     else if scheduler_map k gtid \<noteq> None then (s, Err CoreAlreadyAllocated)
     else case heap_take h of
       (True, h') \<Rightarrow> ((h', k\<lparr>scheduler_map := (scheduler_map k)(gtid \<mapsto> \<lparr>ci_pid = pid, ci_entry_point = entry_point\<rparr>)\<rparr>),
           Ok (CoreAllocated gtid))
     | (False, h') \<Rightarrow> ((h', k), Err (KError_from HashbrownTryReserveError)))"

definition nr_dispatch_mut :: "heap \<times> KernelNode \<Rightarrow> nr_Op \<Rightarrow> (heap \<times> KernelNode) \<times> nr_NodeResult kres" where
  "nr_dispatch_mut s op = (case op of
       AllocatePid \<Rightarrow> nr_allocate_pid s
     | FreePid pid \<Rightarrow> (case s of (h, k) \<Rightarrow>
         (case process_map k pid of
            Some _ \<Rightarrow> ((h, k\<lparr>process_map := (process_map k)(pid := None)\<rparr>), Ok PidReturned)
          | None \<Rightarrow> (s, Err NoProcessFoundForPid)))
     | SchedAllocateCore pid aff gtid entry_point \<Rightarrow> (case gtid of
         Some g \<Rightarrow> nr_allocate_core s pid g entry_point
       | None \<Rightarrow> (s, Panic)))"

text \<open>
  \<open>allocate_core_to_process\<close> with the replica of the core, if it is set, as the function that
  executes an operation on it.
\<close>

definition allocate_core_to_process ::
  "(nr_Op \<Rightarrow> 's \<Rightarrow> 's \<times> nr_NodeResult kres) option \<Rightarrow> nat \<Rightarrow> nat \<Rightarrow> nat option \<Rightarrow> nat option \<Rightarrow> 's \<Rightarrow> 's \<times> nat kres" where
  "allocate_core_to_process replica pid entry_point aff gtid s = (case replica of
       None \<Rightarrow> (s, Err ReplicaNotSet)
     | Some execute_mut \<Rightarrow> (case execute_mut (SchedAllocateCore pid aff gtid entry_point) s of
         (s', Ok (CoreAllocated rgtid)) \<Rightarrow> (s', Ok rgtid)
       | (s', Err e) \<Rightarrow> (s', Err e)
       | (s', _) \<Rightarrow> (s', Panic)))"

fun replay :: "heap \<times> KernelNode \<Rightarrow> nr_Op list \<Rightarrow> (heap \<times> KernelNode) \<times> nr_NodeResult kres list" where
  "replay s [] = (s, [])"
| "replay s (op # ops) = (case nr_dispatch_mut s op of (s', r) \<Rightarrow>
     (case replay s' ops of (s'', rs) \<Rightarrow> (s'', r # rs)))"

section \<open>What an operation does\<close>

lemma find_pid_Some:
  "find (\<lambda>i. process_map k i = None) [0..<MAX_PROCESSES] = Some i \<Longrightarrow> i < MAX_PROCESSES \<and> process_map k i = None"
  by (auto simp: find_Some_iff)

lemma find_pid_None:
  "find (\<lambda>i. process_map k i = None) [0..<MAX_PROCESSES] = None \<longleftrightarrow> (\<forall>i < MAX_PROCESSES. process_map k i \<noteq> None)"
  by (auto simp: find_None_iff)

lemma dispatch_pids:
  assumes "nr_dispatch_mut (h, k) op = ((h', k'), r)"
  shows "r = Ok (PidAllocated p) \<Longrightarrow> process_map k p = None \<and> p < MAX_PROCESSES \<and> process_map k' = (process_map k)(p \<mapsto> ())"
    and "process_map k q \<noteq> None \<Longrightarrow> process_map k' q = None \<Longrightarrow> op = FreePid q \<and> r = Ok PidReturned"
  using assms
  by (auto simp: nr_dispatch_mut_def nr_allocate_pid_def nr_allocate_core_def dest: find_pid_Some
      split: nr_Op.splits option.splits prod.splits bool.splits if_splits)

lemma dispatch_cores:
  assumes "nr_dispatch_mut (h, k) op = ((h', k'), r)"
  shows "scheduler_map k c = Some ci \<Longrightarrow> scheduler_map k' c = Some ci"
    and "r = Ok (CoreAllocated c) \<Longrightarrow> scheduler_map k c = None \<and> scheduler_map k' c \<noteq> None"
  using assms
  by (auto simp: nr_dispatch_mut_def nr_allocate_pid_def nr_allocate_core_def
      split: nr_Op.splits option.splits prod.splits bool.splits if_splits)

lemma dispatch_same:
  assumes "never_fails h1" and "never_fails h2"
  shows "\<exists>k' r h1' h2'. nr_dispatch_mut (h1, k) op = ((h1', k'), r) \<and> nr_dispatch_mut (h2, k) op = ((h2', k'), r)
     \<and> never_fails h1' \<and> never_fails h2'"
proof -
  obtain g1 where g1: "heap_take h1 = (True, g1)" "never_fails g1" by (rule heap_take_cases [OF assms(1)], rule that)
  obtain g2 where g2: "heap_take h2 = (True, g2)" "never_fails g2" by (rule heap_take_cases [OF assms(2)], rule that)
  show ?thesis
    using g1 g2 assms
    by (auto simp: nr_dispatch_mut_def nr_allocate_pid_def nr_allocate_core_def split: nr_Op.splits option.splits)
qed

lemma replay_ConsE:
  assumes "replay (h, k) (op # ops) = (s, rs)"
  obtains h' k' r rs' where "nr_dispatch_mut (h, k) op = ((h', k'), r)" "replay (h', k') ops = (s, rs')" "rs = r # rs'"
  using assms by (auto split: prod.splits)

lemma replay_length: "replay s ops = (s', rs) \<Longrightarrow> length rs = length ops"
  by (induction s ops arbitrary: rs rule: replay.induct) (auto split: prod.splits)

section \<open>Identifiers and cores over a log\<close>

lemma replay_keeps_core:
  assumes "replay (h, k) ops = ((h', k'), rs)" and "scheduler_map k c = Some ci"
  shows "scheduler_map k' c = Some ci \<and> Ok (CoreAllocated c) \<notin> set rs"
  using assms
proof (induction ops arbitrary: h k rs)
  case (Cons op ops)
  obtain h1 k1 r rs' where 1: "nr_dispatch_mut (h, k) op = ((h1, k1), r)" "replay (h1, k1) ops = ((h', k'), rs')" "rs = r # rs'"
    using Cons.prems(1) by (rule replay_ConsE)
  have "r \<noteq> Ok (CoreAllocated c)" using dispatch_cores(2) [OF 1(1), of c] Cons.prems(2) by (metis option.distinct(1))
  then show ?case using Cons.IH [OF 1(2) dispatch_cores(1) [OF 1(1) Cons.prems(2)]] 1(3) by simp
qed simp

lemma replay_pid_again:
  assumes "replay (h, k) ops = (s, rs)" and "process_map k p \<noteq> None" and "j < length ops" and "rs ! j = Ok (PidAllocated p)"
  shows "\<exists>m < j. ops ! m = FreePid p \<and> rs ! m = Ok PidReturned"
  using assms
proof (induction ops arbitrary: h k rs j)
  case (Cons op ops)
  obtain h1 k1 r rs' where 1: "nr_dispatch_mut (h, k) op = ((h1, k1), r)" "replay (h1, k1) ops = (s, rs')" "rs = r # rs'"
    using Cons.prems(1) by (rule replay_ConsE)
  have "r \<noteq> Ok (PidAllocated p)" using dispatch_pids(1) [OF 1(1), of p] Cons.prems(2) by argo
  then obtain j' where j: "j = Suc j'" using Cons.prems(4) 1(3) by (cases j) auto
  show ?case
  proof (cases "process_map k1 p = None")
    case True
    then have "op = FreePid p \<and> r = Ok PidReturned" using dispatch_pids(2) [OF 1(1) Cons.prems(2)] by blast
    then show ?thesis using 1(3) j by (intro exI [of _ 0]) simp
  next
    case False
    have "\<exists>m < j'. ops ! m = FreePid p \<and> rs' ! m = Ok PidReturned"
      by (rule Cons.IH [OF 1(2) False]) (use Cons.prems(3,4) 1(3) j in simp_all)
    then obtain m where "m < j'" "ops ! m = FreePid p" "rs' ! m = Ok PidReturned" by blast
    then show ?thesis using 1(3) j by (intro exI [of _ "Suc m"]) simp
  qed
qed simp

text \<open>
  C26. Over any log of operations and whatever allocations fail, a process identifier is handed out
  again only after it was freed in between, and a core is given away at most once.
\<close>
theorem pids_and_cores_exclusive:
  assumes "replay (h, k) ops = (s, rs)" and "i < j" and "j < length ops"
  shows "(rs ! i = Ok (PidAllocated p) \<and> rs ! j = Ok (PidAllocated p)
      \<longrightarrow> (\<exists>m. i < m \<and> m < j \<and> ops ! m = FreePid p \<and> rs ! m = Ok PidReturned))
    \<and> \<not> (rs ! i = Ok (CoreAllocated c) \<and> rs ! j = Ok (CoreAllocated c))"
  using assms
proof (induction ops arbitrary: h k rs i j)
  case (Cons op ops)
  obtain h1 k1 r rs' where 1: "nr_dispatch_mut (h, k) op = ((h1, k1), r)" "replay (h1, k1) ops = (s, rs')" "rs = r # rs'"
    using Cons.prems(1) by (rule replay_ConsE)
  obtain j' where j: "j = Suc j'" using Cons.prems(2) by (cases j) simp_all
  have j': "j' < length ops" "length rs' = length ops" using Cons.prems(3) j replay_length [OF 1(2)] by simp_all
  show ?case
  proof (cases i)
    case 0
    have "\<exists>m. i < m \<and> m < j \<and> (op # ops) ! m = FreePid p \<and> rs ! m = Ok PidReturned"
      if a: "rs ! i = Ok (PidAllocated p)" and b: "rs ! j = Ok (PidAllocated p)"
    proof -
      have "process_map k1 p \<noteq> None" using dispatch_pids(1) [OF 1(1)] a 1(3) 0 by simp
      from replay_pid_again [OF 1(2) this j'(1)] obtain m where "m < j'" "ops ! m = FreePid p" "rs' ! m = Ok PidReturned"
        using b 1(3) j by auto
      then show ?thesis using 0 j 1(3) by (intro exI [of _ "Suc m"]) simp
    qed
    moreover have "rs ! j \<noteq> Ok (CoreAllocated c)" if a: "rs ! i = Ok (CoreAllocated c)"
    proof -
      have "r = Ok (CoreAllocated c)" using a 1(3) 0 by simp
      then obtain ci where "scheduler_map k1 c = Some ci" using dispatch_cores(2) [OF 1(1)] by blast
      moreover obtain h2 k2 where "s = (h2, k2)" by (cases s)
      ultimately have "Ok (CoreAllocated c) \<notin> set rs'" using replay_keeps_core 1(2) by blast
      then show ?thesis using j j' 1(3) by (metis nth_Cons_Suc nth_mem)
    qed
    ultimately show ?thesis by blast
  next
    case (Suc i')
    then have "i' < j'" using Cons.prems(2) j by simp
    from Cons.IH [OF 1(2) this j'(1)] show ?thesis
      using Suc j 1(3) by (metis Suc_less_eq nth_Cons_Suc)
  qed
qed simp

theorem pids_and_cores_exclusive_witness:
  "\<exists>s rs. replay ([], KernelNode_default) [AllocatePid, FreePid 0, AllocatePid] = (s, rs)
     \<and> rs ! 0 = Ok (PidAllocated 0) \<and> rs ! 2 = Ok (PidAllocated 0) \<and> rs ! 2 \<noteq> Ok (CoreAllocated 0)
     \<and> (\<exists>m. 0 < m \<and> m < 2 \<and> rs ! m = Ok PidReturned)"
proof -
  let ?ops = "[AllocatePid, FreePid 0, AllocatePid]"
  have r: "snd (replay ([], KernelNode_default) ?ops) = [Ok (PidAllocated 0), Ok PidReturned, Ok (PidAllocated 0)]"
    by (simp add: nr_dispatch_mut_def nr_allocate_pid_def KernelNode_default_def upt_conv_Cons)
  obtain s rs where e: "replay ([], KernelNode_default) ?ops = (s, rs)" by (cases "replay ([], KernelNode_default) ?ops")
  then have rs: "rs = [Ok (PidAllocated 0), Ok PidReturned, Ok (PidAllocated 0)]" using r by simp
  have "0 < (2::nat)" "2 < length ?ops" by simp_all
  from pids_and_cores_exclusive [OF e this, of 0 0] show ?thesis using e rs by (intro exI [of _ s] exI [of _ rs]) auto
qed

section \<open>Two shortcomings\<close>

text \<open>
  Freeing a process does not give its cores back. Once a core is allocated it reports the same
  process for ever, whatever operations follow, and can never be allocated again.
\<close>
lemma cores_never_returned:
  assumes "scheduler_map k c = Some ci" and "replay (h, k) (FreePid (ci_pid ci) # ops) = ((h', k'), rs)"
  shows "nr_dispatch k' (CurrentProcess c) = Ok (CoreInfoResult ci)
    \<and> (c < MAX_CORES \<longrightarrow> snd (nr_dispatch_mut (h', k') (SchedAllocateCore p aff (Some c) e)) = Err CoreAlreadyAllocated)"
  using replay_keeps_core [OF assms(2,1)] by (auto simp: nr_dispatch_def nr_dispatch_mut_def nr_allocate_core_def)



end
