(* ===== verification/Processes.thy ===== *)
theory Processes
  imports VSpaceSpec KernelMem KernelNodes FileDesc
begin

text \<open>
  User processes and their executors (\<open>kernel/src/arch/x86_64/process.rs\<close>): the tables of
  descriptors and registered frames, and the creation of executors, the stacks and virtual CPUs
  on which a process runs.
\<close>

section \<open>Model\<close>

abbreviation ELF_OFFSET :: nat where "ELF_OFFSET \<equiv> 0x2000000000"
abbreviation EXECUTOR_OFFSET :: nat where "EXECUTOR_OFFSET \<equiv> 0x2100000000"
abbreviation MAX_FRAMES_PER_PROCESS :: nat where "MAX_FRAMES_PER_PROCESS \<equiv> MAX_CORES"
abbreviation MAX_WRITEABLE_SECTIONS_PER_PROCESS :: nat where "MAX_WRITEABLE_SECTIONS_PER_PROCESS \<equiv> 4"

text \<open>
  The state of the kernel that operations on a process use: the heap, the memory of the core with
  the node caches, and the bytes of physical memory.
\<close>

record KState =
  k_heap :: heap
  k_mem :: "Kcb \<times> MCache list"
  k_bytes :: "nat \<Rightarrow> u8"

definition refill :: "KState \<times> 'p \<Rightarrow> nat \<Rightarrow> nat \<Rightarrow> MemType \<Rightarrow> (KState \<times> 'p) \<times> unit kres" where
  "refill s bp lp mt = (case s of (k, p) \<Rightarrow>
     (case try_refill_tcache (k_mem k) bp lp mt of (m, r) \<Rightarrow> ((k\<lparr>k_mem := m\<rparr>, p), r)))"

text \<open>An allocation from the kernel heap that reports failure.\<close>

definition try_alloc :: "LibraryError \<Rightarrow> KState \<times> 'p \<Rightarrow> (KState \<times> 'p) \<times> unit kres" where
  "try_alloc e s = (case s of (k, p) \<Rightarrow>
     (case heap_take (k_heap k) of (b, h) \<Rightarrow> ((k\<lparr>k_heap := h\<rparr>, p), if b then Ok () else Err (KError_from e))))"

text \<open>Taking a page from the cache that \<open>mem_manager\<close> or \<open>pmem_manager\<close> refers to.\<close>

definition with_manager :: "MemType \<Rightarrow> (MCache \<Rightarrow> MCache \<times> 'a kres) \<Rightarrow> KState \<times> 'p \<Rightarrow> (KState \<times> 'p) \<times> 'a kres" where
  "with_manager mt f s = (case s of (k, p) \<Rightarrow> (case k_mem k of (kcb, ncaches) \<Rightarrow>
     (case f (if mt = MemPMem then pmem_manager kcb else mem_manager kcb) of
        (c, r) \<Rightarrow> ((k\<lparr>k_mem := (if mt = MemPMem then put_pmem_manager kcb c else put_mem_manager kcb c, ncaches)\<rparr>, p), r))))"

text \<open>Writing bytes to physical memory through its alias in kernel space.\<close>

definition store_bytes :: "(nat \<Rightarrow> u8) \<Rightarrow> nat \<Rightarrow> u8 list \<Rightarrow> nat \<Rightarrow> u8" where
  "store_bytes b pa bs = (\<lambda>a. if pa \<le> a \<and> a < pa + length bs then bs ! (a - pa) else b a)"

subsection \<open>Executors\<close>

abbreviation INIT_STACK_SIZE :: nat where "INIT_STACK_SIZE \<equiv> 98304"
abbreviation UPCALL_STACK_SIZE :: nat where "UPCALL_STACK_SIZE \<equiv> 98304"
abbreviation EXECUTOR_SPACE_REQUIREMENT :: nat where "EXECUTOR_SPACE_REQUIREMENT \<equiv> 200704"

text \<open>The size of \<open>kpi::arch::VirtualCpu\<close>: a save area of 736 bytes, three addresses and two flags, 16-byte aligned.\<close>

abbreviation VCPU_SIZE :: nat where "VCPU_SIZE \<equiv> 768"

record Ring3Executor =
  stack_base :: nat
  upcall_stack_base :: nat
  x_pid :: nat
  eid :: nat
  x_affinity :: nat
  vcpu_ctl :: nat
  vcpu_ctl_kernel :: nat
  x_entry_point :: nat
  x_pml4 :: nat

record ProcessInfo =
  has_tls :: bool
  tls_data :: nat
  tls_data_len :: nat
  tls_len_total :: nat
  tls_alignment :: nat
  cmdline :: string
  app_cmdline :: string

definition ProcessInfo_default :: ProcessInfo where
  "ProcessInfo_default = \<lparr>has_tls = False, tls_data = 0, tls_data_len = 0, tls_len_total = 0,
     tls_alignment = 0, cmdline = [], app_cmdline = []\<rparr>"

record Ring3Process =
  p_pid :: nat
  current_eid :: nat
  p_vspace :: VSpace
  p_offset :: nat
  pinfo :: ProcessInfo
  p_entry_point :: nat
  executor_cache :: "Ring3Executor list option list"
  executor_offset :: nat
  p_fds :: "Fd option list"
  p_frames :: "Frame option list"
  writeable_sections :: "Frame list"
  read_only_offset :: nat

definition Ring3Executor_new ::
  "Ring3Process \<Rightarrow> nat \<Rightarrow> nat \<Rightarrow> nat \<times> nat \<Rightarrow> nat \<Rightarrow> Ring3Executor kres" where
  "Ring3Executor_new p i vcpu_kernel region aff = (case region of (from, to) \<Rightarrow>
     if \<not> from < to then Panic
     else if to - from < INIT_STACK_SIZE + UPCALL_STACK_SIZE + VCPU_SIZE then Panic
     else Ok \<lparr>stack_base = from, upcall_stack_base = from + INIT_STACK_SIZE, x_pid = p_pid p, eid = i,
            x_affinity = aff, vcpu_ctl = from + INIT_STACK_SIZE + UPCALL_STACK_SIZE,
            vcpu_ctl_kernel = vcpu_kernel, x_entry_point = p_offset p + p_entry_point p,
            x_pml4 = pml4 (page_table (p_vspace p))\<rparr>)"

definition stack_top :: "Ring3Executor \<Rightarrow> nat" where
  "stack_top x = stack_base x + INIT_STACK_SIZE - 8"

definition upcall_stack_top :: "Ring3Executor \<Rightarrow> nat" where
  "upcall_stack_top x = upcall_stack_base x + UPCALL_STACK_SIZE - 8"

subsection \<open>Processes\<close>

text \<open>\<open>root\<close>, \<open>tables\<close> and \<open>mem\<close> are the frames and the memory that the new page table gets.\<close>

definition Ring3Process_new :: "heap \<Rightarrow> nat \<Rightarrow> nat \<Rightarrow> nat list \<Rightarrow> (nat \<Rightarrow> table) \<Rightarrow> heap \<times> Ring3Process kres" where
  "Ring3Process_new h pid root tables mem =
     (case VSpace_new h root tables mem of (h', r) \<Rightarrow> (h', map_result (\<lambda>vs.
        \<lparr>p_pid = pid, current_eid = 0, p_vspace = vs, p_offset = ELF_OFFSET, pinfo = ProcessInfo_default,
         p_entry_point = 0, executor_cache = replicate MAX_NUMA_NODES None, executor_offset = EXECUTOR_OFFSET,
         p_fds = replicate MAX_FILES_PER_PROCESS None, p_frames = replicate MAX_FRAMES_PER_PROCESS None,
         writeable_sections = [], read_only_offset = 0\<rparr>) r))"

definition get_executor :: "Ring3Process \<Rightarrow> nat \<Rightarrow> Ring3Process \<times> Ring3Executor kres" where
  "get_executor p for_region =
     (if \<not> for_region < length (executor_cache p) then (p, Panic)
      else case executor_cache p ! for_region of
        Some executor_list \<Rightarrow>
          (if executor_list = [] then (p, Err ExecutorCacheExhausted)
           else (p\<lparr>executor_cache := (executor_cache p)[for_region := Some (butlast executor_list)]\<rparr>, Ok (last executor_list)))
      | None \<Rightarrow> (p, Err NoExecutorAllocated))"

definition proc_map_frame :: "KState \<times> Ring3Process \<Rightarrow> nat \<Rightarrow> Frame \<Rightarrow> MapAction \<Rightarrow> (KState \<times> Ring3Process) \<times> unit kres" where
  "proc_map_frame s base f action = (case s of (k, p) \<Rightarrow>
     (case vs_map_frame (k_heap k, p_vspace p) base f action of
        ((h, vs), r) \<Rightarrow> ((k\<lparr>k_heap := h\<rparr>, p\<lparr>p_vspace := vs\<rparr>), r)))"

text \<open>Putting an executor into the cache of its NUMA node.\<close>

definition cache_executor :: "Ring3Executor \<Rightarrow> nat \<Rightarrow> Ring3Process \<Rightarrow> Ring3Process" where
  "cache_executor x nid p = p\<lparr>executor_cache := (executor_cache p)[nid :=
     Some ((case executor_cache p ! nid of None \<Rightarrow> [] | Some xs \<Rightarrow> xs) @ [x])]\<rparr>"

text \<open>
  The loop of \<open>allocate_executors\<close>: \<open>n\<close> executors are left to create, the next one from the user
  address \<open>cur_offset\<close> on.  The physical address \<open>cur_paddr_offset\<close> stays the base of the frame.
\<close>

fun create_executors :: "nat \<Rightarrow> nat \<Rightarrow> Frame \<Rightarrow> KState \<times> Ring3Process \<Rightarrow> (KState \<times> Ring3Process) \<times> unit kres" where
  "create_executors 0 cur_offset memory s = (s, Ok ())"
| "create_executors (Suc n) cur_offset memory s =
     (case Ring3Executor_new (snd s) (current_eid (snd s))
         (paddr_to_kernel_vaddr (fbase memory + INIT_STACK_SIZE + UPCALL_STACK_SIZE))
         (cur_offset, cur_offset + EXECUTOR_SPACE_REQUIREMENT) (affinity memory) of
        Ok x \<Rightarrow>
          and_then (try_alloc AllocError s) (\<lambda>s _.
            if \<not> affinity memory < length (executor_cache (snd s)) then (s, Panic) else
            and_then (try_alloc FallibleTryReserveError s) (\<lambda>s _.
              case s of (k, p) \<Rightarrow>
                create_executors n (cur_offset + EXECUTOR_SPACE_REQUIREMENT) memory
                  (k, (cache_executor x (affinity memory) p)\<lparr>current_eid := current_eid p + 1\<rparr>)))
      | _ \<Rightarrow> (s, Panic))"

definition allocate_executors :: "KState \<times> Ring3Process \<Rightarrow> Frame \<Rightarrow> (KState \<times> Ring3Process) \<times> nat kres" where
  "allocate_executors s memory =
     (let executors_to_create = fsize memory div EXECUTOR_SPACE_REQUIREMENT in
      and_then (expect (refill s 20 0 MemDram)) (\<lambda>s _.
      and_then (expect (proc_map_frame s (executor_offset (snd s)) memory ReadWriteUser)) (\<lambda>s _.
      and_then (create_executors executors_to_create (executor_offset (snd s)) memory s) (\<lambda>s _.
        case s of (k, p) \<Rightarrow>
          ((k, p\<lparr>executor_offset := executor_offset p + fsize memory\<rparr>), Ok executors_to_create)))))"

subsection \<open>Descriptors and registered frames\<close>

definition proc_allocate_fd :: "Ring3Process \<Rightarrow> (Ring3Process \<times> nat) option" where
  "proc_allocate_fd p = (case position Option.is_none (p_fds p) of
       Some fid \<Rightarrow> Some (p\<lparr>p_fds := (p_fds p)[fid := Some Fd_default]\<rparr>, fid)
     | None \<Rightarrow> None)"

definition proc_deallocate_fd :: "Ring3Process \<Rightarrow> nat \<Rightarrow> Ring3Process \<times> nat kres" where
  "proc_deallocate_fd p fd =
     (if fd < length (p_fds p)
      then (case p_fds p ! fd of
              Some _ \<Rightarrow> (p\<lparr>p_fds := (p_fds p)[fd := None]\<rparr>, Ok fd)
            | None \<Rightarrow> (p, Err InvalidFileDescriptor))
      else (p, Err InvalidFileDescriptor))"

definition proc_get_fd :: "Ring3Process \<Rightarrow> nat \<Rightarrow> Fd kres" where
  "proc_get_fd p index = (if index < length (p_fds p)
     then (case p_fds p ! index of Some fd \<Rightarrow> Ok fd | None \<Rightarrow> Panic) else Panic)"

definition add_frame :: "Ring3Process \<Rightarrow> Frame \<Rightarrow> Ring3Process \<times> nat kres" where
  "add_frame p f = (case position Option.is_none (p_frames p) of
       Some fid \<Rightarrow> (p\<lparr>p_frames := (p_frames p)[fid := Some f]\<rparr>, Ok fid)
     | None \<Rightarrow> (p, Err TooManyRegisteredFrames))"

definition get_frame :: "Ring3Process \<Rightarrow> nat \<Rightarrow> Frame kres" where
  "get_frame p fid = ok_or InvalidFrameId (if fid < length (p_frames p) then p_frames p ! fid else None)"

definition deallocate_frame :: "Ring3Process \<Rightarrow> nat \<Rightarrow> Ring3Process \<times> Frame kres" where
  "deallocate_frame p fid =
     (if fid < length (p_frames p)
      then (p\<lparr>p_frames := (p_frames p)[fid := None]\<rparr>, ok_or InvalidFileDescriptor (p_frames p ! fid))
      else (p, Err InvalidFileDescriptor))"

section \<open>The tables are slot tables\<close>

definition frames_inv :: "Ring3Process \<Rightarrow> bool" where
  "frames_inv p \<longleftrightarrow> length (p_frames p) = MAX_FRAMES_PER_PROCESS"

definition frame_lookup :: "Ring3Process \<Rightarrow> nat \<Rightarrow> Frame option" where
  "frame_lookup p = slot (p_frames p)"

definition put_frame :: "Ring3Process \<Rightarrow> Frame \<Rightarrow> (Ring3Process \<times> nat) option" where
  "put_frame p f = (case add_frame p f of (p', Ok fid) \<Rightarrow> Some (p', fid) | _ \<Rightarrow> None)"

definition take_frame :: "Ring3Process \<Rightarrow> nat \<Rightarrow> Ring3Process option" where
  "take_frame p fid = (case deallocate_frame p fid of (p', Ok _) \<Rightarrow> Some p' | _ \<Rightarrow> None)"

lemma get_frame_lookup: "get_frame p fid = ok_or InvalidFrameId (frame_lookup p fid)"
  by (simp add: get_frame_def frame_lookup_def slot_def)

interpretation frame_table: slot_table frames_inv frame_lookup MAX_FRAMES_PER_PROCESS put_frame take_frame
proof
  fix p p' f i
  assume i: "frames_inv p" "put_frame p f = Some (p', i)"
  then have "position Option.is_none (p_frames p) = Some i" "p' = p\<lparr>p_frames := (p_frames p)[i := Some f]\<rparr>"
    by (auto simp: put_frame_def add_frame_def split: option.splits)
  with position_slot_SomeD [OF this(1)] i(1)
  show "frames_inv p' \<and> i < MAX_FRAMES_PER_PROCESS \<and> frame_lookup p i = None \<and> frame_lookup p' = (frame_lookup p)(i \<mapsto> f)"
    by (simp add: frames_inv_def frame_lookup_def slot_update)
next
  fix p f
  assume "frames_inv p"
  then show "put_frame p f = None \<longleftrightarrow> (\<forall>i < MAX_FRAMES_PER_PROCESS. frame_lookup p i \<noteq> None)"
    using position_slot_None [of "p_frames p"]
    by (auto simp: put_frame_def add_frame_def frames_inv_def frame_lookup_def split: option.splits)
next
  fix p i
  assume i: "frames_inv p" "frame_lookup p i \<noteq> None"
  then have l: "i < length (p_frames p)" by (auto simp: frame_lookup_def slot_def split: if_splits)
  then have "take_frame p i = Some (p\<lparr>p_frames := (p_frames p)[i := None]\<rparr>)"
    using i(2) by (auto simp: take_frame_def deallocate_frame_def frame_lookup_def slot_def)
  then show "\<exists>p'. take_frame p i = Some p' \<and> frames_inv p' \<and> frame_lookup p' = (frame_lookup p)(i := None)"
    using i(1) l by (auto simp: frames_inv_def frame_lookup_def slot_update)
qed (auto simp: take_frame_def deallocate_frame_def frame_lookup_def slot_def frames_inv_def split: if_splits)

text \<open>
  C10. A frame that is registered with a process is found under the identifier it was given until it
  is deallocated, two registrations have different identifiers, and an identifier that is not in
  use, whatever number a process passes, is \<open>InvalidFrameId\<close>.
\<close>
theorem registered_frames:
  assumes "frames_inv p" and "add_frame p f = (p1, Ok i)" and "add_frame p1 g = (p2, Ok j)"
  shows "i \<noteq> j \<and> get_frame p2 i = Ok f \<and> get_frame p2 j = Ok g \<and> get_frame p i = Err InvalidFrameId
    \<and> (\<exists>p3. deallocate_frame p2 i = (p3, Ok f) \<and> get_frame p3 i = Err InvalidFrameId \<and> get_frame p3 j = Ok g)
    \<and> (MAX_FRAMES_PER_PROCESS \<le> k \<longrightarrow> get_frame p2 k = Err InvalidFrameId)"
proof -
  have put: "put_frame p f = Some (p1, i)" "put_frame p1 g = Some (p2, j)" using assms(2,3) by (simp_all add: put_frame_def)
  note two = frame_table.put_twice [OF assms(1) put]
  have inv1: "frames_inv p1" "frame_lookup p i = None" using frame_table.put_Some [OF assms(1) put(1)] by simp_all
  have inv2: "frames_inv p2" using frame_table.put_Some [OF inv1(1) put(2)] by simp
  obtain p3 where p3: "take_frame p2 i = Some p3" "frame_lookup p3 = (frame_lookup p2)(i := None)"
    using frame_table.release_used [OF inv2, of i] two by auto
  have "deallocate_frame p2 i = (p3, Ok f)"
    using p3(1) two by (auto simp: take_frame_def deallocate_frame_def frame_lookup_def slot_def split: if_splits)
  moreover have "frame_lookup p2 k = None" if "MAX_FRAMES_PER_PROCESS \<le> k"
    using frame_table.range [OF inv2, of k] that by linarith
  ultimately show ?thesis using two inv1(2) p3(2) by (simp add: get_frame_lookup)
qed

section \<open>What \<open>allocate_executors\<close> creates\<close>

definition cached :: "Ring3Process \<Rightarrow> nat \<Rightarrow> Ring3Executor list" where
  "cached p nid = (if nid < length (executor_cache p)
     then (case executor_cache p ! nid of None \<Rightarrow> [] | Some xs \<Rightarrow> xs) else [])"

lemma cached_update [simp]:
  "cached (p\<lparr>p_vspace := vs\<rparr>) nid = cached p nid"
  "cached (p\<lparr>executor_offset := a\<rparr>) nid = cached p nid"
  by (simp_all add: cached_def)

text \<open>The executor that iteration \<open>i\<close> of the loop creates.\<close>

definition executor_at :: "Ring3Process \<Rightarrow> nat \<Rightarrow> Frame \<Rightarrow> nat \<Rightarrow> Ring3Executor" where
  "executor_at p cur memory i =
     \<lparr>stack_base = cur + i * EXECUTOR_SPACE_REQUIREMENT,
      upcall_stack_base = cur + i * EXECUTOR_SPACE_REQUIREMENT + INIT_STACK_SIZE,
      x_pid = p_pid p, eid = current_eid p + i, x_affinity = affinity memory,
      vcpu_ctl = cur + i * EXECUTOR_SPACE_REQUIREMENT + INIT_STACK_SIZE + UPCALL_STACK_SIZE,
      vcpu_ctl_kernel = paddr_to_kernel_vaddr (fbase memory + INIT_STACK_SIZE + UPCALL_STACK_SIZE),
      x_entry_point = p_offset p + p_entry_point p, x_pml4 = pml4 (page_table (p_vspace p))\<rparr>"

definition with_executors :: "Ring3Process \<Rightarrow> nat \<Rightarrow> Frame \<Rightarrow> nat \<Rightarrow> Ring3Process" where
  "with_executors p cur memory n = p\<lparr>current_eid := current_eid p + n, executor_cache :=
     if n = 0 then executor_cache p else (executor_cache p)[affinity memory :=
       Some (cached p (affinity memory) @ map (executor_at p cur memory) [0..<n])]\<rparr>"

lemma try_alloc_cases:
  obtains h where "try_alloc e (k, p) = ((k\<lparr>k_heap := h\<rparr>, p), Ok ())"
  | h where "try_alloc e (k, p) = ((k\<lparr>k_heap := h\<rparr>, p), Err (KError_from e))" "\<not> never_fails (k_heap k)"
  by (cases "heap_take (k_heap k)"; cases "fst (heap_take (k_heap k))") (auto simp: try_alloc_def heap_take_False)

lemma try_alloc_ok:
  assumes "never_fails (k_heap k)"
  obtains h where "try_alloc e (k, p) = ((k\<lparr>k_heap := h\<rparr>, p), Ok ())" "never_fails h"
  by (rule heap_take_cases [OF assms]) (rule that, auto simp: try_alloc_def)

lemma executor_new_at:
  "Ring3Executor_new p (current_eid p) (paddr_to_kernel_vaddr (fbase memory + INIT_STACK_SIZE + UPCALL_STACK_SIZE))
     (cur, cur + EXECUTOR_SPACE_REQUIREMENT) (affinity memory) = Ok (executor_at p cur memory 0)"
  by (simp add: Ring3Executor_new_def executor_at_def)

lemma create_executors_Suc:
  "create_executors (Suc n) cur memory s =
     and_then (try_alloc AllocError s) (\<lambda>s' _.
       if \<not> affinity memory < length (executor_cache (snd s')) then (s', Panic) else
       and_then (try_alloc FallibleTryReserveError s') (\<lambda>s' _.
         case s' of (k, p) \<Rightarrow>
           create_executors n (cur + EXECUTOR_SPACE_REQUIREMENT) memory
             (k, (cache_executor (executor_at (snd s) cur memory 0) (affinity memory) p)\<lparr>current_eid := current_eid p + 1\<rparr>)))"
  by (simp only: create_executors.simps executor_new_at result.case)

declare create_executors.simps(2) [simp del]

lemma upt_shift: "map f [0..<Suc n] = f 0 # map (\<lambda>i. f (Suc i)) [0..<n]"
  by (simp add: upt_rec [of 0 "Suc n"] map_Suc_upt [symmetric] del: upt_Suc map_Suc_upt)

lemma with_executors_step:
  assumes "affinity memory < length (executor_cache p)"
  shows "with_executors ((cache_executor (executor_at p cur memory 0) (affinity memory) p)\<lparr>current_eid := current_eid p + 1\<rparr>)
      (cur + EXECUTOR_SPACE_REQUIREMENT) memory n = with_executors p cur memory (Suc n)"
proof -
  let ?p' = "(cache_executor (executor_at p cur memory 0) (affinity memory) p)\<lparr>current_eid := current_eid p + 1\<rparr>"
  have "executor_at ?p' (cur + EXECUTOR_SPACE_REQUIREMENT) memory = (\<lambda>i. executor_at p cur memory (Suc i))"
    by (rule ext) (simp add: executor_at_def cache_executor_def algebra_simps)
  then have "map (executor_at p cur memory) [0..<Suc n] = executor_at p cur memory 0
      # map (executor_at ?p' (cur + EXECUTOR_SPACE_REQUIREMENT) memory) [0..<n]" by (simp add: upt_shift del: upt_Suc)
  then show ?thesis using assms
    by (cases "n = 0") (simp_all add: with_executors_def cached_def cache_executor_def del: upt_Suc)
qed

lemma create_executors_result:
  assumes "create_executors n cur memory (k, p) = ((k', p'), r)"
  shows "\<exists>m \<le> n. p' = with_executors p cur memory m \<and> (r = Ok () \<longrightarrow> m = n) \<and> (0 < m \<longrightarrow> affinity memory < length (executor_cache p))
    \<and> (\<exists>h. k' = k\<lparr>k_heap := h\<rparr>)"
  using assms
proof (induction n arbitrary: cur k p)
  case 0
  then show ?case by (auto simp: with_executors_def intro: exI [of _ "k_heap k"])
next
  case (Suc n)
  have none: "with_executors p cur memory 0 = p" by (simp add: with_executors_def)
  obtain s1 r1 where 1: "try_alloc AllocError (k, p) = (s1, r1)" by (cases "try_alloc AllocError (k, p)")
  obtain h1 where s1: "s1 = (k\<lparr>k_heap := h1\<rparr>, p)" "r1 = Ok () \<or> r1 = Err (KError_from AllocError)"
    using 1 by (cases rule: try_alloc_cases [of AllocError k p]) auto
  show ?case
  proof (cases "r1 = Ok () \<and> affinity memory < length (executor_cache p)")
    case False
    then have "k' = k\<lparr>k_heap := h1\<rparr> \<and> p' = p \<and> r \<noteq> Ok ()"
      using Suc.prems 1 s1 by (auto simp: create_executors_Suc split: if_splits)
    then show ?thesis using none by (intro exI [of _ 0]) auto
  next
    case True
    obtain s2 r2 where 2: "try_alloc FallibleTryReserveError s1 = (s2, r2)" by (cases "try_alloc FallibleTryReserveError s1")
    obtain h2 where s2: "s2 = (k\<lparr>k_heap := h2\<rparr>, p)" "r2 = Ok () \<or> r2 = Err (KError_from FallibleTryReserveError)"
      using 2 s1(1) by (cases rule: try_alloc_cases [of FallibleTryReserveError "k\<lparr>k_heap := h1\<rparr>" p]) auto
    let ?p1 = "(cache_executor (executor_at p cur memory 0) (affinity memory) p)\<lparr>current_eid := current_eid p + 1\<rparr>"
    show ?thesis
    proof (cases "r2 = Ok ()")
      case ok: True
      then have "create_executors n (cur + EXECUTOR_SPACE_REQUIREMENT) memory (k\<lparr>k_heap := h2\<rparr>, ?p1) = ((k', p'), r)"
        using Suc.prems 1 2 s1 s2 True by (simp add: create_executors_Suc)
      from Suc.IH [OF this] obtain m h where m: "m \<le> n"
        "p' = with_executors ?p1 (cur + EXECUTOR_SPACE_REQUIREMENT) memory m" "r = Ok () \<longrightarrow> m = n" "k' = k\<lparr>k_heap := h\<rparr>" by auto
      then show ?thesis using True with_executors_step [of memory p cur m] by (intro exI [of _ "Suc m"]) auto
    next
      case False
      then have "k' = k\<lparr>k_heap := h2\<rparr> \<and> p' = p \<and> r \<noteq> Ok ()"
        using Suc.prems 1 2 s1 s2 True by (auto simp: create_executors_Suc)
      then show ?thesis using none by (intro exI [of _ 0]) auto
    qed
  qed
qed

lemma create_executors_ok:
  assumes "never_fails (k_heap k)" and "affinity memory < length (executor_cache p)"
  shows "\<exists>h. create_executors n cur memory (k, p) = ((k\<lparr>k_heap := h\<rparr>, with_executors p cur memory n), Ok ()) \<and> never_fails h"
  using assms
proof (induction n arbitrary: cur k p)
  case 0
  then show ?case by (auto simp: with_executors_def intro: exI [of _ "k_heap k"])
next
  case (Suc n)
  obtain h1 where 1: "try_alloc AllocError (k, p) = ((k\<lparr>k_heap := h1\<rparr>, p), Ok ())" "never_fails h1"
    by (rule try_alloc_ok [OF Suc.prems(1)], rule that)
  obtain h2 where 2: "try_alloc FallibleTryReserveError (k\<lparr>k_heap := h1\<rparr>, p) = ((k\<lparr>k_heap := h2\<rparr>, p), Ok ())" "never_fails h2"
    by (rule try_alloc_ok [of "k\<lparr>k_heap := h1\<rparr>"]) (use 1(2) that in auto)
  let ?p1 = "(cache_executor (executor_at p cur memory 0) (affinity memory) p)\<lparr>current_eid := current_eid p + 1\<rparr>"
  have "affinity memory < length (executor_cache ?p1)" using Suc.prems(2) by (simp add: cache_executor_def)
  from Suc.IH [of "k\<lparr>k_heap := h2\<rparr>" ?p1, OF _ this] 2(2) obtain h where
    "create_executors n (cur + EXECUTOR_SPACE_REQUIREMENT) memory (k\<lparr>k_heap := h2\<rparr>, ?p1) =
      ((k\<lparr>k_heap := h\<rparr>, with_executors ?p1 (cur + EXECUTOR_SPACE_REQUIREMENT) memory n), Ok ())" "never_fails h" by auto
  then show ?case using 1(1) 2(1) Suc.prems(2) with_executors_step [OF Suc.prems(2)] by (auto simp: create_executors_Suc)
qed

lemma cached_with_executors:
  "affinity memory < length (executor_cache p) \<Longrightarrow> cached (with_executors p cur memory n) nid =
     cached p nid @ (if nid = affinity memory then map (executor_at p cur memory) [0..<n] else [])"
  by (auto simp: cached_def with_executors_def)

lemma executor_at_window:
  assumes "i < 10" and "stack_base (executor_at p cur memory i) \<le> a"
    and "a < stack_base (executor_at p cur memory i) + EXECUTOR_SPACE_REQUIREMENT"
  shows "cur \<le> a" and "a < cur + LARGE_PAGE_SIZE"
  using assms by (simp_all add: executor_at_def)

lemma allocate_executors_page:
  assumes "vspace_inv (k_heap k, p_vspace p)" and "snd (try_refill_tcache (k_mem k) 20 0 MemDram) = Ok ()"
    and "3 \<le> length (da (page_table (p_vspace p)))" and "affinity memory < length (executor_cache p)"
    and "entry_ok (executor_offset p, fbase memory, fsize memory, ReadWriteUser)" and "fsize memory = LARGE_PAGE_SIZE"
    and "\<forall>v. executor_offset p \<le> v \<and> v < executor_offset p + LARGE_PAGE_SIZE \<longrightarrow> vs_resolve (p_vspace p) v = Err NotMapped"
  obtains k' vs where "allocate_executors (k, p) memory =
      ((k', (with_executors (p\<lparr>p_vspace := vs\<rparr>) (executor_offset p) memory 10)\<lparr>executor_offset := executor_offset p + LARGE_PAGE_SIZE\<rparr>), Ok 10)"
    "vspace_inv (k_heap k', vs)"
    "\<And>a. \<lbrakk>executor_offset p \<le> a; a < executor_offset p + LARGE_PAGE_SIZE\<rbrakk> \<Longrightarrow> vs_resolve vs a = Ok (fbase memory + (a - executor_offset p), ReadWriteUser)"
proof -
  let ?o = "executor_offset p"
  obtain m where m: "try_refill_tcache (k_mem k) 20 0 MemDram = (m, Ok ())"
    using assms(2) by (cases "try_refill_tcache (k_mem k) 20 0 MemDram") auto
  have room: "3 * Suc 0 \<le> length (da (page_table (snd (k_heap k, p_vspace p))))" using assms(3) by simp
  have free: "\<forall>v. ?o \<le> v \<and> v < ?o + fsize memory \<longrightarrow> vs_resolve (snd (k_heap k, p_vspace p)) v = Err NotMapped"
    using assms(6,7) by simp
  obtain h vs where v: "vs_map_frame (k_heap k, p_vspace p) ?o memory ReadWriteUser = ((h, vs), Ok ())" "vspace_inv (h, vs)"
    "\<And>v. v < VADDR_LIMIT \<Longrightarrow> vs_resolve vs v = (if ?o \<le> v \<and> v < ?o + LARGE_PAGE_SIZE
        then Ok (fbase memory + (v - ?o), ReadWriteUser) else vs_resolve (p_vspace p) v)"
    using vspace.map_frame_adds [OF assms(1) room assms(5) free] assms(6) by auto
  let ?p1 = "p\<lparr>p_vspace := vs\<rparr>" and ?k1 = "k\<lparr>k_mem := m, k_heap := h\<rparr>"
  have hf: "never_fails (k_heap ?k1)" and lt: "affinity memory < length (executor_cache ?p1)"
    using v(2) assms(4) by (simp_all add: vspace_inv_def)
  obtain h' where c: "create_executors 10 ?o memory (?k1, ?p1) = ((?k1\<lparr>k_heap := h'\<rparr>, with_executors ?p1 ?o memory 10), Ok ())" "never_fails h'"
    using create_executors_ok [OF hf lt, of 10 ?o] by auto
  have lim: "?o + LARGE_PAGE_SIZE \<le> VADDR_LIMIT" using assms(5,6) by (simp add: entry_ok_def)
  have "allocate_executors (k, p) memory = ((?k1\<lparr>k_heap := h'\<rparr>,
      (with_executors ?p1 ?o memory 10)\<lparr>executor_offset := ?o + LARGE_PAGE_SIZE\<rparr>), Ok 10)"
    using m v(1) c(1) assms(6) by (simp add: allocate_executors_def refill_def proc_map_frame_def with_executors_def)
  then show thesis by (rule that) (use v(2,3) c(2) lim in \<open>simp_all add: vspace_inv_def\<close>)
qed


definition sample_process :: Ring3Process where
  "sample_process = \<lparr>p_pid = 1, current_eid = 0, p_vspace = \<lparr>mappings = [], page_table = fresh_table\<rparr>, p_offset = ELF_OFFSET,
     pinfo = ProcessInfo_default, p_entry_point = 0, executor_cache = replicate MAX_NUMA_NODES None,
     executor_offset = EXECUTOR_OFFSET, p_fds = replicate MAX_FILES_PER_PROCESS None,
     p_frames = replicate MAX_FRAMES_PER_PROCESS None, writeable_sections = [], read_only_offset = 0\<rparr>"

definition sample_kstate :: KState where
  "sample_kstate = \<lparr>k_heap = [], k_mem = (Kcb_new (TCache_new 0) 0, []), k_bytes = (\<lambda>_. 0)\<rparr>"

lemma sample_refill: "try_refill_tcache (k_mem sample_kstate) bp lp MemDram = (k_mem sample_kstate, Ok ())"
  by (simp add: sample_kstate_def try_refill_tcache_def Kcb_new_def Arena_uninit_with_node_def Let_def)


theorem registered_frames_witness:
  "\<exists>p1 p2. add_frame sample_process Frame_empty = (p1, Ok 0) \<and> add_frame p1 Frame_empty = (p2, Ok 1)
     \<and> get_frame p2 192 = Err InvalidFrameId"
proof -
  have r: "replicate MAX_FRAMES_PER_PROCESS None = None # None # replicate 190 (None :: Frame option)"
    by (simp add: numeral_eq_Suc)
  let ?p1 = "sample_process\<lparr>p_frames := Some Frame_empty # None # replicate 190 None\<rparr>"
  let ?p2 = "sample_process\<lparr>p_frames := Some Frame_empty # Some Frame_empty # replicate 190 None\<rparr>"
  have 1: "add_frame sample_process Frame_empty = (?p1, Ok 0)" unfolding add_frame_def sample_process_def r by simp
  have 2: "add_frame ?p1 Frame_empty = (?p2, Ok 1)" unfolding add_frame_def by simp
  have i: "frames_inv sample_process" by (simp add: frames_inv_def sample_process_def)
  show ?thesis using registered_frames [OF i 1 2, of 192] 1 2 by blast
qed

section \<open>Refilling and taking pages\<close>

lemma with_manager_take:
  assumes "with_manager mt alloc (k, p) = ((k', p'), Ok f)" and "memory_ok mt (k_mem k)"
    and "alloc \<in> {allocate_base_page, allocate_large_page}"
  shows "p' = p" and "k_heap k' = k_heap k" and "k_bytes k' = k_bytes k" and "memory_ok mt (k_mem k')"
    and "frame_bytes f \<subseteq> free_memory mt (k_mem k)" and "frame_bytes f \<inter> free_memory mt (k_mem k') = {}"
    and "free_memory mt (k_mem k') \<subseteq> free_memory mt (k_mem k)"
proof -
  obtain kcb ncs where m: "k_mem k = (kcb, ncs)" by (cases "k_mem k")
  obtain c where a: "alloc (manager_of kcb mt) = (c, Ok f)" "p' = p" "k' = k\<lparr>k_mem := (put_manager kcb mt c, ncs)\<rparr>"
    using assms(1) m by (auto simp: with_manager_def manager_of_def put_manager_def split: prod.splits)
  note t = take_free_memory [OF assms(2) [unfolded m] assms(3) a(1)]
  show "p' = p" "k_heap k' = k_heap k" "k_bytes k' = k_bytes k" "memory_ok mt (k_mem k')"
    "frame_bytes f \<subseteq> free_memory mt (k_mem k)" "frame_bytes f \<inter> free_memory mt (k_mem k') = {}"
    "free_memory mt (k_mem k') \<subseteq> free_memory mt (k_mem k)"
    using a(2,3) m t by simp_all
qed

lemma with_manager_frame:
  "with_manager mt allocate_large_page (k, p) = ((k', p'), Ok f) \<Longrightarrow> p' = p \<and> k_heap k' = k_heap k \<and> k_bytes k' = k_bytes k \<and> fsize f = LARGE_PAGE_SIZE"
  "with_manager mt allocate_base_page (k, p) = ((k', p'), Ok f) \<Longrightarrow> p' = p \<and> k_heap k' = k_heap k \<and> k_bytes k' = k_bytes k \<and> fsize f = BASE_PAGE_SIZE"
  by (auto simp: with_manager_def allocate_large_page_def allocate_base_page_def paddr_to_large_page_def paddr_to_base_page_def
      Frame_new_def Let_def split: prod.splits if_splits)

lemma refill_result:
  assumes "refill (k, p) bp lp mt = ((k', p'), r)"
  shows "p' = p" and "k_heap k' = k_heap k" and "k_bytes k' = k_bytes k"
    and "mt \<noteq> MemInvalid \<Longrightarrow> memory_ok mt (k_mem k) \<Longrightarrow> memory_ok mt (k_mem k') \<and> free_memory mt (k_mem k') = free_memory mt (k_mem k) \<and> r \<noteq> Panic"
proof -
  obtain m where m: "try_refill_tcache (k_mem k) bp lp mt = (m, r)" "k' = k\<lparr>k_mem := m\<rparr>" "p' = p"
    using assms by (auto simp: refill_def split: prod.splits)
  then show "p' = p" "k_heap k' = k_heap k" "k_bytes k' = k_bytes k" by simp_all
  show "memory_ok mt (k_mem k') \<and> free_memory mt (k_mem k') = free_memory mt (k_mem k) \<and> r \<noteq> Panic"
    if "mt \<noteq> MemInvalid" "memory_ok mt (k_mem k)" using refill_free_memory [OF that(2,1) m(1)] m(2) by simp
qed

end
