(* ===== verification/ElfLoad.thy ===== *)
theory ElfLoad
  imports Processes
begin

text \<open>
  Loading a binary.  The \<open>elfloader\<close> library parses a file and calls back into the kernel, which
  implements its trait twice: \<open>DataSecAllocator\<close> (\<open>kernel/src/process.rs\<close>) prepares the frames of
  the writeable sections once for all replicas of a process, and \<open>Ring3Process\<close>
  (\<open>kernel/src/arch/x86_64/process.rs\<close>) maps all sections into the address space of one replica
  and fills the read-only ones.
\<close>

section \<open>The library's interface\<close>

record ElfFlags =
  is_execute :: bool
  is_write :: bool
  is_read :: bool

record ProgramHeader =
  virtual_addr :: nat
  mem_size :: nat
  ph_flags :: ElfFlags

datatype ElfLoaderErr = UnsupportedRelocationEntry | ElfStrError

text \<open>
  A call of the library into the trait.  Of a relocation entry the kernel looks at the offset,
  whether its type is \<open>R_RELATIVE\<close>, and the addend.
\<close>

datatype elf_call =
    ElfAllocate "ProgramHeader list"
  | ElfLoadRegion ElfFlags nat "u8 list"
  | ElfRelocate nat bool nat
  | ElfMakeReadonly nat nat
  | ElfTls nat nat nat nat

text \<open>A parsed binary: what the kernel asks it for, and the calls its \<open>load\<close> makes until one fails.\<close>

record ElfBinary =
  is_pie :: bool
  elf_entry_point :: nat
  elf_calls :: "elf_call list"

type_synonym 's elf_result = "'s \<times> (ElfLoaderErr, unit) result"

section \<open>Model\<close>

text \<open>Both implementations round a header to large pages in the same way.\<close>

definition page_base :: "nat \<Rightarrow> nat" where
  "page_base base = base - base mod LARGE_PAGE_SIZE"

definition size_page :: "nat \<Rightarrow> nat \<Rightarrow> nat" where
  "size_page base sz = round_up (sz + base mod LARGE_PAGE_SIZE) LARGE_PAGE_SIZE"

definition size_overflows :: "nat \<Rightarrow> nat \<Rightarrow> bool" where
  "size_overflows base sz \<longleftrightarrow> usize_limit \<le> sz + base mod LARGE_PAGE_SIZE + LARGE_PAGE_SIZE"

subsection \<open>The writeable sections\<close>

record DataSecAllocator =
  ds_offset :: nat
  ds_frames :: "(nat \<times> Frame) list"

definition ds_finish :: "DataSecAllocator \<Rightarrow> Frame list" where
  "ds_finish d = map snd (ds_frames d)"

text \<open>\<open>n\<close> large pages for the virtual addresses from \<open>va\<close> on.\<close>

fun ds_take_pages :: "nat \<Rightarrow> nat \<Rightarrow> KState \<times> DataSecAllocator \<Rightarrow> (KState \<times> DataSecAllocator) elf_result" where
  "ds_take_pages 0 va s = (s, Ok ())"
| "ds_take_pages (Suc n) va s =
     and_then (expect (with_manager MemDram allocate_large_page s)) (\<lambda>s f.
       case s of (k, d) \<Rightarrow> ds_take_pages n (va + LARGE_PAGE_SIZE) (k, d\<lparr>ds_frames := ds_frames d @ [(va, f)]\<rparr>))"

definition ds_allocate_header ::
  "KState \<times> DataSecAllocator \<Rightarrow> ProgramHeader \<Rightarrow> (KState \<times> DataSecAllocator) elf_result" where
  "ds_allocate_header s h =
     (if size_overflows (virtual_addr h) (mem_size h) then (s, Panic)
      else if is_write (ph_flags h)
      then let large_pages = size_page (virtual_addr h) (mem_size h) div LARGE_PAGE_SIZE in
           and_then (expect (refill s 0 large_pages MemDram)) (\<lambda>s _.
             ds_take_pages large_pages (page_base (virtual_addr h)) s)
      else (s, Ok ()))"

text \<open>
  The copy loop of \<open>load\<close> over the frames.  It subtracts the begin of the frame from the
  destination, so a region that starts before the frame is a panic; in every other case the copied
  part starts at the beginning of what is left of the region.
\<close>

fun ds_copy :: "(nat \<times> Frame) list \<Rightarrow> nat \<Rightarrow> u8 list \<Rightarrow> (nat \<Rightarrow> u8) \<Rightarrow> (nat \<Rightarrow> u8) \<times> (ElfLoaderErr, unit) result" where
  "ds_copy [] destination region b = (b, Ok ())"
| "ds_copy ((elf_begin, f) # fs) destination region b =
     (if usize_limit \<le> elf_begin + fsize f \<or> usize_limit \<le> destination + length region then (b, Panic)
      else if overlaps (destination, destination + length region) (elf_begin, elf_begin + fsize f)
      then if destination < elf_begin then (b, Panic)
           else let copy_start = max elf_begin destination - destination;
                    copy_end = min (elf_begin + fsize f) (destination + length region) - destination
                in ds_copy fs (destination + (copy_end - copy_start)) (drop copy_end region)
                     (store_bytes b (fbase f + (destination - elf_begin)) (slice region copy_start copy_end))
      else ds_copy fs destination region b)"

definition ds_load ::
  "KState \<times> DataSecAllocator \<Rightarrow> ElfFlags \<Rightarrow> nat \<Rightarrow> u8 list \<Rightarrow> (KState \<times> DataSecAllocator) elf_result" where
  "ds_load s flags destination region = (case s of (k, d) \<Rightarrow>
     if is_write flags
     then (case ds_copy (ds_frames d) destination region (k_bytes k) of (b, r) \<Rightarrow> ((k\<lparr>k_bytes := b\<rparr>, d), r))
     else (s, Ok ()))"

fun ds_relocate_frames ::
  "nat \<Rightarrow> nat \<Rightarrow> bool \<Rightarrow> nat \<Rightarrow> (nat \<times> Frame) list \<Rightarrow> (nat \<Rightarrow> u8) \<Rightarrow> (nat \<Rightarrow> u8) \<times> (ElfLoaderErr, unit) result" where
  "ds_relocate_frames offset addr relative addend [] b = (b, Ok ())"
| "ds_relocate_frames offset addr relative addend ((pheader_offset, f) # fs) b =
     (let elf_vbase = page_base (offset + pheader_offset) in
      if usize_limit \<le> offset + pheader_offset \<or> elf_vbase \<le> addr \<and> usize_limit \<le> elf_vbase + fsize f then (b, Panic)
      else if elf_vbase \<le> addr \<and> addr \<le> elf_vbase + fsize f
      then if \<not> relative then (b, Err UnsupportedRelocationEntry)
           else if usize_limit \<le> offset + addend then (b, Panic)
           else ds_relocate_frames offset addr relative addend fs
                  (store_bytes b (fbase f + (addr - elf_vbase)) (u64_bytes (offset + addend)))
      else ds_relocate_frames offset addr relative addend fs b)"

definition ds_relocate ::
  "KState \<times> DataSecAllocator \<Rightarrow> nat \<Rightarrow> bool \<Rightarrow> nat \<Rightarrow> (KState \<times> DataSecAllocator) elf_result" where
  "ds_relocate s entry_offset relative addend = (case s of (k, d) \<Rightarrow>
     if usize_limit \<le> ds_offset d + entry_offset then (s, Panic)
     else (case ds_relocate_frames (ds_offset d) (ds_offset d + entry_offset) relative addend (ds_frames d) (k_bytes k) of
             (b, r) \<Rightarrow> ((k\<lparr>k_bytes := b\<rparr>, d), r)))"

text \<open>The remaining methods keep the library's default implementation, which does nothing.\<close>

fun ds_call :: "KState \<times> DataSecAllocator \<Rightarrow> elf_call \<Rightarrow> (KState \<times> DataSecAllocator) elf_result" where
  "ds_call s (ElfAllocate hs) = try_each ds_allocate_header s hs"
| "ds_call s (ElfLoadRegion flags destination region) = ds_load s flags destination region"
| "ds_call s (ElfRelocate off relative addend) = ds_relocate s off relative addend"
| "ds_call s (ElfMakeReadonly base sz) = (s, Ok ())"
| "ds_call s (ElfTls a b c d) = (s, Ok ())"

subsection \<open>The address space of a process\<close>

definition header_action :: "ElfFlags \<Rightarrow> MapAction option" where
  "header_action fl = (case (is_execute fl, is_write fl, is_read fl) of
       (False, False, True) \<Rightarrow> Some ReadUser
     | (True, False, True) \<Rightarrow> Some ReadExecuteUser
     | (False, True, True) \<Rightarrow> Some ReadWriteUser
     | (True, True, True) \<Rightarrow> Some ReadWriteExecuteUser
     | _ \<Rightarrow> None)"

text \<open>
  The frame for page \<open>i\<close> of a header: a prepared frame for a writeable header, whose index starts
  at 0 for every header, and a page of this replica's own for a read-only one.
\<close>

definition section_frame :: "bool \<Rightarrow> nat \<Rightarrow> KState \<times> Ring3Process \<Rightarrow> (KState \<times> Ring3Process) \<times> (ElfLoaderErr, Frame) result" where
  "section_frame writeable i s =
     (if writeable
      then if \<not> i < length (writeable_sections (snd s)) then (s, Panic)
           else if fsize (writeable_sections (snd s) ! i) \<noteq> LARGE_PAGE_SIZE then (s, Panic)
           else (s, Ok (writeable_sections (snd s) ! i))
      else expect (with_manager MemDram allocate_large_page s))"

definition map_section_page ::
  "ProgramHeader \<Rightarrow> MapAction \<Rightarrow> KState \<times> Ring3Process \<Rightarrow> nat \<Rightarrow> (KState \<times> Ring3Process) elf_result" where
  "map_section_page h action s i =
     and_then (section_frame (is_write (ph_flags h)) i s) (\<lambda>s f.
       expect (proc_map_frame s (p_offset (snd s) + page_base (virtual_addr h) + i * LARGE_PAGE_SIZE) f action))"

definition proc_allocate_header ::
  "KState \<times> Ring3Process \<Rightarrow> ProgramHeader \<Rightarrow> (KState \<times> Ring3Process) elf_result" where
  "proc_allocate_header s h =
     (if size_overflows (virtual_addr h) (mem_size h) then (s, Panic)
      else case header_action (ph_flags h) of
        None \<Rightarrow> (s, Panic)
      | Some action \<Rightarrow>
          (let large_pages = size_page (virtual_addr h) (mem_size h) div LARGE_PAGE_SIZE in
           and_then (expect (refill s 20 large_pages MemDram)) (\<lambda>s _.
             try_each (map_section_page h action) s [0..<large_pages])))"

text \<open>Byte \<open>i\<close> of a read-only region, written through the kernel's alias of the page.\<close>

definition load_byte :: "nat \<Rightarrow> KState \<times> Ring3Process \<Rightarrow> nat \<times> u8 \<Rightarrow> (KState \<times> Ring3Process) elf_result" where
  "load_byte destination s iv = (case s of (k, p) \<Rightarrow>
     (case vs_resolve (p_vspace p) (destination + fst iv) of
        Ok (paddr, _) \<Rightarrow> ((k\<lparr>k_bytes := (k_bytes k)(paddr := snd iv)\<rparr>, p), Ok ())
      | Err _ \<Rightarrow> (s, Err ElfStrError)
      | Panic \<Rightarrow> (s, Panic)))"

definition proc_load ::
  "KState \<times> Ring3Process \<Rightarrow> ElfFlags \<Rightarrow> nat \<Rightarrow> u8 list \<Rightarrow> (KState \<times> Ring3Process) elf_result" where
  "proc_load s flags dest region = (case s of (k, p) \<Rightarrow>
     let destination = p_offset p + dest in
     if usize_limit \<le> destination then (s, Panic)
     else if is_write flags then (s, Ok ())
     else if usize_limit \<le> destination + length region then (s, Panic)
     else try_each (load_byte destination) (k, p\<lparr>read_only_offset := destination + length region\<rparr>)
            (enumerate 0 region))"

definition proc_relocate ::
  "KState \<times> Ring3Process \<Rightarrow> nat \<Rightarrow> bool \<Rightarrow> nat \<Rightarrow> (KState \<times> Ring3Process) elf_result" where
  "proc_relocate s entry_offset relative addend = (case s of (k, p) \<Rightarrow>
     let addr = p_offset p + entry_offset in
     if usize_limit \<le> addr then (s, Panic)
     else if read_only_offset p \<le> addr then (s, Ok ())
     else (case vs_resolve (p_vspace p) addr of
         Ok (paddr, _) \<Rightarrow>
           (if \<not> relative then (s, Err UnsupportedRelocationEntry)
            else if usize_limit \<le> p_offset p + addend then (s, Panic)
            else ((k\<lparr>k_bytes := store_bytes (k_bytes k) paddr (u64_bytes (p_offset p + addend))\<rparr>, p), Ok ()))
       | _ \<Rightarrow> (s, Panic)))"

definition proc_make_readonly :: "KState \<times> Ring3Process \<Rightarrow> nat \<Rightarrow> nat \<Rightarrow> (KState \<times> Ring3Process) elf_result" where
  "proc_make_readonly s base sz =
     (if usize_limit \<le> p_offset (snd s) + base + sz \<or> (p_offset (snd s) + base + sz) mod BASE_PAGE_SIZE \<noteq> 0
      then (s, Panic) else (s, Ok ()))"

definition proc_tls :: "KState \<times> Ring3Process \<Rightarrow> nat \<Rightarrow> nat \<Rightarrow> nat \<Rightarrow> nat \<Rightarrow> (KState \<times> Ring3Process) elf_result" where
  "proc_tls s tdata_start tdata_length total_size al = (case s of (k, p) \<Rightarrow>
     if usize_limit \<le> p_offset p + tdata_start then (s, Panic)
     else ((k, p\<lparr>pinfo := (pinfo p)\<lparr>has_tls := True, tls_data := p_offset p + tdata_start, tls_data_len := tdata_length,
            tls_len_total := total_size, tls_alignment := al\<rparr>\<rparr>), Ok ()))"

fun proc_call :: "KState \<times> Ring3Process \<Rightarrow> elf_call \<Rightarrow> (KState \<times> Ring3Process) elf_result" where
  "proc_call s (ElfAllocate hs) = try_each proc_allocate_header s hs"
| "proc_call s (ElfLoadRegion flags destination region) = proc_load s flags destination region"
| "proc_call s (ElfRelocate off relative addend) = proc_relocate s off relative addend"
| "proc_call s (ElfMakeReadonly base sz) = proc_make_readonly s base sz"
| "proc_call s (ElfTls a b c d) = proc_tls s a b c d"

text \<open>
  \<open>Process::load\<close>.  \<open>bin\<close> is the parsed binary, \<open>None\<close> when parsing fails, and \<open>kernel_pml4\<close> the top
  table of the kernel's own address space when the core has a control block.
\<close>

definition install_kernel_mappings :: "(nat \<Rightarrow> entry) option \<Rightarrow> Ring3Process \<Rightarrow> Ring3Process" where
  "install_kernel_mappings kernel_pml4 p = (case kernel_pml4 of
       None \<Rightarrow> p
     | Some kp \<Rightarrow>
         (let t = page_table (p_vspace p) in
          p\<lparr>p_vspace := (p_vspace p)\<lparr>page_table := t\<lparr>pmem := (pmem t)
             (pml4 t := \<lambda>i. if 128 \<le> i \<and> i \<le> 135 then kp i else pmem t (pml4 t) i)\<rparr>\<rparr>\<rparr>))"

definition elf_to_kres :: "'s elf_result \<Rightarrow> KError \<Rightarrow> 's \<times> unit kres" where
  "elf_to_kres r e = (case r of (s, Ok _) \<Rightarrow> (s, Ok ()) | (s, Err _) \<Rightarrow> (s, Err e) | (s, Panic) \<Rightarrow> (s, Panic))"

definition proc_load_module ::
  "(nat \<Rightarrow> entry) option \<Rightarrow> KState \<times> Ring3Process \<Rightarrow> nat \<Rightarrow> ElfBinary option \<Rightarrow> Frame list \<Rightarrow> (KState \<times> Ring3Process) \<times> unit kres" where
  "proc_load_module kernel_pml4 s pid bin sections = (case s of (k, p) \<Rightarrow>
     let p1 = p\<lparr>p_pid := pid, writeable_sections := take MAX_WRITEABLE_SECTIONS_PER_PROCESS sections\<rparr> in
     if MAX_WRITEABLE_SECTIONS_PER_PROCESS < length sections then ((k, p1), Err (KError_from CapacityError))
     else case bin of
       None \<Rightarrow> ((k, p1), Err (KError_from ElfLoaderErr))
     | Some e \<Rightarrow>
         and_then (elf_to_kres (try_each proc_call
             (k, p1\<lparr>p_offset := if is_pie e then p_offset p1 else 0, p_entry_point := elf_entry_point e\<rparr>) (elf_calls e))
             (KError_from ElfLoaderErr))
           (\<lambda>s _. case s of (k, p) \<Rightarrow> ((k, install_kernel_mappings kernel_pml4 p), Ok ())))"

section \<open>Filling the writeable sections\<close>

text \<open>Where the prepared frames keep the byte of a virtual address of the binary.\<close>

fun elf_paddr :: "(nat \<times> Frame) list \<Rightarrow> nat \<Rightarrow> nat option" where
  "elf_paddr [] v = None"
| "elf_paddr ((b, f) # fs) v = (if b \<le> v \<and> v < b + fsize f then Some (fbase f + (v - b)) else elf_paddr fs v)"

definition sections_ok :: "(nat \<times> Frame) list \<Rightarrow> bool" where
  "sections_ok fs \<longleftrightarrow> sorted_wrt (\<lambda>x y. fst x + fsize (snd x) \<le> fst y \<and> frame_bytes (snd x) \<inter> frame_bytes (snd y) = {}) fs
     \<and> (\<forall>x \<in> set fs. fst x + fsize (snd x) < usize_limit)"

lemma sections_ok_Cons:
  "sections_ok ((b, f) # fs) \<longleftrightarrow> (\<forall>(c, g) \<in> set fs. b + fsize f \<le> c \<and> frame_bytes f \<inter> frame_bytes g = {})
     \<and> b + fsize f < usize_limit \<and> sections_ok fs"
  unfolding sections_ok_def case_prod_beta by (simp add: conj_ac)

lemma elf_paddr_SomeD:
  "elf_paddr fs v = Some a \<Longrightarrow> \<exists>(c, g) \<in> set fs. c \<le> v \<and> v < c + fsize g \<and> a = fbase g + (v - c) \<and> a \<in> frame_bytes g"
  by (induction fs v rule: elf_paddr.induct) (auto simp: frame_bytes_def split: if_splits)

lemma store_bytes_at: "j < length bs \<Longrightarrow> store_bytes b pa bs (pa + j) = bs ! j"
  by (simp add: store_bytes_def)

lemma store_bytes_outside: "a < pa \<or> pa + length bs \<le> a \<Longrightarrow> store_bytes b pa bs a = b a"
  by (auto simp: store_bytes_def)

lemma ds_copy_fills:
  assumes "sections_ok fs" and "dest + length region < usize_limit"
    and "\<And>v. dest \<le> v \<Longrightarrow> v < dest + length region \<Longrightarrow> elf_paddr fs v \<noteq> None"
  shows "\<exists>b'. ds_copy fs dest region b = (b', Ok ())
    \<and> (\<forall>j < length region. \<exists>pa. elf_paddr fs (dest + j) = Some pa \<and> b' pa = region ! j)
    \<and> (\<forall>a. (\<forall>v. dest \<le> v \<and> v < dest + length region \<longrightarrow> elf_paddr fs v \<noteq> Some a) \<longrightarrow> b' a = b a)"
  using assms
proof (induction fs arbitrary: dest region b)
  case Nil
  have "region = []" using Nil.prems(3) [of dest] by (cases region) auto
  then show ?case by simp
next
  case (Cons x fs)
  obtain e f where x: "x = (e, f)" by (cases x)
  have ok: "sections_ok fs" "e + fsize f < usize_limit"
    "\<And>c g. (c, g) \<in> set fs \<Longrightarrow> e + fsize f \<le> c \<and> frame_bytes f \<inter> frame_bytes g = {}"
    using Cons.prems(1) x by (auto simp: sections_ok_Cons)
  have rest: "v \<ge> e + fsize f" if "elf_paddr fs v = Some a" for v a
    using elf_paddr_SomeD [OF that] ok(3) by fastforce
  show ?case
  proof (cases "overlaps (dest, dest + length region) (e, e + fsize f)")
    case False
    have skip: "elf_paddr (x # fs) v = elf_paddr fs v" if "dest \<le> v" "v < dest + length region" for v
      using False that x by (auto simp: overlaps_def)
    have "\<And>v. dest \<le> v \<Longrightarrow> v < dest + length region \<Longrightarrow> elf_paddr fs v \<noteq> None" using Cons.prems(3) skip by auto
    from Cons.IH [OF ok(1) Cons.prems(2) this] skip False show ?thesis
      using ok(2) Cons.prems(2) x by (auto simp: le_add1)
  next
    case True
    have de: "e \<le> dest"
    proof (cases "region = []")
      case True with \<open>overlaps _ _\<close> show ?thesis by (simp add: overlaps_def)
    next
      case False
      then have "elf_paddr (x # fs) dest \<noteq> None" using Cons.prems(3) by simp
      then show ?thesis using rest [of dest] True x by (fastforce simp: overlaps_def split: if_splits)
    qed
    define c where "c = min (e + fsize f - dest) (length region)"
    have dl: "dest < e + fsize f" using True by (simp add: overlaps_def)
    have ce: "min (e + fsize f) (dest + length region) - dest = c" "c \<le> length region" "dest + c \<le> e + fsize f"
      using dl by (auto simp: c_def)
    have far: "e + fsize f \<le> v" if "dest + c \<le> v" "v < dest + length region" for v
      using that dl by (auto simp: c_def min_def split: if_splits)
    have later: "elf_paddr (x # fs) v = elf_paddr fs v" if "dest + c \<le> v" "v < dest + length region" for v
      using far [OF that] x by simp
    let ?b1 = "store_bytes b (fbase f + (dest - e)) (take c region)"
    have l: "dest + c + length (drop c region) = dest + length region" using ce(2) by simp
    have lim: "dest + c + length (drop c region) < usize_limit" using l Cons.prems(2) by linarith
    have cov: "elf_paddr fs v \<noteq> None" if "dest + c \<le> v" "v < dest + c + length (drop c region)" for v
    proof -
      have v: "v < dest + length region" using that(2) l by linarith
      have "elf_paddr (x # fs) v \<noteq> None" by (rule Cons.prems(3)) (use that(1) v in simp_all)
      then show ?thesis using later [OF that(1) v] by simp
    qed
    have IH: "\<exists>b'. ds_copy fs (dest + c) (drop c region) ?b1 = (b', Ok ())
        \<and> (\<forall>j < length (drop c region). \<exists>pa. elf_paddr fs (dest + c + j) = Some pa \<and> b' pa = drop c region ! j)
        \<and> (\<forall>a. (\<forall>v. dest + c \<le> v \<and> v < dest + c + length (drop c region) \<longrightarrow> elf_paddr fs v \<noteq> Some a) \<longrightarrow> b' a = ?b1 a)"
      by (rule Cons.IH [OF ok(1) lim]) (rule cov)
    obtain b' where b': "ds_copy fs (dest + c) (drop c region) ?b1 = (b', Ok ())"
      "\<And>j. j < length (drop c region) \<Longrightarrow> \<exists>pa. elf_paddr fs (dest + c + j) = Some pa \<and> b' pa = drop c region ! j"
      "\<And>a. (\<forall>v. dest + c \<le> v \<and> v < dest + c + length (drop c region) \<longrightarrow> elf_paddr fs v \<noteq> Some a) \<Longrightarrow> b' a = ?b1 a"
      using IH by blast
    have own: "b' a = ?b1 a" if "a \<in> frame_bytes f" for a
      by (rule b'(3)) (use elf_paddr_SomeD ok(3) that in fastforce)
    have mx: "max e dest - dest = 0" using de by simp
    have "ds_copy (x # fs) dest region b = (b', Ok ())"
      using True de ok(2) Cons.prems(2) b'(1) ce(1) mx x by (simp add: Let_def slice_def)
    moreover have "\<exists>pa. elf_paddr (x # fs) (dest + j) = Some pa \<and> b' pa = region ! j" if j: "j < length region" for j
    proof (cases "j < c")
      case True
      let ?pa = "fbase f + (dest - e) + j"
      have "?pa \<in> frame_bytes f" using True ce(3) de by (auto simp: frame_bytes_def)
      then have "b' ?pa = region ! j" using own store_bytes_at [of j "take c region" b "fbase f + (dest - e)"] True j by simp
      then show ?thesis using True ce(3) de x by (intro exI [of _ ?pa]) auto
    next
      case False
      then have "j - c < length (drop c region)" "dest + c + (j - c) = dest + j" using j by auto
      then obtain pa where "elf_paddr fs (dest + j) = Some pa" "b' pa = drop c region ! (j - c)"
        using b'(2) [of "j - c"] by metis
      then show ?thesis using later [of "dest + j"] False j by auto
    qed
    moreover have "b' a = b a" if a: "\<forall>v. dest \<le> v \<and> v < dest + length region \<longrightarrow> elf_paddr (x # fs) v \<noteq> Some a" for a
    proof -
      have "b' a = ?b1 a" by (rule b'(3)) (use a l later in \<open>metis add_leD1\<close>)
      moreover have "a < fbase f + (dest - e) \<or> fbase f + (dest - e) + c \<le> a"
      proof (rule ccontr)
        assume n: "\<not> ?thesis"
        define j where "j = a - (fbase f + (dest - e))"
        have "j < c" "a = fbase f + (dest + j - e)" using n de by (auto simp: j_def)
        then have "elf_paddr (x # fs) (dest + j) = Some a" using ce(3) de x by auto
        then show False using a \<open>j < c\<close> ce(2) by auto
      qed
      then have "?b1 a = b a" using ce(2) by (intro store_bytes_outside) auto
      ultimately show ?thesis by simp
    qed
    ultimately show ?thesis by blast
  qed
qed

section \<open>Sections in consecutive large pages\<close>

fun section_pages :: "nat \<Rightarrow> Frame list \<Rightarrow> (nat \<times> Frame) list" where
  "section_pages va [] = []"
| "section_pages va (f # fs) = (va, f) # section_pages (va + LARGE_PAGE_SIZE) fs"

lemma section_pages_snoc: "section_pages va (fs @ [f]) = section_pages va fs @ [(va + length fs * LARGE_PAGE_SIZE, f)]"
  by (induction fs arbitrary: va) auto

lemma map_snd_section_pages [simp]: "map snd (section_pages va fs) = fs"
  by (induction fs arbitrary: va) auto

definition large_frames :: "Frame list \<Rightarrow> bool" where
  "large_frames fs \<longleftrightarrow> (\<forall>f \<in> set fs. fsize f = LARGE_PAGE_SIZE)"

lemma section_pages_range:
  "x \<in> set (section_pages va fs) \<Longrightarrow> va \<le> fst x \<and> fst x + LARGE_PAGE_SIZE \<le> va + length fs * LARGE_PAGE_SIZE \<and> snd x \<in> set fs"
  by (induction fs arbitrary: va) fastforce+

lemma sections_ok_pages:
  assumes "large_frames fs" and "sorted_wrt (\<lambda>f g. frame_bytes f \<inter> frame_bytes g = {}) fs"
    and "va + length fs * LARGE_PAGE_SIZE < usize_limit"
  shows "sections_ok (section_pages va fs)"
  using assms
proof (induction fs arbitrary: va)
  case Nil
  then show ?case by (simp add: sections_ok_def)
next
  case (Cons f fs)
  have f: "fsize f = LARGE_PAGE_SIZE" using Cons.prems(1) by (simp add: large_frames_def)
  have "sections_ok (section_pages (va + LARGE_PAGE_SIZE) fs)"
    using Cons.prems by (intro Cons.IH) (simp_all add: large_frames_def algebra_simps)
  moreover have "va + fsize f \<le> c \<and> frame_bytes f \<inter> frame_bytes g = {}"
    if "(c, g) \<in> set (section_pages (va + LARGE_PAGE_SIZE) fs)" for c g
    using section_pages_range [OF that] f Cons.prems(2) by simp
  ultimately show ?case using f Cons.prems(3) by (auto simp: sections_ok_Cons)
qed

lemma elf_paddr_pages:
  "large_frames fs \<Longrightarrow> elf_paddr (section_pages va fs) v \<noteq> None \<longleftrightarrow> va \<le> v \<and> v < va + length fs * LARGE_PAGE_SIZE"
proof (induction fs arbitrary: va)
  case (Cons f fs)
  then show ?case using Cons.IH [of "va + LARGE_PAGE_SIZE"] by (auto simp: large_frames_def split: if_splits)
qed simp

text \<open>The same pages, mapped by a process that places the binary at \<open>off\<close>.\<close>

lemma frame_at_elf_paddr:
  assumes "large_frames fs"
  shows "frame_at (off + va) (map (\<lambda>f. (f, r)) fs) (off + v) = map_option (\<lambda>pa. (pa, r)) (elf_paddr (section_pages va fs) v)"
  using assms
proof (induction fs arbitrary: va)
  case (Cons f fs)
  then show ?case using Cons.IH [of "va + LARGE_PAGE_SIZE"] by (simp add: large_frames_def add.assoc)
qed simp

lemma frame_at_range:
  assumes "large_frames fs"
  shows "frame_at va (map (\<lambda>f. (f, r)) fs) v \<noteq> None \<longleftrightarrow> va \<le> v \<and> v < va + length fs * LARGE_PAGE_SIZE"
  using frame_at_elf_paddr [OF assms, of 0 va r v] elf_paddr_pages [OF assms, of va v] by simp

text \<open>What \<open>DataSecAllocator\<close> takes from the page caches.\<close>

lemma ds_take_pages_result:
  assumes "memory_ok MemDram (k_mem k)" and "ds_take_pages n va (k, d) = ((k', d'), Ok ())"
  shows "\<exists>fs. length fs = n \<and> d' = d\<lparr>ds_frames := ds_frames d @ section_pages va fs\<rparr> \<and> large_frames fs
    \<and> sorted_wrt (\<lambda>f g. frame_bytes f \<inter> frame_bytes g = {}) fs
    \<and> (\<forall>f \<in> set fs. frame_bytes f \<subseteq> free_memory MemDram (k_mem k)) \<and> k_bytes k' = k_bytes k \<and> memory_ok MemDram (k_mem k')"
  using assms
proof (induction n arbitrary: va k d)
  case 0
  then show ?case by (auto simp: large_frames_def)
next
  case (Suc n)
  obtain k1 d1 f where 1: "with_manager MemDram allocate_large_page (k, d) = ((k1, d1), Ok f)"
    "ds_take_pages n (va + LARGE_PAGE_SIZE) (k1, d1\<lparr>ds_frames := ds_frames d1 @ [(va, f)]\<rparr>) = ((k', d'), Ok ())"
    using Suc.prems(2) by (auto simp: and_then_Ok)
  note t = with_manager_take [OF 1(1) Suc.prems(1)] with_manager_frame(1) [OF 1(1)]
  obtain fs where fs: "length fs = n" "d' = d\<lparr>ds_frames := ds_frames d @ section_pages va (f # fs)\<rparr>" "large_frames fs"
    "sorted_wrt (\<lambda>f g. frame_bytes f \<inter> frame_bytes g = {}) fs"
    "\<forall>g \<in> set fs. frame_bytes g \<subseteq> free_memory MemDram (k_mem k1)" "k_bytes k' = k_bytes k1" "memory_ok MemDram (k_mem k')"
    using Suc.IH [OF _ 1(2)] t by auto
  have "frame_bytes f \<inter> frame_bytes g = {}" if "g \<in> set fs" for g using fs(5) that t(6) by blast
  moreover have "frame_bytes g \<subseteq> free_memory MemDram (k_mem k)" if "g \<in> set (f # fs)" for g using fs(5) that t(5,7) by auto
  ultimately show ?case using fs t by (intro exI [of _ "f # fs"]) (simp add: large_frames_def)
qed

definition header_pages :: "ProgramHeader \<Rightarrow> nat" where
  "header_pages h = size_page (virtual_addr h) (mem_size h) div LARGE_PAGE_SIZE"

lemma ds_skip_readonly:
  "\<lbrakk>try_each ds_allocate_header s hs = (s', Ok ()); \<forall>h \<in> set hs. \<not> is_write (ph_flags h)\<rbrakk> \<Longrightarrow> s' = s"
  by (induction hs arbitrary: s) (auto simp: and_then_Ok ds_allocate_header_def split: if_splits)

lemma filter_singleE:
  assumes "filter P xs = [x]"
  obtains as bs where "xs = as @ x # bs" "P x" "\<forall>a \<in> set as. \<not> P a" "\<forall>b \<in> set bs. \<not> P b"
  using assms by (metis filter_empty_conv filter_eq_ConsD)

lemma ds_allocate_result:
  assumes "memory_ok MemDram (k_mem k)" and "filter (\<lambda>h. is_write (ph_flags h)) hs = [h]"
    and "try_each ds_allocate_header (k, \<lparr>ds_offset = off, ds_frames = []\<rparr>) hs = ((k', d), Ok ())"
  shows "\<exists>fs. length fs = header_pages h \<and> d = \<lparr>ds_offset = off, ds_frames = section_pages (page_base (virtual_addr h)) fs\<rparr>
    \<and> large_frames fs \<and> sorted_wrt (\<lambda>f g. frame_bytes f \<inter> frame_bytes g = {}) fs
    \<and> \<not> size_overflows (virtual_addr h) (mem_size h)"
proof -
  obtain as bs where hs: "hs = as @ h # bs" "is_write (ph_flags h)" "\<forall>a \<in> set as. \<not> is_write (ph_flags a)"
    "\<forall>b \<in> set bs. \<not> is_write (ph_flags b)" by (rule filter_singleE [OF assms(2)], rule that)
  let ?d = "\<lparr>ds_offset = off, ds_frames = []\<rparr>"
  obtain s1 where 1: "try_each ds_allocate_header (k, ?d) as = (s1, Ok ())"
    "try_each ds_allocate_header s1 (h # bs) = ((k', d), Ok ())"
    using assms(3) hs(1) by (auto simp: try_each_append and_then_Ok)
  obtain s2 where 2: "ds_allocate_header s1 h = (s2, Ok ())" "try_each ds_allocate_header s2 bs = ((k', d), Ok ())"
    using 1(2) by (auto simp: and_then_Ok)
  have s: "s1 = (k, ?d)" "s2 = (k', d)" using ds_skip_readonly [OF 1(1) hs(3)] ds_skip_readonly [OF 2(2) hs(4)] by simp_all
  obtain k3 d3 where 3: "refill (k, ?d) 0 (header_pages h) MemDram = ((k3, d3), Ok ())" "\<not> size_overflows (virtual_addr h) (mem_size h)"
    "ds_take_pages (header_pages h) (page_base (virtual_addr h)) (k3, d3) = ((k', d), Ok ())"
    using 2(1) s hs(2) by (auto simp: ds_allocate_header_def header_pages_def and_then_Ok Let_def split: if_splits)
  note r = refill_result [OF 3(1)]
  have "memory_ok MemDram (k_mem k3)" using r(4) assms(1) by simp
  from ds_take_pages_result [OF this 3(3)] show ?thesis using r(1) 3(2) by auto
qed

section \<open>Mapping the sections of a binary\<close>

lemma map_fresh_page:
  assumes "vspace_inv (k_heap k, p_vspace p)" and "3 * Suc n \<le> length (da (page_table (p_vspace p)))"
    and "fsize f = LARGE_PAGE_SIZE" and "base mod LARGE_PAGE_SIZE = 0" and "base + LARGE_PAGE_SIZE \<le> VADDR_LIMIT" and "granted r = r"
    and "\<forall>v. base \<le> v \<and> v < base + LARGE_PAGE_SIZE \<longrightarrow> vs_resolve (p_vspace p) v = Err NotMapped"
    and "proc_map_frame (k, p) base f r = (s', Ok ())"
  shows "\<exists>k' vs. s' = (k', p\<lparr>p_vspace := vs\<rparr>) \<and> k_bytes k' = k_bytes k \<and> k_mem k' = k_mem k \<and> vspace_inv (k_heap k', vs)
    \<and> 3 * n \<le> length (da (page_table vs)) \<and> fbase f mod LARGE_PAGE_SIZE = 0
    \<and> (\<forall>v < VADDR_LIMIT. vs_resolve vs v =
         (if base \<le> v \<and> v < base + LARGE_PAGE_SIZE then Ok (fbase f + (v - base), r) else vs_resolve (p_vspace p) v))"
proof -
  have al: "fbase f mod LARGE_PAGE_SIZE = 0"
    using assms(3,8) by (auto simp: proc_map_frame_def vs_map_frame_def split: if_splits)
  have ok: "entry_ok (base, fbase f, fsize f, r)" using assms(3-6) al by (simp add: entry_ok_def)
  have room: "3 * Suc n \<le> length (da (page_table (snd (k_heap k, p_vspace p))))" using assms(2) by simp
  have free: "\<forall>v. base \<le> v \<and> v < base + fsize f \<longrightarrow> vs_resolve (snd (k_heap k, p_vspace p)) v = Err NotMapped"
    using assms(3,7) by simp
  obtain h vs where m: "vs_map_frame (k_heap k, p_vspace p) base f r = ((h, vs), Ok ())" "vspace_inv (h, vs)"
    "3 * n \<le> length (da (page_table vs))"
    "\<forall>v < VADDR_LIMIT. vs_resolve vs v =
       (if base \<le> v \<and> v < base + LARGE_PAGE_SIZE then Ok (fbase f + (v - base), r) else vs_resolve (p_vspace p) v)"
    using vspace.map_frame_adds [OF assms(1) room ok free] assms(3) by auto
  have "s' = (k\<lparr>k_heap := h\<rparr>, p\<lparr>p_vspace := vs\<rparr>)" using assms(8) m(1) by (simp add: proc_map_frame_def)
  then show ?thesis using m(2-4) al by (intro exI [of _ "k\<lparr>k_heap := h\<rparr>"] exI [of _ vs]) simp
qed

lemma section_frame_result:
  assumes "section_frame w i (k, p) = ((k', p'), Ok f)"
  shows "p' = p" and "k_heap k' = k_heap k" and "k_bytes k' = k_bytes k" and "fsize f = LARGE_PAGE_SIZE"
    and "w \<Longrightarrow> f = writeable_sections p ! i \<and> i < length (writeable_sections p)"
  using assms with_manager_frame(1) [of MemDram k p k' p' f] by (auto simp: section_frame_def split: if_splits)

text \<open>
  The loop over the pages of a header, from page \<open>m\<close> on: every page goes to a large frame, and for a
  writeable header these are the prepared frames in their order.
\<close>

lemma map_section_pages:
  assumes "try_each (map_section_page h r) (k, p) [m..<m + n] = ((k', p'), Ok ())"
    and "vspace_inv (k_heap k, p_vspace p)" and "3 * (n + c) \<le> length (da (page_table (p_vspace p)))"
    and "base = p_offset p + page_base (virtual_addr h) + m * LARGE_PAGE_SIZE"
    and "base mod LARGE_PAGE_SIZE = 0" and "base + n * LARGE_PAGE_SIZE \<le> VADDR_LIMIT" and "granted r = r"
    and "\<forall>v. base \<le> v \<and> v < base + n * LARGE_PAGE_SIZE \<longrightarrow> vs_resolve (p_vspace p) v = Err NotMapped"
  shows "\<exists>fs vs. length fs = n \<and> large_frames fs \<and> p' = p\<lparr>p_vspace := vs\<rparr> \<and> k_bytes k' = k_bytes k
    \<and> vspace_inv (k_heap k', vs) \<and> 3 * c \<le> length (da (page_table vs))
    \<and> (is_write (ph_flags h) \<longrightarrow> m + n \<le> length (writeable_sections p) \<or> n = 0)
    \<and> (is_write (ph_flags h) \<longrightarrow> fs = take n (drop m (writeable_sections p)))
    \<and> (\<forall>v < VADDR_LIMIT. vs_resolve vs v =
         (case frame_at base (map (\<lambda>f. (f, r)) fs) v of Some x \<Rightarrow> Ok x | None \<Rightarrow> vs_resolve (p_vspace p) v))"
  using assms
proof (induction n arbitrary: m k p base)
  case 0
  then show ?case by (auto simp: large_frames_def intro: exI [of _ "p_vspace p"])
next
  case (Suc n)
  have upt: "[m..<m + Suc n] = m # [Suc m..<Suc m + n]" by (simp add: upt_conv_Cons del: upt_Suc)
  obtain s1 where 1: "map_section_page h r (k, p) m = (s1, Ok ())"
    "try_each (map_section_page h r) s1 [Suc m..<Suc m + n] = ((k', p'), Ok ())"
    using Suc.prems(1) unfolding upt by (auto simp: and_then_Ok)
  obtain s2 f where "section_frame (is_write (ph_flags h)) m (k, p) = (s2, Ok f)"
    "proc_map_frame s2 (p_offset (snd s2) + page_base (virtual_addr h) + m * LARGE_PAGE_SIZE) f r = (s1, Ok ())"
    using 1(1) by (auto simp: map_section_page_def and_then_Ok)
  moreover obtain k2 p2 where "s2 = (k2, p2)" by (cases s2)
  ultimately have 2: "section_frame (is_write (ph_flags h)) m (k, p) = ((k2, p2), Ok f)" by simp
  note sf = section_frame_result [OF 2]
  have mp: "proc_map_frame (k2, p) base f r = (s1, Ok ())"
    using \<open>proc_map_frame s2 _ f r = _\<close> \<open>s2 = _\<close> sf(1) Suc.prems(4) by simp
  have inv: "vspace_inv (k_heap k2, p_vspace p)" using Suc.prems(2) sf(2) by simp
  have lim: "base + LARGE_PAGE_SIZE \<le> VADDR_LIMIT" "base + LARGE_PAGE_SIZE + n * LARGE_PAGE_SIZE \<le> VADDR_LIMIT"
    using Suc.prems(6) by simp_all
  have room: "3 * Suc (n + c) \<le> length (da (page_table (p_vspace p)))" using Suc.prems(3) by simp
  have free: "\<forall>v. base \<le> v \<and> v < base + LARGE_PAGE_SIZE \<longrightarrow> vs_resolve (p_vspace p) v = Err NotMapped"
    using Suc.prems(8) by simp
  obtain k1 vs1 where s1: "s1 = (k1, p\<lparr>p_vspace := vs1\<rparr>)" "k_bytes k1 = k_bytes k2" "vspace_inv (k_heap k1, vs1)"
    "3 * (n + c) \<le> length (da (page_table vs1))"
    "\<And>v. v < VADDR_LIMIT \<Longrightarrow> vs_resolve vs1 v =
       (if base \<le> v \<and> v < base + LARGE_PAGE_SIZE then Ok (fbase f + (v - base), r) else vs_resolve (p_vspace p) v)"
    using map_fresh_page [OF inv room sf(4) Suc.prems(5) lim(1) Suc.prems(7) free mp] by blast
  let ?p1 = "p\<lparr>p_vspace := vs1\<rparr>" and ?b1 = "base + LARGE_PAGE_SIZE"
  have free1: "\<forall>v. ?b1 \<le> v \<and> v < ?b1 + n * LARGE_PAGE_SIZE \<longrightarrow> vs_resolve (p_vspace ?p1) v = Err NotMapped"
  proof (intro allI impI)
    fix v assume v: "?b1 \<le> v \<and> v < ?b1 + n * LARGE_PAGE_SIZE"
    then have "v < VADDR_LIMIT" "base \<le> v \<and> v < base + Suc n * LARGE_PAGE_SIZE" using lim(2) by simp_all
    then show "vs_resolve (p_vspace ?p1) v = Err NotMapped" using s1(5) [of v] v Suc.prems(8) by simp
  qed
  have b1: "?b1 = p_offset ?p1 + page_base (virtual_addr h) + Suc m * LARGE_PAGE_SIZE" "?b1 mod LARGE_PAGE_SIZE = 0"
    using Suc.prems(4,5) by simp_all
  have sel: "p_vspace ?p1 = vs1" "\<And>vs. ?p1\<lparr>p_vspace := vs\<rparr> = p\<lparr>p_vspace := vs\<rparr>"
    "writeable_sections ?p1 = writeable_sections p" by simp_all
  obtain fs vs where IH: "length fs = n" "large_frames fs" "p' = p\<lparr>p_vspace := vs\<rparr>" "k_bytes k' = k_bytes k1"
    "vspace_inv (k_heap k', vs)" "3 * c \<le> length (da (page_table vs))"
    "is_write (ph_flags h) \<longrightarrow> fs = take n (drop (Suc m) (writeable_sections p))"
    "is_write (ph_flags h) \<longrightarrow> Suc m + n \<le> length (writeable_sections p) \<or> n = 0"
    "\<And>v. v < VADDR_LIMIT \<Longrightarrow> vs_resolve vs v =
       (case frame_at ?b1 (map (\<lambda>f. (f, r)) fs) v of Some x \<Rightarrow> Ok x | None \<Rightarrow> vs_resolve vs1 v)"
    using Suc.IH [OF 1(2) [unfolded s1(1)] _ _ b1 lim(2) Suc.prems(7) free1, unfolded sel, OF s1(3,4)] by blast
  have res: "vs_resolve vs v = (case frame_at base (map (\<lambda>f. (f, r)) (f # fs)) v of Some x \<Rightarrow> Ok x | None \<Rightarrow> vs_resolve (p_vspace p) v)"
    if v: "v < VADDR_LIMIT" for v
    using IH(9) [OF v] s1(5) [OF v] sf(4) frame_at_above [of ?b1 "map (\<lambda>f. (f, r)) fs" v] by (auto split: option.splits)
  have "is_write (ph_flags h) \<longrightarrow> f # fs = take (Suc n) (drop m (writeable_sections p))"
    using IH(7) sf(5) by (simp add: Cons_nth_drop_Suc [symmetric])
  moreover have "is_write (ph_flags h) \<longrightarrow> m + Suc n \<le> length (writeable_sections p)" using IH(8) sf(5) by auto
  ultimately show ?case using IH sf(3,4) s1(2) res
    by (intro exI [of _ "f # fs"] exI [of _ vs]) (simp add: large_frames_def)
qed

definition header_window :: "nat \<Rightarrow> ProgramHeader \<Rightarrow> nat set" where
  "header_window off h = {off + page_base (virtual_addr h) ..< off + page_base (virtual_addr h) + header_pages h * LARGE_PAGE_SIZE}"

lemma page_base_mod [simp]: "page_base v mod LARGE_PAGE_SIZE = 0"
  by (simp add: page_base_def minus_mod_eq_mult_div)

lemma granted_header: "header_action fl = Some r \<Longrightarrow> granted r = r"
  by (auto simp: header_action_def granted_def split: bool.splits)

text \<open>What mapping one header does to the address space of the process.\<close>

definition header_mapped :: "Ring3Process \<Rightarrow> ProgramHeader \<Rightarrow> VSpace \<Rightarrow> bool" where
  "header_mapped p h vs \<longleftrightarrow> (\<exists>fs r. header_action (ph_flags h) = Some r \<and> length fs = header_pages h \<and> large_frames fs
     \<and> (is_write (ph_flags h) \<longrightarrow> fs = take (header_pages h) (writeable_sections p))
     \<and> (\<forall>v \<in> header_window (p_offset p) h. \<exists>x. vs_resolve vs v = Ok x
          \<and> frame_at (p_offset p + page_base (virtual_addr h)) (map (\<lambda>f. (f, r)) fs) v = Some x))"

lemma proc_allocate_header_result:
  assumes "proc_allocate_header (k, p) h = ((k', p'), Ok ())" and "vspace_inv (k_heap k, p_vspace p)"
    and "3 * (header_pages h + c) \<le> length (da (page_table (p_vspace p)))" and "p_offset p mod LARGE_PAGE_SIZE = 0"
    and "\<forall>v \<in> header_window (p_offset p) h. v < VADDR_LIMIT \<and> vs_resolve (p_vspace p) v = Err NotMapped"
  shows "\<exists>vs. p' = p\<lparr>p_vspace := vs\<rparr> \<and> vspace_inv (k_heap k', vs) \<and> 3 * c \<le> length (da (page_table vs)) \<and> header_mapped p h vs
    \<and> (\<forall>v < VADDR_LIMIT. v \<notin> header_window (p_offset p) h \<longrightarrow> vs_resolve vs v = vs_resolve (p_vspace p) v)"
proof -
  let ?n = "header_pages h" and ?b = "p_offset p + page_base (virtual_addr h)"
  obtain r k1 p1 where r: "header_action (ph_flags h) = Some r" "refill (k, p) 20 ?n MemDram = ((k1, p1), Ok ())"
    "try_each (map_section_page h r) (k1, p1) [0..<?n] = ((k', p'), Ok ())"
    using assms(1) by (auto simp: proc_allocate_header_def header_pages_def and_then_Ok Let_def split: if_splits option.splits)
  note rr = refill_result [OF r(2)]
  have e: "try_each (map_section_page h r) (k1, p) [0..<0 + ?n] = ((k', p'), Ok ())" using r(3) rr(1) by simp
  have inv: "vspace_inv (k_heap k1, p_vspace p)" using assms(2) rr(2) by simp
  have b: "?b = p_offset p + page_base (virtual_addr h) + 0 * LARGE_PAGE_SIZE" "?b mod LARGE_PAGE_SIZE = 0"
    using assms(4) by (simp_all add: mod_add_eq [symmetric])
  have w: "?b \<le> v \<and> v < ?b + ?n * LARGE_PAGE_SIZE \<longleftrightarrow> v \<in> header_window (p_offset p) h" for v by (auto simp: header_window_def)
  show ?thesis
  proof (cases "?n = 0")
    case True
    then have "k' = k1 \<and> p' = p" using e by simp
    then show ?thesis using inv assms(3) True r(1)
      by (intro exI [of _ "p_vspace p"]) (auto simp: header_mapped_def header_window_def large_frames_def)
  next
    case False
    then have "?b + ?n * LARGE_PAGE_SIZE - 1 \<in> header_window (p_offset p) h" by (auto simp: header_window_def)
    then have lim: "?b + ?n * LARGE_PAGE_SIZE \<le> VADDR_LIMIT" using assms(5) by fastforce
    have free: "\<forall>v. ?b \<le> v \<and> v < ?b + ?n * LARGE_PAGE_SIZE \<longrightarrow> vs_resolve (p_vspace p) v = Err NotMapped" using assms(5) w by blast
    obtain fs vs where f: "length fs = ?n" "large_frames fs" "p' = p\<lparr>p_vspace := vs\<rparr>" "vspace_inv (k_heap k', vs)"
      "3 * c \<le> length (da (page_table vs))" "is_write (ph_flags h) \<longrightarrow> fs = take ?n (drop 0 (writeable_sections p))"
      "\<And>v. v < VADDR_LIMIT \<Longrightarrow> vs_resolve vs v =
         (case frame_at ?b (map (\<lambda>f. (f, r)) fs) v of Some x \<Rightarrow> Ok x | None \<Rightarrow> vs_resolve (p_vspace p) v)"
      using map_section_pages [OF e inv assms(3) b lim granted_header [OF r(1)] free] by blast
    have at: "frame_at ?b (map (\<lambda>f. (f, r)) fs) v \<noteq> None \<longleftrightarrow> v \<in> header_window (p_offset p) h" for v
      using frame_at_range [OF f(2), of ?b r v] f(1) w by simp
    have in_w: "\<exists>x. vs_resolve vs v = Ok x \<and> frame_at ?b (map (\<lambda>f. (f, r)) fs) v = Some x" if v: "v \<in> header_window (p_offset p) h" for v
      using at [of v] v f(7) [of v] assms(5) by (auto split: option.splits)
    have "vs_resolve vs v = vs_resolve (p_vspace p) v" if "v < VADDR_LIMIT" "v \<notin> header_window (p_offset p) h" for v
      using at [of v] f(7) [OF that(1)] that(2) by (simp split: option.splits)
    moreover have "header_mapped p h vs" unfolding header_mapped_def using r(1) f(1,2,6) in_w by auto
    ultimately show ?thesis using f(3-5) by blast
  qed
qed

lemma proc_allocate_result:
  assumes "try_each proc_allocate_header (k, p) hs = ((k', p'), Ok ())" and "vspace_inv (k_heap k, p_vspace p)"
    and "3 * sum_list (map header_pages hs) \<le> length (da (page_table (p_vspace p)))" and "p_offset p mod LARGE_PAGE_SIZE = 0"
    and "sorted_wrt (\<lambda>g h. header_window (p_offset p) g \<inter> header_window (p_offset p) h = {}) hs"
    and "\<forall>h \<in> set hs. \<forall>v \<in> header_window (p_offset p) h. v < VADDR_LIMIT \<and> vs_resolve (p_vspace p) v = Err NotMapped"
  shows "(\<forall>h \<in> set hs. header_mapped p h (p_vspace p'))
    \<and> (\<forall>v < VADDR_LIMIT. (\<forall>h \<in> set hs. v \<notin> header_window (p_offset p) h) \<longrightarrow> vs_resolve (p_vspace p') v = vs_resolve (p_vspace p) v)"
  using assms
proof (induction hs arbitrary: k p)
  case (Cons g hs)
  obtain s1 where "proc_allocate_header (k, p) g = (s1, Ok ())" "try_each proc_allocate_header s1 hs = ((k', p'), Ok ())"
    using Cons.prems(1) by (auto simp: and_then_Ok)
  moreover obtain k1 p1 where "s1 = (k1, p1)" by (cases s1)
  ultimately have 1: "proc_allocate_header (k, p) g = ((k1, p1), Ok ())" "try_each proc_allocate_header (k1, p1) hs = ((k', p'), Ok ())"
    by simp_all
  have r: "3 * (header_pages g + sum_list (map header_pages hs)) \<le> length (da (page_table (p_vspace p)))"
    using Cons.prems(3) by simp
  have fg: "\<forall>v \<in> header_window (p_offset p) g. v < VADDR_LIMIT \<and> vs_resolve (p_vspace p) v = Err NotMapped"
    using Cons.prems(6) by simp
  obtain vs1 where v1: "p1 = p\<lparr>p_vspace := vs1\<rparr>" "vspace_inv (k_heap k1, vs1)" "3 * sum_list (map header_pages hs) \<le> length (da (page_table vs1))"
    "header_mapped p g vs1" "\<And>v. \<lbrakk>v < VADDR_LIMIT; v \<notin> header_window (p_offset p) g\<rbrakk> \<Longrightarrow> vs_resolve vs1 v = vs_resolve (p_vspace p) v"
    using proc_allocate_header_result [OF 1(1) Cons.prems(2) r Cons.prems(4) fg] by blast
  have o: "p_offset p1 = p_offset p" "p_vspace p1 = vs1" "writeable_sections p1 = writeable_sections p" using v1(1) by simp_all
  have apart: "v \<notin> header_window (p_offset p) g" if "h \<in> set hs" "v \<in> header_window (p_offset p) h" for h v
    using Cons.prems(5) that by auto
  have free: "\<forall>h \<in> set hs. \<forall>v \<in> header_window (p_offset p) h. v < VADDR_LIMIT \<and> vs_resolve vs1 v = Err NotMapped"
    using Cons.prems(6) v1(5) apart by simp
  have IH: "\<forall>h \<in> set hs. header_mapped p1 h (p_vspace p')"
    "\<And>v. \<lbrakk>v < VADDR_LIMIT; \<forall>h \<in> set hs. v \<notin> header_window (p_offset p) h\<rbrakk> \<Longrightarrow> vs_resolve (p_vspace p') v = vs_resolve vs1 v"
    using Cons.IH [OF 1(2)] v1(2,3) Cons.prems(4,5) free unfolding o by auto
  have same: "vs_resolve (p_vspace p') v = vs_resolve vs1 v" if v: "v \<in> header_window (p_offset p) g" for v
    using fg v apart by (intro IH(2)) blast+
  have "header_mapped p g (p_vspace p')" using v1(4) same unfolding header_mapped_def by metis
  moreover have "header_mapped p1 h vs \<longleftrightarrow> header_mapped p h vs" for h vs unfolding header_mapped_def o ..
  ultimately show ?case using IH v1(5) by simp
qed simp

lemma header_covers:
  "virtual_addr h + mem_size h \<le> page_base (virtual_addr h) + header_pages h * LARGE_PAGE_SIZE"
proof -
  let ?v = "virtual_addr h"
  have "?v = page_base ?v + ?v mod LARGE_PAGE_SIZE" by (simp add: page_base_def)
  moreover have "mem_size h + ?v mod LARGE_PAGE_SIZE \<le> size_page ?v (mem_size h)" by (simp add: size_page_def round_up_ge)
  moreover have "header_pages h * LARGE_PAGE_SIZE = size_page ?v (mem_size h)"
    by (simp add: header_pages_def size_page_def round_up_dvd)
  ultimately show ?thesis by linarith
qed


definition sample_header :: ProgramHeader where
  "sample_header = \<lparr>virtual_addr = LARGE_PAGE_SIZE, mem_size = 16, ph_flags = \<lparr>is_execute = False, is_write = True, is_read = True\<rparr>\<rparr>"

definition sample_frame :: Frame where
  "sample_frame = \<lparr>fbase = 4194304, fsize = LARGE_PAGE_SIZE, affinity = 0\<rparr>"

definition loader_kstate :: KState where
  "loader_kstate = \<lparr>k_heap = [], k_mem = (Kcb_new ((TCache_new 0)\<lparr>large_page_addresses := [4194304]\<rparr>) 0, []), k_bytes = (\<lambda>_. 0)\<rparr>"

lemma sample_header_facts:
  "header_pages sample_header = 1" "header_window ELF_OFFSET sample_header = {ELF_OFFSET + LARGE_PAGE_SIZE ..< ELF_OFFSET + 2 * LARGE_PAGE_SIZE}"
  "header_action (ph_flags sample_header) = Some ReadWriteUser" "is_write (ph_flags sample_header)" "\<not> size_overflows (virtual_addr sample_header) (mem_size sample_header)"
  "page_base (virtual_addr sample_header) = LARGE_PAGE_SIZE"
  by (simp_all add: sample_header_def header_pages_def header_window_def header_action_def size_page_def page_base_def round_up_def size_overflows_def)

lemma loader_refill: "refill (loader_kstate, p) bp lp MemDram = ((loader_kstate, p), Ok ())"
  by (simp add: refill_def loader_kstate_def try_refill_tcache_def Kcb_new_def Arena_uninit_with_node_def Let_def)

lemma loader_allocate:
  "\<exists>k1. try_each ds_allocate_header (loader_kstate, \<lparr>ds_offset = ELF_OFFSET, ds_frames = []\<rparr>) [sample_header]
     = ((k1, \<lparr>ds_offset = ELF_OFFSET, ds_frames = [(LARGE_PAGE_SIZE, sample_frame)]\<rparr>), Ok ())"
proof -
  have t: "ds_take_pages 1 LARGE_PAGE_SIZE s = and_then (expect (with_manager MemDram allocate_large_page s))
      (\<lambda>s f. case s of (k, d) \<Rightarrow> ((k, d\<lparr>ds_frames := ds_frames d @ [(LARGE_PAGE_SIZE, f)]\<rparr>), Ok ()))" for s by simp
  let ?d = "\<lparr>ds_offset = ELF_OFFSET, ds_frames = []\<rparr>"
  have "\<exists>k1. with_manager MemDram allocate_large_page (loader_kstate, ?d) = ((k1, ?d), Ok sample_frame)"
    by (simp add: with_manager_def loader_kstate_def mem_manager_def Kcb_new_def Arena_uninit_with_node_def allocate_large_page_def
        paddr_to_large_page_def Frame_new_def MCache_new_def sample_frame_def)
  then show ?thesis
    using sample_header_facts(4,5)
    by (auto simp: ds_allocate_header_def loader_refill header_pages_def [symmetric] sample_header_facts(1,6) t)
qed


text \<open>
  The test whether a relocation lies in a prepared frame includes the first address behind the frame.
  A relocation of the first word of a second page is therefore also written behind the first frame,
  into memory that does not belong to the process.
\<close>
lemma relocation_overruns_frame:
  assumes "off mod LARGE_PAGE_SIZE = 0" and "va mod LARGE_PAGE_SIZE = 0" and "fsize f = LARGE_PAGE_SIZE" and "fsize g = LARGE_PAGE_SIZE"
    and "off + va + 2 * LARGE_PAGE_SIZE < usize_limit" and "off + addend < usize_limit"
  shows "ds_relocate (k, \<lparr>ds_offset = off, ds_frames = section_pages va [f, g]\<rparr>) (va + LARGE_PAGE_SIZE) True addend =
    ((k\<lparr>k_bytes := store_bytes (store_bytes (k_bytes k) (fbase f + LARGE_PAGE_SIZE) (u64_bytes (off + addend)))
        (fbase g) (u64_bytes (off + addend))\<rparr>, \<lparr>ds_offset = off, ds_frames = section_pages va [f, g]\<rparr>), Ok ())"
proof -
  have m: "(off + va) mod LARGE_PAGE_SIZE = 0" using assms(1,2) by (metis add.right_neutral mod_add_eq mod_mod_trivial)
  then have b: "page_base (off + va) = off + va" "page_base (off + (va + LARGE_PAGE_SIZE)) = off + va + LARGE_PAGE_SIZE"
    by (simp_all add: page_base_def add.assoc [symmetric])
  show ?thesis using assms(3-6) b by (simp add: ds_relocate_def Let_def add.assoc)
qed

end
