(* ===== verification/NrProcs.thy ===== *)
theory NrProcs
  imports ElfLoad CnrFs
begin

text \<open>
  The replicated process (\<open>kernel/src/nrproc.rs\<close>): the operations that its log carries, what they do
  to a replica, the functions through which the rest of the kernel executes them, and the creation
  of a process with its executors (\<open>kernel/src/process.rs\<close>).
\<close>

section \<open>Operations\<close>

datatype proc_ReadOps = ReadProcessInfo | MemResolve nat

datatype proc_Op =
    ProcRaiseIrq
  | Load nat "ElfBinary option" "Frame list"
  | AssignExecutor nat nat
  | Destroy
  | AllocateFrameToProcess Frame
  | DispatcherAllocation Frame
  | MemMapFrame nat Frame MapAction
  | MemMapDevice Frame MapAction
  | MemMapFrameId nat nat MapAction
  | MemAdjust
  | MemUnmap nat

datatype proc_NodeResult =
    Loaded
  | Destroyed
  | ProcessInfoResult ProcessInfo
  | ExecutorResult Ring3Executor
  | VectorAllocated nat
  | ExecutorsCreated nat
  | Mapped
  | MappedFrameId nat nat
  | Adjusted
  | Unmapped TlbFlushHandle
  | Resolved nat MapAction
  | FrameIdResult nat

record NrProcess =
  active_cores :: "(nat \<times> nat) list"
  process :: Ring3Process

type_synonym proc_result = "(KState \<times> NrProcess) \<times> proc_NodeResult kres"

definition NrProcess_new :: "Ring3Process \<Rightarrow> NrProcess" where
  "NrProcess_new p = \<lparr>active_cores = [], process = p\<rparr>"

definition proc_dispatch :: "NrProcess \<Rightarrow> proc_ReadOps \<Rightarrow> proc_NodeResult kres" where
  "proc_dispatch n op = (case op of
       ReadProcessInfo \<Rightarrow> Ok (ProcessInfoResult (pinfo (process n)))
     | MemResolve base \<Rightarrow> map_result (\<lambda>(paddr, rights). Resolved paddr rights) (vs_resolve (p_vspace (process n)) base))"

text \<open>Running an operation of the process inside the node.\<close>

definition on_process ::
  "(KState \<times> Ring3Process \<Rightarrow> (KState \<times> Ring3Process) \<times> 'a kres) \<Rightarrow> KState \<times> NrProcess \<Rightarrow> (KState \<times> NrProcess) \<times> 'a kres" where
  "on_process f s = (case s of (k, n) \<Rightarrow>
     (case f (k, process n) of ((k', p'), r) \<Rightarrow> ((k', n\<lparr>process := p'\<rparr>), r)))"

definition pure_op :: "(Ring3Process \<Rightarrow> Ring3Process \<times> 'a kres) \<Rightarrow> KState \<times> Ring3Process \<Rightarrow> (KState \<times> Ring3Process) \<times> 'a kres" where
  "pure_op f s = (case f (snd s) of (p, r) \<Rightarrow> ((fst s, p), r))"

definition dispatch_MemUnmap :: "KState \<times> NrProcess \<Rightarrow> nat \<Rightarrow> proc_result" where
  "dispatch_MemUnmap s vaddr = (case s of (k, n) \<Rightarrow>
     (case vs_unmap (p_vspace (process n)) vaddr of (vs, r) \<Rightarrow>
        ((k, n\<lparr>process := (process n)\<lparr>p_vspace := vs\<rparr>\<rparr>),
         bind_result r (\<lambda>shootdown_handle. map_result Unmapped (add_cores shootdown_handle (map fst (active_cores n)))))))"

definition dispatch_AssignExecutor :: "KState \<times> NrProcess \<Rightarrow> nat \<Rightarrow> nat \<Rightarrow> proc_result" where
  "dispatch_AssignExecutor s gtid region =
     and_then (on_process (pure_op (\<lambda>p. get_executor p region)) s) (\<lambda>s executor.
     and_then (try_alloc FallibleTryReserveError s) (\<lambda>s _.
       case s of (k, n) \<Rightarrow> ((k, n\<lparr>active_cores := active_cores n @ [(gtid, eid executor)]\<rparr>), Ok (ExecutorResult executor))))"

definition dispatch_MemMapFrameId :: "KState \<times> NrProcess \<Rightarrow> nat \<Rightarrow> nat \<Rightarrow> MapAction \<Rightarrow> proc_result" where
  "dispatch_MemMapFrameId s base frame_id action =
     (case get_frame (process (snd s)) frame_id of
        Ok f \<Rightarrow>
          and_then (refill s 7 0 MemDram) (\<lambda>s _.
          and_then (on_process (\<lambda>s. proc_map_frame s base f action) s) (\<lambda>s _.
            (s, Ok (MappedFrameId (fbase f) (fsize f)))))
      | Err e \<Rightarrow> (s, Err e)
      | Panic \<Rightarrow> (s, Panic))"

text \<open>\<open>kernel_pml4\<close> is the top-level table of the kernel, which \<open>Load\<close> copies entries from.\<close>

definition proc_dispatch_mut :: "(nat \<Rightarrow> entry) option \<Rightarrow> KState \<times> NrProcess \<Rightarrow> proc_Op \<Rightarrow> proc_result" where
  "proc_dispatch_mut kernel_pml4 s op = (case op of
       Destroy \<Rightarrow> (s, Panic)
     | ProcRaiseIrq \<Rightarrow> (s, Panic)
     | MemAdjust \<Rightarrow> (s, Panic)
     | Load pid bin sections \<Rightarrow>
         and_then (on_process (\<lambda>s. proc_load_module kernel_pml4 s pid bin sections) s) (\<lambda>s _. (s, Ok Loaded))
     | DispatcherAllocation f \<Rightarrow>
         and_then (on_process (\<lambda>s. allocate_executors s f) s) (\<lambda>s how_many. (s, Ok (ExecutorsCreated how_many)))
     | MemMapFrame base f action \<Rightarrow>
         and_then (refill s 7 0 MemDram) (\<lambda>s _.
         and_then (on_process (\<lambda>s. proc_map_frame s base f action) s) (\<lambda>s _. (s, Ok Mapped)))
     | MemMapDevice f action \<Rightarrow>
         and_then (on_process (\<lambda>s. proc_map_frame s (fbase f) f action) s) (\<lambda>s _. (s, Ok Mapped))
     | MemMapFrameId base frame_id action \<Rightarrow> dispatch_MemMapFrameId s base frame_id action
     | MemUnmap vaddr \<Rightarrow> dispatch_MemUnmap s vaddr
     | AssignExecutor gtid region \<Rightarrow> dispatch_AssignExecutor s gtid region
     | AllocateFrameToProcess f \<Rightarrow>
         and_then (on_process (pure_op (\<lambda>p. add_frame p f)) s) (\<lambda>s fid. (s, Ok (FrameIdResult fid))))"

section \<open>The functions of the rest of the kernel\<close>

text \<open>
  \<open>em\<close> executes an operation on the replica of the process, \<open>ex\<close> a read operation; an unexpected kind
  of answer is a panic, as is a process identifier out of range.
\<close>

definition proc_answer ::
  "nat \<Rightarrow> 's \<Rightarrow> ('s \<Rightarrow> 's \<times> proc_NodeResult kres) \<Rightarrow> (proc_NodeResult \<Rightarrow> 'a option) \<Rightarrow> 's \<times> 'a kres" where
  "proc_answer pid s run f =
     (if \<not> pid < MAX_PROCESSES then (s, Panic)
      else case run s of
        (s', Ok x) \<Rightarrow> (case f x of Some a \<Rightarrow> (s', Ok a) | None \<Rightarrow> (s', Panic))
      | (s', Err e) \<Rightarrow> (s', Err e)
      | (s', Panic) \<Rightarrow> (s', Panic))"

definition nr_load :: "('s \<Rightarrow> proc_Op \<Rightarrow> 's \<times> proc_NodeResult kres) \<Rightarrow> 's \<Rightarrow> nat \<Rightarrow> ElfBinary option \<Rightarrow> Frame list \<Rightarrow> 's \<times> unit kres" where
  "nr_load em s pid bin sections =
     proc_answer pid s (\<lambda>s. em s (Load pid bin sections)) (\<lambda>x. case x of Loaded \<Rightarrow> Some () | _ \<Rightarrow> None)"

definition nr_resolve :: "('s \<Rightarrow> proc_ReadOps \<Rightarrow> proc_NodeResult kres) \<Rightarrow> 's \<Rightarrow> nat \<Rightarrow> nat \<Rightarrow> (nat \<times> nat) kres" where
  "nr_resolve ex s pid base =
     (if KERNEL_BASE \<le> base then Panic
      else snd (proc_answer pid s (\<lambda>s. (s, ex s (MemResolve base))) (\<lambda>x. case x of Resolved paddr _ \<Rightarrow> Some (paddr, 0) | _ \<Rightarrow> None)))"

definition nr_map_device_frame ::
  "('s \<Rightarrow> proc_Op \<Rightarrow> 's \<times> proc_NodeResult kres) \<Rightarrow> 's \<Rightarrow> nat \<Rightarrow> Frame \<Rightarrow> MapAction \<Rightarrow> 's \<times> (nat \<times> nat) kres" where
  "nr_map_device_frame em s pid f action =
     proc_answer pid s (\<lambda>s. em s (MemMapDevice f action)) (\<lambda>x. case x of Mapped \<Rightarrow> Some (fbase f, fsize f) | _ \<Rightarrow> None)"

definition nr_unmap :: "('s \<Rightarrow> proc_Op \<Rightarrow> 's \<times> proc_NodeResult kres) \<Rightarrow> 's \<Rightarrow> nat \<Rightarrow> nat \<Rightarrow> 's \<times> TlbFlushHandle kres" where
  "nr_unmap em s pid base =
     proc_answer pid s (\<lambda>s. em s (MemUnmap base)) (\<lambda>x. case x of Unmapped h \<Rightarrow> Some h | _ \<Rightarrow> None)"

definition nr_map_frame_id ::
  "('s \<Rightarrow> proc_Op \<Rightarrow> 's \<times> proc_NodeResult kres) \<Rightarrow> 's \<Rightarrow> nat \<Rightarrow> nat \<Rightarrow> nat \<Rightarrow> MapAction \<Rightarrow> 's \<times> (nat \<times> nat) kres" where
  "nr_map_frame_id em s pid frame_id base action =
     proc_answer pid s (\<lambda>s. em s (MemMapFrameId base frame_id action))
       (\<lambda>x. case x of MappedFrameId paddr sz \<Rightarrow> Some (paddr, sz) | _ \<Rightarrow> None)"

text \<open>\<open>map_frames\<close> takes every answer but \<open>Mapped\<close>, errors included, as unreachable.\<close>

fun map_frames_loop ::
  "('s \<Rightarrow> proc_Op \<Rightarrow> 's \<times> proc_NodeResult kres) \<Rightarrow> 's \<Rightarrow> nat \<Rightarrow> nat \<Rightarrow> Frame list \<Rightarrow> MapAction \<Rightarrow> 's \<times> (nat \<times> nat) kres" where
  "map_frames_loop em s base virtual_offset [] action = (s, Ok (base, virtual_offset))"
| "map_frames_loop em s base virtual_offset (f # fs) action =
     (case em s (MemMapFrame (base + virtual_offset) f action) of
        (s', Ok Mapped) \<Rightarrow> map_frames_loop em s' base (virtual_offset + fsize f) fs action
      | (s', _) \<Rightarrow> (s', Panic))"

definition nr_map_frames ::
  "('s \<Rightarrow> proc_Op \<Rightarrow> 's \<times> proc_NodeResult kres) \<Rightarrow> 's \<Rightarrow> nat \<Rightarrow> nat \<Rightarrow> Frame list \<Rightarrow> MapAction \<Rightarrow> 's \<times> (nat \<times> nat) kres" where
  "nr_map_frames em s pid base fs action =
     (if \<not> pid < MAX_PROCESSES then (s, Panic) else map_frames_loop em s base 0 fs action)"

definition nr_pinfo :: "('s \<Rightarrow> proc_ReadOps \<Rightarrow> proc_NodeResult kres) \<Rightarrow> 's \<Rightarrow> nat \<Rightarrow> ProcessInfo kres" where
  "nr_pinfo ex s pid =
     snd (proc_answer pid s (\<lambda>s. (s, ex s ReadProcessInfo)) (\<lambda>x. case x of ProcessInfoResult i \<Rightarrow> Some i | _ \<Rightarrow> None))"

definition nr_allocate_executor ::
  "('s \<Rightarrow> proc_Op \<Rightarrow> 's \<times> proc_NodeResult kres) \<Rightarrow> 's \<Rightarrow> nat \<Rightarrow> nat \<Rightarrow> nat \<Rightarrow> 's \<times> Ring3Executor kres" where
  "nr_allocate_executor em s pid gtid nid =
     proc_answer pid s (\<lambda>s. em s (AssignExecutor gtid nid)) (\<lambda>x. case x of ExecutorResult e \<Rightarrow> Some e | _ \<Rightarrow> None)"

definition nr_allocate_frame_to_process ::
  "('s \<Rightarrow> proc_Op \<Rightarrow> 's \<times> proc_NodeResult kres) \<Rightarrow> 's \<Rightarrow> nat \<Rightarrow> Frame \<Rightarrow> 's \<times> nat kres" where
  "nr_allocate_frame_to_process em s pid f =
     proc_answer pid s (\<lambda>s. em s (AllocateFrameToProcess f)) (\<lambda>x. case x of FrameIdResult fid \<Rightarrow> Some fid | _ \<Rightarrow> None)"

definition nr_allocate_dispatchers ::
  "('s \<Rightarrow> proc_Op \<Rightarrow> 's \<times> proc_NodeResult kres) \<Rightarrow> 's \<Rightarrow> nat \<Rightarrow> Frame \<Rightarrow> 's \<times> nat kres" where
  "nr_allocate_dispatchers em s pid f =
     proc_answer pid s (\<lambda>s. em s (DispatcherAllocation f)) (\<lambda>x. case x of ExecutorsCreated n \<Rightarrow> Some n | _ \<Rightarrow> None)"

section \<open>Creating a process\<close>

text \<open>
  The state of a node: the memory of the core, the replica of the kernel node, the replica of the
  file system node, and this node's replica of every process.
\<close>

record SysState =
  sys_k :: KState
  sys_node :: KernelNode
  sys_cnr :: CnrState
  sys_procs :: "nat \<Rightarrow> NrProcess"

definition on_proc :: "nat \<Rightarrow> (KState \<times> NrProcess \<Rightarrow> (KState \<times> NrProcess) \<times> 'a kres) \<Rightarrow> SysState \<Rightarrow> SysState \<times> 'a kres" where
  "on_proc pid f s = (case f (sys_k s, sys_procs s pid) of
     ((k, n), r) \<Rightarrow> (s\<lparr>sys_k := k, sys_procs := (sys_procs s)(pid := n)\<rparr>, r))"

definition on_kstate :: "(KState \<times> unit \<Rightarrow> (KState \<times> unit) \<times> 'a kres) \<Rightarrow> SysState \<Rightarrow> SysState \<times> 'a kres" where
  "on_kstate f s = (case f (sys_k s, ()) of ((k, _), r) \<Rightarrow> (s\<lparr>sys_k := k\<rparr>, r))"

text \<open>\<open>modules\<close> are the named binaries that the boot loader passed; a later module hides an earlier one.\<close>

definition find_module :: "(string \<times> ElfBinary option) list \<Rightarrow> string \<Rightarrow> ElfBinary option kres" where
  "find_module modules binary = (case find (\<lambda>m. fst m = binary) (rev modules) of
     None \<Rightarrow> Err (BinaryNotFound binary) | Some m \<Rightarrow> Ok (snd m))"

definition data_sections :: "ElfBinary \<Rightarrow> SysState \<Rightarrow> SysState \<times> Frame list kres" where
  "data_sections e s =
     and_then (on_kstate (try_alloc FallibleTryReserveError) s) (\<lambda>s _.
       case elf_to_kres (try_each ds_call (sys_k s, \<lparr>ds_offset = if is_pie e then ELF_OFFSET else 0, ds_frames = []\<rparr>) (elf_calls e)) UnableToLoad of
         ((k, d), Ok _) \<Rightarrow>
           and_then (on_kstate (try_alloc FallibleTryReserveError) (s\<lparr>sys_k := k\<rparr>)) (\<lambda>s _.
             (s, if MAX_WRITEABLE_SECTIONS_PER_PROCESS < length (ds_finish d) then Panic else Ok (ds_finish d)))
       | ((k, d), Err e) \<Rightarrow> (s\<lparr>sys_k := k\<rparr>, Err e)
       | ((k, d), Panic) \<Rightarrow> (s\<lparr>sys_k := k\<rparr>, Panic))"

definition allocate_pid :: "SysState \<Rightarrow> SysState \<times> nr_NodeResult kres" where
  "allocate_pid s = (case nr_dispatch_mut (k_heap (sys_k s), sys_node s) AllocatePid of
     ((h, n), r) \<Rightarrow> (s\<lparr>sys_k := (sys_k s)\<lparr>k_heap := h\<rparr>, sys_node := n\<rparr>, r))"

definition sys_add_process :: "replica \<Rightarrow> nat \<Rightarrow> SysState \<Rightarrow> SysState \<times> (nat \<times> nat) kres" where
  "sys_add_process cnr pid s = (case add_process cnr (sys_cnr s) pid of (c, r) \<Rightarrow> (s\<lparr>sys_cnr := c\<rparr>, r))"

definition make_process ::
  "(nat \<Rightarrow> entry) option \<Rightarrow> replica \<Rightarrow> bool \<Rightarrow> (string \<times> ElfBinary option) list \<Rightarrow> string \<Rightarrow> SysState \<Rightarrow> SysState \<times> nat kres" where
  "make_process kernel_pml4 cnr replica_set modules binary s =
     and_then (on_kstate (\<lambda>s. refill s 7 1 MemDram) s) (\<lambda>s _.
     case find_module modules binary of
       Err e \<Rightarrow> (s, Err e)
     | Panic \<Rightarrow> (s, Panic)
     | Ok None \<Rightarrow> (s, Err UnableToParseElf)
     | Ok (Some e) \<Rightarrow>
         and_then (data_sections e s) (\<lambda>s data_frames.
         if \<not> replica_set then (s, Err ReplicaNotSet) else
         and_then (allocate_pid s) (\<lambda>s response.
         case response of
           PidAllocated pid \<Rightarrow>
             and_then (expect (sys_add_process cnr pid s)) (\<lambda>s _.
             and_then (expect (on_proc pid (\<lambda>s. nr_load (proc_dispatch_mut kernel_pml4) s pid (Some e) data_frames) s)) (\<lambda>s _.
               (s, Ok pid)))
         | _ \<Rightarrow> (s, Err ProcessLoadingFailed))))"

text \<open>
  The executors of a process.  A large page comes straight from the cache of the NUMA node it should
  lie on, is cleared, and is handed to the process, until there is an executor for every thread.
\<close>

definition zero_frame :: "Frame \<Rightarrow> KState \<Rightarrow> KState" where
  "zero_frame f k = k\<lparr>k_bytes := \<lambda>a. if a \<in> frame_bytes f then 0 else k_bytes k a\<rparr>"

definition take_node_page :: "nat \<Rightarrow> KState \<times> 'p \<Rightarrow> (KState \<times> 'p) \<times> Frame kres" where
  "take_node_page aff s = (case s of (k, p) \<Rightarrow> (case k_mem k of (kcb, ncaches) \<Rightarrow>
     if \<not> gmanager (physical_memory kcb) \<or> \<not> aff < length ncaches then (s, Panic)
     else (case allocate_large_page (ncaches ! aff) of
       (nc, r) \<Rightarrow> ((k\<lparr>k_mem := (kcb, ncaches[aff := nc])\<rparr>, p), r))))"

definition add_dispatchers :: "(nat \<Rightarrow> entry) option \<Rightarrow> nat \<Rightarrow> nat \<Rightarrow> KState \<times> NrProcess \<Rightarrow> (KState \<times> NrProcess) \<times> nat kres" where
  "add_dispatchers kernel_pml4 pid aff s =
     and_then (refill s 20 1 MemDram) (\<lambda>s _.
     and_then (take_node_page aff s) (\<lambda>s f.
       case s of (k, n) \<Rightarrow>
         expect (nr_allocate_dispatchers (proc_dispatch_mut kernel_pml4) (zero_frame f k, n) pid f)))"

lemma large_page_size: "allocate_large_page c = (c', Ok f) \<Longrightarrow> fsize f = LARGE_PAGE_SIZE"
  by (auto simp: allocate_large_page_def paddr_to_large_page_def Frame_new_def Let_def split: if_splits)

lemma allocate_executors_count: "allocate_executors s f = (s', Ok n) \<Longrightarrow> n = fsize f div EXECUTOR_SPACE_REQUIREMENT"
  by (auto simp: allocate_executors_def and_then_Ok Let_def split: prod.splits)

lemma add_dispatchers_count:
  assumes "add_dispatchers kp pid aff s = (s', Ok n)"
  shows "n = 10"
proof -
  obtain s1 f k1 n1 where 1: "take_node_page aff s1 = ((k1, n1), Ok f)"
    "nr_allocate_dispatchers (proc_dispatch_mut kp) (zero_frame f k1, n1) pid f = (s', Ok n)"
    using assms by (auto simp: add_dispatchers_def and_then_Ok split: prod.splits)
  have f: "fsize f = LARGE_PAGE_SIZE" using 1(1) large_page_size by (fastforce simp: take_node_page_def split: prod.splits if_splits)
  have "proc_dispatch_mut kp (zero_frame f k1, n1) (DispatcherAllocation f) = (s', Ok (ExecutorsCreated n))"
    using 1(2) by (auto simp: nr_allocate_dispatchers_def proc_answer_def
        split: if_splits prod.splits result.splits option.splits proc_NodeResult.splits)
  then have "\<exists>s. allocate_executors (zero_frame f k1, process n1) f = (s, Ok n)"
    by (auto simp: proc_dispatch_mut_def and_then_Ok on_process_def split: prod.splits)
  then show ?thesis using allocate_executors_count f by fastforce
qed

function dispatchers_loop ::
  "(nat \<Rightarrow> entry) option \<Rightarrow> nat \<Rightarrow> nat \<Rightarrow> nat \<Rightarrow> nat \<Rightarrow> KState \<times> NrProcess \<Rightarrow> (KState \<times> NrProcess) \<times> unit kres" where
  "dispatchers_loop kernel_pml4 pid aff to_create created s =
     (if created < to_create
      then (case add_dispatchers kernel_pml4 pid aff s of
              (s', Ok how_many) \<Rightarrow> dispatchers_loop kernel_pml4 pid aff to_create (created + how_many) s'
            | (s', Err e) \<Rightarrow> (s', Err e)
            | (s', Panic) \<Rightarrow> (s', Panic))
      else (s, Ok ()))"
  by pat_completeness auto
termination
  by (relation "measure (\<lambda>(kp, pid, aff, to_create, created, s). to_create - created)")
    (auto dest!: add_dispatchers_count [OF sym])

text \<open>\<open>regions\<close> are the NUMA nodes of the machine with their number of threads.\<close>

definition allocate_dispatchers ::
  "(nat \<Rightarrow> entry) option \<Rightarrow> (nat \<times> nat) list \<Rightarrow> nat \<Rightarrow> KState \<times> NrProcess \<Rightarrow> (KState \<times> NrProcess) \<times> unit kres" where
  "allocate_dispatchers kernel_pml4 regions pid s =
     try_each (\<lambda>s (aff, to_create). dispatchers_loop kernel_pml4 pid aff to_create 0 s) s regions"

section \<open>Executors are handed out once\<close>

definition all_cached :: "Ring3Process \<Rightarrow> Ring3Executor list" where
  "all_cached p = concat (map (\<lambda>c. case c of None \<Rightarrow> [] | Some xs \<Rightarrow> xs) (executor_cache p))"

definition window :: "Ring3Executor \<Rightarrow> nat set" where
  "window x = {stack_base x ..< stack_base x + EXECUTOR_SPACE_REQUIREMENT}"

text \<open>
  The executors of a process, those in its cache and those that were handed out: their identifiers
  are used up, their stretches of memory lie below \<open>executor_offset\<close> and apart from each other.
\<close>

definition executors_ok :: "Ring3Executor multiset \<Rightarrow> nat \<Rightarrow> nat \<Rightarrow> bool" where
  "executors_ok X next_eid hi \<longleftrightarrow> (\<forall>x \<in># X. eid x < next_eid \<and> stack_base x + EXECUTOR_SPACE_REQUIREMENT \<le> hi)
     \<and> (\<forall>n. size {#x \<in># X. eid x = n#} \<le> 1)
     \<and> (\<forall>x \<in># X. \<forall>y \<in># X. eid x \<noteq> eid y \<longrightarrow> window x \<inter> window y = {})"

definition exec_inv :: "Ring3Executor multiset \<Rightarrow> Ring3Process \<Rightarrow> bool" where
  "exec_inv out p \<longleftrightarrow> executors_ok (out + mset (all_cached p)) (current_eid p) (executor_offset p)"

lemma mset_concat_update:
  "i < length xss \<Longrightarrow> mset (concat (xss[i := ys])) + mset (xss ! i) = mset (concat xss) + mset ys"
proof (induction xss arbitrary: i)
  case (Cons xs xss)
  show ?case
  proof (cases i)
    case 0
    then show ?thesis by (simp add: ac_simps)
  next
    case (Suc j)
    have "mset (concat (xss[j := ys])) + mset (xss ! j) = mset (concat xss) + mset ys" using Cons Suc by simp
    then show ?thesis using Suc by (simp add: add.assoc)
  qed
qed simp

lemma all_cached_update:
  assumes "i < length (executor_cache p)"
  shows "mset (all_cached (p\<lparr>executor_cache := (executor_cache p)[i := Some ys]\<rparr>)) + mset (cached p i) = mset (all_cached p) + mset ys"
  using mset_concat_update [of i "map (\<lambda>c. case c of None \<Rightarrow> [] | Some xs \<Rightarrow> xs) (executor_cache p)" ys] assms
  by (simp add: all_cached_def cached_def map_update)

lemma all_cached_cong: "executor_cache p = executor_cache q \<Longrightarrow> all_cached p = all_cached q"
  by (simp add: all_cached_def)

text \<open>Creating executors keeps the invariant.\<close>

lemma filter_mset_none: "\<forall>x \<in># M. f x \<noteq> m \<Longrightarrow> {#x \<in># M. f x = m#} = {#}"
  by (induction M) auto

lemma executors_ok_add:
  assumes "executors_ok X e o0" and "\<And>i. i < n \<Longrightarrow> eid (f i) = e + i \<and> stack_base (f i) = o0 + i * EXECUTOR_SPACE_REQUIREMENT"
    and "o0 + n * EXECUTOR_SPACE_REQUIREMENT \<le> hi"
  shows "executors_ok (X + mset (map f [0..<n])) (e + n) hi"
  using assms(2,3)
proof (induction n arbitrary: hi)
  case 0
  then show ?case using assms(1) unfolding executors_ok_def by fastforce
next
  case (Suc n)
  let ?Y = "X + mset (map f [0..<n])" and ?t = "o0 + n * EXECUTOR_SPACE_REQUIREMENT"
  have IH: "executors_ok ?Y (e + n) ?t" using Suc.prems by (intro Suc.IH) auto
  have f: "eid (f n) = e + n" "stack_base (f n) = ?t" using Suc.prems(1) by auto
  have new: "\<forall>x \<in># ?Y. eid x < e + n \<and> stack_base x + EXECUTOR_SPACE_REQUIREMENT \<le> ?t" using IH by (simp add: executors_ok_def)
  have one: "size {#x \<in># add_mset (f n) ?Y. eid x = m#} \<le> 1" for m
  proof (cases "m = e + n")
    case True
    then have "\<forall>x \<in># ?Y. eid x \<noteq> m" using new by (metis less_irrefl)
    then have "{#x \<in># ?Y. eid x = m#} = {#}" by (rule filter_mset_none)
    then show ?thesis using f True by simp
  next
    case False
    then show ?thesis using f IH by (simp add: executors_ok_def)
  qed
  have w: "window (f n) \<inter> window x = {}" if "x \<in># ?Y" for x using new that f(2) by (force simp: window_def)
  have b: "\<forall>x \<in># add_mset (f n) ?Y. eid x < e + Suc n \<and> stack_base x + EXECUTOR_SPACE_REQUIREMENT \<le> hi"
  proof
    fix x assume "x \<in># add_mset (f n) ?Y"
    then consider "x = f n" | "x \<in># ?Y" by auto
    then show "eid x < e + Suc n \<and> stack_base x + EXECUTOR_SPACE_REQUIREMENT \<le> hi"
    proof cases
      case 1
      then show ?thesis using f Suc.prems(2) by simp
    next
      case 2
      then have "eid x < e + n" "stack_base x + EXECUTOR_SPACE_REQUIREMENT \<le> ?t" using new by blast+
      then show ?thesis using Suc.prems(2) by simp
    qed
  qed
  have "\<forall>x \<in># add_mset (f n) ?Y. \<forall>y \<in># add_mset (f n) ?Y. eid x \<noteq> eid y \<longrightarrow> window x \<inter> window y = {}"
    using IH w unfolding executors_ok_def by (auto simp: Int_commute)
  then have "executors_ok (add_mset (f n) ?Y) (e + Suc n) hi" using one b unfolding executors_ok_def by blast
  then show ?case by simp
qed

lemma with_executors_inv:
  assumes "exec_inv out p" and "affinity memory < length (executor_cache p) \<or> n = 0"
    and "n * EXECUTOR_SPACE_REQUIREMENT \<le> fsize memory"
  shows "exec_inv out ((with_executors p (executor_offset p) memory n)\<lparr>executor_offset := executor_offset p + fsize memory\<rparr>)"
proof -
  let ?q = "with_executors p (executor_offset p) memory n" and ?f = "executor_at p (executor_offset p) memory"
  have all: "mset (all_cached ?q) = mset (all_cached p) + mset (map ?f [0..<n])"
  proof (cases "n = 0")
    case True
    then show ?thesis by (simp add: with_executors_def all_cached_def)
  next
    case False
    then have a: "affinity memory < length (executor_cache p)" using assms(2) by simp
    have "all_cached ?q = all_cached (p\<lparr>executor_cache := (executor_cache p)[affinity memory :=
        Some (cached p (affinity memory) @ map ?f [0..<n])]\<rparr>)"
      using False by (intro all_cached_cong) (simp add: with_executors_def)
    then show ?thesis using all_cached_update [OF a, of "cached p (affinity memory) @ map ?f [0..<n]"] by simp
  qed
  have "executors_ok ((out + mset (all_cached p)) + mset (map ?f [0..<n])) (current_eid p + n) (executor_offset p + fsize memory)"
    by (rule executors_ok_add [OF assms(1) [unfolded exec_inv_def]])
      (use add_left_mono [OF assms(3)] in \<open>simp_all add: executor_at_def\<close>)
  moreover have "all_cached (?q\<lparr>executor_offset := executor_offset p + fsize memory\<rparr>) = all_cached ?q" by (simp add: all_cached_def)
  ultimately show ?thesis using all by (simp add: exec_inv_def with_executors_def add.assoc)
qed

lemma exec_inv_cong:
  "\<lbrakk>exec_inv out p; executor_cache q = executor_cache p; current_eid q = current_eid p; executor_offset q = executor_offset p\<rbrakk>
    \<Longrightarrow> exec_inv out q"
  by (simp add: exec_inv_def all_cached_def)

lemma allocate_executors_inv:
  assumes "exec_inv out p" and "never_fails (k_heap k)" and "allocate_executors (k, p) memory = ((k', p'), r)"
  shows "exec_inv out p' \<and> never_fails (k_heap k')"
proof -
  obtain k1 r1 where 1: "refill (k, p) 20 0 MemDram = ((k1, p), r1)" "k_heap k1 = k_heap k"
    using refill_result [of k p 20 0 MemDram] by (metis surj_pair)
  obtain h vs r2 where v: "vs_map_frame (k_heap k1, p_vspace p) (executor_offset p) memory ReadWriteUser = ((h, vs), r2)"
    by (metis surj_pair)
  have hf: "never_fails h" using v assms(2) 1(2) by (auto simp: vs_map_frame_def split: if_splits option.splits prod.splits bool.splits dest: heap_take_keeps)
  let ?k2 = "k1\<lparr>k_heap := h\<rparr>" and ?p2 = "p\<lparr>p_vspace := vs\<rparr>"
  have i2: "exec_inv out ?p2" by (rule exec_inv_cong [OF assms(1)]) simp_all
  let ?n = "fsize memory div EXECUTOR_SPACE_REQUIREMENT"
  show ?thesis
  proof (cases "r1 = Ok () \<and> r2 = Ok ()")
    case False
    then have "(k' = k1 \<and> p' = p) \<or> (k' = ?k2 \<and> p' = ?p2)"
      using assms(3) 1(1) v by (cases r1; cases r2) (auto simp: allocate_executors_def proc_map_frame_def Let_def)
    then show ?thesis using assms(1,2) 1(2) i2 hf by auto
  next
    case ok: True
    obtain k3 p3 r3 where c: "create_executors ?n (executor_offset p) memory (?k2, ?p2) = ((k3, p3), r3)" by (metis surj_pair)
    have res: "if r3 = Ok () then k' = k3 \<and> p' = p3\<lparr>executor_offset := executor_offset p3 + fsize memory\<rparr> else k' = k3 \<and> p' = p3"
      using assms(3) 1(1) v ok c by (cases r3) (auto simp: allocate_executors_def proc_map_frame_def Let_def)
    show ?thesis
    proof (cases "affinity memory < length (executor_cache p) \<or> ?n = 0")
      case True
      have "\<exists>h'. k3 = ?k2\<lparr>k_heap := h'\<rparr> \<and> p3 = with_executors ?p2 (executor_offset p) memory ?n \<and> r3 = Ok () \<and> never_fails h'"
      proof (cases "?n = 0")
        case True
        then show ?thesis using c hf by (auto simp: with_executors_def intro!: exI [of _ h])
      next
        case False
        then have a: "affinity memory < length (executor_cache ?p2)" using \<open>_ \<or> ?n = 0\<close> by simp
        have "never_fails (k_heap ?k2)" using hf by simp
        from create_executors_ok [OF this a, of ?n "executor_offset p"] c show ?thesis by auto
      qed
      then obtain h' where r: "k' = ?k2\<lparr>k_heap := h'\<rparr>" "never_fails h'"
        "p' = (with_executors ?p2 (executor_offset ?p2) memory ?n)\<lparr>executor_offset := executor_offset ?p2 + fsize memory\<rparr>"
        using res by (auto simp: with_executors_def)
      have "exec_inv out ((with_executors ?p2 (executor_offset ?p2) memory ?n)\<lparr>executor_offset := executor_offset ?p2 + fsize memory\<rparr>)"
        by (rule with_executors_inv [OF i2]) (use True in simp_all)
      then show ?thesis using r by simp
    next
      case False
      then obtain m where n: "?n = Suc m" by (cases ?n) auto
      have "\<exists>h'. k3 = ?k2\<lparr>k_heap := h'\<rparr> \<and> p3 = ?p2 \<and> r3 \<noteq> Ok () \<and> never_fails h'"
        using c False hf unfolding n create_executors_Suc
        by (rule_tac try_alloc_ok [of ?k2 AllocError ?p2]) auto
      then show ?thesis using res i2 by auto
    qed
  qed
qed

lemma get_executor_inv:
  assumes "exec_inv out p" and "get_executor p nid = (p', r)"
  shows "case r of Ok x \<Rightarrow> exec_inv (add_mset x out) p' | _ \<Rightarrow> p' = p"
proof (cases r)
  case (Ok x)
  then obtain xs where x: "nid < length (executor_cache p)" "executor_cache p ! nid = Some xs" "xs \<noteq> []" "x = last xs"
    "p' = p\<lparr>executor_cache := (executor_cache p)[nid := Some (butlast xs)]\<rparr>"
    using assms(2) by (auto simp: get_executor_def split: if_splits option.splits)
  have "mset xs = add_mset x (mset (butlast xs))" using x(3,4) by (metis append_butlast_last_id mset_append mset_single_iff_right add_mset_add_single mset.simps(1) mset.simps(2))
  moreover have "mset (all_cached p') + mset xs = mset (all_cached p) + mset (butlast xs)"
    using all_cached_update [OF x(1), of "butlast xs"] x(1,2,5) by (simp add: cached_def)
  ultimately have "add_mset x (mset (all_cached p')) = mset (all_cached p)" by simp
  then have "out + mset (all_cached p) = add_mset x out + mset (all_cached p')" by (metis add_mset_add_single union_mset_add_mset_left union_mset_add_mset_right)
  then show ?thesis using assms(1) Ok x(5) by (simp add: exec_inv_def)
qed (use assms(2) in \<open>auto simp: get_executor_def split: if_splits option.splits\<close>)

text \<open>Everything else leaves the executors alone.\<close>

definition same_executors :: "Ring3Process \<Rightarrow> Ring3Process \<Rightarrow> bool" where
  "same_executors p q \<longleftrightarrow> executor_cache q = executor_cache p \<and> current_eid q = current_eid p \<and> executor_offset q = executor_offset p"

definition leaves_executors :: "('p \<Rightarrow> Ring3Process) \<Rightarrow> (KState \<times> 'p \<Rightarrow> (KState \<times> 'p) \<times> 'r) \<Rightarrow> bool" where
  "leaves_executors sel f \<longleftrightarrow> (\<forall>k p k' p' r. f (k, p) = ((k', p'), r) \<longrightarrow>
     same_executors (sel p) (sel p') \<and> (never_fails (k_heap k) \<longrightarrow> never_fails (k_heap k')))"

lemma leaves_executorsD:
  "\<lbrakk>leaves_executors sel f; f (k, p) = ((k', p'), r)\<rbrakk> \<Longrightarrow> same_executors (sel p) (sel p') \<and> (never_fails (k_heap k) \<longrightarrow> never_fails (k_heap k'))"
  unfolding leaves_executors_def by blast

lemma leaves_executorsI:
  "(\<And>k p k' p' r. f (k, p) = ((k', p'), r) \<Longrightarrow> same_executors (sel p) (sel p') \<and> (never_fails (k_heap k) \<longrightarrow> never_fails (k_heap k')))
    \<Longrightarrow> leaves_executors sel f"
  by (simp add: leaves_executors_def)

lemma same_executors_trans: "\<lbrakk>same_executors p q; same_executors q r\<rbrakk> \<Longrightarrow> same_executors p r"
  by (simp add: same_executors_def)

lemma leaves_and_then:
  assumes "leaves_executors sel f" and "\<And>a. leaves_executors sel (\<lambda>s. g s a)"
  shows "leaves_executors sel (\<lambda>s. and_then (f s) g)"
proof (rule leaves_executorsI)
  fix k p k' p' r assume e: "and_then (f (k, p)) g = ((k', p'), r)"
  obtain k1 p1 r1 where f: "f (k, p) = ((k1, p1), r1)" by (metis surj_pair)
  note 1 = leaves_executorsD [OF assms(1) f]
  show "same_executors (sel p) (sel p') \<and> (never_fails (k_heap k) \<longrightarrow> never_fails (k_heap k'))"
  proof (cases r1)
    case (Ok a)
    then have "g (k1, p1) a = ((k', p'), r)" using e f by simp
    from leaves_executorsD [OF assms(2) this] 1 show ?thesis by (blast intro: same_executors_trans)
  qed (use e f 1 in auto)
qed

lemma leaves_try_each:
  assumes "\<And>x. leaves_executors sel (\<lambda>s. f s x)"
  shows "leaves_executors sel (\<lambda>s. try_each f s xs)"
proof (induction xs)
  case Nil
  show ?case by (simp add: leaves_executors_def same_executors_def)
next
  case (Cons x xs)
  have "leaves_executors sel (\<lambda>s. and_then (f s x) (\<lambda>s _. try_each f s xs))" by (rule leaves_and_then) (rule assms, rule Cons)
  then show ?case by simp
qed

lemma leaves_map_frame: "leaves_executors id (\<lambda>s. proc_map_frame s (va s) f r)"
  by (rule leaves_executorsI)
    (auto simp: proc_map_frame_def same_executors_def vs_map_frame_def split: prod.splits if_splits option.splits bool.splits dest: heap_take_keeps)

lemma leaves_pure: "leaves_executors sel (\<lambda>s. (s, r s))"
  by (simp add: leaves_executors_def same_executors_def)

lemma leaves_if: "\<lbrakk>leaves_executors sel f; leaves_executors sel g\<rbrakk> \<Longrightarrow> leaves_executors sel (\<lambda>s. if b s then f s else g s)"
  unfolding leaves_executors_def by meson

lemma leaves_expect:
  assumes "leaves_executors sel f" shows "leaves_executors sel (\<lambda>s. expect (f s))"
proof (rule leaves_executorsI)
  fix k p k' p' r assume e: "expect (f (k, p)) = ((k', p'), r)"
  obtain k1 p1 r1 where f: "f (k, p) = ((k1, p1), r1)" by (metis surj_pair)
  have "k1 = k'" "p1 = p'" using e f by (cases r1; simp)+
  then show "same_executors (sel p) (sel p') \<and> (never_fails (k_heap k) \<longrightarrow> never_fails (k_heap k'))" using leaves_executorsD [OF assms f] by simp
qed

lemma leaves_refill: "leaves_executors sel (\<lambda>s. refill s n m t)"
  by (rule leaves_executorsI) (auto simp: refill_def same_executors_def split: prod.splits)

lemma leaves_with_manager: "leaves_executors sel (with_manager t f)"
  by (rule leaves_executorsI) (auto simp: with_manager_def same_executors_def split: prod.splits)

lemmas leaves_intros = leaves_and_then leaves_try_each leaves_pure leaves_if leaves_expect leaves_refill leaves_with_manager
  leaves_map_frame

lemma leaves_section_frame: "leaves_executors id (section_frame w i)"
  unfolding section_frame_def by (intro leaves_intros)

lemma leaves_allocate_header: "leaves_executors id (\<lambda>s. proc_allocate_header s h)"
proof (cases "header_action (ph_flags h)")
  case None
  then show ?thesis by (simp add: proc_allocate_header_def leaves_if leaves_pure)
next
  case (Some action)
  have p: "leaves_executors id (\<lambda>s. map_section_page h action s i)" for i
    unfolding map_section_page_def by (intro leaves_and_then leaves_section_frame leaves_expect leaves_map_frame)
  have "leaves_executors id (\<lambda>s. and_then (expect (refill s 20 n MemDram)) (\<lambda>s _. try_each (map_section_page h action) s xs))"
    for n xs by (intro leaves_and_then leaves_expect leaves_refill leaves_try_each p)
  then show ?thesis using Some by (simp add: proc_allocate_header_def Let_def leaves_if leaves_pure)
qed

lemma leaves_load: "leaves_executors id (\<lambda>s. proc_load s flags dest region)"
proof (rule leaves_executorsI, unfold id_apply)
  fix k p k' p' r assume e: "proc_load (k, p) flags dest region = ((k', p'), r)"
  have b: "leaves_executors id (\<lambda>s. load_byte d s iv)" for d iv
    by (rule leaves_executorsI) (auto simp: load_byte_def same_executors_def split: result.splits prod.splits)
  have t: "leaves_executors id (\<lambda>s. try_each (load_byte d) s xs)" for d xs by (intro leaves_try_each b)
  show "same_executors p p' \<and> (never_fails (k_heap k) \<longrightarrow> never_fails (k_heap k'))"
    using e by (auto simp: proc_load_def Let_def same_executors_def split: if_splits dest!: leaves_executorsD [OF t])
qed

lemma leaves_call: "leaves_executors id (\<lambda>s. proc_call s c)"
proof (cases c)
  case (ElfAllocate hs)
  then show ?thesis by (simp add: leaves_try_each leaves_allocate_header)
next
  case (ElfLoadRegion a b d)
  then show ?thesis by (simp add: leaves_load)
next
  case (ElfRelocate a b d)
  then show ?thesis by (intro leaves_executorsI)
      (auto simp: proc_relocate_def same_executors_def Let_def split: if_splits result.splits prod.splits)
next
  case (ElfMakeReadonly a b)
  then show ?thesis by (simp add: proc_make_readonly_def leaves_if leaves_pure)
next
  case (ElfTls a b d f)
  then show ?thesis by (intro leaves_executorsI) (auto simp: proc_tls_def same_executors_def split: if_splits)
qed

lemma leaves_load_module: "leaves_executors id (\<lambda>s. proc_load_module kp s pid bin sections)"
proof (rule leaves_executorsI, unfold id_apply)
  fix k p k' p' r assume e: "proc_load_module kp (k, p) pid bin sections = ((k', p'), r)"
  let ?p1 = "p\<lparr>p_pid := pid, writeable_sections := take MAX_WRITEABLE_SECTIONS_PER_PROCESS sections\<rparr>"
  have t: "leaves_executors id (\<lambda>s. try_each proc_call s xs)" for xs by (intro leaves_try_each leaves_call)
  have i: "same_executors q (install_kernel_mappings kp q)" for q
    by (auto simp: install_kernel_mappings_def same_executors_def Let_def split: option.splits)
  show "same_executors p p' \<and> (never_fails (k_heap k) \<longrightarrow> never_fails (k_heap k'))"
  proof (cases "MAX_WRITEABLE_SECTIONS_PER_PROCESS < length sections \<or> bin = None")
    case True
    then show ?thesis using e by (auto simp: proc_load_module_def same_executors_def Let_def split: if_splits)
  next
    case False
    then obtain b where b: "bin = Some b" by auto
    let ?p2 = "?p1\<lparr>p_offset := if is_pie b then p_offset ?p1 else 0, p_entry_point := elf_entry_point b\<rparr>"
    obtain k1 q r1 where c: "try_each proc_call (k, ?p2) (elf_calls b) = ((k1, q), r1)" by (metis surj_pair)
    have kp': "k' = k1" "p' = q \<or> p' = install_kernel_mappings kp q"
      using e False b c by (cases r1; simp add: proc_load_module_def elf_to_kres_def Let_def)+
    note 1 = leaves_executorsD [OF t c, unfolded id_apply]
    have "same_executors p ?p2" by (simp add: same_executors_def)
    then have q: "same_executors p q" by (rule same_executors_trans) (rule conjunct1 [OF 1])
    have "same_executors p p'" using kp'(2) q same_executors_trans [OF q i] by (elim disjE) (simp_all only:)
    then show ?thesis using 1 unfolding kp'(1) by simp
  qed
qed

lemma on_process_leaves:
  assumes "leaves_executors id f"
  shows "leaves_executors process (on_process f)"
proof (rule leaves_executorsI)
  fix k n k' n' r assume e: "on_process f (k, n) = ((k', n'), r)"
  obtain k1 p1 r1 where f: "f (k, process n) = ((k1, p1), r1)" by (metis surj_pair)
  then have "k' = k1 \<and> n' = n\<lparr>process := p1\<rparr>" using e by (simp add: on_process_def)
  then show "same_executors (process n) (process n') \<and> (never_fails (k_heap k) \<longrightarrow> never_fails (k_heap k'))"
    using leaves_executorsD [OF assms f] by simp
qed

text \<open>The executor that an operation hands out.\<close>

fun handed_out :: "proc_NodeResult kres \<Rightarrow> Ring3Executor multiset" where
  "handed_out (Ok (ExecutorResult x)) = {#x#}"
| "handed_out _ = {#}"

lemma exec_inv_same: "\<lbrakk>exec_inv out p; same_executors p q\<rbrakk> \<Longrightarrow> exec_inv out q"
  by (rule exec_inv_cong) (auto simp: same_executors_def)


lemma handed_out_empty: "(\<And>x. r \<noteq> Ok (ExecutorResult x)) \<Longrightarrow> handed_out r = {#}"
  by (cases r rule: handed_out.cases) auto

lemma leaves_unmap: "leaves_executors process (\<lambda>s. dispatch_MemUnmap s va)"
  by (rule leaves_executorsI) (auto simp: dispatch_MemUnmap_def same_executors_def split: prod.splits)

lemma leaves_MemMapFrameId: "leaves_executors process (\<lambda>s. dispatch_MemMapFrameId s va fid r)"
proof (rule leaves_executorsI)
  fix k n k' n' x assume e: "dispatch_MemMapFrameId (k, n) va fid r = ((k', n'), x)"
  have l: "leaves_executors process (\<lambda>s. and_then (refill s 7 0 MemDram) (\<lambda>s _.
          and_then (on_process (\<lambda>s. proc_map_frame s va f r) s) (\<lambda>s _. (s, Ok (MappedFrameId (fbase f) (fsize f))))))" for f
    by (intro leaves_and_then leaves_refill on_process_leaves leaves_map_frame leaves_pure)
  show "same_executors (process n) (process n') \<and> (never_fails (k_heap k) \<longrightarrow> never_fails (k_heap k'))"
    using e by (auto simp: dispatch_MemMapFrameId_def same_executors_def split: result.splits dest: leaves_executorsD [OF l])
qed

lemma leaves_dispatch:
  assumes "\<And>g rg. op \<noteq> AssignExecutor g rg" and "\<And>f. op \<noteq> DispatcherAllocation f"
  shows "leaves_executors process (\<lambda>s. proc_dispatch_mut kp s op)"
proof (cases op)
  case (AllocateFrameToProcess f)
  have "leaves_executors id (pure_op (\<lambda>p. add_frame p f))"
    by (rule leaves_executorsI) (auto simp: pure_op_def add_frame_def same_executors_def split: option.splits prod.splits)
  then show ?thesis using AllocateFrameToProcess
    by (simp add: proc_dispatch_mut_def leaves_and_then on_process_leaves leaves_pure)
qed (use assms in \<open>simp_all add: proc_dispatch_mut_def leaves_and_then on_process_leaves leaves_pure leaves_refill leaves_map_frame
      leaves_load_module leaves_unmap leaves_MemMapFrameId\<close>)

lemma hands_out_nothing:
  assumes "\<And>g rg. op \<noteq> AssignExecutor g rg" and "proc_dispatch_mut kp s op = (s', r)"
  shows "handed_out r = {#}"
proof (rule handed_out_empty)
  fix x show "r \<noteq> Ok (ExecutorResult x)"
  proof
    assume r: "r = Ok (ExecutorResult x)"
    show False
    proof (cases op)
      case (MemUnmap va)
      obtain vs r1 where "vs_unmap (p_vspace (process (snd s))) va = (vs, r1)" by (metis surj_pair)
      moreover obtain k n where "s = (k, n)" by (cases s)
      ultimately show False using assms(2) r MemUnmap
        by (cases r1) (auto simp: proc_dispatch_mut_def dispatch_MemUnmap_def)
    next
      case (MemMapFrameId base fid action)
      then show False using assms(2) r
        by (cases "get_frame (process (snd s)) fid") (auto simp: proc_dispatch_mut_def dispatch_MemMapFrameId_def and_then_Ok)
    qed (use assms r in \<open>auto simp: proc_dispatch_mut_def and_then_Ok\<close>)
  qed
qed

lemma assign_executor_inv:
  assumes "exec_inv out (process n)" and "never_fails (k_heap k)" and "dispatch_AssignExecutor (k, n) gtid region = ((k', n'), r)"
  shows "exec_inv (out + handed_out r) (process n') \<and> never_fails (k_heap k')
    \<and> active_cores n' = active_cores n @ (case r of Ok (ExecutorResult x) \<Rightarrow> [(gtid, eid x)] | _ \<Rightarrow> [])
    \<and> (\<forall>a. r = Ok a \<longrightarrow> (\<exists>x. a = ExecutorResult x))"
proof -
  obtain p1 r1 where g: "get_executor (process n) region = (p1, r1)" by (metis surj_pair)
  note i = get_executor_inv [OF assms(1) g]
  have st: "on_process (pure_op (\<lambda>p. get_executor p region)) (k, n) = ((k, n\<lparr>process := p1\<rparr>), r1)"
    using g by (simp add: on_process_def pure_op_def)
  show ?thesis
  proof (cases r1)
    case (Ok x)
    obtain h where h: "try_alloc FallibleTryReserveError (k, n\<lparr>process := p1\<rparr>) = ((k\<lparr>k_heap := h\<rparr>, n\<lparr>process := p1\<rparr>), Ok ())" "never_fails h"
      using assms(2) by (rule try_alloc_ok)
    then show ?thesis using assms(3) st Ok i by (auto simp: dispatch_AssignExecutor_def)
  next
    case (Err e)
    then show ?thesis using assms st i by (auto simp: dispatch_AssignExecutor_def)
  next
    case Panic
    then show ?thesis using assms st i by (auto simp: dispatch_AssignExecutor_def)
  qed
qed

lemma dispatch_allocation_inv:
  assumes "exec_inv out (process n)" and "never_fails (k_heap k)" and "proc_dispatch_mut kp (k, n) (DispatcherAllocation f) = ((k', n'), r)"
  shows "exec_inv out (process n') \<and> never_fails (k_heap k')"
proof -
  obtain k1 p1 r1 where a: "allocate_executors (k, process n) f = ((k1, p1), r1)" by (metis surj_pair)
  have "k' = k1 \<and> n' = n\<lparr>process := p1\<rparr>"
    using assms(3) a by (cases r1) (auto simp: proc_dispatch_mut_def on_process_def)
  then show ?thesis using allocate_executors_inv [OF assms(1,2) a] by simp
qed

lemma proc_dispatch_mut_inv:
  assumes "exec_inv out (process n)" and "never_fails (k_heap k)" and d: "proc_dispatch_mut kp (k, n) op = ((k', n'), r)"
  shows "exec_inv (out + handed_out r) (process n') \<and> never_fails (k_heap k')"
proof (cases op)
  case (AssignExecutor g rg)
  then show ?thesis using assign_executor_inv [OF assms(1,2)] d by (fastforce simp: proc_dispatch_mut_def)
next
  case (DispatcherAllocation f)
  then have "handed_out r = {#}" using hands_out_nothing [OF _ d] by simp
  then show ?thesis using dispatch_allocation_inv [OF assms(1,2)] d DispatcherAllocation by simp
qed (use hands_out_nothing [OF _ d] leaves_executorsD [OF leaves_dispatch d] exec_inv_same [OF assms(1)] assms(2) in \<open>simp_all\<close>)

text \<open>A replica runs the operations of the log one after the other; their answers come with it.\<close>

primrec proc_replay ::
  "(nat \<Rightarrow> entry) option \<Rightarrow> KState \<times> NrProcess \<Rightarrow> proc_Op list \<Rightarrow> (KState \<times> NrProcess) \<times> proc_NodeResult kres list" where
  "proc_replay kp s [] = (s, [])"
| "proc_replay kp s (op # ops) = (case proc_dispatch_mut kp s op of (s', r) \<Rightarrow>
     (case proc_replay kp s' ops of (s'', rs) \<Rightarrow> (s'', r # rs)))"

definition all_handed_out :: "proc_NodeResult kres list \<Rightarrow> Ring3Executor multiset" where
  "all_handed_out rs = \<Sum>\<^sub># (mset (map handed_out rs))"

lemma proc_replay_inv:
  "\<lbrakk>exec_inv out (process n); never_fails (k_heap k); proc_replay kp (k, n) ops = ((k', n'), rs)\<rbrakk>
    \<Longrightarrow> exec_inv (out + all_handed_out rs) (process n') \<and> never_fails (k_heap k')"
proof (induction ops arbitrary: out k n rs)
  case Nil
  then show ?case by (simp add: all_handed_out_def)
next
  case (Cons op ops)
  obtain k1 n1 r rs1 where 1: "proc_dispatch_mut kp (k, n) op = ((k1, n1), r)" "proc_replay kp (k1, n1) ops = ((k', n'), rs1)" "rs = r # rs1"
    using Cons.prems(3) by (auto split: prod.splits)
  from proc_dispatch_mut_inv [OF Cons.prems(1,2) 1(1)] have i: "exec_inv (out + handed_out r) (process n1)" "never_fails (k_heap k1)" by simp_all
  from Cons.IH [OF i 1(2)] 1(3) show ?case by (simp add: all_handed_out_def ac_simps)
qed

lemma all_handed_out_nth: "\<lbrakk>i < length rs; rs ! i = Ok (ExecutorResult x)\<rbrakk> \<Longrightarrow> x \<in># all_handed_out rs"
proof (induction rs arbitrary: i)
  case (Cons r rs)
  then show ?case by (cases i) (auto simp: all_handed_out_def)
qed simp

lemma executors_ok_subset:
  assumes "executors_ok X e hi" and "Y \<subseteq># X" shows "executors_ok Y e hi"
proof -
  have "size {#x \<in># Y. eid x = n#} \<le> size {#x \<in># X. eid x = n#}" for n
    using assms(2) by (intro size_mset_mono multiset_filter_mono)
  then have "\<forall>n. size {#x \<in># Y. eid x = n#} \<le> 1" using assms(1) unfolding executors_ok_def by (meson order_trans)
  then show ?thesis using assms(1) mset_subset_eqD [OF assms(2)] unfolding executors_ok_def by blast
qed

lemma all_handed_out_append: "all_handed_out (xs @ ys) = all_handed_out xs + all_handed_out ys"
  by (simp add: all_handed_out_def)

lemma handed_out_distinct:
  assumes ok: "executors_ok (all_handed_out rs) e hi" and "i < j" "j < length rs"
    and x: "rs ! i = Ok (ExecutorResult x)" and y: "rs ! j = Ok (ExecutorResult y)"
  shows "eid x \<noteq> eid y \<and> window x \<inter> window y = {}"
proof -
  have split: "all_handed_out rs = all_handed_out (take j rs) + all_handed_out (drop j rs)"
    by (metis all_handed_out_append append_take_drop_id)
  have xi: "x \<in># all_handed_out (take j rs)" using assms(2,3) x by (intro all_handed_out_nth [of i]) auto
  have yi: "y \<in># all_handed_out (drop j rs)" using assms(3) y by (intro all_handed_out_nth [of 0]) auto
  obtain A B where AB: "all_handed_out (take j rs) = add_mset x A" "all_handed_out (drop j rs) = add_mset y B"
    using xi yi by (metis multi_member_split)
  have "size {#z \<in># all_handed_out rs. eid z = eid y#} \<le> 1" using ok by (simp add: executors_ok_def)
  then have "eid x \<noteq> eid y" using split AB by auto
  moreover have "x \<in># all_handed_out rs" "y \<in># all_handed_out rs" using split xi yi by auto
  ultimately show ?thesis using ok unfolding executors_ok_def by blast
qed

text \<open>
  C1. No executor is handed out twice: whatever operations a replica of a new process runs, two
  executors that \<open>AssignExecutor\<close> returned for different operations have different identifiers, and
  the stretches of virtual memory that hold their stacks and control areas do not overlap.
\<close>
theorem executors_are_exclusive:
  assumes "Ring3Process_new h pid root_frame tables mem = (h', Ok p)" and "never_fails (k_heap k)"
    and "proc_replay kp (k, NrProcess_new p) ops = (s', rs)"
    and "i < j" "j < length rs" "rs ! i = Ok (ExecutorResult x)" "rs ! j = Ok (ExecutorResult y)"
  shows "eid x \<noteq> eid y \<and> window x \<inter> window y = {}"
proof -
  have p: "executor_cache p = replicate MAX_NUMA_NODES None"
    using assms(1) by (auto simp: Ring3Process_new_def split: prod.splits)
  have "exec_inv {#} (process (NrProcess_new p))"
    by (auto simp: exec_inv_def executors_ok_def all_cached_def NrProcess_new_def p)
  from proc_replay_inv [OF this assms(2), of kp ops "fst s'" "snd s'" rs] assms(3)
  have "executors_ok (all_handed_out rs + mset (all_cached (process (snd s')))) (current_eid (process (snd s'))) (executor_offset (process (snd s')))"
    by (simp add: exec_inv_def)
  then have "executors_ok (all_handed_out rs) (current_eid (process (snd s'))) (executor_offset (process (snd s')))"
    by (rule executors_ok_subset) simp
  then show ?thesis using assms(4-7) by (rule handed_out_distinct)
qed

section \<open>Unmapping tells every core that runs the process\<close>

lemma find_filter: "find P xs = (case filter P xs of [] \<Rightarrow> None | x # _ \<Rightarrow> Some x)"
  by (induction xs) auto

lemma model_resolve_filter: "filter (covers w) log = filter (covers w) log' \<Longrightarrow> model_resolve log w = model_resolve log' w"
  unfolding model_resolve_def find_filter by (simp flip: rev_filter)

lemma vs_unmap_mapped:
  assumes "vspace_inv (h, vs)" and "va < VADDR_LIMIT" "va mod BASE_PAGE_SIZE = 0" and "vs_resolve vs va = Ok x"
  obtains vs' v f where "vs_unmap vs va = (vs', Ok (TlbFlushHandle_new v f))" "vspace_inv (h, vs')" "v \<le> va" "va < v + fsize f"
    "\<And>w. w < VADDR_LIMIT \<Longrightarrow> vs_resolve vs' w = (if v \<le> w \<and> w < v + fsize f then Err NotMapped else vs_resolve vs w)"
    "fsize f = BASE_PAGE_SIZE \<or> fsize f = LARGE_PAGE_SIZE" "v mod fsize f = 0" "v + fsize f \<le> VADDR_LIMIT"
proof -
  obtain log where s: "sim vs log" and h: "never_fails h" using assms(1) by (auto simp: vspace_inv_def)
  obtain vs' log' y where u: "vs_unmap vs va = (vs', y)" "model_unmap log va = (log', y)" "sim vs' log'"
    by (rule unmap_sim [OF s assms(2,3)], rule that)
  show thesis using s
  proof (cases rule: owner_cases [where a = va])
    case (owned v p n r)
    let ?e = "(v, p, n, r)"
    have un: "e = ?e" if "e \<in> set log" "covers w e" "covers w ?e" for e w
      using entries_apartD [OF simD(6) [OF s] that(1) owned(1) that(2,3)] .
    have "filter (covers va) log = filter (\<lambda>e. e = ?e) log"
      by (rule filter_cong [OF refl]) (use un [OF _ _ owned(3)] owned(3) in blast)
    then have f: "filter (covers va) log = [?e]" using filter_only [OF simD(4) [OF s] owned(1)] by simp
    have log': "log' = filter (\<lambda>e. \<not> covers va e) log" using u(2) assms(3) by (simp add: model_unmap_def)
    have ok: "n = BASE_PAGE_SIZE \<or> n = LARGE_PAGE_SIZE" "v mod n = 0" "p mod n = 0" "v + n \<le> VADDR_LIMIT"
      using owned(2) by (simp_all add: entry_ok_def)
    have "p mod BASE_PAGE_SIZE = 0" using ok(1,3) mod_mod_cancel [of BASE_PAGE_SIZE LARGE_PAGE_SIZE p] by auto
    then have y: "y = Ok (TlbFlushHandle_new v \<lparr>fbase = p, fsize = n, affinity = 0\<rparr>)"
      using u(2) assms(3) f ok(1) by (auto simp: model_unmap_def Frame_new_def)
    have res: "model_resolve log' w = (if v \<le> w \<and> w < v + n then Err NotMapped else model_resolve log w)" for w
    proof (cases "covers w ?e")
      case True
      have "\<not> (\<not> covers va e \<and> covers w e)" if "e \<in> set log" for e using un [OF that _ True] owned(3) by blast
      then have "filter (covers w) log' = filter (covers w) []" unfolding log' filter_filter by (simp add: filter_empty_conv)
      then have "model_resolve log' w = model_resolve [] w" by (rule model_resolve_filter)
      then show ?thesis using True by (simp add: covers_def model_resolve_def)
    next
      case False
      have "filter (covers w) log' = filter (covers w) log"
        unfolding log' filter_filter by (rule filter_cong [OF refl]) (use un [OF _ _ owned(3)] False in blast)
      then have "model_resolve log' w = model_resolve log w" by (rule model_resolve_filter)
      then show ?thesis using False by (auto simp: covers_def)
    qed
    show thesis
      by (rule that [of vs' v "\<lparr>fbase = p, fsize = n, affinity = 0\<rparr>"])
        (use u(1,3) y h res ok owned(3) resolve_sim [OF s] resolve_sim [OF u(3)] in \<open>auto simp: vspace_inv_def covers_def\<close>)
  next
    case free
    then show thesis using resolve_sim [OF s assms(2)] assms(4) by (simp add: model_resolve_def)
  qed
qed

lemma dispatch_active_cores:
  assumes "proc_dispatch_mut kp (k, n) op = ((k', n'), r)" and "\<And>g rg. op \<noteq> AssignExecutor g rg"
  shows "active_cores n' = active_cores n"
  using assms by (cases op) (auto simp: proc_dispatch_mut_def dispatch_MemUnmap_def dispatch_MemMapFrameId_def on_process_def refill_def
      split: prod.splits result.splits elim!: and_then_cases)

text \<open>The cores that were given an executor, in the order of the log.\<close>

fun core_of :: "proc_Op \<Rightarrow> proc_NodeResult kres \<Rightarrow> nat list" where
  "core_of (AssignExecutor gtid _) (Ok (ExecutorResult _)) = [gtid]"
| "core_of _ _ = []"

definition cores_of :: "proc_Op list \<Rightarrow> proc_NodeResult kres list \<Rightarrow> nat list" where
  "cores_of ops rs = concat (map2 core_of ops rs)"

lemma dispatch_mut_cores:
  assumes "never_fails (k_heap k)" "exec_inv out (process n)" and d: "proc_dispatch_mut kp (k, n) op = ((k', n'), r)"
  shows "map fst (active_cores n') = map fst (active_cores n) @ core_of op r"
proof (cases "\<exists>g rg. op = AssignExecutor g rg")
  case True
  then obtain g rg where op: "op = AssignExecutor g rg" by blast
  note a = assign_executor_inv [OF assms(2,1), of g rg k' n' r]
  have "dispatch_AssignExecutor (k, n) g rg = ((k', n'), r)" using d op by (simp add: proc_dispatch_mut_def)
  from a [OF this] op show ?thesis by (cases r) auto
next
  case False
  then have "core_of op r = []" by (cases "(op, r)" rule: core_of.cases) auto
  then show ?thesis using dispatch_active_cores [OF d] False by simp
qed

lemma replay_cores:
  "\<lbrakk>exec_inv out (process n); never_fails (k_heap k); proc_replay kp (k, n) ops = ((k', n'), rs)\<rbrakk>
    \<Longrightarrow> map fst (active_cores n') = map fst (active_cores n) @ cores_of ops rs"
proof (induction ops arbitrary: out k n rs)
  case Nil
  then show ?case by (simp add: cores_of_def)
next
  case (Cons op ops)
  obtain k1 n1 r rs1 where 1: "proc_dispatch_mut kp (k, n) op = ((k1, n1), r)" "proc_replay kp (k1, n1) ops = ((k', n'), rs1)" "rs = r # rs1"
    using Cons.prems(3) by (auto split: prod.splits)
  from proc_dispatch_mut_inv [OF Cons.prems(1,2) 1(1)] have i: "exec_inv (out + handed_out r) (process n1)" "never_fails (k_heap k1)" by simp_all
  from Cons.IH [OF i 1(2)] dispatch_mut_cores [OF Cons.prems(2,1) 1(1)] 1(3) show ?case by (simp add: cores_of_def)
qed


section \<open>An executor for every thread\<close>

definition nodes_ok :: "KState \<Rightarrow> bool" where
  "nodes_ok k \<longleftrightarrow> (\<forall>i < length (snd (k_mem k)). node (snd (k_mem k) ! i) = i)"

lemma large_page_node: "allocate_large_page c = (c', r) \<Longrightarrow> node c' = node c \<and> (\<forall>f. r = Ok f \<longrightarrow> affinity f = node c)"
  by (auto simp: allocate_large_page_def paddr_to_large_page_def Frame_new_def Let_def split: if_splits)

lemma base_page_node: "allocate_base_page c = (c', r) \<Longrightarrow> node c' = node c"
  by (auto simp: allocate_base_page_def Let_def split: if_splits)

lemma move_base_node: "move_base_pages n (nc, tc) = ((nc', tc'), r) \<Longrightarrow> node nc' = node nc"
proof (induction n arbitrary: nc tc)
  case (Suc n)
  obtain c x where a: "allocate_base_page nc = (c, x)" by (cases "allocate_base_page nc")
  have c: "node c = node nc" using base_page_node [OF a] by simp
  show ?case
  proof (cases x)
    case (Ok f)
    obtain t y where g: "grow_base_pages tc [f] = (t, y)" by (cases "grow_base_pages tc [f]")
    show ?thesis using Suc.prems Suc.IH [of c t] a c g Ok by (cases y) auto
  qed (use Suc.prems a c in auto)
qed simp

lemma move_large_node: "move_large_pages n (nc, tc) = ((nc', tc'), r) \<Longrightarrow> node nc' = node nc"
proof (induction n arbitrary: nc tc)
  case (Suc n)
  obtain c x where a: "allocate_large_page nc = (c, x)" by (cases "allocate_large_page nc")
  have c: "node c = node nc" using large_page_node [OF a] by simp
  show ?case
  proof (cases x)
    case (Ok f)
    obtain t y where g: "grow_large_pages tc [f] = (t, y)" by (cases "grow_large_pages tc [f]")
    show ?thesis using Suc.prems Suc.IH [of c t] a c g Ok by (cases y) auto
  qed (use Suc.prems a c in auto)
qed simp

lemma refill_caches_node:
  assumes "refill_caches bp lp (nc, tc) = ((nc', tc'), r)" shows "node nc' = node nc"
  using assms unfolding refill_caches_def
proof (cases rule: and_then_cases)
  case (ok s a)
  then show ?thesis using move_base_node [of _ nc tc] move_large_node by (cases s) fastforce
qed (auto dest: move_base_node)

lemma nodes_update: "\<lbrakk>\<forall>i < length ncs. node (ncs ! i) = i; a < length ncs; node c = node (ncs ! a)\<rbrakk>
    \<Longrightarrow> \<forall>i < length (ncs[a := c]). node (ncs[a := c] ! i) = i"
  by (simp add: nth_list_update)

lemma refill_nodes:
  assumes "refill (k, p) bp lp mt = ((k', p'), r)" and "nodes_ok k" shows "nodes_ok k'"
proof -
  obtain kcb ncs where m: "k_mem k = (kcb, ncs)" by (cases "k_mem k")
  let ?a = "arena_affinity (if mt = MemPMem then pmem_memory kcb else physical_memory kcb)"
    and ?t = "if mt = MemPMem then pmem_manager kcb else mem_manager kcb"
  obtain nc tc x where c: "refill_caches bp lp (ncs ! ?a, ?t) = ((nc, tc), x)" by (metis surj_pair)
  have "snd (k_mem k') = ncs \<or> ?a < length ncs \<and> snd (k_mem k') = ncs[?a := nc]"
    using assms(1) m c by (auto simp: refill_def try_refill_tcache_def Let_def split: if_splits)
  then show ?thesis using assms(2) m nodes_update [of ncs ?a nc] refill_caches_node [OF c] by (auto simp: nodes_ok_def)
qed

lemma take_node_page_nodes:
  assumes "take_node_page aff (k, n) = ((k', n'), Ok f)" and "nodes_ok k"
  shows "nodes_ok k' \<and> n' = n \<and> affinity f = aff"
proof -
  obtain kcb ncs where m: "k_mem k = (kcb, ncs)" by (cases "k_mem k")
  obtain nc x where a: "allocate_large_page (ncs ! aff) = (nc, x)" by (cases "allocate_large_page (ncs ! aff)")
  have t: "aff < length ncs" "k' = k\<lparr>k_mem := (kcb, ncs[aff := nc])\<rparr>" "n' = n" "x = Ok f"
    using assms(1) m a by (auto simp: take_node_page_def split: if_splits)
  have "node (ncs ! aff) = aff" using assms(2) m t(1) by (simp add: nodes_ok_def)
  then show ?thesis using large_page_node [OF a] t assms(2) m nodes_update [of ncs aff nc] by (simp add: nodes_ok_def)
qed

lemma allocate_executors_cached:
  assumes "allocate_executors (k, p) memory = ((k', p'), Ok c)" and "nodes_ok k"
  shows "nodes_ok k' \<and> length (cached p' nid) = length (cached p nid) + (if nid = affinity memory then c else 0)"
proof -
  let ?n = "fsize memory div EXECUTOR_SPACE_REQUIREMENT"
  obtain k1 p1 k2 p2 p3 where r: "refill (k, p) 20 0 MemDram = ((k1, p1), Ok ())"
    and m: "proc_map_frame (k1, p1) (executor_offset p1) memory ReadWriteUser = ((k2, p2), Ok ())"
    and e: "create_executors ?n (executor_offset p2) memory (k2, p2) = ((k', p3), Ok ())"
    and p': "p' = p3\<lparr>executor_offset := executor_offset p3 + fsize memory\<rparr>" "c = ?n"
    using assms(1) by (auto simp: allocate_executors_def and_then_Ok Let_def)
  have k2: "k_mem k2 = k_mem k1" and c2: "cached p2 nid = cached p nid" and l2: "executor_cache p2 = executor_cache p"
    using m refill_result(1) [OF r] by (auto simp: proc_map_frame_def cached_def split: prod.splits)
  obtain h where w: "p3 = with_executors p2 (executor_offset p2) memory ?n" "0 < ?n \<longrightarrow> affinity memory < length (executor_cache p2)"
    "k' = k2\<lparr>k_heap := h\<rparr>" using create_executors_result [OF e] by auto
  have "nodes_ok k'" using refill_nodes [OF r assms(2)] k2 w(3) by (simp add: nodes_ok_def)
  moreover have "length (cached p3 nid) = length (cached p nid) + (if nid = affinity memory then ?n else 0)"
  proof (cases "?n = 0")
    case True
    then show ?thesis using w(1) c2 by (simp add: with_executors_def)
  next
    case False
    then show ?thesis using w(1,2) cached_with_executors [of memory p2 "executor_offset p2" ?n nid] c2 by simp
  qed
  moreover have "cached p' nid = cached p3 nid" using p'(1) by (simp add: cached_def)
  ultimately show ?thesis using p'(2) by simp
qed

lemma add_dispatchers_cached:
  assumes "add_dispatchers kp pid aff (k, n) = ((k', n'), Ok c)" and "nodes_ok k"
  shows "nodes_ok k' \<and> length (cached (process n') nid) = length (cached (process n) nid) + (if nid = aff then 10 else 0)"
proof -
  obtain k1 n1 k2 n2 f where r: "refill (k, n) 20 1 MemDram = ((k1, n1), Ok ())" and t: "take_node_page aff (k1, n1) = ((k2, n2), Ok f)"
    and a: "nr_allocate_dispatchers (proc_dispatch_mut kp) (zero_frame f k2, n2) pid f = ((k', n'), Ok c)"
    using assms(1) by (auto simp: add_dispatchers_def and_then_Ok)
  note t' = take_node_page_nodes [OF t refill_nodes [OF r assms(2)]]
  have "proc_dispatch_mut kp (zero_frame f k2, n2) (DispatcherAllocation f) = ((k', n'), Ok (ExecutorsCreated c))"
    using a by (auto simp: nr_allocate_dispatchers_def proc_answer_def
        split: if_splits prod.splits result.splits option.splits proc_NodeResult.splits)
  then obtain p' where e: "allocate_executors (zero_frame f k2, process n2) f = ((k', p'), Ok c)" "n' = n2\<lparr>process := p'\<rparr>"
    by (auto simp: proc_dispatch_mut_def and_then_Ok on_process_def split: prod.splits)
  have "nodes_ok (zero_frame f k2)" using t' by (simp add: nodes_ok_def zero_frame_def)
  from allocate_executors_cached [OF e(1) this, of nid] show ?thesis
    using t' e(2) refill_result(1) [OF r] add_dispatchers_count [OF assms(1)] by simp
qed

lemma dispatchers_loop_cached:
  assumes "dispatchers_loop kp pid aff to_create created (k, n) = ((k', n'), Ok ())" and "nodes_ok k"
  shows "nodes_ok k' \<and> length (cached (process n) nid) \<le> length (cached (process n') nid)
    \<and> length (cached (process n) aff) + to_create \<le> length (cached (process n') aff) + created"
  using assms
proof (induction kp pid aff to_create created "(k, n)" arbitrary: k n rule: dispatchers_loop.induct)
  case (1 kp pid aff to_create created k n)
  show ?case
  proof (cases "created < to_create")
    case False
    then show ?thesis using "1.prems" by simp
  next
    case True
    obtain k1 n1 r where a: "add_dispatchers kp pid aff (k, n) = ((k1, n1), r)" by (metis surj_pair)
    show ?thesis
    proof (cases r)
      case (Ok c)
      have c: "c = 10" using add_dispatchers_count a Ok by blast
      have l: "dispatchers_loop kp pid aff to_create (created + c) (k1, n1) = ((k', n'), Ok ())"
        using "1.prems"(1) True a Ok by (subst (asm) dispatchers_loop.simps) simp
      note s = add_dispatchers_cached [OF a [unfolded Ok] "1.prems"(2)]
      from "1.hyps" [OF True a [symmetric] Ok l] c s [of nid] s [of aff] show ?thesis by auto
    qed (use "1.prems"(1) True a in \<open>subst (asm) dispatchers_loop.simps, simp\<close>)+
  qed
qed

lemma allocate_dispatchers_mono:
  "\<lbrakk>allocate_dispatchers kp regions pid (k, n) = ((k', n'), Ok ()); nodes_ok k\<rbrakk>
    \<Longrightarrow> length (cached (process n) nid) \<le> length (cached (process n') nid)"
proof (induction regions arbitrary: k n)
  case (Cons x regions)
  obtain a t where x: "x = (a, t)" by (cases x)
  obtain k1 n1 where l: "dispatchers_loop kp pid a t 0 (k, n) = ((k1, n1), Ok ())"
    and r: "allocate_dispatchers kp regions pid (k1, n1) = ((k', n'), Ok ())"
    using Cons.prems(1) x by (auto simp: allocate_dispatchers_def and_then_Ok)
  note s = dispatchers_loop_cached [OF l Cons.prems(2), of nid]
  from Cons.IH [OF r] s show ?case by simp
qed (simp add: allocate_dispatchers_def)


section \<open>A process with two running executors\<close>

definition executor_page :: Frame where
  "executor_page = \<lparr>fbase = 4194304, fsize = LARGE_PAGE_SIZE, affinity = 0\<rparr>"

definition sample_log :: "proc_Op list" where
  "sample_log = [DispatcherAllocation executor_page, AssignExecutor 3 0, AssignExecutor 130 0]"

definition sample_tables :: "nat list" where
  "sample_tables = map (\<lambda>i. 8192 + i * 4096) [0..<8]"

lemma sample_new: "Ring3Process_new [] 1 4096 sample_tables zero_mem = ([], Ok sample_process)"
  by (simp add: Ring3Process_new_def VSpace_new_def PageTable_new_def sample_process_def sample_tables_def fresh_table_eq del: upt_rec_numeral)

lemma sample_allocation:
  obtains k vs where "allocate_executors (sample_kstate, sample_process) executor_page =
      ((k, (with_executors (sample_process\<lparr>p_vspace := vs\<rparr>) EXECUTOR_OFFSET executor_page 10)\<lparr>executor_offset := EXECUTOR_OFFSET + LARGE_PAGE_SIZE\<rparr>), Ok 10)"
    "vspace_inv (k_heap k, vs)" "vs_resolve vs EXECUTOR_OFFSET = Ok (4194304, ReadWriteUser)"
proof -
  have e: "executor_offset sample_process = EXECUTOR_OFFSET" "p_vspace sample_process = \<lparr>mappings = [], page_table = fresh_table\<rparr>"
    "k_heap sample_kstate = []" "length (executor_cache sample_process) = MAX_NUMA_NODES" by (simp_all add: sample_process_def sample_kstate_def)
  have f: "fbase executor_page = 4194304" "fsize executor_page = LARGE_PAGE_SIZE" "affinity executor_page = 0" by (simp_all add: executor_page_def)
  show thesis
    by (rule allocate_executors_page [of sample_kstate sample_process executor_page], unfold e f)
      (use vspace_inv_fresh fresh_resolve fresh_table_ok(5) sample_refill [of 20 0] that in \<open>auto simp: entry_ok_def granted_def\<close>)
qed

lemma assign_next:
  assumes "region < length (executor_cache (process n))" and "executor_cache (process n) ! region = Some (xs @ [x])" and "never_fails (k_heap k)"
  obtains h where "proc_dispatch_mut kp (k, n) (AssignExecutor g region) =
      ((k\<lparr>k_heap := h\<rparr>, n\<lparr>process := (process n)\<lparr>executor_cache := (executor_cache (process n))[region := Some xs]\<rparr>,
         active_cores := active_cores n @ [(g, eid x)]\<rparr>), Ok (ExecutorResult x))" "never_fails h"
proof -
  let ?n = "n\<lparr>process := (process n)\<lparr>executor_cache := (executor_cache (process n))[region := Some xs]\<rparr>\<rparr>"
  obtain h where "try_alloc FallibleTryReserveError (k, ?n) = ((k\<lparr>k_heap := h\<rparr>, ?n), Ok ())" "never_fails h"
    using assms(3) by (rule try_alloc_ok)
  then show thesis using assms(1,2)
    by (intro that) (simp_all add: proc_dispatch_mut_def dispatch_AssignExecutor_def on_process_def pure_op_def get_executor_def)
qed

lemma sample_replay:
  obtains k n r x y where "proc_replay None (sample_kstate, NrProcess_new sample_process) sample_log =
      ((k, n), [r, Ok (ExecutorResult x), Ok (ExecutorResult y)])" "cores_of sample_log [r, Ok (ExecutorResult x), Ok (ExecutorResult y)] = [3, 130]"
    "vspace_inv (k_heap k, p_vspace (process n))" "vs_resolve (p_vspace (process n)) EXECUTOR_OFFSET = Ok (4194304, ReadWriteUser)"
proof -
  obtain k vs where a: "allocate_executors (sample_kstate, sample_process) executor_page =
      ((k, (with_executors (sample_process\<lparr>p_vspace := vs\<rparr>) EXECUTOR_OFFSET executor_page 10)\<lparr>executor_offset := EXECUTOR_OFFSET + LARGE_PAGE_SIZE\<rparr>), Ok 10)"
    "vspace_inv (k_heap k, vs)" "vs_resolve vs EXECUTOR_OFFSET = Ok (4194304, ReadWriteUser)" by (rule sample_allocation)
  let ?f = "executor_at (sample_process\<lparr>p_vspace := vs\<rparr>) EXECUTOR_OFFSET executor_page"
  define p1 where "p1 = (with_executors (sample_process\<lparr>p_vspace := vs\<rparr>) EXECUTOR_OFFSET executor_page 10)\<lparr>executor_offset := EXECUTOR_OFFSET + LARGE_PAGE_SIZE\<rparr>"
  let ?n1 = "\<lparr>active_cores = [], process = p1\<rparr>"
  have pv: "p_vspace p1 = vs" by (simp add: p1_def with_executors_def)
  have u: "[0..<10] = [0..<8] @ [8, 9::nat]" by (simp add: upt_rec)
  have c: "executor_cache p1 = (replicate MAX_NUMA_NODES None)[0 := Some ((map ?f [0..<8] @ [?f 8]) @ [?f 9])]"
    unfolding p1_def with_executors_def u
    by (simp add: cached_def sample_process_def executor_page_def del: upt_rec_numeral)
  have 1: "proc_dispatch_mut None (sample_kstate, NrProcess_new sample_process) (DispatcherAllocation executor_page) =
      ((k, ?n1), Ok (ExecutorsCreated 10))"
    using a(1) by (simp add: proc_dispatch_mut_def on_process_def NrProcess_new_def p1_def)
  have hf: "never_fails (k_heap k)" using a(2) by (simp add: vspace_inv_def)
  obtain h2 where 2: "proc_dispatch_mut None (k, ?n1) (AssignExecutor 3 0) =
      ((k\<lparr>k_heap := h2\<rparr>, ?n1\<lparr>process := p1\<lparr>executor_cache := (executor_cache p1)[0 := Some (map ?f [0..<8] @ [?f 8])]\<rparr>,
         active_cores := [(3, eid (?f 9))]\<rparr>), Ok (ExecutorResult (?f 9)))" "never_fails h2"
    by (rule assign_next [of 0 ?n1 "map ?f [0..<8] @ [?f 8]" "?f 9" k None 3]) (use c hf that in \<open>simp_all del: upt_rec_numeral\<close>)
  let ?n2 = "?n1\<lparr>process := p1\<lparr>executor_cache := (executor_cache p1)[0 := Some (map ?f [0..<8] @ [?f 8])]\<rparr>, active_cores := [(3, eid (?f 9))]\<rparr>"
  obtain h3 n3 where 3: "proc_dispatch_mut None (k\<lparr>k_heap := h2\<rparr>, ?n2) (AssignExecutor 130 0) = ((k\<lparr>k_heap := h3\<rparr>, n3), Ok (ExecutorResult (?f 8)))"
    "never_fails h3" "p_vspace (process n3) = vs"
    by (rule assign_next [of 0 ?n2 "map ?f [0..<8]" "?f 8" "k\<lparr>k_heap := h2\<rparr>" None 130]) (use c 2(2) pv that in \<open>simp_all del: upt_rec_numeral\<close>)
  have "proc_replay None (sample_kstate, NrProcess_new sample_process) sample_log =
      ((k\<lparr>k_heap := h3\<rparr>, n3), [Ok (ExecutorsCreated 10), Ok (ExecutorResult (?f 9)), Ok (ExecutorResult (?f 8))])"
    unfolding sample_log_def proc_replay.simps 1 2(1) 3(1) prod.case ..
  then show thesis
    by (rule that) (use 3(2,3) a(2,3) in \<open>simp_all add: cores_of_def sample_log_def vspace_inv_def\<close>)
qed

theorem executors_are_exclusive_witness:
  "\<exists>s r x y. proc_replay None (sample_kstate, NrProcess_new sample_process) sample_log =
      (s, [r, Ok (ExecutorResult x), Ok (ExecutorResult y)]) \<and> eid x \<noteq> eid y \<and> window x \<inter> window y = {}"
proof -
  obtain k n r x y where s: "proc_replay None (sample_kstate, NrProcess_new sample_process) sample_log =
      ((k, n), [r, Ok (ExecutorResult x), Ok (ExecutorResult y)])" by (rule sample_replay)
  have "never_fails (k_heap sample_kstate)" by (simp add: sample_kstate_def)
  from executors_are_exclusive [OF sample_new this s, of 1 2 x y] have "eid x \<noteq> eid y \<and> window x \<inter> window y = {}" by simp
  with s show ?thesis by blast
qed


text \<open>A core whose cache is full, so that a refill moves nothing, and a node with one large page.\<close>

definition full_tcache :: MCache where
  "full_tcache = (TCache_new 0)\<lparr>base_page_addresses := map (\<lambda>i. 8388608 + i * 4096) [0..<381],
     large_page_addresses := map (\<lambda>i. 16777216 + i * 2097152) [0..<128]\<rparr>"

definition full_kstate :: "MCache \<Rightarrow> KState" where
  "full_kstate nc = \<lparr>k_heap = [], k_mem = (set_mem_manager (set_global_mem (Kcb_new (TCache_new 0) 0)) full_tcache, [nc]), k_bytes = (\<lambda>_. 0)\<rparr>"

lemma full_kcb:
  "physical_memory (fst (k_mem (full_kstate nc))) = \<lparr>arena_affinity = 0, gmanager = True, pmanager = Some full_tcache\<rparr>"
  "mem_manager (fst (k_mem (full_kstate nc))) = full_tcache"
  "put_mem_manager (fst (k_mem (full_kstate nc))) full_tcache = fst (k_mem (full_kstate nc))"
  "snd (k_mem (full_kstate nc)) = [nc]" "k_heap (full_kstate nc) = []"
  by (simp_all add: full_kstate_def set_mem_manager_def set_global_mem_def Kcb_new_def Arena_uninit_with_node_def mem_manager_def put_mem_manager_def)

lemma full_tcache_room: "spare_base_page_capacity full_tcache = 0" "spare_large_page_capacity full_tcache = 0"
  by (simp_all add: full_tcache_def spare_base_page_capacity_def spare_large_page_capacity_def MCache_new_def del: upt_rec_numeral)

lemma full_refill: "try_refill_tcache (k_mem (full_kstate nc)) bp lp MemDram = (k_mem (full_kstate nc), Ok ())"
proof -
  obtain kcb where m: "k_mem (full_kstate nc) = (kcb, [nc])" using full_kcb(4) [of nc] by (cases "k_mem (full_kstate nc)") simp
  show ?thesis using full_kcb [of nc] full_tcache_room unfolding m
    by (simp add: try_refill_tcache_def refill_caches_def)
qed

definition one_page_node :: MCache where
  "one_page_node = (NCache_new 0)\<lparr>large_page_addresses := [4194304]\<rparr>"

lemma full_add_dispatchers:
  obtains s where "add_dispatchers None 1 0 (full_kstate one_page_node, NrProcess_new sample_process) = (s, Ok 10)"
proof -
  let ?k = "full_kstate one_page_node" and ?k1 = "full_kstate (NCache_new 0)"
  have r: "refill (?k, NrProcess_new sample_process) 20 1 MemDram = ((?k, NrProcess_new sample_process), Ok ())"
    by (simp add: refill_def full_refill)
  have t: "take_node_page 0 (?k, NrProcess_new sample_process) = ((?k1, NrProcess_new sample_process), Ok executor_page)"
    by (simp add: take_node_page_def full_kstate_def set_mem_manager_def set_global_mem_def Kcb_new_def Arena_uninit_with_node_def
        allocate_large_page_def paddr_to_large_page_def one_page_node_def MCache_new_def Frame_new_def executor_page_def)
  let ?z = "zero_frame executor_page ?k1"
  have z: "k_heap ?z = []" "try_refill_tcache (k_mem ?z) 20 0 MemDram = (k_mem ?z, Ok ())"
    by (simp_all add: zero_frame_def full_kcb(5) full_refill)
  have e: "executor_offset sample_process = EXECUTOR_OFFSET" "p_vspace sample_process = \<lparr>mappings = [], page_table = fresh_table\<rparr>"
    "length (executor_cache sample_process) = MAX_NUMA_NODES" by (simp_all add: sample_process_def)
  have f: "fbase executor_page = 4194304" "fsize executor_page = LARGE_PAGE_SIZE" "affinity executor_page = 0" by (simp_all add: executor_page_def)
  obtain k' p' where a: "allocate_executors (?z, sample_process) executor_page = ((k', p'), Ok 10)"
    by (rule allocate_executors_page [of ?z sample_process executor_page], unfold e f z)
      (use vspace_inv_fresh fresh_resolve fresh_table_ok(5) that in \<open>auto simp: entry_ok_def granted_def\<close>)
  have pn: "process (NrProcess_new sample_process) = sample_process" by (simp add: NrProcess_new_def)
  have d: "nr_allocate_dispatchers (proc_dispatch_mut None) (?z, NrProcess_new sample_process) 1 executor_page
      = ((k', (NrProcess_new sample_process)\<lparr>process := p'\<rparr>), Ok 10)"
    by (simp add: nr_allocate_dispatchers_def proc_answer_def proc_dispatch_mut_def on_process_def pn a)
  show thesis by (rule that) (simp only: add_dispatchers_def r t and_then_simps prod.case d expect_simps)
qed


end
