(* ===== verification/Tlb.thy ===== *)
theory Tlb
  imports MapActions
begin

text \<open>
  The TLB shootdown protocol of \<open>arch/x86_64/tlb.rs\<close> with its interrupt handlers in
  \<open>arch/x86_64/irq.rs\<close>, as a system of cores that run concurrently.  A core that unmaps memory puts a
  message into the work queue of every other core of the process, interrupts those cores, flushes its
  own TLB and waits for the acknowledgements.  Kernel code runs with interrupts masked
  (\<open>enable_fast_syscalls\<close> clears the interrupt flag on entry), so only a core outside the kernel
  takes an interrupt.

  The TLB of the processor, the instructions that flush it and the APIC identifiers of the cores
  are parameters.  Allocations that run out of memory, where \<open>shootdown\<close> panics, are left out.
\<close>

unbundle bit_operations_syntax

section \<open>Messages\<close>

type_synonym u32 = "32 word"

abbreviation IPI_WORKQUEUE_CAPACITY :: nat where "IPI_WORKQUEUE_CAPACITY \<equiv> 4"

record Shootdown =
  vregion :: "nat \<times> nat"
  ack :: bool

text \<open>An \<open>Arc<Shootdown>\<close> is an index into the list of all shootdown requests made so far.\<close>

datatype WorkItem = ShootdownItem nat | AdvanceReplica nat

definition Shootdown_new :: "nat \<times> nat \<Rightarrow> Shootdown kres" where
  "Shootdown_new region =
     (if fst region mod BASE_PAGE_SIZE \<noteq> 0 \<or> snd region mod BASE_PAGE_SIZE \<noteq> 0 then Panic
      else Ok \<lparr>vregion = region, ack = False\<rparr>)"

definition acknowledge :: "Shootdown \<Rightarrow> Shootdown" where
  "acknowledge s = s\<lparr>ack := True\<rparr>"

section \<open>The hardware\<close>

text \<open>
  \<open>hw_flush va\<close> and \<open>hw_flush_all\<close> are the two flush instructions, \<open>hw_holds t a\<close> says that the TLB
  \<open>t\<close> translates the address \<open>a\<close>, \<open>cluster_id\<close> and \<open>cluster_address\<close> are bits 4 to 19 and bits 0
  to 3 of the APIC identifier of a core.
\<close>

record 't Hardware =
  hw_flush :: "nat \<Rightarrow> 't \<Rightarrow> 't"
  hw_flush_all :: "'t \<Rightarrow> 't"
  hw_holds :: "'t \<Rightarrow> nat \<Rightarrow> bool"
  cluster_id :: "nat \<Rightarrow> nat"
  cluster_address :: "nat \<Rightarrow> nat"

text \<open>What the manual says of \<open>invlpg\<close> and of reloading the page-table register.\<close>

definition flush_documented :: "'t Hardware \<Rightarrow> bool" where
  "flush_documented hw \<longleftrightarrow>
     (\<forall>va t a. hw_holds hw (hw_flush hw va t) a \<longrightarrow> hw_holds hw t a \<and> a div BASE_PAGE_SIZE \<noteq> va div BASE_PAGE_SIZE)
     \<and> (\<forall>t a. \<not> hw_holds hw (hw_flush_all hw t) a)"

text \<open>The addresses \<open>vregion.step_by(BASE_PAGE_SIZE)\<close> visits, and the flushing half of \<open>process\<close>.\<close>

definition region_pages :: "nat \<times> nat \<Rightarrow> nat list" where
  "region_pages r = map (\<lambda>i. fst r + i * BASE_PAGE_SIZE) [0..<(snd r - fst r + (BASE_PAGE_SIZE - 1)) div BASE_PAGE_SIZE]"

definition flush_region :: "'t Hardware \<Rightarrow> nat \<times> nat \<Rightarrow> 't \<Rightarrow> 't" where
  "flush_region hw r t =
     (if 20 < length (region_pages r) then hw_flush_all hw t else fold (hw_flush hw) (region_pages r) t)"

section \<open>The machine\<close>

text \<open>
  Where a core stands.  \<open>User\<close> is outside the kernel, with interrupts enabled.  The next four are the
  loops and the own flush of \<open>shootdown\<close> for a range, with the cores still to notify, the destination
  words of the clusters, and the requests the core waits for.  \<open>Flushing\<close> is the interrupt handler
  after it has acknowledged and before it has flushed; \<open>Holding\<close> is \<open>eager_advance_fs_replica\<close>
  between taking an item out of its queue and putting it back.
\<close>

datatype core_pc = User
  | Notify "nat \<times> nat" "nat list" "u32 list" "nat list"
  | Ipis "nat \<times> nat" "u32 list" "nat list"
  | OwnFlush "nat \<times> nat" "nat list"
  | Waiting "nat \<times> nat" "nat list"
  | Flushing "nat \<times> nat"
  | Holding WorkItem

text \<open>
  \<open>arc_core\<close> records which core a request was made for and \<open>mapped\<close> which addresses of the process
  the page table still maps; neither is read by the code.
\<close>

record 't machine =
  ipi_workqueue :: "WorkItem list list"
  arcs :: "Shootdown list"
  tlb_pending :: "nat \<Rightarrow> bool"
  gc_pending :: "nat \<Rightarrow> bool"
  pcs :: "nat \<Rightarrow> core_pc"
  tlbs :: "nat \<Rightarrow> 't"
  crashed :: bool
  arc_core :: "nat list"
  mapped :: "nat set"

abbreviation num_threads :: "'t machine \<Rightarrow> nat" where "num_threads m \<equiv> length (ipi_workqueue m)"

definition goto :: "nat \<Rightarrow> core_pc \<Rightarrow> 't machine \<Rightarrow> 't machine" where
  "goto c pc m = m\<lparr>pcs := (pcs m)(c := pc)\<rparr>"

text \<open>\<open>enqueue\<close> ignores the error of a full queue: the item is dropped.\<close>

definition enqueue :: "nat \<Rightarrow> WorkItem \<Rightarrow> 't machine \<Rightarrow> 't machine" where
  "enqueue gtid s m =
     (if length (ipi_workqueue m ! gtid) < IPI_WORKQUEUE_CAPACITY
      then m\<lparr>ipi_workqueue := (ipi_workqueue m)[gtid := ipi_workqueue m ! gtid @ [s]]\<rparr> else m)"

definition dequeue :: "nat \<Rightarrow> 't machine \<Rightarrow> 't machine" where
  "dequeue gtid m = (case ipi_workqueue m ! gtid of
       ShootdownItem i # q \<Rightarrow>
         goto gtid (Flushing (vregion (arcs m ! i)))
           (m\<lparr>ipi_workqueue := (ipi_workqueue m)[gtid := q], arcs := (arcs m)[i := acknowledge (arcs m ! i)]\<rparr>)
     | AdvanceReplica log_id # q \<Rightarrow> m\<lparr>ipi_workqueue := (ipi_workqueue m)[gtid := q]\<rparr>
     | [] \<Rightarrow> m)"

definition flush_own :: "'t Hardware \<Rightarrow> nat \<Rightarrow> nat \<times> nat \<Rightarrow> 't machine \<Rightarrow> 't machine" where
  "flush_own hw c r m = m\<lparr>tlbs := (tlbs m)(c := flush_region hw r (tlbs m c))\<rparr>"

definition cluster_init :: "u32 list" where
  "cluster_init = map (\<lambda>i. push_bit 16 (word_of_nat i)) [0..<16]"

text \<open>One iteration over the cores of the handle, for a core other than the own.\<close>

definition notify_core ::
  "'t Hardware \<Rightarrow> nat \<Rightarrow> nat \<times> nat \<Rightarrow> nat \<Rightarrow> nat list \<Rightarrow> u32 list \<Rightarrow> nat list \<Rightarrow> 't machine \<Rightarrow> 't machine kres" where
  "notify_core hw c r g gs clusters shootdowns m =
     (if \<not> g < num_threads m \<or> \<not> cluster_id hw g < length clusters then Panic
      else bind_result (Shootdown_new r) (\<lambda>s.
        if \<not> length shootdowns < num_threads m then Panic
        else Ok (goto c (Notify r gs (clusters[cluster_id hw g := set_bit (cluster_address hw g) (clusters ! cluster_id hw g)])
                   (shootdowns @ [length (arcs m)]))
               (enqueue g (ShootdownItem (length (arcs m))) (m\<lparr>arcs := arcs m @ [s], arc_core := arc_core m @ [g]\<rparr>)))))"

text \<open>The cores that a logical destination addresses, and the interrupt for them.\<close>

definition addressed :: "'t Hardware \<Rightarrow> u32 \<Rightarrow> nat \<Rightarrow> bool" where
  "addressed hw ldr g \<longleftrightarrow> unat (drop_bit 16 ldr) = cluster_id hw g \<and> cluster_address hw g < 16 \<and> bit ldr (cluster_address hw g)"

definition send_ipi_multicast :: "'t Hardware \<Rightarrow> u32 \<Rightarrow> 't machine \<Rightarrow> 't machine" where
  "send_ipi_multicast hw ldr m = m\<lparr>tlb_pending := (\<lambda>g. tlb_pending m g \<or> (g < num_threads m \<and> addressed hw ldr g))\<rparr>"

text \<open>\<open>cluster_ldr.get_bits(0..=3) != 0\<close>.\<close>

definition cluster_in_use :: "u32 \<Rightarrow> bool" where
  "cluster_in_use ldr \<longleftrightarrow> take_bit 4 ldr \<noteq> 0"

text \<open>The next step of a core, if it has one; \<open>None\<close> is a spin that changes nothing.\<close>

definition core_step :: "'t Hardware \<Rightarrow> nat \<Rightarrow> 't machine \<Rightarrow> 't machine kres option" where
  "core_step hw c m = (case pcs m c of
       User \<Rightarrow> (if tlb_pending m c then Some (Ok (dequeue c (m\<lparr>tlb_pending := (tlb_pending m)(c := False)\<rparr>))) else None)
     | Notify r [] clusters shootdowns \<Rightarrow> Some (Ok (goto c (Ipis r clusters shootdowns) m))
     | Notify r (g # gs) clusters shootdowns \<Rightarrow>
         Some (if g = c then Ok (goto c (Notify r gs clusters shootdowns) m) else notify_core hw c r g gs clusters shootdowns m)
     | Ipis r [] shootdowns \<Rightarrow> Some (Ok (goto c (OwnFlush r shootdowns) m))
     | Ipis r (ldr # ldrs) shootdowns \<Rightarrow>
         Some (Ok (goto c (Ipis r ldrs shootdowns) (if cluster_in_use ldr then send_ipi_multicast hw ldr m else m)))
     | OwnFlush r shootdowns \<Rightarrow> Some (map_result (\<lambda>s. goto c (Waiting r shootdowns) (flush_own hw c (vregion s) m)) (Shootdown_new r))
     | Waiting r shootdowns \<Rightarrow>
         (if shootdowns = [] then Some (Ok (goto c User m))
          else if \<exists>i \<in> set shootdowns. ack (arcs m ! i)
          then Some (Ok (goto c (Waiting r (filter (\<lambda>i. \<not> ack (arcs m ! i)) shootdowns)) m)) else None)
     | Flushing r \<Rightarrow> Some (Ok (goto c User (flush_own hw c r m)))
     | Holding s \<Rightarrow> Some (Ok (goto c User (enqueue c s m))))"

text \<open>
  The entry of \<open>shootdown\<close>, after the mapping was removed; \<open>unmaps\<close> says whether the handle belongs
  to the process that \<open>mapped\<close> is about.
\<close>

definition handle_range :: "TlbFlushHandle \<Rightarrow> nat \<times> nat" where
  "handle_range h = (tlb_vaddr h, tlb_vaddr h + fsize (tlb_frame h))"

definition region_addrs :: "nat \<times> nat \<Rightarrow> nat set" where
  "region_addrs r = {fst r ..< snd r}"

definition shootdown :: "nat \<Rightarrow> TlbFlushHandle \<Rightarrow> bool \<Rightarrow> 't machine \<Rightarrow> 't machine" where
  "shootdown c h unmaps m = goto c (Notify (handle_range h) (handle_cores h) cluster_init [])
     (if unmaps then m\<lparr>mapped := mapped m - region_addrs (handle_range h)\<rparr> else m)"

definition advance_replica :: "nat \<Rightarrow> nat \<Rightarrow> 't machine \<Rightarrow> 't machine" where
  "advance_replica gtid log_id m =
     (enqueue gtid (AdvanceReplica log_id) m)\<lparr>gc_pending := (gc_pending m)(gtid := True)\<rparr>"

definition eager_advance_fs_replica :: "nat \<Rightarrow> 't machine \<Rightarrow> 't machine" where
  "eager_advance_fs_replica c m = (case ipi_workqueue m ! c of
       ShootdownItem i # q \<Rightarrow> goto c (Holding (ShootdownItem i)) (m\<lparr>ipi_workqueue := (ipi_workqueue m)[c := q]\<rparr>)
     | AdvanceReplica log_id # q \<Rightarrow> m\<lparr>ipi_workqueue := (ipi_workqueue m)[c := q]\<rparr>
     | [] \<Rightarrow> m)"

text \<open>
  The steps of the machine.  \<open>running\<close> are the cores that run the process; a handle for the process
  names all of them.  A TLB may forget translations at any time, and a core outside the kernel may
  load translations of addresses that are mapped.
\<close>

inductive tlb_step :: "'t Hardware \<Rightarrow> nat set \<Rightarrow> 't machine \<Rightarrow> 't machine \<Rightarrow> bool"
  for hw running where
  run: "\<lbrakk>\<not> crashed m; c < num_threads m; core_step hw c m = Some (Ok m')\<rbrakk> \<Longrightarrow> tlb_step hw running m m'"
| crash: "\<lbrakk>\<not> crashed m; c < num_threads m; core_step hw c m = Some Panic\<rbrakk> \<Longrightarrow> tlb_step hw running m (m\<lparr>crashed := True\<rparr>)"
| unmap: "\<lbrakk>\<not> crashed m; c < num_threads m; pcs m c = User; running \<subseteq> set (handle_cores h)\<rbrakk>
    \<Longrightarrow> tlb_step hw running m (shootdown c h True m)"
| other: "\<lbrakk>\<not> crashed m; c < num_threads m; pcs m c = User\<rbrakk> \<Longrightarrow> tlb_step hw running m (shootdown c h False m)"
| advance: "\<lbrakk>\<not> crashed m; gtid < num_threads m\<rbrakk> \<Longrightarrow> tlb_step hw running m (advance_replica gtid log_id m)"
| gc_irq: "\<lbrakk>\<not> crashed m; c < num_threads m; pcs m c = User; gc_pending m c\<rbrakk>
    \<Longrightarrow> tlb_step hw running m (dequeue c (m\<lparr>gc_pending := (gc_pending m)(c := False)\<rparr>))"
| eager: "\<lbrakk>\<not> crashed m; c < num_threads m; pcs m c = User\<rbrakk> \<Longrightarrow> tlb_step hw running m (eager_advance_fs_replica c m)"
| load: "\<lbrakk>\<not> crashed m; c < num_threads m; pcs m c = User; \<forall>a. hw_holds hw t a \<longrightarrow> hw_holds hw (tlbs m c) a \<or> a \<in> mapped m\<rbrakk>
    \<Longrightarrow> tlb_step hw running m (m\<lparr>tlbs := (tlbs m)(c := t)\<rparr>)"

definition machine_init :: "nat \<Rightarrow> nat set \<Rightarrow> (nat \<Rightarrow> 't) \<Rightarrow> 't machine" where
  "machine_init n addrs t = \<lparr>ipi_workqueue = replicate n [], arcs = [], tlb_pending = (\<lambda>_. False), gc_pending = (\<lambda>_. False),
     pcs = (\<lambda>_. User), tlbs = t, crashed = False, arc_core = [], mapped = addrs\<rparr>"

section \<open>Flushing a region\<close>

lemma region_page_covers:
  assumes "a \<in> region_addrs r" and "fst r mod BASE_PAGE_SIZE = 0"
  shows "\<exists>va \<in> set (region_pages r). a div BASE_PAGE_SIZE = va div BASE_PAGE_SIZE"
proof -
  define d where "d = a - fst r"
  have a: "a = fst r + d" "d < snd r - fst r" using assms(1) by (auto simp: region_addrs_def d_def)
  obtain q where q: "fst r = BASE_PAGE_SIZE * q" using assms(2) by (auto simp: mod_eq_0_iff_dvd dvd_def)
  have "a div BASE_PAGE_SIZE = (fst r + d div BASE_PAGE_SIZE * BASE_PAGE_SIZE) div BASE_PAGE_SIZE" unfolding a(1) q by simp
  moreover have "d div BASE_PAGE_SIZE < (snd r - fst r + (BASE_PAGE_SIZE - 1)) div BASE_PAGE_SIZE"
    using div_le_mono [of "d + BASE_PAGE_SIZE" "snd r - fst r + (BASE_PAGE_SIZE - 1)" BASE_PAGE_SIZE] a(2) by simp
  ultimately show ?thesis unfolding region_pages_def by auto
qed

lemma fold_flush:
  assumes "flush_documented hw" and "hw_holds hw (fold (hw_flush hw) vs t) a"
  shows "hw_holds hw t a \<and> (\<forall>va \<in> set vs. a div BASE_PAGE_SIZE \<noteq> va div BASE_PAGE_SIZE)"
  using assms(2)
proof (induction vs arbitrary: t)
  case (Cons v vs)
  have "hw_holds hw (hw_flush hw v t) a" "\<forall>va \<in> set vs. a div BASE_PAGE_SIZE \<noteq> va div BASE_PAGE_SIZE"
    using Cons.IH [of "hw_flush hw v t"] Cons.prems by simp_all
  then show ?case using assms(1) unfolding flush_documented_def by auto
qed simp

lemma flush_region_holds:
  assumes "flush_documented hw" and "fst r mod BASE_PAGE_SIZE = 0" and "hw_holds hw (flush_region hw r t) a"
  shows "hw_holds hw t a \<and> a \<notin> region_addrs r"
proof (cases "20 < length (region_pages r)")
  case True
  then show ?thesis using assms(1,3) by (simp add: flush_region_def flush_documented_def)
next
  case False
  then show ?thesis using fold_flush [OF assms(1), of "region_pages r" t a] assms(3) region_page_covers [OF _ assms(2), of a]
    by (auto simp: flush_region_def)
qed

section \<open>No stale translation survives a shootdown\<close>

text \<open>What a core that runs \<open>shootdown\<close> works on, and what it has not done yet.\<close>

fun sending :: "core_pc \<Rightarrow> (nat \<times> nat) option" where
  "sending (Notify r _ _ _) = Some r"
| "sending (Ipis r _ _) = Some r"
| "sending (OwnFlush r _) = Some r"
| "sending (Waiting r _) = Some r"
| "sending _ = None"

fun to_notify :: "core_pc \<Rightarrow> nat set" where
  "to_notify (Notify _ gs _ _) = set gs"
| "to_notify _ = {}"

fun own_left :: "core_pc \<Rightarrow> bool" where
  "own_left (Notify _ _ _ _) \<longleftrightarrow> True"
| "own_left (Ipis _ _ _) \<longleftrightarrow> True"
| "own_left (OwnFlush _ _) \<longleftrightarrow> True"
| "own_left _ \<longleftrightarrow> False"

fun waits_for :: "core_pc \<Rightarrow> nat list" where
  "waits_for (Notify _ _ _ is) = is"
| "waits_for (Ipis _ _ is) = is"
| "waits_for (OwnFlush _ is) = is"
| "waits_for (Waiting _ is) = is"
| "waits_for _ = []"

fun handles :: "core_pc \<Rightarrow> nat \<Rightarrow> bool" where
  "handles (Flushing r) a \<longleftrightarrow> a \<in> region_addrs r"
| "handles _ a \<longleftrightarrow> False"

fun aligned_flush :: "core_pc \<Rightarrow> bool" where
  "aligned_flush (Flushing r) \<longleftrightarrow> fst r mod BASE_PAGE_SIZE = 0"
| "aligned_flush _ \<longleftrightarrow> True"

definition owes :: "'t machine \<Rightarrow> nat \<Rightarrow> nat \<Rightarrow> nat \<Rightarrow> bool" where
  "owes m s c a \<longleftrightarrow> (\<exists>r. sending (pcs m s) = Some r \<and> a \<in> region_addrs r)
     \<and> (c \<in> to_notify (pcs m s) \<or> (c = s \<and> own_left (pcs m s))
        \<or> (\<exists>i \<in> set (waits_for (pcs m s)). arc_core m ! i = c \<and> \<not> ack (arcs m ! i)))"

definition excused :: "'t machine \<Rightarrow> nat \<Rightarrow> nat \<Rightarrow> bool" where
  "excused m c a \<longleftrightarrow> handles (pcs m c) a \<or> (\<exists>s. owes m s c a)"

definition arcs_ok :: "'t machine \<Rightarrow> bool" where
  "arcs_ok m \<longleftrightarrow> length (arc_core m) = length (arcs m)
     \<and> (\<forall>i < length (arcs m). fst (vregion (arcs m ! i)) mod BASE_PAGE_SIZE = 0)
     \<and> (\<forall>g < num_threads m. \<forall>i. ShootdownItem i \<in> set (ipi_workqueue m ! g) \<longrightarrow> i < length (arcs m) \<and> arc_core m ! i = g)
     \<and> (\<forall>s i. i \<in> set (waits_for (pcs m s)) \<longrightarrow> i < length (arcs m) \<and> sending (pcs m s) = Some (vregion (arcs m ! i)))
     \<and> (\<forall>s. aligned_flush (pcs m s))
     \<and> (\<forall>s i. pcs m s = Holding (ShootdownItem i) \<longrightarrow> i < length (arcs m) \<and> arc_core m ! i = s)"

definition tlb_inv :: "'t Hardware \<Rightarrow> nat set \<Rightarrow> 't machine \<Rightarrow> bool" where
  "tlb_inv hw running m \<longleftrightarrow> arcs_ok m
     \<and> (\<forall>c \<in> running. \<forall>a. hw_holds hw (tlbs m c) a \<and> a \<notin> mapped m \<longrightarrow> excused m c a)"

lemma tlb_invD: "\<lbrakk>tlb_inv hw running m; c \<in> running; hw_holds hw (tlbs m c) a; a \<notin> mapped m\<rbrakk> \<Longrightarrow> excused m c a"
  by (simp add: tlb_inv_def)

text \<open>A step that lets no TLB grow and keeps every excuse keeps the invariant.\<close>

lemma tlb_inv_keep:
  assumes "tlb_inv hw running m" and "arcs_ok m'" and "mapped m' = mapped m"
    and "\<And>c a. \<lbrakk>c \<in> running; hw_holds hw (tlbs m' c) a; a \<notin> mapped m\<rbrakk> \<Longrightarrow> hw_holds hw (tlbs m c) a"
    and "\<And>c a. \<lbrakk>excused m c a; hw_holds hw (tlbs m' c) a\<rbrakk> \<Longrightarrow> excused m' c a"
  shows "tlb_inv hw running m'"
  using assms unfolding tlb_inv_def by metis

lemma dequeue_arcs_ok:
  assumes "arcs_ok m" and "pcs m c = User" and "c < num_threads m"
  shows "arcs_ok (dequeue c m)"
proof (cases "ipi_workqueue m ! c")
  case Nil
  then show ?thesis using assms(1) by (simp add: dequeue_def)
next
  case (Cons x q)
  show ?thesis
  proof (cases x)
    case (ShootdownItem i)
    then have i: "i < length (arcs m)" using assms(1,3) Cons unfolding arcs_ok_def by (metis list.set_intros(1))
    have q: "set q \<subseteq> set (ipi_workqueue m ! c)" using Cons by auto
    have "fst (vregion (arcs m ! i)) mod BASE_PAGE_SIZE = 0" using assms(1) i by (simp add: arcs_ok_def)
    then show ?thesis using assms q i Cons ShootdownItem unfolding arcs_ok_def
      by (auto simp: dequeue_def goto_def nth_list_update acknowledge_def)
  next
    case (AdvanceReplica l)
    have q: "set q \<subseteq> set (ipi_workqueue m ! c)" using Cons by auto
    then show ?thesis using assms Cons AdvanceReplica unfolding arcs_ok_def
      by (auto simp: dequeue_def nth_list_update)
  qed
qed

lemma owes_cong:
  "\<lbrakk>pcs m' s = pcs m s; \<And>i. i \<in> set (waits_for (pcs m s)) \<Longrightarrow> arc_core m' ! i = arc_core m ! i \<and> ack (arcs m' ! i) = ack (arcs m ! i)\<rbrakk>
    \<Longrightarrow> owes m' s c a = owes m s c a"
  unfolding owes_def by auto

lemma dequeue_excused:
  assumes "arcs_ok m" and "pcs m c = User" and "c < num_threads m" and e: "excused m d a"
  shows "excused (dequeue c m) d a"
proof (cases "ipi_workqueue m ! c")
  case Nil
  then show ?thesis using e by (simp add: dequeue_def)
next
  case (Cons x q)
  show ?thesis
  proof (cases x)
    case (AdvanceReplica l)
    then show ?thesis using e Cons by (simp add: dequeue_def excused_def owes_def)
  next
    case (ShootdownItem i)
    let ?m = "dequeue c m"
    have i: "i < length (arcs m)" "arc_core m ! i = c"
      using assms(1,3) Cons ShootdownItem unfolding arcs_ok_def by (metis list.set_intros(1))+
    have m: "pcs ?m = (pcs m)(c := Flushing (vregion (arcs m ! i)))" "arc_core ?m = arc_core m"
      "\<And>j. ack (arcs ?m ! j) = (j = i \<or> ack (arcs m ! j))"
      using Cons ShootdownItem i(1) by (auto simp: dequeue_def goto_def acknowledge_def nth_list_update)
    show ?thesis
    proof (cases "handles (pcs m d) a")
      case True
      then have "d \<noteq> c" using assms(2) by auto
      then show ?thesis using True m(1) by (simp add: excused_def)
    next
      case False
      then obtain s where s: "owes m s d a" using e by (auto simp: excused_def)
      then have sc: "s \<noteq> c" using assms(2) by (auto simp: owes_def)
      show ?thesis
      proof (cases "owes ?m s d a")
        case False
        then have "i \<in> set (waits_for (pcs m s))" "d = c" using s sc m i(2) by (auto simp: owes_def)
        moreover have "sending (pcs m s) = Some (vregion (arcs m ! i))" using assms(1) calculation(1) by (simp add: arcs_ok_def)
        ultimately show ?thesis using s m(1) by (auto simp: excused_def owes_def)
      qed (auto simp: excused_def)
    qed
  qed
qed

lemma dequeue_keeps [simp]: "tlbs (dequeue c m) = tlbs m" "mapped (dequeue c m) = mapped m"
  by (simp_all add: dequeue_def goto_def split: list.splits WorkItem.splits)

lemma dequeue_inv:
  assumes "tlb_inv hw running m" and "pcs m c = User" and "c < num_threads m"
  shows "tlb_inv hw running (dequeue c m)"
  using assms by (intro tlb_inv_keep [OF assms(1)] dequeue_arcs_ok dequeue_excused) (auto simp: tlb_inv_def)

lemma arcs_ok_pending [simp]:
  "arcs_ok (m\<lparr>tlb_pending := x\<rparr>) = arcs_ok m" "arcs_ok (m\<lparr>gc_pending := x\<rparr>) = arcs_ok m" "arcs_ok (m\<lparr>crashed := b\<rparr>) = arcs_ok m"
  "arcs_ok (m\<lparr>tlbs := t\<rparr>) = arcs_ok m" "arcs_ok (m\<lparr>mapped := A\<rparr>) = arcs_ok m"
  "excused (m\<lparr>tlb_pending := x\<rparr>) = excused m" "excused (m\<lparr>gc_pending := x\<rparr>) = excused m" "excused (m\<lparr>crashed := b\<rparr>) = excused m"
  "excused (m\<lparr>tlbs := t\<rparr>) = excused m" "excused (m\<lparr>mapped := A\<rparr>) = excused m"
  by (simp_all add: arcs_ok_def excused_def owes_def fun_eq_iff)

lemma tlb_inv_pending [simp]:
  "tlb_inv hw running (m\<lparr>tlb_pending := x\<rparr>) = tlb_inv hw running m" "tlb_inv hw running (m\<lparr>gc_pending := x\<rparr>) = tlb_inv hw running m"
  "tlb_inv hw running (m\<lparr>crashed := b\<rparr>) = tlb_inv hw running m"
  by (simp_all add: tlb_inv_def)

text \<open>Putting an item into a queue, and moving a core on without dropping what it still has to do.\<close>

lemma enqueue_keeps [simp]:
  "arcs (enqueue g x m) = arcs m" "pcs (enqueue g x m) = pcs m" "tlbs (enqueue g x m) = tlbs m" "mapped (enqueue g x m) = mapped m"
  "arc_core (enqueue g x m) = arc_core m" "num_threads (enqueue g x m) = num_threads m" "crashed (enqueue g x m) = crashed m"
  by (simp_all add: enqueue_def)

lemma enqueue_excused [simp]: "excused (enqueue g x m) = excused m"
  by (simp add: excused_def owes_def fun_eq_iff)

lemma enqueue_arcs_ok:
  assumes "arcs_ok m" and "\<And>i. x = ShootdownItem i \<Longrightarrow> i < length (arcs m) \<and> arc_core m ! i = g" and "g < num_threads m"
  shows "arcs_ok (enqueue g x m)"
  using assms unfolding arcs_ok_def enqueue_def by (auto simp: nth_list_update)

lemma goto_keeps [simp]:
  "arcs (goto c x m) = arcs m" "tlbs (goto c x m) = tlbs m" "mapped (goto c x m) = mapped m" "ipi_workqueue (goto c x m) = ipi_workqueue m"
  "arc_core (goto c x m) = arc_core m" "crashed (goto c x m) = crashed m" "pcs (goto c x m) = (pcs m)(c := x)"
  "tlb_pending (goto c x m) = tlb_pending m"
  by (simp_all add: goto_def)

lemma goto_arcs_ok_new:
  assumes "arcs_ok m" and "\<And>i. i \<in> set (waits_for x) \<Longrightarrow> i < length (arcs m) \<and> sending x = Some (vregion (arcs m ! i))"
    and "aligned_flush x" and "\<And>s. x \<noteq> Holding s"
  shows "arcs_ok (goto c x m)"
  using assms unfolding arcs_ok_def by (auto simp: goto_def)

lemma goto_arcs_ok:
  assumes "arcs_ok m" and "set (waits_for x) \<subseteq> set (waits_for (pcs m c))" and "waits_for x = [] \<or> sending x = sending (pcs m c)"
    and "aligned_flush x" and "\<And>s. x \<noteq> Holding s"
  shows "arcs_ok (goto c x m)"
  using assms unfolding arcs_ok_def by (auto simp: goto_def)

text \<open>Moving core \<open>c\<close> from where it stands to \<open>x\<close>.\<close>

lemma goto_excused:
  assumes "excused m d a" and "\<not> (d = c \<and> handles (pcs m c) a)"
    and "owes m c d a \<Longrightarrow> sending x = sending (pcs m c) \<and> (d \<in> to_notify (pcs m c) \<longrightarrow> d \<in> to_notify x \<or> d = c \<and> own_left x)
      \<and> (d = c \<and> own_left (pcs m c) \<longrightarrow> own_left x)
      \<and> (\<forall>i \<in> set (waits_for (pcs m c)). \<not> ack (arcs m ! i) \<longrightarrow> i \<in> set (waits_for x))"
  shows "excused (goto c x m) d a"
proof (cases "handles (pcs m d) a")
  case True
  then have "d \<noteq> c" using assms(2) by auto
  then show ?thesis using True by (simp add: excused_def)
next
  case False
  then obtain s where s: "owes m s d a" using assms(1) by (auto simp: excused_def)
  have "owes (goto c x m) s d a"
  proof (cases "s = c")
    case True
    then show ?thesis using s assms(3) by (auto simp: owes_def)
  next
    case False
    then show ?thesis using s by (simp add: owes_def)
  qed
  then show ?thesis by (auto simp: excused_def)
qed

text \<open>Flushing the own TLB makes the excuses for the flushed region superfluous.\<close>

lemma flush_own_keeps [simp]:
  "arcs (flush_own hw c r m) = arcs m" "pcs (flush_own hw c r m) = pcs m" "mapped (flush_own hw c r m) = mapped m"
  "ipi_workqueue (flush_own hw c r m) = ipi_workqueue m" "arc_core (flush_own hw c r m) = arc_core m" "crashed (flush_own hw c r m) = crashed m"
  "excused (flush_own hw c r m) = excused m" "arcs_ok (flush_own hw c r m) = arcs_ok m" "owes (flush_own hw c r m) = owes m"
  by (simp_all add: flush_own_def owes_def fun_eq_iff)

lemma flush_own_holds:
  assumes "flush_documented hw" and "fst r mod BASE_PAGE_SIZE = 0" and "hw_holds hw (tlbs (flush_own hw c r m) d) a"
  shows "hw_holds hw (tlbs m d) a \<and> (d = c \<longrightarrow> a \<notin> region_addrs r)"
  using assms flush_region_holds [OF assms(1,2), of "tlbs m c" a] by (auto simp: flush_own_def split: if_splits)

lemma flush_step_inv:
  assumes inv: "tlb_inv hw running m" and hw: "flush_documented hw" and pc: "pcs m c = Flushing r"
  shows "tlb_inv hw running (goto c User (flush_own hw c r m))"
proof (rule tlb_inv_keep [OF inv])
  have al: "fst r mod BASE_PAGE_SIZE = 0" using inv pc unfolding tlb_inv_def arcs_ok_def by (metis aligned_flush.simps(1))
  show "arcs_ok (goto c User (flush_own hw c r m))" using inv by (intro goto_arcs_ok) (auto simp: tlb_inv_def)
  fix d a assume h: "hw_holds hw (tlbs (goto c User (flush_own hw c r m)) d) a"
  then have h': "hw_holds hw (tlbs m d) a" "d = c \<longrightarrow> a \<notin> region_addrs r" using flush_own_holds [OF hw al, of c m d a] by simp_all
  show "hw_holds hw (tlbs m d) a" by (rule h'(1))
  assume e: "excused m d a"
  show "excused (goto c User (flush_own hw c r m)) d a"
    by (rule goto_excused) (use e pc h'(2) in \<open>auto simp: owes_def\<close>)
qed simp

lemma own_flush_inv:
  assumes inv: "tlb_inv hw running m" and hw: "flush_documented hw" and pc: "pcs m c = OwnFlush r is" and al: "fst r mod BASE_PAGE_SIZE = 0"
  shows "tlb_inv hw running (goto c (Waiting r is) (flush_own hw c r m))"
proof (rule tlb_inv_keep [OF inv])
  show "arcs_ok (goto c (Waiting r is) (flush_own hw c r m))" using inv pc by (intro goto_arcs_ok) (auto simp: tlb_inv_def)
  fix d a assume h: "hw_holds hw (tlbs (goto c (Waiting r is) (flush_own hw c r m)) d) a"
  then have h': "hw_holds hw (tlbs m d) a" "d = c \<longrightarrow> a \<notin> region_addrs r" using flush_own_holds [OF hw al, of c m d a] by simp_all
  show "hw_holds hw (tlbs m d) a" by (rule h'(1))
  assume e: "excused m d a"
  show "excused (goto c (Waiting r is) (flush_own hw c r m)) d a"
    by (rule goto_excused) (use e pc h'(2) in \<open>auto simp: owes_def\<close>)
qed simp

text \<open>A core that moves on without touching its TLB.\<close>

lemma goto_inv:
  assumes inv: "tlb_inv hw running m" and pc: "set (waits_for x) \<subseteq> set (waits_for (pcs m c))" "waits_for x = [] \<or> sending x = sending (pcs m c)"
    "aligned_flush x" "\<And>s. x \<noteq> Holding s"
    and e: "\<And>d a. excused m d a \<Longrightarrow> excused (goto c x m) d a"
  shows "tlb_inv hw running (goto c x m)"
  by (rule tlb_inv_keep [OF inv]) (use inv pc e in \<open>auto simp: tlb_inv_def intro: goto_arcs_ok\<close>)

lemma notify_core_inv:
  assumes inv: "tlb_inv hw running m" and pc: "pcs m c = Notify r (g # gs) cl is" and "notify_core hw c r g gs cl is m = Ok m'"
  shows "tlb_inv hw running m'"
proof -
  let ?i = "length (arcs m)" and ?cl = "cl[cluster_id hw g := set_bit (cluster_address hw g) (cl ! cluster_id hw g)]"
  let ?m = "m\<lparr>arcs := arcs m @ [\<lparr>vregion = r, ack = False\<rparr>], arc_core := arc_core m @ [g]\<rparr>"
  have al: "fst r mod BASE_PAGE_SIZE = 0" and g: "g < num_threads m"
    and m': "m' = goto c (Notify r gs ?cl (is @ [?i])) (enqueue g (ShootdownItem ?i) ?m)"
    using assms(3) by (auto simp: notify_core_def Shootdown_new_def split: if_splits)
  have ok: "arcs_ok m" using inv by (simp add: tlb_inv_def)
  then have len: "length (arc_core m) = ?i" by (simp add: arcs_ok_def)
  have w: "i < ?i" if "i \<in> set (waits_for (pcs m s))" for i s using ok that by (simp add: arcs_ok_def)
  have "arcs_ok ?m" using ok al unfolding arcs_ok_def by (auto simp: nth_append less_Suc_eq)
  then have q: "arcs_ok (enqueue g (ShootdownItem ?i) ?m)" using g len by (intro enqueue_arcs_ok) auto
  have r: "vregion (arcs m ! i) = r" if "i \<in> set is" for i
    using ok that pc unfolding arcs_ok_def by (metis option.inject sending.simps(1) waits_for.simps(1))
  have "arcs_ok m'" unfolding m' by (rule goto_arcs_ok_new [OF q]) (use r w [of _ c] pc in \<open>auto simp: nth_append\<close>)
  moreover have "excused m' d a" if e: "excused m d a" for d a
  proof (cases "handles (pcs m d) a")
    case True
    then have "d \<noteq> c" using pc by auto
    then show ?thesis using True by (simp add: excused_def m')
  next
    case False
    then obtain s where s: "owes m s d a" using e by (auto simp: excused_def)
    have "owes m' s d a"
    proof (cases "s = c")
      case True
      then show ?thesis using s pc len w [of _ c] unfolding owes_def m' by (auto simp: nth_append)
    next
      case False
      then show ?thesis using s len w [of _ s] unfolding owes_def m' by (auto simp: nth_append)
    qed
    then show ?thesis by (auto simp: excused_def)
  qed
  ultimately show ?thesis by (intro tlb_inv_keep [OF inv]) (auto simp: m')
qed

lemma core_step_inv:
  assumes inv: "tlb_inv hw running m" and hw: "flush_documented hw" and c: "c < num_threads m" and st: "core_step hw c m = Some (Ok m')"
  shows "tlb_inv hw running m'"
proof (cases "pcs m c")
  case User
  then have "m' = dequeue c (m\<lparr>tlb_pending := (tlb_pending m)(c := False)\<rparr>)" using st by (simp add: core_step_def split: if_splits)
  then show ?thesis using dequeue_inv [of hw running "m\<lparr>tlb_pending := (tlb_pending m)(c := False)\<rparr>" c] inv c User by simp
next
  case (Notify r gs cl "is")
  show ?thesis
  proof (cases gs)
    case Nil
    then have "m' = goto c (Ipis r cl is) m" using st Notify by (simp add: core_step_def)
    then show ?thesis using inv Notify Nil by (auto intro!: goto_inv goto_excused)
  next
    case (Cons g gs')
    show ?thesis
    proof (cases "g = c")
      case True
      then have "m' = goto c (Notify r gs' cl is) m" using st Notify Cons by (simp add: core_step_def)
      then show ?thesis using inv Notify Cons True by (auto intro!: goto_inv goto_excused)
    next
      case False
      then have "notify_core hw c r g gs' cl is m = Ok m'" using st Notify Cons by (simp add: core_step_def)
      then show ?thesis using notify_core_inv [OF inv] Notify Cons by simp
    qed
  qed
next
  case (Ipis r ls "is")
  show ?thesis
  proof (cases ls)
    case Nil
    then have "m' = goto c (OwnFlush r is) m" using st Ipis by (simp add: core_step_def)
    then show ?thesis using inv Ipis by (auto intro!: goto_inv goto_excused)
  next
    case (Cons l ls')
    let ?m = "if cluster_in_use l then send_ipi_multicast hw l m else m"
    have "m' = goto c (Ipis r ls' is) ?m" using st Ipis Cons by (simp add: core_step_def)
    moreover have "tlb_inv hw running ?m" "pcs ?m c = Ipis r ls is" using inv Ipis by (simp_all add: send_ipi_multicast_def)
    ultimately show ?thesis by (auto intro!: goto_inv goto_excused)
  qed
next
  case (OwnFlush r "is")
  then have "m' = goto c (Waiting r is) (flush_own hw c r m)" "fst r mod BASE_PAGE_SIZE = 0"
    using st by (auto simp: core_step_def Shootdown_new_def split: if_splits)
  then show ?thesis using own_flush_inv [OF inv hw OwnFlush] by simp
next
  case (Waiting r "is")
  then have "m' = goto c User m \<and> is = [] \<or> m' = goto c (Waiting r (filter (\<lambda>i. \<not> ack (arcs m ! i)) is)) m"
    using st by (auto simp: core_step_def split: if_splits)
  then show ?thesis using inv Waiting by (elim disjE) (auto simp: owes_def intro!: goto_inv goto_excused)
next
  case (Flushing r)
  then have "m' = goto c User (flush_own hw c r m)" using st by (simp add: core_step_def)
  then show ?thesis using flush_step_inv [OF inv hw Flushing] by simp
next
  case (Holding x)
  then have m': "m' = goto c User (enqueue c x m)" using st by (simp add: core_step_def)
  have "\<And>i. x = ShootdownItem i \<Longrightarrow> i < length (arcs m) \<and> arc_core m ! i = c"
    using inv Holding by (simp add: tlb_inv_def arcs_ok_def)
  then have "arcs_ok (enqueue c x m)" using inv c by (intro enqueue_arcs_ok) (simp_all add: tlb_inv_def)
  then have "tlb_inv hw running (enqueue c x m)" by (intro tlb_inv_keep [OF inv]) auto
  then show ?thesis unfolding m' by (rule goto_inv) (auto simp: Holding intro!: goto_excused)
qed

lemma shootdown_inv:
  assumes inv: "tlb_inv hw running m" and pc: "pcs m c = User" and own: "unmaps \<Longrightarrow> running \<subseteq> set (handle_cores h)"
  shows "tlb_inv hw running (shootdown c h unmaps m)"
proof -
  let ?x = "Notify (handle_range h) (handle_cores h) cluster_init []"
  have ok: "arcs_ok (goto c ?x m')" if "arcs_ok m'" for m' :: "'a machine" using that by (intro goto_arcs_ok) auto
  have e: "excused (goto c ?x m) d a" if "excused m d a" for d a using that pc by (intro goto_excused) (auto simp: owes_def)
  have new: "excused (goto c ?x m) d a" if "unmaps" "d \<in> running" "a \<in> region_addrs (handle_range h)" for d a
  proof -
    have "d \<in> set (handle_cores h)" using own that(1,2) by auto
    then have "owes (goto c ?x m) c d a" using that(3) by (simp add: owes_def)
    then show ?thesis by (auto simp: excused_def)
  qed
  have x: "excused (goto c ?x (m\<lparr>mapped := A\<rparr>)) = excused (goto c ?x m)" for A
    by (simp add: excused_def owes_def fun_eq_iff)
  show ?thesis
    using inv ok e new unfolding tlb_inv_def shootdown_def by (auto simp: x)
qed

lemma eager_inv:
  assumes inv: "tlb_inv hw running m" and pc: "pcs m c = User" and c: "c < num_threads m"
  shows "tlb_inv hw running (eager_advance_fs_replica c m)"
proof (cases "ipi_workqueue m ! c")
  case Nil
  then show ?thesis using inv by (simp add: eager_advance_fs_replica_def)
next
  case (Cons x q)
  let ?m = "m\<lparr>ipi_workqueue := (ipi_workqueue m)[c := q]\<rparr>"
  have i: "i < length (arcs m) \<and> arc_core m ! i = c" if "x = ShootdownItem i" for i
    using inv c Cons that unfolding tlb_inv_def arcs_ok_def by (metis list.set_intros(1))
  have ok: "arcs_ok ?m" using inv c Cons unfolding tlb_inv_def arcs_ok_def by (auto simp: nth_list_update)
  have ex: "excused ?m = excused m" by (simp add: excused_def owes_def fun_eq_iff)
  have m: "tlb_inv hw running ?m" using inv ok by (simp add: tlb_inv_def ex)
  show ?thesis
  proof (cases x)
    case (AdvanceReplica l)
    then show ?thesis using m Cons by (simp add: eager_advance_fs_replica_def)
  next
    case (ShootdownItem j)
    have "arcs_ok (goto c (Holding x) ?m)" using ok i unfolding arcs_ok_def by (auto simp: goto_def)
    moreover have "excused (goto c (Holding x) ?m) d a" if "excused m d a" for d a
      using that pc by (intro goto_excused) (auto simp: owes_def ex)
    ultimately have "tlb_inv hw running (goto c (Holding x) ?m)" using m by (auto simp: tlb_inv_def ex)
    then show ?thesis using Cons ShootdownItem by (simp add: eager_advance_fs_replica_def)
  qed
qed

lemma advance_inv:
  assumes inv: "tlb_inv hw running m" and g: "g < num_threads m"
  shows "tlb_inv hw running (advance_replica g l m)"
proof -
  have "arcs_ok (enqueue g (AdvanceReplica l) m)" using inv g by (intro enqueue_arcs_ok) (auto simp: tlb_inv_def)
  then have "tlb_inv hw running (enqueue g (AdvanceReplica l) m)" using inv by (simp add: tlb_inv_def)
  then show ?thesis by (simp add: advance_replica_def)
qed

lemma tlb_step_inv:
  assumes "tlb_step hw running m m'" and "flush_documented hw" and inv: "tlb_inv hw running m"
  shows "tlb_inv hw running m'"
  using assms(1)
proof cases
  case (run c)
  then show ?thesis using core_step_inv [OF inv assms(2)] by simp
next
  case (load c t)
  then show ?thesis using inv by (auto simp: tlb_inv_def)
next
  case (gc_irq c)
  then show ?thesis using dequeue_inv [of hw running "m\<lparr>gc_pending := (gc_pending m)(c := False)\<rparr>" c] inv by simp
qed (use inv in \<open>simp_all add: shootdown_inv eager_inv advance_inv\<close>)

lemma machine_init_inv:
  "(\<And>c a. \<lbrakk>c \<in> running; hw_holds hw (t c) a\<rbrakk> \<Longrightarrow> a \<in> addrs) \<Longrightarrow> tlb_inv hw running (machine_init n addrs t)"
  by (auto simp: tlb_inv_def arcs_ok_def machine_init_def)


section \<open>A shootdown ends\<close>

text \<open>How many steps a core has left, at most; \<open>n\<close> is the number of cores.\<close>

fun steps_left :: "nat \<Rightarrow> core_pc \<Rightarrow> nat" where
  "steps_left n User = 0"
| "steps_left n (Flushing _) = 1"
| "steps_left n (Holding _) = 1"
| "steps_left n (Waiting _ is) = 1 + length is"
| "steps_left n (OwnFlush _ is) = 2 + length is"
| "steps_left n (Ipis _ ls is) = 3 + length is + length ls * (2 * n + 1)"
| "steps_left n (Notify _ gs cl is) = 4 + length is + 2 * length gs + length cl * (2 * n + 1)"

definition work_left :: "'t machine \<Rightarrow> nat" where
  "work_left m = (\<Sum>c < num_threads m. steps_left (num_threads m) (pcs m c)) + (\<Sum>c < num_threads m. if tlb_pending m c then 2 else 0)"

lemma sum_update:
  fixes f :: "'b \<Rightarrow> nat" and n :: nat
  assumes "c < n" shows "(\<Sum>d < n. f ((p(c := x)) d)) + f (p c) = (\<Sum>d < n. f (p d)) + f x"
proof -
  have "(\<Sum>d < n. f ((p(c := x)) d)) = f x + (\<Sum>d \<in> {..<n} - {c}. f (p d))"
    using assms by (subst sum.remove [of _ c]) (auto intro!: sum.cong)
  moreover have "(\<Sum>d < n. f (p d)) = f (p c) + (\<Sum>d \<in> {..<n} - {c}. f (p d))"
    using assms by (intro sum.remove) auto
  ultimately show ?thesis by simp
qed

lemma work_left_goto:
  "c < num_threads m \<Longrightarrow> work_left (goto c x m) + steps_left (num_threads m) (pcs m c) = work_left m + steps_left (num_threads m) x"
  using sum_update [of c "num_threads m" "steps_left (num_threads m)" "pcs m" x] by (simp add: work_left_def)

lemma work_left_multicast: "work_left (send_ipi_multicast hw l m) \<le> work_left m + 2 * num_threads m"
proof -
  have "(\<Sum>c < num_threads m. if tlb_pending (send_ipi_multicast hw l m) c then 2 else (0::nat))
      \<le> (\<Sum>c < num_threads m. (if tlb_pending m c then 2 else 0) + 2)"
    by (rule sum_mono) (auto simp: send_ipi_multicast_def)
  also have "\<dots> = (\<Sum>c < num_threads m. if tlb_pending m c then 2 else 0) + 2 * num_threads m"
    unfolding sum.distrib by simp
  finally show ?thesis by (simp add: work_left_def send_ipi_multicast_def)
qed

lemma work_left_cong:
  "\<lbrakk>num_threads m' = num_threads m; pcs m' = pcs m; tlb_pending m' = tlb_pending m\<rbrakk> \<Longrightarrow> work_left m' = work_left m"
  by (simp add: work_left_def)

lemma work_left_clear:
  assumes "c < num_threads m" "tlb_pending m c"
  shows "work_left (m\<lparr>tlb_pending := (tlb_pending m)(c := False)\<rparr>) + 2 = work_left m"
proof -
  have "(\<Sum>d < num_threads m. if ((tlb_pending m)(c := False)) d then 2 else 0) + 2 = (\<Sum>d < num_threads m. if tlb_pending m d then 2 else (0::nat))"
    using sum_update [OF assms(1), of "\<lambda>b. if b then 2 else 0" "tlb_pending m" False] assms(2) by simp
  then show ?thesis by (simp add: work_left_def)
qed

lemma work_left_dequeue:
  assumes "c < num_threads m" "pcs m c = User"
  shows "work_left (dequeue c m) \<le> work_left m + 1"
proof (cases "ipi_workqueue m ! c")
  case Nil
  then show ?thesis by (simp add: dequeue_def)
next
  case (Cons x q)
  let ?q = "(ipi_workqueue m)[c := q]"
  show ?thesis
  proof (cases x)
    case (ShootdownItem i)
    let ?m = "m\<lparr>ipi_workqueue := ?q, arcs := (arcs m)[i := acknowledge (arcs m ! i)]\<rparr>"
    have "work_left ?m = work_left m" by (rule work_left_cong) simp_all
    then show ?thesis using work_left_goto [of c ?m "Flushing (vregion (arcs m ! i))"] assms Cons ShootdownItem by (simp add: dequeue_def)
  next
    case (AdvanceReplica l)
    then show ?thesis using Cons work_left_cong [of "m\<lparr>ipi_workqueue := ?q\<rparr>" m] by (simp add: dequeue_def)
  qed
qed

lemma core_step_decreases:
  assumes c: "c < num_threads m" and st: "core_step hw c m = Some (Ok m')"
  shows "work_left m' < work_left m"
proof (cases "pcs m c")
  case User
  let ?m = "m\<lparr>tlb_pending := (tlb_pending m)(c := False)\<rparr>"
  have m: "tlb_pending m c" "m' = dequeue c ?m" using st User by (simp_all add: core_step_def split: if_splits)
  then show ?thesis using work_left_clear [OF c m(1)] work_left_dequeue [of c ?m] c User by simp
next
  case (Notify r gs cl "is")
  show ?thesis
  proof (cases gs)
    case Nil
    then show ?thesis using st Notify work_left_goto [OF c, of "Ipis r cl is"] by (simp add: core_step_def)
  next
    case (Cons g gs')
    show ?thesis
    proof (cases "g = c")
      case True
      then show ?thesis using st Notify Cons work_left_goto [OF c, of "Notify r gs' cl is"] by (simp add: core_step_def)
    next
      case False
      let ?cl = "cl[cluster_id hw g := set_bit (cluster_address hw g) (cl ! cluster_id hw g)]"
      obtain m1 where m1: "m' = goto c (Notify r gs' ?cl (is @ [length (arcs m)])) m1"
        "num_threads m1 = num_threads m" "pcs m1 = pcs m" "tlb_pending m1 = tlb_pending m"
        using st Notify Cons False by (auto simp: core_step_def notify_core_def Shootdown_new_def enqueue_def split: if_splits)
      have "work_left m1 = work_left m" by (rule work_left_cong [OF m1(2-4)])
      then show ?thesis using work_left_goto [of c m1 "Notify r gs' ?cl (is @ [length (arcs m)])"] c m1 Notify Cons by simp
    qed
  qed
next
  case (Ipis r ls "is")
  show ?thesis
  proof (cases ls)
    case Nil
    then show ?thesis using st Ipis work_left_goto [OF c, of "OwnFlush r is"] by (simp add: core_step_def)
  next
    case (Cons l ls')
    let ?m = "if cluster_in_use l then send_ipi_multicast hw l m else m"
    have "work_left ?m \<le> work_left m + 2 * num_threads m" using work_left_multicast [of hw l m] by simp
    moreover have "num_threads ?m = num_threads m" "pcs ?m = pcs m" by (simp_all add: send_ipi_multicast_def)
    ultimately show ?thesis using st Ipis Cons work_left_goto [of c ?m "Ipis r ls' is"] c by (simp add: core_step_def)
  qed
next
  case (OwnFlush r "is")
  have "work_left (flush_own hw c r m) = work_left m" by (rule work_left_cong) (simp_all add: flush_own_def)
  then show ?thesis using st OwnFlush work_left_goto [of c "flush_own hw c r m" "Waiting r is"] c
    by (auto simp: core_step_def Shootdown_new_def split: if_splits)
next
  case (Waiting r "is")
  then consider "is = []" "m' = goto c User m" | "\<exists>i \<in> set is. ack (arcs m ! i)" "m' = goto c (Waiting r (filter (\<lambda>i. \<not> ack (arcs m ! i)) is)) m"
    using st by (auto simp: core_step_def split: if_splits)
  then show ?thesis
  proof cases
    case 1
    then show ?thesis using work_left_goto [OF c, of User] Waiting by simp
  next
    case 2
    then have "length (filter (\<lambda>i. \<not> ack (arcs m ! i)) is) < length is" by (auto intro: length_filter_less)
    then show ?thesis using work_left_goto [OF c, of "Waiting r (filter (\<lambda>i. \<not> ack (arcs m ! i)) is)"] 2(2) Waiting by simp
  qed
next
  case (Flushing r)
  have "work_left (flush_own hw c r m) = work_left m" by (rule work_left_cong) (simp_all add: flush_own_def)
  then show ?thesis using st Flushing work_left_goto [of c "flush_own hw c r m" User] c by (simp add: core_step_def)
next
  case (Holding x)
  have "work_left (enqueue c x m) = work_left m" by (rule work_left_cong) (simp_all add: enqueue_def)
  then show ?thesis using st Holding work_left_goto [of c "enqueue c x m" User] c by (simp add: core_step_def)
qed

text \<open>The destination words.\<close>

fun words_left :: "core_pc \<Rightarrow> u32 list" where
  "words_left (Notify _ _ cl _) = cl"
| "words_left (Ipis _ ls _) = ls"
| "words_left _ = []"

text \<open>A word whose interrupt is sent and reaches core \<open>g\<close>.\<close>

definition wakes :: "'t Hardware \<Rightarrow> u32 \<Rightarrow> nat \<Rightarrow> bool" where
  "wakes hw l g \<longleftrightarrow> cluster_in_use l \<and> addressed hw l g"

lemma drop_set_bit: "a < 16 \<Longrightarrow> drop_bit 16 (set_bit a (l :: u32)) = drop_bit 16 l"
  by (rule bit_word_eqI) (auto simp: bit_simps)

lemma in_use_iff: "cluster_in_use l \<longleftrightarrow> (\<exists>k < 4. bit l k)"
proof
  assume "cluster_in_use l"
  then obtain k where "bit (take_bit 4 l) k" unfolding cluster_in_use_def by (metis bit_eqI bit_0_eq bot_apply bot_bool_def)
  then show "\<exists>k < 4. bit l k" by (auto simp: bit_take_bit_iff)
next
  assume "\<exists>k < 4. bit l k"
  then obtain k where "bit (take_bit 4 l) k" by (auto simp: bit_take_bit_iff)
  then show "cluster_in_use l" unfolding cluster_in_use_def by (metis bit_0_eq bot_apply bot_bool_def)
qed

lemma wakes_mono: "\<lbrakk>wakes hw l g; a < 16\<rbrakk> \<Longrightarrow> wakes hw (set_bit a l) g"
  by (auto simp: wakes_def addressed_def in_use_iff drop_set_bit bit_set_bit_iff)

lemma wakes_new:
  assumes "unat (drop_bit 16 l) = cluster_id hw g" and "cluster_address hw g < 4"
  shows "wakes hw (set_bit (cluster_address hw g) l) g"
  using assms by (auto simp: wakes_def addressed_def in_use_iff drop_set_bit bit_set_bit_iff)

definition headed :: "u32 list \<Rightarrow> bool" where
  "headed cl \<longleftrightarrow> length cl = 16 \<and> (\<forall>i < 16. unat (drop_bit 16 (cl ! i)) = i)"

lemma headed_update: "\<lbrakk>headed cl; j < 16; a < 16\<rbrakk> \<Longrightarrow> headed (cl[j := set_bit a (cl ! j)])"
  by (auto simp: headed_def nth_list_update drop_set_bit)

lemma headed_init: "headed cluster_init"
proof -
  have "unat (drop_bit 16 (push_bit 16 (word_of_nat i :: u32))) = i" if "i < 16" for i
  proof -
    have "drop_bit 16 (push_bit 16 (word_of_nat i :: u32)) = word_of_nat i"
    proof (rule bit_word_eqI)
      fix k assume "k < LENGTH(32)"
      have "i < 2 ^ 4" using that by simp
      then have "bit i j \<Longrightarrow> j < 4" for j by (metis bit_take_bit_iff take_bit_nat_eq_self)
      then have b: "bit i j \<Longrightarrow> j < 16" for j by (meson less_trans numeral_less_iff semiring_norm(76,78,81))
      show "bit (drop_bit 16 (push_bit 16 (word_of_nat i :: u32))) k \<longleftrightarrow> bit (word_of_nat i :: u32) k"
        using \<open>k < LENGTH(32)\<close> by (auto simp: bit_simps dest: b)
    qed
    then show ?thesis using that by (simp add: unat_of_nat take_bit_nat_eq_self)
  qed
  then show ?thesis by (simp add: headed_def cluster_init_def del: upt_rec_numeral)
qed

text \<open>
  A shootdown by core \<open>s\<close> while every other core runs user code or handles its interrupt: an
  unacknowledged request is in the queue of its core, and a core with a request in its queue has an
  interrupt pending or will get one.
\<close>

fun sender_ok :: "'t Hardware \<Rightarrow> WorkItem list list \<Rightarrow> core_pc \<Rightarrow> bool" where
  "sender_ok hw q (Notify r gs cl is) \<longleftrightarrow> fst r mod BASE_PAGE_SIZE = 0 \<and> snd r mod BASE_PAGE_SIZE = 0 \<and> distinct gs
     \<and> (\<forall>g \<in> set gs. g < length q \<and> cluster_id hw g < 16 \<and> cluster_address hw g < 4 \<and> q ! g = [])
     \<and> length is + length gs \<le> length q \<and> headed cl"
| "sender_ok hw q (Ipis r _ _) \<longleftrightarrow> fst r mod BASE_PAGE_SIZE = 0 \<and> snd r mod BASE_PAGE_SIZE = 0"
| "sender_ok hw q (OwnFlush r _) \<longleftrightarrow> fst r mod BASE_PAGE_SIZE = 0 \<and> snd r mod BASE_PAGE_SIZE = 0"
| "sender_ok hw q (Waiting _ _) \<longleftrightarrow> True"
| "sender_ok hw q User \<longleftrightarrow> True"
| "sender_ok hw q _ \<longleftrightarrow> False"

definition solo :: "'t Hardware \<Rightarrow> nat \<Rightarrow> 't machine \<Rightarrow> bool" where
  "solo hw s m \<longleftrightarrow> s < num_threads m \<and> sender_ok hw (ipi_workqueue m) (pcs m s) \<and> ipi_workqueue m ! s = []
     \<and> (\<forall>c. c \<noteq> s \<longrightarrow> pcs m c = User \<or> (\<exists>r. pcs m c = Flushing r))
     \<and> (\<forall>g < num_threads m. ipi_workqueue m ! g \<noteq> [] \<longrightarrow> (\<exists>i < length (arcs m). ipi_workqueue m ! g = [ShootdownItem i])
          \<and> (tlb_pending m g \<or> (\<exists>l \<in> set (words_left (pcs m s)). wakes hw l g)))
     \<and> length (arc_core m) = length (arcs m)
     \<and> (\<forall>i \<in> set (waits_for (pcs m s)). i < length (arcs m)
          \<and> (ack (arcs m ! i) \<or> (arc_core m ! i < num_threads m \<and> ipi_workqueue m ! (arc_core m ! i) = [ShootdownItem i])))"

lemma soloD:
  assumes "solo hw s m"
  shows "s < num_threads m" "sender_ok hw (ipi_workqueue m) (pcs m s)" "ipi_workqueue m ! s = []"
    "\<And>c. c \<noteq> s \<Longrightarrow> pcs m c = User \<or> (\<exists>r. pcs m c = Flushing r)"
    "\<And>g. \<lbrakk>g < num_threads m; ipi_workqueue m ! g \<noteq> []\<rbrakk> \<Longrightarrow> (\<exists>i < length (arcs m). ipi_workqueue m ! g = [ShootdownItem i])
       \<and> (tlb_pending m g \<or> (\<exists>l \<in> set (words_left (pcs m s)). wakes hw l g))"
    "length (arc_core m) = length (arcs m)"
    "\<And>i. i \<in> set (waits_for (pcs m s)) \<Longrightarrow> i < length (arcs m)
       \<and> (ack (arcs m ! i) \<or> (arc_core m ! i < num_threads m \<and> ipi_workqueue m ! (arc_core m ! i) = [ShootdownItem i]))"
  using assms unfolding solo_def by blast+

text \<open>While the shootdown is not over, some core has a step.\<close>

lemma solo_enabled:
  assumes so: "solo hw s m" and stuck: "\<And>c. c < num_threads m \<Longrightarrow> core_step hw c m = None"
  shows "pcs m s = User"
proof (cases "pcs m s")
  case (Waiting r "is")
  have ne: "is \<noteq> []" "\<forall>i \<in> set is. \<not> ack (arcs m ! i)"
    using stuck [OF soloD(1) [OF so]] Waiting by (auto simp: core_step_def split: if_splits)
  then obtain i where i: "i \<in> set is" by (cases "is") auto
  let ?g = "arc_core m ! i"
  have g: "?g < num_threads m" "ipi_workqueue m ! ?g = [ShootdownItem i]" using soloD(7) [OF so, of i] i ne(2) Waiting by auto
  then have "?g \<noteq> s" using soloD(3) [OF so] by auto
  moreover have "tlb_pending m ?g" using soloD(5) [OF so g(1)] g(2) Waiting by simp
  ultimately show ?thesis using soloD(4) [OF so, of ?g] stuck [OF g(1)] by (auto simp: core_step_def)
next
  case (Notify r gs cl "is")
  then show ?thesis using stuck [OF soloD(1) [OF so]] by (cases gs) (auto simp: core_step_def)
next
  case (Ipis r ls "is")
  then show ?thesis using stuck [OF soloD(1) [OF so]] by (cases ls) (auto simp: core_step_def)
qed (use stuck [OF soloD(1) [OF so]] soloD(2) [OF so] in \<open>auto simp: core_step_def\<close>)

lemma solo_no_panic:
  assumes so: "solo hw s m" and c: "c < num_threads m"
  shows "core_step hw c m \<noteq> Some Panic"
proof (cases "c = s")
  case False
  then show ?thesis using soloD(4) [OF so, of c] by (auto simp: core_step_def)
next
  case True
  show ?thesis
  proof (cases "pcs m s")
    case (Notify r gs cl "is")
    then show ?thesis using soloD(2) [OF so] True
      by (cases gs) (auto simp: core_step_def notify_core_def Shootdown_new_def headed_def)
  next
    case (Ipis r ls "is")
    then show ?thesis using True by (cases ls) (auto simp: core_step_def)
  qed (use soloD(2) [OF so] True in \<open>auto simp: core_step_def Shootdown_new_def\<close>)
qed

lemma solo_irq:
  assumes so: "solo hw s m" and c: "c < num_threads m" and pc: "pcs m c = User"
  shows "solo hw s (dequeue c (m\<lparr>tlb_pending := (tlb_pending m)(c := False)\<rparr>))"
proof -
  let ?m = "m\<lparr>tlb_pending := (tlb_pending m)(c := False)\<rparr>"
  note d = soloD [OF so]
  show ?thesis
  proof (cases "ipi_workqueue m ! c = []")
    case True
    then have e: "dequeue c ?m = ?m" by (simp add: dequeue_def)
    have q: "g \<noteq> c" if "ipi_workqueue m ! g \<noteq> []" for g using True that by auto
    show ?thesis unfolding e solo_def using d q by simp
  next
    case False
    then obtain i where i: "i < length (arcs m)" "ipi_workqueue m ! c = [ShootdownItem i]" using d(5) [OF c] by blast
    have sc: "s \<noteq> c" using False d(3) by auto
    let ?n = "dequeue c ?m"
    have n: "ipi_workqueue ?n = (ipi_workqueue m)[c := []]" "pcs ?n = (pcs m)(c := Flushing (vregion (arcs m ! i)))"
      "arcs ?n = (arcs m)[i := acknowledge (arcs m ! i)]" "tlb_pending ?n = (tlb_pending m)(c := False)" "arc_core ?n = arc_core m"
      using i(2) by (simp_all add: dequeue_def goto_def)
    have ok: "sender_ok hw (ipi_workqueue ?n) (pcs m s)"
      using d(2) c by (cases "pcs m s") (auto simp: n nth_list_update)
    have w: "j < length (arcs m) \<and> (ack (arcs ?n ! j) \<or> (arc_core m ! j < num_threads m \<and> ipi_workqueue ?n ! (arc_core m ! j) = [ShootdownItem j]))"
      if "j \<in> set (waits_for (pcs m s))" for j
      using d(7) [OF that] i c by (auto simp: n nth_list_update acknowledge_def)
    have q: "(\<exists>j < length (arcs m). ipi_workqueue ?n ! g = [ShootdownItem j])
        \<and> (tlb_pending ?n g \<or> (\<exists>l \<in> set (words_left (pcs m s)). wakes hw l g))" if "g < num_threads m" "ipi_workqueue ?n ! g \<noteq> []" for g
      using that d(5) [OF that(1)] c by (cases "g = c") (auto simp: n)
    show ?thesis unfolding solo_def using d(1,3,4,6) sc ok w q by (auto simp: n)
  qed
qed

text \<open>A step of the sender that changes neither queues nor requests.\<close>

lemma solo_goto:
  assumes so: "solo hw s m" and "sender_ok hw (ipi_workqueue m) x" and "set (waits_for x) \<subseteq> set (waits_for (pcs m s))"
    and "\<And>g l. \<lbrakk>g < num_threads m; l \<in> set (words_left (pcs m s)); wakes hw l g\<rbrakk> \<Longrightarrow> tlb_pending m g \<or> l \<in> set (words_left x)"
  shows "solo hw s (goto s x m)"
proof -
  note d = soloD [OF so]
  have q: "(\<exists>i < length (arcs m). ipi_workqueue m ! g = [ShootdownItem i]) \<and> (tlb_pending m g \<or> (\<exists>l \<in> set (words_left x). wakes hw l g))"
    if "g < num_threads m" "ipi_workqueue m ! g \<noteq> []" for g
    using d(5) [OF that] assms(4) [OF that(1)] by blast
  show ?thesis unfolding solo_def using d(1,3,4,6,7) assms(2,3) q by auto
qed

lemma solo_flush_own [simp]: "solo hw s (flush_own hw' c r m) = solo hw s m"
  by (simp add: solo_def flush_own_def)

lemma solo_notify:
  assumes so: "solo hw s m" and pc: "pcs m s = Notify r (g # gs) cl is" and "g \<noteq> s" and st: "notify_core hw s r g gs cl is m = Ok m'"
  shows "solo hw s m'"
proof -
  note d = soloD [OF so]
  let ?i = "length (arcs m)" and ?cl = "cl[cluster_id hw g := set_bit (cluster_address hw g) (cl ! cluster_id hw g)]"
  have g: "g < num_threads m" "cluster_id hw g < 16" "cluster_address hw g < 4" "ipi_workqueue m ! g = []" "headed cl" "length cl = 16"
    using d(2) pc by (auto simp: headed_def)
  have m: "ipi_workqueue m' = (ipi_workqueue m)[g := [ShootdownItem ?i]]" "pcs m' = (pcs m)(s := Notify r gs ?cl (is @ [?i]))"
    "arcs m' = arcs m @ [\<lparr>vregion = r, ack = False\<rparr>]" "arc_core m' = arc_core m @ [g]" "tlb_pending m' = tlb_pending m"
    using st g by (auto simp: notify_core_def Shootdown_new_def enqueue_def goto_def split: if_splits)
  have gs: "g \<notin> set gs" using d(2) pc by auto
  have "headed ?cl" using g by (intro headed_update) auto
  then have ok: "sender_ok hw (ipi_workqueue m') (Notify r gs ?cl (is @ [?i]))" using d(2) pc gs g(1) by (auto simp: m nth_list_update)
  have keep: "\<exists>l' \<in> set ?cl. wakes hw l' h" if l: "l \<in> set cl" "wakes hw l h" for l h
  proof -
    obtain j where "j < length cl" and "cl ! j = l" using l(1) by (auto simp: in_set_conv_nth)
    then have j: "j < 16" "cl ! j = l" using g(6) by simp_all
    have "wakes hw (?cl ! j) h" using l(2) j g wakes_mono [of hw l h "cluster_address hw g"] by (cases "j = cluster_id hw g") auto
    moreover have "?cl ! j \<in> set ?cl" using j(1) g(6) by (intro nth_mem) simp
    ultimately show ?thesis by blast
  qed
  have new: "\<exists>l \<in> set ?cl. wakes hw l g"
  proof -
    have "wakes hw (?cl ! cluster_id hw g) g" using g wakes_new [of "cl ! cluster_id hw g" hw g] by (simp add: headed_def)
    moreover have "?cl ! cluster_id hw g \<in> set ?cl" using g by (intro nth_mem) simp
    ultimately show ?thesis by blast
  qed
  have q: "(\<exists>i < length (arcs m'). ipi_workqueue m' ! h = [ShootdownItem i]) \<and> (tlb_pending m' h \<or> (\<exists>l \<in> set ?cl. wakes hw l h))"
    if "h < num_threads m" "ipi_workqueue m' ! h \<noteq> []" for h
  proof (cases "h = g")
    case True
    then show ?thesis using new g(1) by (simp add: m)
  next
    case False
    then show ?thesis using that d(5) [OF that(1)] keep pc by (fastforce simp: m)
  qed
  have w: "i < length (arcs m') \<and> (ack (arcs m' ! i) \<or> (arc_core m' ! i < num_threads m \<and> ipi_workqueue m' ! (arc_core m' ! i) = [ShootdownItem i]))"
    if "i \<in> set (is @ [?i])" for i
  proof (cases "i = ?i")
    case True
    then show ?thesis using d(6) g(1) by (simp add: m nth_append)
  next
    case False
    then have i: "i \<in> set (waits_for (pcs m s))" using that pc by simp
    then show ?thesis using d(7) [OF i] d(6) g(1,4) by (auto simp: m nth_append nth_list_update)
  qed
  show ?thesis unfolding solo_def using d(1,3,4,6) assms(3) ok q w g(1) by (auto simp: m)
qed

lemma solo_step:
  assumes so: "solo hw s m" and c: "c < num_threads m" and st: "core_step hw c m = Some (Ok m')"
  shows "solo hw s m'"
proof (cases "pcs m c = User")
  case True
  then have "m' = dequeue c (m\<lparr>tlb_pending := (tlb_pending m)(c := False)\<rparr>)" using st by (simp add: core_step_def split: if_splits)
  then show ?thesis using solo_irq [OF so c True] by simp
next
  case busy: False
  show ?thesis
  proof (cases "c = s")
    case False
    then obtain r where "pcs m c = Flushing r" using soloD(4) [OF so, of c] busy by auto
    then have m': "m' = goto c User (flush_own hw c r m)" using st by (simp add: core_step_def)
    have "solo hw s (goto c User m)" using so False unfolding solo_def by auto
    moreover have "m' = flush_own hw c r (goto c User m)" unfolding m' by (simp add: flush_own_def goto_def)
    ultimately show ?thesis by simp
  next
    case True
    note d2 = soloD(2) [OF so]
    show ?thesis
    proof (cases "pcs m s")
      case (Notify r gs cl "is")
      show ?thesis
      proof (cases gs)
        case Nil
        then have "m' = goto s (Ipis r cl is) m" using st Notify True by (simp add: core_step_def)
        then show ?thesis using solo_goto [OF so, of "Ipis r cl is"] d2 Notify by simp
      next
        case (Cons g gs')
        show ?thesis
        proof (cases "g = s")
          case eq: True
          then have "m' = goto s (Notify r gs' cl is) m" using st Notify Cons True by (simp add: core_step_def)
          then show ?thesis using solo_goto [OF so, of "Notify r gs' cl is"] d2 Notify Cons by simp
        next
          case False
          then show ?thesis using st Notify Cons True solo_notify [OF so] by (simp add: core_step_def)
        qed
      qed
    next
      case (Ipis r ls "is")
      show ?thesis
      proof (cases ls)
        case Nil
        then have "m' = goto s (OwnFlush r is) m" using st Ipis True by (simp add: core_step_def)
        then show ?thesis using solo_goto [OF so, of "OwnFlush r is"] d2 Ipis Nil by simp
      next
        case (Cons l ls')
        let ?m = "if cluster_in_use l then send_ipi_multicast hw l m else m"
        have m': "m' = goto s (Ipis r ls' is) ?m" using st Ipis Cons True by (simp add: core_step_def)
        have so': "solo hw s ?m" using so unfolding solo_def send_ipi_multicast_def by auto
        show ?thesis unfolding m' by (rule solo_goto [OF so'])
            (use d2 Ipis Cons in \<open>auto simp: send_ipi_multicast_def wakes_def\<close>)
      qed
    next
      case (OwnFlush r "is")
      then have m': "m' = goto s (Waiting r is) (flush_own hw s r m)"
        using st True by (auto simp: core_step_def Shootdown_new_def split: if_splits)
      show ?thesis unfolding m' by (rule solo_goto) (use so OwnFlush in simp_all)
    next
      case (Waiting r "is")
      then have "m' = goto s User m \<or> m' = goto s (Waiting r (filter (\<lambda>i. \<not> ack (arcs m ! i)) is)) m"
        using st True by (auto simp: core_step_def split: if_splits)
      then show ?thesis using solo_goto [OF so] Waiting by (elim disjE) auto
    qed (use busy True d2 in simp_all)
  qed
qed

text \<open>The steps of the cores alone, without new shootdowns and without messages for the replicas.\<close>

definition run_step :: "'t Hardware \<Rightarrow> 't machine \<Rightarrow> 't machine \<Rightarrow> bool" where
  "run_step hw m m' \<longleftrightarrow> (\<exists>c < num_threads m. core_step hw c m = Some (Ok m'))"

lemma core_step_no_err: "core_step hw c m \<noteq> Some (Err e)"
  by (auto simp: core_step_def notify_core_def Shootdown_new_def split: core_pc.splits list.splits)

definition quiet :: "'t machine \<Rightarrow> bool" where
  "quiet m \<longleftrightarrow> (\<forall>c. pcs m c = User) \<and> (\<forall>g < num_threads m. ipi_workqueue m ! g = []) \<and> length (arc_core m) = length (arcs m)"

lemma solo_start:
  assumes "quiet m" and "s < num_threads m" and "fst (handle_range h) mod BASE_PAGE_SIZE = 0" "snd (handle_range h) mod BASE_PAGE_SIZE = 0"
    and g: "\<forall>g \<in> set (handle_cores h). g < num_threads m \<and> cluster_id hw g < 16 \<and> cluster_address hw g < 4"
  shows "solo hw s (shootdown s h u m)"
proof -
  have d: "distinct (handle_cores h)" by (simp add: handle_cores_def iter_cores_sorted)
  have "set (handle_cores h) \<subseteq> {..<num_threads m}" using g by auto
  then have "length (handle_cores h) \<le> num_threads m" using distinct_card [OF d] card_mono [of "{..<num_threads m}" "set (handle_cores h)"] by simp
  then show ?thesis using assms d headed_init by (auto simp: solo_def quiet_def shootdown_def)
qed

text \<open>
  C4. A shootdown on a machine where nothing else goes on always ends, however the cores are
  scheduled: there is no infinite run, no core panics, and a state in which no core can move is one
  where the core that called \<open>shootdown\<close> has returned.  It is assumed that the address of every
  notified core within its cluster is below 4.
\<close>
theorem shootdown_completes:
  assumes "quiet m0" and "s < num_threads m0" and "fst (handle_range h) mod BASE_PAGE_SIZE = 0" "snd (handle_range h) mod BASE_PAGE_SIZE = 0"
    and "\<forall>g \<in> set (handle_cores h). g < num_threads m0 \<and> cluster_id hw g < 16 \<and> cluster_address hw g < 4"
  shows "\<not> (\<exists>f. f 0 = shootdown s h u m0 \<and> (\<forall>i. run_step hw (f i) (f (Suc i))))
    \<and> (\<forall>m. (run_step hw)\<^sup>*\<^sup>* (shootdown s h u m0) m \<longrightarrow>
         (\<forall>c < num_threads m. core_step hw c m \<noteq> Some Panic) \<and> ((\<nexists>m'. run_step hw m m') \<longrightarrow> pcs m s = User))"
proof (intro conjI allI impI notI)
  assume "\<exists>f. f 0 = shootdown s h u m0 \<and> (\<forall>i. run_step hw (f i) (f (Suc i)))"
  then obtain f where f: "\<And>i. run_step hw (f i) (f (Suc i))" by blast
  have "(f (Suc i), f i) \<in> measure work_left" for i using f [of i] core_step_decreases unfolding run_step_def in_measure by blast
  moreover have "wf (measure work_left)" by (rule wf_measure)
  ultimately show False by (metis wf_iff_no_infinite_down_chain)
next
  fix m assume "(run_step hw)\<^sup>*\<^sup>* (shootdown s h u m0) m"
  then have so: "solo hw s m"
    by (induction rule: rtranclp_induct) (auto simp: run_step_def intro: solo_start [OF assms] solo_step)
  {
    fix c assume "c < num_threads m"
    moreover assume "core_step hw c m = Some Panic"
    ultimately show False using solo_no_panic [OF so] by blast
  }
  assume stuck: "\<nexists>m'. run_step hw m m'"
  have "core_step hw c m = None" if c: "c < num_threads m" for c
  proof (cases "core_step hw c m")
    case (Some r)
    then show ?thesis using stuck c solo_no_panic [OF so c] core_step_no_err [of hw c m] by (cases r) (auto simp: run_step_def)
  qed
  then show "pcs m s = User" by (rule solo_enabled [OF so])
qed

section \<open>Shootdowns that never end\<close>

lemma core_step_Ipis: "pcs m s = Ipis r (l # ls) is \<Longrightarrow> core_step hw s m =
    Some (Ok (goto s (Ipis r ls is) (if cluster_in_use l then send_ipi_multicast hw l m else m)))"
  by (simp add: core_step_def)

text \<open>The interrupts that a core sends, in one go.\<close>

lemma run_ipis:
  assumes "s < num_threads m" and "pcs m s = Ipis r ls is"
  shows "(run_step hw)\<^sup>*\<^sup>* m (goto s (OwnFlush r is)
     (m\<lparr>tlb_pending := (\<lambda>g. tlb_pending m g \<or> (g < num_threads m \<and> (\<exists>l \<in> set ls. wakes hw l g)))\<rparr>))"
  using assms
proof (induction ls arbitrary: m)
  case Nil
  have "core_step hw s m = Some (Ok (goto s (OwnFlush r is) m))" using Nil by (simp add: core_step_def)
  then have "run_step hw m (goto s (OwnFlush r is) m)" unfolding run_step_def using Nil.prems(1) by blast
  then show ?case by simp
next
  case (Cons l ls)
  let ?n = "if cluster_in_use l then send_ipi_multicast hw l m else m"
  let ?m = "goto s (Ipis r ls is) ?n"
  have n: "num_threads ?m = num_threads m" "\<And>x. goto s x ?m = goto s x ?n" by (simp_all add: send_ipi_multicast_def goto_def)
  have st: "run_step hw m ?m" unfolding run_step_def using core_step_Ipis [OF Cons.prems(2)] Cons.prems(1) by blast
  have IH: "(run_step hw)\<^sup>*\<^sup>* ?m (goto s (OwnFlush r is)
     (?m\<lparr>tlb_pending := (\<lambda>g. tlb_pending ?m g \<or> (g < num_threads ?m \<and> (\<exists>l \<in> set ls. wakes hw l g)))\<rparr>))"
    by (rule Cons.IH) (use Cons.prems(1) n(1) in simp_all)
  have "goto s (OwnFlush r is) (?m\<lparr>tlb_pending := (\<lambda>g. tlb_pending ?m g \<or> (g < num_threads ?m \<and> (\<exists>l \<in> set ls. wakes hw l g)))\<rparr>)
      = goto s (OwnFlush r is) (m\<lparr>tlb_pending := (\<lambda>g. tlb_pending m g \<or> (g < num_threads m \<and> (\<exists>l \<in> set (l # ls). wakes hw l g)))\<rparr>)"
    by (simp add: goto_def send_ipi_multicast_def wakes_def conj_disj_distribL disj_assoc)
  then show ?case using converse_rtranclp_into_rtranclp [OF st IH] by (simp only:)
qed

text \<open>A shootdown for two cores, up to the point where it waits for the other one.\<close>

lemma run_to_waiting:
  assumes s: "s < num_threads m" and pc: "pcs m s = Notify r gs cluster_init []" and gs: "gs = [s, g] \<or> gs = [g, s]"
    and g: "g < num_threads m" "g \<noteq> s" "cluster_id hw g < 16" "length (ipi_workqueue m ! g) < IPI_WORKQUEUE_CAPACITY"
    and al: "fst r mod BASE_PAGE_SIZE = 0" "snd r mod BASE_PAGE_SIZE = 0"
  obtains m' where "(run_step hw)\<^sup>*\<^sup>* m m'" "pcs m' = (pcs m)(s := Waiting r [length (arcs m)])"
    "ipi_workqueue m' = (ipi_workqueue m)[g := ipi_workqueue m ! g @ [ShootdownItem (length (arcs m))]]"
    "arcs m' = arcs m @ [\<lparr>vregion = r, ack = False\<rparr>]" "crashed m' = crashed m"
    "tlb_pending m' = (\<lambda>d. tlb_pending m d \<or> (d < num_threads m \<and> (\<exists>l \<in> set (cluster_init[cluster_id hw g :=
       set_bit (cluster_address hw g) (cluster_init ! cluster_id hw g)]). wakes hw l d)))"
proof -
  let ?cl = "cluster_init[cluster_id hw g := set_bit (cluster_address hw g) (cluster_init ! cluster_id hw g)]"
  let ?i = "length (arcs m)"
  let ?a = "m\<lparr>arcs := arcs m @ [\<lparr>vregion = r, ack = False\<rparr>], arc_core := arc_core m @ [g]\<rparr>"
  let ?m1 = "enqueue g (ShootdownItem ?i) ?a"
  have len: "length cluster_init = 16" using headed_init by (simp add: headed_def)
  have m1: "num_threads ?m1 = num_threads m" "pcs ?m1 = pcs m" "crashed ?m1 = crashed m" "tlb_pending ?m1 = tlb_pending m"
    "ipi_workqueue ?m1 = (ipi_workqueue m)[g := ipi_workqueue m ! g @ [ShootdownItem ?i]]"
    using g(4) by (simp_all add: enqueue_def)
  have nc: "notify_core hw s r g gs' cluster_init [] n = Ok (goto s (Notify r gs' ?cl [?i]) (enqueue g (ShootdownItem ?i)
      (n\<lparr>arcs := arcs m @ [\<lparr>vregion = r, ack = False\<rparr>], arc_core := arc_core m @ [g]\<rparr>)))"
    if "num_threads n = num_threads m" "arcs n = arcs m" "arc_core n = arc_core m" for gs' n
    using that g s al len by (auto simp: notify_core_def Shootdown_new_def)
  have two: "(run_step hw)\<^sup>*\<^sup>* m (goto s (Notify r [] ?cl [?i]) ?m1)"
    using gs
  proof
    assume e: "gs = [s, g]"
    let ?n = "goto s (Notify r [g] cluster_init []) m"
    have "run_step hw m ?n" unfolding run_step_def using s pc e by (intro exI [of _ s]) (simp add: core_step_def)
    moreover have "run_step hw ?n (goto s (Notify r [] ?cl [?i]) ?m1)"
      unfolding run_step_def using s g(2) nc [of ?n "[]"] by (intro exI [of _ s]) (auto simp: core_step_def goto_def enqueue_def)
    ultimately show ?thesis by simp
  next
    assume e: "gs = [g, s]"
    let ?n = "goto s (Notify r [s] ?cl [?i]) ?m1"
    have "run_step hw m ?n" unfolding run_step_def using s pc e g(2) nc [of m "[s]"] by (intro exI [of _ s]) (auto simp: core_step_def)
    moreover have "run_step hw ?n (goto s (Notify r [] ?cl [?i]) ?m1)"
      unfolding run_step_def using s by (intro exI [of _ s]) (auto simp: core_step_def goto_def)
    ultimately show ?thesis by simp
  qed
  let ?m2 = "goto s (Ipis r ?cl [?i]) ?m1"
  have three: "run_step hw (goto s (Notify r [] ?cl [?i]) ?m1) ?m2"
    unfolding run_step_def using s by (intro exI [of _ s]) (auto simp: core_step_def goto_def)
  let ?p = "\<lambda>d. tlb_pending m d \<or> (d < num_threads m \<and> (\<exists>l \<in> set ?cl. wakes hw l d))"
  let ?m3 = "goto s (OwnFlush r [?i]) (?m2\<lparr>tlb_pending := ?p\<rparr>)"
  have four: "(run_step hw)\<^sup>*\<^sup>* ?m2 ?m3" using run_ipis [of s ?m2 r ?cl "[?i]" hw] s by (simp add: m1)
  let ?m4 = "goto s (Waiting r [?i]) (flush_own hw s r ?m3)"
  have five: "run_step hw ?m3 ?m4"
    unfolding run_step_def using s al by (intro exI [of _ s]) (auto simp: core_step_def Shootdown_new_def)
  have "(run_step hw)\<^sup>*\<^sup>* m ?m4" using two three four five by (meson rtranclp.rtrancl_into_rtrancl rtranclp_trans)
  then show thesis by (rule that) (simp_all add: m1 flush_own_def goto_def)
qed

text \<open>The core steps are steps of the machine.\<close>

lemma run_steps_tlb:
  "\<lbrakk>(run_step hw)\<^sup>*\<^sup>* m m'; \<not> crashed m; \<And>n c n'. \<lbrakk>\<not> crashed n; core_step hw c n = Some (Ok n')\<rbrakk> \<Longrightarrow> \<not> crashed n'\<rbrakk>
    \<Longrightarrow> (tlb_step hw running)\<^sup>*\<^sup>* m m' \<and> \<not> crashed m'"
proof (induction rule: rtranclp_induct)
  case (step y z)
  then obtain c where c: "c < num_threads y" "core_step hw c y = Some (Ok z)" by (auto simp: run_step_def)
  have y: "(tlb_step hw running)\<^sup>*\<^sup>* m y" "\<not> crashed y" using step by auto
  then have "tlb_step hw running y z" using c by (intro tlb_step.run) auto
  then show ?case using y step.prems(2) c(2) by (meson rtranclp.rtrancl_into_rtrancl)
qed simp

lemma core_step_crashed:
  assumes "core_step hw c m = Some (Ok m')" shows "crashed m' = crashed m"
proof -
  have d: "crashed (dequeue c n) = crashed n" for n :: "'a machine"
    by (simp add: dequeue_def goto_def split: list.splits WorkItem.splits)
  have nc: "notify_core hw c r g gs cl is m = Ok m' \<Longrightarrow> crashed m' = crashed m" for r g gs cl "is"
    by (auto simp: notify_core_def Shootdown_new_def split: if_splits)
  show ?thesis using assms nc d
    by (cases "pcs m c") (auto simp: core_step_def send_ipi_multicast_def Shootdown_new_def split: if_splits list.splits)
qed

text \<open>Two cores that wait for each other wait for ever.\<close>

definition mutual_wait :: "'t machine \<Rightarrow> nat \<Rightarrow> nat \<Rightarrow> nat \<times> nat \<Rightarrow> nat \<times> nat \<Rightarrow> bool" where
  "mutual_wait m i j r r' \<longleftrightarrow> num_threads m = 2 \<and> \<not> crashed m \<and> pcs m 0 = Waiting r [i] \<and> pcs m 1 = Waiting r' [j]
     \<and> \<not> ack (arcs m ! i) \<and> \<not> ack (arcs m ! j)"

lemma mutual_wait_no_step: "\<lbrakk>mutual_wait m i j r r'; c < num_threads m\<rbrakk> \<Longrightarrow> core_step hw c m = None"
  by (auto simp: mutual_wait_def core_step_def less_Suc_eq numeral_2_eq_2)

lemma mutual_wait_step:
  assumes "tlb_step hw running m m'" and w: "mutual_wait m i j r r'"
  shows "mutual_wait m' i j r r'"
  using assms(1)
proof cases
  case (advance g l)
  then show ?thesis using w by (simp add: advance_replica_def enqueue_def mutual_wait_def)
next
  case (run c)
  then show ?thesis using mutual_wait_no_step [OF w] by simp
next
  case (crash c)
  then show ?thesis using mutual_wait_no_step [OF w] by simp
qed (use w in \<open>auto simp: mutual_wait_def less_Suc_eq numeral_2_eq_2\<close>)

lemma mutual_wait_forever: "\<lbrakk>(tlb_step hw running)\<^sup>*\<^sup>* m m'; mutual_wait m i j r r'\<rbrakk> \<Longrightarrow> mutual_wait m' i j r r'"
  by (induction rule: rtranclp_induct) (auto intro: mutual_wait_step)

text \<open>
  C11. Two cores of a process that unmap memory at the same time can block each other for ever.  From
  the initial state of a machine with two cores a state is reachable in which both are inside
  \<open>shootdown\<close> and wait for the other to acknowledge; as interrupts are masked in the kernel, they
  stay there whatever happens afterwards.
\<close>
theorem concurrent_shootdowns_deadlock:
  assumes h: "handle_cores h = [0, 1]" "fst (handle_range h) mod BASE_PAGE_SIZE = 0" "snd (handle_range h) mod BASE_PAGE_SIZE = 0"
    and h': "handle_cores h' = [0, 1]" "fst (handle_range h') mod BASE_PAGE_SIZE = 0" "snd (handle_range h') mod BASE_PAGE_SIZE = 0"
    and c: "cluster_id hw 0 < 16" "cluster_id hw 1 < 16"
  shows "\<exists>m. (tlb_step hw {0, 1})\<^sup>*\<^sup>* (machine_init 2 addrs t) m
    \<and> (\<forall>m'. (tlb_step hw {0, 1})\<^sup>*\<^sup>* m m' \<longrightarrow> sending (pcs m' 0) = Some (handle_range h) \<and> sending (pcs m' 1) = Some (handle_range h'))"
proof -
  let ?i = "machine_init 2 addrs t" and ?S = "tlb_step hw {0, 1}"
  let ?m = "shootdown 0 h True ?i"
  have s1: "?S ?i ?m" by (rule tlb_step.unmap) (use h(1) in \<open>simp_all add: machine_init_def\<close>)
  have m: "num_threads ?m = 2" "pcs ?m = (\<lambda>_. User)(0 := Notify (handle_range h) [0, 1] cluster_init [])" "\<not> crashed ?m" "arcs ?m = []"
    "ipi_workqueue ?m = [[], []]" using h(1) by (auto simp: shootdown_def machine_init_def goto_def numeral_2_eq_2)
  obtain m1 where m1: "(run_step hw)\<^sup>*\<^sup>* ?m m1" "pcs m1 = (pcs ?m)(0 := Waiting (handle_range h) [length (arcs ?m)])"
    "ipi_workqueue m1 = (ipi_workqueue ?m)[1 := ipi_workqueue ?m ! 1 @ [ShootdownItem (length (arcs ?m))]]"
    "arcs m1 = arcs ?m @ [\<lparr>vregion = handle_range h, ack = False\<rparr>]"
    by (rule run_to_waiting [of 0 ?m "handle_range h" "[0, 1]" 1 hw]) (use m h c in auto)
  have r1: "?S\<^sup>*\<^sup>* ?m m1" "\<not> crashed m1" using run_steps_tlb [OF m1(1) m(3)] core_step_crashed by blast+
  let ?n = "shootdown 1 h' True m1"
  have s2: "?S m1 ?n" by (rule tlb_step.unmap) (use h' r1(2) m1 m in auto)
  have n: "num_threads ?n = 2" "pcs ?n 1 = Notify (handle_range h') [0, 1] cluster_init []" "pcs ?n 0 = Waiting (handle_range h) [0]"
    "\<not> crashed ?n" "arcs ?n = [\<lparr>vregion = handle_range h, ack = False\<rparr>]" "ipi_workqueue ?n ! 0 = []"
    using m1 m h'(1) r1(2) by (simp_all add: shootdown_def)
  obtain m2 where m2: "(run_step hw)\<^sup>*\<^sup>* ?n m2" "pcs m2 = (pcs ?n)(1 := Waiting (handle_range h') [length (arcs ?n)])"
    "ipi_workqueue m2 = (ipi_workqueue ?n)[0 := ipi_workqueue ?n ! 0 @ [ShootdownItem (length (arcs ?n))]]"
    "arcs m2 = arcs ?n @ [\<lparr>vregion = handle_range h', ack = False\<rparr>]"
    by (rule run_to_waiting [of 1 ?n "handle_range h'" "[0, 1]" 0 hw]) (use n h' c in auto)
  have r2: "?S\<^sup>*\<^sup>* ?n m2" "\<not> crashed m2" using run_steps_tlb [OF m2(1) n(4)] core_step_crashed by blast+
  have "mutual_wait m2 0 1 (handle_range h) (handle_range h')" using m2 n r2(2) by (simp add: mutual_wait_def)
  then have "sending (pcs m' 0) = Some (handle_range h) \<and> sending (pcs m' 1) = Some (handle_range h')" if "?S\<^sup>*\<^sup>* m2 m'" for m'
    using mutual_wait_forever [OF that] by (simp add: mutual_wait_def)
  moreover have "?S\<^sup>*\<^sup>* ?i m2" using s1 r1(1) s2 r2(1) by (meson converse_rtranclp_into_rtranclp rtranclp_trans)
  ultimately show ?thesis by blast
qed

lemma high_address_not_in_use:
  assumes "l \<in> set (cluster_init[j := set_bit a (cluster_init ! j)])" and "4 \<le> a" and "j < 16"
  shows "\<not> cluster_in_use l"
proof -
  have i: "\<not> cluster_in_use x" "\<not> cluster_in_use (set_bit a x)" if "x \<in> set cluster_init" for x
    using that assms(2) by (auto simp: cluster_init_def in_use_iff bit_push_bit_iff bit_set_bit_iff)
  have "cluster_init ! j \<in> set cluster_init" using assms(3) headed_init by (simp add: headed_def)
  then show ?thesis using assms(1) i set_update_subset_insert [of cluster_init j "set_bit a (cluster_init ! j)"] by auto
qed

text \<open>
  A core whose address within its cluster is 4 or more is not interrupted when it is the only core
  of its cluster to be notified: \<open>shootdown\<close> looks only at the low four bits of the destination word.
  The message stays in the queue of that core, and the sender waits although no core has anything
  left to do.
\<close>
lemma high_cluster_address_not_interrupted:
  assumes h: "handle_cores h = [0, 1]" "fst (handle_range h) mod BASE_PAGE_SIZE = 0" "snd (handle_range h) mod BASE_PAGE_SIZE = 0"
    and c: "cluster_id hw 1 < 16" "4 \<le> cluster_address hw 1"
  shows "\<exists>m. (tlb_step hw {0, 1})\<^sup>*\<^sup>* (machine_init 2 addrs t) m \<and> sending (pcs m 0) = Some (handle_range h)
    \<and> pcs m 1 = User \<and> ipi_workqueue m ! 1 = [ShootdownItem 0] \<and> (\<nexists>m'. run_step hw m m')"
proof -
  let ?i = "machine_init 2 addrs t" and ?S = "tlb_step hw {0, 1}"
  let ?m = "shootdown 0 h True ?i"
  have s1: "?S ?i ?m" by (rule tlb_step.unmap) (use h(1) in \<open>simp_all add: machine_init_def\<close>)
  have m: "num_threads ?m = 2" "pcs ?m = (\<lambda>_. User)(0 := Notify (handle_range h) [0, 1] cluster_init [])" "\<not> crashed ?m" "arcs ?m = []"
    "ipi_workqueue ?m = [[], []]" "tlb_pending ?m = (\<lambda>_. False)"
    using h(1) by (auto simp: shootdown_def machine_init_def goto_def numeral_2_eq_2)
  obtain m1 where m1: "(run_step hw)\<^sup>*\<^sup>* ?m m1" "pcs m1 = (pcs ?m)(0 := Waiting (handle_range h) [length (arcs ?m)])"
    "ipi_workqueue m1 = (ipi_workqueue ?m)[1 := ipi_workqueue ?m ! 1 @ [ShootdownItem (length (arcs ?m))]]"
    "arcs m1 = arcs ?m @ [\<lparr>vregion = handle_range h, ack = False\<rparr>]" "crashed m1 = crashed ?m"
    "tlb_pending m1 = (\<lambda>d. tlb_pending ?m d \<or> (d < num_threads ?m \<and> (\<exists>l \<in> set (cluster_init[cluster_id hw 1 :=
       set_bit (cluster_address hw 1) (cluster_init ! cluster_id hw 1)]). wakes hw l d)))"
    by (rule run_to_waiting [of 0 ?m "handle_range h" "[0, 1]" 1 hw]) (use m h c in auto)
  have r1: "?S\<^sup>*\<^sup>* ?m m1" using run_steps_tlb [OF m1(1) m(3)] core_step_crashed by blast
  have p: "\<not> tlb_pending m1 d" for d using m1(6) m(6) high_address_not_in_use [OF _ c(2,1)] by (auto simp: wakes_def)
  have "core_step hw d m1 = None" if "d < 2" for d
    using that p m1(2,4) m(2,4) by (auto simp: core_step_def less_Suc_eq numeral_2_eq_2)
  then have "\<nexists>m'. run_step hw m1 m'" using m1(3) m(1) by (auto simp: run_step_def)
  moreover have "?S\<^sup>*\<^sup>* ?i m1" using s1 r1 by (rule converse_rtranclp_into_rtranclp)
  ultimately show ?thesis using m1(2,3) m by (intro exI [of _ m1]) simp
qed

text \<open>A request that did not fit into its queue is never acknowledged.\<close>

definition lost :: "nat \<Rightarrow> 't machine \<Rightarrow> bool" where
  "lost i m \<longleftrightarrow> i < length (arcs m) \<and> \<not> ack (arcs m ! i) \<and> (\<forall>g < num_threads m. ShootdownItem i \<notin> set (ipi_workqueue m ! g))
     \<and> (\<forall>c. pcs m c \<noteq> Holding (ShootdownItem i))"

lemma lost_dequeue:
  assumes "lost i m" and "c < num_threads m" shows "lost i (dequeue c m)"
proof (cases "ipi_workqueue m ! c")
  case Nil
  then show ?thesis using assms(1) by (simp add: dequeue_def)
next
  case (Cons x q)
  have q: "set q \<subseteq> set (ipi_workqueue m ! c)" "x \<in> set (ipi_workqueue m ! c)" using Cons by auto
  show ?thesis
  proof (cases x)
    case (ShootdownItem j)
    then have "j \<noteq> i" using assms q(2) by (auto simp: lost_def)
    then show ?thesis using assms q(1) Cons ShootdownItem unfolding lost_def
      by (auto simp: dequeue_def goto_def nth_list_update)
  next
    case (AdvanceReplica l)
    then show ?thesis using assms q(1) Cons unfolding lost_def by (auto simp: dequeue_def nth_list_update)
  qed
qed

lemma lost_enqueue: "\<lbrakk>lost i m; x \<noteq> ShootdownItem i; g < num_threads m\<rbrakk> \<Longrightarrow> lost i (enqueue g x m)"
  by (auto simp: lost_def enqueue_def nth_list_update)

lemma lost_goto: "\<lbrakk>lost i m; x \<noteq> Holding (ShootdownItem i)\<rbrakk> \<Longrightarrow> lost i (goto c x m)"
  by (auto simp: lost_def)

lemma lost_flush_own [simp]: "lost i (flush_own hw c r m) = lost i m"
  by (simp add: lost_def)

lemma lost_core_step:
  assumes l: "lost i m" and c: "c < num_threads m" and st: "core_step hw c m = Some (Ok m')"
  shows "lost i m'"
proof (cases "pcs m c")
  case User
  have "lost i (m\<lparr>tlb_pending := (tlb_pending m)(c := False)\<rparr>)" using l by (simp add: lost_def)
  then show ?thesis using lost_dequeue [of i "m\<lparr>tlb_pending := (tlb_pending m)(c := False)\<rparr>" c] st User c
    by (simp add: core_step_def split: if_splits)
next
  case (Notify r gs cl "is")
  show ?thesis
  proof (cases gs)
    case Nil
    then show ?thesis using st Notify l by (auto simp: core_step_def intro: lost_goto)
  next
    case (Cons g gs')
    have "lost i (m\<lparr>arcs := arcs m @ [s], arc_core := xs\<rparr>)" for s xs using l by (auto simp: lost_def nth_append)
    moreover have "length (arcs m) \<noteq> i" using l by (auto simp: lost_def)
    ultimately show ?thesis using st Notify Cons l
      by (auto simp: core_step_def notify_core_def Shootdown_new_def split: if_splits intro!: lost_goto lost_enqueue)
  qed
next
  case (Ipis r ls "is")
  have "lost i (send_ipi_multicast hw w m)" for w using l by (simp add: lost_def send_ipi_multicast_def)
  then show ?thesis using st Ipis l by (cases ls) (auto simp: core_step_def intro!: lost_goto)
next
  case (Holding x)
  then have "x \<noteq> ShootdownItem i" using l by (auto simp: lost_def)
  then show ?thesis using st Holding l c by (auto simp: core_step_def intro!: lost_goto lost_enqueue)
next
  case (OwnFlush r "is")
  show ?thesis using st OwnFlush l by (auto simp: core_step_def Shootdown_new_def split: if_splits intro!: lost_goto)
next
  case (Flushing r)
  show ?thesis using st Flushing l by (auto simp: core_step_def intro!: lost_goto)
next
  case (Waiting r "is")
  then show ?thesis using st l by (auto simp: core_step_def split: if_splits intro!: lost_goto)
qed

lemma lost_step:
  assumes "tlb_step hw running m m'" and l: "lost i m" shows "lost i m'"
  using assms(1)
proof cases
  case (run c)
  then show ?thesis using lost_core_step [OF l] by simp
next
  case (gc_irq c)
  have "lost i (m\<lparr>gc_pending := (gc_pending m)(c := False)\<rparr>)" using l by (simp add: lost_def)
  then show ?thesis using gc_irq lost_dequeue [of i "m\<lparr>gc_pending := (gc_pending m)(c := False)\<rparr>" c] by simp
next
  case (eager c)
  then have c: "c < num_threads m" by simp
  show ?thesis
  proof (cases "ipi_workqueue m ! c")
    case (Cons x q)
    then have x: "x \<noteq> ShootdownItem i" "ShootdownItem i \<notin> set q" using l c unfolding lost_def by force+
    have "lost i (m\<lparr>ipi_workqueue := (ipi_workqueue m)[c := q]\<rparr>)" using l c x(2) by (auto simp: lost_def nth_list_update)
    then show ?thesis using eager(1) Cons x(1) by (cases x) (auto simp: eager_advance_fs_replica_def intro!: lost_goto)
  qed (use eager(1) l in \<open>simp add: eager_advance_fs_replica_def\<close>)
next
  case (advance g k)
  have "lost i (enqueue g (AdvanceReplica k) m)" using advance l by (intro lost_enqueue) auto
  then show ?thesis using advance(1) by (simp add: advance_replica_def lost_def)
next
  case (unmap c h)
  have "lost i (m\<lparr>mapped := A\<rparr>)" for A using l by (simp add: lost_def)
  then show ?thesis using unmap(1) by (auto simp: shootdown_def intro!: lost_goto)
next
  case (other c h)
  then show ?thesis using l by (auto simp: shootdown_def intro!: lost_goto)
qed (use l in \<open>simp_all add: lost_def\<close>)

text \<open>A queue with four items drops the request, and nothing ever acknowledges it.\<close>

lemma full_queue_loses_request:
  assumes "arcs_ok m" and "notify_core hw c r g gs cl is m = Ok m'" and "length (ipi_workqueue m ! g) = IPI_WORKQUEUE_CAPACITY"
    and "(tlb_step hw running)\<^sup>*\<^sup>* m' m''"
  shows "\<not> ack (arcs m'' ! length (arcs m))"
proof -
  have old: "i < length (arcs m)" if "g < num_threads m" "ShootdownItem i \<in> set (ipi_workqueue m ! g)" for g i
    using assms(1) that unfolding arcs_ok_def by blast
  have hold: "pcs m d \<noteq> Holding (ShootdownItem (length (arcs m)))" for d using assms(1) unfolding arcs_ok_def by blast
  have "lost (length (arcs m)) m'" using assms(2,3) hold old
    by (auto simp: notify_core_def Shootdown_new_def enqueue_def lost_def goto_def nth_append split: if_splits dest: old)
  from assms(4) this have "lost (length (arcs m)) m''" by (induction rule: rtranclp_induct) (auto intro: lost_step)
  then show ?thesis by (simp add: lost_def)
qed

section \<open>A machine with two cores\<close>

definition set_hw :: "(nat \<Rightarrow> nat) \<Rightarrow> nat set Hardware" where
  "set_hw address = \<lparr>hw_flush = (\<lambda>va t. {a \<in> t. a div BASE_PAGE_SIZE \<noteq> va div BASE_PAGE_SIZE}), hw_flush_all = (\<lambda>_. {}),
     hw_holds = (\<lambda>t a. a \<in> t), cluster_id = (\<lambda>_. 0), cluster_address = address\<rparr>"

lemma set_hw_documented: "flush_documented (set_hw address)"
  by (auto simp: flush_documented_def set_hw_def)

lemma two_core_handle:
  obtains h where "handle_cores h = [0, 1]" "handle_range h = (4096, 8192)"
proof -
  obtain h where h: "add_cores (TlbFlushHandle_new 4096 \<lparr>fbase = 65536, fsize = 4096, affinity = 0\<rparr>) [0, 1] = Ok h"
    "handle_cores h = sorted_list_of_set (set [0, 1])" using flush_visits_added_cores [of "[0, 1]"] by auto
  have "handle_range h = (4096, 8192)" using add_cores_page [OF h(1)] by (simp add: handle_range_def TlbFlushHandle_new_def)
  moreover have "handle_cores h = [0, 1]" using h(2) by simp
  ultimately show thesis by (rule that [rotated])
qed


theorem shootdown_completes_witness:
  "\<exists>h. handle_cores h = [0, 1] \<and> (\<forall>m. (run_step (set_hw id))\<^sup>*\<^sup>* (shootdown 0 h True (machine_init 2 {} (\<lambda>_. {}))) m
     \<and> (\<nexists>m'. run_step (set_hw id) m m') \<longrightarrow> pcs m 0 = User)"
proof -
  obtain h where h: "handle_cores h = [0, 1]" "handle_range h = (4096, 8192)" by (rule two_core_handle)
  have "quiet (machine_init 2 {} (\<lambda>_. {}))" by (simp add: quiet_def machine_init_def)
  from shootdown_completes [OF this, of 0 h "set_hw id" True] h show ?thesis
    by (intro exI [of _ h]) (auto simp: machine_init_def set_hw_def)
qed

theorem concurrent_shootdowns_deadlock_witness:
  "\<exists>m. (tlb_step (set_hw id) {0, 1})\<^sup>*\<^sup>* (machine_init 2 {} (\<lambda>_. {})) m
    \<and> (\<forall>m'. (tlb_step (set_hw id) {0, 1})\<^sup>*\<^sup>* m m' \<longrightarrow> pcs m' 0 \<noteq> User \<and> pcs m' 1 \<noteq> User)"
proof -
  obtain h where h: "handle_cores h = [0, 1]" "handle_range h = (4096, 8192)" by (rule two_core_handle)
  from concurrent_shootdowns_deadlock [OF h(1) _ _ h(1), of "set_hw id" "{}" "\<lambda>_. {}"] h(2) show ?thesis
    by (fastforce simp: set_hw_def)
qed

end
