(* ===== verification/Syscalls.thy ===== *)
theory Syscalls
  imports NrProcs Tlb
begin

text \<open>
  System calls (\<open>arch/x86_64/syscall.rs\<close>): the handlers that decode the arguments of user space,
  check user pointers and call the memory manager, the replicas and the shootdown protocol, and
  \<open>syscall_handle\<close>, which chooses the handler and stores the answer in the save area.

  Numbers that come in registers are natural numbers below \<open>2 ^ 64\<close>; an addition that leaves that
  range panics, as in a build with overflow checks.  The topology of the machine, the serialisation
  of the two records that are copied to user space and the replicas are parameters.
\<close>

section \<open>State\<close>

record CpuThread =
  ct_id :: nat
  ct_node_id :: nat
  ct_package_id :: nat
  ct_core_id :: nat
  ct_thread_id :: nat

text \<open>A hardware thread of the topology; its node may be unknown.\<close>

record HwThread =
  hw_id :: nat
  hw_node_id :: "nat option"
  hw_package_id :: nat
  hw_core_id :: nat
  hw_thread_id :: nat

record Platform =
  pf_cnr :: replica
  pf_nr_set :: bool
  pf_kernel_pml4 :: "(nat \<Rightarrow> entry) option"
  pf_threads :: "HwThread list"
  pf_threads_to_vec :: "CpuThread list \<Rightarrow> u8 list"
  pf_pinfo_to_vec :: "ProcessInfo \<Rightarrow> u8 list"

text \<open>What a core reaches through its control block, with the output of the serial line.\<close>

record 't CoreState =
  c_sys :: SysState
  c_id :: nat
  c_node :: nat
  current_executor :: "Ring3Executor option"
  print_buffer :: "string option"
  serial_line :: string
  init_args :: string
  app_args :: string
  direct_fs :: "MlnrFS option"
  c_machine :: "'t machine"
  shut_down :: "bool option"
  ioapic_routes :: "(nat \<times> nat) list"
  save_area :: "nat \<times> nat \<times> SystemCallError"

type_synonym 't syscall_result = "'t CoreState \<times> (nat \<times> nat) kres"

definition get_executor_ref :: "'t CoreState \<Rightarrow> Ring3Executor kres" where
  "get_executor_ref c = ok_or ProcessNotSet (current_executor c)"

definition current_pid :: "'t CoreState \<Rightarrow> nat kres" where
  "current_pid c = map_result x_pid (get_executor_ref c)"

text \<open>Running a function on a part of the state, and an early return on an error.\<close>

definition on_sys :: "(SysState \<Rightarrow> SysState \<times> 'a kres) \<Rightarrow> 't CoreState \<Rightarrow> 't CoreState \<times> 'a kres" where
  "on_sys f c = (case f (c_sys c) of (s, r) \<Rightarrow> (c\<lparr>c_sys := s\<rparr>, r))"

definition on_cnr :: "(CnrState \<Rightarrow> CnrState \<times> 'a kres) \<Rightarrow> 't CoreState \<Rightarrow> 't CoreState \<times> 'a kres" where
  "on_cnr f = on_sys (\<lambda>s. case f (sys_cnr s) of (x, r) \<Rightarrow> (s\<lparr>sys_cnr := x\<rparr>, r))"

definition user_store :: "nat \<Rightarrow> u8 list \<Rightarrow> 't CoreState \<Rightarrow> 't CoreState" where
  "user_store addr bs c = c\<lparr>c_sys := (c_sys c)\<lparr>sys_cnr := (sys_cnr (c_sys c))\<lparr>kmem := UserSlice_store (kmem (sys_cnr (c_sys c))) addr bs\<rparr>\<rparr>\<rparr>"

section \<open>Checking user pointers\<close>

text \<open>\<open>resolve\<close> resolves an address in the process; the loop goes from page to page up to the end.\<close>

function valid_loop :: "(nat \<Rightarrow> (nat \<times> nat) kres) \<Rightarrow> nat \<Rightarrow> nat \<Rightarrow> nat \<Rightarrow> (nat \<times> nat) kres" where
  "valid_loop resolve base upper_addr sz =
     (if base \<le> upper_addr
      then if upper_addr - base \<le> BASE_PAGE_SIZE
           then bind_result (resolve base) (\<lambda>_. if upper_addr = 0 then Panic else resolve (upper_addr - 1))
           else bind_result (resolve base) (\<lambda>_. valid_loop resolve (base + BASE_PAGE_SIZE) upper_addr sz)
      else Ok (base, sz))"
  by pat_completeness auto
termination
  by (relation "measure (\<lambda>(resolve, base, upper_addr, sz). upper_addr - base)") auto

declare valid_loop.simps [simp del]

definition user_virt_addr_valid :: "(nat \<Rightarrow> (nat \<times> nat) kres) \<Rightarrow> nat \<Rightarrow> nat \<Rightarrow> (nat \<times> nat) kres" where
  "user_virt_addr_valid resolve base sz =
     (if usize_limit \<le> base + sz then Panic
      else if base + sz < KERNEL_BASE then valid_loop resolve base (base + sz) sz
      else Err BadAddress)"

definition proc_resolve :: "SysState \<Rightarrow> nat \<Rightarrow> nat \<Rightarrow> (nat \<times> nat) kres" where
  "proc_resolve s pid base = nr_resolve proc_dispatch (sys_procs s pid) pid base"

definition check_user :: "nat \<Rightarrow> nat \<Rightarrow> nat \<Rightarrow> 't CoreState \<Rightarrow> 't CoreState \<times> (nat \<times> nat) kres" where
  "check_user pid base sz c = (c, user_virt_addr_valid (proc_resolve (c_sys c) pid) base sz)"

section \<open>System information\<close>

definition to_cpu_thread :: "HwThread \<Rightarrow> CpuThread" where
  "to_cpu_thread t = \<lparr>ct_id = hw_id t, ct_node_id = (case hw_node_id t of None \<Rightarrow> 0 | Some n \<Rightarrow> n), ct_package_id = hw_package_id t,
     ct_core_id = hw_core_id t, ct_thread_id = hw_thread_id t\<rparr>"

text \<open>An answer is copied out only when the buffer is large enough; its length is returned in any case.\<close>

definition copy_out :: "nat \<Rightarrow> nat \<Rightarrow> u8 list \<Rightarrow> 't CoreState \<Rightarrow> 't syscall_result" where
  "copy_out vaddr_buf vaddr_buf_len serialized c =
     (if length serialized \<le> vaddr_buf_len then user_store vaddr_buf serialized c else c, Ok (length serialized, 0))"

definition handle_system :: "Platform \<Rightarrow> u64 \<Rightarrow> nat \<Rightarrow> nat \<Rightarrow> 't CoreState \<Rightarrow> 't syscall_result" where
  "handle_system pf arg1 arg2 arg3 c = (case SystemOperation_from arg1 of
       SGetHardwareThreads \<Rightarrow>
         and_then (on_sys (on_kstate (try_alloc FallibleTryReserveError)) c) (\<lambda>c _.
           copy_out arg2 arg3 (pf_threads_to_vec pf (map to_cpu_thread (pf_threads pf))) c)
     | SStats \<Rightarrow> (c, Ok (0, 0))
     | SGetCoreID \<Rightarrow> (c, Ok (c_id c, 0))
     | SUnknown \<Rightarrow> (c, Err (InvalidSystemOperation (unat arg1))))"

section \<open>Process operations\<close>

abbreviation newline :: char where "newline \<equiv> char_of (10 :: nat)"

text \<open>The line buffer: output goes to the serial line when a line is complete or the buffer is long.\<close>

definition process_print :: "string \<Rightarrow> 't CoreState \<Rightarrow> 't syscall_result" where
  "process_print buffer c = (case print_buffer c of
       Some kbuf \<Rightarrow>
         (if newline \<in> set buffer
          then let low = takeWhile (\<lambda>x. x \<noteq> newline) buffer @ [newline] in
               (c\<lparr>serial_line := serial_line c @ kbuf @ low, print_buffer := Some (drop (length low) buffer)\<rparr>, Ok (0, 0))
          else if 2048 < length (kbuf @ buffer)
          then (c\<lparr>serial_line := serial_line c @ kbuf @ buffer, print_buffer := Some []\<rparr>, Ok (0, 0))
          else (c\<lparr>print_buffer := Some (kbuf @ buffer)\<rparr>, Ok (0, 0)))
     | None \<Rightarrow> (c\<lparr>serial_line := serial_line c @ buffer\<rparr>, Ok (0, 0)))"

text \<open>\<open>process_exit\<close> stops the machine and does not return; \<open>shut_down\<close> records whether the exit was orderly.\<close>

definition process_exit :: "nat \<Rightarrow> 't CoreState \<Rightarrow> 't syscall_result" where
  "process_exit code c = (c\<lparr>shut_down := Some (code = 0)\<rparr>, Ok (0, 0))"

text \<open>The last thread of the topology with the identifier decides on the node.\<close>

definition thread_affinity :: "HwThread list \<Rightarrow> nat \<Rightarrow> nat option" where
  "thread_affinity ts gtid = map_option (\<lambda>t. case hw_node_id t of None \<Rightarrow> 0 | Some n \<Rightarrow> n) (find (\<lambda>t. hw_id t = gtid) (rev ts))"

definition execute_nr :: "nr_Op \<Rightarrow> SysState \<Rightarrow> SysState \<times> nr_NodeResult kres" where
  "execute_nr op s = (case nr_dispatch_mut (k_heap (sys_k s), sys_node s) op of
     ((h, n), r) \<Rightarrow> (s\<lparr>sys_k := (sys_k s)\<lparr>k_heap := h\<rparr>, sys_node := n\<rparr>, r))"

definition request_core :: "Platform \<Rightarrow> nat \<Rightarrow> nat \<Rightarrow> 't CoreState \<Rightarrow> 't syscall_result" where
  "request_core pf gtid entry_point c = (case thread_affinity (pf_threads pf) gtid of
       None \<Rightarrow> (c, Err InvalidGlobalThreadId)
     | Some aff \<Rightarrow> and_then (c, current_pid c) (\<lambda>c pid.
         and_then (on_sys (allocate_core_to_process (if pf_nr_set pf then Some execute_nr else None) pid entry_point (Some aff) (Some gtid)) c)
           (\<lambda>c _. (c, Ok (gtid, 0)))))"

definition allocate_physical :: "Platform \<Rightarrow> nat \<Rightarrow> 't CoreState \<Rightarrow> 't syscall_result" where
  "allocate_physical pf page_size c =
     (if page_size \<noteq> BASE_PAGE_SIZE \<and> page_size \<noteq> LARGE_PAGE_SIZE then (c, Err (InvalidSyscallArgument1 page_size))
      else let base = (page_size = BASE_PAGE_SIZE) in
        and_then (on_sys (on_kstate (\<lambda>s. refill s (if base then 1 else 0) (if base then 0 else 1) MemDram)) c) (\<lambda>c _.
        and_then (on_sys (on_kstate (with_manager MemDram (if base then allocate_base_page else allocate_large_page))) c) (\<lambda>c frame.
        and_then (c, current_pid c) (\<lambda>c pid.
        and_then (on_sys (on_proc pid (\<lambda>s. nr_allocate_frame_to_process (proc_dispatch_mut (pf_kernel_pml4 pf)) s pid frame)) c) (\<lambda>c fid.
          (c, Ok (fid, fbase frame)))))))"

definition handle_process :: "Platform \<Rightarrow> u64 \<Rightarrow> nat \<Rightarrow> nat \<Rightarrow> 't CoreState \<Rightarrow> 't syscall_result" where
  "handle_process pf arg1 arg2 arg3 c = (case ProcessOperation_from arg1 of
       PLog \<Rightarrow> process_print (map (\<lambda>b. char_of (unat b)) (UserSlice_load (kmem (sys_cnr (c_sys c))) arg2 arg3)) c
     | PGetVCpuArea \<Rightarrow> (c, map_result (\<lambda>x. (vcpu_ctl x, 0)) (get_executor_ref c))
     | PAllocateVector \<Rightarrow> (c\<lparr>ioapic_routes := ioapic_routes c @ [(arg2, arg3)]\<rparr>, Ok (arg2, arg3))
     | PExit \<Rightarrow> process_exit arg2 c
     | PGetProcessInfo \<Rightarrow>
         and_then (c, current_pid c) (\<lambda>c pid.
         and_then (c, nr_pinfo proc_dispatch (sys_procs (c_sys c) pid) pid) (\<lambda>c info.
           copy_out arg2 arg3 (pf_pinfo_to_vec pf (info\<lparr>cmdline := init_args c, app_cmdline := app_args c\<rparr>)) c))
     | PRequestCore \<Rightarrow> request_core pf arg2 arg3 c
     | PAllocatePhysical \<Rightarrow> allocate_physical pf arg2 c
     | PSubscribeEvent \<Rightarrow> (c, Err (InvalidProcessOperation (unat arg1)))
     | PUnknown \<Rightarrow> (c, Err (InvalidProcessOperation (unat arg1))))"

section \<open>Address space operations\<close>

text \<open>The two loops of \<open>MapMem\<close>: pages are taken from the cache of the core and cleared.\<close>

fun take_frames :: "MemType \<Rightarrow> (MCache \<Rightarrow> MCache \<times> Frame kres) \<Rightarrow> nat \<Rightarrow> KState \<times> 'p \<Rightarrow> (KState \<times> 'p) \<times> Frame list kres" where
  "take_frames mt alloc 0 s = (s, Ok [])"
| "take_frames mt alloc (Suc n) s =
     and_then (expect (with_manager mt alloc s)) (\<lambda>s f.
     and_then (take_frames mt alloc n (zero_frame f (fst s), snd s)) (\<lambda>s fs. (s, Ok (f # fs))))"

definition map_mem ::
  "(nat \<Rightarrow> entry) option \<Rightarrow> MemType \<Rightarrow> nat \<Rightarrow> nat \<Rightarrow> nat \<Rightarrow> KState \<times> NrProcess \<Rightarrow> (KState \<times> NrProcess) \<times> (nat \<times> nat) kres" where
  "map_mem kernel_pml4 mem_type pid base region_size s = (case size_to_pages region_size of (bp, lp) \<Rightarrow>
     and_then (if bp + lp = 0 then (s, Ok ()) else try_alloc FallibleTryReserveError s) (\<lambda>s _.
     and_then (refill s (20 + bp) lp mem_type) (\<lambda>s _.
     and_then (take_frames mem_type allocate_large_page lp s) (\<lambda>s larges.
     and_then (take_frames mem_type allocate_base_page bp s) (\<lambda>s bases.
     and_then (expect (nr_map_frames (proc_dispatch_mut kernel_pml4) s pid base (larges @ bases) ReadWriteUser)) (\<lambda>s _.
       (s, case larges @ bases of [] \<Rightarrow> Panic | f # _ \<Rightarrow> Ok (fbase f, sum_list (map fsize (larges @ bases))))))))))"

text \<open>\<open>UnmapMem\<close> leaves the core inside \<open>shootdown\<close>; the answer goes to user space when that is over.\<close>

definition unmap_mem :: "Platform \<Rightarrow> nat \<Rightarrow> nat \<Rightarrow> 't CoreState \<Rightarrow> 't syscall_result" where
  "unmap_mem pf pid base c =
     and_then (on_sys (on_proc pid (\<lambda>s. nr_unmap (proc_dispatch_mut (pf_kernel_pml4 pf)) s pid base)) c) (\<lambda>c h.
       (c\<lparr>c_machine := shootdown (c_id c) h True (c_machine c)\<rparr>, Ok (tlb_vaddr h, fsize (tlb_frame h))))"

definition handle_vspace :: "Platform \<Rightarrow> u64 \<Rightarrow> nat \<Rightarrow> nat \<Rightarrow> 't CoreState \<Rightarrow> 't syscall_result" where
  "handle_vspace pf arg1 arg2 arg3 c = and_then (c, current_pid c) (\<lambda>c pid. let kp = pf_kernel_pml4 pf in
     case VSpaceOperation_from arg1 of
       VMapMem \<Rightarrow> on_sys (on_proc pid (map_mem kp MemDram pid arg2 arg3)) c
     | VMapPMem \<Rightarrow> on_sys (on_proc pid (map_mem kp MemPMem pid arg2 arg3)) c
     | VMapDevice \<Rightarrow>
         and_then (c, Frame_new arg2 arg3 (c_node c)) (\<lambda>c frame.
           on_sys (on_proc pid (\<lambda>s. nr_map_device_frame (proc_dispatch_mut kp) s pid frame ReadWriteUser)) c)
     | VMapMemFrame \<Rightarrow> on_sys (on_proc pid (\<lambda>s. nr_map_frame_id (proc_dispatch_mut kp) s pid arg3 arg2 ReadWriteUser)) c
     | VUnmapMem \<Rightarrow> unmap_mem pf pid arg2 c
     | VUnmapPMem \<Rightarrow> unmap_mem pf pid arg2 c
     | VIdentify \<Rightarrow> (c, proc_resolve (c_sys c) pid arg2)
     | VUnknown \<Rightarrow> (c, Err (InvalidVSpaceOperation (unat arg1))))"

section \<open>File operations\<close>

text \<open>\<open>WriteDirect\<close> writes to the second memory node of a file system of the core.\<close>

definition write_direct :: "nat \<Rightarrow> nat \<Rightarrow> nat \<Rightarrow> nat \<Rightarrow> 't CoreState \<Rightarrow> 't syscall_result" where
  "write_direct buffer len arg4 arg5 c =
     and_then (on_cnr (\<lambda>x. run_heap x (KernSlice_new (kheap x) (kmem x) buffer len)) c) (\<lambda>c kernslice.
       case direct_fs c of
         None \<Rightarrow> (c, Panic)
       | Some fs \<Rightarrow> (case MlnrFS_write (kheap (sys_cnr (c_sys c))) fs 2 kernslice (if arg5 = 0 then 0 else arg4) of
           ((h, fs'), r) \<Rightarrow> (c\<lparr>direct_fs := Some fs', c_sys := (c_sys c)\<lparr>sys_cnr := (sys_cnr (c_sys c))\<lparr>kheap := h\<rparr>\<rparr>\<rparr>,
             map_result (\<lambda>n. (n, 0)) r)))"

definition handle_fileio :: "Platform \<Rightarrow> u64 \<Rightarrow> nat \<Rightarrow> nat \<Rightarrow> nat \<Rightarrow> nat \<Rightarrow> 't CoreState \<Rightarrow> 't syscall_result" where
  "handle_fileio pf arg1 arg2 arg3 arg4 arg5 c = and_then (c, current_pid c) (\<lambda>c pid. let r = pf_cnr pf in
     case FileOperation_from arg1 of
       FCreate \<Rightarrow> (c, Panic)
     | FOpen \<Rightarrow> and_then (check_user pid arg2 0 c) (\<lambda>c _. on_cnr (\<lambda>x. map_fd r x pid arg2 (word_of_nat arg3) (word_of_nat arg4)) c)
     | FRead \<Rightarrow> and_then (check_user pid arg3 arg4 c) (\<lambda>c _. on_cnr (\<lambda>x. file_io r x FRead pid arg2 arg3 arg4 (-1)) c)
     | FWrite \<Rightarrow> and_then (check_user pid arg3 arg4 c) (\<lambda>c _. on_cnr (\<lambda>x. file_io r x FWrite pid arg2 arg3 arg4 (-1)) c)
     | FReadAt \<Rightarrow> and_then (check_user pid arg3 arg4 c) (\<lambda>c _. on_cnr (\<lambda>x. file_io r x FReadAt pid arg2 arg3 arg4 (sint (word_of_nat arg5 :: u64))) c)
     | FWriteAt \<Rightarrow> and_then (check_user pid arg3 arg4 c) (\<lambda>c _. on_cnr (\<lambda>x. file_io r x FWriteAt pid arg2 arg3 arg4 (sint (word_of_nat arg5 :: u64))) c)
     | FClose \<Rightarrow> on_cnr (\<lambda>x. unmap_fd r x pid arg2) c
     | FGetInfo \<Rightarrow> and_then (check_user pid arg2 0 c) (\<lambda>c _. on_cnr (\<lambda>x. file_info r x pid arg2 arg3) c)
     | FDelete \<Rightarrow> and_then (check_user pid arg2 0 c) (\<lambda>c _. on_cnr (\<lambda>x. file_delete r x pid arg2) c)
     | FWriteDirect \<Rightarrow> write_direct arg2 arg3 arg4 arg5 c
     | FFileRename \<Rightarrow> and_then (check_user pid arg2 0 c) (\<lambda>c _. and_then (check_user pid arg3 0 c) (\<lambda>c _.
         on_cnr (\<lambda>x. file_rename r x pid arg2 arg3) c))
     | FMkDir \<Rightarrow> and_then (check_user pid arg2 0 c) (\<lambda>c _. on_cnr (\<lambda>x. cnr_mkdir r x pid arg2 (word_of_nat arg3)) c)
     | FUnknown \<Rightarrow> (c, Panic))"

section \<open>The entry point\<close>

text \<open>
  The answer goes to the save area that the core resumes from; after an error the two result
  registers keep what they held.  \<open>None\<close> is a panic of the kernel.  When the machine has been shut
  down nothing is stored and the core does not resume.
\<close>

definition syscall_handle ::
  "Platform \<Rightarrow> u64 \<Rightarrow> u64 \<Rightarrow> nat \<Rightarrow> nat \<Rightarrow> nat \<Rightarrow> nat \<Rightarrow> 't CoreState \<Rightarrow> 't CoreState option" where
  "syscall_handle pf func arg1 arg2 arg3 arg4 arg5 c =
     (case (case SystemCall_new func of
              ScSystem \<Rightarrow> handle_system pf arg1 arg2 arg3 c
            | ScProcess \<Rightarrow> handle_process pf arg1 arg2 arg3 c
            | ScVSpace \<Rightarrow> handle_vspace pf arg1 arg2 arg3 c
            | ScFileIO \<Rightarrow> handle_fileio pf arg1 arg2 arg3 arg4 arg5 c
            | ScUnknown \<Rightarrow> (c, Err (InvalidSyscallArgument1 (unat func)))) of
        (c', r) \<Rightarrow> if shut_down c' \<noteq> None then Some c'
          else case r of
              Ok (a1, a2) \<Rightarrow> Some (c'\<lparr>save_area := (a1, a2, SceOk)\<rparr>)
            | Err e \<Rightarrow> Some (c'\<lparr>save_area := (fst (save_area c'), fst (snd (save_area c')), KError_to_SystemCallError e)\<rparr>)
            | Panic \<Rightarrow> None)"

section \<open>The check of user pointers\<close>

text \<open>Addresses of one base page are mapped together.\<close>

lemma find_page_same_page:
  assumes "v div BASE_PAGE_SIZE = w div BASE_PAGE_SIZE"
  shows "find_page t v = find_page t w"
proof -
  have "x div HUGE_PAGE_SIZE = x div BASE_PAGE_SIZE div 262144 \<and> x div LARGE_PAGE_SIZE = x div BASE_PAGE_SIZE div 512" for x :: nat
    by (simp flip: div_mult2_eq)
  then show ?thesis unfolding find_page_def by (metis assms)
qed

definition is_ok :: "('e, 'a) result \<Rightarrow> bool" where
  "is_ok r = (case r of Ok _ \<Rightarrow> True | _ \<Rightarrow> False)"

lemma is_ok_simp [simp]: "is_ok (Ok x)"
  by (simp add: is_ok_def)

lemma is_ok_Ok: "is_ok r \<longleftrightarrow> (\<exists>x. r = Ok x)"
  by (simp add: is_ok_def split: result.split)

lemma bind_result_is_ok: "is_ok (bind_result r f) \<longleftrightarrow> (\<exists>x. r = Ok x \<and> is_ok (f x))"
  by (cases r) (simp_all add: is_ok_def)

lemma page_neighbour:
  fixes a b :: nat
  assumes "b \<le> a" and "a < b + 4096"
  shows "a div 4096 = b div 4096 \<or> a div 4096 = (b + 4096) div 4096"
  using div_le_mono [of b a 4096] div_le_mono [of a "b + 4096" 4096] assms by (auto simp: le_Suc_eq)

lemma last_page:
  fixes a b u :: nat
  assumes "b \<le> a" and "a < u" and "u - b \<le> 4096"
  shows "a div 4096 = b div 4096 \<or> a div 4096 = (u - 1) div 4096"
  using div_le_mono [of b a 4096] div_le_mono [of a "u - 1" 4096] div_le_mono [of "u - 1" "b + 4096" 4096] assms
  by (auto simp: le_Suc_eq)

lemma valid_loop_covers:
  assumes uniform: "\<And>v w. \<lbrakk>v div BASE_PAGE_SIZE = w div BASE_PAGE_SIZE; v < upper_addr; w < upper_addr\<rbrakk> \<Longrightarrow> is_ok (resolve v) \<longleftrightarrow> is_ok (resolve w)"
    and "is_ok (valid_loop resolve base upper_addr sz)" and "base \<le> a" and "a < upper_addr"
  shows "is_ok (resolve a)"
  using assms
proof (induction resolve base upper_addr sz arbitrary: a rule: valid_loop.induct)
  case (1 resolve base upper_addr sz)
  have le: "base \<le> upper_addr" using 1(4,5) by simp
  show ?case
  proof (cases "upper_addr - base \<le> BASE_PAGE_SIZE")
    case True
    then have "is_ok (resolve base)" "is_ok (resolve (upper_addr - 1))"
      using 1(3,5) le by (auto simp: valid_loop.simps [of resolve base] bind_result_is_ok)
    then show ?thesis using last_page [OF 1(4,5)] True 1(2) [of a base] 1(2) [of a "upper_addr - 1"] 1(4,5) by auto
  next
    case False
    then obtain x where x: "resolve base = Ok x" "is_ok (valid_loop resolve (base + BASE_PAGE_SIZE) upper_addr sz)"
      using 1(3) le by (auto simp: valid_loop.simps [of resolve base] bind_result_is_ok)
    note rest = 1(1) [OF le False 1(2) x(2)]
    show ?thesis
    proof (cases "base + BASE_PAGE_SIZE \<le> a")
      case True
      then show ?thesis using rest 1(5) by simp
    next
      case near: False
      have "is_ok (resolve (base + BASE_PAGE_SIZE))" "is_ok (resolve base)" using rest False x(1) by (simp_all add: is_ok_Ok)
      then show ?thesis using page_neighbour [of base a] near False 1(2) [of a base] 1(2) [of a "base + BASE_PAGE_SIZE"] 1(4,5) by auto
    qed
  qed
qed

lemma proc_resolve_ok:
  assumes "pt_inv (page_table (p_vspace (process (sys_procs s pid))))" and "pid < MAX_PROCESSES" and "v < KERNEL_BASE"
  shows "is_ok (proc_resolve s pid v) \<longleftrightarrow> find_page (page_table (p_vspace (process (sys_procs s pid)))) v \<noteq> None"
  using assms resolve_find_page [OF assms(1), of v]
  by (auto simp: proc_resolve_def nr_resolve_def proc_answer_def proc_dispatch_def vs_resolve_def is_ok_def split: option.split)


text \<open>An empty buffer is checked at the byte before it: at the start of a mapping it is refused.\<close>

lemma empty_buffer_checks_byte_before:
  assumes "resolve base = Ok x" and "0 < base" and "base < KERNEL_BASE"
  shows "user_virt_addr_valid resolve base 0 = resolve (base - 1)"
  using assms by (simp add: user_virt_addr_valid_def valid_loop.simps)

section \<open>Mapping memory\<close>

text \<open>
  What a run of \<open>take_frames\<close> establishes: the frames are cleared, come out of the free memory
  and are left out of it afterwards.
\<close>

definition frames_bytes :: "Frame list \<Rightarrow> nat set" where
  "frames_bytes fs = (\<Union>f \<in> set fs. frame_bytes f)"

definition taken :: "MemType \<Rightarrow> KState \<Rightarrow> KState \<Rightarrow> Frame list \<Rightarrow> bool" where
  "taken mt k k' fs \<longleftrightarrow> k_heap k' = k_heap k \<and> memory_ok mt (k_mem k') \<and> free_memory mt (k_mem k') \<subseteq> free_memory mt (k_mem k)
     \<and> frames_bytes fs \<subseteq> free_memory mt (k_mem k) \<and> frames_bytes fs \<inter> free_memory mt (k_mem k') = {}
     \<and> sorted_wrt (\<lambda>f g. frame_bytes f \<inter> frame_bytes g = {}) fs
     \<and> k_bytes k' = (\<lambda>a. if a \<in> frames_bytes fs then 0 else k_bytes k a)"

lemma frames_bytes_simps [simp]:
  "frames_bytes [] = {}" "frames_bytes (f # fs) = frame_bytes f \<union> frames_bytes fs" "frames_bytes (fs @ gs) = frames_bytes fs \<union> frames_bytes gs"
  by (auto simp: frames_bytes_def)

lemma taken_nil: "memory_ok mt (k_mem k) \<Longrightarrow> taken mt k k []"
  by (simp add: taken_def)

lemma takenD:
  assumes "taken mt k k' fs"
  shows "k_heap k' = k_heap k" and "memory_ok mt (k_mem k')" and "free_memory mt (k_mem k') \<subseteq> free_memory mt (k_mem k)"
    and "frames_bytes fs \<subseteq> free_memory mt (k_mem k)" and "frames_bytes fs \<inter> free_memory mt (k_mem k') = {}"
    and "sorted_wrt (\<lambda>f g. frame_bytes f \<inter> frame_bytes g = {}) fs"
    and "\<And>a. k_bytes k' a = (if a \<in> frames_bytes fs then 0 else k_bytes k a)"
  using assms unfolding taken_def by simp_all

lemma taken_append:
  assumes "taken mt k k1 fs" and "taken mt k1 k2 gs"
  shows "taken mt k k2 (fs @ gs)"
proof -
  note 1 = takenD [OF assms(1)] and 2 = takenD [OF assms(2)]
  have "frames_bytes fs \<inter> frames_bytes gs = {}" using 1(5) 2(4) by blast
  then have "\<forall>f \<in> set fs. \<forall>g \<in> set gs. frame_bytes f \<inter> frame_bytes g = {}" by (auto simp: frames_bytes_def)
  then have "sorted_wrt (\<lambda>f g. frame_bytes f \<inter> frame_bytes g = {}) (fs @ gs)" using 1(6) 2(6) by (simp add: sorted_wrt_append)
  moreover have "k_bytes k2 = (\<lambda>a. if a \<in> frames_bytes (fs @ gs) then 0 else k_bytes k a)"
    by (rule ext) (simp add: 1(7) 2(7))
  moreover have "frames_bytes (fs @ gs) \<subseteq> free_memory mt (k_mem k)" using 1(3,4) 2(4) by auto
  moreover have "frames_bytes (fs @ gs) \<inter> free_memory mt (k_mem k2) = {}" using 1(5) 2(3,5) by auto
  ultimately show ?thesis using 1(1,3) 2(1-3) unfolding taken_def by simp
qed

lemma take_one:
  assumes "with_manager mt alloc (k, p) = ((k', p'), Ok f)" and "memory_ok mt (k_mem k)"
    and "alloc \<in> {allocate_base_page, allocate_large_page}"
  shows "p' = p" and "taken mt k (zero_frame f k') [f]"
  using with_manager_take [OF assms] by (simp_all add: taken_def zero_frame_def cong: if_cong)

lemma take_frames_taken:
  assumes "take_frames mt alloc n (k, p) = ((k', p'), Ok fs)" and "memory_ok mt (k_mem k)"
    and "alloc \<in> {allocate_base_page, allocate_large_page}"
  shows "p' = p \<and> taken mt k k' fs"
  using assms(1,2)
proof (induction n arbitrary: k p fs)
  case 0
  then show ?case by (simp add: taken_nil)
next
  case (Suc n)
  then obtain k1 p1 f gs where 1: "with_manager mt alloc (k, p) = ((k1, p1), Ok f)"
    "take_frames mt alloc n (zero_frame f k1, p1) = ((k', p'), Ok gs)" "fs = f # gs"
    by (auto simp: and_then_Ok)
  note t = take_one [OF 1(1) Suc.prems(2) assms(3)]
  have "memory_ok mt (k_mem (zero_frame f k1))" using t(2) by (simp add: taken_def)
  from Suc.IH [OF 1(2) this] have "p' = p \<and> taken mt (zero_frame f k1) k' gs" using t(1) by simp
  then show ?case using taken_append [OF t(2)] 1(3) by simp
qed

lemma manager_shape:
  assumes "with_manager mt alloc (k, p) = ((k', p'), Ok f)" and "memory_ok mt (k_mem k)"
  shows "alloc = allocate_base_page \<Longrightarrow> fsize f = BASE_PAGE_SIZE \<and> fbase f mod BASE_PAGE_SIZE = 0"
    and "alloc = allocate_large_page \<Longrightarrow> fsize f = LARGE_PAGE_SIZE \<and> fbase f mod LARGE_PAGE_SIZE = 0"
proof -
  obtain kcb ncs where m: "k_mem k = (kcb, ncs)" by (cases "k_mem k")
  obtain c where a: "alloc (manager_of kcb mt) = (c, Ok f)"
    using assms(1) m by (auto simp: with_manager_def manager_of_def split: prod.splits)
  have "mcache_inv (manager_of kcb mt)" using assms(2) m by (simp add: memory_ok_def)
  note s = page_shape [OF this, of c f]
  show "alloc = allocate_base_page \<Longrightarrow> fsize f = BASE_PAGE_SIZE \<and> fbase f mod BASE_PAGE_SIZE = 0"
    "alloc = allocate_large_page \<Longrightarrow> fsize f = LARGE_PAGE_SIZE \<and> fbase f mod LARGE_PAGE_SIZE = 0"
    using s a by auto
qed

definition alloc_size :: "(MCache \<Rightarrow> MCache \<times> Frame kres) \<Rightarrow> nat \<Rightarrow> bool" where
  "alloc_size alloc n \<longleftrightarrow> alloc = allocate_base_page \<and> n = BASE_PAGE_SIZE \<or> alloc = allocate_large_page \<and> n = LARGE_PAGE_SIZE"

lemma take_frames_shape:
  assumes "take_frames mt alloc n (k, p) = ((k', p'), Ok fs)" and "memory_ok mt (k_mem k)" and "alloc_size alloc sz"
  shows "length fs = n \<and> (\<forall>f \<in> set fs. fsize f = sz \<and> fbase f mod sz = 0)"
  using assms(1,2)
proof (induction n arbitrary: k p fs)
  case (Suc n)
  then obtain k1 p1 f gs where 1: "with_manager mt alloc (k, p) = ((k1, p1), Ok f)"
    "take_frames mt alloc n (zero_frame f k1, p1) = ((k', p'), Ok gs)" "fs = f # gs"
    by (auto simp: and_then_Ok)
  have al: "alloc \<in> {allocate_base_page, allocate_large_page}" using assms(3) by (auto simp: alloc_size_def)
  have "memory_ok mt (k_mem (zero_frame f k1))" using take_one(2) [OF 1(1) Suc.prems(2) al] by (simp add: taken_def)
  from Suc.IH [OF 1(2) this] have "length gs = n \<and> (\<forall>f \<in> set gs. fsize f = sz \<and> fbase f mod sz = 0)" .
  moreover have "fsize f = sz \<and> fbase f mod sz = 0" using manager_shape [OF 1(1) Suc.prems(2)] assms(3) by (auto simp: alloc_size_def)
  ultimately show ?case using 1(3) by simp
qed simp

text \<open>What the process sees, and the memory around it, after one frame has been mapped.\<close>

lemma map_frame_op:
  assumes "proc_dispatch_mut kp (k, n) (MemMapFrame base f r) = ((k', n'), Ok x)"
    and "memory_ok MemDram (k_mem k)" and "vspace_inv (k_heap k, p_vspace (process n))"
    and "3 * Suc j \<le> length (da (page_table (p_vspace (process n))))" and "entry_ok (base, fbase f, fsize f, r)"
    and "\<forall>v. base \<le> v \<and> v < base + fsize f \<longrightarrow> vs_resolve (p_vspace (process n)) v = Err NotMapped"
  shows "k_bytes k' = k_bytes k \<and> memory_ok MemDram (k_mem k') \<and> free_memory MemDram (k_mem k') = free_memory MemDram (k_mem k)"
    and "vspace_inv (k_heap k', p_vspace (process n'))" and "3 * j \<le> length (da (page_table (p_vspace (process n'))))"
    and "v < VADDR_LIMIT \<Longrightarrow> vs_resolve (p_vspace (process n')) v =
      (if base \<le> v \<and> v < base + fsize f then Ok (fbase f + (v - base), r) else vs_resolve (p_vspace (process n)) v)"
proof -
  obtain k1 n1 u where r: "refill (k, n) 7 0 MemDram = ((k1, n1), Ok u)"
    and p: "on_process (\<lambda>s. proc_map_frame s base f r) (k1, n1) = ((k', n'), Ok ())"
    using assms(1) by (auto simp: proc_dispatch_mut_def and_then_Ok)
  have 1: "n1 = n" "k_heap k1 = k_heap k" "k_bytes k1 = k_bytes k" "memory_ok MemDram (k_mem k1)"
    "free_memory MemDram (k_mem k1) = free_memory MemDram (k_mem k)"
    using refill_result [OF r] assms(2) by simp_all
  obtain s' where s': "vs_map_frame (k_heap k, p_vspace (process n)) base f r = (s', Ok ())" "vspace_inv s'"
    "3 * j \<le> length (da (page_table (snd s')))"
    "\<And>v. v < VADDR_LIMIT \<Longrightarrow> vs_resolve (snd s') v =
      (if base \<le> v \<and> v < base + fsize f then Ok (fbase f + (v - base), r) else vs_resolve (p_vspace (process n)) v)"
    using vspace.map_frame_adds [OF assms(3) _ assms(5), of j] assms(4,6) unfolding snd_conv by blast
  have e: "k' = k1\<lparr>k_heap := fst s'\<rparr>" "p_vspace (process n') = snd s'"
    using p s'(1) 1(1,2) by (auto simp: on_process_def proc_map_frame_def split: prod.splits)
  show "k_bytes k' = k_bytes k \<and> memory_ok MemDram (k_mem k') \<and> free_memory MemDram (k_mem k') = free_memory MemDram (k_mem k)"
    using 1(3-5) e(1) by simp
  show "vspace_inv (k_heap k', p_vspace (process n'))" "3 * j \<le> length (da (page_table (p_vspace (process n'))))"
    "v < VADDR_LIMIT \<Longrightarrow> vs_resolve (p_vspace (process n')) v =
      (if base \<le> v \<and> v < base + fsize f then Ok (fbase f + (v - base), r) else vs_resolve (p_vspace (process n)) v)"
    using s'(2-4) e by simp_all
qed

definition with_rights :: "MapAction \<Rightarrow> Frame list \<Rightarrow> (Frame \<times> MapAction) list" where
  "with_rights r fs = map (\<lambda>f. (f, r)) fs"

lemma with_rights_simps [simp]: "with_rights r [] = []" "with_rights r (f # fs) = (f, r) # with_rights r fs"
  by (simp_all add: with_rights_def)

lemma map_frames_loop_maps:
  assumes "map_frames_loop (proc_dispatch_mut kp) (k, n) base off fs r = ((k', n'), Ok x)"
    and "memory_ok MemDram (k_mem k)" and "vspace_inv (k_heap k, p_vspace (process n))"
    and "3 * length fs \<le> length (da (page_table (p_vspace (process n))))" and "frames_fit (base + off) (with_rights r fs)"
    and "\<And>v. frame_at (base + off) (with_rights r fs) v \<noteq> None \<Longrightarrow> vs_resolve (p_vspace (process n)) v = Err NotMapped"
  shows "k_bytes k' = k_bytes k \<and> free_memory MemDram (k_mem k') = free_memory MemDram (k_mem k) \<and> vspace_inv (k_heap k', p_vspace (process n'))
    \<and> (\<forall>v < VADDR_LIMIT. vs_resolve (p_vspace (process n')) v =
        (case frame_at (base + off) (with_rights r fs) v of Some y \<Rightarrow> Ok y | None \<Rightarrow> vs_resolve (p_vspace (process n)) v))"
  using assms
proof (induction fs arbitrary: k n off)
  case (Cons f fs)
  obtain k1 n1 where 1: "proc_dispatch_mut kp (k, n) (MemMapFrame (base + off) f r) = ((k1, n1), Ok Mapped)"
    and rest: "map_frames_loop (proc_dispatch_mut kp) (k1, n1) base (off + fsize f) fs r = ((k', n'), Ok x)"
    using Cons.prems(1) by (auto split: prod.splits result.splits proc_NodeResult.splits)
  have ok: "entry_ok (base + off, fbase f, fsize f, r)" and fit: "frames_fit (base + (off + fsize f)) (with_rights r fs)"
    using Cons.prems(5) by (simp_all add: add.assoc)
  have "\<forall>v. base + off \<le> v \<and> v < base + off + fsize f \<longrightarrow> vs_resolve (p_vspace (process n)) v = Err NotMapped"
    using Cons.prems(6) by simp
  moreover have "3 * Suc (length fs) \<le> length (da (page_table (p_vspace (process n))))" using Cons.prems(4) by simp
  ultimately have m: "k_bytes k1 = k_bytes k \<and> memory_ok MemDram (k_mem k1) \<and> free_memory MemDram (k_mem k1) = free_memory MemDram (k_mem k)"
    "vspace_inv (k_heap k1, p_vspace (process n1))" "3 * length fs \<le> length (da (page_table (p_vspace (process n1))))"
    "\<And>v. v < VADDR_LIMIT \<Longrightarrow> vs_resolve (p_vspace (process n1)) v =
      (if base + off \<le> v \<and> v < base + off + fsize f then Ok (fbase f + (v - (base + off)), r) else vs_resolve (p_vspace (process n)) v)"
    using map_frame_op [OF 1 Cons.prems(2,3) _ ok] by blast+
  have "vs_resolve (p_vspace (process n1)) v = Err NotMapped" if v: "frame_at (base + (off + fsize f)) (with_rights r fs) v \<noteq> None" for v
    using m(4) [OF frame_at_limit [OF fit v]] frame_at_above [OF v] Cons.prems(6) [of v] v by (simp add: add.assoc)
  from Cons.IH [OF rest _ m(2,3) fit this] m(1)
  have ih: "k_bytes k' = k_bytes k" "free_memory MemDram (k_mem k') = free_memory MemDram (k_mem k)" "vspace_inv (k_heap k', p_vspace (process n'))"
    "\<And>v. v < VADDR_LIMIT \<Longrightarrow> vs_resolve (p_vspace (process n')) v =
      (case frame_at (base + (off + fsize f)) (with_rights r fs) v of Some y \<Rightarrow> Ok y | None \<Rightarrow> vs_resolve (p_vspace (process n1)) v)"
    by simp_all
  have "vs_resolve (p_vspace (process n')) v =
      (case frame_at (base + off) (with_rights r (f # fs)) v of Some y \<Rightarrow> Ok y | None \<Rightarrow> vs_resolve (p_vspace (process n)) v)"
    if v: "v < VADDR_LIMIT" for v
    using ih(4) [OF v] m(4) [OF v] frame_at_above [of "base + (off + fsize f)" "with_rights r fs" v]
    by (auto simp: add.assoc split: option.splits)
  then show ?case using ih(1-3) by simp
qed simp

lemma frame_at_frames:
  "frame_at base (with_rights r fs) v = Some (p, q) \<Longrightarrow> q = r \<and> p \<in> frames_bytes fs"
  by (induction fs arbitrary: base) (auto simp: frame_bytes_def split: if_splits)

lemma frame_at_extent:
  "frame_at base (with_rights r fs) v \<noteq> None \<longleftrightarrow> base \<le> v \<and> v < base + sum_list (map fsize fs)"
  by (induction fs arbitrary: base) (auto simp: add.assoc)

lemma frame_at_inj:
  assumes "frame_at base (with_rights r fs) v = Some (p, q)" and "frame_at base (with_rights r fs) w = Some (p, q)"
    and "sorted_wrt (\<lambda>f g. frame_bytes f \<inter> frame_bytes g = {}) fs"
  shows "v = w"
  using assms
proof (induction fs arbitrary: base)
  case (Cons f fs)
  let ?in = "\<lambda>u. base \<le> u \<and> u < base + fsize f"
  have here: "p = fbase f + (u - base) \<and> p \<in> frame_bytes f" if "frame_at base (with_rights r (f # fs)) u = Some (p, q)" "?in u" for u
    using that by (auto simp: frame_bytes_def)
  have there: "frame_at (base + fsize f) (with_rights r fs) u = Some (p, q) \<and> p \<in> frames_bytes fs"
    if "frame_at base (with_rights r (f # fs)) u = Some (p, q)" "\<not> ?in u" for u
    using that frame_at_frames [of "base + fsize f" r fs u p q] by (auto split: if_splits)
  have "frame_bytes f \<inter> frames_bytes fs = {}" using Cons.prems(3) by (auto simp: frames_bytes_def)
  then have "?in v \<longleftrightarrow> ?in w" using here there Cons.prems(1,2) by blast
  then show ?case
    using here [OF Cons.prems(1)] here [OF Cons.prems(2)] there [OF Cons.prems(1)] there [OF Cons.prems(2)] Cons.IH Cons.prems(3)
    by (cases "?in v") auto
qed simp

lemma frames_fit_append:
  "frames_fit base (with_rights r (fs @ gs)) \<longleftrightarrow> frames_fit base (with_rights r fs) \<and> frames_fit (base + sum_list (map fsize fs)) (with_rights r gs)"
  by (induction fs arbitrary: base) (auto simp: add.assoc)

lemma uniform_frames:
  assumes "\<forall>f \<in> set fs. fsize f = sz \<and> fbase f mod sz = 0"
  shows "sum_list (map fsize fs) = length fs * sz"
    and "\<lbrakk>sz = BASE_PAGE_SIZE \<or> sz = LARGE_PAGE_SIZE; base mod sz = 0; base + length fs * sz \<le> VADDR_LIMIT\<rbrakk>
      \<Longrightarrow> frames_fit base (with_rights ReadWriteUser fs)"
  using assms
proof (induction fs arbitrary: base)
  case (Cons f fs)
  { case 1 then show ?case using Cons.IH(1) by simp
  next
    case 2
    then have "(base + sz) mod sz = 0" by simp
    then show ?case using 2 Cons.IH(2) [of "base + sz"] by (auto simp: entry_ok_def granted_def) }
qed simp_all

lemma size_to_pages_aligned:
  assumes "base mod (if sz < LARGE_PAGE_SIZE then BASE_PAGE_SIZE else LARGE_PAGE_SIZE) = 0"
  shows "base mod BASE_PAGE_SIZE = 0" and "0 < snd (size_to_pages sz) \<Longrightarrow> base mod LARGE_PAGE_SIZE = 0"
proof -
  show "base mod BASE_PAGE_SIZE = 0" using assms large_aligned_base by (auto split: if_splits)
  show "base mod LARGE_PAGE_SIZE = 0" if "0 < snd (size_to_pages sz)"
    using that assms by (cases "sz < LARGE_PAGE_SIZE") (auto simp: size_to_pages_def Let_def)
qed

lemma map_mem_frames_fit:
  assumes "\<forall>f \<in> set ls. fsize f = LARGE_PAGE_SIZE \<and> fbase f mod LARGE_PAGE_SIZE = 0"
    and "\<forall>f \<in> set bs. fsize f = BASE_PAGE_SIZE \<and> fbase f mod BASE_PAGE_SIZE = 0"
    and "base mod BASE_PAGE_SIZE = 0" and "0 < length ls \<Longrightarrow> base mod LARGE_PAGE_SIZE = 0"
    and "base + sum_list (map fsize (ls @ bs)) \<le> VADDR_LIMIT"
  shows "frames_fit base (with_rights ReadWriteUser (ls @ bs))"
proof -
  note l = uniform_frames [OF assms(1)] and b = uniform_frames [OF assms(2)]
  have lim: "base + length ls * LARGE_PAGE_SIZE + length bs * BASE_PAGE_SIZE \<le> VADDR_LIMIT" using assms(5) l(1) b(1) by simp
  have "frames_fit base (with_rights ReadWriteUser ls)" using l(2) [of base] assms(4) lim by (cases ls) simp_all
  moreover have "(base + length ls * LARGE_PAGE_SIZE) mod BASE_PAGE_SIZE = 0"
    using assms(3) by (simp add: mod_add_eq [symmetric, of base] mod_mult_right_eq [symmetric, of "length ls" LARGE_PAGE_SIZE])
  ultimately show ?thesis unfolding frames_fit_append l(1) using b(2) lim by simp
qed

text \<open>The steps of \<open>MapMem\<close> that succeeded, when the whole call did.\<close>

lemma map_mem_steps:
  assumes "map_mem kp mt pid base sz (k, n) = ((k', n'), Ok (pa, len))" and "size_to_pages sz = (bp, lp)"
    and "memory_ok mt (k_mem k)" and "mt \<noteq> MemInvalid" and "never_fails (k_heap k)"
  obtains k0 k1 ls bs x where "taken mt k0 k1 (ls @ bs)" "never_fails (k_heap k1)"
    "free_memory mt (k_mem k0) = free_memory mt (k_mem k)"
    "length ls = lp" "\<forall>f \<in> set ls. fsize f = LARGE_PAGE_SIZE \<and> fbase f mod LARGE_PAGE_SIZE = 0"
    "length bs = bp" "\<forall>f \<in> set bs. fsize f = BASE_PAGE_SIZE \<and> fbase f mod BASE_PAGE_SIZE = 0"
    "map_frames_loop (proc_dispatch_mut kp) (k1, n) base 0 (ls @ bs) ReadWriteUser = ((k', n'), Ok x)"
    "ls @ bs \<noteq> []" "pa = fbase (hd (ls @ bs))" "len = sum_list (map fsize (ls @ bs))"
proof -
  obtain ka na u where a: "(if bp + lp = 0 then ((k, n), Ok ()) else try_alloc FallibleTryReserveError (k, n)) = ((ka, na), Ok u)"
    and rest: "and_then (refill (ka, na) (20 + bp) lp mt) (\<lambda>s _.
     and_then (take_frames mt allocate_large_page lp s) (\<lambda>s larges.
     and_then (take_frames mt allocate_base_page bp s) (\<lambda>s bases.
     and_then (expect (nr_map_frames (proc_dispatch_mut kp) s pid base (larges @ bases) ReadWriteUser)) (\<lambda>s _.
       (s, case larges @ bases of [] \<Rightarrow> Panic | f # _ \<Rightarrow> Ok (fbase f, sum_list (map fsize (larges @ bases))))))))
     = ((k', n'), Ok (pa, len) :: (nat \<times> nat) kres)"
    using assms(1,2) unfolding map_mem_def by (auto simp: and_then_Ok)
  have a': "na = n" "never_fails (k_heap ka)" "k_mem ka = k_mem k"
    using a assms(5) heap_take_keeps [of "k_heap k"] by (auto simp: try_alloc_def split: if_splits prod.splits)
  obtain k0 n0 v where r: "refill (ka, na) (20 + bp) lp mt = ((k0, n0), Ok v)"
    and rest: "and_then (take_frames mt allocate_large_page lp (k0, n0)) (\<lambda>s larges.
     and_then (take_frames mt allocate_base_page bp s) (\<lambda>s bases.
     and_then (expect (nr_map_frames (proc_dispatch_mut kp) s pid base (larges @ bases) ReadWriteUser)) (\<lambda>s _.
       (s, case larges @ bases of [] \<Rightarrow> Panic | f # _ \<Rightarrow> Ok (fbase f, sum_list (map fsize (larges @ bases)))))))
     = ((k', n'), Ok (pa, len) :: (nat \<times> nat) kres)"
    using rest by (auto simp: and_then_Ok)
  note rr = refill_result [OF r]
  obtain kl nl ls where t1: "take_frames mt allocate_large_page lp (k0, n0) = ((kl, nl), Ok ls)"
    and rest: "and_then (take_frames mt allocate_base_page bp (kl, nl)) (\<lambda>s bases.
     and_then (expect (nr_map_frames (proc_dispatch_mut kp) s pid base (ls @ bases) ReadWriteUser)) (\<lambda>s _.
       (s, case ls @ bases of [] \<Rightarrow> Panic | f # _ \<Rightarrow> Ok (fbase f, sum_list (map fsize (ls @ bases))))))
     = ((k', n'), Ok (pa, len) :: (nat \<times> nat) kres)"
    using rest by (auto simp: and_then_Ok)
  obtain kb nb bs where t2: "take_frames mt allocate_base_page bp (kl, nl) = ((kb, nb), Ok bs)"
    and rest: "and_then (expect (nr_map_frames (proc_dispatch_mut kp) (kb, nb) pid base (ls @ bs) ReadWriteUser)) (\<lambda>s _.
       (s, case ls @ bs of [] \<Rightarrow> Panic | f # _ \<Rightarrow> Ok (fbase f, sum_list (map fsize (ls @ bs))))) = ((k', n'), Ok (pa, len) :: (nat \<times> nat) kres)"
    using rest by (auto simp: and_then_Ok)
  obtain x where m: "nr_map_frames (proc_dispatch_mut kp) (kb, nb) pid base (ls @ bs) ReadWriteUser = ((k', n'), Ok x)"
    and c: "(case ls @ bs of [] \<Rightarrow> Panic | f # _ \<Rightarrow> Ok (fbase f, sum_list (map fsize (ls @ bs)))) = (Ok (pa, len) :: (nat \<times> nat) kres)"
    using rest by (auto simp: and_then_Ok)
  note t = t1 t2
  have ok0: "memory_ok mt (k_mem k0)" "free_memory mt (k_mem k0) = free_memory mt (k_mem k)" using rr(4) assms(3,4) a'(3) by simp_all
  have tl: "nl = n0" "taken mt k0 kl ls" using take_frames_taken [OF t(1) ok0(1)] by simp_all
  have okl: "memory_ok mt (k_mem kl)" using takenD(2) [OF tl(2)] .
  have tb: "nb = nl" "taken mt kl kb bs" using take_frames_taken [OF t(2) okl] by simp_all
  have T: "taken mt k0 kb (ls @ bs)" using taken_append [OF tl(2) tb(2)] .
  have L: "length ls = lp \<and> (\<forall>f \<in> set ls. fsize f = LARGE_PAGE_SIZE \<and> fbase f mod LARGE_PAGE_SIZE = 0)"
    using take_frames_shape [OF t(1) ok0(1), of LARGE_PAGE_SIZE] by (simp add: alloc_size_def)
  have B: "length bs = bp \<and> (\<forall>f \<in> set bs. fsize f = BASE_PAGE_SIZE \<and> fbase f mod BASE_PAGE_SIZE = 0)"
    using take_frames_shape [OF t(2) okl, of BASE_PAGE_SIZE] by (simp add: alloc_size_def)
  have M: "map_frames_loop (proc_dispatch_mut kp) (kb, n) base 0 (ls @ bs) ReadWriteUser = ((k', n'), Ok x)"
    using m tl(1) tb(1) rr(1) a'(1) by (simp add: nr_map_frames_def split: if_splits)
  have H: "never_fails (k_heap kb)" using takenD(1) [OF T] rr(2) a'(2) by simp
  have C: "ls @ bs \<noteq> []" "pa = fbase (hd (ls @ bs))" "len = sum_list (map fsize (ls @ bs))" using c by (auto simp del: map_append sum_list_append split: list.splits)
  show ?thesis using that [OF T H ok0(2) _ _ _ _ M C] L B by blast
qed


section \<open>Requests beyond the cache of the core\<close>

lemma move_base_pages_cap: "move_base_pages n s = (s', r) \<Longrightarrow> bp_cap (snd s') = bp_cap (snd s)"
proof (induction n s rule: move_base_pages.induct)
  case (2 n nc tc)
  have "bp_cap tc' = bp_cap tc" if "grow_base_pages tc [f] = (tc', x)" for tc' f x
    using that by (auto simp: release_base_page_def and_then_def split: if_splits option.splits)
  then show ?case using 2 by (auto split: prod.splits result.splits)
qed auto

lemma move_large_pages_cap: "move_large_pages n s = (s', r) \<Longrightarrow> bp_cap (snd s') = bp_cap (snd s)"
proof (induction n s rule: move_large_pages.induct)
  case (2 n nc tc)
  have "bp_cap tc' = bp_cap tc" if "grow_large_pages tc [f] = (tc', x)" for tc' f x
    using that by (auto simp: release_large_page_def and_then_def split: if_splits option.splits)
  then show ?case using 2 by (auto split: prod.splits result.splits)
qed auto

lemma refill_cap:
  assumes "refill (k, p) bp lp mt = ((k', p'), r)"
  shows "bp_cap (manager_of (fst (k_mem k')) mt) = bp_cap (manager_of (fst (k_mem k)) mt)"
proof -
  have "bp_cap (snd s') = bp_cap (snd s)" if "refill_caches bp lp s = (s', x)" for s s' x
    using that unfolding refill_caches_def by (cases rule: and_then_cases) (auto dest!: move_base_pages_cap move_large_pages_cap)
  then show ?thesis
    using assms unfolding refill_def try_refill_tcache_def
    by (auto simp: Let_def manager_of_def split: prod.splits if_splits)
qed

lemma and_then_Err: "snd (and_then r f) = Err e \<longleftrightarrow> snd r = Err e \<or> (\<exists>s a. r = (s, Ok a) \<and> snd (f s a) = Err e)"
  by (cases r; cases "snd r") auto

lemma expect_no_Err: "snd (expect r) \<noteq> Err e"
  by (cases r; cases "snd r") auto

lemma take_frames_no_Err: "snd (take_frames mt alloc n s) \<noteq> Err e"
proof (induction n arbitrary: s)
  case (Suc n)
  then show ?case by (simp add: and_then_Err expect_no_Err)
qed simp

lemma take_large_keeps_base:
  "take_frames mt allocate_large_page n (k, p) = ((k', p'), Ok fs)
    \<Longrightarrow> base_page_addresses (manager_of (fst (k_mem k')) mt) = base_page_addresses (manager_of (fst (k_mem k)) mt)"
proof (induction n arbitrary: k p fs)
  case (Suc n)
  then obtain k1 p1 f gs where 1: "with_manager mt allocate_large_page (k, p) = ((k1, p1), Ok f)"
    "take_frames mt allocate_large_page n (zero_frame f k1, p1) = ((k', p'), Ok gs)"
    by (auto simp: and_then_Ok)
  have "base_page_addresses (manager_of (fst (k_mem k1)) mt) = base_page_addresses (manager_of (fst (k_mem k)) mt)"
    using 1(1) by (auto simp: with_manager_def manager_of_def allocate_large_page_def Let_def split: prod.splits if_splits)
  then show ?case using Suc.IH [OF 1(2)] by (simp add: zero_frame_def)
qed simp

lemma take_base_exhausted:
  "length (base_page_addresses (manager_of (fst (k_mem k)) mt)) < n \<Longrightarrow> snd (take_frames mt allocate_base_page n (k, p)) = Panic"
proof (induction n arbitrary: k p)
  case (Suc n)
  obtain k1 p1 x where w: "with_manager mt allocate_base_page (k, p) = ((k1, p1), x)" by (metis surj_pair)
  show ?case
  proof (cases x)
    case (Ok f)
    then have "Suc (length (base_page_addresses (manager_of (fst (k_mem k1)) mt))) = length (base_page_addresses (manager_of (fst (k_mem k)) mt))"
      using w by (auto simp: with_manager_def manager_of_def allocate_base_page_def Let_def split: prod.splits if_splits)
    then have "snd (take_frames mt allocate_base_page n (zero_frame f k1, p1)) = Panic"
      using Suc.IH [of "zero_frame f k1"] Suc.prems by (simp add: zero_frame_def)
    then show ?thesis using w Ok by (auto simp: and_then_def split: prod.splits result.splits)
  qed (use w in simp_all)
qed simp

text \<open>
  A request that needs more base pages than the cache of a core can hold panics the kernel,
  however much memory is free: refilling the cache stops at its capacity and reports success, and
  the loop that follows expects all pages to be there.  The cache holds 381 base pages, so every
  size that leaves more than that after its large pages is such a request.
\<close>

lemma map_mem_beyond_cache_panics:
  assumes "size_to_pages sz = (bp, lp)" and "bp_cap (manager_of (fst (k_mem k)) MemDram) < bp"
    and "memory_ok MemDram (k_mem k)" and "never_fails (k_heap k)"
    and "snd (try_refill_tcache (k_mem k) (20 + bp) lp MemDram) = Ok ()"
  shows "snd (map_mem kp MemDram pid base sz (k, n)) = Panic"
proof -
  obtain ka where a: "try_alloc FallibleTryReserveError (k, n) = ((ka, n), Ok ())" "k_mem ka = k_mem k"
    using assms(4) by (auto simp: try_alloc_def elim: heap_take_cases)
  obtain k0 where r: "refill (ka, n) (20 + bp) lp MemDram = ((k0, n), Ok ())"
    using assms(5) a(2) by (cases "try_refill_tcache (k_mem k) (20 + bp) lp MemDram") (auto simp: refill_def)
  have "memory_ok MemDram (k_mem k0)" using refill_result(4) [OF r] assms(3) a(2) by simp
  then have "length (base_page_addresses (manager_of (fst (k_mem k0)) MemDram)) \<le> bp_cap (manager_of (fst (k_mem k0)) MemDram)"
    by (simp add: memory_ok_def mcache_inv_def)
  then have few: "length (base_page_addresses (manager_of (fst (k_mem k0)) MemDram)) < bp" using refill_cap [OF r] a(2) assms(2) by simp
  obtain kl nl x where l: "take_frames MemDram allocate_large_page lp (k0, n) = ((kl, nl), x)" by (metis surj_pair)
  have m: "map_mem kp MemDram pid base sz (k, n) = and_then ((kl, nl), x) (\<lambda>s larges.
     and_then (take_frames MemDram allocate_base_page bp s) (\<lambda>s bases.
     and_then (expect (nr_map_frames (proc_dispatch_mut kp) s pid base (larges @ bases) ReadWriteUser)) (\<lambda>s _.
       (s, case larges @ bases of [] \<Rightarrow> Panic | f # _ \<Rightarrow> Ok (fbase f, sum_list (map fsize (larges @ bases)))))))"
    using a(1) r l assms(1,2) by (simp add: map_mem_def)
  show ?thesis
  proof (cases x)
    case (Ok ls)
    have "snd (take_frames MemDram allocate_base_page bp (kl, nl)) = Panic"
      using take_base_exhausted [of kl MemDram] few take_large_keeps_base [OF l [unfolded Ok]] by simp
    then show ?thesis unfolding m Ok by (auto simp: and_then_def split: prod.splits result.splits)
  next
    case (Err e)
    then show ?thesis using take_frames_no_Err [of MemDram allocate_large_page lp "(k0, n)" e] l by simp
  qed (simp add: m)
qed

section \<open>Sample states\<close>

lemma fresh_with_page:
  obtains h vs where "vs_map_frame ([], \<lparr>mappings = [], page_table = fresh_table\<rparr>) 4096 \<lparr>fbase = 65536, fsize = 4096, affinity = 0\<rparr> ReadWriteUser = ((h, vs), Ok ())"
    "vspace_inv (h, vs)" "\<And>v. \<lbrakk>4096 \<le> v; v < 8192\<rbrakk> \<Longrightarrow> vs_resolve vs v = Ok (65536 + (v - 4096), ReadWriteUser)"
proof -
  let ?s = "([], \<lparr>mappings = [], page_table = fresh_table\<rparr>)" and ?f = "\<lparr>fbase = 65536, fsize = 4096, affinity = 0\<rparr>"
  obtain s' where "vs_map_frame ?s 4096 ?f ReadWriteUser = (s', Ok ())" "vspace_inv s'"
    "\<forall>v < VADDR_LIMIT. vs_resolve (snd s') v = (if 4096 \<le> v \<and> v < 4096 + 4096 then Ok (65536 + (v - 4096), ReadWriteUser) else vs_resolve (snd ?s) v)"
    using vspace.map_frame_adds [OF vspace_inv_fresh, of 0 4096 ?f ReadWriteUser] fresh_resolve fresh_table_ok(5)
    by (force simp: entry_ok_def granted_def)
  then show ?thesis using that by (cases s') simp
qed


text \<open>A core before it is connected to the global memory, with one page in its cache.\<close>

definition early_kstate :: KState where
  "early_kstate = \<lparr>k_heap = [], k_mem = (Kcb_new ((TCache_new 0)\<lparr>base_page_addresses := [65536]\<rparr>) 0, []), k_bytes = (\<lambda>_. 7)\<rparr>"

lemma early_memory: "memory_ok MemDram (k_mem early_kstate)" "never_fails (k_heap early_kstate)"
  by (simp_all add: early_kstate_def memory_ok_def mcache_inv_def manager_of_def mem_manager_def arena_of_def Kcb_new_def
      Arena_uninit_with_node_def MCache_new_def cache_pages_def)

definition emptied_kstate :: KState where
  "emptied_kstate = zero_frame \<lparr>fbase = 65536, fsize = 4096, affinity = 0\<rparr>
     \<lparr>k_heap = [], k_mem = (Kcb_new (TCache_new 0) 0, []), k_bytes = (\<lambda>_. 7)\<rparr>"

lemma early_steps:
  "refill (early_kstate, p) bp lp MemDram = ((early_kstate, p), Ok ())" "refill (emptied_kstate, p) bp lp MemDram = ((emptied_kstate, p), Ok ())"
  "take_frames MemDram allocate_base_page 1 (early_kstate, p) = ((emptied_kstate, p), Ok [\<lparr>fbase = 65536, fsize = 4096, affinity = 0\<rparr>])"
  "try_alloc e (early_kstate, p) = ((early_kstate, p), Ok ())" "k_heap emptied_kstate = []"
  by (simp_all add: early_kstate_def emptied_kstate_def refill_def try_refill_tcache_def Kcb_new_def Arena_uninit_with_node_def Let_def
      with_manager_def mem_manager_def put_mem_manager_def allocate_base_page_def paddr_to_base_page_def MCache_new_def Frame_new_def
      zero_frame_def try_alloc_def cong: if_cong)

lemma early_map_mem:
  obtains k' n' where "map_mem None MemDram 0 4096 4000 (early_kstate, NrProcess_new sample_process) = ((k', n'), Ok (65536, 4096))"
proof -
  let ?f = "\<lparr>fbase = 65536, fsize = 4096, affinity = 0\<rparr>"
  obtain h vs where v: "vs_map_frame ([], \<lparr>mappings = [], page_table = fresh_table\<rparr>) 4096 ?f ReadWriteUser = ((h, vs), Ok ())"
    using fresh_with_page by metis
  have p: "size_to_pages 4000 = (1, 0)" by (simp add: size_to_pages_def Let_def)
  have vs: "p_vspace sample_process = \<lparr>mappings = [], page_table = fresh_table\<rparr>" by (simp add: sample_process_def)
  have "\<exists>s. nr_map_frames (proc_dispatch_mut None) (emptied_kstate, NrProcess_new sample_process) 0 4096 [?f] ReadWriteUser = (s, Ok (4096, 4096))"
    by (simp add: nr_map_frames_def proc_dispatch_mut_def early_steps on_process_def NrProcess_new_def proc_map_frame_def vs v)
  then obtain k' n' where n: "nr_map_frames (proc_dispatch_mut None) (emptied_kstate, NrProcess_new sample_process) 0 4096 [?f] ReadWriteUser = ((k', n'), Ok (4096, 4096))"
    by (metis surj_pair)
  have "map_mem None MemDram 0 4096 4000 (early_kstate, NrProcess_new sample_process) = ((k', n'), Ok (65536, 4096))"
    unfolding map_mem_def p by (simp add: early_steps(1,4) early_steps(3) [unfolded One_nat_def] n del: take_frames.simps(2))
  then show ?thesis by (rule that)
qed


lemma apart_progression: "apart (map (\<lambda>i. (b + i * sz, sz)) [0..<n])"
proof (induction n)
  case (Suc n)
  have *: "page_bytes (b + i * sz, sz) \<inter> page_bytes (b + n * sz, sz) = {}" if "i < n" for i
  proof -
    have "i * sz + sz \<le> n * sz" using that by (metis Suc_leI mult_Suc mult_le_mono1 add.commute)
    then show ?thesis by (auto simp: page_bytes_def)
  qed
  have "pages_bytes (map (\<lambda>i. (b + i * sz, sz)) [0..<n]) \<inter> page_bytes (b + n * sz, sz) = {}"
    unfolding pages_bytes_def by (auto dest: * [THEN equalityD1, THEN subsetD, OF _ IntI])
  then show ?case using Suc.IH by (simp add: apart_append)
qed simp

lemma full_memory: "memory_ok MemDram (k_mem (full_kstate (NCache_new 0)))"
proof -
  have c: "cache_pages full_tcache = map (\<lambda>i. (8388608 + i * 4096, 4096)) [0..<381] @ map (\<lambda>i. (16777216 + i * 2097152, 2097152)) [0..<128]"
    by (simp add: cache_pages_def full_tcache_def comp_def del: upt_rec_numeral)
  have "pages_bytes (map (\<lambda>i. (8388608 + i * 4096, 4096)) [0..<381]) \<inter> pages_bytes (map (\<lambda>i. (16777216 + i * 2097152, 2097152)) [0..<128]) = {}"
    by (auto simp: pages_bytes_def page_bytes_def simp del: upt_rec_numeral)
  then have "apart (cache_pages full_tcache)" unfolding c apart_append using apart_progression by blast
  moreover have "\<forall>a \<in> set (base_page_addresses full_tcache). a mod 4096 = 0" "\<forall>a \<in> set (large_page_addresses full_tcache). a mod 2097152 = 0"
    by (auto simp: full_tcache_def mod_add_eq [symmetric] simp del: upt_rec_numeral)
  moreover have "length (base_page_addresses full_tcache) = 381" "length (large_page_addresses full_tcache) = 128" "bp_cap full_tcache = 381"
    "lp_cap full_tcache = 128" "node full_tcache = 0"
    by (simp_all add: full_tcache_def MCache_new_def del: upt_rec_numeral)
  ultimately have "mcache_inv full_tcache" "pair_ok (NCache_new 0) full_tcache"
    by (simp_all add: mcache_inv_def pair_ok_def MCache_new_def cache_pages_def)
  then show ?thesis using full_kcb [of "NCache_new 0"] by (simp add: memory_ok_def manager_of_def arena_of_def node_cache_def)
qed

end
