(* ===== verification/Mpmc.thy ===== *)
theory Mpmc
  imports KernelError
begin

text \<open>
  The bounded queue for several producers and consumers of \<open>mpmc.rs\<close>, as a system of threads that
  take atomic steps on the two positions, the sequence numbers and the values of the slots.  Every
  load, store and compare-exchange is one step; the steps are those of a sequentially consistent
  memory, which the release stores and acquire loads of the sequence numbers give for the values
  they guard.  Positions are natural numbers, so a run has fewer than \<open>2 ^ 63\<close> pushes.
\<close>

unbundle bit_operations_syntax

section \<open>The queue\<close>

record 'v MpmcNode =
  nd_sequence :: nat
  nd_value :: "'v option"

record 'v MpmcState =
  buffer :: "'v MpmcNode list"
  q_mask :: nat
  enqueue_pos :: nat
  dequeue_pos :: nat

function next_power_from :: "nat \<Rightarrow> nat \<Rightarrow> nat" where
  "next_power_from p n = (if p = 0 \<or> n \<le> p then p else next_power_from (2 * p) n)"
  by pat_completeness auto
termination
  by (relation "measure (\<lambda>(p, n). n - p)") auto

declare next_power_from.simps [simp del]

definition next_power_of_two :: "nat \<Rightarrow> nat" where
  "next_power_of_two n = next_power_from 1 n"

definition queue_capacity :: "nat \<Rightarrow> nat" where
  "queue_capacity capacity =
     (if capacity < 2 \<or> capacity AND (capacity - 1) \<noteq> 0
      then if capacity < 2 then 2 else next_power_of_two capacity
      else capacity)"

definition State_with_capacity :: "nat \<Rightarrow> 'v MpmcState" where
  "State_with_capacity capacity = (let capacity = queue_capacity capacity in
     \<lparr>buffer = map (\<lambda>i. \<lparr>nd_sequence = i, nd_value = None\<rparr>) [0..<capacity], q_mask = capacity - 1,
      enqueue_pos = 0, dequeue_pos = 0\<rparr>)"

text \<open>\<open>Queue::with_capacity\<close> allocates the buffer and the shared state.\<close>

definition Queue_with_capacity :: "heap \<Rightarrow> nat \<Rightarrow> heap \<times> 'v MpmcState kres" where
  "Queue_with_capacity h capacity = (case heap_take h of
       (False, h) \<Rightarrow> (h, Err (KError_from FallibleTryReserveError))
     | (True, h) \<Rightarrow> (case heap_take h of
         (False, h) \<Rightarrow> (h, Err (KError_from AllocError))
       | (True, h) \<Rightarrow> (h, Ok (State_with_capacity capacity))))"

definition slot :: "'v MpmcState \<Rightarrow> nat \<Rightarrow> nat" where
  "slot q pos = pos AND q_mask q"

definition seq_at :: "'v MpmcState \<Rightarrow> nat \<Rightarrow> nat" where
  "seq_at q pos = nd_sequence (buffer q ! slot q pos)"

definition value_at :: "'v MpmcState \<Rightarrow> nat \<Rightarrow> 'v option" where
  "value_at q pos = nd_value (buffer q ! slot q pos)"

definition set_seq :: "'v MpmcState \<Rightarrow> nat \<Rightarrow> nat \<Rightarrow> 'v MpmcState" where
  "set_seq q pos s = q\<lparr>buffer := (buffer q)[slot q pos := (buffer q ! slot q pos)\<lparr>nd_sequence := s\<rparr>]\<rparr>"

definition set_value :: "'v MpmcState \<Rightarrow> nat \<Rightarrow> 'v option \<Rightarrow> 'v MpmcState" where
  "set_value q pos v = q\<lparr>buffer := (buffer q)[slot q pos := (buffer q ! slot q pos)\<lparr>nd_value := v\<rparr>]\<rparr>"

section \<open>The threads\<close>

text \<open>
  Where a thread stands in \<open>push\<close> or \<open>pop\<close>: before the load of the position, before the load of the
  sequence number, before the compare-exchange, before the store or take of the value, and before
  the store of the sequence number.
\<close>

datatype 'v qpc = QIdle
  | PushLoad 'v | PushSeq 'v nat | PushCas 'v nat | PushWrite 'v nat | PushPublish nat
  | PopLoad | PopSeq nat | PopCas nat | PopTake nat | PopRelease nat "'v option"

text \<open>
  The system records, besides the queue and the threads, the values in the order in which their
  positions were claimed, and the answers of \<open>pop\<close> with the position each one claimed.
\<close>

record 'v qsys =
  sq :: "'v MpmcState"
  qpcs :: "nat \<Rightarrow> 'v qpc"
  pushed :: "'v list"
  popped :: "(nat \<times> 'v option) list"

definition qgoto :: "nat \<Rightarrow> 'v qpc \<Rightarrow> 'v qsys \<Rightarrow> 'v qsys" where
  "qgoto a p s = s\<lparr>qpcs := (qpcs s)(a := p)\<rparr>"

lemma qgoto_simps [simp]:
  "qpcs (qgoto a c s) = (qpcs s)(a := c)" "sq (qgoto a c s) = sq s" "pushed (qgoto a c s) = pushed s" "popped (qgoto a c s) = popped s"
  by (simp_all add: qgoto_def)

text \<open>The branch on \<open>diff\<close> after the sequence number has been read.\<close>

definition push_branch :: "'v \<Rightarrow> nat \<Rightarrow> nat \<Rightarrow> 'v qpc" where
  "push_branch v pos seq = (let diff = int seq - int pos in
     if diff = 0 then PushCas v pos else if diff < 0 then QIdle else PushLoad v)"

definition pop_branch :: "nat \<Rightarrow> nat \<Rightarrow> 'v qpc" where
  "pop_branch pos seq = (let diff = int seq - int (pos + 1) in
     if diff = 0 then PopCas pos else if diff < 0 then QIdle else PopLoad)"

lemma branch_simps:
  "push_branch v pos seq = (if seq = pos then PushCas v pos else if seq < pos then QIdle else PushLoad v)"
  "pop_branch pos seq = (if seq = Suc pos then PopCas pos else if seq < Suc pos then QIdle else PopLoad)"
  by (auto simp: push_branch_def pop_branch_def Let_def)

inductive q_step :: "nat \<Rightarrow> 'v qsys \<Rightarrow> 'v qsys \<Rightarrow> bool" for a where
  push_call: "qpcs s a = QIdle \<Longrightarrow> q_step a s (qgoto a (PushLoad v) s)"
| push_load: "qpcs s a = PushLoad v \<Longrightarrow> q_step a s (qgoto a (PushSeq v (enqueue_pos (sq s))) s)"
| push_seq: "qpcs s a = PushSeq v pos \<Longrightarrow> q_step a s (qgoto a (push_branch v pos (seq_at (sq s) pos)) s)"
| push_cas: "\<lbrakk>qpcs s a = PushCas v pos; enqueue_pos (sq s) = pos\<rbrakk>
    \<Longrightarrow> q_step a s (qgoto a (PushWrite v pos) (s\<lparr>sq := (sq s)\<lparr>enqueue_pos := pos + 1\<rparr>, pushed := pushed s @ [v]\<rparr>))"
| push_cas_fail: "qpcs s a = PushCas v pos \<Longrightarrow> q_step a s (qgoto a (PushSeq v (enqueue_pos (sq s))) s)"
| push_write: "qpcs s a = PushWrite v pos \<Longrightarrow> q_step a s (qgoto a (PushPublish pos) (s\<lparr>sq := set_value (sq s) pos (Some v)\<rparr>))"
| push_publish: "qpcs s a = PushPublish pos \<Longrightarrow> q_step a s (qgoto a QIdle (s\<lparr>sq := set_seq (sq s) pos (pos + 1)\<rparr>))"
| pop_call: "qpcs s a = QIdle \<Longrightarrow> q_step a s (qgoto a PopLoad s)"
| pop_load: "qpcs s a = PopLoad \<Longrightarrow> q_step a s (qgoto a (PopSeq (dequeue_pos (sq s))) s)"
| pop_seq: "qpcs s a = PopSeq pos \<Longrightarrow> q_step a s (qgoto a (pop_branch pos (seq_at (sq s) pos)) s)"
| pop_cas: "\<lbrakk>qpcs s a = PopCas pos; dequeue_pos (sq s) = pos\<rbrakk>
    \<Longrightarrow> q_step a s (qgoto a (PopTake pos) (s\<lparr>sq := (sq s)\<lparr>dequeue_pos := pos + 1\<rparr>\<rparr>))"
| pop_cas_fail: "qpcs s a = PopCas pos \<Longrightarrow> q_step a s (qgoto a (PopSeq (dequeue_pos (sq s))) s)"
| pop_take: "qpcs s a = PopTake pos \<Longrightarrow> q_step a s (qgoto a (PopRelease pos (value_at (sq s) pos)) (s\<lparr>sq := set_value (sq s) pos None\<rparr>))"
| pop_release: "qpcs s a = PopRelease pos v
    \<Longrightarrow> q_step a s (qgoto a QIdle (s\<lparr>sq := set_seq (sq s) pos (pos + q_mask (sq s) + 1), popped := popped s @ [(pos, v)]\<rparr>))"

inductive q_reach :: "nat \<Rightarrow> 'v qsys \<Rightarrow> bool" for capacity where
  q_start: "q_reach capacity \<lparr>sq = State_with_capacity capacity, qpcs = (\<lambda>_. QIdle), pushed = [], popped = []\<rparr>"
| q_more: "\<lbrakk>q_reach capacity s; q_step a s s'\<rbrakk> \<Longrightarrow> q_reach capacity s'"

section \<open>The capacity is a power of two\<close>

lemma next_power_from_bounds:
  assumes "0 < p"
  shows "\<exists>k. next_power_from p n = p * 2 ^ k \<and> n \<le> p * 2 ^ k \<and> (p < n \<longrightarrow> p * 2 ^ k < 2 * n)"
  using assms
proof (induction p n rule: next_power_from.induct)
  case (1 p n)
  show ?case
  proof (cases "n \<le> p")
    case True
    then show ?thesis by (intro exI [of _ 0]) (simp add: next_power_from.simps)
  next
    case False
    then obtain k where "next_power_from (2 * p) n = 2 * p * 2 ^ k" "n \<le> 2 * p * 2 ^ k" "2 * p < n \<longrightarrow> 2 * p * 2 ^ k < 2 * n"
      using 1 by auto
    moreover have "2 * p * 2 ^ k < 2 * n" if "\<not> 2 * p < n"
    proof -
      have "next_power_from (2 * p) n = 2 * p" using that by (simp add: next_power_from.simps)
      then show ?thesis using calculation(1) False 1(2) by auto
    qed
    ultimately show ?thesis using False by (intro exI [of _ "Suc k"]) (auto simp: next_power_from.simps [of p n])
  qed
qed

lemma next_power_of_two_tight:
  obtains k where "next_power_of_two n = 2 ^ k" "n \<le> 2 ^ k" "1 < n \<Longrightarrow> 2 ^ k < 2 * n"
  using next_power_from_bounds [of 1 n] by (auto simp: next_power_of_two_def)

lemma and_pred_power:
  fixes n :: nat
  assumes "0 < n" and "n AND (n - 1) = 0"
  shows "\<exists>k. n = 2 ^ k"
  using assms
proof (induction n rule: less_induct)
  case (less n)
  show ?case
  proof (cases "even n")
    case True
    then obtain m where m: "n = 2 * m" by blast
    then have e: "n - 1 = 2 * (m - 1) + 1" "0 < m" using less.prems(1) by simp_all
    have "n AND (n - 1) = 2 * (m AND (m - 1))" unfolding e(1) unfolding m by (subst and_rec) simp
    then obtain k where "m = 2 ^ k" using less.IH [of m] less.prems(2) e(2) m by auto
    then show ?thesis using m by (intro exI [of _ "Suc k"]) simp
  next
    case False
    then obtain m where m: "n = 2 * m + 1" by (metis oddE)
    have "n AND (n - 1) = 2 * m" unfolding m by (subst and_rec) simp
    then show ?thesis using less.prems(2) m by (intro exI [of _ 0]) simp
  qed
qed

text \<open>The capacity is a power of two, at least 2 and at least the requested one.\<close>

lemma queue_capacity_power:
  obtains k where "queue_capacity capacity = 2 ^ k" "1 \<le> k" "capacity \<le> 2 ^ k" "2 \<le> capacity \<Longrightarrow> 2 ^ k < 2 * capacity"
proof -
  have k1: "1 \<le> k" if "2 \<le> (2::nat) ^ k" for k using that by (cases k) simp_all
  show ?thesis
  proof (cases "capacity < 2")
    case True
    then show ?thesis using that [of 1] by (simp add: queue_capacity_def)
  next
    case big: False
    show ?thesis
    proof (cases "capacity AND (capacity - 1) = 0")
      case True
      then obtain k where "capacity = 2 ^ k" using and_pred_power big by fastforce
      then show ?thesis using that [of k] k1 [of k] big True by (simp add: queue_capacity_def)
    next
      case False
      obtain k where "next_power_of_two capacity = 2 ^ k" "capacity \<le> 2 ^ k" "1 < capacity \<Longrightarrow> 2 ^ k < 2 * capacity"
        by (rule next_power_of_two_tight [of capacity]) blast
      then show ?thesis using that [of k] k1 [of k] big False by (simp add: queue_capacity_def)
    qed
  qed
qed

section \<open>Slots\<close>

definition q_shape :: "'v MpmcState \<Rightarrow> bool" where
  "q_shape q \<longleftrightarrow> (\<exists>k. 1 \<le> k \<and> q_mask q + 1 = 2 ^ k \<and> length (buffer q) = 2 ^ k)"

lemma slot_mod:
  assumes "q_shape q"
  shows "slot q p = p mod (q_mask q + 1)" and "slot q p < length (buffer q)" and "slot q (Suc p) \<noteq> slot q p"
proof -
  obtain k where k: "1 \<le> k" "q_mask q + 1 = 2 ^ k" "length (buffer q) = 2 ^ k" using assms by (auto simp: q_shape_def)
  have m: "q_mask q = mask k" using k(2) by (simp add: mask_eq_exp_minus_1)
  show e: "slot q p = p mod (q_mask q + 1)" for p
    unfolding slot_def using k(2) by (simp add: m flip: take_bit_eq_mask) (simp add: take_bit_eq_mod)
  show "slot q p < length (buffer q)" using e k by simp
  obtain j where j: "k = Suc j" using k(1) by (cases k) auto
  have par: "p mod 2 ^ k mod 2 = p mod 2" for p :: nat unfolding j by (simp add: mod_mod_cancel)
  have "Suc p mod 2 \<noteq> p mod 2" by (simp add: mod_Suc)
  then show "slot q (Suc p) \<noteq> slot q p" unfolding e k(2) using par [of p] par [of "Suc p"] by metis
qed

lemma slot_updates [simp]:
  "slot (set_seq q p s) = slot q" "slot (set_value q p v) = slot q"
  "q_mask (set_seq q p s) = q_mask q" "q_mask (set_value q p v) = q_mask q"
  "enqueue_pos (set_seq q p s) = enqueue_pos q" "enqueue_pos (set_value q p v) = enqueue_pos q"
  "dequeue_pos (set_seq q p s) = dequeue_pos q" "dequeue_pos (set_value q p v) = dequeue_pos q"
  "q_shape (set_seq q p s) = q_shape q" "q_shape (set_value q p v) = q_shape q"
  by (simp_all add: set_seq_def set_value_def slot_def q_shape_def fun_eq_iff)

lemma position_updates [simp]:
  "slot (q\<lparr>enqueue_pos := e\<rparr>) = slot q" "slot (q\<lparr>dequeue_pos := e\<rparr>) = slot q"
  "seq_at (q\<lparr>enqueue_pos := e\<rparr>) = seq_at q" "seq_at (q\<lparr>dequeue_pos := e\<rparr>) = seq_at q"
  "value_at (q\<lparr>enqueue_pos := e\<rparr>) = value_at q" "value_at (q\<lparr>dequeue_pos := e\<rparr>) = value_at q"
  "q_shape (q\<lparr>enqueue_pos := e\<rparr>) = q_shape q" "q_shape (q\<lparr>dequeue_pos := e\<rparr>) = q_shape q"
  by (simp_all add: slot_def seq_at_def value_at_def q_shape_def fun_eq_iff)

lemma slot_contents:
  assumes "q_shape q"
  shows "seq_at (set_seq q p s) p' = (if slot q p' = slot q p then s else seq_at q p')"
    and "value_at (set_seq q p s) p' = value_at q p'"
    and "seq_at (set_value q p v) p' = seq_at q p'"
    and "value_at (set_value q p v) p' = (if slot q p' = slot q p then v else value_at q p')"
  using slot_mod(2) [OF assms, of p]
  by (simp_all add: seq_at_def value_at_def set_seq_def set_value_def slot_def nth_list_update)

lemma same_slot:
  assumes "q_shape q" and "slot q p = slot q p'"
  shows "seq_at q p = seq_at q p'" and "value_at q p = value_at q p'" and "p \<noteq> Suc p'" and "p' \<noteq> Suc p"
  using assms(2) slot_mod(3) [OF assms(1), of p] slot_mod(3) [OF assms(1), of p'] by (auto simp: seq_at_def value_at_def)

section \<open>The invariant\<close>

fun owns :: "'v qpc \<Rightarrow> nat option" where
  "owns (PushWrite v p) = Some p"
| "owns (PushPublish p) = Some p"
| "owns (PopTake p) = Some p"
| "owns (PopRelease p v) = Some p"
| "owns _ = None"

definition pop_owns :: "'v qpc \<Rightarrow> nat \<Rightarrow> bool" where
  "pop_owns c p \<longleftrightarrow> c = PopTake p \<or> (\<exists>v. c = PopRelease p v)"

fun pc_ok :: "'v MpmcState \<Rightarrow> 'v list \<Rightarrow> 'v qpc \<Rightarrow> bool" where
  "pc_ok q vs (PushSeq v p) \<longleftrightarrow> p \<le> enqueue_pos q"
| "pc_ok q vs (PushCas v p) \<longleftrightarrow> p \<le> enqueue_pos q \<and> (p = enqueue_pos q \<longrightarrow> seq_at q p = p)"
| "pc_ok q vs (PushWrite v p) \<longleftrightarrow> dequeue_pos q \<le> p \<and> p < enqueue_pos q \<and> seq_at q p = p \<and> vs ! p = v"
| "pc_ok q vs (PushPublish p) \<longleftrightarrow> dequeue_pos q \<le> p \<and> p < enqueue_pos q \<and> seq_at q p = p \<and> value_at q p = Some (vs ! p)"
| "pc_ok q vs (PopSeq p) \<longleftrightarrow> p \<le> dequeue_pos q"
| "pc_ok q vs (PopCas p) \<longleftrightarrow> p \<le> dequeue_pos q \<and> (p = dequeue_pos q \<longrightarrow> seq_at q p = p + 1)"
| "pc_ok q vs (PopTake p) \<longleftrightarrow> p < dequeue_pos q \<and> seq_at q p = p + 1 \<and> value_at q p = Some (vs ! p)"
| "pc_ok q vs (PopRelease p v) \<longleftrightarrow> p < dequeue_pos q \<and> seq_at q p = p + 1 \<and> v = Some (vs ! p)"
| "pc_ok q vs _ \<longleftrightarrow> True"

definition slots_ok :: "'v MpmcState \<Rightarrow> 'v list \<Rightarrow> bool" where
  "slots_ok q vs \<longleftrightarrow> q_shape q \<and> length vs = enqueue_pos q \<and> dequeue_pos q \<le> enqueue_pos q
     \<and> (\<forall>p. seq_at q p = Suc p \<longrightarrow> p < enqueue_pos q)
     \<and> (\<forall>p. dequeue_pos q \<le> p \<and> p < enqueue_pos q \<longrightarrow> seq_at q p = p \<or> seq_at q p = Suc p \<and> value_at q p = Some (vs ! p))"

definition threads_ok :: "'v qsys \<Rightarrow> bool" where
  "threads_ok s \<longleftrightarrow> (\<forall>a. pc_ok (sq s) (pushed s) (qpcs s a))
     \<and> (\<forall>a b p. owns (qpcs s a) = Some p \<and> owns (qpcs s b) = Some p \<longrightarrow> a = b)"

definition answers_ok :: "'v qsys \<Rightarrow> bool" where
  "answers_ok s \<longleftrightarrow> distinct (map fst (popped s))
     \<and> (\<forall>p v. (p, v) \<in> set (popped s) \<longrightarrow> p < dequeue_pos (sq s) \<and> v = Some (pushed s ! p))
     \<and> (\<forall>a p. pop_owns (qpcs s a) p \<longrightarrow> p \<notin> fst ` set (popped s))"

definition q_inv :: "'v qsys \<Rightarrow> bool" where
  "q_inv s \<longleftrightarrow> slots_ok (sq s) (pushed s) \<and> threads_ok s \<and> answers_ok s"

lemma owner_seq: "\<lbrakk>pc_ok q vs c; owns c = Some p\<rbrakk> \<Longrightarrow> seq_at q p = p \<or> seq_at q p = Suc p"
  by (cases c) auto

lemma owner_slot:
  assumes "q_shape q" and "pc_ok q vs c" and "owns c = Some p" and "pc_ok q vs c'" and "owns c' = Some p'" and "slot q p = slot q p'"
  shows "p = p'"
  using owner_seq [OF assms(2,3)] owner_seq [OF assms(4,5)] same_slot [OF assms(1,6)] by auto

lemma start_queue:
  shows "q_shape (State_with_capacity capacity :: 'v MpmcState)" and "seq_at (State_with_capacity capacity :: 'v MpmcState) p \<noteq> Suc p"
    and "enqueue_pos (State_with_capacity capacity) = 0" and "dequeue_pos (State_with_capacity capacity) = 0"
proof -
  let ?q = "State_with_capacity capacity :: 'v MpmcState"
  obtain k where k: "queue_capacity capacity = 2 ^ k" "1 \<le> k" by (rule queue_capacity_power)
  show s: "q_shape ?q" using k by (auto simp: q_shape_def State_with_capacity_def Let_def)
  have "nd_sequence (buffer ?q ! i) = i" if "i < length (buffer ?q)" for i using that by (simp add: State_with_capacity_def Let_def)
  then have "seq_at ?q p = slot ?q p" using slot_mod(2) [OF s, of p] by (simp add: seq_at_def)
  then show "seq_at ?q p \<noteq> Suc p" using slot_mod(1) [OF s, of p] by (metis Suc_n_not_le_n mod_less_eq_dividend)
qed (simp_all add: State_with_capacity_def Let_def)

lemma q_inv_start: "q_inv \<lparr>sq = State_with_capacity capacity, qpcs = (\<lambda>_. QIdle), pushed = [], popped = []\<rparr>"
  by (simp add: q_inv_def slots_ok_def threads_ok_def answers_ok_def pop_owns_def start_queue)

section \<open>Every step keeps the invariant\<close>

text \<open>A thread moves on; the threads that do not move keep what they rely on.\<close>

lemma threads_ok_move:
  assumes "threads_ok s" and "qpcs s' = (qpcs s)(a := c)" and "pc_ok (sq s') (pushed s') c"
    and "\<And>b. \<lbrakk>b \<noteq> a; pc_ok (sq s) (pushed s) (qpcs s b)\<rbrakk> \<Longrightarrow> pc_ok (sq s') (pushed s') (qpcs s b)"
    and "\<And>b p. \<lbrakk>owns c = Some p; b \<noteq> a\<rbrakk> \<Longrightarrow> owns (qpcs s b) \<noteq> Some p"
  shows "threads_ok s'"
  unfolding threads_ok_def
proof (intro conjI allI impI)
  show "pc_ok (sq s') (pushed s') (qpcs s' b)" for b
    using assms(1-4) by (cases "b = a") (simp_all add: threads_ok_def)
  show "b = b'" if "owns (qpcs s' b) = Some p \<and> owns (qpcs s' b') = Some p" for b b' p
    using that assms(1,2) assms(5) [of p] unfolding threads_ok_def by (metis fun_upd_apply)
qed

lemma answers_okD: "\<lbrakk>answers_ok s; (p, v) \<in> set (popped s)\<rbrakk> \<Longrightarrow> p < dequeue_pos (sq s) \<and> v = Some (pushed s ! p)"
  unfolding answers_ok_def by blast

lemma answers_ok_move:
  assumes "answers_ok s" and "qpcs s' = (qpcs s)(a := c)" and "popped s' = popped s"
    and "\<And>p. p < dequeue_pos (sq s) \<Longrightarrow> p < dequeue_pos (sq s') \<and> pushed s' ! p = pushed s ! p"
    and "\<And>p. pop_owns c p \<Longrightarrow> p \<notin> fst ` set (popped s)"
  shows "answers_ok s'"
  unfolding answers_ok_def
proof (intro conjI allI impI)
  show "distinct (map fst (popped s'))" using assms(1,3) by (simp add: answers_ok_def)
  show "p < dequeue_pos (sq s')" "v = Some (pushed s' ! p)" if "(p, v) \<in> set (popped s')" for p v
    using answers_okD [OF assms(1) that [unfolded assms(3)]] assms(4) [of p] by auto
  show "p \<notin> fst ` set (popped s')" if "pop_owns (qpcs s' b) p" for b p
  proof (cases "b = a")
    case True
    then show ?thesis using that assms(2) assms(5) [of p] unfolding assms(3) by simp
  next
    case False
    then have "pop_owns (qpcs s b) p" using that assms(2) by simp
    then show ?thesis using assms(1) unfolding assms(3) answers_ok_def by blast
  qed
qed

lemma quiet_step:
  assumes "q_inv s" and "pc_ok (sq s) (pushed s) c" and "owns c = None"
  shows "q_inv (qgoto a c s)"
proof -
  have i: "slots_ok (sq s) (pushed s)" "threads_ok s" "answers_ok s" using assms(1) by (simp_all add: q_inv_def)
  have e: "qpcs (qgoto a c s) = (qpcs s)(a := c)" "sq (qgoto a c s) = sq s" "pushed (qgoto a c s) = pushed s" "popped (qgoto a c s) = popped s"
    by (simp_all add: qgoto_def)
  have "\<not> pop_owns c p" for p using assms(3) by (auto simp: pop_owns_def)
  then have "answers_ok (qgoto a c s)" by (intro answers_ok_move [OF i(3) e(1)]) (simp_all only: e)
  moreover have "threads_ok (qgoto a c s)"
    by (rule threads_ok_move [OF i(2) e(1)]) (use assms(2,3) in \<open>simp_all only: e option.distinct\<close>)
  ultimately show ?thesis using i(1) by (simp add: q_inv_def e)
qed

lemma push_cas_inv:
  assumes "q_inv s" and "qpcs s a = PushCas v pos" and "enqueue_pos (sq s) = pos"
  shows "q_inv (qgoto a (PushWrite v pos) (s\<lparr>sq := (sq s)\<lparr>enqueue_pos := pos + 1\<rparr>, pushed := pushed s @ [v]\<rparr>))"
    (is "q_inv ?s'")
proof -
  let ?q = "sq s"
  have so: "slots_ok ?q (pushed s)" and th: "threads_ok s" and an: "answers_ok s" using assms(1) by (simp_all add: q_inv_def)
  have pcs: "pc_ok ?q (pushed s) (qpcs s b)" for b using th by (simp add: threads_ok_def)
  have len: "length (pushed s) = pos" "dequeue_pos ?q \<le> pos" using so assms(3) by (simp_all add: slots_ok_def)
  have seq: "seq_at ?q pos = pos" using pcs [of a] assms(2,3) by simp
  have "slots_ok (sq ?s') (pushed ?s')"
    using so assms(3) seq len unfolding slots_ok_def by (auto simp: qgoto_def nth_append less_Suc_eq)
  moreover have "threads_ok ?s'"
  proof (rule threads_ok_move [OF th, of _ a "PushWrite v pos"])
    show "pc_ok (sq ?s') (pushed ?s') (PushWrite v pos)" using seq len by (simp add: qgoto_def nth_append)
    show "pc_ok (sq ?s') (pushed ?s') (qpcs s b)" if "pc_ok ?q (pushed s) (qpcs s b)" for b
      using that assms(3) len by (cases "qpcs s b") (auto simp: qgoto_def nth_append)
    show "owns (qpcs s b) \<noteq> Some p" if "owns (PushWrite v pos) = Some p" for b p
      using pcs [of b] that assms(3) len(2) by (cases "qpcs s b") auto
  qed (simp add: qgoto_def)
  moreover have "answers_ok ?s'"
    by (rule answers_ok_move [OF an, of _ a "PushWrite v pos"]) (use len in \<open>simp_all add: qgoto_def nth_append pop_owns_def\<close>)
  ultimately show ?thesis by (simp add: q_inv_def)
qed

lemma pop_cas_inv:
  assumes "q_inv s" and "qpcs s a = PopCas pos" and "dequeue_pos (sq s) = pos"
  shows "q_inv (qgoto a (PopTake pos) (s\<lparr>sq := (sq s)\<lparr>dequeue_pos := pos + 1\<rparr>\<rparr>))" (is "q_inv ?s'")
proof -
  let ?q = "sq s"
  have so: "slots_ok ?q (pushed s)" and th: "threads_ok s" and an: "answers_ok s" using assms(1) by (simp_all add: q_inv_def)
  have pcs: "pc_ok ?q (pushed s) (qpcs s b)" for b using th by (simp add: threads_ok_def)
  have seq: "seq_at ?q pos = Suc pos" using pcs [of a] assms(2,3) by simp
  then have lt: "pos < enqueue_pos ?q" using so by (simp add: slots_ok_def)
  then have val: "value_at ?q pos = Some (pushed s ! pos)" using so seq assms(3) by (auto simp: slots_ok_def)
  have no: "owns (qpcs s b) \<noteq> Some pos" for b using pcs [of b] seq assms(3) by (cases "qpcs s b") auto
  have "slots_ok (sq ?s') (pushed ?s')" using so assms(3) lt unfolding slots_ok_def by (auto simp: qgoto_def)
  moreover have "threads_ok ?s'"
  proof (rule threads_ok_move [OF th, of _ a "PopTake pos"])
    show "pc_ok (sq ?s') (pushed ?s') (PopTake pos)" using seq val by (simp add: qgoto_def)
    show "pc_ok (sq ?s') (pushed ?s') (qpcs s b)" if "pc_ok ?q (pushed s) (qpcs s b)" for b
      using that assms(3) no [of b] by (cases "qpcs s b") (auto simp: qgoto_def le_less)
    show "owns (qpcs s b) \<noteq> Some p" if "owns (PopTake pos :: 'a qpc) = Some p" for b p using no that by simp
  qed (simp add: qgoto_def)
  moreover have "pos \<notin> fst ` set (popped s)" using answers_okD [OF an, of pos] assms(3) by auto
  then have "answers_ok ?s'"
    by (intro answers_ok_move [OF an, of _ a "PopTake pos"]) (use assms(3) in \<open>auto simp: qgoto_def pop_owns_def\<close>)
  ultimately show ?thesis by (simp add: q_inv_def)
qed

lemma thread_ok: "threads_ok s \<Longrightarrow> pc_ok (sq s) (pushed s) (qpcs s b)"
  by (simp add: threads_ok_def)

lemma other_slot:
  assumes "q_inv s" and "owns (qpcs s a) = Some p" and "owns (qpcs s b) = Some p'" and "b \<noteq> a"
  shows "slot (sq s) p' \<noteq> slot (sq s) p"
proof
  assume e: "slot (sq s) p' = slot (sq s) p"
  have th: "threads_ok s" and sh: "q_shape (sq s)" using assms(1) by (simp_all add: q_inv_def slots_ok_def)
  have "p' = p" by (rule owner_slot [OF sh thread_ok [OF th] assms(3) thread_ok [OF th] assms(2) e])
  then show False using th assms(2-4) unfolding threads_ok_def by blast
qed

lemma value_step:
  assumes "q_inv s" and "owns (qpcs s a) = Some p" and "owns c = Some p"
    and "pc_ok (set_value (sq s) p v) (pushed s) c" and "pop_owns c p \<Longrightarrow> pop_owns (qpcs s a) p"
    and "seq_at (sq s) p = p \<or> p < dequeue_pos (sq s)"
  shows "q_inv (qgoto a c (s\<lparr>sq := set_value (sq s) p v\<rparr>))" (is "q_inv ?s'")
proof -
  have so: "slots_ok (sq s) (pushed s)" and th: "threads_ok s" and an: "answers_ok s" using assms(1) by (simp_all add: q_inv_def)
  have sh: "q_shape (sq s)" using so by (simp add: slots_ok_def)
  note at = slot_contents(3,4) [OF sh] and same = same_slot [OF sh]
  have e: "qpcs ?s' = (qpcs s)(a := c)" "sq ?s' = set_value (sq s) p v" "pushed ?s' = pushed s" "popped ?s' = popped s"
    by (simp_all add: qgoto_def)
  have sp: "seq_at (sq s) p = p \<or> seq_at (sq s) p = Suc p" by (rule owner_seq [OF thread_ok [OF th] assms(2)])
  have "\<not> (slot (sq s) p' = slot (sq s) p \<and> dequeue_pos (sq s) \<le> p' \<and> seq_at (sq s) p' = Suc p')" for p'
    using sp assms(6) same [of p' p] by auto
  then have "slots_ok (sq ?s') (pushed ?s')" using so unfolding slots_ok_def e by (auto simp: at)
  moreover have "threads_ok ?s'"
  proof (rule threads_ok_move [OF th e(1)])
    show "pc_ok (sq ?s') (pushed ?s') c" using assms(4) by (simp add: e)
    show "pc_ok (sq ?s') (pushed ?s') (qpcs s b)" if "b \<noteq> a" "pc_ok (sq s) (pushed s) (qpcs s b)" for b
      using that(2) other_slot [OF assms(1,2) _ that(1)] unfolding e by (cases "qpcs s b") (auto simp: at)
    show "owns (qpcs s b) \<noteq> Some p'" if "owns c = Some p'" "b \<noteq> a" for b p'
      using th that assms(2,3) unfolding threads_ok_def by auto
  qed
  moreover have "pop_owns c p' \<Longrightarrow> p' \<notin> fst ` set (popped s)" for p'
  proof -
    assume o: "pop_owns c p'"
    then have "p' = p" using assms(3) by (auto simp: pop_owns_def)
    then show ?thesis using o assms(5) an unfolding answers_ok_def by blast
  qed
  then have "answers_ok ?s'" by (intro answers_ok_move [OF an e(1)]) (simp_all add: e)
  ultimately show ?thesis by (simp add: q_inv_def)
qed

lemma push_publish_inv:
  assumes "q_inv s" and "qpcs s a = PushPublish p"
  shows "q_inv (qgoto a QIdle (s\<lparr>sq := set_seq (sq s) p (p + 1)\<rparr>))" (is "q_inv ?s'")
proof -
  have so: "slots_ok (sq s) (pushed s)" and th: "threads_ok s" and an: "answers_ok s" using assms(1) by (simp_all add: q_inv_def)
  have sh: "q_shape (sq s)" using so by (simp add: slots_ok_def)
  note at = slot_contents(1,2) [OF sh] and same = same_slot [OF sh]
  have e: "qpcs ?s' = (qpcs s)(a := QIdle)" "sq ?s' = set_seq (sq s) p (Suc p)" "pushed ?s' = pushed s" "popped ?s' = popped s"
    by (simp_all add: qgoto_def)
  have o: "owns (qpcs s a) = Some p" using assms(2) by simp
  have p: "dequeue_pos (sq s) \<le> p" "p < enqueue_pos (sq s)" "seq_at (sq s) p = p" "value_at (sq s) p = Some (pushed s ! p)"
    using thread_ok [OF th, of a] assms(2) by simp_all
  have alone: "p' = p" if "slot (sq s) p' = slot (sq s) p" "seq_at (sq s) p' = p'" for p' using same(1) [OF that(1)] that(2) p(3) by simp
  have free: "slot (sq s) p' \<noteq> slot (sq s) p" if "seq_at (sq s) p' = Suc p'" for p' using same(1,4) [of p' p] that p(3) by auto
  have "slots_ok (sq ?s') (pushed ?s')" unfolding slots_ok_def e
  proof (intro conjI allI impI)
    show "p' < enqueue_pos (set_seq (sq s) p (Suc p))" if "seq_at (set_seq (sq s) p (Suc p)) p' = Suc p'" for p'
      using that so p(2) by (auto simp: at slots_ok_def split: if_splits)
    show "seq_at (set_seq (sq s) p (Suc p)) p' = p' \<or> seq_at (set_seq (sq s) p (Suc p)) p' = Suc p' \<and> value_at (set_seq (sq s) p (Suc p)) p' = Some (pushed s ! p')"
      if "dequeue_pos (set_seq (sq s) p (Suc p)) \<le> p' \<and> p' < enqueue_pos (set_seq (sq s) p (Suc p))" for p'
      using that so p alone [of p'] free [of p'] by (auto simp: at slots_ok_def)
  qed (use so in \<open>auto simp: slots_ok_def\<close>)
  moreover have "threads_ok ?s'"
  proof (rule threads_ok_move [OF th e(1)])
    show "pc_ok (sq ?s') (pushed ?s') (qpcs s b)" if "b \<noteq> a" "pc_ok (sq s) (pushed s) (qpcs s b)" for b
      using that(2) other_slot [OF assms(1) o _ that(1)] p(2) alone free unfolding e by (cases "qpcs s b") (auto simp: at)
  qed simp_all
  moreover have "answers_ok ?s'" by (rule answers_ok_move [OF an e(1)]) (simp_all add: e pop_owns_def)
  ultimately show ?thesis by (simp add: q_inv_def)
qed

lemma pop_release_inv:
  assumes "q_inv s" and "qpcs s a = PopRelease p v"
  shows "q_inv (qgoto a QIdle (s\<lparr>sq := set_seq (sq s) p (p + q_mask (sq s) + 1), popped := popped s @ [(p, v)]\<rparr>))" (is "q_inv ?s'")
proof -
  let ?q = "set_seq (sq s) p (Suc (p + q_mask (sq s)))"
  have so: "slots_ok (sq s) (pushed s)" and th: "threads_ok s" and an: "answers_ok s" using assms(1) by (simp_all add: q_inv_def)
  have sh: "q_shape (sq s)" using so by (simp add: slots_ok_def)
  note at = slot_contents(1,2) [OF sh] and same = same_slot [OF sh]
  have e: "qpcs ?s' = (qpcs s)(a := QIdle)" "sq ?s' = ?q" "pushed ?s' = pushed s" "popped ?s' = popped s @ [(p, v)]" by simp_all
  have o: "owns (qpcs s a) = Some p" "pop_owns (qpcs s a) p" using assms(2) by (simp_all add: pop_owns_def)
  have p: "p < dequeue_pos (sq s)" "seq_at (sq s) p = Suc p" "v = Some (pushed s ! p)" using thread_ok [OF th, of a] assms(2) by simp_all
  have alone: "p' = p" if "slot (sq s) p' = slot (sq s) p" "seq_at (sq s) p' = Suc p'" for p' using same(1) [OF that(1)] that(2) p(2) by simp
  have free: "slot (sq s) p' \<noteq> slot (sq s) p" if "seq_at (sq s) p' = p'" for p' using same(1,3) [of p' p] that p(2) by auto
  have "slot (sq s) (Suc (p + q_mask (sq s))) = slot (sq s) p" unfolding slot_mod(1) [OF sh] using mod_add_self2 [of p "q_mask (sq s) + 1"] by simp
  then have nx: "\<not> (slot (sq s) p' = slot (sq s) p \<and> Suc (p + q_mask (sq s)) = Suc p')" for p' using slot_mod(3) [OF sh, of p'] by metis
  have "slots_ok (sq ?s') (pushed ?s')" unfolding slots_ok_def e
  proof (intro conjI allI impI)
    show "p' < enqueue_pos ?q" if "seq_at ?q p' = Suc p'" for p'
      using that so nx [of p'] by (auto simp: at slots_ok_def split: if_splits)
    show "seq_at ?q p' = p' \<or> seq_at ?q p' = Suc p' \<and> value_at ?q p' = Some (pushed s ! p')"
      if "dequeue_pos ?q \<le> p' \<and> p' < enqueue_pos ?q" for p'
      using that so p(1) alone [of p'] free [of p'] by (auto simp: at slots_ok_def)
  qed (use so in \<open>auto simp: slots_ok_def\<close>)
  moreover have "threads_ok ?s'"
  proof (rule threads_ok_move [OF th e(1)])
    show "pc_ok (sq ?s') (pushed ?s') (qpcs s b)" if "b \<noteq> a" "pc_ok (sq s) (pushed s) (qpcs s b)" for b
      using that(2) other_slot [OF assms(1) o(1) _ that(1)] p(1) alone free unfolding e by (cases "qpcs s b") (auto simp: at)
  qed simp_all
  moreover have "answers_ok ?s'" unfolding answers_ok_def
  proof (intro conjI allI impI)
    have "p \<notin> fst ` set (popped s)" using an o(2) unfolding answers_ok_def by blast
    then show "distinct (map fst (popped ?s'))" using an by (simp add: answers_ok_def)
    show "p' < dequeue_pos (sq ?s')" "v' = Some (pushed ?s' ! p')" if "(p', v') \<in> set (popped ?s')" for p' v'
      using that p(1,3) answers_okD [OF an, of p' v'] by auto
    show "p' \<notin> fst ` set (popped ?s')" if w: "pop_owns (qpcs ?s' b) p'" for b p'
    proof -
      have b: "b \<noteq> a" "pop_owns (qpcs s b) p'" using w by (auto simp: pop_owns_def split: if_splits)
      then have "owns (qpcs s b) = Some p'" by (auto simp: pop_owns_def)
      then have "p' \<noteq> p" using th o(1) b(1) unfolding threads_ok_def by blast
      moreover have "p' \<notin> fst ` set (popped s)" using an b(2) unfolding answers_ok_def by blast
      ultimately show ?thesis by simp
    qed
  qed
  ultimately show ?thesis by (simp add: q_inv_def)
qed

lemma q_step_inv:
  assumes "q_step a s s'" and "q_inv s"
  shows "q_inv s'"
  using assms(1)
proof cases
  have th: "threads_ok s" and sh: "q_shape (sq s)" using assms(2) by (simp_all add: q_inv_def slots_ok_def)
  note pc = thread_ok [OF th, of a] and at = slot_contents [OF sh]
  {
    case (push_seq v pos)
    then show ?thesis using pc quiet_step [OF assms(2), of "push_branch v pos (seq_at (sq s) pos)" a]
      by (auto simp: branch_simps split: if_splits)
  next
    case (pop_seq pos)
    then show ?thesis using pc quiet_step [OF assms(2), of "pop_branch pos (seq_at (sq s) pos)" a]
      by (auto simp: branch_simps split: if_splits)
  next
    case (push_cas v pos)
    then show ?thesis using push_cas_inv [OF assms(2)] by simp
  next
    case (pop_cas pos)
    then show ?thesis using pop_cas_inv [OF assms(2)] by simp
  next
    case (push_write v pos)
    then show ?thesis using pc value_step [OF assms(2), of a pos "PushPublish pos" "Some v"] by (simp add: at pop_owns_def)
  next
    case (pop_take pos)
    then show ?thesis using pc value_step [OF assms(2), of a pos "PopRelease pos (value_at (sq s) pos)" None] by (simp add: at pop_owns_def)
  next
    case (push_publish pos)
    then show ?thesis using push_publish_inv [OF assms(2)] by simp
  next
    case (pop_release pos v)
    then show ?thesis using pop_release_inv [OF assms(2)] by simp
  }
qed (use quiet_step [OF assms(2)] in simp_all)

lemma q_reach_inv: "q_reach capacity s \<Longrightarrow> q_inv s"
  by (induction rule: q_reach.induct) (auto intro: q_inv_start q_step_inv)

text \<open>
  C14.  The queue is first-in first-out and bounded, whatever the interleaving of its producers and
  consumers.  The values in the order in which \<open>push\<close> claimed their positions are the pushes;
  every answer of \<open>pop\<close> after its claim is the value that was pushed at the position it claimed,
  never nothing; the positions of the answers are distinct, so no value is delivered twice; they
  are claimed in order, so the values come out in the order they went in; and no more values than
  the capacity are in the queue at any time.
\<close>

theorem queue_is_fifo_and_bounded:
  assumes "q_reach capacity s"
  shows "(\<forall>pos v. (pos, v) \<in> set (popped s) \<longrightarrow> pos < dequeue_pos (sq s) \<and> v = Some (pushed s ! pos))
    \<and> distinct (map fst (popped s))
    \<and> dequeue_pos (sq s) \<le> enqueue_pos (sq s) \<and> length (pushed s) = enqueue_pos (sq s)
    \<and> enqueue_pos (sq s) - dequeue_pos (sq s) \<le> q_mask (sq s) + 1"
proof -
  have i: "q_inv s" using assms by (rule q_reach_inv)
  let ?d = "dequeue_pos (sq s)" and ?e = "enqueue_pos (sq s)"
  have so: "q_shape (sq s)" "length (pushed s) = ?e" "?d \<le> ?e"
    and win: "\<And>p. \<lbrakk>?d \<le> p; p < ?e\<rbrakk> \<Longrightarrow> seq_at (sq s) p = p \<or> seq_at (sq s) p = Suc p"
    using i by (auto simp: q_inv_def slots_ok_def)
  have "?e - ?d \<le> q_mask (sq s) + 1"
  proof (rule ccontr)
    let ?p = "?d + (q_mask (sq s) + 1)"
    assume "\<not> ?thesis"
    then have lt: "?p < ?e" by simp
    have sl: "slot (sq s) ?p = slot (sq s) ?d" unfolding slot_mod(1) [OF so(1)] by (rule mod_add_self2)
    then show False using win [of ?p] win [of ?d] same_slot(1,3) [OF so(1) sl] lt by auto
  qed
  then show ?thesis using i so unfolding q_inv_def answers_ok_def by blast
qed

section \<open>Calls without interference\<close>

lemma qgoto_again [simp]: "qgoto a c (qgoto a c' s) = qgoto a c s"
  by (simp add: qgoto_def)

lemma q_move: "\<lbrakk>q_reach capacity s; q_step a s s'; s' = s''\<rbrakk> \<Longrightarrow> q_reach capacity s''"
  by (blast intro: q_more)

lemma solo_push:
  assumes "q_reach capacity s" and "qpcs s a = QIdle" and "seq_at (sq s) (enqueue_pos (sq s)) = enqueue_pos (sq s)"
  shows "q_reach capacity (qgoto a QIdle (s\<lparr>pushed := pushed s @ [v],
    sq := set_seq (set_value ((sq s)\<lparr>enqueue_pos := enqueue_pos (sq s) + 1\<rparr>) (enqueue_pos (sq s)) (Some v)) (enqueue_pos (sq s)) (enqueue_pos (sq s) + 1)\<rparr>))"
proof -
  let ?p = "enqueue_pos (sq s)" let ?q = "(sq s)\<lparr>enqueue_pos := ?p + 1\<rparr>"
  have 1: "q_reach capacity (qgoto a (PushLoad v) s)" by (rule q_more [OF assms(1) push_call [OF assms(2)]])
  have 2: "q_reach capacity (qgoto a (PushSeq v ?p) s)" by (rule q_move [OF 1 push_load [where a = a and v = v]]) simp_all
  have 3: "q_reach capacity (qgoto a (PushCas v ?p) s)"
    by (rule q_move [OF 2 push_seq [where a = a and v = v and pos = ?p]]) (simp_all add: branch_simps assms(3))
  have 4: "q_reach capacity (qgoto a (PushWrite v ?p) (s\<lparr>sq := ?q, pushed := pushed s @ [v]\<rparr>))"
    by (rule q_move [OF 3 push_cas [where a = a and v = v and pos = ?p]]) (simp_all add: qgoto_def)
  have 5: "q_reach capacity (qgoto a (PushPublish ?p) (s\<lparr>sq := set_value ?q ?p (Some v), pushed := pushed s @ [v]\<rparr>))"
    by (rule q_move [OF 4 push_write [where a = a and v = v and pos = ?p]]) (simp_all add: qgoto_def)
  show ?thesis by (rule q_move [OF 5 push_publish [where a = a and pos = ?p]]) (simp_all add: qgoto_def)
qed

lemma solo_pop:
  assumes "q_reach capacity s" and "qpcs s a = QIdle" and "seq_at (sq s) (dequeue_pos (sq s)) = dequeue_pos (sq s) + 1"
  shows "q_reach capacity (qgoto a QIdle (s\<lparr>popped := popped s @ [(dequeue_pos (sq s), value_at (sq s) (dequeue_pos (sq s)))],
    sq := set_seq (set_value ((sq s)\<lparr>dequeue_pos := dequeue_pos (sq s) + 1\<rparr>) (dequeue_pos (sq s)) None) (dequeue_pos (sq s))
      (dequeue_pos (sq s) + q_mask (sq s) + 1)\<rparr>))"
proof -
  let ?p = "dequeue_pos (sq s)" let ?q = "(sq s)\<lparr>dequeue_pos := ?p + 1\<rparr>" let ?v = "value_at (sq s) ?p"
  have 1: "q_reach capacity (qgoto a PopLoad s)" by (rule q_more [OF assms(1) pop_call [OF assms(2)]])
  have 2: "q_reach capacity (qgoto a (PopSeq ?p) s)" by (rule q_move [OF 1 pop_load [where a = a]]) simp_all
  have 3: "q_reach capacity (qgoto a (PopCas ?p) s)"
    by (rule q_move [OF 2 pop_seq [where a = a and pos = ?p]]) (simp_all add: branch_simps assms(3))
  have 4: "q_reach capacity (qgoto a (PopTake ?p) (s\<lparr>sq := ?q\<rparr>))"
    by (rule q_move [OF 3 pop_cas [where a = a and pos = ?p]]) (simp_all add: qgoto_def)
  have 5: "q_reach capacity (qgoto a (PopRelease ?p ?v) (s\<lparr>sq := set_value ?q ?p None\<rparr>))"
    by (rule q_move [OF 4 pop_take [where a = a and pos = ?p]]) (simp_all add: qgoto_def)
  show ?thesis by (rule q_move [OF 5 pop_release [where a = a and pos = ?p and v = ?v]]) (simp_all add: qgoto_def)
qed

theorem queue_is_fifo_and_bounded_witness:
  "\<exists>s :: nat qsys. q_reach 2 s \<and> popped s = [(0, Some 7)] \<and> pushed s = [7] \<and> enqueue_pos (sq s) - dequeue_pos (sq s) \<le> 2"
proof -
  let ?s0 = "\<lparr>sq = State_with_capacity 2, qpcs = (\<lambda>_. QIdle), pushed = [], popped = []\<rparr> :: nat qsys"
  have q: "State_with_capacity 2 = \<lparr>buffer = [\<lparr>nd_sequence = 0, nd_value = None\<rparr>, \<lparr>nd_sequence = 1, nd_value = None\<rparr>],
      q_mask = 1, enqueue_pos = 0, dequeue_pos = 0\<rparr>"
    by (simp add: State_with_capacity_def queue_capacity_def upt_rec)
  let ?s1 = "?s0\<lparr>pushed := [7], sq := \<lparr>buffer = [\<lparr>nd_sequence = 1, nd_value = Some 7\<rparr>, \<lparr>nd_sequence = 1, nd_value = None\<rparr>],
      q_mask = 1, enqueue_pos = 1, dequeue_pos = 0\<rparr>\<rparr>"
  let ?s2 = "?s1\<lparr>popped := [(0, Some 7)], sq := \<lparr>buffer = [\<lparr>nd_sequence = Suc (Suc 0), nd_value = None\<rparr>, \<lparr>nd_sequence = 1, nd_value = None\<rparr>],
      q_mask = 1, enqueue_pos = 1, dequeue_pos = 1\<rparr>\<rparr>"
  have "q_reach 2 ?s1" using solo_push [OF q_start [of 2], of 0 "7 :: nat"]
    by (simp add: q seq_at_def slot_def set_seq_def set_value_def qgoto_def fun_upd_idem)
  then have 2: "q_reach 2 ?s2" using solo_pop [of 2 ?s1 1]
    by (simp add: seq_at_def value_at_def slot_def set_seq_def set_value_def qgoto_def fun_upd_idem)
  have "enqueue_pos (sq ?s2) - dequeue_pos (sq ?s2) \<le> q_mask (sq ?s2) + 1" using queue_is_fifo_and_bounded [OF 2] by blast
  then show ?thesis using 2 by (intro exI [of _ ?s2]) simp
qed



end
