(* ===== verification/DetMem.thy ===== *)
theory DetMem
  imports Mpmc KernelMem
begin

text \<open>
  The allocator of \<open>memory/detmem.rs\<close> that is meant to make allocations succeed on all replicas of a
  data structure or on none.  Every replica has a queue of results; the replica that is ahead
  allocates for all of them.  A queue is the list of its values with the bound of \<open>Mpmc\<close>, which
  shows that the real queue is first-in first-out and bounded.

  The allocator underneath is reached through the language's interface to the registered global
  allocator and is a parameter here: \<open>raw_alloc n l\<close> allocates on node \<open>n\<close>, with 0 for a null
  pointer, and \<open>raw_dealloc n\<close> frees there.  Every replica has one thread at a time that executes its
  operations, and calls the allocator with the layouts of one common log.
\<close>

section \<open>The allocator\<close>

record 'm RawAlloc =
  raw_alloc :: "nat \<Rightarrow> Layout \<Rightarrow> 'm \<Rightarrow> 'm \<times> nat"
  raw_dealloc :: "nat \<Rightarrow> nat \<Rightarrow> Layout \<Rightarrow> 'm \<Rightarrow> 'm"

abbreviation ALLOC_CAP :: nat where "ALLOC_CAP \<equiv> 32000"

record 'm DetAlloc =
  da_qs :: "(Layout \<times> nat) list list"
  da_mem :: 'm

definition new_with_nodes :: "heap \<Rightarrow> nat \<Rightarrow> 'm \<Rightarrow> heap \<times> 'm DetAlloc kres" where
  "new_with_nodes h nodes m =
     (if \<not> nodes < MAX_NUMA_NODES then (h, Panic)
      else case try_each (\<lambda>h _. case Queue_with_capacity h ALLOC_CAP :: heap \<times> (Layout \<times> nat) MpmcState kres of (h, r) \<Rightarrow> (h, map_result (\<lambda>_. ()) r))
          h [0..<max 1 nodes] of
        (h, r) \<Rightarrow> (h, map_result (\<lambda>_. \<lparr>da_qs = replicate (max 1 nodes) [], da_mem = m\<rparr>) r))"

text \<open>Allocating on every node in turn, and freeing what succeeded.\<close>

fun alloc_nodes :: "'m RawAlloc \<Rightarrow> Layout \<Rightarrow> nat list \<Rightarrow> 'm \<Rightarrow> 'm \<times> nat list" where
  "alloc_nodes ra l [] m = (m, [])"
| "alloc_nodes ra l (i # is) m = (case raw_alloc ra i l m of (m, p) \<Rightarrow>
     (case alloc_nodes ra l is m of (m, ps) \<Rightarrow> (m, p # ps)))"

fun free_nodes :: "'m RawAlloc \<Rightarrow> Layout \<Rightarrow> (nat \<times> nat) list \<Rightarrow> 'm \<Rightarrow> 'm" where
  "free_nodes ra l [] m = m"
| "free_nodes ra l ((i, p) # ps) m = free_nodes ra l ps (if p \<noteq> 0 then raw_dealloc ra i p l m else m)"

text \<open>Pushing a result to a queue panics when the queue is full.\<close>

definition push_queue :: "nat \<Rightarrow> Layout \<times> nat \<Rightarrow> 'm DetAlloc \<Rightarrow> 'm DetAlloc \<times> unit kres" where
  "push_queue i x d =
     (if length (da_qs d ! i) < queue_capacity ALLOC_CAP then (d\<lparr>da_qs := (da_qs d)[i := da_qs d ! i @ [x]]\<rparr>, Ok ()) else (d, Panic))"

fun push_queues :: "(nat \<times> (Layout \<times> nat)) list \<Rightarrow> 'm DetAlloc \<Rightarrow> 'm DetAlloc \<times> unit kres" where
  "push_queues [] d = (d, Ok ())"
| "push_queues ((i, x) # xs) d = and_then (push_queue i x d) (\<lambda>d _. push_queues xs d)"

text \<open>The part of \<open>alloc\<close> that holds the lock \<open>fill\<close>, after the second look at the queue.\<close>

definition fill_queues :: "'m RawAlloc \<Rightarrow> nat \<Rightarrow> Layout \<Rightarrow> 'm DetAlloc \<Rightarrow> 'm DetAlloc \<times> nat kres" where
  "fill_queues ra nid l d = (let n = length (da_qs d) in
     case alloc_nodes ra l [0..<n] (da_mem d) of (m, allocs) \<Rightarrow>
       if 0 \<notin> set allocs
       then and_then (push_queues (map (\<lambda>i. (i, (l, allocs ! i))) (filter (\<lambda>i. i \<noteq> nid) [0..<n])) (d\<lparr>da_mem := m\<rparr>))
              (\<lambda>d _. (d, Ok (allocs ! nid)))
       else and_then (push_queues (map (\<lambda>i. (i, (l, 0))) [0..<n]) (d\<lparr>da_mem := free_nodes ra l (zip [0..<n] allocs) m\<rparr>))
              (\<lambda>d _. (d, Ok (allocs ! nid))))"

text \<open>Taking a result that another replica has left.\<close>

definition pop_queue :: "nat \<Rightarrow> 'm DetAlloc \<Rightarrow> 'm DetAlloc \<times> (Layout \<times> nat) option" where
  "pop_queue nid d = (case da_qs d ! nid of [] \<Rightarrow> (d, None) | x # q \<Rightarrow> (d\<lparr>da_qs := (da_qs d)[nid := q]\<rparr>, Some x))"

definition take_result :: "Layout \<Rightarrow> Layout \<times> nat \<Rightarrow> nat kres" where
  "take_result l x = (if fst x \<noteq> l then Panic else Ok (snd x))"

text \<open>\<open>alloc\<close> as a whole: \<open>None\<close> is the wait for the lock after the first look found the queue empty.\<close>

definition alloc_fast :: "nat \<Rightarrow> Layout \<Rightarrow> 'm DetAlloc \<Rightarrow> ('m DetAlloc \<times> nat kres) option" where
  "alloc_fast nid l d = (case pop_queue nid d of (d, Some x) \<Rightarrow> Some (d, take_result l x) | (d, None) \<Rightarrow> None)"

definition alloc_locked :: "'m RawAlloc \<Rightarrow> nat \<Rightarrow> Layout \<Rightarrow> 'm DetAlloc \<Rightarrow> 'm DetAlloc \<times> nat kres" where
  "alloc_locked ra nid l d = (case pop_queue nid d of (d, Some x) \<Rightarrow> (d, take_result l x) | (d, None) \<Rightarrow> fill_queues ra nid l d)"

definition da_dealloc :: "'m RawAlloc \<Rightarrow> nat \<Rightarrow> nat \<Rightarrow> Layout \<Rightarrow> 'm DetAlloc \<Rightarrow> 'm DetAlloc" where
  "da_dealloc ra nid p l d = d\<lparr>da_mem := raw_dealloc ra nid p l (da_mem d)\<rparr>"

text \<open>The \<open>Allocator\<close> interface turns the answer into a slice.\<close>

definition DA_allocate :: "Layout \<Rightarrow> nat \<Rightarrow> (LibraryError, nat \<times> nat) result" where
  "DA_allocate l p = (if p \<noteq> 0 then Ok (p, l_size l) else Err AllocError)"

section \<open>The replicas\<close>

text \<open>
  Replicas that execute one log: the \<open>i\<close>-th allocation of each has layout \<open>log i\<close>.  A replica that
  waits for the lock has its layout in \<open>waiting\<close>; \<open>da_results\<close> are the answers each one got.
\<close>

record 'm replicas =
  da :: "'m DetAlloc"
  waiting :: "nat \<Rightarrow> Layout option"
  da_results :: "nat \<Rightarrow> nat list"
  da_panicked :: bool

definition answer :: "nat \<Rightarrow> 'm DetAlloc \<times> nat kres \<Rightarrow> 'm replicas \<Rightarrow> 'm replicas" where
  "answer r x s = (case x of
       (d, Ok p) \<Rightarrow> s\<lparr>da := d, waiting := (waiting s)(r := None), da_results := (da_results s)(r := da_results s r @ [p])\<rparr>
     | (d, _) \<Rightarrow> s\<lparr>da := d, da_panicked := True\<rparr>)"

definition da_call :: "(nat \<Rightarrow> Layout) \<Rightarrow> nat \<Rightarrow> 'm replicas \<Rightarrow> 'm replicas" where
  "da_call log r s = (let l = log (length (da_results s r)) in
     case alloc_fast r l (da s) of Some x \<Rightarrow> answer r x s | None \<Rightarrow> s\<lparr>waiting := (waiting s)(r := Some l)\<rparr>)"

inductive da_reach :: "'m RawAlloc \<Rightarrow> (nat \<Rightarrow> Layout) \<Rightarrow> nat \<Rightarrow> 'm \<Rightarrow> 'm replicas \<Rightarrow> bool" for ra log n m0 where
  da_start: "da_reach ra log n m0 \<lparr>da = \<lparr>da_qs = replicate n [], da_mem = m0\<rparr>, waiting = (\<lambda>_. None), da_results = (\<lambda>_. []), da_panicked = False\<rparr>"
| da_call: "\<lbrakk>da_reach ra log n m0 s; \<not> da_panicked s; r < n; waiting s r = None\<rbrakk> \<Longrightarrow> da_reach ra log n m0 (da_call log r s)"
| da_lock: "\<lbrakk>da_reach ra log n m0 s; \<not> da_panicked s; r < n; waiting s r = Some l\<rbrakk>
    \<Longrightarrow> da_reach ra log n m0 (answer r (alloc_locked ra r l (da s)) s)"

section \<open>Without failures\<close>

definition succeeds :: "'m RawAlloc \<Rightarrow> nat \<Rightarrow> bool" where
  "succeeds ra n \<longleftrightarrow> (\<forall>i < n. \<forall>l m. snd (raw_alloc ra i l m) \<noteq> 0)"

definition queue_ok :: "(nat \<Rightarrow> Layout) \<Rightarrow> nat \<Rightarrow> nat \<Rightarrow> (Layout \<times> nat) list \<Rightarrow> bool" where
  "queue_ok log lead k q \<longleftrightarrow> k + length q = lead \<and> map fst q = map log [k..<lead] \<and> (\<forall>x \<in> set q. snd x \<noteq> 0)"

definition replicas_ok :: "(nat \<Rightarrow> Layout) \<Rightarrow> nat \<Rightarrow> nat \<Rightarrow> 'm replicas \<Rightarrow> bool" where
  "replicas_ok log n lead s \<longleftrightarrow> length (da_qs (da s)) = n
     \<and> (\<forall>r < n. queue_ok log lead (length (da_results s r)) (da_qs (da s) ! r) \<and> 0 \<notin> set (da_results s r)
          \<and> (\<forall>l. waiting s r = Some l \<longrightarrow> l = log (length (da_results s r))))"

lemma queue_ok_pop:
  assumes "queue_ok log lead k ((l, p) # q)"
  shows "l = log k" and "p \<noteq> 0" and "queue_ok log lead (Suc k) q"
proof -
  have k: "k < lead" "map fst ((l, p) # q) = map log [k..<lead]" using assms by (auto simp: queue_ok_def)
  then show "l = log k" "p \<noteq> 0" "queue_ok log lead (Suc k) q"
    using assms unfolding upt_conv_Cons [OF k(1)] by (simp_all add: queue_ok_def)
qed

lemma queue_ok_push: "\<lbrakk>queue_ok log lead k q; p \<noteq> 0\<rbrakk> \<Longrightarrow> queue_ok log (Suc lead) k (q @ [(log lead, p)])"
  by (auto simp: queue_ok_def)

lemma queue_ok_lead: "queue_ok log lead k [] \<Longrightarrow> k = lead \<and> queue_ok log (Suc lead) (Suc k) []"
  by (simp add: queue_ok_def)

lemma alloc_nodes_ok:
  assumes "\<forall>i \<in> set is. \<forall>l m. snd (raw_alloc ra i l m) \<noteq> 0" and "alloc_nodes ra l is m = (m', ps)"
  shows "length ps = length is \<and> 0 \<notin> set ps"
  using assms
proof (induction "is" arbitrary: m ps)
  case (Cons i "is")
  obtain m1 p m2 qs where e: "raw_alloc ra i l m = (m1, p)" "alloc_nodes ra l is m1 = (m2, qs)" by (metis surj_pair)
  have "p \<noteq> 0" using Cons.prems(1) e(1) by (metis list.set_intros(1) snd_conv)
  then show ?case using Cons.IH [of m1 qs] Cons.prems e by auto
qed simp

lemma push_queues_result:
  assumes "distinct is" and "\<forall>i \<in> set is. i < length (da_qs d)" and "push_queues (map (\<lambda>i. (i, f i)) is) d = (d', r)"
  shows "r = Ok () \<and> length (da_qs d') = length (da_qs d)
      \<and> (\<forall>j < length (da_qs d). da_qs d' ! j = (if j \<in> set is then da_qs d ! j @ [f j] else da_qs d ! j))
    \<or> r = Panic \<and> (\<exists>i \<in> set is. queue_capacity ALLOC_CAP \<le> length (da_qs d ! i))"
  using assms
proof (induction "is" arbitrary: d)
  case (Cons i "is")
  show ?case
  proof (cases "length (da_qs d ! i) < queue_capacity ALLOC_CAP")
    case True
    let ?d = "d\<lparr>da_qs := (da_qs d)[i := da_qs d ! i @ [f i]]\<rparr>"
    have i: "i < length (da_qs d)" "i \<notin> set is" using Cons.prems(1,2) by simp_all
    have "push_queues (map (\<lambda>i. (i, f i)) is) ?d = (d', r)" using Cons.prems(3) True by (simp add: push_queue_def)
    from Cons.IH [OF _ _ this] Cons.prems(1,2)
    have "r = Ok () \<and> length (da_qs d') = length (da_qs d)
        \<and> (\<forall>j < length (da_qs d). da_qs d' ! j = (if j \<in> set is then da_qs ?d ! j @ [f j] else da_qs ?d ! j))
      \<or> r = Panic \<and> (\<exists>j \<in> set is. queue_capacity ALLOC_CAP \<le> length (da_qs ?d ! j))" by simp
    then show ?thesis using i by (auto simp: nth_list_update split: if_splits)
  qed (use Cons.prems(3) in \<open>auto simp: push_queue_def\<close>)
qed simp

lemma answer_simps [simp]:
  "da_results (answer r (d, Ok p) s) = (da_results s)(r := da_results s r @ [p])" "da (answer r (d, Ok p) s) = d"
  "waiting (answer r (d, Ok p) s) = (waiting s)(r := None)" "da_panicked (answer r (d, Ok p) s) = da_panicked s"
  "da_panicked (answer r (d, Panic) s)"
  by (simp_all add: answer_def)

lemma pop_keeps_ok:
  assumes "replicas_ok log n lead s" and "r < n" and "da_qs (da s) ! r = x # q"
  shows "take_result (log (length (da_results s r))) x = Ok (snd x)"
    and "replicas_ok log n lead (answer r ((da s)\<lparr>da_qs := (da_qs (da s))[r := q]\<rparr>, Ok (snd x)) s)"
proof -
  obtain l p where x: "x = (l, p)" by (cases x)
  have "queue_ok log lead (length (da_results s r)) ((l, p) # q)" using assms x by (auto simp: replicas_ok_def)
  note q = queue_ok_pop [OF this]
  show "take_result (log (length (da_results s r))) x = Ok (snd x)" using q(1) x by (simp add: take_result_def)
  show "replicas_ok log n lead (answer r ((da s)\<lparr>da_qs := (da_qs (da s))[r := q]\<rparr>, Ok (snd x)) s)"
    using assms(1,2) q(2,3) x unfolding replicas_ok_def by (auto simp: nth_list_update)
qed

lemma fill_keeps_ok:
  assumes "succeeds ra n" and "replicas_ok log n lead s" and "r < n" and "da_qs (da s) ! r = []"
    and "fill_queues ra r (log (length (da_results s r))) (da s) = (d, x)"
  shows "(\<exists>p. x = Ok p \<and> replicas_ok log n (Suc lead) (answer r (d, Ok p) s))
    \<or> x = Panic \<and> (\<exists>i < n. queue_capacity ALLOC_CAP \<le> length (da_qs (da s) ! i))"
proof -
  let ?l = "log (length (da_results s r))" and ?is = "filter (\<lambda>i. i \<noteq> r) [0..<n]"
  have n: "length (da_qs (da s)) = n" and qs: "\<And>i. i < n \<Longrightarrow> queue_ok log lead (length (da_results s i)) (da_qs (da s) ! i)"
    using assms(2) by (auto simp: replicas_ok_def)
  have lead: "length (da_results s r) = lead" "queue_ok log (Suc lead) (Suc lead) []"
    using queue_ok_lead [of log lead "length (da_results s r)"] qs [OF assms(3)] assms(4) by auto
  obtain m ps where a: "alloc_nodes ra ?l [0..<n] (da_mem (da s)) = (m, ps)" by (metis surj_pair)
  have ps: "length ps = n \<and> 0 \<notin> set ps" using alloc_nodes_ok [OF _ a] assms(1) by (simp add: succeeds_def)
  then have nz: "ps ! i \<noteq> 0" if "i < n" for i using that by (metis nth_mem)
  let ?d0 = "(da s)\<lparr>da_mem := m\<rparr>"
  obtain d1 y where pq: "push_queues (map (\<lambda>i. (i, (?l, ps ! i))) ?is) ?d0 = (d1, y)" by (metis surj_pair)
  have y: "y = Ok () \<and> length (da_qs d1) = n \<and> (\<forall>j < n. da_qs d1 ! j = (if j \<in> set ?is then da_qs (da s) ! j @ [(?l, ps ! j)] else da_qs (da s) ! j))
    \<or> y = Panic \<and> (\<exists>i \<in> set ?is. queue_capacity ALLOC_CAP \<le> length (da_qs (da s) ! i))"
    using push_queues_result [OF _ _ pq] n by (simp cong: if_cong)
  have f: "fill_queues ra r ?l (da s) = and_then (d1, y) (\<lambda>d _. (d, Ok (ps ! r)))"
    using a ps pq n by (simp add: fill_queues_def)
  show ?thesis
  proof (cases y)
    case (Ok u)
    then have q1: "length (da_qs d1) = n" "\<And>j. j < n \<Longrightarrow> da_qs d1 ! j = (if j \<noteq> r then da_qs (da s) ! j @ [(?l, ps ! j)] else [])"
      using y assms(4) by auto
    have "replicas_ok log n (Suc lead) (answer r (d1, Ok (ps ! r)) s)"
      unfolding replicas_ok_def
      using q1 qs nz lead assms(2,3) queue_ok_push [of log lead] by (auto simp: replicas_ok_def)
    then show ?thesis using f assms(5) Ok by auto
  next
    case Panic
    then show ?thesis using y f assms(5) by auto
  qed (use y in auto)
qed

lemma call_keeps_ok:
  assumes "replicas_ok log n lead s" and "r < n"
  shows "replicas_ok log n lead (da_call log r s) \<and> da_panicked (da_call log r s) = da_panicked s"
proof (cases "da_qs (da s) ! r")
  case Nil
  then have "da_call log r s = s\<lparr>waiting := (waiting s)(r := Some (log (length (da_results s r))))\<rparr>"
    by (simp add: da_call_def alloc_fast_def pop_queue_def Let_def)
  then show ?thesis using assms(1) by (simp add: replicas_ok_def)
next
  case (Cons x q)
  then have "da_call log r s = answer r ((da s)\<lparr>da_qs := (da_qs (da s))[r := q]\<rparr>, Ok (snd x)) s"
    using pop_keeps_ok(1) [OF assms Cons] by (simp add: da_call_def alloc_fast_def pop_queue_def Let_def)
  then show ?thesis using pop_keeps_ok(2) [OF assms Cons] by simp
qed

lemma lock_result:
  assumes "succeeds ra n" and "replicas_ok log n lead s" and "r < n" and "waiting s r = Some l"
  obtains (ok) d p lead' where "alloc_locked ra r l (da s) = (d, Ok p)" "replicas_ok log n lead' (answer r (d, Ok p) s)"
    | (full) d i where "alloc_locked ra r l (da s) = (d, Panic)" "i < n" "queue_capacity ALLOC_CAP \<le> length (da_qs (da s) ! i)"
proof (cases "da_qs (da s) ! r")
  case Nil
  have l: "l = log (length (da_results s r))" using assms(2-4) by (simp add: replicas_ok_def)
  obtain d x where f: "fill_queues ra r l (da s) = (d, x)" by (metis surj_pair)
  then have "alloc_locked ra r l (da s) = (d, x)" using Nil by (simp add: alloc_locked_def pop_queue_def)
  then show ?thesis using fill_keeps_ok [OF assms(1-3) Nil f [unfolded l]] ok full by blast
next
  case (Cons x q)
  have l: "l = log (length (da_results s r))" using assms(2-4) by (simp add: replicas_ok_def)
  have "alloc_locked ra r l (da s) = ((da s)\<lparr>da_qs := (da_qs (da s))[r := q]\<rparr>, Ok (snd x))"
    using Cons pop_keeps_ok(1) [OF assms(2,3) Cons] l by (simp add: alloc_locked_def pop_queue_def)
  then show ?thesis using ok pop_keeps_ok(2) [OF assms(2,3) Cons] by blast
qed

lemma da_reach_ok:
  assumes "succeeds ra n" and "da_reach ra log n m0 s" and "\<not> da_panicked s"
  shows "\<exists>lead. replicas_ok log n lead s"
  using assms(2,3)
proof (induction rule: da_reach.induct)
  case da_start
  show ?case by (intro exI [of _ 0]) (simp add: replicas_ok_def queue_ok_def)
next
  case (da_call s r)
  then show ?case using call_keeps_ok by blast
next
  case (da_lock s r l)
  then obtain lead where "replicas_ok log n lead s" by blast
  then show ?case
  proof (cases rule: lock_result [OF assms(1) _ da_lock.hyps(3,4), consumes 1, case_names ok full])
    case (full d i)
    then show ?thesis using da_lock.prems by simp
  qed auto
qed

text \<open>
  C20.  As long as the allocator underneath does not fail, the replicas agree: none of them ever gets
  a null pointer; the results that are left for a replica are those for exactly the allocations it
  has not done yet, in the order of the log, so that all replicas have got or will get equally many;
  and the next call of a replica, including the part under the lock, panics neither on a layout that
  does not match nor otherwise, unless a replica is so far behind that its queue is full.
\<close>

theorem allocations_agree:
  assumes "succeeds ra n" and "da_reach ra log n m0 s" and "\<not> da_panicked s" and "r < n" and "r' < n"
  shows "0 \<notin> set (da_results s r)
    \<and> length (da_results s r) + length (da_qs (da s) ! r) = length (da_results s r') + length (da_qs (da s) ! r')
    \<and> map fst (da_qs (da s) ! r) = map log [length (da_results s r)..<length (da_results s r) + length (da_qs (da s) ! r)]
    \<and> \<not> da_panicked (da_call log r s)
    \<and> ((\<forall>i < n. length (da_qs (da s) ! i) < queue_capacity ALLOC_CAP) \<longrightarrow>
        (\<forall>l. waiting s r = Some l \<longrightarrow> \<not> da_panicked (answer r (alloc_locked ra r l (da s)) s)))"
proof -
  obtain lead where ok: "replicas_ok log n lead s" using da_reach_ok [OF assms(1-3)] by blast
  have "\<not> da_panicked (answer r (alloc_locked ra r l (da s)) s)"
    if "\<forall>i < n. length (da_qs (da s) ! i) < queue_capacity ALLOC_CAP" "waiting s r = Some l" for l
  proof (cases rule: lock_result [OF assms(1) ok assms(4) that(2), case_names ok full])
    case (full d i)
    then show ?thesis using that(1) by (metis not_le)
  qed (use assms(3) in auto)
  then show ?thesis using call_keeps_ok [OF ok assms(4)] assms(3-5) ok by (auto simp: replicas_ok_def queue_ok_def)
qed

text \<open>A sample allocator that hands out increasing addresses, except on the nodes in \<open>bad\<close>; it records what has been freed.\<close>

definition bump :: "nat set \<Rightarrow> (nat \<times> nat list) RawAlloc" where
  "bump bad = \<lparr>raw_alloc = (\<lambda>i l (next, freed). if i \<in> bad then ((next, freed), 0) else ((next + 4096, freed), next + 4096)),
     raw_dealloc = (\<lambda>i p l (next, freed). (next, p # freed))\<rparr>"

theorem allocations_agree_witness:
  "\<exists>s. da_reach (bump {}) (\<lambda>_. \<lparr>l_size = 8, l_align = 8\<rparr>) 2 (0, []) s \<and> da_results s 0 = [4096]
    \<and> length (da_results s 0) + length (da_qs (da s) ! 0) = length (da_results s 1) + length (da_qs (da s) ! 1)"
proof -
  let ?l = "\<lparr>l_size = 8, l_align = 8\<rparr>" and ?n = "2 :: nat"
  let ?s0 = "\<lparr>da = \<lparr>da_qs = replicate 2 [], da_mem = (0, [])\<rparr>, waiting = (\<lambda>_. None), da_results = (\<lambda>_. []), da_panicked = False\<rparr> :: (nat \<times> nat list) replicas"
  have cap: "0 < queue_capacity ALLOC_CAP" using queue_capacity_power [of ALLOC_CAP] by (metis zero_less_numeral zero_less_power)
  have s0: "da_reach (bump {}) (\<lambda>_. ?l) 2 (0, []) ?s0" by (rule da_start)
  have s1: "da_reach (bump {}) (\<lambda>_. ?l) 2 (0, []) (da_call (\<lambda>_. ?l) 0 ?s0)" by (rule da_reach.da_call [OF s0]) simp_all
  let ?s2 = "answer 0 (alloc_locked (bump {}) 0 ?l (da (da_call (\<lambda>_. ?l) 0 ?s0))) (da_call (\<lambda>_. ?l) 0 ?s0)"
  have c: "da_call (\<lambda>_. ?l) 0 ?s0 = ?s0\<lparr>waiting := (\<lambda>_. None)(0 := Some ?l)\<rparr>"
    by (simp add: da_call_def alloc_fast_def pop_queue_def Let_def)
  have s2: "da_reach (bump {}) (\<lambda>_. ?l) 2 (0, []) ?s2" by (rule da_reach.da_lock [OF s1]) (simp_all add: c)
  have e: "alloc_locked (bump {}) 0 ?l (da ?s0) = (\<lparr>da_qs = [[], [(?l, 8192)]], da_mem = (8192, [])\<rparr>, Ok 4096)"
    using cap by (simp add: alloc_locked_def pop_queue_def fill_queues_def bump_def numeral_2_eq_2 push_queue_def)
  have e2: "da_results ?s2 0 = [4096]" "\<not> da_panicked ?s2" using e by (simp_all add: c)
  have "succeeds (bump {}) 2" by (auto simp: succeeds_def bump_def)
  from allocations_agree [OF this s2 e2(2), of 0 1] s2 e2(1) show ?thesis by auto
qed

section \<open>When an allocation fails\<close>

lemma push_queues_mem: "push_queues xs d = (d', Ok ()) \<Longrightarrow> da_mem d' = da_mem d"
  by (induction xs d rule: push_queues.induct) (auto simp: and_then_Ok push_queue_def split: if_splits)

text \<open>
  C40.  When the allocation succeeds on the node of the calling replica and fails on another one,
  the replicas do not agree, which the allocator is there to prevent: the caller gets the pointer of
  its own node, although that memory has been freed together with the rest, while every replica
  finds a null pointer in its queue.  The caller finds one in its own queue as well, as the answer
  to its next allocation.
\<close>

theorem failed_allocation_diverges:
  assumes "n = length (da_qs d)" and "nid < n" and "alloc_nodes ra l [0..<n] (da_mem d) = (m, allocs)"
    and "0 \<in> set allocs" and "allocs ! nid \<noteq> 0" and "\<forall>i < n. length (da_qs d ! i) < queue_capacity ALLOC_CAP"
  shows "\<exists>d'. fill_queues ra nid l d = (d', Ok (allocs ! nid)) \<and> allocs ! nid \<noteq> 0
    \<and> da_mem d' = free_nodes ra l (zip [0..<n] allocs) m \<and> (nid, allocs ! nid) \<in> set (zip [0..<n] allocs)
    \<and> (\<forall>j < n. da_qs d' ! j = da_qs d ! j @ [(l, 0)])"
proof -
  let ?d = "d\<lparr>da_mem := free_nodes ra l (zip [0..<n] allocs) m\<rparr>"
  obtain d' x where p: "push_queues (map (\<lambda>i. (i, (l, 0))) [0..<n]) ?d = (d', x)" by (metis surj_pair)
  have r: "x = Ok () \<and> (\<forall>j < n. da_qs d' ! j = da_qs d ! j @ [(l, 0)])"
    using push_queues_result [OF _ _ p] assms(1,6) by (auto simp: not_less [symmetric])
  have "length ps = length is" if "alloc_nodes ra l is m0 = (m1, ps)" for "is" m0 m1 ps
    using that by (induction "is" arbitrary: m0 ps) (auto split: prod.splits)
  then have len: "length allocs = n" using assms(3) by fastforce
  have f: "fill_queues ra nid l d = (d', Ok (allocs ! nid))"
    using assms(1,3,4) p r by (simp add: fill_queues_def)
  have m: "da_mem d' = free_nodes ra l (zip [0..<n] allocs) m" using push_queues_mem p r by fastforce
  have "(nid, allocs ! nid) \<in> set (zip [0..<n] allocs)" using assms(2) len by (auto simp: set_zip intro: exI [of _ nid])
  then show ?thesis using f m r assms(5) by blast
qed

theorem failed_allocation_diverges_witness:
  "\<exists>d'. fill_queues (bump {1}) 0 \<lparr>l_size = 8, l_align = 8\<rparr> \<lparr>da_qs = [[], []], da_mem = (0, [])\<rparr> = (d', Ok 4096)
    \<and> snd (da_mem d') = [4096] \<and> da_qs d' ! 1 = [(\<lparr>l_size = 8, l_align = 8\<rparr>, 0)]"
proof -
  let ?l = "\<lparr>l_size = 8, l_align = 8\<rparr>" and ?d = "\<lparr>da_qs = [[], []], da_mem = (0, [])\<rparr> :: (nat \<times> nat list) DetAlloc"
  have cap: "0 < queue_capacity ALLOC_CAP" using queue_capacity_power [of ALLOC_CAP] by (metis zero_less_numeral zero_less_power)
  have a: "alloc_nodes (bump {1}) ?l [0..<2] (da_mem ?d) = ((4096, []), [4096, 0])" by (simp add: bump_def numeral_2_eq_2)
  have "2 = length (da_qs ?d)" "(0::nat) < 2" "\<forall>i < 2. length (da_qs ?d ! i) < queue_capacity ALLOC_CAP"
    using cap by (auto simp: less_2_cases_iff)
  from failed_allocation_diverges [OF this(1,2) a _ _ this(3)] obtain d' where
    d': "fill_queues (bump {1}) 0 ?l ?d = (d', Ok 4096)" "da_mem d' = free_nodes (bump {1}) ?l (zip [0..<2] [4096, 0]) (4096, [])"
      "\<forall>j < 2. da_qs d' ! j = da_qs ?d ! j @ [(?l, 0)]" by auto
  have "snd (da_mem d') = [4096]" unfolding d'(2) by (simp add: bump_def numeral_2_eq_2)
  moreover have "da_qs d' ! 1 = [(?l, 0)]" using d'(3) by simp
  ultimately show ?thesis using d'(1) by blast
qed

end
