(* ===== verification/GlobalMem.thy ===== *)
theory GlobalMem
  imports KernelMem
begin

text \<open>
  The construction of the global memory from the frames of the machine (\<open>GlobalMemory::new\<close> in
  \<open>memory/mod.rs\<close>), and the emergency allocator of \<open>memory/emem.rs\<close>.
\<close>

section \<open>Building the caches\<close>

abbreviation EMEM_SIZE :: nat where "EMEM_SIZE \<equiv> 4456448"

text \<open>A node cache is a reference: the kernel address of the page that holds it, and its content.\<close>

record GlobalMemory =
  gm_emem :: "MCache list"
  gm_node_caches :: "(nat \<times> MCache) list"

text \<open>
  The first loop gives the frames as it leaves them, the tops that were cut off, and the early
  caches.  Early cache number \<open>cur_affinity\<close> is the next to be pushed; an \<open>ArrayVec\<close> of
  \<open>MAX_NUMA_NODES\<close> refuses one more.
\<close>

fun emem_loop :: "Frame list \<Rightarrow> nat \<Rightarrow> (Frame list \<times> Frame list \<times> MCache list) kres" where
  "emem_loop [] cur_affinity = Ok ([], [], [])"
| "emem_loop (frame # frames) cur_affinity =
     (if affinity frame = cur_affinity \<and> EMEM_SIZE < fsize frame
      then bind_result (split_at_nearest_large_page_boundary frame) (\<lambda>(low, large_page_aligned_frame).
           bind_result (split_at large_page_aligned_frame EMEM_SIZE) (\<lambda>(emem, leftover_mem).
           bind_result (MCache_new_with_frame 381 128 cur_affinity emem) (\<lambda>c.
           if \<not> cur_affinity < MAX_NUMA_NODES then Panic
           else bind_result (emem_loop frames (cur_affinity + 1)) (\<lambda>(memory, leftovers, cs).
             Ok (low # memory,
                 (if leftover_mem \<noteq> Frame_empty then [leftover_mem] else []) @ leftovers, c # cs)))))
      else bind_result (emem_loop frames cur_affinity) (\<lambda>(memory, leftovers, cs).
             Ok (frame # memory, leftovers, cs)))"

text \<open>The second loop: every early cache gives a large page that holds the node cache.\<close>

fun ncache_loop :: "MCache list \<Rightarrow> nat \<Rightarrow> (MCache list \<times> (nat \<times> MCache) list) kres" where
  "ncache_loop [] aff = Ok ([], [])"
| "ncache_loop (c # cs) aff =
     (case allocate_large_page c of
        (c', r) \<Rightarrow> bind_result r (\<lambda>ncache_memory.
          if fbase ncache_memory = 0 then Panic
          else bind_result (ncache_loop cs (aff + 1)) (\<lambda>(cs', ncs).
            Ok (c' # cs', (kernel_vaddr ncache_memory, NCache_new aff) # ncs))))"

text \<open>The third loop: a node cache gets the frames of its node.\<close>

fun populate_frames :: "MCache \<Rightarrow> Frame list \<Rightarrow> nat \<Rightarrow> MCache kres" where
  "populate_frames c [] aff = Ok c"
| "populate_frames c (frame # frames) aff =
     bind_result (if affinity frame = aff then populate_2m_first c frame else Ok c)
       (\<lambda>c'. populate_frames c' frames aff)"

fun populate_nodes :: "Frame list \<Rightarrow> Frame list \<Rightarrow> (nat \<times> MCache) list \<Rightarrow> nat \<Rightarrow> (nat \<times> MCache) list kres" where
  "populate_nodes memory leftovers [] aff = Ok []"
| "populate_nodes memory leftovers ((p, c) # ncs) aff =
     bind_result (populate_frames c memory aff) (\<lambda>c1.
     bind_result (populate_frames c1 leftovers aff) (\<lambda>c2.
     bind_result (populate_nodes memory leftovers ncs (aff + 1)) (\<lambda>ncs'. Ok ((p, c2) # ncs'))))"

definition GlobalMemory_new :: "Frame list \<Rightarrow> GlobalMemory kres" where
  "GlobalMemory_new memory =
     (if \<not> sorted (map affinity memory) \<or> memory = [] then Panic
      else let max_affinity = Max (set (map affinity memory)) + 1 in
        bind_result (emem_loop memory 0) (\<lambda>(memory', leftovers, emem).
        if length emem \<noteq> max_affinity then Panic
        else bind_result (ncache_loop emem 0) (\<lambda>(emem', node_caches).
        bind_result (populate_nodes memory' leftovers node_caches 0) (\<lambda>node_caches'.
          Ok \<lparr>gm_emem = emem', gm_node_caches = node_caches'\<rparr>))))"

section \<open>Disjoint pieces of memory\<close>

definition pieces :: "nat set list \<Rightarrow> bool" where
  "pieces Xs \<longleftrightarrow> sorted_wrt (\<lambda>A B. A \<inter> B = {}) Xs"

abbreviation cache_bytes :: "MCache \<Rightarrow> nat set" where
  "cache_bytes c \<equiv> pages_bytes (cache_pages c)"

lemma pieces_simps [simp]:
  "pieces []" "pieces (A # Xs) \<longleftrightarrow> A \<inter> \<Union>(set Xs) = {} \<and> pieces Xs"
  by (auto simp: pieces_def)

lemma pieces_append: "pieces (Xs @ Ys) \<longleftrightarrow> pieces Xs \<and> pieces Ys \<and> \<Union>(set Xs) \<inter> \<Union>(set Ys) = {}"
  by (induction Xs) auto

text \<open>The memory of the frames of one node, and the page that holds a node cache.\<close>

definition node_bytes :: "Frame list \<Rightarrow> nat \<Rightarrow> nat set" where
  "node_bytes fs n = (\<Union>f \<in> {f \<in> set fs. affinity f = n}. frame_bytes f)"

definition ncache_home :: "nat \<Rightarrow> nat set" where
  "ncache_home p = page_bytes (p - KERNEL_BASE, LARGE_PAGE_SIZE)"

lemma node_bytes_simps [simp]:
  "node_bytes [] n = {}"
  "node_bytes (f # fs) n = (if affinity f = n then frame_bytes f \<union> node_bytes fs n else node_bytes fs n)"
  "node_bytes (fs @ gs) n = node_bytes fs n \<union> node_bytes gs n"
  by (auto simp: node_bytes_def)

lemma node_bytes_subset: "node_bytes fs n \<subseteq> \<Union>(frame_bytes ` set fs)"
  by (auto simp: node_bytes_def)

lemma node_bytes_disjoint:
  "pieces (map frame_bytes fs) \<Longrightarrow> m \<noteq> n \<Longrightarrow> node_bytes fs m \<inter> node_bytes fs n = {}"
proof (induction fs)
  case (Cons f fs)
  then have IH: "node_bytes fs m \<inter> node_bytes fs n = {}" and f: "frame_bytes f \<inter> \<Union>(frame_bytes ` set fs) = {}"
    by simp_all
  show ?case using IH f node_bytes_subset [of fs m] node_bytes_subset [of fs n] Cons.prems(2) by auto
qed simp

section \<open>The loops\<close>

lemma new_with_frame_ok:
  assumes "frame_ok f"
  obtains c where "MCache_new_with_frame bp lp n f = Ok c" "mcache_inv c" "cache_bytes c \<subseteq> frame_bytes f" "node c = n"
proof -
  let ?c = "MCache_new bp lp n"
  let ?k = "if base_pages f > bp then ((base_pages f - bp) * BASE_PAGE_SIZE) div LARGE_PAGE_SIZE else 1"
  have e: "mcache_inv ?c" "cache_bytes ?c = {}" "bp_cap ?c = bp" "node ?c = n"
    by (simp_all add: MCache_new_def mcache_inv_def cache_pages_def)
  obtain c where c: "populate ?c f ?k = Ok c" "mcache_inv c" "node c = node ?c"
    "cache_bytes c \<subseteq> cache_bytes ?c \<union> frame_bytes f"
    by (rule populate_ok [OF e(1) assms(1), of ?k]) (use e(2) in auto)
  have "MCache_new_with_frame bp lp n f = Ok c"
    unfolding MCache_new_with_frame_def populate_4k_first_def e(3) by (rule c(1))
  then show ?thesis using that [of c] c(2-4) e(2,4) by simp
qed

text \<open>An early cache is built from an aligned piece of memory and always gets a large page.\<close>

lemma push_large_some:
  assumes "frame_ok f" and "fbase f mod LARGE_PAGE_SIZE = 0" and "LARGE_PAGE_SIZE \<le> fsize f"
    and "0 < n" and "0 < cap" and "push_large cap [] n f = Ok (ys, r)"
  shows "ys \<noteq> []"
proof -
  obtain k where k: "n = Suc k" using assms(4) by (cases n) auto
  obtain rest where s: "split_at f LARGE_PAGE_SIZE
      = Ok (\<lparr>fbase = fbase f, fsize = LARGE_PAGE_SIZE, affinity = affinity f\<rparr>, rest)" "frame_ok rest"
    "rest = Frame_empty \<or> fbase rest = fbase f + LARGE_PAGE_SIZE \<and> affinity rest = affinity f"
    by (rule split_large_page [OF assms(1,3)], rule that)
  have p: "push_large cap [fbase f] k rest = Ok (ys, r)"
    using assms(3,5,6) by (simp add: k s(1) try_push_def)
  have m: "fbase rest mod LARGE_PAGE_SIZE = 0"
    using s(3) assms(2) by (auto simp: Frame_empty_def mod_add_self2)
  have c: "length [fbase f] \<le> cap" using assms(5) by simp
  from push_large_ok [OF s(2) m c, of k] p show ?thesis by auto
qed

lemma early_cache_ok:
  assumes "frame_ok f" and "fbase f mod LARGE_PAGE_SIZE = 0" and "LARGE_PAGE_SIZE \<le> fsize f"
  obtains c where "MCache_new_with_frame 381 128 n f = Ok c" "mcache_inv c" "cache_bytes c \<subseteq> frame_bytes f"
    "node c = n" "large_page_addresses c \<noteq> []"
proof -
  let ?k = "if base_pages f > 381 then ((base_pages f - 381) * BASE_PAGE_SIZE) div LARGE_PAGE_SIZE else 1"
  let ?c = "TCache_new n"
  have e: "bp_cap ?c = 381" "lp_cap ?c = 128" "large_page_addresses ?c = []" by (simp_all add: MCache_new_def)
  obtain c where c: "MCache_new_with_frame 381 128 n f = Ok c" "mcache_inv c" "cache_bytes c \<subseteq> frame_bytes f" "node c = n"
    by (rule new_with_frame_ok [OF assms(1)])
  have p: "populate ?c f ?k = Ok c"
    using c(1) unfolding MCache_new_with_frame_def populate_4k_first_def e(1) .
  have sp: "split_at_nearest_large_page_boundary f = Ok (Frame_empty, f)"
    using assms(2) by (simp add: split_at_nearest_large_page_boundary_def)
  obtain r where "push_large 128 [] (if ?k = 0 then 1 else ?k) f = Ok (large_page_addresses c, r)"
    using p e(2,3) by (auto simp: populate_def sp Let_def bind_result_Ok_iff simp del: push_large.simps)
  then have "large_page_addresses c \<noteq> []" by (rule push_large_some [OF assms, rotated 2]) simp_all
  then show ?thesis using that [of c] c by simp
qed

lemma emem_split_ok:
  assumes "frame_ok f" and "EMEM_SIZE < fsize f"
  obtains low aligned emem left c where
    "split_at_nearest_large_page_boundary f = Ok (low, aligned)" "split_at aligned EMEM_SIZE = Ok (emem, left)"
    "MCache_new_with_frame 381 128 n emem = Ok c" "frame_ok low" "frame_ok left" "mcache_inv c" "node c = n"
    "large_page_addresses c \<noteq> []" "pieces [frame_bytes low, frame_bytes left, cache_bytes c]"
    "frame_bytes low \<union> frame_bytes left \<union> cache_bytes c \<subseteq> frame_bytes f"
    "low = Frame_empty \<or> affinity low = affinity f" "left = Frame_empty \<or> affinity left = affinity f"
proof -
  obtain low al where 1: "split_at_nearest_large_page_boundary f = Ok (low, al)" "frame_ok low" "frame_ok al"
    "frame_bytes low \<union> frame_bytes al = frame_bytes f" "frame_bytes low \<inter> frame_bytes al = {}"
    "fsize low + fsize al = fsize f" "fbase al mod LARGE_PAGE_SIZE = 0" "fsize low < LARGE_PAGE_SIZE"
    "low \<noteq> Frame_empty \<Longrightarrow> affinity low = affinity f" "al \<noteq> Frame_empty \<Longrightarrow> affinity al = affinity f"
    by (rule split_boundary_ok [OF assms(1)], rule that)
  have m: "EMEM_SIZE mod BASE_PAGE_SIZE = 0" by simp
  obtain em lf where 2: "split_at al EMEM_SIZE = Ok (em, lf)" "frame_ok em" "frame_ok lf"
    "frame_bytes em \<union> frame_bytes lf = frame_bytes al" "frame_bytes em \<inter> frame_bytes lf = {}"
    "fsize em = min EMEM_SIZE (fsize al)" "fbase em = fbase al" "lf \<noteq> Frame_empty \<Longrightarrow> affinity lf = affinity al"
    by (rule split_at_ok [OF 1(3) m], rule that)
  have sz: "LARGE_PAGE_SIZE \<le> fsize em" and al: "al \<noteq> Frame_empty"
    using 2(6) 1(6,8) assms(2) by (auto simp: Frame_empty_def)
  have b: "fbase em mod LARGE_PAGE_SIZE = 0" using 1(7) 2(7) by simp
  obtain c where 3: "MCache_new_with_frame 381 128 n em = Ok c" "mcache_inv c" "cache_bytes c \<subseteq> frame_bytes em"
    "node c = n" "large_page_addresses c \<noteq> []"
    by (rule early_cache_ok [OF 2(2) b sz])
  have "pieces [frame_bytes low, frame_bytes lf, cache_bytes c]" using 1(4,5) 2(4,5) 3(3) by auto
  moreover have "frame_bytes low \<union> frame_bytes lf \<union> cache_bytes c \<subseteq> frame_bytes f" using 1(4) 2(4) 3(3) by blast
  ultimately show ?thesis using that 1(1,2,9,10) 2(1,3,8) 3 al by metis
qed

text \<open>What the first loop leaves: disjoint pieces, each in the memory of its own node.\<close>

definition emem_split :: "Frame list \<Rightarrow> Frame list \<times> Frame list \<times> MCache list \<Rightarrow> nat \<Rightarrow> bool" where
  "emem_split fs r cur \<longleftrightarrow> (case r of (mem, left, cs) \<Rightarrow>
     (\<forall>f \<in> set (mem @ left). frame_ok f \<and> frame_bytes f \<subseteq> node_bytes fs (affinity f))
     \<and> pieces (map frame_bytes (mem @ left) @ map cache_bytes cs)
     \<and> (\<forall>c \<in> set cs. mcache_inv c \<and> large_page_addresses c \<noteq> [])
     \<and> (\<forall>i < length cs. node (cs ! i) = cur + i \<and> cache_bytes (cs ! i) \<subseteq> node_bytes fs (cur + i)))"

lemma emem_split_bytes:
  assumes "emem_split fs (mem, left, cs) cur"
  shows "\<Union>(set (map frame_bytes mem @ map frame_bytes left @ map cache_bytes cs)) \<subseteq> \<Union>(frame_bytes ` set fs)"
proof -
  have "cache_bytes c \<subseteq> \<Union>(frame_bytes ` set fs)" if "c \<in> set cs" for c
    using assms that node_bytes_subset [of fs] unfolding emem_split_def by (fastforce simp: in_set_conv_nth)
  moreover have "frame_bytes f \<subseteq> \<Union>(frame_bytes ` set fs)" if "f \<in> set mem \<union> set left" for f
    using assms that node_bytes_subset [of fs "affinity f"] unfolding emem_split_def by fastforce
  ultimately show ?thesis by (simp only: set_append set_map Union_Un_distrib) blast
qed

lemma emem_split_pieces:
  "emem_split fs (mem, left, cs) cur \<Longrightarrow> pieces (map frame_bytes mem @ map frame_bytes left @ map cache_bytes cs)"
  by (simp add: emem_split_def)

lemma pieces_insert:
  assumes "pieces (M @ L @ C)" and "\<Union>(set (M @ L @ C)) \<subseteq> U" and "A \<inter> U = {}"
    and "pieces [a, b, c]" and "a \<union> b \<union> c \<subseteq> A"
  shows "pieces ((a # M) @ (b # L) @ (c # C))"
proof -
  let ?u = "\<lambda>Xs. \<Union>(set Xs)"
  have u: "?u M \<subseteq> U" "?u L \<subseteq> U" "?u C \<subseteq> U" using assms(2) by auto
  have x: "X \<inter> ?u Y = {}" if "X \<subseteq> A" "?u Y \<subseteq> U" for X Y using assms(3) that by blast
  have 1: "pieces M" "pieces L" "pieces C" "?u M \<inter> ?u L = {}" "?u M \<inter> ?u C = {}" "?u L \<inter> ?u C = {}"
    using assms(1) by (auto simp: pieces_append)
  have 2: "a \<inter> b = {}" "a \<inter> c = {}" "b \<inter> c = {}" using assms(4) by auto
  have 3: "X \<inter> ?u Y = {}" if "X \<in> {a, b, c}" "Y \<in> {M, L, C}" for X Y
    using x [of X Y] that assms(5) u by blast
  show ?thesis using 1 2 3 [of a M] 3 [of a L] 3 [of a C] 3 [of b M] 3 [of b L] 3 [of b C]
      3 [of c M] 3 [of c L] 3 [of c C]
    by (simp add: pieces_append Int_Un_distrib Int_Un_distrib2 Int_commute)
qed

lemma emem_split_keep:
  assumes "emem_split fs (mem, left, cs) cur" and "frame_ok f" and "frame_bytes f \<inter> \<Union>(frame_bytes ` set fs) = {}"
  shows "emem_split (f # fs) (f # mem, left, cs) cur"
proof -
  let ?X = "map frame_bytes mem @ map frame_bytes left @ map cache_bytes cs"
  have d: "frame_bytes f \<inter> \<Union>(set ?X) = {}" using emem_split_bytes [OF assms(1)] assms(3) by blast
  have "pieces (frame_bytes f # ?X)"
    unfolding pieces_simps using d emem_split_pieces [OF assms(1)] by (rule conjI)
  then have "pieces (map frame_bytes ((f # mem) @ left) @ map cache_bytes cs)" by simp
  then show ?thesis using assms(1,2) unfolding emem_split_def prod.case by auto
qed

lemma emem_split_cut:
  assumes "emem_split fs (mem, left, cs) (Suc (affinity f))"
    and "frame_bytes f \<inter> \<Union>(frame_bytes ` set fs) = {}"
    and "frame_ok low" "frame_ok lf" "mcache_inv c" "node c = affinity f" "large_page_addresses c \<noteq> []"
    and "pieces [frame_bytes low, frame_bytes lf, cache_bytes c]"
    and "frame_bytes low \<union> frame_bytes lf \<union> cache_bytes c \<subseteq> frame_bytes f"
    and "low = Frame_empty \<or> affinity low = affinity f" and "lf = Frame_empty \<or> affinity lf = affinity f"
  shows "emem_split (f # fs) (low # mem, (if lf \<noteq> Frame_empty then [lf] else []) @ left, c # cs) (affinity f)"
proof -
  have "pieces ((frame_bytes low # map frame_bytes mem) @ (frame_bytes lf # map frame_bytes left)
      @ (cache_bytes c # map cache_bytes cs))"
    by (rule pieces_insert [OF emem_split_pieces [OF assms(1)] emem_split_bytes [OF assms(1)] assms(2,8,9)])
  then have "pieces (map frame_bytes ((low # mem) @ (if lf \<noteq> Frame_empty then [lf] else []) @ left) @ map cache_bytes (c # cs))"
    by (cases "lf = Frame_empty") (simp_all add: pieces_append Int_Un_distrib Int_Un_distrib2)
  moreover have "frame_bytes low \<subseteq> node_bytes (f # fs) (affinity low)" "frame_bytes lf \<subseteq> node_bytes (f # fs) (affinity lf)"
    using assms(9-11) by auto
  moreover have "node ((c # cs) ! i) = affinity f + i \<and> cache_bytes ((c # cs) ! i) \<subseteq> node_bytes (f # fs) (affinity f + i)"
    if "i < length (c # cs)" for i
    using assms(1,6,9) that unfolding emem_split_def by (cases i) auto
  moreover have "\<forall>g \<in> set (mem @ left). frame_ok g \<and> frame_bytes g \<subseteq> node_bytes (f # fs) (affinity g)"
    using assms(1) unfolding emem_split_def by auto
  ultimately show ?thesis
    using assms(1,3-5,7) unfolding emem_split_def prod.case by auto
qed

text \<open>The loop finds an early cache for every node that has a frame of more than the early size.\<close>

lemma emem_loop_ok:
  assumes "sorted (map affinity fs)" and "pieces (map frame_bytes fs)"
    and "\<forall>f \<in> set fs. frame_ok f \<and> affinity f < n" and "n \<le> MAX_NUMA_NODES" and "cur \<le> n"
    and "\<forall>a. cur \<le> a \<and> a < n \<longrightarrow> (\<exists>f \<in> set fs. affinity f = a \<and> EMEM_SIZE < fsize f)"
  shows "\<exists>mem left cs. emem_loop fs cur = Ok (mem, left, cs) \<and> length cs = n - cur \<and> emem_split fs (mem, left, cs) cur"
  using assms
proof (induction fs arbitrary: cur)
  case Nil
  then have "n = cur" by (metis empty_iff empty_set le_refl nat_less_le)
  then show ?case by (simp add: emem_split_def)
next
  case (Cons f fs)
  have f: "frame_ok f" "affinity f < n" "frame_bytes f \<inter> \<Union>(frame_bytes ` set fs) = {}"
    using Cons.prems(2,3) by simp_all
  have fs: "sorted (map affinity fs)" "pieces (map frame_bytes fs)" "\<forall>f \<in> set fs. frame_ok f \<and> affinity f < n"
    and ge: "\<forall>g \<in> set fs. affinity f \<le> affinity g"
    using Cons.prems(1-3) by auto
  show ?case
  proof (cases "affinity f = cur \<and> EMEM_SIZE < fsize f")
    case True
    then have big: "EMEM_SIZE < fsize f" and cur: "cur = affinity f" by simp_all
    obtain low al em lf c where c: "split_at_nearest_large_page_boundary f = Ok (low, al)"
      "split_at al EMEM_SIZE = Ok (em, lf)" "MCache_new_with_frame 381 128 cur em = Ok c"
      "frame_ok low" "frame_ok lf" "mcache_inv c" "node c = cur" "large_page_addresses c \<noteq> []"
      "pieces [frame_bytes low, frame_bytes lf, cache_bytes c]"
      "frame_bytes low \<union> frame_bytes lf \<union> cache_bytes c \<subseteq> frame_bytes f"
      "low = Frame_empty \<or> affinity low = affinity f" "lf = Frame_empty \<or> affinity lf = affinity f"
      by (rule emem_split_ok [OF f(1) big])
    have le: "Suc cur \<le> n" using f(2) cur by simp
    have rest: "\<forall>a. Suc cur \<le> a \<and> a < n \<longrightarrow> (\<exists>g \<in> set fs. affinity g = a \<and> EMEM_SIZE < fsize g)"
      using Cons.prems(6) cur by (metis Suc_leD Suc_n_not_le_n set_ConsD)
    obtain mem left cs where IH: "emem_loop fs (Suc cur) = Ok (mem, left, cs)" "length cs = n - Suc cur"
      "emem_split fs (mem, left, cs) (Suc cur)"
      using Cons.IH [OF fs Cons.prems(4) le rest] by blast
    have "emem_loop (f # fs) cur = Ok (low # mem, (if lf \<noteq> Frame_empty then [lf] else []) @ left, c # cs)"
      using True c(1-3) IH(1) f(2) Cons.prems(4) by simp
    moreover have "emem_split (f # fs) (low # mem, (if lf \<noteq> Frame_empty then [lf] else []) @ left, c # cs) cur"
      using emem_split_cut [OF _ f(3) c(4-6) _ c(8-12), of mem left cs] IH(3) c(7) cur by simp
    moreover have "length (c # cs) = n - cur" using IH(2) le by simp
    ultimately show ?thesis by blast
  next
    case False
    have "\<forall>a. cur \<le> a \<and> a < n \<longrightarrow> (\<exists>g \<in> set fs. affinity g = a \<and> EMEM_SIZE < fsize g)"
    proof (intro allI impI)
      fix a assume a: "cur \<le> a \<and> a < n"
      show "\<exists>g \<in> set fs. affinity g = a \<and> EMEM_SIZE < fsize g"
      proof (cases "affinity f = a")
        case True
        then have "affinity f = a" "cur \<noteq> a \<or> \<not> EMEM_SIZE < fsize f" using False by auto
        moreover obtain g where "g \<in> set (f # fs)" "affinity g = cur" "EMEM_SIZE < fsize g"
          using Cons.prems(6) a by (metis le_less_trans le_refl)
        ultimately show ?thesis using a ge Cons.prems(6) False by (metis antisym set_ConsD)
      qed (use Cons.prems(6) a in auto)
    qed
    then obtain mem left cs where IH: "emem_loop fs cur = Ok (mem, left, cs)" "length cs = n - cur"
      "emem_split fs (mem, left, cs) cur"
      using Cons.IH [OF fs Cons.prems(4,5)] by blast
    moreover have "emem_loop (f # fs) cur = Ok (f # mem, left, cs)" using False IH(1) by auto
    ultimately show ?thesis using emem_split_keep [OF IH(3) f(1,3)] by blast
  qed
qed

lemma ncache_loop_ok:
  assumes "\<forall>c \<in> set cs. mcache_inv c \<and> large_page_addresses c \<noteq> [] \<and> 0 \<notin> cache_bytes c"
  shows "\<exists>cs' ncs. ncache_loop cs aff = Ok (cs', ncs) \<and> length cs' = length cs \<and> length ncs = length cs
     \<and> (\<forall>i < length cs. mcache_inv (cs' ! i) \<and> node (cs' ! i) = node (cs ! i) \<and> snd (ncs ! i) = NCache_new (aff + i)
         \<and> cache_bytes (cs' ! i) \<union> ncache_home (fst (ncs ! i)) \<subseteq> cache_bytes (cs ! i)
         \<and> cache_bytes (cs' ! i) \<inter> ncache_home (fst (ncs ! i)) = {})"
  using assms
proof (induction cs arbitrary: aff)
  case (Cons c cs)
  then have c: "mcache_inv c" "large_page_addresses c \<noteq> []" "0 \<notin> cache_bytes c" by simp_all
  obtain as a where a: "large_page_addresses c = as @ [a]" using c(2) by (metis rev_exhaust)
  define f where "f = \<lparr>fbase = a, fsize = LARGE_PAGE_SIZE, affinity = node c\<rparr>"
  define c1 where "c1 = c\<lparr>large_page_addresses := as\<rparr>"
  have al: "allocate_large_page c = (c1, Ok f)"
    using allocate_large_page_some(1) [OF c(1) a] by (simp add: c1_def f_def)
  note takes = allocate_large_page_takes [OF c(1) al]
  have home: "ncache_home (kernel_vaddr f) = frame_bytes f"
    by (simp add: ncache_home_def kernel_vaddr_def paddr_to_kernel_vaddr_def frame_bytes_def page_bytes_def f_def)
  have "fbase f \<in> frame_bytes f" by (simp add: frame_bytes_def f_def)
  then have nz: "fbase f \<noteq> 0" using takes(2) c(3) by (metis subsetD)
  obtain cs' ncs where IH: "ncache_loop cs (aff + 1) = Ok (cs', ncs)" "length cs' = length cs" "length ncs = length cs"
    "\<forall>i < length cs. mcache_inv (cs' ! i) \<and> node (cs' ! i) = node (cs ! i) \<and> snd (ncs ! i) = NCache_new (aff + 1 + i)
         \<and> cache_bytes (cs' ! i) \<union> ncache_home (fst (ncs ! i)) \<subseteq> cache_bytes (cs ! i)
         \<and> cache_bytes (cs' ! i) \<inter> ncache_home (fst (ncs ! i)) = {}"
    using Cons.IH [of "aff + 1"] Cons.prems by auto
  have "ncache_loop (c # cs) aff = Ok (c1 # cs', (kernel_vaddr f, NCache_new aff) # ncs)"
    using al nz IH(1) by simp
  moreover have "mcache_inv ((c1 # cs') ! i) \<and> node ((c1 # cs') ! i) = node ((c # cs) ! i)
      \<and> snd (((kernel_vaddr f, NCache_new aff) # ncs) ! i) = NCache_new (aff + i)
      \<and> cache_bytes ((c1 # cs') ! i) \<union> ncache_home (fst (((kernel_vaddr f, NCache_new aff) # ncs) ! i)) \<subseteq> cache_bytes ((c # cs) ! i)
      \<and> cache_bytes ((c1 # cs') ! i) \<inter> ncache_home (fst (((kernel_vaddr f, NCache_new aff) # ncs) ! i)) = {}"
    if "i < length (c # cs)" for i
  proof (cases i)
    case 0
    then show ?thesis using takes by (simp add: home c1_def Int_commute)
  next
    case (Suc j)
    then show ?thesis using IH(4) that by simp
  qed
  ultimately show ?case using IH(2,3) by auto
qed simp

lemma populate_frames_ok:
  assumes "mcache_inv c" and "\<forall>f \<in> set fs. frame_ok f" and "pieces (map frame_bytes fs)"
    and "cache_bytes c \<inter> \<Union>(frame_bytes ` set fs) = {}"
  shows "\<exists>c'. populate_frames c fs aff = Ok c' \<and> mcache_inv c' \<and> node c' = node c
     \<and> cache_bytes c' \<subseteq> cache_bytes c \<union> node_bytes fs aff"
  using assms
proof (induction fs arbitrary: c)
  case (Cons f fs)
  have f: "frame_ok f" "cache_bytes c \<inter> frame_bytes f = {}" "frame_bytes f \<inter> \<Union>(frame_bytes ` set fs) = {}"
    and fs: "\<forall>f \<in> set fs. frame_ok f" "pieces (map frame_bytes fs)" "cache_bytes c \<inter> \<Union>(frame_bytes ` set fs) = {}"
    using Cons.prems(2-4) by auto
  show ?case
  proof (cases "affinity f = aff")
    case True
    obtain c1 where c1: "populate c f (fsize f div LARGE_PAGE_SIZE * 87 div 100) = Ok c1" "mcache_inv c1" "node c1 = node c"
      "cache_bytes c1 \<subseteq> cache_bytes c \<union> frame_bytes f"
      by (rule populate_ok [OF Cons.prems(1) f(1,2)])
    have "cache_bytes c1 \<inter> \<Union>(frame_bytes ` set fs) = {}" using c1(4) f(3) fs(3) by blast
    from Cons.IH [OF c1(2) fs(1,2) this] obtain c' where c': "populate_frames c1 fs aff = Ok c'" "mcache_inv c'"
      "node c' = node c1" "cache_bytes c' \<subseteq> cache_bytes c1 \<union> node_bytes fs aff"
      by blast
    have "populate_frames c (f # fs) aff = Ok c'" using True c1(1) c'(1) by (simp add: populate_2m_first_def)
    moreover have "cache_bytes c' \<subseteq> cache_bytes c \<union> node_bytes (f # fs) aff" using c'(4) c1(4) True by auto
    ultimately show ?thesis using c'(2,3) c1(3) by metis
  next
    case False
    then show ?thesis using Cons.IH [OF Cons.prems(1) fs] by simp
  qed
qed simp

lemma populate_nodes_ok:
  assumes "\<forall>f \<in> set (mem @ left). frame_ok f" and "pieces (map frame_bytes mem)" and "pieces (map frame_bytes left)"
    and "\<Union>(frame_bytes ` set mem) \<inter> \<Union>(frame_bytes ` set left) = {}"
    and "\<forall>i < length ncs. snd (ncs ! i) = NCache_new (aff + i)"
  shows "\<exists>ncs'. populate_nodes mem left ncs aff = Ok ncs' \<and> map fst ncs' = map fst ncs
     \<and> (\<forall>i < length ncs. mcache_inv (snd (ncs' ! i)) \<and> node (snd (ncs' ! i)) = aff + i
          \<and> cache_bytes (snd (ncs' ! i)) \<subseteq> node_bytes (mem @ left) (aff + i))"
  using assms(5)
proof (induction ncs arbitrary: aff)
  case (Cons pc ncs)
  have pc: "pc = (fst pc, NCache_new aff)" using Cons.prems by (metis add.right_neutral length_greater_0_conv list.distinct(1) nth_Cons_0 prod.collapse)
  have e: "mcache_inv (NCache_new aff)" "cache_bytes (NCache_new aff) = {}" "node (NCache_new aff) = aff"
    by (simp_all add: MCache_new_def mcache_inv_def cache_pages_def)
  obtain c1 where c1: "populate_frames (NCache_new aff) mem aff = Ok c1" "mcache_inv c1" "node c1 = aff"
    "cache_bytes c1 \<subseteq> node_bytes mem aff"
    using populate_frames_ok [OF e(1) _ assms(2), of aff] assms(1) e(2,3) by auto
  have "cache_bytes c1 \<inter> \<Union>(frame_bytes ` set left) = {}" using c1(4) assms(4) node_bytes_subset [of mem aff] by blast
  then obtain c2 where c2: "populate_frames c1 left aff = Ok c2" "mcache_inv c2" "node c2 = aff"
    "cache_bytes c2 \<subseteq> cache_bytes c1 \<union> node_bytes left aff"
    using populate_frames_ok [OF c1(2) _ assms(3), of aff] assms(1) c1(3) by auto
  have "\<forall>i < length ncs. snd (ncs ! i) = NCache_new (aff + 1 + i)" using Cons.prems by auto
  from Cons.IH [OF this] obtain ncs' where IH: "populate_nodes mem left ncs (aff + 1) = Ok ncs'" "map fst ncs' = map fst ncs"
    "\<forall>i < length ncs. mcache_inv (snd (ncs' ! i)) \<and> node (snd (ncs' ! i)) = aff + 1 + i
          \<and> cache_bytes (snd (ncs' ! i)) \<subseteq> node_bytes (mem @ left) (aff + 1 + i)"
    by blast
  have "populate_nodes mem left (pc # ncs) aff = Ok ((fst pc, c2) # ncs')"
    using c1(1) c2(1) IH(1) by (subst pc) simp
  moreover have "mcache_inv (snd (((fst pc, c2) # ncs') ! i)) \<and> node (snd (((fst pc, c2) # ncs') ! i)) = aff + i
      \<and> cache_bytes (snd (((fst pc, c2) # ncs') ! i)) \<subseteq> node_bytes (mem @ left) (aff + i)"
    if "i < length (pc # ncs)" for i
    using that IH(3) c2(2-4) c1(4) by (cases i) auto
  ultimately show ?case using IH(2) by auto
qed simp

section \<open>The memory is partitioned\<close>

lemma pieces_nth:
  "pieces Xs \<longleftrightarrow> (\<forall>i < length Xs. \<forall>j < length Xs. i \<noteq> j \<longrightarrow> Xs ! i \<inter> Xs ! j = {})"
proof -
  have "pieces Xs \<longleftrightarrow> (\<forall>i j. i < j \<longrightarrow> j < length Xs \<longrightarrow> Xs ! i \<inter> Xs ! j = {})"
    unfolding pieces_def sorted_wrt_iff_nth_less by (rule refl)
  moreover have "Xs ! i \<inter> Xs ! j = {}"
    if "\<forall>i j. i < j \<longrightarrow> j < length Xs \<longrightarrow> Xs ! i \<inter> Xs ! j = {}" "i < length Xs" "j < length Xs" "i \<noteq> j" for i j
    using that by (cases "i < j") (auto simp: Int_commute [of "Xs ! i"])
  ultimately show ?thesis by (metis less_trans nat_neq_iff)
qed

text \<open>Pieces of pieces: two disjoint parts of each.\<close>

lemma pieces_two_parts:
  assumes "pieces Xs" and "length As = length Xs" and "length Bs = length Xs"
    and "\<forall>i < length Xs. As ! i \<union> Bs ! i \<subseteq> Xs ! i \<and> As ! i \<inter> Bs ! i = {}"
  shows "pieces As \<and> pieces Bs \<and> \<Union>(set As) \<inter> \<Union>(set Bs) = {} \<and> \<Union>(set As) \<union> \<Union>(set Bs) \<subseteq> \<Union>(set Xs)"
proof -
  have sub: "As ! i \<subseteq> Xs ! i" "Bs ! i \<subseteq> Xs ! i" "As ! i \<inter> Bs ! i = {}" if "i < length Xs" for i
    using assms(4) that by auto
  have d: "X \<inter> Y = {}" if "X \<subseteq> Xs ! i" "Y \<subseteq> Xs ! j" "i < length Xs" "j < length Xs" "i \<noteq> j" for X Y i j
    using assms(1) that unfolding pieces_nth by blast
  have 1: "pieces As" unfolding pieces_nth using d [OF sub(1) sub(1)] assms(2) by simp
  have 2: "pieces Bs" unfolding pieces_nth using d [OF sub(2) sub(2)] assms(3) by simp
  have 3: "As ! i \<inter> Bs ! j = {}" if "i < length Xs" "j < length Xs" for i j
    using d [OF sub(1) sub(2)] sub(3) that by (cases "i = j") auto
  have 4: "\<Union>(set As) \<inter> \<Union>(set Bs) = {}"
  proof -
    have "A \<inter> B = {}" if "A \<in> set As" "B \<in> set Bs" for A B
      using 3 that assms(2,3) by (metis in_set_conv_nth)
    then show ?thesis by blast
  qed
  have "\<exists>X \<in> set Xs. A \<subseteq> X" if "A \<in> set As \<union> set Bs" for A
    using sub that assms(2,3) by (metis UnE in_set_conv_nth nth_mem)
  then have "\<Union>(set As) \<union> \<Union>(set Bs) \<subseteq> \<Union>(set Xs)" by blast
  with 1 2 4 show ?thesis by simp
qed

text \<open>The pieces the global memory owns: the free pages of its caches and the pages the node caches live in.\<close>

definition gm_pieces :: "GlobalMemory \<Rightarrow> nat set list" where
  "gm_pieces gm = map cache_bytes (gm_emem gm) @ map (ncache_home \<circ> fst) (gm_node_caches gm)
     @ map (cache_bytes \<circ> snd) (gm_node_caches gm)"

definition gm_node :: "GlobalMemory \<Rightarrow> nat \<Rightarrow> nat set" where
  "gm_node gm a = cache_bytes (gm_emem gm ! a) \<union> ncache_home (fst (gm_node_caches gm ! a))
     \<union> cache_bytes (snd (gm_node_caches gm ! a))"

lemma Max_affinity:
  assumes "\<forall>f \<in> set fs. affinity f < n" and "f \<in> set fs" and "Suc (affinity f) = n"
  shows "Max (affinity ` set fs) + 1 = n"
proof -
  have "Max (affinity ` set fs) = affinity f"
    using assms by (intro Max_eqI) auto
  then show ?thesis using assms(3) by simp
qed

lemma split_node_bytes:
  "emem_split fs (mem, left, cs) 0 \<Longrightarrow> node_bytes (mem @ left) a \<subseteq> node_bytes fs a"
  unfolding emem_split_def node_bytes_def [of "mem @ left"] by auto

lemma emem_split_frames:
  assumes "emem_split fs (mem, left, cs) cur"
  shows "pieces (map frame_bytes mem)" "pieces (map frame_bytes left)" "pieces (map cache_bytes cs)"
    "\<Union>(frame_bytes ` set mem) \<inter> \<Union>(frame_bytes ` set left) = {}"
    "\<Union>(frame_bytes ` set (mem @ left)) \<inter> \<Union>(cache_bytes ` set cs) = {}"
    "\<forall>f \<in> set (mem @ left). frame_ok f"
  using emem_split_pieces [OF assms] assms
  by (simp_all add: pieces_append Int_Un_distrib Int_Un_distrib2 emem_split_def)

lemma gm_pieces_ok:
  assumes "emem_split fs (mem, left, cs) cur" and "length cs = n" and "length cs' = n" and "length ncs = n"
    and "\<forall>i < n. cache_bytes (cs' ! i) \<union> ncache_home (fst (ncs ! i)) \<subseteq> cache_bytes (cs ! i)
         \<and> cache_bytes (cs' ! i) \<inter> ncache_home (fst (ncs ! i)) = {}"
    and "\<forall>i < n. cache_bytes (snd (ncs ! i)) \<subseteq> node_bytes (mem @ left) i"
  shows "pieces (gm_pieces \<lparr>gm_emem = cs', gm_node_caches = ncs\<rparr>)"
proof -
  let ?E = "map cache_bytes cs'" and ?H = "map (ncache_home \<circ> fst) ncs" and ?N = "map (cache_bytes \<circ> snd) ncs"
  note sp = emem_split_frames [OF assms(1)]
  have pm: "pieces (map frame_bytes (mem @ left))" using sp(1,2,4) by (simp add: pieces_append)
  have 1: "pieces ?E \<and> pieces ?H \<and> \<Union>(set ?E) \<inter> \<Union>(set ?H) = {} \<and> \<Union>(set ?E) \<union> \<Union>(set ?H) \<subseteq> \<Union>(set (map cache_bytes cs))"
    by (rule pieces_two_parts) (use sp(3) assms(2-5) in simp_all)
  have "?N ! i \<inter> ?N ! j = {}" if "i < n" "j < n" "i \<noteq> j" for i j
    using node_bytes_disjoint [OF pm that(3)] assms(4,6) that(1,2) by (simp, blast)
  then have 2: "pieces ?N" unfolding pieces_nth using assms(4) by simp
  have "X \<subseteq> \<Union>(frame_bytes ` set (mem @ left))" if X: "X \<in> set ?N" for X
  proof -
    obtain i where "i < n" "X = cache_bytes (snd (ncs ! i))" using X assms(4) in_set_conv_nth [of X ?N] by auto
    then show ?thesis using assms(6) node_bytes_subset [of "mem @ left" i] by (metis order_trans)
  qed
  then have "\<Union>(set ?N) \<subseteq> \<Union>(frame_bytes ` set (mem @ left))" by (rule Union_least)
  moreover have "\<Union>(set ?E) \<union> \<Union>(set ?H) \<subseteq> \<Union>(cache_bytes ` set cs)" using 1 by simp
  ultimately have "(\<Union>(set ?E) \<union> \<Union>(set ?H)) \<inter> \<Union>(set ?N) = {}" using sp(5) by blast
  then show ?thesis
    using 1 2 unfolding gm_pieces_def pieces_append by (simp add: Int_Un_distrib Int_Un_distrib2)
qed

lemma GlobalMemory_new_ok:
  assumes "0 < n" and "n \<le> MAX_NUMA_NODES" and "sorted (map affinity memory)"
    and "\<forall>f \<in> set memory. frame_ok f \<and> 0 < fbase f \<and> affinity f < n"
    and "pieces (map frame_bytes memory)"
    and "\<forall>a < n. \<exists>f \<in> set memory. affinity f = a \<and> EMEM_SIZE < fsize f"
  shows "\<exists>gm. GlobalMemory_new memory = Ok gm \<and> length (gm_emem gm) = n \<and> length (gm_node_caches gm) = n
     \<and> pieces (gm_pieces gm)
     \<and> (\<forall>a < n. mcache_inv (gm_emem gm ! a) \<and> node (gm_emem gm ! a) = a
          \<and> mcache_inv (snd (gm_node_caches gm ! a)) \<and> node (snd (gm_node_caches gm ! a)) = a
          \<and> gm_node gm a \<subseteq> node_bytes memory a)"
proof -
  have ne: "memory \<noteq> []" using assms(1,6) by force
  have "Suc (n - 1) = n" "n - 1 < n" using assms(1) by simp_all
  then obtain f where "f \<in> set memory" "Suc (affinity f) = n" using assms(6) by metis
  then have max: "Max (affinity ` set memory) + 1 = n" using Max_affinity assms(4) by blast
  obtain mem left cs where em: "emem_loop memory 0 = Ok (mem, left, cs)" "length cs = n" "emem_split memory (mem, left, cs) 0"
    using emem_loop_ok [OF assms(3,5) _ assms(2), of 0] assms(4,6) by auto
  have z: "0 \<notin> \<Union>(frame_bytes ` set memory)" using assms(4) by (auto simp: frame_bytes_def)
  have cs: "\<forall>c \<in> set cs. mcache_inv c \<and> large_page_addresses c \<noteq> [] \<and> 0 \<notin> cache_bytes c"
    using em(3) z emem_split_bytes [OF em(3)] unfolding emem_split_def by auto
  have own: "node (cs ! a) = a \<and> cache_bytes (cs ! a) \<subseteq> node_bytes memory a" if "a < n" for a
    using em(2,3) that unfolding emem_split_def by simp
  obtain cs' ncs where nc: "ncache_loop cs 0 = Ok (cs', ncs)" "length cs' = n" "length ncs = n"
    "\<forall>i < n. mcache_inv (cs' ! i) \<and> node (cs' ! i) = node (cs ! i) \<and> snd (ncs ! i) = NCache_new i
         \<and> cache_bytes (cs' ! i) \<union> ncache_home (fst (ncs ! i)) \<subseteq> cache_bytes (cs ! i)
         \<and> cache_bytes (cs' ! i) \<inter> ncache_home (fst (ncs ! i)) = {}"
    using ncache_loop_ok [OF cs, of 0] em(2) by auto
  obtain ncs' where pn: "populate_nodes mem left ncs 0 = Ok ncs'" "map fst ncs' = map fst ncs"
    "\<forall>i < n. mcache_inv (snd (ncs' ! i)) \<and> node (snd (ncs' ! i)) = i \<and> cache_bytes (snd (ncs' ! i)) \<subseteq> node_bytes (mem @ left) i"
    using populate_nodes_ok [OF emem_split_frames(6,1,2,4) [OF em(3)], of ncs 0] nc(3,4) by auto
  define gm where "gm = \<lparr>gm_emem = cs', gm_node_caches = ncs'\<rparr>"
  have len: "length ncs' = n" and home: "\<forall>i < n. fst (ncs' ! i) = fst (ncs ! i)"
    using pn(2) nc(3) by (metis length_map, metis length_map nth_map)
  have "GlobalMemory_new memory = Ok gm"
    using assms(3) ne max em(1,2) nc(1) pn(1) by (simp add: GlobalMemory_new_def gm_def)
  moreover have "pieces (gm_pieces gm)"
    unfolding gm_def by (rule gm_pieces_ok [OF em(3,2) nc(2) len]) (use nc(4) pn(3) home in simp_all)
  moreover have "gm_node gm a \<subseteq> node_bytes memory a" if "a < n" for a
  proof -
    have "cache_bytes (cs' ! a) \<union> ncache_home (fst (ncs' ! a)) \<subseteq> node_bytes memory a"
      using own [OF that] nc(4) home that by (metis order_trans)
    moreover have "cache_bytes (snd (ncs' ! a)) \<subseteq> node_bytes memory a"
      using pn(3) that split_node_bytes [OF em(3), of a] by (metis order_trans)
    ultimately show ?thesis by (simp add: gm_node_def gm_def)
  qed
  ultimately show ?thesis using nc(2,4) own len pn(3) by (intro exI [of _ gm]) (simp add: gm_def)
qed

text \<open>
  C19. From frames that are page-aligned, disjoint, above address zero and sorted by node, with at
  least one frame of more than 4.25 MiB on every node, the construction of the global memory
  succeeds.  Every node gets an early cache and a node cache, both well-formed and both for that
  node.  No byte of memory is in two caches, nor in a cache and in the page that holds a node
  cache.  All that a node's caches have comes from frames of that node.
\<close>
theorem global_memory_partitions:
  assumes "0 < n" and "n \<le> MAX_NUMA_NODES" and "sorted (map affinity memory)"
    and "\<forall>f \<in> set memory. frame_ok f \<and> 0 < fbase f \<and> affinity f < n"
    and "pieces (map frame_bytes memory)"
    and "\<forall>a < n. \<exists>f \<in> set memory. affinity f = a \<and> EMEM_SIZE < fsize f"
  shows "\<exists>gm. GlobalMemory_new memory = Ok gm \<and> length (gm_emem gm) = n \<and> length (gm_node_caches gm) = n
     \<and> pieces (gm_pieces gm)
     \<and> (\<forall>a < n. mcache_inv (gm_emem gm ! a) \<and> node (gm_emem gm ! a) = a
          \<and> mcache_inv (snd (gm_node_caches gm ! a)) \<and> node (snd (gm_node_caches gm ! a)) = a
          \<and> gm_node gm a \<subseteq> node_bytes memory a)"
  by (rule GlobalMemory_new_ok [OF assms])

theorem global_memory_partitions_witness:
  "\<exists>gm. GlobalMemory_new [\<lparr>fbase = 0x1000, fsize = 0x8000000, affinity = 0\<rparr>, \<lparr>fbase = 0x8200000, fsize = 0x800000, affinity = 1\<rparr>] = Ok gm
     \<and> length (gm_node_caches gm) = 2 \<and> pieces (gm_pieces gm)"
  using global_memory_partitions [of 2 "[\<lparr>fbase = 0x1000, fsize = 0x8000000, affinity = 0\<rparr>,
    \<lparr>fbase = 0x8200000, fsize = 0x800000, affinity = 1\<rparr>]"]
  by (auto simp: frame_ok_def frame_bytes_def less_2_cases_iff)

end
