(* ===== verification/BootMem.thy ===== *)
theory BootMem
  imports GlobalMem
begin

text \<open>
  How the first core finds its memory (\<open>_start\<close> and \<open>identify_numa_affinity\<close> in
  \<open>arch/x86_64/mod.rs\<close>): the memory map of the firmware becomes an early cache and a list of frames,
  the frames are cut along the regions of the NUMA nodes, and the global memory is built from them.

  The topology comes from the crate \<open>atopology\<close>, a parameter here: a list of nodes with their regions, and
  for a region the part of a frame that lies in it, with a first component of 0 if there is none.
\<close>

section \<open>Model\<close>

abbreviation MAX_PHYSICAL_REGIONS :: nat where "MAX_PHYSICAL_REGIONS \<equiv> 64"
abbreviation ONE_MIB :: nat where "ONE_MIB \<equiv> 1048576"
abbreviation EARLY_MEMORY_CAPACITY :: nat where "EARLY_MEMORY_CAPACITY \<equiv> 33554432"

text \<open>A descriptor of the memory map; of its type only whether it is conventional memory matters.\<close>

record MemoryDescriptor =
  md_conventional :: bool
  phys_start :: nat
  page_count :: nat

record 'r Topology =
  topo_nodes :: "(nat \<times> 'r list) list"
  is_hotplug_region :: "'r \<Rightarrow> bool"
  region_contains :: "'r \<Rightarrow> nat \<Rightarrow> nat \<Rightarrow> nat \<times> nat"

definition push_region :: "Frame list \<Rightarrow> Frame \<Rightarrow> Frame list kres" where
  "push_region rs f = (if length rs < MAX_PHYSICAL_REGIONS then Ok (rs @ [f]) else Panic)"

fun early_memory :: "MemoryDescriptor list \<Rightarrow> MCache option \<Rightarrow> Frame list \<Rightarrow> (MCache option \<times> Frame list) kres" where
  "early_memory [] em rs = Ok (em, rs)"
| "early_memory (d # ds) em rs =
     (if \<not> md_conventional d then early_memory ds em rs
      else bind_result (Frame_new (phys_start d) (page_count d * BASE_PAGE_SIZE) 0) (\<lambda>f.
        if ONE_MIB \<le> phys_start d then
          (if EARLY_MEMORY_CAPACITY < fsize f \<and> em = None then
             bind_result (split_at f EARLY_MEMORY_CAPACITY) (\<lambda>(early_frame, high).
             bind_result (MCache_new_with_frame 2048 12 0 early_frame) (\<lambda>c.
             bind_result (if high \<noteq> Frame_empty then push_region rs high else Ok rs) (early_memory ds (Some c))))
           else bind_result (push_region rs f) (early_memory ds em))
        else early_memory ds em rs))"

fun annotate_regions :: "'r Topology \<Rightarrow> Frame \<Rightarrow> nat \<Rightarrow> 'r list \<Rightarrow> Frame list \<Rightarrow> Frame list kres" where
  "annotate_regions topo orig nid [] ann = Ok ann"
| "annotate_regions topo orig nid (r # rs) ann =
     (let mid = region_contains topo r (fbase orig) (fend orig) in
      if \<not> is_hotplug_region topo r \<and> 0 < fst mid
      then bind_result (Frame_from_range mid nid) (\<lambda>f.
           bind_result (push_region ann f) (annotate_regions topo orig nid rs))
      else annotate_regions topo orig nid rs ann)"

fun annotate_nodes :: "'r Topology \<Rightarrow> Frame \<Rightarrow> (nat \<times> 'r list) list \<Rightarrow> Frame list \<Rightarrow> Frame list kres" where
  "annotate_nodes topo orig [] ann = Ok ann"
| "annotate_nodes topo orig ((nid, rs) # ns) ann =
     bind_result (annotate_regions topo orig nid rs ann) (annotate_nodes topo orig ns)"

fun annotate_frames :: "'r Topology \<Rightarrow> Frame list \<Rightarrow> Frame list \<Rightarrow> Frame list kres" where
  "annotate_frames topo [] ann = Ok ann"
| "annotate_frames topo (orig # fs) ann =
     bind_result (annotate_nodes topo orig (topo_nodes topo) ann) (annotate_frames topo fs)"

definition identify_numa_affinity :: "'r Topology \<Rightarrow> Frame list \<Rightarrow> Frame list kres" where
  "identify_numa_affinity topo memory_regions =
     bind_result (if topo_nodes topo \<noteq> [] then annotate_frames topo memory_regions []
                  else if length memory_regions \<le> MAX_PHYSICAL_REGIONS then Ok memory_regions else Panic)
       (\<lambda>annotated. if sum_list (map fsize annotated) = sum_list (map fsize memory_regions) then Ok annotated else Panic)"

text \<open>The part of \<open>_start\<close> about memory: the early cache of the core and the global memory.\<close>

definition boot_memory :: "'r Topology \<Rightarrow> MemoryDescriptor list \<Rightarrow> (MCache \<times> GlobalMemory) kres" where
  "boot_memory topo mm =
     bind_result (early_memory mm None []) (\<lambda>(emanager, memory_regions).
       case emanager of None \<Rightarrow> Panic
       | Some em \<Rightarrow> bind_result (identify_numa_affinity topo memory_regions) (\<lambda>annotated.
           case GlobalMemory_new annotated of Ok gm \<Rightarrow> Ok (em, gm) | _ \<Rightarrow> Panic))"

section \<open>The early cache and the frames\<close>

definition descriptor_bytes :: "MemoryDescriptor \<Rightarrow> nat set" where
  "descriptor_bytes d = {phys_start d ..< phys_start d + page_count d * BASE_PAGE_SIZE}"

definition early_bytes :: "MCache option \<Rightarrow> nat set" where
  "early_bytes em = (case em of None \<Rightarrow> {} | Some c \<Rightarrow> cache_bytes c)"

text \<open>Splitting a piece of memory in two.\<close>

lemma pieces_replace:
  assumes "pieces (A @ d # B)" and "x \<union> y \<subseteq> d" and "x \<inter> y = {}"
  shows "pieces (x # A @ y # B)"
proof -
  let ?u = "\<lambda>Xs. \<Union>(set Xs)"
  have 1: "pieces A" "pieces B" "?u A \<inter> d = {}" "d \<inter> ?u B = {}" "?u A \<inter> ?u B = {}"
    using assms(1) by (auto simp: pieces_append)
  have 2: "x \<inter> ?u A = {}" "x \<inter> ?u B = {}" "y \<inter> ?u B = {}" "?u A \<inter> y = {}" using 1(3,4) assms(2) by blast+
  show ?thesis using 1 2 assms(3) by (simp add: pieces_append Int_Un_distrib)
qed

definition boot_ok :: "MCache option \<Rightarrow> Frame list \<Rightarrow> bool" where
  "boot_ok em rs \<longleftrightarrow> (\<forall>c. em = Some c \<longrightarrow> mcache_inv c) \<and> (\<forall>f \<in> set rs. frame_ok f \<and> 0 < fbase f)"

lemma push_region_Ok [simp]: "push_region rs f = Ok rs' \<longleftrightarrow> length rs < MAX_PHYSICAL_REGIONS \<and> rs' = rs @ [f]"
  by (auto simp: push_region_def)

lemma early_split_ok:
  assumes "frame_ok f" and "split_at f EARLY_MEMORY_CAPACITY = Ok (early, high)" and "MCache_new_with_frame 2048 12 0 early = Ok c"
  shows "mcache_inv c" and "cache_bytes c \<union> frame_bytes high \<subseteq> frame_bytes f" and "cache_bytes c \<inter> frame_bytes high = {}"
    and "frame_ok high" and "high \<noteq> Frame_empty \<Longrightarrow> fbase f \<le> fbase high"
proof -
  have m: "EARLY_MEMORY_CAPACITY mod BASE_PAGE_SIZE = 0" by simp
  have s: "frame_ok early" "frame_ok high" "frame_bytes early \<union> frame_bytes high = frame_bytes f" "frame_bytes early \<inter> frame_bytes high = {}"
    by (rule split_at_ok [OF assms(1) m]; use assms(2) in simp)+
  show "high \<noteq> Frame_empty \<Longrightarrow> fbase f \<le> fbase high"
    using assms(1,2) by (auto simp: split_at_def frame_ok_def Frame_new_def bind_result_Ok_iff split: if_splits)
  have c: "mcache_inv c" "cache_bytes c \<subseteq> frame_bytes early"
    by (rule new_with_frame_ok [OF s(1), of 2048 12 0]; use assms(3) in simp)+
  show "mcache_inv c" "frame_ok high" by (rule c(1), rule s(2))
  show "cache_bytes c \<union> frame_bytes high \<subseteq> frame_bytes f" "cache_bytes c \<inter> frame_bytes high = {}" using c(2) s(3,4) by blast+
qed

lemma early_memory_ok:
  assumes "early_memory ds em rs = Ok (em', rs')" and "boot_ok em rs"
    and "pieces (early_bytes em # map frame_bytes rs @ map descriptor_bytes ds)"
  shows "boot_ok em' rs' \<and> pieces (early_bytes em' # map frame_bytes rs')
     \<and> early_bytes em' \<union> \<Union>(frame_bytes ` set rs') \<subseteq> early_bytes em \<union> \<Union>(frame_bytes ` set rs) \<union> \<Union>(descriptor_bytes ` set ds)"
  using assms
proof (induction ds arbitrary: em rs)
  case (Cons d ds)
  have skip: "pieces (early_bytes em # map frame_bytes rs @ map descriptor_bytes ds)"
    using Cons.prems(3) by (auto simp: pieces_append)
  show ?case
  proof (cases "md_conventional d \<and> ONE_MIB \<le> phys_start d")
    case False
    then have "early_memory ds em rs = Ok (em', rs')" using Cons.prems(1) by (auto simp: bind_result_Ok_iff split: if_splits)
    from Cons.IH [OF this Cons.prems(2) skip] show ?thesis by auto
  next
    case True
    define f where "f = \<lparr>fbase = phys_start d, fsize = page_count d * BASE_PAGE_SIZE, affinity = 0\<rparr>"
    have fn: "Frame_new (phys_start d) (page_count d * BASE_PAGE_SIZE) 0 = Ok f" and fo: "frame_ok f"
      using Cons.prems(1) True by (auto simp: bind_result_Ok_iff Frame_new_def f_def frame_ok_def split: if_splits)
    have db: "descriptor_bytes d = frame_bytes f" and pos: "0 < fbase f"
      using True by (simp_all add: descriptor_bytes_def frame_bytes_def f_def)
    show ?thesis
    proof (cases "EARLY_MEMORY_CAPACITY < fsize f \<and> em = None")
      case early: True
      then obtain e high c rs1 where s: "split_at f EARLY_MEMORY_CAPACITY = Ok (e, high)" "MCache_new_with_frame 2048 12 0 e = Ok c"
        "rs1 = rs @ (if high \<noteq> Frame_empty then [high] else [])" "early_memory ds (Some c) rs1 = Ok (em', rs')"
        using Cons.prems(1) True fn by (auto simp: bind_result_Ok_iff split: if_splits)
      note sp = early_split_ok [OF fo s(1,2)]
      have b: "boot_ok (Some c) rs1" using Cons.prems(2) sp(1,4,5) pos s(3) by (auto simp: boot_ok_def)
      have "pieces (cache_bytes c # map frame_bytes rs @ frame_bytes high # map descriptor_bytes ds)"
        using Cons.prems(3) early sp(2,3) by (intro pieces_replace [of _ "frame_bytes f"]) (simp_all add: early_bytes_def db)
      then have p: "pieces (early_bytes (Some c) # map frame_bytes rs1 @ map descriptor_bytes ds)"
        by (cases "high = Frame_empty") (simp_all add: early_bytes_def s(3) pieces_append)
      have u: "\<Union>(frame_bytes ` set rs1) = \<Union>(frame_bytes ` set rs) \<union> frame_bytes high" by (cases "high = Frame_empty") (auto simp: s(3))
      show ?thesis using Cons.IH [OF s(4) b p] sp(2) unfolding u by (auto simp: early_bytes_def db)
    next
      case rest: False
      then have e: "early_memory ds em (rs @ [f]) = Ok (em', rs')"
        using Cons.prems(1) True fn by (auto simp: bind_result_Ok_iff split: if_splits)
      have b: "boot_ok em (rs @ [f])" using Cons.prems(2) fo pos by (auto simp: boot_ok_def)
      have p: "pieces (early_bytes em # map frame_bytes (rs @ [f]) @ map descriptor_bytes ds)" using Cons.prems(3) db by simp
      show ?thesis using Cons.IH [OF e b p] by (auto simp: db)
    qed
  qed
qed simp

section \<open>Cutting along the nodes\<close>

text \<open>
  What the code relies on: \<open>B r\<close> is the memory of a region, the part of a frame in it is computed
  correctly, and the regions do not overlap.
\<close>

definition region_ok :: "'r Topology \<Rightarrow> ('r \<Rightarrow> nat set) \<Rightarrow> 'r \<Rightarrow> bool" where
  "region_ok topo B r \<longleftrightarrow> (\<forall>lo hi. case region_contains topo r lo hi of (a, b) \<Rightarrow>
     if {lo ..< hi} \<inter> B r = {} then a = 0 else {a ..< b} = {lo ..< hi} \<inter> B r)"

definition topo_ok :: "'r Topology \<Rightarrow> ('r \<Rightarrow> nat set) \<Rightarrow> bool" where
  "topo_ok topo B \<longleftrightarrow> pieces (map B (concat (map snd (topo_nodes topo))))
     \<and> (\<forall>r \<in> set (concat (map snd (topo_nodes topo))). region_ok topo B r)"

definition node_memory :: "'r Topology \<Rightarrow> ('r \<Rightarrow> nat set) \<Rightarrow> nat \<Rightarrow> nat set" where
  "node_memory topo B n = \<Union>(B ` set (concat (map snd (filter (\<lambda>x. fst x = n) (topo_nodes topo)))))"

text \<open>The frames that are new, and where they lie.\<close>

definition cut_ok :: "Frame list \<Rightarrow> nat set \<Rightarrow> bool" where
  "cut_ok new M \<longleftrightarrow> pieces (map frame_bytes new) \<and> (\<forall>f \<in> set new. frame_ok f \<and> 0 < fbase f) \<and> \<Union>(frame_bytes ` set new) \<subseteq> M"

lemma cut_ok_append:
  assumes "cut_ok xs M" and "cut_ok ys N" and "M \<inter> N = {}"
  shows "cut_ok (xs @ ys) (M \<union> N)"
proof -
  have "\<Union>(frame_bytes ` set xs) \<inter> \<Union>(frame_bytes ` set ys) = {}" using assms unfolding cut_ok_def by blast
  then show ?thesis using assms unfolding cut_ok_def by (auto simp: pieces_append)
qed

lemma cut_ok_mono: "cut_ok xs M \<Longrightarrow> M \<subseteq> N \<Longrightarrow> cut_ok xs N"
  unfolding cut_ok_def by blast

lemma from_range_ok:
  assumes "Frame_from_range (a, b) n = Ok f"
  shows "frame_ok f" and "frame_bytes f = {a ..< b}" and "affinity f = n" and "fbase f = a"
  using assms by (auto simp: Frame_from_range_def frame_ok_def frame_bytes_def intro: mod_diff_zero split: if_splits)

lemma annotate_regions_ok:
  assumes "annotate_regions topo orig nid rs ann = Ok ann'" and "pieces (map B rs)"
    and "\<forall>r \<in> set rs. region_ok topo B r"
  shows "\<exists>new. ann' = ann @ new \<and> cut_ok new (frame_bytes orig \<inter> \<Union>(B ` set rs)) \<and> (\<forall>f \<in> set new. affinity f = nid)"
  using assms
proof (induction rs arbitrary: ann)
  case (Cons r rs)
  obtain a b where mid: "region_contains topo r (fbase orig) (fend orig) = (a, b)" by fastforce
  have rest: "pieces (map B rs)" "B r \<inter> \<Union>(B ` set rs) = {}" using Cons.prems(2) by simp_all
  note IH = Cons.IH [OF _ rest(1)]
  show ?case
  proof (cases "\<not> is_hotplug_region topo r \<and> 0 < a")
    case False
    then have "annotate_regions topo orig nid rs ann = Ok ann'" using Cons.prems(1) mid by (auto simp: Let_def split: if_splits)
    from IH [OF this] Cons.prems(3) obtain new where new: "ann' = ann @ new" "cut_ok new (frame_bytes orig \<inter> \<Union>(B ` set rs))"
      "\<forall>f \<in> set new. affinity f = nid" by auto
    have "cut_ok new (frame_bytes orig \<inter> \<Union>(B ` set (r # rs)))" by (rule cut_ok_mono [OF new(2)]) auto
    then show ?thesis using new(1,3) by blast
  next
    case True
    then obtain f where f: "Frame_from_range (a, b) nid = Ok f" "annotate_regions topo orig nid rs (ann @ [f]) = Ok ann'"
      using Cons.prems(1) mid by (auto simp: Let_def bind_result_Ok_iff split: if_splits)
    note fr = from_range_ok [OF f(1)]
    from IH [OF f(2)] Cons.prems(3) obtain new where new: "ann' = ann @ [f] @ new" "cut_ok new (frame_bytes orig \<inter> \<Union>(B ` set rs))"
      "\<forall>f \<in> set new. affinity f = nid" by auto
    have "region_ok topo B r" using Cons.prems(3) by simp
    from this [unfolded region_ok_def, rule_format, of "fbase orig" "fend orig"] have "{a ..< b} = frame_bytes orig \<inter> B r"
      using True mid by (simp add: frame_bytes_def fend_def split: if_splits)
    then have "cut_ok [f] (frame_bytes orig \<inter> B r)" using fr True by (simp add: cut_ok_def)
    moreover have "(frame_bytes orig \<inter> B r) \<inter> (frame_bytes orig \<inter> \<Union>(B ` set rs)) = {}" using rest(2) by blast
    ultimately have "cut_ok ([f] @ new) ((frame_bytes orig \<inter> B r) \<union> (frame_bytes orig \<inter> \<Union>(B ` set rs)))"
      using new(2) by (intro cut_ok_append)
    then have "cut_ok ([f] @ new) (frame_bytes orig \<inter> \<Union>(B ` set (r # rs)))" by (rule cut_ok_mono) auto
    then show ?thesis using new(1,3) fr(3) by (intro exI [of _ "[f] @ new"]) simp
  qed
qed (simp add: cut_ok_def)

text \<open>A frame of the result lies in the memory of the node it is for.\<close>

lemma annotate_nodes_ok:
  assumes "annotate_nodes topo orig ns ann = Ok ann'" and "pieces (map B (concat (map snd ns)))"
    and "\<forall>r \<in> set (concat (map snd ns)). region_ok topo B r"
  shows "\<exists>new. ann' = ann @ new \<and> cut_ok new (frame_bytes orig \<inter> \<Union>(B ` set (concat (map snd ns))))
     \<and> (\<forall>f \<in> set new. frame_bytes f \<subseteq> \<Union>(B ` set (concat (map snd (filter (\<lambda>x. fst x = affinity f) ns)))))"
  using assms
proof (induction ns arbitrary: ann)
  case (Cons x ns)
  obtain nid rs where x: "x = (nid, rs)" by fastforce
  let ?all = "\<Union>(B ` set (concat (map snd ns)))"
  obtain ann1 where a: "annotate_regions topo orig nid rs ann = Ok ann1" "annotate_nodes topo orig ns ann1 = Ok ann'"
    using Cons.prems(1) x by (auto simp: bind_result_Ok_iff)
  have rest: "pieces (map B rs)" "pieces (map B (concat (map snd ns)))" "\<Union>(B ` set rs) \<inter> ?all = {}"
    using Cons.prems(2) x by (simp_all add: pieces_append)
  obtain new1 where 1: "ann1 = ann @ new1" "cut_ok new1 (frame_bytes orig \<inter> \<Union>(B ` set rs))" "\<forall>f \<in> set new1. affinity f = nid"
    using annotate_regions_ok [OF a(1) rest(1)] Cons.prems(3) x by auto
  obtain new2 where 2: "ann' = ann1 @ new2" "cut_ok new2 (frame_bytes orig \<inter> ?all)"
    "\<forall>f \<in> set new2. frame_bytes f \<subseteq> \<Union>(B ` set (concat (map snd (filter (\<lambda>x. fst x = affinity f) ns))))"
    using Cons.IH [OF a(2) rest(2)] Cons.prems(3) x by auto
  have "cut_ok (new1 @ new2) ((frame_bytes orig \<inter> \<Union>(B ` set rs)) \<union> (frame_bytes orig \<inter> ?all))"
    using 1(2) 2(2) rest(3) by (intro cut_ok_append) auto
  then have "cut_ok (new1 @ new2) (frame_bytes orig \<inter> \<Union>(B ` set (concat (map snd (x # ns)))))" by (rule cut_ok_mono) (auto simp: x)
  moreover have "frame_bytes f \<subseteq> \<Union>(B ` set rs)" if "f \<in> set new1" for f using 1(2) that unfolding cut_ok_def by blast
  ultimately show ?case using 1 2 x by (intro exI [of _ "new1 @ new2"]) auto
qed (simp add: cut_ok_def)

lemma annotate_frames_ok:
  assumes "topo_ok topo B" and "annotate_frames topo fs ann = Ok ann'" and "pieces (map frame_bytes fs)"
  shows "\<exists>new. ann' = ann @ new \<and> cut_ok new (\<Union>(frame_bytes ` set fs)) \<and> (\<forall>f \<in> set new. frame_bytes f \<subseteq> node_memory topo B (affinity f))"
  using assms(2,3)
proof (induction fs arbitrary: ann)
  case (Cons orig fs)
  obtain ann1 where a: "annotate_nodes topo orig (topo_nodes topo) ann = Ok ann1" "annotate_frames topo fs ann1 = Ok ann'"
    using Cons.prems(1) by (auto simp: bind_result_Ok_iff)
  have rest: "pieces (map frame_bytes fs)" "frame_bytes orig \<inter> \<Union>(frame_bytes ` set fs) = {}" using Cons.prems(2) by simp_all
  have law: "pieces (map B (concat (map snd (topo_nodes topo))))" "\<forall>r \<in> set (concat (map snd (topo_nodes topo))). region_ok topo B r"
    using assms(1) unfolding topo_ok_def by (rule conjunct1, rule conjunct2)
  obtain new1 where c: "ann1 = ann @ new1" "cut_ok new1 (frame_bytes orig \<inter> \<Union>(B ` set (concat (map snd (topo_nodes topo)))))"
    and raw: "\<forall>f \<in> set new1. frame_bytes f \<subseteq> \<Union>(B ` set (concat (map snd (filter (\<lambda>x. fst x = affinity f) (topo_nodes topo)))))"
    using annotate_nodes_ok [OF a(1) law] by (elim exE conjE) (rule that)
  have own: "\<forall>f \<in> set new1. frame_bytes f \<subseteq> node_memory topo B (affinity f)" using raw unfolding node_memory_def .
  note 1 = c(1) cut_ok_mono [OF c(2) Int_lower1] own
  obtain new2 where 2: "ann' = ann1 @ new2" "cut_ok new2 (\<Union>(frame_bytes ` set fs))"
    "\<forall>f \<in> set new2. frame_bytes f \<subseteq> node_memory topo B (affinity f)"
    using Cons.IH [OF a(2) rest(1)] by blast
  have "cut_ok (new1 @ new2) (frame_bytes orig \<union> \<Union>(frame_bytes ` set fs))" by (rule cut_ok_append [OF 1(2) 2(2) rest(2)])
  then show ?case using 1 2 by (intro exI [of _ "new1 @ new2"]) auto
qed (simp add: cut_ok_def)

lemma identify_ok:
  assumes "topo_ok topo B" and "topo_nodes topo \<noteq> []" and "identify_numa_affinity topo fs = Ok ann" and "pieces (map frame_bytes fs)"
  shows "cut_ok ann (\<Union>(frame_bytes ` set fs))" and "\<forall>f \<in> set ann. frame_bytes f \<subseteq> node_memory topo B (affinity f)"
proof -
  have "annotate_frames topo fs [] = Ok ann"
    using assms(2,3) by (auto simp: identify_numa_affinity_def bind_result_Ok_iff split: if_splits)
  from annotate_frames_ok [OF assms(1) this assms(4)]
  show "cut_ok ann (\<Union>(frame_bytes ` set fs))" "\<forall>f \<in> set ann. frame_bytes f \<subseteq> node_memory topo B (affinity f)" by simp_all
qed

section \<open>Booting\<close>

lemma node_bytes_memory:
  "\<forall>f \<in> set ann. frame_bytes f \<subseteq> node_memory topo B (affinity f) \<Longrightarrow> node_bytes ann a \<subseteq> node_memory topo B a"
  by (auto simp: node_bytes_def)

lemma gm_piece_node:
  assumes "X \<in> set (gm_pieces gm)" and "length (gm_emem gm) = n" and "length (gm_node_caches gm) = n"
  obtains a where "a < n" "X \<subseteq> gm_node gm a"
proof -
  consider a where "a < n" "X = cache_bytes (gm_emem gm ! a)" | a where "a < n" "X = ncache_home (fst (gm_node_caches gm ! a))"
    | a where "a < n" "X = cache_bytes (snd (gm_node_caches gm ! a))"
    using assms unfolding gm_pieces_def by (auto simp: in_set_conv_nth)
  then show ?thesis by cases (rule that, assumption, simp add: gm_node_def le_supI1 le_supI2)+
qed


text \<open>Two nodes of 64 MiB each, as ranges.\<close>

definition range_topology :: "(nat \<times> nat) Topology" where
  "range_topology = \<lparr>topo_nodes = [(0, [(0, 0x4000000)]), (1, [(0x4000000, 0x8000000)])], is_hotplug_region = (\<lambda>r. False),
     region_contains = (\<lambda>r lo hi. let a = max lo (fst r); b = min hi (snd r) in if a < b then (a, b) else (0, 0))\<rparr>"

lemma range_topology_ok: "topo_ok range_topology (\<lambda>r. {fst r ..< snd r})"
  by (auto simp: topo_ok_def region_ok_def range_topology_def Let_def)

definition descriptor :: "nat \<Rightarrow> nat \<Rightarrow> MemoryDescriptor" where
  "descriptor b n = \<lparr>md_conventional = True, phys_start = b, page_count = n\<rparr>"

abbreviation node_frame :: "nat \<Rightarrow> nat \<Rightarrow> nat \<Rightarrow> Frame" where
  "node_frame b sz n \<equiv> \<lparr>fbase = b, fsize = sz, affinity = n\<rparr>"

lemma sample_early:
  "\<exists>em. early_memory [descriptor 0x100000 0x7f00] None [] = Ok (Some em, [node_frame 0x2100000 0x5f00000 0])"
proof -
  have "frame_ok (node_frame 0x100000 0x2000000 0)" by (simp add: frame_ok_def)
  then obtain c where "MCache_new_with_frame 2048 12 0 (node_frame 0x100000 0x2000000 0) = Ok c" by (rule new_with_frame_ok)
  then show ?thesis by (simp add: descriptor_def Frame_new_def split_at_def push_region_def Frame_empty_def)
qed

lemma sample_identify:
  "identify_numa_affinity range_topology [node_frame 0x2100000 0x5f00000 0]
     = Ok [node_frame 0x2100000 0x1f00000 0, node_frame 0x4000000 0x4000000 1]"
  by (simp add: identify_numa_affinity_def range_topology_def fend_def Frame_from_range_def push_region_def Let_def)


text \<open>
  The frames are in the order of the memory map, and for volatile memory they are not sorted before
  the global memory is built, which panics if they are out of order.  A map with two ranges where
  the second belongs to the lower node is enough.
\<close>
lemma unsorted_memory_map_panics:
  "boot_memory range_topology [descriptor 0x4000000 0x4000, descriptor 0x100000 0x3f00] = Panic"
proof -
  have "frame_ok (node_frame 0x4000000 0x2000000 0)" by (simp add: frame_ok_def)
  then obtain c where "MCache_new_with_frame 2048 12 0 (node_frame 0x4000000 0x2000000 0) = Ok c" by (rule new_with_frame_ok)
  then have "early_memory [descriptor 0x4000000 0x4000, descriptor 0x100000 0x3f00] None []
      = Ok (Some c, [node_frame 0x6000000 0x2000000 0, node_frame 0x100000 0x3f00000 0])"
    by (simp add: descriptor_def Frame_new_def split_at_def push_region_def Frame_empty_def)
  moreover have "identify_numa_affinity range_topology [node_frame 0x6000000 0x2000000 0, node_frame 0x100000 0x3f00000 0]
      = Ok [node_frame 0x6000000 0x2000000 1, node_frame 0x100000 0x3f00000 0]"
    by (simp add: identify_numa_affinity_def range_topology_def fend_def Frame_from_range_def push_region_def Let_def)
  ultimately show ?thesis by (simp add: boot_memory_def GlobalMemory_new_def)
qed

end
