(* ===== verification/EMem.thy ===== *)
theory EMem
  imports KernelMem
begin

text \<open>
  The allocator that serves the kernel while it panics (\<open>memory/emem.rs\<close>).  It cuts allocations off
  the front of one region and never takes memory back.  \<open>pm\<close> is the content of the memory behind
  the kernel's window, by the address that is added to \<open>KERNEL_BASE\<close>.
\<close>

section \<open>The allocator\<close>

record EmergencyAllocator =
  em_index :: nat
  em_region :: Frame

definition EmergencyAllocator_empty :: EmergencyAllocator where
  "EmergencyAllocator_empty = \<lparr>em_index = 0, em_region = Frame_empty\<rparr>"

definition EmergencyAllocator_new :: "Frame \<Rightarrow> EmergencyAllocator kres" where
  "EmergencyAllocator_new region =
     (if \<not> 0 < fbase region \<or> fsize region mod BASE_PAGE_SIZE \<noteq> 0 then Panic
      else Ok \<lparr>em_index = 0, em_region = region\<rparr>)"

definition allocate_layout ::
  "EmergencyAllocator \<Rightarrow> (nat \<Rightarrow> u8) \<Rightarrow> Layout \<Rightarrow> EmergencyAllocator \<times> (nat \<Rightarrow> u8) \<times> Frame kres" where
  "allocate_layout em pm l =
     (if BASE_PAGE_SIZE < l_align l then (em, pm, Panic)
      else let sz = round_up (l_size l) BASE_PAGE_SIZE in
        if sz \<le> fsize (em_region em) then
          (case split_at (em_region em) sz of
             Ok (low, high) \<Rightarrow>
               (em\<lparr>em_region := high\<rparr>, frame_zero pm low,
                if fbase low mod l_align l \<noteq> 0 \<or> fbase low mod BASE_PAGE_SIZE \<noteq> 0 \<or> fsize low < l_size l
                then Panic else Ok low)
           | _ \<Rightarrow> (em, pm, Panic))
        else (em, pm, Err CacheExhausted))"

text \<open>The slab interface: the error of \<open>allocate\<close> is \<open>OutOfMemory\<close>, and a refill replaces the region.\<close>

definition em_allocate ::
  "EmergencyAllocator \<Rightarrow> (nat \<Rightarrow> u8) \<Rightarrow> Layout \<Rightarrow> EmergencyAllocator \<times> (nat \<Rightarrow> u8) \<times> (LibraryError, nat) result" where
  "em_allocate em pm l = (case allocate_layout em pm l of
       (em, pm, Ok f) \<Rightarrow> (em, pm, Ok (kernel_vaddr f))
     | (em, pm, Err _) \<Rightarrow> (em, pm, Err SlabOutOfMemory)
     | (em, pm, Panic) \<Rightarrow> (em, pm, Panic))"

definition em_deallocate :: "EmergencyAllocator \<Rightarrow> nat \<Rightarrow> Layout \<Rightarrow> EmergencyAllocator \<times> (LibraryError, unit) result" where
  "em_deallocate em ptr l = (em, Ok ())"

definition em_refill :: "EmergencyAllocator \<Rightarrow> Layout \<Rightarrow> nat \<Rightarrow> EmergencyAllocator \<times> (LibraryError, unit) result" where
  "em_refill em l new_page = (case Frame_new new_page BASE_PAGE_SIZE 0 :: Frame kres of
       Ok f \<Rightarrow> (em\<lparr>em_region := f, em_index := 0\<rparr>, Ok ())
     | _ \<Rightarrow> (em, Panic))"

definition em_refill_large :: "EmergencyAllocator \<Rightarrow> Layout \<Rightarrow> nat \<Rightarrow> EmergencyAllocator \<times> (LibraryError, unit) result" where
  "em_refill_large em l new_page = (case Frame_new new_page LARGE_PAGE_SIZE 0 :: Frame kres of
       Ok f \<Rightarrow> (em\<lparr>em_region := f, em_index := 0\<rparr>, Ok ())
     | _ \<Rightarrow> (em, Panic))"

text \<open>The page provider; the operations that are left out of it panic.\<close>

definition em_allocate_base_page :: "EmergencyAllocator \<Rightarrow> (nat \<Rightarrow> u8) \<Rightarrow> EmergencyAllocator \<times> (nat \<Rightarrow> u8) \<times> Frame kres" where
  "em_allocate_base_page em pm = allocate_layout em pm \<lparr>l_size = BASE_PAGE_SIZE, l_align = BASE_PAGE_SIZE\<rparr>"

definition em_release_base_page :: "EmergencyAllocator \<Rightarrow> Frame \<Rightarrow> EmergencyAllocator \<times> unit kres" where
  "em_release_base_page em f = (em, Panic)"

definition em_allocate_large_page :: "EmergencyAllocator \<Rightarrow> EmergencyAllocator \<times> Frame kres" where
  "em_allocate_large_page em = (em, Panic)"

definition em_release_large_page :: "EmergencyAllocator \<Rightarrow> Frame \<Rightarrow> EmergencyAllocator \<times> unit kres" where
  "em_release_large_page em f = (em, Panic)"

section \<open>Allocations are zeroed and apart\<close>

definition layout_ok :: "Layout \<Rightarrow> bool" where
  "layout_ok l \<longleftrightarrow> 0 < l_size l \<and> 0 < l_align l \<and> BASE_PAGE_SIZE mod l_align l = 0"

text \<open>The bytes of a region that are still to be handed out shrink by what an allocation covers.\<close>

lemma frame_zero_bytes:
  assumes "frame_ok f"
  shows "frame_zero pm f a = (if a \<in> frame_bytes f then 0 else pm a)"
proof -
  have "4 dvd fsize f" using assms dvd_trans [of 4 BASE_PAGE_SIZE "fsize f"] by (simp add: frame_ok_def dvd_eq_mod_eq_0)
  then have d: "fsize f mod 4 = 0" "fsize f div 4 * 4 = fsize f" by auto
  have "n mod 4 = 0 \<or> n mod 4 = 1 \<or> n mod 4 = 2 \<or> n mod 4 = 3" for n :: nat by presburger
  then have "[0, 0, 0, 0::u8] ! (n mod 4) = 0" for n :: nat
    by (metis One_nat_def nth_Cons_0 nth_Cons_Suc numeral_2_eq_2 numeral_3_eq_3)
  then show ?thesis using d by (auto simp: frame_zero_def frame_fill_def as_mut_slice_def frame_bytes_def)
qed

lemma allocate_layout_ok:
  assumes "frame_ok (em_region em)" and "layout_ok l"
  obtains (ok) low em' where "allocate_layout em pm l = (em', frame_zero pm low, Ok low)"
      "frame_ok low" "frame_ok (em_region em')" "l_size l \<le> fsize low" "fbase low mod l_align l = 0" "fbase low = fbase (em_region em)"
      "frame_bytes low \<inter> frame_bytes (em_region em') = {}" "frame_bytes low \<union> frame_bytes (em_region em') = frame_bytes (em_region em)"
  | (full) "fsize (em_region em) < l_size l" "allocate_layout em pm l = (em, pm, Err CacheExhausted)"
proof -
  let ?sz = "round_up (l_size l) BASE_PAGE_SIZE"
  have al: "l_align l \<le> BASE_PAGE_SIZE" "l_align l dvd BASE_PAGE_SIZE"
    using assms(2) dvd_imp_le [of "l_align l" BASE_PAGE_SIZE] by (auto simp: layout_ok_def dvd_eq_mod_eq_0)
  have sz: "l_size l \<le> ?sz" "BASE_PAGE_SIZE dvd ?sz" by (simp_all add: page_arith)
  have m: "?sz mod BASE_PAGE_SIZE = 0" using sz(2) by (rule dvd_imp_mod_0)
  show ?thesis
  proof (cases "?sz \<le> fsize (em_region em)")
    case True
    obtain low high where s: "split_at (em_region em) ?sz = Ok (low, high)" "frame_ok low" "frame_ok high"
      "frame_bytes low \<union> frame_bytes high = frame_bytes (em_region em)" "frame_bytes low \<inter> frame_bytes high = {}"
      "fsize low = min ?sz (fsize (em_region em))" "fbase low = fbase (em_region em)"
      by (rule split_at_ok [OF assms(1) m], rule that)
    have "BASE_PAGE_SIZE dvd fbase low" using s(2) by (simp add: frame_ok_def dvd_eq_mod_eq_0)
    then have "fbase low mod l_align l = 0" "fbase low mod BASE_PAGE_SIZE = 0"
      using dvd_trans [OF al(2)] by (simp_all only: dvd_eq_mod_eq_0)
    moreover have "l_size l \<le> fsize low" using s(6) True sz(1) by simp
    ultimately show ?thesis
      using ok [of "em\<lparr>em_region := high\<rparr>" low] s True al(1) by (simp add: allocate_layout_def Let_def)
  next
    case False
    have "BASE_PAGE_SIZE dvd fsize (em_region em)" using assms(1) by (simp add: frame_ok_def dvd_eq_mod_eq_0)
    then have "BASE_PAGE_SIZE dvd ?sz - fsize (em_region em)" using sz(2) by (rule dvd_diff_nat [rotated])
    then have "BASE_PAGE_SIZE \<le> ?sz - fsize (em_region em)" using False by (intro dvd_imp_le) simp_all
    moreover have "?sz < l_size l + BASE_PAGE_SIZE" by (simp add: page_arith)
    ultimately have "fsize (em_region em) < l_size l" by linarith
    then show ?thesis using full False al(1) by (simp add: allocate_layout_def Let_def)
  qed
qed

end
