(* ===== verification/KernelAlloc.thy ===== *)
theory KernelAlloc
  imports EMem VSpaceSpec
begin

text \<open>
  The allocator behind the kernel's heap (\<open>KernelAllocator\<close> in \<open>memory/mod.rs\<close>).  Small blocks come
  from a slab allocator, blocks of up to 2 MiB are a large page, and bigger ones are mapped page by
  page into a part of the kernel's address space that only grows.  The slab allocator is the crate
  \<open>slabmalloc\<close>, a parameter here.  The operations run on one core, whose control block is installed.
\<close>

section \<open>Model\<close>

text \<open>The slab allocator: its size limits and its operations; an address 0 stands for a null pointer.\<close>

record 'z Slab =
  MAX_ALLOC_SIZE :: nat
  MAX_BASE_ALLOC_SIZE :: nat
  zone_allocate :: "'z \<Rightarrow> Layout \<Rightarrow> 'z \<times> (LibraryError, nat) result"
  zone_deallocate :: "'z \<Rightarrow> nat \<Rightarrow> Layout \<Rightarrow> 'z \<times> (LibraryError, unit) result"
  zone_refill :: "'z \<Rightarrow> Layout \<Rightarrow> nat \<Rightarrow> 'z \<times> (LibraryError, unit) result"
  zone_refill_large :: "'z \<Rightarrow> Layout \<Rightarrow> nat \<Rightarrow> 'z \<times> (LibraryError, unit) result"
  get_max_size :: "nat \<Rightarrow> nat option"

text \<open>
  What the allocator works on: the caches of the core and of the nodes, the slab allocator of the
  core, the emergency allocator, the next free address for big blocks, the page table of the
  kernel, and the bytes of kernel memory by virtual address.
\<close>

record 'z KernelHeap =
  kh_mem :: "Kcb \<times> MCache list"
  kh_zone :: 'z
  kh_ezone :: EmergencyAllocator
  big_objects_sbrk :: nat
  init_vspace :: PageTable
  kh_bytes :: "nat \<Rightarrow> u8"

abbreviation kh_kcb :: "'z KernelHeap \<Rightarrow> Kcb" where "kh_kcb s \<equiv> fst (kh_mem s)"

abbreviation put_cache :: "'z KernelHeap \<Rightarrow> MCache \<Rightarrow> 'z KernelHeap" where
  "put_cache s c \<equiv> s\<lparr>kh_mem := (put_mem_manager (kh_kcb s) c, snd (kh_mem s))\<rparr>"

definition from_slab :: "(LibraryError, 'a) result \<Rightarrow> 'a kres" where
  "from_slab r = (case r of Ok a \<Rightarrow> Ok a | Err e \<Rightarrow> Err (KError_from e) | Panic \<Rightarrow> Panic)"

text \<open>The memory behind the kernel's window, as the emergency allocator sees it.\<close>

definition window :: "(nat \<Rightarrow> u8) \<Rightarrow> nat \<Rightarrow> u8" where
  "window m a = m (KERNEL_BASE + a)"

definition put_window :: "(nat \<Rightarrow> u8) \<Rightarrow> (nat \<Rightarrow> u8) \<Rightarrow> nat \<Rightarrow> u8" where
  "put_window m pm v = (if KERNEL_BASE \<le> v then pm (v - KERNEL_BASE) else m v)"

definition try_alloc_zone :: "'z Slab \<Rightarrow> 'z KernelHeap \<Rightarrow> Layout \<Rightarrow> 'z KernelHeap \<times> nat kres" where
  "try_alloc_zone sl s l =
     (if in_panic_mode (kh_kcb s)
      then (case em_allocate (kh_ezone s) (window (kh_bytes s)) l of
              (em, pm, r) \<Rightarrow> (s\<lparr>kh_ezone := em, kh_bytes := put_window (kh_bytes s) pm\<rparr>, from_slab r))
      else (case zone_allocate sl (kh_zone s) l of (z, r) \<Rightarrow> (s\<lparr>kh_zone := z\<rparr>, from_slab r)))"

definition try_alloc_page :: "'z KernelHeap \<Rightarrow> 'z KernelHeap \<times> nat kres" where
  "try_alloc_page s = (case allocate_large_page (mem_manager (kh_kcb s)) of
     (c, r) \<Rightarrow> (put_cache s c, map_result kernel_vaddr r))"

text \<open>One of the two loops that map pages of a big block; \<open>step\<close> is the size of a page.\<close>

fun map_big_pages ::
  "(MCache \<Rightarrow> MCache \<times> Frame kres) \<Rightarrow> nat \<Rightarrow> nat \<Rightarrow> 'z KernelHeap \<Rightarrow> nat \<Rightarrow> 'z KernelHeap \<times> nat kres" where
  "map_big_pages take_page step 0 s start_at = (s, Ok start_at)"
| "map_big_pages take_page step (Suc n) s start_at = (case take_page (mem_manager (kh_kcb s)) of
       (c, Ok f) \<Rightarrow> (case map_generic (init_vspace s) start_at (fbase f) (fsize f) ReadWriteKernel True of
           (t, Ok _) \<Rightarrow> map_big_pages take_page step n ((put_cache s c)\<lparr>init_vspace := t\<rparr>) (start_at + step)
         | (t, _) \<Rightarrow> ((put_cache s c)\<lparr>init_vspace := t\<rparr>, Panic))
     | (c, _) \<Rightarrow> (put_cache s c, Panic))"

definition big_pages :: "nat \<Rightarrow> nat \<times> nat" where
  "big_pages sz = (case layout_to_pages sz of (base, large) \<Rightarrow> if base > 254 then (0, large + 1) else (base, large))"

definition try_alloc_big :: "'z KernelHeap \<Rightarrow> Layout \<Rightarrow> 'z KernelHeap \<times> nat kres" where
  "try_alloc_big s l = (case big_pages (l_size l) of (base, large) \<Rightarrow>
     (case maybe_refill_tcache (kh_mem s) (base + 20) large of
        (m, Ok _) \<Rightarrow>
          let start_at = big_objects_sbrk s;
              s = s\<lparr>kh_mem := m, big_objects_sbrk := (start_at + (large + 1) * LARGE_PAGE_SIZE) mod 2 ^ 64\<rparr> in
          and_then (map_big_pages allocate_large_page LARGE_PAGE_SIZE large s start_at) (\<lambda>s at.
          and_then (map_big_pages allocate_base_page BASE_PAGE_SIZE base s at) (\<lambda>s _. (s, Ok start_at)))
      | (m, Err e) \<Rightarrow> (s\<lparr>kh_mem := m\<rparr>, Err e)
      | (m, Panic) \<Rightarrow> (s\<lparr>kh_mem := m\<rparr>, Panic)))"

definition try_alloc :: "'z Slab \<Rightarrow> 'z KernelHeap \<Rightarrow> Layout \<Rightarrow> 'z KernelHeap \<times> nat kres" where
  "try_alloc sl s l = (case allocator_for (MAX_ALLOC_SIZE sl) (l_size l) of
       Zone \<Rightarrow> try_alloc_zone sl s l
     | MemManager \<Rightarrow> try_alloc_page s
     | MapBig \<Rightarrow> try_alloc_big s l)"

text \<open>Refilling the slab allocator of the core, or the emergency allocator, with a page of the core's cache.\<close>

definition refill_zone_with ::
  "'z Slab \<Rightarrow> 'z KernelHeap \<Rightarrow> Layout \<Rightarrow> bool \<Rightarrow> Frame \<Rightarrow> 'z KernelHeap \<times> unit kres" where
  "refill_zone_with sl s l small f =
     (if in_panic_mode (kh_kcb s)
      then (case (if small then em_refill else em_refill_large) (kh_ezone s) l (kernel_vaddr f) of
              (em, r) \<Rightarrow> (s\<lparr>kh_ezone := em\<rparr>, if r = Ok () then Ok () else Panic))
      else (case (if small then zone_refill sl else zone_refill_large sl) (kh_zone s) l (kernel_vaddr f) of
              (z, r) \<Rightarrow> (s\<lparr>kh_zone := z\<rparr>, if r = Ok () then Ok () else Panic)))"

definition try_refill_zone :: "'z Slab \<Rightarrow> 'z KernelHeap \<Rightarrow> Layout \<Rightarrow> 'z KernelHeap \<times> unit kres" where
  "try_refill_zone sl s l =
     (let small = (l_size l \<le> MAX_BASE_ALLOC_SIZE sl) in
      case (if small then allocate_base_page else allocate_large_page) (mem_manager (kh_kcb s)) of
        (c, Ok f) \<Rightarrow> refill_zone_with sl (put_cache s c) l small f
      | (c, Err e) \<Rightarrow> (put_cache s c, Err e)
      | (c, Panic) \<Rightarrow> (put_cache s c, Panic))"

definition on_mem :: "'z KernelHeap \<Rightarrow> (Kcb \<times> MCache list) \<times> unit kres \<Rightarrow> 'z KernelHeap \<times> unit kres" where
  "on_mem s x = (s\<lparr>kh_mem := fst x\<rparr>, snd x)"

definition try_refill :: "'z Slab \<Rightarrow> 'z KernelHeap \<Rightarrow> Layout \<Rightarrow> KError \<Rightarrow> 'z KernelHeap \<times> unit kres" where
  "try_refill sl s l e =
     (case refill_amount (MAX_ALLOC_SIZE sl) (MAX_BASE_ALLOC_SIZE sl) (l_size l) of (bp, lp) \<Rightarrow>
      if allocator_for (MAX_ALLOC_SIZE sl) (l_size l) = Zone
      then (if e = CacheExhausted
            then and_then (on_mem s (maybe_refill_tcache (kh_mem s) bp lp)) (\<lambda>s _. try_refill_zone sl s l)
            else (s, Panic))
      else on_mem s (try_refill_tcache (kh_mem s) bp lp MemDram))"

text \<open>\<open>alloc\<close>: at most three tries; 0 is the null pointer.\<close>

fun alloc_tries :: "'z Slab \<Rightarrow> nat \<Rightarrow> 'z KernelHeap \<Rightarrow> Layout \<Rightarrow> 'z KernelHeap \<times> nat kres" where
  "alloc_tries sl 0 s l = (s, Ok 0)"
| "alloc_tries sl (Suc n) s l = (case try_alloc sl s l of
       (s, Ok p) \<Rightarrow> (s, Ok p)
     | (s, Panic) \<Rightarrow> (s, Panic)
     | (s, Err e) \<Rightarrow>
         if e = KcbUnavailable \<or> e = ManagerAlreadyBorrowed then (s, Panic)
         else (case try_refill sl s l e of
             (s, Ok _) \<Rightarrow> alloc_tries sl n s l
           | (s, Err _) \<Rightarrow> (s, Ok 0)
           | (s, Panic) \<Rightarrow> (s, Panic)))"

definition kernel_alloc :: "'z Slab \<Rightarrow> 'z KernelHeap \<Rightarrow> Layout \<Rightarrow> 'z KernelHeap \<times> nat kres" where
  "kernel_alloc sl s l = alloc_tries sl 3 s l"

definition kernel_dealloc :: "'z Slab \<Rightarrow> 'z KernelHeap \<Rightarrow> nat \<Rightarrow> Layout \<Rightarrow> 'z KernelHeap \<times> unit kres" where
  "kernel_dealloc sl s ptr l =
     (if l_size l \<le> MAX_ALLOC_SIZE sl then
        (if ptr = 0 then (s, Ok ())
         else if in_panic_mode (kh_kcb s)
         then (case em_deallocate (kh_ezone s) ptr l of (em, r) \<Rightarrow> (s\<lparr>kh_ezone := em\<rparr>, if r = Ok () then Ok () else Panic))
         else (case zone_deallocate sl (kh_zone s) ptr l of (z, r) \<Rightarrow> (s\<lparr>kh_zone := z\<rparr>, if r = Ok () then Ok () else Panic)))
      else if l_size l \<le> LARGE_PAGE_SIZE then
        (case kernel_vaddr_to_paddr ptr of
           Ok paddr \<Rightarrow> on_mem s (dealloc_pages (kh_mem s) paddr (l_size l) (l_align l))
         | _ \<Rightarrow> (s, Panic))
      else (s, Ok ()))"

text \<open>\<open>ptr::copy_nonoverlapping\<close>.\<close>

definition copy_bytes :: "(nat \<Rightarrow> u8) \<Rightarrow> nat \<Rightarrow> nat \<Rightarrow> nat \<Rightarrow> nat \<Rightarrow> u8" where
  "copy_bytes m src dst n v = (if dst \<le> v \<and> v < dst + n then m (src + (v - dst)) else m v)"

definition kernel_realloc :: "'z Slab \<Rightarrow> 'z KernelHeap \<Rightarrow> nat \<Rightarrow> Layout \<Rightarrow> nat \<Rightarrow> 'z KernelHeap \<times> nat kres" where
  "kernel_realloc sl s ptr l new_size =
     (if \<not> in_panic_mode (kh_kcb s) \<and> l_size l \<le> MAX_ALLOC_SIZE sl \<and> l_size l \<noteq> BASE_PAGE_SIZE
        \<and> new_size \<le> (case get_max_size sl (l_size l) of Some n \<Rightarrow> n | None \<Rightarrow> 0)
      then (s, Ok ptr)
      else and_then (kernel_alloc sl s \<lparr>l_size = new_size, l_align = l_align l\<rparr>) (\<lambda>s new_ptr.
        if new_ptr = 0 then (s, Ok 0)
        else and_then (kernel_dealloc sl
            (s\<lparr>kh_bytes := copy_bytes (kh_bytes s) ptr new_ptr (min (l_size l) new_size)\<rparr>) ptr l)
          (\<lambda>s _. (s, Ok new_ptr))))"

section \<open>Blocks of up to 2 MiB\<close>

lemma put_same [simp]: "put_mem_manager k (mem_manager k) = k"
  by (auto simp: put_mem_manager_def mem_manager_def split: option.splits)

lemma memory_types [simp]:
  "manager_of k MemDram = mem_manager k" "arena_of k MemDram = physical_memory k" "put_manager k MemDram c = put_mem_manager k c"
  by (simp_all add: manager_of_def arena_of_def put_manager_def)

text \<open>The bytes of a block, by physical address.\<close>

abbreviation block_bytes :: "nat \<Rightarrow> nat set" where
  "block_bytes p \<equiv> page_bytes (p - KERNEL_BASE, LARGE_PAGE_SIZE)"

abbreviation kernel_free :: "'z KernelHeap \<Rightarrow> nat set" where
  "kernel_free s \<equiv> free_memory MemDram (kh_mem s)"

lemma try_alloc_page_ok:
  assumes "memory_ok MemDram (kh_mem s)"
  obtains (ok) s' p where "try_alloc_page s = (s', Ok p)" "memory_ok MemDram (kh_mem s')" "KERNEL_BASE \<le> p"
      "(p - KERNEL_BASE) mod LARGE_PAGE_SIZE = 0" "block_bytes p \<subseteq> kernel_free s" "block_bytes p \<inter> kernel_free s' = {}"
      "kernel_free s' \<subseteq> kernel_free s" "large_page_addresses (mem_manager (kh_kcb s)) \<noteq> []"
  | (none) "try_alloc_page s = (s, Err CacheExhausted)" "large_page_addresses (mem_manager (kh_kcb s)) = []"
proof (cases "large_page_addresses (mem_manager (kh_kcb s))" rule: rev_cases)
  case Nil
  then have "try_alloc_page s = (s, Err CacheExhausted)" by (simp add: try_alloc_page_def allocate_large_page_def)
  then show ?thesis using none Nil by blast
next
  case (snoc as a)
  let ?c = "mem_manager (kh_kcb s)"
  have m: "memory_ok MemDram (kh_kcb s, snd (kh_mem s))" using assms by simp
  then have inv: "mcache_inv ?c" by (simp add: memory_ok_def)
  define c' f where "c' = ?c\<lparr>large_page_addresses := as\<rparr>" and "f = \<lparr>fbase = a, fsize = LARGE_PAGE_SIZE, affinity = node ?c\<rparr>"
  have al: "allocate_large_page ?c = (c', Ok f)" using allocate_large_page_some(1) [OF inv snoc] by (simp add: c'_def f_def)
  have fb: "frame_bytes f = block_bytes (kernel_vaddr f)" "KERNEL_BASE \<le> kernel_vaddr f" "kernel_vaddr f - KERNEL_BASE = a"
    by (simp_all add: frame_bytes_def page_bytes_def kernel_vaddr_def paddr_to_kernel_vaddr_def f_def)
  have t: "memory_ok MemDram (put_mem_manager (kh_kcb s) c', snd (kh_mem s))" "frame_bytes f \<subseteq> kernel_free s"
    "frame_bytes f \<inter> free_memory MemDram (put_mem_manager (kh_kcb s) c', snd (kh_mem s)) = {}"
    "free_memory MemDram (put_mem_manager (kh_kcb s) c', snd (kh_mem s)) \<subseteq> kernel_free s"
    using take_free_memory [OF m, of allocate_large_page c' f] al by simp_all
  have "a mod LARGE_PAGE_SIZE = 0" using page_shape(2) [OF inv al] by (simp add: f_def)
  moreover have "try_alloc_page s = (put_cache s c', Ok (kernel_vaddr f))" using al by (simp add: try_alloc_page_def)
  ultimately show ?thesis using ok [of "put_cache s c'" "kernel_vaddr f"] t fb snoc by simp
qed

lemma refill_one_large:
  assumes "pair_ok nc tc" and "large_page_addresses tc = []" and "0 < lp_cap tc"
  shows "large_page_addresses nc = [] \<Longrightarrow> refill_caches 0 1 (nc, tc) = ((nc, tc), Err CacheExhausted)"
    and "large_page_addresses nc \<noteq> [] \<Longrightarrow> \<exists>nc' tc'. refill_caches 0 1 (nc, tc) = ((nc', tc'), Ok ()) \<and> large_page_addresses tc' \<noteq> []"
proof -
  have sp: "min (spare_large_page_capacity tc) 1 = 1" using assms(2,3) by (simp add: spare_large_page_capacity_def)
  then have e: "refill_caches 0 1 (nc, tc) = move_large_pages (Suc 0) (nc, tc)" by (simp add: refill_caches_def)
  show "refill_caches 0 1 (nc, tc) = ((nc, tc), Err CacheExhausted)" if "large_page_addresses nc = []"
    using that unfolding e by (simp add: allocate_large_page_def)
  show "\<exists>nc' tc'. refill_caches 0 1 (nc, tc) = ((nc', tc'), Ok ()) \<and> large_page_addresses tc' \<noteq> []"
    if ne: "large_page_addresses nc \<noteq> []"
  proof -
    obtain as a where as: "large_page_addresses nc = as @ [a]" using ne by (metis rev_exhaust)
    have "0 < spare_large_page_capacity tc" using sp by linarith
    note one = move_one_large(1,2) [OF assms(1) as this refl refl]
    have "refill_caches 0 1 (nc, tc) = ((nc\<lparr>large_page_addresses := as\<rparr>,
        tc\<lparr>large_page_addresses := large_page_addresses tc @ [a]\<rparr>), Ok ())"
      unfolding e using one by (simp del: grow_large_pages.simps)
    then show ?thesis by (intro exI conjI) (assumption, simp)
  qed
qed

text \<open>A refill for one large page, when the core has none.\<close>

lemma refill_page_cases:
  assumes "memory_ok MemDram m" and "large_page_addresses (mem_manager (fst m)) = []" and "0 < lp_cap (mem_manager (fst m))"
  obtains (alone) "\<not> gmanager (physical_memory (fst m))" "try_refill_tcache m 0 1 MemDram = (m, Ok ())"
  | (dry) "gmanager (physical_memory (fst m))" "large_page_addresses (node_cache MemDram m) = []"
      "try_refill_tcache m 0 1 MemDram = (m, Err CacheExhausted)"
  | (got) m' where "gmanager (physical_memory (fst m))" "large_page_addresses (node_cache MemDram m) \<noteq> []"
      "try_refill_tcache m 0 1 MemDram = (m', Ok ())" "memory_ok MemDram m'" "free_memory MemDram m' = free_memory MemDram m"
      "large_page_addresses (mem_manager (fst m')) \<noteq> []"
proof (cases "gmanager (physical_memory (fst m))")
  case False
  then show ?thesis using alone by (cases m) (simp add: try_refill_tcache_def)
next
  case True
  obtain k ncs where m: "m = (k, ncs)" by (cases m)
  let ?a = "arena_affinity (physical_memory k)"
  have a: "?a < length ncs" "pair_ok (ncs ! ?a) (mem_manager k)" using assms(1) True m by (simp_all add: memory_ok_def node_cache_def)
  have e: "try_refill_tcache m 0 1 MemDram = (case refill_caches 0 1 (ncs ! ?a, mem_manager k) of
      ((nc, tc), r) \<Rightarrow> ((put_mem_manager k tc, ncs[?a := nc]), r))"
    using True a(1) m by (simp add: try_refill_tcache_def Let_def)
  note one = refill_one_large [OF a(2)]
  show ?thesis
  proof (cases "large_page_addresses (ncs ! ?a) = []")
    case dry': True
    then show ?thesis using dry True one(1) assms(2,3) e m by (simp add: node_cache_def)
  next
    case False
    then obtain nc tc where "refill_caches 0 1 (ncs ! ?a, mem_manager k) = ((nc, tc), Ok ())" "large_page_addresses tc \<noteq> []"
      using one(2) assms(2,3) m by auto
    then have r: "try_refill_tcache m 0 1 MemDram = ((put_mem_manager k tc, ncs[?a := nc]), Ok ())"
      "large_page_addresses (mem_manager (put_mem_manager k tc)) \<noteq> []" using e by simp_all
    show ?thesis using got [OF True _ r(1)] refill_free_memory(1,2) [OF assms(1) _ r(1)] r(2) False m by (simp add: node_cache_def)
  qed
qed

lemma page_sized:
  assumes "BASE_PAGE_SIZE \<le> MAX_ALLOC_SIZE sl" and "MAX_ALLOC_SIZE sl < l_size l" and "l_size l \<le> LARGE_PAGE_SIZE"
  shows "try_alloc sl s l = try_alloc_page s" and "try_refill sl s l e = on_mem s (try_refill_tcache (kh_mem s) 0 1 MemDram)"
  using assms by (simp_all add: try_alloc_def try_refill_def allocator_for_def refill_amount_def)

text \<open>
  C15. A request that is too big for the slab allocator and not bigger than 2 MiB gets a large page
  that was free and is not free any more, and the caches stay consistent.  It gets null only if
  there is no free large page, neither in the cache of the core nor in the node cache it can
  refill from; then nothing has changed.
\<close>
theorem page_sized_alloc:
  assumes "memory_ok MemDram (kh_mem s)" and "0 < lp_cap (mem_manager (kh_kcb s))"
    and "BASE_PAGE_SIZE \<le> MAX_ALLOC_SIZE sl" and "MAX_ALLOC_SIZE sl < l_size l" and "l_size l \<le> LARGE_PAGE_SIZE"
  shows "\<exists>s' p. kernel_alloc sl s l = (s', Ok p) \<and> memory_ok MemDram (kh_mem s')
     \<and> (if large_page_addresses (mem_manager (kh_kcb s)) = []
          \<and> (gmanager (physical_memory (kh_kcb s)) \<longrightarrow> large_page_addresses (node_cache MemDram (kh_mem s)) = [])
        then p = 0 \<and> s' = s
        else KERNEL_BASE \<le> p \<and> (p - KERNEL_BASE) mod LARGE_PAGE_SIZE = 0
          \<and> block_bytes p \<subseteq> kernel_free s \<and> block_bytes p \<inter> kernel_free s' = {} \<and> kernel_free s' \<subseteq> kernel_free s)"
proof -
  note page = page_sized [OF assms(3-5)]
  have three: "kernel_alloc sl s l = alloc_tries sl (Suc (Suc (Suc 0))) s l" by (simp add: kernel_alloc_def numeral_3_eq_3)
  show ?thesis
  proof (cases rule: try_alloc_page_ok [OF assms(1), case_names ok none])
    case (ok s' p)
    then have "kernel_alloc sl s l = (s', Ok p)" unfolding three by (simp add: page(1))
    then show ?thesis using ok by auto
  next
    case none
    show ?thesis
    proof (cases rule: refill_page_cases [OF assms(1) none(2) assms(2), case_names alone dry got])
      case alone
      then have "kernel_alloc sl s l = (s, Ok 0)" unfolding three using none(1) by (simp add: page on_mem_def)
      then show ?thesis using alone none assms(1) by auto
    next
      case dry
      then have "kernel_alloc sl s l = (s, Ok 0)" unfolding three using none(1) by (simp add: page on_mem_def)
      then show ?thesis using dry none assms(1) by auto
    next
      case (got m')
      let ?s = "s\<lparr>kh_mem := m'\<rparr>"
      have ok: "memory_ok MemDram (kh_mem ?s)" "large_page_addresses (mem_manager (kh_kcb ?s)) \<noteq> []" using got by simp_all
      obtain s' p where p: "try_alloc_page ?s = (s', Ok p)" "memory_ok MemDram (kh_mem s')" "KERNEL_BASE \<le> p"
        "(p - KERNEL_BASE) mod LARGE_PAGE_SIZE = 0" "block_bytes p \<subseteq> kernel_free ?s" "block_bytes p \<inter> kernel_free s' = {}"
        "kernel_free s' \<subseteq> kernel_free ?s"
        by (rule try_alloc_page_ok [OF ok(1)]) (use ok(2) in auto)
      have "kernel_alloc sl s l = (s', Ok p)" unfolding three using none(1) got(3) p(1) by (simp add: page on_mem_def)
      then show ?thesis using p(2-7) got(1,2,5) none by auto
    qed
  qed
qed

text \<open>A slab allocator that is always out of memory, and a core with an empty cache and a node cache with one large page.\<close>

definition dry_slab :: "unit Slab" where
  "dry_slab = \<lparr>MAX_ALLOC_SIZE = 131072, MAX_BASE_ALLOC_SIZE = 2048, zone_allocate = (\<lambda>z l. (z, Err SlabOutOfMemory)),
     zone_deallocate = (\<lambda>z p l. (z, Ok ())), zone_refill = (\<lambda>z l p. (z, Ok ())), zone_refill_large = (\<lambda>z l p. (z, Ok ())),
     get_max_size = (\<lambda>n. None)\<rparr>"

definition heap_with :: "Kcb \<Rightarrow> MCache \<Rightarrow> unit KernelHeap" where
  "heap_with k nc = \<lparr>kh_mem = (k, [nc]), kh_zone = (), kh_ezone = EmergencyAllocator_empty, big_objects_sbrk = LARGE_PAGE_SIZE,
     init_vspace = fresh_table, kh_bytes = (\<lambda>_. 0)\<rparr>"

lemma sample_memory_ok:
  assumes "pair_ok nc (TCache_new 0)"
  shows "memory_ok MemDram (sample_kcb, [nc])" and "mem_manager sample_kcb = TCache_new 0"
    and "gmanager (physical_memory sample_kcb)" and "node_cache MemDram (sample_kcb, [nc]) = nc"
  using assms sample_pair(1-3) by (simp_all add: memory_ok_def node_cache_def pair_ok_def)

theorem page_sized_alloc_witness:
  "\<exists>s' p. kernel_alloc dry_slab (heap_with sample_kcb ((NCache_new 0)\<lparr>large_page_addresses := [LARGE_PAGE_SIZE]\<rparr>))
       \<lparr>l_size = 1000000, l_align = 8\<rparr> = (s', Ok p) \<and> KERNEL_BASE \<le> p"
proof -
  let ?nc = "(NCache_new 0)\<lparr>large_page_addresses := [LARGE_PAGE_SIZE]\<rparr>"
  have "pair_ok ?nc (TCache_new 0)" by (simp add: pair_ok_def MCache_new_def mcache_inv_def cache_pages_def page_bytes_def)
  note m = sample_memory_ok [OF this]
  show ?thesis
    using page_sized_alloc [of "heap_with sample_kcb ?nc" dry_slab "\<lparr>l_size = 1000000, l_align = 8\<rparr>"] m
    by (auto simp: heap_with_def dry_slab_def MCache_new_def)
qed

section \<open>Small blocks while the kernel panics\<close>

lemma put_window_same [simp]: "put_window m (window m) = m"
  by (auto simp: put_window_def window_def)

lemma emergency_refill:
  assumes "in_panic_mode (kh_kcb s)" and "mcache_inv (emanager (kh_kcb s))"
    and "base_page_addresses (emanager (kh_kcb s)) = as @ [a]" and "l_size l \<le> MAX_BASE_ALLOC_SIZE sl"
    and "MAX_BASE_ALLOC_SIZE sl \<le> MAX_ALLOC_SIZE sl"
  shows "try_refill sl s l CacheExhausted = ((put_cache s ((emanager (kh_kcb s))\<lparr>base_page_addresses := as\<rparr>))
    \<lparr>kh_ezone := \<lparr>em_index = 0, em_region = \<lparr>fbase = KERNEL_BASE + a, fsize = BASE_PAGE_SIZE, affinity = 0\<rparr>\<rparr>\<rparr>, Ok ())"
proof -
  let ?k = "kh_kcb s"
  let ?c = "(emanager ?k)\<lparr>base_page_addresses := as\<rparr>"
  have mm: "mem_manager ?k = emanager ?k" using assms(1) by (simp add: mem_manager_def)
  have al: "allocate_base_page (emanager ?k) = (?c, Ok \<lparr>fbase = a, fsize = BASE_PAGE_SIZE, affinity = node (emanager ?k)\<rparr>)"
    by (rule allocate_base_page_some(1) [OF assms(2,3)])
  have "a mod BASE_PAGE_SIZE = 0" using assms(2,3) by (simp add: mcache_inv_def)
  then have am: "(KERNEL_BASE + a) mod BASE_PAGE_SIZE = 0" by (intro mod_add_zero) simp_all
  have pm: "in_panic_mode (put_mem_manager ?k ?c)" using assms(1) by (simp add: put_mem_manager_def)
  have rf: "maybe_refill_tcache (kh_mem s) 1 0 = (kh_mem s, Ok ())"
    using mm assms(3) by (simp add: maybe_refill_tcache_def free_base_pages_def)
  have zone: "allocator_for (MAX_ALLOC_SIZE sl) (l_size l) = Zone"
    and amount: "refill_amount (MAX_ALLOC_SIZE sl) (MAX_BASE_ALLOC_SIZE sl) (l_size l) = (1, 0)"
    using assms(4,5) by (simp_all add: allocator_for_def refill_amount_def)
  have "refill_zone_with sl (put_cache s ?c) l True \<lparr>fbase = a, fsize = BASE_PAGE_SIZE, affinity = node (emanager ?k)\<rparr>
      = ((put_cache s ?c)\<lparr>kh_ezone := \<lparr>em_index = 0, em_region = \<lparr>fbase = KERNEL_BASE + a, fsize = BASE_PAGE_SIZE, affinity = 0\<rparr>\<rparr>\<rparr>, Ok ())"
    using pm Frame_new_ok [OF am, of BASE_PAGE_SIZE 0]
    by (simp add: refill_zone_with_def em_refill_def kernel_vaddr_def paddr_to_kernel_vaddr_def)
  then have "try_refill_zone sl s l
      = ((put_cache s ?c)\<lparr>kh_ezone := \<lparr>em_index = 0, em_region = \<lparr>fbase = KERNEL_BASE + a, fsize = BASE_PAGE_SIZE, affinity = 0\<rparr>\<rparr>\<rparr>, Ok ())"
    using assms(4) al mm by (simp add: try_refill_zone_def Let_def)
  then show ?thesis unfolding try_refill_def zone amount using rf by (simp add: on_mem_def)
qed

text \<open>
  While the kernel panics, the first small block is not in the page that was taken for it: the
  emergency allocator records the kernel's virtual address of that page as a physical one, so the
  pointer it returns, and the memory it clears, are \<open>KERNEL_BASE\<close> above the page.
\<close>
lemma panic_block_outside_its_page:
  assumes "in_panic_mode (kh_kcb s)" and "mcache_inv (emanager (kh_kcb s))"
    and "base_page_addresses (emanager (kh_kcb s)) = as @ [a]" and "kh_ezone s = EmergencyAllocator_empty"
    and "layout_ok l" and "l_size l \<le> MAX_BASE_ALLOC_SIZE sl" and "MAX_BASE_ALLOC_SIZE sl \<le> BASE_PAGE_SIZE"
    and "MAX_BASE_ALLOC_SIZE sl \<le> MAX_ALLOC_SIZE sl"
  shows "\<exists>s' p. kernel_alloc sl s l = (s', Ok p) \<and> p = KERNEL_BASE + (KERNEL_BASE + a)
     \<and> base_page_addresses (emanager (kh_kcb s')) = as
     \<and> {p ..< p + l_size l} \<inter> {paddr_to_kernel_vaddr a ..< paddr_to_kernel_vaddr a + BASE_PAGE_SIZE} = {}
     \<and> (\<forall>v \<in> {p ..< p + l_size l}. kh_bytes s' v = 0)"
proof -
  let ?r = "\<lparr>fbase = KERNEL_BASE + a, fsize = BASE_PAGE_SIZE, affinity = 0\<rparr>"
  let ?c = "(emanager (kh_kcb s))\<lparr>base_page_addresses := as\<rparr>"
  define s1 where "s1 = (put_cache s ?c)\<lparr>kh_ezone := \<lparr>em_index = 0, em_region = ?r\<rparr>\<rparr>"
  have zone: "try_alloc sl t l = try_alloc_zone sl t l" for t using assms(6,8) by (simp add: try_alloc_def allocator_for_def)
  have "allocate_layout EmergencyAllocator_empty pm l = (EmergencyAllocator_empty, pm, Err CacheExhausted)" for pm
    by (rule allocate_layout_ok [of EmergencyAllocator_empty l pm])
      (use assms(5) in \<open>auto simp: EmergencyAllocator_empty_def Frame_empty_def layout_ok_def frame_ok_def frame_bytes_def\<close>)
  then have first: "try_alloc sl s l = (s, Err CacheExhausted)"
    using assms(1,4) by (simp add: zone try_alloc_zone_def em_allocate_def from_slab_def)
  have refill: "try_refill sl s l CacheExhausted = (s1, Ok ())"
    unfolding s1_def by (rule emergency_refill [OF assms(1-3,6,8)])
  have "a mod BASE_PAGE_SIZE = 0" using assms(2,3) by (simp add: mcache_inv_def)
  then have "(KERNEL_BASE + a) mod BASE_PAGE_SIZE = 0" by (intro mod_add_zero) simp_all
  then have fr: "frame_ok (em_region \<lparr>em_index = 0, em_region = ?r\<rparr>)" by (simp add: frame_ok_def)
  obtain low em where low: "allocate_layout \<lparr>em_index = 0, em_region = ?r\<rparr> (window (kh_bytes s)) l
      = (em, frame_zero (window (kh_bytes s)) low, Ok low)" "frame_ok low" "l_size l \<le> fsize low" "fbase low = KERNEL_BASE + a"
    by (rule allocate_layout_ok [OF fr assms(5)]) (use assms(6,7) in auto)
  have pm: "in_panic_mode (kh_kcb s1)" using assms(1) by (simp add: s1_def put_mem_manager_def)
  define s2 where "s2 = s1\<lparr>kh_ezone := em, kh_bytes := put_window (kh_bytes s) (frame_zero (window (kh_bytes s)) low)\<rparr>"
  have "kh_bytes s1 = kh_bytes s" "kh_ezone s1 = \<lparr>em_index = 0, em_region = ?r\<rparr>" by (simp_all add: s1_def)
  then have second: "try_alloc sl s1 l = (s2, Ok (KERNEL_BASE + (KERNEL_BASE + a)))"
    using pm low(1,4) by (simp add: zone try_alloc_zone_def em_allocate_def from_slab_def s2_def kernel_vaddr_def paddr_to_kernel_vaddr_def)
  have "kernel_alloc sl s l = (s2, Ok (KERNEL_BASE + (KERNEL_BASE + a)))"
    using first refill second by (simp add: kernel_alloc_def numeral_3_eq_3)
  moreover have "base_page_addresses (emanager (kh_kcb s2)) = as" using assms(1) by (simp add: s2_def s1_def put_mem_manager_def)
  moreover have "kh_bytes s2 v = 0" if "v \<in> {KERNEL_BASE + (KERNEL_BASE + a) ..< KERNEL_BASE + (KERNEL_BASE + a) + l_size l}" for v
  proof -
    have "v - KERNEL_BASE \<in> frame_bytes low" "KERNEL_BASE \<le> v" using that low(3,4) by (auto simp: frame_bytes_def)
    then show ?thesis using frame_zero_bytes [OF low(2)] by (simp add: s2_def put_window_def)
  qed
  ultimately show ?thesis by (simp add: paddr_to_kernel_vaddr_def)
qed

section \<open>Big blocks\<close>

text \<open>
  The mappings of \<open>t'\<close> are those of \<open>t\<close>, and the \<open>n\<close> bytes at \<open>v\<close> go to the physical addresses
  that \<open>P\<close> gives, each to its own.
\<close>

definition maps_block :: "PageTable \<Rightarrow> PageTable \<Rightarrow> nat \<Rightarrow> nat \<Rightarrow> (nat \<Rightarrow> nat) \<Rightarrow> bool" where
  "maps_block t t' v n P \<longleftrightarrow> inj_on P {v ..< v + n}
     \<and> (\<forall>w < VADDR_LIMIT. pt_resolve t' w = (if v \<le> w \<and> w < v + n then Ok (P w, ReadWriteKernel) else pt_resolve t w))"

definition free_above :: "PageTable \<Rightarrow> nat \<Rightarrow> bool" where
  "free_above t v \<longleftrightarrow> (\<forall>w. v \<le> w \<and> w < VADDR_LIMIT \<longrightarrow> pt_resolve t w = Err NotMapped)"

lemma apart_mono: "X \<subseteq> A \<Longrightarrow> Y \<subseteq> B \<Longrightarrow> A \<inter> B = {} \<Longrightarrow> X \<inter> Y = {}"
  by blast

lemma apart_Un: "X \<subseteq> A \<union> B \<Longrightarrow> A \<inter> F = {} \<Longrightarrow> B \<inter> F = {} \<Longrightarrow> X \<inter> F = {}"
  by blast

lemma maps_block_join:
  assumes "maps_block t t1 v a P" and "maps_block t1 t2 (v + a) b Q" and "P ` {v ..< v + a} \<inter> Q ` {v + a ..< v + a + b} = {}"
  shows "maps_block t t2 v (a + b) (\<lambda>w. if w < v + a then P w else Q w)"
proof -
  let ?R = "\<lambda>w. if w < v + a then P w else Q w"
  have set: "{v ..< v + (a + b)} = {v ..< v + a} \<union> {v + a ..< v + a + b}" by auto
  have "inj_on ?R {v ..< v + a} = inj_on P {v ..< v + a}" "inj_on ?R {v + a ..< v + a + b} = inj_on Q {v + a ..< v + a + b}"
    by (rule inj_on_cong, simp)+
  then have inj: "inj_on ?R {v ..< v + a}" "inj_on ?R {v + a ..< v + a + b}"
    using assms(1,2) unfolding maps_block_def by simp_all
  have img: "?R ` {v ..< v + a} \<subseteq> P ` {v ..< v + a}" "?R ` {v + a ..< v + a + b} \<subseteq> Q ` {v + a ..< v + a + b}"
    by (rule image_subsetI, simp)+
  have "?R ` ({v ..< v + a} - {v + a ..< v + a + b}) \<subseteq> P ` {v ..< v + a}"
    by (rule order_trans [OF image_mono [OF Diff_subset] img(1)])
  moreover have "?R ` ({v + a ..< v + a + b} - {v ..< v + a}) \<subseteq> Q ` {v + a ..< v + a + b}"
    by (rule order_trans [OF image_mono [OF Diff_subset] img(2)])
  ultimately have "?R ` ({v ..< v + a} - {v + a ..< v + a + b}) \<inter> ?R ` ({v + a ..< v + a + b} - {v ..< v + a}) = {}"
    using assms(3) by (rule apart_mono)
  then have "inj_on ?R {v ..< v + (a + b)}" unfolding set inj_on_Un using inj by (intro conjI)
  moreover have "pt_resolve t2 w = (if v \<le> w \<and> w < v + (a + b) then Ok (?R w, ReadWriteKernel) else pt_resolve t w)"
    if "w < VADDR_LIMIT" for w
    using assms(1,2) that unfolding maps_block_def by auto
  ultimately show ?thesis unfolding maps_block_def by blast
qed

lemma maps_block_free:
  assumes "maps_block t t' v n P" and "free_above t u" and "u \<le> v" and "v + n \<le> u'"
  shows "free_above t' u'"
  using assms unfolding maps_block_def free_above_def by auto

lemma map_block_page:
  assumes "pt_inv t" and "3 \<le> length (da t)" and "free_above t v" and "fsize f = step" and "fbase f mod step = 0"
    and "v mod step = 0" and "v + step \<le> VADDR_LIMIT" and "step = BASE_PAGE_SIZE \<or> step = LARGE_PAGE_SIZE"
  obtains t' where "map_generic t v (fbase f) (fsize f) ReadWriteKernel True = (t', Ok ())" "pt_inv t'"
    "length (da t) \<le> length (da t') + 3" "maps_block t t' v step (\<lambda>w. fbase f + (w - v))"
proof -
  let ?e = "(v, fbase f, step, ReadWriteKernel)"
  have ok: "entry_ok ?e" using assms(5-8) by (simp add: entry_ok_def granted_def)
  have un: "unmapped t v step"
    unfolding unmapped_def
  proof (intro allI impI)
    fix w assume "v \<le> w \<and> w < v + step"
    then have "pt_resolve t w = Err NotMapped" "w < VADDR_LIMIT" using assms(3,7) by (auto simp: free_above_def)
    then show "find_page t w = None" using resolve_find_page [OF assms(1)] by (auto split: option.splits)
  qed
  obtain t' where t': "map_generic t v (fbase f) step ReadWriteKernel True = (t', Ok ())" "pt_inv t'"
    "length (da t) \<le> length (da t') + 3" "\<And>w. find_page t' w = (if covers w ?e then Some (page_of ?e) else find_page t w)"
    by (rule map_one_page [OF assms(1) ok un assms(2)], rule that)
  have "pt_resolve t' w = (if v \<le> w \<and> w < v + step then Ok (fbase f + (w - v), ReadWriteKernel) else pt_resolve t w)"
    if "w < VADDR_LIMIT" for w
  proof (cases "covers w ?e")
    case True
    then have "w mod step = w - v" "entry_size (page_depth step) = step"
      using covers_page(1) [OF ok True] entry_okD(2) [OF ok] by simp_all
    then show ?thesis using resolve_find_page [OF t'(2) that] t'(4) [of w] True entry_okD(3,4) [OF ok]
      by (simp add: page_of_def covers_def granted_def)
  next
    case False
    then show ?thesis using resolve_find_page [OF t'(2) that] resolve_find_page [OF assms(1) that] t'(4) [of w]
      by (auto simp: covers_def)
  qed
  then have "maps_block t t' v step (\<lambda>w. fbase f + (w - v))" unfolding maps_block_def by (auto simp: inj_on_def)
  then show ?thesis using that t'(1-3) assms(4) by simp
qed

text \<open>The loop, for either size of page; the counter of the other size does not change.\<close>

definition took :: "'z KernelHeap \<Rightarrow> 'z KernelHeap \<Rightarrow> nat \<Rightarrow> nat \<Rightarrow> (nat \<Rightarrow> nat) \<Rightarrow> bool" where
  "took s s' v n P \<longleftrightarrow> memory_ok MemDram (kh_mem s') \<and> pt_inv (init_vspace s') \<and> big_objects_sbrk s' = big_objects_sbrk s
     \<and> maps_block (init_vspace s) (init_vspace s') v n P \<and> P ` {v ..< v + n} \<subseteq> kernel_free s
     \<and> P ` {v ..< v + n} \<inter> kernel_free s' = {} \<and> kernel_free s' \<subseteq> kernel_free s"

definition pages_left :: "nat \<Rightarrow> 'z KernelHeap \<Rightarrow> nat" where
  "pages_left step s = (if step = LARGE_PAGE_SIZE then free_large_pages (mem_manager (kh_kcb s)) else free_base_pages (mem_manager (kh_kcb s)))"

lemma took_join:
  assumes "took s s1 v a P" and "took s1 s2 (v + a) b Q"
  shows "took s s2 v (a + b) (\<lambda>w. if w < v + a then P w else Q w)"
proof -
  let ?R = "\<lambda>w. if w < v + a then P w else Q w"
  have img: "?R ` {v ..< v + (a + b)} \<subseteq> P ` {v ..< v + a} \<union> Q ` {v + a ..< v + a + b}"
    by (rule image_subsetI) auto
  have 1: "P ` {v ..< v + a} \<subseteq> kernel_free s" "P ` {v ..< v + a} \<inter> kernel_free s1 = {}" "kernel_free s1 \<subseteq> kernel_free s"
    "maps_block (init_vspace s) (init_vspace s1) v a P"
    and 2: "Q ` {v + a ..< v + a + b} \<subseteq> kernel_free s1" "Q ` {v + a ..< v + a + b} \<inter> kernel_free s2 = {}"
    "kernel_free s2 \<subseteq> kernel_free s1" "maps_block (init_vspace s1) (init_vspace s2) (v + a) b Q"
    using assms by (simp_all add: took_def)
  have "maps_block (init_vspace s) (init_vspace s2) v (a + b) ?R"
    by (rule maps_block_join [OF 1(4) 2(4) apart_mono [OF subset_refl 2(1) 1(2)]])
  moreover have "?R ` {v ..< v + (a + b)} \<subseteq> kernel_free s"
    by (rule order_trans [OF img Un_least [OF 1(1) order_trans [OF 2(1) 1(3)]]])
  moreover have "?R ` {v ..< v + (a + b)} \<inter> kernel_free s2 = {}"
    by (rule apart_Un [OF img apart_mono [OF subset_refl 2(3) 1(2)] 2(2)])
  ultimately show ?thesis using assms order_trans [OF 2(3) 1(3)] by (simp add: took_def)
qed

lemma take_page_cases:
  assumes "memory_ok MemDram (kh_mem s)" and "0 < pages_left step s"
    and "take_page = allocate_base_page \<and> step = BASE_PAGE_SIZE \<or> take_page = allocate_large_page \<and> step = LARGE_PAGE_SIZE"
  obtains c f where "take_page (mem_manager (kh_kcb s)) = (c, Ok f)" "fsize f = step" "fbase f mod step = 0"
    "memory_ok MemDram (kh_mem (put_cache s c))" "frame_bytes f \<subseteq> kernel_free s" "frame_bytes f \<inter> kernel_free (put_cache s c) = {}"
    "kernel_free (put_cache s c) \<subseteq> kernel_free s" "pages_left step s = Suc (pages_left step (put_cache s c))"
    "\<And>other. other \<noteq> step \<Longrightarrow> other \<in> {BASE_PAGE_SIZE, LARGE_PAGE_SIZE} \<Longrightarrow> pages_left other (put_cache s c) = pages_left other s"
proof -
  let ?c = "mem_manager (kh_kcb s)"
  have m: "memory_ok MemDram (kh_kcb s, snd (kh_mem s))" using assms(1) by simp
  then have inv: "mcache_inv ?c" by (simp add: memory_ok_def)
  have "\<exists>c f. take_page ?c = (c, Ok f) \<and> pages_left step s = Suc (pages_left step (put_cache s c))
      \<and> (\<forall>other. other \<noteq> step \<and> other \<in> {BASE_PAGE_SIZE, LARGE_PAGE_SIZE} \<longrightarrow> pages_left other (put_cache s c) = pages_left other s)"
  proof (cases "step = BASE_PAGE_SIZE")
    case True
    then have "base_page_addresses ?c \<noteq> []" using assms(2) by (auto simp: pages_left_def free_base_pages_def)
    then obtain as a where as: "base_page_addresses ?c = as @ [a]" by (metis rev_exhaust)
    show ?thesis using allocate_base_page_some(1) [OF inv as] True assms(3) as
      by (auto simp: pages_left_def free_base_pages_def free_large_pages_def)
  next
    case False
    then have "large_page_addresses ?c \<noteq> []" using assms(2,3) by (auto simp: pages_left_def free_large_pages_def)
    then obtain as a where as: "large_page_addresses ?c = as @ [a]" by (metis rev_exhaust)
    show ?thesis using allocate_large_page_some(1) [OF inv as] False assms(3) as
      by (auto simp: pages_left_def free_base_pages_def free_large_pages_def)
  qed
  then obtain c f where cf: "take_page ?c = (c, Ok f)" "pages_left step s = Suc (pages_left step (put_cache s c))"
    "\<And>other. other \<noteq> step \<Longrightarrow> other \<in> {BASE_PAGE_SIZE, LARGE_PAGE_SIZE} \<Longrightarrow> pages_left other (put_cache s c) = pages_left other s"
    by blast
  have sh: "fsize f = step \<and> fbase f mod step = 0" using page_shape [OF inv, of c f] cf(1) assms(3) by auto
  have tk: "take_page \<in> {allocate_base_page, allocate_large_page}" using assms(3) by blast
  have cf': "take_page (manager_of (kh_kcb s) MemDram) = (c, Ok f)" using cf(1) by simp
  note t = take_free_memory [OF m tk cf']
  show ?thesis using that [OF cf(1) _ _ _ _ _ _ cf(2,3)] sh t by simp
qed

lemma map_big_pages_ok:
  assumes "take_page = allocate_base_page \<and> step = BASE_PAGE_SIZE \<or> take_page = allocate_large_page \<and> step = LARGE_PAGE_SIZE"
    and "memory_ok MemDram (kh_mem s)" and "pt_inv (init_vspace s)" and "n \<le> pages_left step s"
    and "3 * n \<le> length (da (init_vspace s))" and "free_above (init_vspace s) v" and "v mod step = 0" and "v + n * step \<le> VADDR_LIMIT"
  shows "\<exists>s' P. map_big_pages take_page step n s v = (s', Ok (v + n * step)) \<and> took s s' v (n * step) P
     \<and> length (da (init_vspace s)) \<le> length (da (init_vspace s')) + 3 * n
     \<and> (\<forall>other. other \<noteq> step \<and> other \<in> {BASE_PAGE_SIZE, LARGE_PAGE_SIZE} \<longrightarrow> pages_left other s' = pages_left other s)"
  using assms(2-8)
proof (induction n arbitrary: s v)
  case 0
  then show ?case by (intro exI [of _ s] exI [of _ id]) (auto simp: maps_block_def took_def)
next
  case (Suc n)
  have pos: "0 < pages_left step s" using Suc.prems(3) by simp
  obtain c f where c: "take_page (mem_manager (kh_kcb s)) = (c, Ok f)" "fsize f = step" "fbase f mod step = 0"
    "memory_ok MemDram (kh_mem (put_cache s c))" "frame_bytes f \<subseteq> kernel_free s" "frame_bytes f \<inter> kernel_free (put_cache s c) = {}"
    "kernel_free (put_cache s c) \<subseteq> kernel_free s" "pages_left step s = Suc (pages_left step (put_cache s c))"
    "\<And>other. other \<noteq> step \<Longrightarrow> other \<in> {BASE_PAGE_SIZE, LARGE_PAGE_SIZE} \<Longrightarrow> pages_left other (put_cache s c) = pages_left other s"
    by (rule take_page_cases [OF Suc.prems(1) pos assms(1)], rule that)
  have step: "step = BASE_PAGE_SIZE \<or> step = LARGE_PAGE_SIZE" using assms(1) by blast
  have lim: "v + step \<le> VADDR_LIMIT" "(v + step) + n * step \<le> VADDR_LIMIT" using Suc.prems(7) by simp_all
  have three: "3 \<le> length (da (init_vspace s))" using Suc.prems(4) by simp
  obtain t where t: "map_generic (init_vspace s) v (fbase f) (fsize f) ReadWriteKernel True = (t, Ok ())" "pt_inv t"
    "length (da (init_vspace s)) \<le> length (da t) + 3" "maps_block (init_vspace s) t v step (\<lambda>w. fbase f + (w - v))"
    by (rule map_block_page [OF Suc.prems(2) three Suc.prems(5) c(2,3) Suc.prems(6) lim(1) step], rule that)
  define s1 where "s1 = (put_cache s c)\<lparr>init_vspace := t\<rparr>"
  have s1: "kh_mem s1 = kh_mem (put_cache s c)" "init_vspace s1 = t" "big_objects_sbrk s1 = big_objects_sbrk s"
    "pages_left k s1 = pages_left k (put_cache s c)" for k
    by (simp_all add: s1_def pages_left_def)
  have img: "(\<lambda>w. fbase f + (w - v)) ` {v ..< v + step} \<subseteq> frame_bytes f" using c(2) by (auto simp: frame_bytes_def)
  have one: "took s s1 v step (\<lambda>w. fbase f + (w - v))"
    unfolding s1 took_def using c(4,7) t(2,4) order_trans [OF img c(5)] apart_mono [OF img subset_refl c(6)] by (intro conjI) (assumption | rule refl)+
  have mem: "memory_ok MemDram (kh_mem s1)" and inv: "pt_inv (init_vspace s1)" unfolding s1 by (rule c(4), rule t(2))
  have room: "n \<le> pages_left step s1" "3 * n \<le> length (da (init_vspace s1))" using Suc.prems(3,4) c(8) s1 t(3) by simp_all
  have above: "free_above (init_vspace s1) (v + step)" using maps_block_free [OF t(4) Suc.prems(5)] s1 by simp
  have al: "(v + step) mod step = 0" using Suc.prems(6) by simp
  obtain s' P where IH: "map_big_pages take_page step n s1 (v + step) = (s', Ok (v + step + n * step))"
    "took s1 s' (v + step) (n * step) P" "length (da (init_vspace s1)) \<le> length (da (init_vspace s')) + 3 * n"
    "\<forall>other. other \<noteq> step \<and> other \<in> {BASE_PAGE_SIZE, LARGE_PAGE_SIZE} \<longrightarrow> pages_left other s' = pages_left other s1"
    using Suc.IH [OF mem inv room above al lim(2)] by (elim exE conjE) (rule that)
  have "map_big_pages take_page step (Suc n) s v = (s', Ok (v + Suc n * step))"
    using c(1) t(1) IH(1) by (simp add: s1_def add.assoc)
  moreover have "took s s' v (Suc n * step) (\<lambda>w. if w < v + step then fbase f + (w - v) else P w)"
    using took_join [OF one IH(2)] by simp
  moreover have "length (da (init_vspace s)) \<le> length (da (init_vspace s')) + 3 * Suc n" using IH(3) t(3) s1 by simp
  ultimately show ?case using IH(4) c(9) s1(4) by (intro exI conjI) (assumption | simp)+
qed

lemma maybe_refill_ok:
  assumes "memory_ok MemDram m" and "gmanager (physical_memory (fst m))" and "maybe_refill_tcache m bp lp = (m', Ok ())"
    and "bp \<le> bp_cap (mem_manager (fst m))" and "lp \<le> lp_cap (mem_manager (fst m))"
  shows "memory_ok MemDram m'" and "free_memory MemDram m' = free_memory MemDram m"
    and "bp \<le> free_base_pages (mem_manager (fst m'))" and "lp \<le> free_large_pages (mem_manager (fst m'))"
proof -
  have "memory_ok MemDram m' \<and> free_memory MemDram m' = free_memory MemDram m
      \<and> bp \<le> free_base_pages (mem_manager (fst m')) \<and> lp \<le> free_large_pages (mem_manager (fst m'))"
  proof (cases "free_base_pages (mem_manager (fst m)) < bp \<or> free_large_pages (mem_manager (fst m)) < lp")
    case False
    then show ?thesis using assms(1,3) by (auto simp: maybe_refill_tcache_def)
  next
    case True
    obtain k ncs where m: "m = (k, ncs)" by (cases m)
    let ?a = "arena_affinity (physical_memory k)"
    have r: "try_refill_tcache m bp lp MemDram = (m', Ok ())" using True assms(3) by (simp add: maybe_refill_tcache_def)
    have a: "?a < length ncs" "pair_ok (ncs ! ?a) (mem_manager k)" using assms(1,2) m by (simp_all add: memory_ok_def node_cache_def)
    obtain nc tc r' where c: "refill_caches bp lp (ncs ! ?a, mem_manager k) = ((nc, tc), r')"
      "r' = Ok () \<and> min bp (bp_cap (mem_manager k)) \<le> free_base_pages tc \<and> min lp (lp_cap (mem_manager k)) \<le> free_large_pages tc
        \<or> r' = Err CacheExhausted"
      by (rule refill_caches_ok [OF a(2), of bp lp]) (rule that)
    have "m' = (put_mem_manager k tc, ncs[?a := nc])" "r' = Ok ()"
      using r c(1) a(1) assms(2) m by (simp_all add: try_refill_tcache_def Let_def)
    then show ?thesis using refill_free_memory(1,2) [OF assms(1) _ r] c(2) assms(4,5) m by simp
  qed
  then show "memory_ok MemDram m'" "free_memory MemDram m' = free_memory MemDram m"
    "bp \<le> free_base_pages (mem_manager (fst m'))" "lp \<le> free_large_pages (mem_manager (fst m'))" by simp_all
qed

lemma big_pages_enough:
  assumes "big_pages sz = (base, large)"
  shows "sz \<le> large * LARGE_PAGE_SIZE + base * BASE_PAGE_SIZE" and "base \<le> 254"
  using assms size_to_pages_tight [of sz] by (auto simp: big_pages_def layout_to_pages_def split: prod.splits if_splits)

definition big_heap_ok :: "'z KernelHeap \<Rightarrow> bool" where
  "big_heap_ok s \<longleftrightarrow> memory_ok MemDram (kh_mem s) \<and> pt_inv (init_vspace s)
     \<and> big_objects_sbrk s mod LARGE_PAGE_SIZE = 0 \<and> free_above (init_vspace s) (big_objects_sbrk s)"

text \<open>The two loops, one after the other.\<close>

lemma map_big_block:
  assumes "memory_ok MemDram (kh_mem s)" and "pt_inv (init_vspace s)" and "v mod LARGE_PAGE_SIZE = 0" and "free_above (init_vspace s) v"
    and "large \<le> pages_left LARGE_PAGE_SIZE s" and "base \<le> pages_left BASE_PAGE_SIZE s"
    and "3 * (large + base) \<le> length (da (init_vspace s))" and "v + large * LARGE_PAGE_SIZE + base * BASE_PAGE_SIZE \<le> VADDR_LIMIT"
  obtains s1 s' P where "map_big_pages allocate_large_page LARGE_PAGE_SIZE large s v = (s1, Ok (v + large * LARGE_PAGE_SIZE))"
    "\<exists>at. map_big_pages allocate_base_page BASE_PAGE_SIZE base s1 (v + large * LARGE_PAGE_SIZE) = (s', Ok at)"
    "took s s' v (large * LARGE_PAGE_SIZE + base * BASE_PAGE_SIZE) P"
proof -
  let ?v = "v + large * LARGE_PAGE_SIZE"
  have lim: "v + large * LARGE_PAGE_SIZE \<le> VADDR_LIMIT" "?v + base * BASE_PAGE_SIZE \<le> VADDR_LIMIT" using assms(8) by simp_all
  have room: "3 * large \<le> length (da (init_vspace s))" using assms(7) by simp
  have size: "allocate_large_page = allocate_base_page \<and> LARGE_PAGE_SIZE = BASE_PAGE_SIZE
      \<or> allocate_large_page = allocate_large_page \<and> LARGE_PAGE_SIZE = LARGE_PAGE_SIZE"
    "allocate_base_page = allocate_base_page \<and> BASE_PAGE_SIZE = BASE_PAGE_SIZE
      \<or> allocate_base_page = allocate_large_page \<and> BASE_PAGE_SIZE = LARGE_PAGE_SIZE" by simp_all
  obtain s1 P where 1: "map_big_pages allocate_large_page LARGE_PAGE_SIZE large s v = (s1, Ok ?v)"
    "took s s1 v (large * LARGE_PAGE_SIZE) P" "length (da (init_vspace s)) \<le> length (da (init_vspace s1)) + 3 * large"
    "\<forall>other. other \<noteq> LARGE_PAGE_SIZE \<and> other \<in> {BASE_PAGE_SIZE, LARGE_PAGE_SIZE} \<longrightarrow> pages_left other s1 = pages_left other s"
    using map_big_pages_ok [OF size(1) assms(1,2,5) room assms(4,3) lim(1)] by (elim exE conjE) (rule that)
  have mb: "maps_block (init_vspace s) (init_vspace s1) v (large * LARGE_PAGE_SIZE) P" and mem: "memory_ok MemDram (kh_mem s1)"
    and inv: "pt_inv (init_vspace s1)" using 1(2) by (simp_all add: took_def)
  have left: "base \<le> pages_left BASE_PAGE_SIZE s1" using 1(4) assms(6) by simp
  have room1: "3 * base \<le> length (da (init_vspace s1))" using 1(3) assms(7) by simp
  have above: "free_above (init_vspace s1) ?v" by (rule maps_block_free [OF mb assms(4)]) simp_all
  have al: "?v mod BASE_PAGE_SIZE = 0" using large_aligned_base [of ?v] assms(3) by simp
  obtain s' Q at where 2: "map_big_pages allocate_base_page BASE_PAGE_SIZE base s1 ?v = (s', Ok at)"
    "took s1 s' ?v (base * BASE_PAGE_SIZE) Q"
    using map_big_pages_ok [OF size(2) mem inv left room1 above al lim(2)] by (elim exE conjE) (rule that)
  show ?thesis using that [OF 1(1) _ took_join [OF 1(2) 2(2)]] 2(1) by blast
qed


definition big_cache :: MCache where
  "big_cache = (TCache_new 0)\<lparr>base_page_addresses := map (\<lambda>i. 4096 + i * BASE_PAGE_SIZE) [0..<21], large_page_addresses := [LARGE_PAGE_SIZE]\<rparr>"

definition big_heap :: "unit KernelHeap" where
  "big_heap = heap_with (set_mem_manager (set_global_mem (Kcb_new (TCache_new 0) 0)) big_cache) (NCache_new 0)"

lemma big_cache_inv: "mcache_inv big_cache"
proof -
  have "apart (map (\<lambda>i. (4096 + i * BASE_PAGE_SIZE, BASE_PAGE_SIZE)) [0..<21])" by (rule apart_steps) simp
  moreover have "pages_bytes (map (\<lambda>i. (4096 + i * BASE_PAGE_SIZE, BASE_PAGE_SIZE)) [0..<21]) \<inter> page_bytes (LARGE_PAGE_SIZE, LARGE_PAGE_SIZE) = {}"
    by (auto simp: pages_bytes_def page_bytes_def)
  ultimately have "apart (cache_pages big_cache)" by (simp add: cache_pages_def big_cache_def apart_append comp_def del: upt_rec_numeral)
  then show ?thesis by (auto simp: mcache_inv_def big_cache_def MCache_new_def simp del: upt_rec_numeral intro: mod_add_zero)
qed

lemma big_heap_sample:
  "big_heap_ok big_heap" "mem_manager (kh_kcb big_heap) = big_cache" "gmanager (physical_memory (kh_kcb big_heap))"
  "init_vspace big_heap = fresh_table" "big_objects_sbrk big_heap = LARGE_PAGE_SIZE"
proof -
  show mm: "mem_manager (kh_kcb big_heap) = big_cache" "gmanager (physical_memory (kh_kcb big_heap))"
    "init_vspace big_heap = fresh_table" "big_objects_sbrk big_heap = LARGE_PAGE_SIZE"
    by (simp_all add: big_heap_def heap_with_def set_mem_manager_def set_global_mem_def Kcb_new_def mem_manager_def Arena_uninit_with_node_def)
  have nc: "node_cache MemDram (kh_mem big_heap) = NCache_new 0" "arena_affinity (physical_memory (kh_kcb big_heap)) < length (snd (kh_mem big_heap))"
    by (simp_all add: node_cache_def big_heap_def heap_with_def set_mem_manager_def set_global_mem_def Kcb_new_def Arena_uninit_with_node_def)
  have "pair_ok (NCache_new 0) big_cache"
    using big_cache_inv by (simp add: pair_ok_def mcache_inv_def [of "NCache_new 0"]) (simp add: MCache_new_def cache_pages_def big_cache_def)
  then have "memory_ok MemDram (kh_mem big_heap)" using mm nc big_cache_inv by (simp add: memory_ok_def)
  moreover have "free_above fresh_table v" for v
    using resolve_find_page [OF fresh_table_ok(1)] fresh_table_ok(4) by (simp add: free_above_def)
  ultimately show "big_heap_ok big_heap" using mm fresh_table_ok(1) by (simp add: big_heap_ok_def)
qed


section \<open>Reallocation\<close>

text \<open>Outside a panic, no step of the allocator writes to memory that is in use.\<close>

definition calm :: "'z KernelHeap \<Rightarrow> 'z KernelHeap \<Rightarrow> bool" where
  "calm s s' \<longleftrightarrow> \<not> in_panic_mode (kh_kcb s') \<and> kh_bytes s' = kh_bytes s"

lemma put_mem_manager_mode [simp]: "in_panic_mode (put_mem_manager k c) = in_panic_mode k"
  by (simp add: put_mem_manager_def split: option.splits)

lemma try_refill_mode:
  "try_refill_tcache m bp lp MemDram = (m', r) \<Longrightarrow> in_panic_mode (fst m') = in_panic_mode (fst m)"
  by (cases m) (auto simp: try_refill_tcache_def Let_def split: if_splits prod.splits)

lemma maybe_refill_mode:
  "maybe_refill_tcache m bp lp = (m', r) \<Longrightarrow> in_panic_mode (fst m') = in_panic_mode (fst m)"
  by (auto simp: maybe_refill_tcache_def try_refill_mode split: if_splits)

lemma map_big_pages_calm:
  "map_big_pages take_page step n s v = (s', r) \<Longrightarrow> \<not> in_panic_mode (kh_kcb s) \<Longrightarrow> calm s s'"
proof (induction n arbitrary: s v)
  case (Suc n)
  obtain c x where c: "take_page (mem_manager (kh_kcb s)) = (c, x)" by fastforce
  show ?case
  proof (cases x)
    case (Ok f)
    obtain t y where t: "map_generic (init_vspace s) v (fbase f) (fsize f) ReadWriteKernel True = (t, y)" by fastforce
    show ?thesis
    proof (cases y)
      case (Ok u)
      then have "map_big_pages take_page step n ((put_cache s c)\<lparr>init_vspace := t\<rparr>) (v + step) = (s', r)"
        using Suc.prems(1) c \<open>x = Ok f\<close> t by simp
      from Suc.IH [OF this] show ?thesis using Suc.prems(2) by (simp add: calm_def)
    qed (use Suc.prems c \<open>x = Ok f\<close> t in \<open>auto simp: calm_def\<close>)
  qed (use Suc.prems c in \<open>auto simp: calm_def\<close>)
qed (simp add: calm_def)

lemma try_alloc_big_calm:
  assumes "try_alloc_big s l = (s', r)" and "\<not> in_panic_mode (kh_kcb s)"
  shows "calm s s'"
proof -
  obtain base large where p: "big_pages (l_size l) = (base, large)" by fastforce
  obtain m x where m: "maybe_refill_tcache (kh_mem s) (base + 20) large = (m, x)" by fastforce
  have mode: "\<not> in_panic_mode (fst m)" using maybe_refill_mode [OF m] assms(2) by simp
  show ?thesis
  proof (cases "x = Ok ()")
    case True
    let ?s = "s\<lparr>kh_mem := m, big_objects_sbrk := (big_objects_sbrk s + (large + 1) * LARGE_PAGE_SIZE) mod 2 ^ 64\<rparr>"
    obtain s1 y where 1: "map_big_pages allocate_large_page LARGE_PAGE_SIZE large ?s (big_objects_sbrk s) = (s1, y)" by fastforce
    have c1: "calm ?s s1" by (rule map_big_pages_calm [OF 1]) (simp add: mode)
    have "s' = s1 \<or> (\<exists>at z. map_big_pages allocate_base_page BASE_PAGE_SIZE base s1 at = (s', z))"
      using assms(1) p m True 1 unfolding try_alloc_big_def Let_def
      by (cases y) (auto simp: and_then_simps split: prod.splits elim: and_then_cases)
    then show ?thesis using c1 map_big_pages_calm [of allocate_base_page BASE_PAGE_SIZE base s1 _ s'] by (auto simp: calm_def)
  next
    case False
    then have "s' = s\<lparr>kh_mem := m\<rparr>" using assms(1) p m by (cases x) (auto simp: try_alloc_big_def)
    then show ?thesis using mode by (simp add: calm_def)
  qed
qed

lemma try_alloc_calm:
  assumes "try_alloc sl s l = (s', r)" and "\<not> in_panic_mode (kh_kcb s)"
  shows "calm s s'"
proof (cases "allocator_for (MAX_ALLOC_SIZE sl) (l_size l)")
  case Zone
  then show ?thesis using assms by (auto simp: try_alloc_def try_alloc_zone_def calm_def split: prod.splits)
next
  case MemManager
  then show ?thesis using assms by (auto simp: try_alloc_def try_alloc_page_def calm_def split: prod.splits)
next
  case MapBig
  then show ?thesis using assms try_alloc_big_calm [of s l s' r] by (simp add: try_alloc_def)
qed

lemma try_refill_calm:
  assumes "try_refill sl s l e = (s', r)" and "\<not> in_panic_mode (kh_kcb s)"
  shows "calm s s'"
proof -
  have zone: "calm s s'" if "try_refill_zone sl s l = (s', r)" "\<not> in_panic_mode (kh_kcb s)" for s s' r
    using that by (auto simp: try_refill_zone_def refill_zone_with_def calm_def Let_def split: prod.splits result.splits if_splits)
  obtain bp lp where a: "refill_amount (MAX_ALLOC_SIZE sl) (MAX_BASE_ALLOC_SIZE sl) (l_size l) = (bp, lp)" by fastforce
  obtain m x where m: "maybe_refill_tcache (kh_mem s) bp lp = (m, x)" by fastforce
  obtain m' x' where m': "try_refill_tcache (kh_mem s) bp lp MemDram = (m', x')" by fastforce
  have mode: "\<not> in_panic_mode (fst m)" "\<not> in_panic_mode (fst m')"
    using maybe_refill_mode [OF m] try_refill_mode [OF m'] assms(2) by simp_all
  show ?thesis
    using assms a m m' mode zone [of "s\<lparr>kh_mem := m\<rparr>" s' r]
    by (cases x) (auto simp: try_refill_def on_mem_def calm_def and_then_simps split: if_splits)
qed

lemma alloc_tries_calm:
  "alloc_tries sl n s l = (s', r) \<Longrightarrow> \<not> in_panic_mode (kh_kcb s) \<Longrightarrow> calm s s'"
proof (induction n arbitrary: s)
  case (Suc n)
  obtain s1 x where 1: "try_alloc sl s l = (s1, x)" by fastforce
  have c1: "calm s s1" by (rule try_alloc_calm [OF 1 Suc.prems(2)])
  show ?case
  proof (cases x)
    case (Err e)
    obtain s2 y where 2: "try_refill sl s1 l e = (s2, y)" by fastforce
    have c2: "calm s1 s2" by (rule try_refill_calm [OF 2]) (use c1 in \<open>simp add: calm_def\<close>)
    have "s' = s1 \<or> s' = s2 \<or> alloc_tries sl n s2 l = (s', r)"
      using Suc.prems(1) 1 2 Err by (auto split: if_splits result.splits)
    then show ?thesis using c1 c2 Suc.IH [of s2] by (auto simp: calm_def)
  qed (use Suc.prems(1) 1 c1 in simp_all)
qed (simp add: calm_def)

text \<open>
  Reallocation outside a panic: if it does not return null, the new block starts with the bytes of
  the old one, up to the smaller of the two sizes.
\<close>
lemma realloc_keeps_content:
  assumes "\<not> in_panic_mode (kh_kcb s)" and "kernel_realloc sl s ptr l new_size = (s', Ok q)" and "q \<noteq> 0"
    and "i < min (l_size l) new_size"
  shows "kh_bytes s' (q + i) = kh_bytes s (ptr + i)"
proof (cases "l_size l \<le> MAX_ALLOC_SIZE sl \<and> l_size l \<noteq> BASE_PAGE_SIZE
    \<and> new_size \<le> (case get_max_size sl (l_size l) of Some n \<Rightarrow> n | None \<Rightarrow> 0)")
  case True
  then show ?thesis using assms(1,2) by (simp add: kernel_realloc_def)
next
  case False
  obtain s1 x where 1: "kernel_alloc sl s \<lparr>l_size = new_size, l_align = l_align l\<rparr> = (s1, x)" by fastforce
  have c1: "calm s s1" using alloc_tries_calm [of sl 3 s _ s1 x] 1 assms(1) by (simp add: kernel_alloc_def)
  let ?s = "s1\<lparr>kh_bytes := copy_bytes (kh_bytes s1) ptr q (min (l_size l) new_size)\<rparr>"
  have x: "x = Ok q" "\<exists>u. kernel_dealloc sl ?s ptr l = (s', u)"
    using assms(1-3) False 1 by (auto simp: kernel_realloc_def and_then_Ok split: if_splits)
  have "kh_bytes s' = kh_bytes ?s"
    using x(2) by (auto simp: kernel_dealloc_def on_mem_def split: if_splits prod.splits result.splits)
  then show ?thesis using assms(4) c1 by (simp add: copy_bytes_def calm_def)
qed

end
