(* ===== verification/LineupMutex.thy ===== *)
theory LineupMutex
  imports NrkPrelude
begin

text \<open>
  The mutex of the user-level threads (\<open>lib/lineup/src/mutex.rs\<close>).  Threads are the actors of a step
  relation with one step for every access to the shared fields; memory is sequentially consistent.
  A thread that has to wait puts itself into the wait list and suspends itself; the scheduler runs
  it again after another thread has asked for that, and for a thread that waits here only the exit
  of the mutex asks.  The hooks \<open>schedule\<close> and \<open>deschedule\<close> of the host do not touch the mutex.
\<close>

section \<open>Model\<close>

abbreviation WAITLIST_SIZE :: nat where "WAITLIST_SIZE \<equiv> 64"

record MutexInner =
  mtx_kmutex :: bool
  mtx_spin :: bool
  mtx_owner :: "nat option"
  mtx_lwp_ptr :: nat
  mtx_waitlist :: "nat list"
  mtx_counter :: nat

definition Mutex_new_with_flags :: "bool \<Rightarrow> bool \<Rightarrow> MutexInner" where
  "Mutex_new_with_flags spin kmutex =
     \<lparr>mtx_kmutex = kmutex, mtx_spin = spin, mtx_owner = None, mtx_lwp_ptr = 0, mtx_waitlist = [], mtx_counter = 0\<rparr>"

text \<open>
  Where a thread stands: in \<open>try_enter\<close> before the load and before the compare-exchange, in
  \<open>enter_nowrap\<close> likewise, in \<open>enter\<close> before the increment, before it joins the wait list and while
  it is suspended, before it sets the owner, inside, and in \<open>exit\<close> before the decrement, while it
  waits for the list to fill, and before it takes the next thread.
\<close>

datatype mpc = Out | TryLoad | TryCas nat | SpinLoad | SpinCas | EnterAdd | EnterPush | Suspended | Acquired | Inside
  | ExitSub | ExitSpin | ExitPop | NoRoom | Failed

record msys =
  mtx :: MutexInner
  mpcs :: "nat \<Rightarrow> mpc"
  woken :: "nat set"

definition mgoto :: "nat \<Rightarrow> mpc \<Rightarrow> msys \<Rightarrow> msys" where
  "mgoto a p s = s\<lparr>mpcs := (mpcs s)(a := p)\<rparr>"

definition try_enter_call :: "nat \<Rightarrow> msys \<Rightarrow> msys" where
  "try_enter_call a s = mgoto a (if mtx_owner (mtx s) = Some a then Failed else TryLoad) s"

definition try_enter_cas :: "nat \<Rightarrow> nat \<Rightarrow> msys \<Rightarrow> msys" where
  "try_enter_cas a c s =
     (if c \<noteq> 0 then mgoto a Out s
      else if mtx_counter (mtx s) = 0 then mgoto a Acquired (s\<lparr>mtx := (mtx s)\<lparr>mtx_counter := 1\<rparr>\<rparr>)
      else mgoto a (TryCas c) s)"

definition enter_call :: "nat \<Rightarrow> msys \<Rightarrow> msys" where
  "enter_call a s = mgoto a (if mtx_spin (mtx s) then SpinLoad else if mtx_kmutex (mtx s) then EnterAdd else Failed) s"

definition enter_add :: "nat \<Rightarrow> msys \<Rightarrow> msys" where
  "enter_add a s = mgoto a (if mtx_counter (mtx s) \<noteq> 0 then EnterPush else Acquired)
     (s\<lparr>mtx := (mtx s)\<lparr>mtx_counter := mtx_counter (mtx s) + 1\<rparr>\<rparr>)"

definition enter_push :: "nat \<Rightarrow> msys \<Rightarrow> msys" where
  "enter_push a s =
     (if length (mtx_waitlist (mtx s)) < WAITLIST_SIZE
      then mgoto a Suspended (s\<lparr>mtx := (mtx s)\<lparr>mtx_waitlist := mtx_waitlist (mtx s) @ [a]\<rparr>\<rparr>)
      else mgoto a NoRoom s)"

definition enter_nowrap_cas :: "nat \<Rightarrow> msys \<Rightarrow> msys" where
  "enter_nowrap_cas a s =
     (if mtx_counter (mtx s) = 0 then mgoto a Acquired (s\<lparr>mtx := (mtx s)\<lparr>mtx_counter := 1\<rparr>\<rparr>) else mgoto a SpinLoad s)"

definition exit_sub :: "nat \<Rightarrow> msys \<Rightarrow> msys" where
  "exit_sub a s = (let v = mtx_counter (mtx s) in
     mgoto a (if v < 1 then Failed else if v = 1 then Out else ExitSpin) (s\<lparr>mtx := (mtx s)\<lparr>mtx_counter := v - 1\<rparr>\<rparr>))"

definition exit_pop :: "nat \<Rightarrow> msys \<Rightarrow> msys" where
  "exit_pop a s = (case mtx_waitlist (mtx s) of
       [] \<Rightarrow> mgoto a ExitSpin s
     | n # ws \<Rightarrow> mgoto a Out (s\<lparr>mtx := (mtx s)\<lparr>mtx_waitlist := ws\<rparr>, woken := insert n (woken s)\<rparr>))"

inductive m_step :: "nat \<Rightarrow> msys \<Rightarrow> msys \<Rightarrow> bool" for a where
  try_call: "mpcs s a = Out \<Longrightarrow> m_step a s (try_enter_call a s)"
| try_load: "mpcs s a = TryLoad \<Longrightarrow> m_step a s (mgoto a (TryCas (mtx_counter (mtx s))) s)"
| try_cas: "mpcs s a = TryCas c \<Longrightarrow> m_step a s (try_enter_cas a c s)"
| call: "mpcs s a = Out \<Longrightarrow> m_step a s (enter_call a s)"
| call_nowrap: "mpcs s a = Out \<Longrightarrow> m_step a s (mgoto a SpinLoad s)"
| spin: "mpcs s a = SpinLoad \<Longrightarrow> m_step a s (mgoto a (if mtx_counter (mtx s) \<noteq> 0 then SpinLoad else SpinCas) s)"
| spin_cas: "mpcs s a = SpinCas \<Longrightarrow> m_step a s (enter_nowrap_cas a s)"
| add: "mpcs s a = EnterAdd \<Longrightarrow> m_step a s (enter_add a s)"
| push: "mpcs s a = EnterPush \<Longrightarrow> m_step a s (enter_push a s)"
| resume: "\<lbrakk>mpcs s a = Suspended; a \<in> woken s\<rbrakk> \<Longrightarrow> m_step a s (mgoto a Acquired (s\<lparr>woken := woken s - {a}\<rparr>))"
| own: "mpcs s a = Acquired \<Longrightarrow> m_step a s (mgoto a Inside (s\<lparr>mtx := (mtx s)\<lparr>mtx_owner := Some a, mtx_lwp_ptr := l\<rparr>\<rparr>))"
| exit_call: "mpcs s a = Inside \<Longrightarrow> m_step a s (mgoto a ExitSub (s\<lparr>mtx := (mtx s)\<lparr>mtx_owner := None, mtx_lwp_ptr := 0\<rparr>\<rparr>))"
| exit_sub: "mpcs s a = ExitSub \<Longrightarrow> m_step a s (exit_sub a s)"
| exit_spin: "mpcs s a = ExitSpin \<Longrightarrow> m_step a s (mgoto a (if mtx_waitlist (mtx s) = [] then ExitSpin else ExitPop) s)"
| exit_pop: "mpcs s a = ExitPop \<Longrightarrow> m_step a s (exit_pop a s)"

inductive m_reach :: "bool \<Rightarrow> bool \<Rightarrow> msys \<Rightarrow> bool" for spin kmutex where
  m_start: "m_reach spin kmutex \<lparr>mtx = Mutex_new_with_flags spin kmutex, mpcs = (\<lambda>_. Out), woken = {}\<rparr>"
| m_next: "\<lbrakk>m_reach spin kmutex s; m_step a s s'\<rbrakk> \<Longrightarrow> m_reach spin kmutex s'"

section \<open>Tickets\<close>

text \<open>
  What the protocol comes down to: every thread that takes part holds the lock, waits for it, or is
  handing it over, and the counter counts those that hold it or wait.
\<close>

datatype ticket = NoTicket | Holds | Waits | Hands

definition tickets_ok :: "(nat \<Rightarrow> ticket) \<Rightarrow> nat \<Rightarrow> bool" where
  "tickets_ok f c \<longleftrightarrow> finite {a. f a \<noteq> NoTicket} \<and> (\<forall>a b. f a \<in> {Holds, Hands} \<and> f b \<in> {Holds, Hands} \<longrightarrow> a = b)
     \<and> c = card {a. f a = Waits} + card {a. f a = Holds}
     \<and> ((\<exists>a. f a = Hands) \<longrightarrow> (\<exists>a. f a = Waits)) \<and> ((\<forall>a. f a \<notin> {Holds, Hands}) \<longrightarrow> (\<forall>a. f a \<noteq> Waits))"

lemma tickets_okI:
  assumes "finite {a. f a \<noteq> NoTicket}" and "\<And>a b. f a \<in> {Holds, Hands} \<Longrightarrow> f b \<in> {Holds, Hands} \<Longrightarrow> a = b"
    and "c = card {a. f a = Waits} + card {a. f a = Holds}" and "\<And>a. f a = Hands \<Longrightarrow> \<exists>b. f b = Waits"
    and "\<And>a. f a = Waits \<Longrightarrow> \<exists>b. f b \<in> {Holds, Hands}"
  shows "tickets_ok f c"
  using assms unfolding tickets_ok_def by blast

lemma tickets_okD:
  assumes "tickets_ok f c"
  shows "finite {a. f a \<noteq> NoTicket}" and "f a \<in> {Holds, Hands} \<Longrightarrow> f b \<in> {Holds, Hands} \<Longrightarrow> a = b"
    and "c = card {a. f a = Waits} + card {a. f a = Holds}" and "f a = Hands \<Longrightarrow> \<exists>b. f b = Waits"
    and "f a = Waits \<Longrightarrow> \<exists>b. f b \<in> {Holds, Hands}"
  using assms unfolding tickets_ok_def by blast+

lemma class_upd: "{b. (f(a := x)) b = y} = (if x = y then insert a {b. f b = y} else {b. f b = y} - {a})"
  by auto

lemma tickets_finite: "tickets_ok f c \<Longrightarrow> x \<noteq> NoTicket \<Longrightarrow> finite {a. f a = x}"
  unfolding tickets_ok_def by (elim conjE, rule finite_subset [of _ "{a. f a \<noteq> NoTicket}"]) auto

lemma tickets_support: "finite {b. f b \<noteq> NoTicket} \<Longrightarrow> finite {b. (f(a := x)) b \<noteq> NoTicket}"
  by (rule finite_subset [of _ "insert a {b. f b \<noteq> NoTicket}"]) auto

lemma counter_zero:
  assumes "tickets_ok f c"
  shows "c = 0 \<longleftrightarrow> (\<forall>a. f a = NoTicket)"
proof
  assume "c = 0"
  then have "{a. f a = Waits} = {}" "{a. f a = Holds} = {}"
    using assms tickets_finite [OF assms, of Waits] tickets_finite [OF assms, of Holds] by (auto simp: tickets_ok_def)
  moreover from this have "\<forall>a. f a \<noteq> Hands" using assms unfolding tickets_ok_def by auto
  ultimately show "\<forall>a. f a = NoTicket" by (metis (mono_tags) ticket.exhaust empty_iff mem_Collect_eq)
next
  assume "\<forall>a. f a = NoTicket"
  then show "c = 0" using assms by (simp add: tickets_ok_def)
qed

lemma holder_counts:
  assumes "tickets_ok f c" and "f a = Holds"
  shows "{b. f b = Holds} = {a}" and "c = card {b. f b = Waits} + 1"
proof -
  show h: "{b. f b = Holds} = {a}" using assms unfolding tickets_ok_def by auto
  then show "c = card {b. f b = Waits} + 1" using assms(1) by (simp add: tickets_ok_def)
qed

lemma ticket_acquire:
  assumes "tickets_ok f 0"
  shows "tickets_ok (f(a := Holds)) (Suc 0)"
proof -
  have "\<forall>b. f b = NoTicket" using counter_zero [OF assms] by simp
  then have "f = (\<lambda>_. NoTicket)" by auto
  then show ?thesis by (auto simp: tickets_ok_def)
qed

lemma ticket_queue:
  assumes "tickets_ok f c" and "f a = NoTicket" and "c \<noteq> 0"
  shows "tickets_ok (f(a := Waits)) (Suc c)"
proof -
  obtain x where "f x \<noteq> NoTicket" using assms(3) counter_zero [OF assms(1)] by auto
  then obtain b where b: "f b \<in> {Holds, Hands}" using assms(1) unfolding tickets_ok_def by (cases "f x") auto
  then have "b \<noteq> a" using assms(2) by auto
  then have tok: "\<exists>b. (f(a := Waits)) b \<in> {Holds, Hands}" using b by (intro exI [of _ b]) simp
  have w: "card {b. (f(a := Waits)) b = Waits} = Suc (card {b. f b = Waits})"
    unfolding class_upd using tickets_finite [OF assms(1), of Waits] assms(2) by simp
  have h: "{b. (f(a := Waits)) b = Holds} = {b. f b = Holds}" using assms(2) by auto
  show ?thesis
  proof (rule tickets_okI)
    show "finite {b. (f(a := Waits)) b \<noteq> NoTicket}" by (rule tickets_support [OF tickets_okD(1) [OF assms(1)]])
    show "Suc c = card {b. (f(a := Waits)) b = Waits} + card {b. (f(a := Waits)) b = Holds}"
      unfolding w h using tickets_okD(3) [OF assms(1)] by simp
    show "\<exists>b. (f(a := Waits)) b = Waits" by (intro exI [of _ a]) simp
    show "\<exists>b. (f(a := Waits)) b \<in> {Holds, Hands}" by (rule tok)
    show "x = y" if "(f(a := Waits)) x \<in> {Holds, Hands}" "(f(a := Waits)) y \<in> {Holds, Hands}" for x y
      using that by (intro tickets_okD(2) [OF assms(1)]) (auto split: if_splits)
  qed
qed

lemma ticket_release:
  assumes "tickets_ok f (Suc 0)" and "f a = Holds"
  shows "tickets_ok (f(a := NoTicket)) 0"
proof -
  note h = holder_counts [OF assms]
  have w: "{b. f b = Waits} = {}" using h(2) tickets_finite [OF assms(1), of Waits] by simp
  have "f b \<noteq> Hands" for b using assms unfolding tickets_ok_def by (metis insertCI ticket.distinct(9))
  moreover have "f b \<noteq> Waits" for b using w by auto
  moreover have "f b \<noteq> Holds" if "b \<noteq> a" for b using h(1) that by auto
  ultimately have "f(a := NoTicket) = (\<lambda>_. NoTicket)" by (metis (mono_tags, opaque_lifting) ext fun_upd_apply ticket.exhaust)
  then show ?thesis by (simp add: tickets_ok_def)
qed

lemma ticket_hand:
  assumes "tickets_ok f c" and "f a = Holds" and "1 < c"
  shows "tickets_ok (f(a := Hands)) (c - 1)"
proof -
  note h = holder_counts [OF assms(1,2)]
  have "card {b. f b = Waits} \<noteq> 0" using h(2) assms(3) by simp
  then have "\<exists>b. f b = Waits" by (metis (mono_tags) card.empty empty_Collect_eq)
  then have w: "\<exists>b. (f(a := Hands)) b = Waits" using assms(2) by (metis fun_upd_other ticket.distinct(7))
  have "{b. (f(a := Hands)) b = Waits} = {b. f b = Waits}" "{b. (f(a := Hands)) b = Holds} = {}" using assms(2) h(1) by auto
  then have "c - 1 = card {b. (f(a := Hands)) b = Waits} + card {b. (f(a := Hands)) b = Holds}" using h(2) by simp
  then show ?thesis
  proof (rule tickets_okI [rotated 2])
    show "finite {b. (f(a := Hands)) b \<noteq> NoTicket}" by (rule tickets_support [OF tickets_okD(1) [OF assms(1)]])
    show "\<exists>b. (f(a := Hands)) b = Waits" by (rule w)
    show "\<exists>b. (f(a := Hands)) b \<in> {Holds, Hands}" by (intro exI [of _ a]) simp
    show "x = y" if "(f(a := Hands)) x \<in> {Holds, Hands}" "(f(a := Hands)) y \<in> {Holds, Hands}" for x y
      using that assms(2) by (intro tickets_okD(2) [OF assms(1)]) (auto split: if_splits)
  qed
qed

lemma ticket_pass:
  assumes "tickets_ok f c" and "f a = Hands" and "f n = Waits"
  shows "tickets_ok (f(a := NoTicket, n := Holds)) c"
proof -
  have an: "a \<noteq> n" using assms(2,3) by auto
  have only: "f b \<notin> {Holds, Hands}" if "b \<noteq> a" for b using assms(1,2) that unfolding tickets_ok_def by (metis insertCI)
  have "{b. (f(a := NoTicket, n := Holds)) b = Waits} = {b. f b = Waits} - {n}" using assms(2) an by auto
  moreover have "{b. (f(a := NoTicket, n := Holds)) b = Holds} = {n}" using only by auto
  moreover have "{b. f b = Holds} = {}" using only assms(2) by (metis (mono_tags, lifting) empty_Collect_eq insertCI ticket.distinct(9))
  moreover have "0 < card {b. f b = Waits}" using tickets_finite [OF assms(1), of Waits] assms(3) by (auto simp: card_gt_0_iff)
  ultimately have "c = card {b. (f(a := NoTicket, n := Holds)) b = Waits} + card {b. (f(a := NoTicket, n := Holds)) b = Holds}"
    using assms(1,3) unfolding tickets_ok_def by simp
  then show ?thesis
  proof (rule tickets_okI [rotated 2])
    show "finite {b. (f(a := NoTicket, n := Holds)) b \<noteq> NoTicket}"
      by (rule tickets_support [OF tickets_support [OF tickets_okD(1) [OF assms(1)]]])
    show "\<exists>b. (f(a := NoTicket, n := Holds)) b \<in> {Holds, Hands}" by (intro exI [of _ n]) simp
    show "\<exists>b. (f(a := NoTicket, n := Holds)) b = Waits" if "(f(a := NoTicket, n := Holds)) x = Hands" for x
      using that only by (auto split: if_splits)
    show "x = y" if "(f(a := NoTicket, n := Holds)) x \<in> {Holds, Hands}" "(f(a := NoTicket, n := Holds)) y \<in> {Holds, Hands}" for x y
      using that only by (auto split: if_splits)
  qed
qed

section \<open>The mutex hands out tickets\<close>

definition pc_ticket :: "mpc \<Rightarrow> bool \<Rightarrow> ticket" where
  "pc_ticket p w = (if p \<in> {Acquired, Inside, ExitSub} then Holds else if p \<in> {EnterPush, NoRoom} then Waits
     else if p = Suspended then (if w then Holds else Waits) else if p \<in> {ExitSpin, ExitPop} then Hands else NoTicket)"

definition ticket_of :: "msys \<Rightarrow> nat \<Rightarrow> ticket" where
  "ticket_of s a = pc_ticket (mpcs s a) (a \<in> woken s)"

definition m_inv :: "msys \<Rightarrow> bool" where
  "m_inv s \<longleftrightarrow> tickets_ok (ticket_of s) (mtx_counter (mtx s))
     \<and> distinct (mtx_waitlist (mtx s)) \<and> set (mtx_waitlist (mtx s)) = {a. mpcs s a = Suspended \<and> a \<notin> woken s}
     \<and> (\<forall>a \<in> woken s. mpcs s a = Suspended) \<and> (\<forall>a. mtx_owner (mtx s) = Some a \<longleftrightarrow> mpcs s a = Inside)"

lemma mgoto_simps [simp]:
  "mtx (mgoto a p s) = mtx s" "woken (mgoto a p s) = woken s" "mpcs (mgoto a p s) = (mpcs s)(a := p)"
  by (simp_all add: mgoto_def)

lemma ticket_mgoto: "ticket_of (mgoto a p s) = (ticket_of s)(a := pc_ticket p (a \<in> woken s))"
  by (auto simp: ticket_of_def)

lemma ticket_mtx [simp]: "ticket_of (s\<lparr>mtx := m\<rparr>) = ticket_of s"
  by (auto simp: ticket_of_def)

lemma pc_ticket_simps [simp]:
  "pc_ticket Out w = NoTicket" "pc_ticket TryLoad w = NoTicket" "pc_ticket (TryCas c) w = NoTicket" "pc_ticket SpinLoad w = NoTicket"
  "pc_ticket SpinCas w = NoTicket" "pc_ticket EnterAdd w = NoTicket" "pc_ticket EnterPush w = Waits" "pc_ticket NoRoom w = Waits"
  "pc_ticket Suspended w = (if w then Holds else Waits)" "pc_ticket Acquired w = Holds" "pc_ticket Inside w = Holds"
  "pc_ticket ExitSub w = Holds" "pc_ticket ExitSpin w = Hands" "pc_ticket ExitPop w = Hands" "pc_ticket Failed w = NoTicket"
  by (simp_all add: pc_ticket_def)

text \<open>A step that changes neither the ticket of its thread nor the shared fields.\<close>

lemma m_inv_quiet:
  assumes "m_inv s" and "pc_ticket p (a \<in> woken s) = ticket_of s a" and "mpcs s a \<notin> {Suspended, Inside}" and "p \<notin> {Suspended, Inside}"
  shows "m_inv (mgoto a p s)"
proof -
  have "ticket_of (mgoto a p s) = ticket_of s" unfolding ticket_mgoto assms(2) by simp
  moreover have "{b. ((mpcs s)(a := p)) b = Suspended \<and> b \<notin> woken s} = {b. mpcs s b = Suspended \<and> b \<notin> woken s}" using assms(3,4) by auto
  moreover have "\<forall>b \<in> woken s. ((mpcs s)(a := p)) b = Suspended" using assms(1,3) unfolding m_inv_def by auto
  moreover have "((mpcs s)(a := p)) b = Inside \<longleftrightarrow> mpcs s b = Inside" for b using assms(3,4) by auto
  ultimately show ?thesis using assms(1) unfolding m_inv_def by simp
qed

text \<open>A step that only changes the counter and the place of its thread.\<close>

lemma m_inv_count:
  assumes "m_inv s" and "tickets_ok ((ticket_of s)(a := pc_ticket p (a \<in> woken s))) c"
    and "mpcs s a \<notin> {Suspended, Inside}" and "p \<notin> {Suspended, Inside}"
  shows "m_inv (mgoto a p (s\<lparr>mtx := (mtx s)\<lparr>mtx_counter := c\<rparr>\<rparr>))"
proof -
  have "{b. ((mpcs s)(a := p)) b = Suspended \<and> b \<notin> woken s} = {b. mpcs s b = Suspended \<and> b \<notin> woken s}" using assms(3,4) by auto
  moreover have "\<forall>b \<in> woken s. ((mpcs s)(a := p)) b = Suspended" using assms(1,3) unfolding m_inv_def by auto
  moreover have "((mpcs s)(a := p)) b = Inside \<longleftrightarrow> mpcs s b = Inside" for b using assms(3,4) by auto
  ultimately show ?thesis using assms(1,2) unfolding m_inv_def by (simp add: ticket_mgoto del: fun_upd_apply)
qed

lemma m_invD:
  assumes "m_inv s"
  shows "tickets_ok (ticket_of s) (mtx_counter (mtx s))" and "distinct (mtx_waitlist (mtx s))"
    and "set (mtx_waitlist (mtx s)) = {a. mpcs s a = Suspended \<and> a \<notin> woken s}"
    and "a \<in> woken s \<Longrightarrow> mpcs s a = Suspended" and "mtx_owner (mtx s) = Some a \<longleftrightarrow> mpcs s a = Inside"
  using assms unfolding m_inv_def by blast+

lemma m_inv_acquire:
  assumes "m_inv s" and "mtx_counter (mtx s) = 0" and "mpcs s a \<notin> {Suspended, Inside}"
  shows "m_inv (mgoto a Acquired (s\<lparr>mtx := (mtx s)\<lparr>mtx_counter := Suc 0\<rparr>\<rparr>))"
proof (rule m_inv_count [OF assms(1) _ assms(3)])
  show "tickets_ok ((ticket_of s)(a := pc_ticket Acquired (a \<in> woken s))) (Suc 0)"
    using ticket_acquire [of "ticket_of s" a] m_invD(1) [OF assms(1)] assms(2) by (simp del: fun_upd_apply)
qed simp

lemma m_inv_push:
  assumes "m_inv s" and "mpcs s a = EnterPush"
  shows "m_inv (enter_push a s)"
proof (cases "length (mtx_waitlist (mtx s)) < WAITLIST_SIZE")
  case False
  then show ?thesis using m_inv_quiet [OF assms(1), of NoRoom a] assms(2) by (simp add: enter_push_def ticket_of_def)
next
  case True
  note d = m_invD [OF assms(1)]
  have nw: "a \<notin> woken s" using d(4) [of a] assms(2) by auto
  have "ticket_of (mgoto a Suspended (s\<lparr>mtx := (mtx s)\<lparr>mtx_waitlist := mtx_waitlist (mtx s) @ [a]\<rparr>\<rparr>)) = ticket_of s"
    using assms(2) nw by (auto simp: ticket_mgoto ticket_of_def)
  moreover have "a \<notin> set (mtx_waitlist (mtx s))" using d(3) assms(2) by auto
  moreover have "insert a (set (mtx_waitlist (mtx s))) = {b. ((mpcs s)(a := Suspended)) b = Suspended \<and> b \<notin> woken s}"
    using d(3) nw by auto
  moreover have "((mpcs s)(a := Suspended)) b = Inside \<longleftrightarrow> mpcs s b = Inside" for b using assms(2) by auto
  moreover have "\<forall>b \<in> woken s. ((mpcs s)(a := Suspended)) b = Suspended" using d(4) by auto
  ultimately show ?thesis using True d(1,2,5) by (simp add: enter_push_def m_inv_def)
qed

lemma m_inv_resume:
  assumes "m_inv s" and "mpcs s a = Suspended" and "a \<in> woken s"
  shows "m_inv (mgoto a Acquired (s\<lparr>woken := woken s - {a}\<rparr>))"
proof -
  note d = m_invD [OF assms(1)]
  have "ticket_of (mgoto a Acquired (s\<lparr>woken := woken s - {a}\<rparr>)) = ticket_of s"
    using assms(2,3) by (auto simp: ticket_mgoto ticket_of_def)
  moreover have "{b. ((mpcs s)(a := Acquired)) b = Suspended \<and> b \<notin> woken s - {a}} = {b. mpcs s b = Suspended \<and> b \<notin> woken s}"
    using assms(3) by auto
  moreover have "((mpcs s)(a := Acquired)) b = Inside \<longleftrightarrow> mpcs s b = Inside" for b using assms(2) by auto
  moreover have "\<forall>b \<in> woken s - {a}. ((mpcs s)(a := Acquired)) b = Suspended" using d(4) by auto
  ultimately show ?thesis using d(1,2,3,5) by (simp add: m_inv_def)
qed

lemma m_inv_own:
  assumes "m_inv s" and "mpcs s a = Acquired"
  shows "m_inv (mgoto a Inside (s\<lparr>mtx := (mtx s)\<lparr>mtx_owner := Some a, mtx_lwp_ptr := l\<rparr>\<rparr>))"
proof -
  note d = m_invD [OF assms(1)]
  have "mpcs s b \<noteq> Inside" if "b \<noteq> a" for b
  proof
    assume "mpcs s b = Inside"
    then have "ticket_of s a \<in> {Holds, Hands}" "ticket_of s b \<in> {Holds, Hands}" using assms(2) by (simp_all add: ticket_of_def)
    then show False using tickets_okD(2) [OF d(1)] that by blast
  qed
  moreover have "ticket_of (mgoto a Inside (s\<lparr>mtx := (mtx s)\<lparr>mtx_owner := Some a, mtx_lwp_ptr := l\<rparr>\<rparr>)) = ticket_of s"
    using assms(2) by (auto simp: ticket_mgoto ticket_of_def)
  moreover have "{b. ((mpcs s)(a := Inside)) b = Suspended \<and> b \<notin> woken s} = {b. mpcs s b = Suspended \<and> b \<notin> woken s}" using assms(2) by auto
  moreover have "\<forall>b \<in> woken s. ((mpcs s)(a := Inside)) b = Suspended" using d(4) assms(2) by auto
  ultimately show ?thesis using d(1-3) by (simp add: m_inv_def)
qed

lemma m_inv_exit_call:
  assumes "m_inv s" and "mpcs s a = Inside"
  shows "m_inv (mgoto a ExitSub (s\<lparr>mtx := (mtx s)\<lparr>mtx_owner := None, mtx_lwp_ptr := 0\<rparr>\<rparr>))"
proof -
  note d = m_invD [OF assms(1)]
  have "mpcs s b \<noteq> Inside" if "b \<noteq> a" for b using d(5) [of a] d(5) [of b] assms(2) that by auto
  moreover have "ticket_of (mgoto a ExitSub (s\<lparr>mtx := (mtx s)\<lparr>mtx_owner := None, mtx_lwp_ptr := 0\<rparr>\<rparr>)) = ticket_of s"
    using assms(2) by (auto simp: ticket_mgoto ticket_of_def)
  moreover have "{b. ((mpcs s)(a := ExitSub)) b = Suspended \<and> b \<notin> woken s} = {b. mpcs s b = Suspended \<and> b \<notin> woken s}" using assms(2) by auto
  moreover have "\<forall>b \<in> woken s. ((mpcs s)(a := ExitSub)) b = Suspended" using d(4) assms(2) by auto
  ultimately show ?thesis using d(1-3) by (simp add: m_inv_def)
qed

lemma exit_finds_lock:
  assumes "m_inv s" and "mpcs s a = ExitSub"
  shows "0 < mtx_counter (mtx s)"
  using counter_zero [OF m_invD(1) [OF assms(1)]] assms(2) by (metis ticket_of_def pc_ticket_simps(12) ticket.distinct(1) gr0I)

lemma m_inv_exit_sub:
  assumes "m_inv s" and "mpcs s a = ExitSub"
  shows "m_inv (exit_sub a s)"
proof -
  note t = m_invD(1) [OF assms(1)]
  have h: "ticket_of s a = Holds" using assms(2) by (simp add: ticket_of_def)
  consider "mtx_counter (mtx s) = Suc 0" | "1 < mtx_counter (mtx s)" using exit_finds_lock [OF assms] by linarith
  then show ?thesis
  proof cases
    case 1
    then have "exit_sub a s = mgoto a Out (s\<lparr>mtx := (mtx s)\<lparr>mtx_counter := 0\<rparr>\<rparr>)" by (simp add: exit_sub_def)
    moreover have "m_inv (mgoto a Out (s\<lparr>mtx := (mtx s)\<lparr>mtx_counter := 0\<rparr>\<rparr>))"
      using assms ticket_release [of "ticket_of s" a] t h 1 by (intro m_inv_count) (simp_all del: fun_upd_apply)
    ultimately show ?thesis by simp
  next
    case 2
    then have "exit_sub a s = mgoto a ExitSpin (s\<lparr>mtx := (mtx s)\<lparr>mtx_counter := mtx_counter (mtx s) - 1\<rparr>\<rparr>)"
      by (simp add: exit_sub_def Let_def)
    moreover have "m_inv (mgoto a ExitSpin (s\<lparr>mtx := (mtx s)\<lparr>mtx_counter := mtx_counter (mtx s) - 1\<rparr>\<rparr>))"
      using assms ticket_hand [OF t h 2] by (intro m_inv_count) (simp_all del: fun_upd_apply)
    ultimately show ?thesis by simp
  qed
qed

lemma m_inv_exit_pop:
  assumes "m_inv s" and "mpcs s a = ExitPop"
  shows "m_inv (exit_pop a s)"
proof (cases "mtx_waitlist (mtx s)")
  case Nil
  then show ?thesis using m_inv_quiet [OF assms(1), of ExitSpin a] assms(2) by (simp add: exit_pop_def ticket_of_def)
next
  case (Cons n ws)
  note d = m_invD [OF assms(1)]
  define s' where "s' = mgoto a Out (s\<lparr>mtx := (mtx s)\<lparr>mtx_waitlist := ws\<rparr>, woken := insert n (woken s)\<rparr>)"
  have n: "mpcs s n = Suspended" "n \<notin> woken s" using d(3) Cons by auto
  then have an: "a \<noteq> n" using assms(2) by auto
  have "ticket_of s' = (ticket_of s)(a := NoTicket, n := Holds)" using n an by (auto simp: s'_def ticket_of_def)
  moreover have "ticket_of s a = Hands" "ticket_of s n = Waits" using assms(2) n by (simp_all add: ticket_of_def)
  ultimately have t: "tickets_ok (ticket_of s') (mtx_counter (mtx s'))" using ticket_pass [OF d(1)] by (simp add: s'_def)
  have ws: "set ws = {b. mpcs s b = Suspended \<and> b \<notin> woken s} - {n}" "distinct ws" using d(2,3) Cons by auto
  have "set ws = {b. mpcs s' b = Suspended \<and> b \<notin> woken s'}" unfolding ws(1) using assms(2) by (auto simp: s'_def)
  moreover have "\<forall>b \<in> woken s'. mpcs s' b = Suspended" using d(4) n(1) an assms(2) by (auto simp: s'_def)
  moreover have "mtx_owner (mtx s') = Some b \<longleftrightarrow> mpcs s' b = Inside" for b
    using d(5) [of b] assms(2) by (cases "b = a") (simp_all add: s'_def)
  moreover have "mtx_waitlist (mtx s') = ws" by (simp add: s'_def)
  ultimately have "m_inv s'" using t ws(2) unfolding m_inv_def by blast
  then show ?thesis using Cons by (simp add: exit_pop_def s'_def)
qed

lemma m_inv_step:
  assumes "m_step a s s'" and "m_inv s"
  shows "m_inv s'"
  using assms
proof (cases rule: m_step.cases)
  case (try_cas c)
  then show ?thesis using assms(2) m_inv_quiet [OF assms(2)] m_inv_acquire [OF assms(2)]
    by (auto simp: try_enter_cas_def ticket_of_def)
next
  case spin_cas
  then show ?thesis using assms(2) m_inv_quiet [OF assms(2)] m_inv_acquire [OF assms(2)]
    by (auto simp: enter_nowrap_cas_def ticket_of_def)
next
  case add
  show ?thesis
  proof (cases "mtx_counter (mtx s) = 0")
    case True
    then show ?thesis using m_inv_acquire [OF assms(2) True, of a] add by (simp add: enter_add_def)
  next
    case False
    have "tickets_ok ((ticket_of s)(a := pc_ticket EnterPush (a \<in> woken s))) (Suc (mtx_counter (mtx s)))"
      using ticket_queue [OF m_invD(1) [OF assms(2)] _ False, of a] add by (simp add: ticket_of_def del: fun_upd_apply)
    from m_inv_count [OF assms(2) this] add False show ?thesis by (simp add: enter_add_def)
  qed
qed (use assms(2) m_inv_quiet [OF assms(2)] m_inv_push [OF assms(2)] m_inv_resume [OF assms(2)] m_inv_own [OF assms(2)]
    m_inv_exit_call [OF assms(2)] m_inv_exit_sub [OF assms(2)] m_inv_exit_pop [OF assms(2)] in
    \<open>simp_all add: try_enter_call_def enter_call_def ticket_of_def\<close>)

lemma m_reach_inv: "m_reach spin kmutex s \<Longrightarrow> m_inv s"
proof (induction rule: m_reach.induct)
  case m_start
  show ?case by (simp add: m_inv_def tickets_ok_def ticket_of_def Mutex_new_with_flags_def)
qed (rule m_inv_step)

lemma hand_over_pending:
  assumes "m_inv s" and "mpcs s a = ExitSpin \<or> mpcs s a = ExitPop"
  shows "mtx_waitlist (mtx s) \<noteq> [] \<or> (\<exists>b. mpcs s b = EnterPush \<or> mpcs s b = NoRoom)"
proof -
  have "ticket_of s a = Hands" using assms(2) by (auto simp: ticket_of_def)
  then obtain b where b: "ticket_of s b = Waits" using tickets_okD(4) [OF m_invD(1) [OF assms(1)]] by blast
  then have "mpcs s b = EnterPush \<or> mpcs s b = NoRoom \<or> mpcs s b = Suspended \<and> b \<notin> woken s"
    by (cases "mpcs s b") (auto simp: ticket_of_def split: if_splits)
  then show ?thesis using m_invD(3) [OF assms(1)] by (metis (mono_tags, lifting) empty_iff empty_set mem_Collect_eq)
qed

lemma waiter_not_forgotten:
  assumes "m_inv s" and "mpcs s a = Suspended"
  shows "a \<in> woken s \<or> a \<in> set (mtx_waitlist (mtx s)) \<and> (\<exists>b. b \<noteq> a \<and> (ticket_of s b = Holds \<or> ticket_of s b = Hands))"
proof (cases "a \<in> woken s")
  case False
  then have w: "ticket_of s a = Waits" using assms(2) by (simp add: ticket_of_def)
  from tickets_okD(5) [OF m_invD(1) [OF assms(1)] w] obtain b where b: "ticket_of s b \<in> {Holds, Hands}" ..
  then have "b \<noteq> a" using w by auto
  then have "\<exists>b. b \<noteq> a \<and> (ticket_of s b = Holds \<or> ticket_of s b = Hands)" using b by auto
  moreover have "a \<in> set (mtx_waitlist (mtx s))" using m_invD(3) [OF assms(1)] False assms(2) by simp
  ultimately show ?thesis by simp
qed simp

section \<open>Properties\<close>

text \<open>
  C17. The mutex of the user-level threads excludes: however the threads interleave, at most one is
  between a successful \<open>enter\<close>, \<open>enter_nowrap\<close> or \<open>try_enter\<close> and its \<open>exit\<close>, it is the recorded
  owner, and the counter is zero exactly while nobody holds the lock, waits for it or hands it over.
  No wake-up is lost: a suspended thread has been made runnable, or it is in the wait list and
  another thread holds the lock or is handing it over.  A thread that exits never finds the mutex
  released already, and one that waits for the list to fill has a thread to wait for.
\<close>

theorem mutex_excludes:
  assumes "m_reach is_spin is_kmutex s"
  shows "(mpcs s a = Inside \<and> mpcs s b = Inside \<longrightarrow> a = b) \<and> (mtx_owner (mtx s) = Some a \<longleftrightarrow> mpcs s a = Inside)
     \<and> (mtx_counter (mtx s) = 0 \<longleftrightarrow> (\<forall>c. ticket_of s c = NoTicket))
     \<and> (mpcs s a = Suspended \<longrightarrow> a \<in> woken s \<or>
          a \<in> set (mtx_waitlist (mtx s)) \<and> (\<exists>c. c \<noteq> a \<and> (ticket_of s c = Holds \<or> ticket_of s c = Hands)))
     \<and> (mpcs s a = ExitSub \<longrightarrow> 0 < mtx_counter (mtx s))
     \<and> (mpcs s a = ExitSpin \<or> mpcs s a = ExitPop \<longrightarrow>
          mtx_waitlist (mtx s) \<noteq> [] \<or> (\<exists>c. mpcs s c = EnterPush \<or> mpcs s c = NoRoom))"
proof -
  have i: "m_inv s" by (rule m_reach_inv [OF assms])
  have "mpcs s a = Inside \<and> mpcs s b = Inside \<longrightarrow> a = b" using m_invD(5) [OF i, of a] m_invD(5) [OF i, of b] by auto
  then show ?thesis
    using m_invD(5) [OF i] counter_zero [OF m_invD(1) [OF i]] waiter_not_forgotten [OF i] exit_finds_lock [OF i] hand_over_pending [OF i]
    by blast
qed

definition own_by :: "nat \<Rightarrow> nat \<Rightarrow> msys \<Rightarrow> msys" where
  "own_by a l s = mgoto a Inside (s\<lparr>mtx := (mtx s)\<lparr>mtx_owner := Some a, mtx_lwp_ptr := l\<rparr>\<rparr>)"

definition fresh_mutex :: msys where
  "fresh_mutex = \<lparr>mtx = Mutex_new_with_flags False True, mpcs = (\<lambda>_. Out), woken = {}\<rparr>"

definition contended_mutex :: msys where
  "contended_mutex = enter_push 2 (enter_add 2 (enter_call 2 (own_by 1 7 (enter_add 1 (enter_call 1 fresh_mutex)))))"

lemmas mutex_run_defs = contended_mutex_def fresh_mutex_def own_by_def enter_push_def enter_add_def enter_call_def
  Mutex_new_with_flags_def mgoto_def

lemma m_reach_fresh: "m_reach False True fresh_mutex"
  unfolding fresh_mutex_def by (rule m_start)

lemma m_reach_contended: "m_reach False True contended_mutex"
  unfolding contended_mutex_def
  by (rule m_next [where a = 2, OF _ m_step.push], rule m_next [where a = 2, OF _ m_step.add],
      rule m_next [where a = 2, OF _ m_step.call], subst own_by_def, rule m_next [where a = 1, OF _ m_step.own],
      rule m_next [where a = 1, OF _ m_step.add], rule m_next [where a = 1, OF m_reach_fresh m_step.call])
    (simp_all add: mutex_run_defs)

theorem mutex_excludes_witness:
  "m_reach False True contended_mutex \<and> mpcs contended_mutex 1 = Inside \<and> mpcs contended_mutex 2 = Suspended
     \<and> mtx_owner (mtx contended_mutex) = Some 1 \<and> mtx_waitlist (mtx contended_mutex) = [2] \<and> mtx_counter (mtx contended_mutex) = 2
     \<and> (\<exists>c. c \<noteq> 2 \<and> (ticket_of contended_mutex c = Holds \<or> ticket_of contended_mutex c = Hands))"
proof -
  have s: "mpcs contended_mutex 1 = Inside" "mpcs contended_mutex 2 = Suspended" "2 \<notin> woken contended_mutex"
    "mtx_waitlist (mtx contended_mutex) = [2]" "mtx_counter (mtx contended_mutex) = 2" by (simp_all add: mutex_run_defs)
  have "mtx_owner (mtx contended_mutex) = Some 1" using mutex_excludes [OF m_reach_contended, of 1 1] s(1) by blast
  then show ?thesis using mutex_excludes [OF m_reach_contended, of 2 2] s m_reach_contended by blast
qed

end
