(* ===== verification/LineupSched.thy ===== *)
theory LineupSched
  imports NrkPrelude
begin

text \<open>
  The scheduler of the user-level threads (\<open>lib/lineup/src/scheduler.rs\<close>, \<open>threads.rs\<close>): per core a
  queue of runnable threads and a list of waiting threads, and one table of threads for all cores.
  Every core runs the loop of \<open>run\<close>: it takes in interrupts and expired time-outs, takes the first
  runnable thread, and resumes it until a request of the thread forces a switch.  A step of a core is
  the choice of a thread or one resumption with the request it ends in; steps of cores interleave.
  The body of a thread is a generator of the library \<open>fringe\<close>: a parameter \<open>resume\<close> that maps the
  generator and the answer to its last request to the next request, if it does not end.  Stacks,
  thread-local storage and the upcalls for the rump kernel are left out.
\<close>

section \<open>Model\<close>

abbreviation MAX_THREADS :: nat where "MAX_THREADS \<equiv> 2048"
abbreviation MAX_CORES :: nat where "MAX_CORES \<equiv> 96"

text \<open>A request to spawn carries the generator that the function, its argument and the stack make.\<close>

datatype 'g YieldRequest = YieldNone | Timeout nat | Runnable nat | Unrunnable nat | RunnableList "nat list"
  | JoinOn nat | Spawn 'g nat "nat option" | SpawnWithArgs 'g nat "nat option"

datatype YieldResume = Completed | Interrupted | Spawned nat | DoNotResume

record Thread =
  th_affinity :: nat
  th_return_with :: "YieldResume option"
  th_interrupt_vector :: "nat option"
  th_joinlist :: "(nat \<times> nat) list"

definition Thread_new :: "nat \<Rightarrow> nat option \<Rightarrow> Thread" where
  "Thread_new affinity irq = \<lparr>th_affinity = affinity, th_return_with = None, th_interrupt_vector = irq, th_joinlist = []\<rparr>"

record 'g SmpScheduler =
  generators :: "nat \<rightharpoonup> 'g"
  threads :: "nat \<rightharpoonup> Thread"
  runnable :: "nat \<Rightarrow> nat list"
  waiting :: "nat \<Rightarrow> (nat \<times> nat) list"
  tid_counter :: nat
  irqvec_to_tid :: "nat \<rightharpoonup> nat"

type_synonym 'a sres = "(unit, 'a) result"

definition with_upcalls :: "'g SmpScheduler" where
  "with_upcalls = \<lparr>generators = Map.empty, threads = Map.empty, runnable = (\<lambda>_. []), waiting = (\<lambda>_. []), tid_counter = 0,
     irqvec_to_tid = Map.empty\<rparr>"

definition has_active_threads :: "'g SmpScheduler \<Rightarrow> bool" where
  "has_active_threads s \<longleftrightarrow> card (dom (threads s)) > 0"

definition push_runnable :: "nat \<Rightarrow> nat \<Rightarrow> 'g SmpScheduler \<Rightarrow> 'g SmpScheduler" where
  "push_runnable tid c s = s\<lparr>runnable := (runnable s)(c := runnable s c @ [tid])\<rparr>"

text \<open>The tables of the cores are an array: an affinity beyond it panics.\<close>

definition mark_runnable :: "nat \<Rightarrow> nat \<Rightarrow> 'g SmpScheduler \<Rightarrow> 'g SmpScheduler sres" where
  "mark_runnable tid affinity s = (if affinity < MAX_CORES then Ok (push_runnable tid affinity s) else Panic)"

definition mark_unrunnable :: "nat \<Rightarrow> nat \<Rightarrow> 'g SmpScheduler \<Rightarrow> 'g SmpScheduler sres" where
  "mark_unrunnable tid affinity s = (if affinity < MAX_CORES
     then Ok (s\<lparr>runnable := (runnable s)(affinity := filter (\<lambda>t. t \<noteq> tid) (runnable s affinity))\<rparr>) else Panic)"

definition waitlist_remove :: "nat \<Rightarrow> nat \<Rightarrow> 'g SmpScheduler \<Rightarrow> 'g SmpScheduler sres" where
  "waitlist_remove tid affinity s = (if affinity < MAX_CORES
     then Ok (s\<lparr>waiting := (waiting s)(affinity := filter (\<lambda>w. snd w \<noteq> tid) (waiting s affinity))\<rparr>) else Panic)"

text \<open>The wait list has the latest wake-up first; ties are broken by the thread.\<close>

fun later :: "nat \<times> nat \<Rightarrow> nat \<times> nat \<Rightarrow> bool" where
  "later (i, t) (j, u) \<longleftrightarrow> j < i \<or> i = j \<and> u < t"

text \<open>\<open>binary_search_by\<close>: \<open>Inr\<close> the place of the key, or \<open>Inl\<close> the place where it would go.\<close>

function wl_search :: "nat \<times> nat \<Rightarrow> (nat \<times> nat) list \<Rightarrow> nat \<Rightarrow> nat \<Rightarrow> nat + nat" where
  "wl_search k xs left right =
     (if left < right
      then let mid = left + (right - left) div 2 in
           if later (xs ! mid) k then wl_search k xs (mid + 1) right
           else if later k (xs ! mid) then wl_search k xs left mid
           else Inr mid
      else Inl left)"
  by pat_completeness auto
termination by (relation "measure (\<lambda>(k, xs, left, right). right - left)") auto

declare wl_search.simps [simp del]

definition waitlist_insert :: "nat \<Rightarrow> nat \<Rightarrow> nat \<Rightarrow> 'g SmpScheduler \<Rightarrow> 'g SmpScheduler sres" where
  "waitlist_insert tid affinity until s = (if affinity < MAX_CORES
     then let ws = waiting s affinity in
          case wl_search (until, tid) ws 0 (length ws) of
            Inl pos \<Rightarrow> Ok (s\<lparr>waiting := (waiting s)(affinity := take pos ws @ [(until, tid)] @ drop pos ws)\<rparr>)
          | Inr _ \<Rightarrow> Panic
     else Panic)"

definition add_thread :: "nat \<Rightarrow> Thread \<Rightarrow> 'g \<Rightarrow> 'g SmpScheduler \<Rightarrow> ('g SmpScheduler \<times> nat option) sres" where
  "add_thread tid handle g s =
     (if threads s tid \<noteq> None then Panic
      else if card (dom (threads s)) \<le> MAX_THREADS
           then Ok (s\<lparr>generators := (generators s)(tid \<mapsto> g), threads := (threads s)(tid \<mapsto> handle)\<rparr>, Some tid)
           else Ok (s, None))"

definition spawn_with_args :: "'g \<Rightarrow> nat \<Rightarrow> nat option \<Rightarrow> 'g SmpScheduler \<Rightarrow> ('g SmpScheduler \<times> nat option) sres" where
  "spawn_with_args g affinity irq s =
     (let tid = tid_counter s; s = s\<lparr>tid_counter := tid_counter s + 1\<rparr> in
      bind_result (add_thread tid (Thread_new affinity irq) g s) (\<lambda>(s, r). case r of
        None \<Rightarrow> Ok (s, None)
      | Some tid \<Rightarrow> bind_result (mark_runnable tid affinity s) (\<lambda>s.
          Ok (case irq of None \<Rightarrow> s | Some vec \<Rightarrow> s\<lparr>irqvec_to_tid := (irqvec_to_tid s)(vec \<mapsto> tid)\<rparr>, Some tid))))"

definition spawned :: "('g SmpScheduler \<times> nat option) sres \<Rightarrow> ('g SmpScheduler \<times> YieldResume) sres" where
  "spawned r = bind_result r (\<lambda>(s, t). case t of None \<Rightarrow> Panic | Some tid \<Rightarrow> Ok (s, Spawned tid))"

primrec mark_joiners :: "(nat \<times> nat) list \<Rightarrow> 'g SmpScheduler \<Rightarrow> 'g SmpScheduler sres" where
  "mark_joiners [] s = Ok s"
| "mark_joiners (j # js) s = bind_result (mark_runnable (fst j) (snd j) s) (mark_joiners js)"

definition make_runnable :: "nat \<Rightarrow> 'g SmpScheduler \<Rightarrow> 'g SmpScheduler sres" where
  "make_runnable rtid s = (case threads s rtid of None \<Rightarrow> Panic
     | Some th \<Rightarrow> bind_result (waitlist_remove rtid (th_affinity th) s) (mark_runnable rtid (th_affinity th)))"

primrec make_list_runnable :: "nat list \<Rightarrow> 'g SmpScheduler \<Rightarrow> 'g SmpScheduler sres" where
  "make_list_runnable [] s = Ok s"
| "make_list_runnable (t # ts) s = bind_result (make_runnable t s) (make_list_runnable ts)"

definition finish_thread :: "nat \<Rightarrow> nat \<Rightarrow> 'g SmpScheduler \<Rightarrow> 'g SmpScheduler sres" where
  "finish_thread tid affinity s = bind_result (mark_unrunnable tid affinity s) (\<lambda>s.
     case threads s tid of None \<Rightarrow> Panic
     | Some th \<Rightarrow> mark_joiners (th_joinlist th) (s\<lparr>threads := (threads s)(tid := None)\<rparr>))"

definition join_on :: "nat \<Rightarrow> nat \<Rightarrow> nat \<Rightarrow> 'g SmpScheduler \<Rightarrow> 'g SmpScheduler \<times> YieldResume" where
  "join_on tid affinity w s = (case threads s w of
       Some th \<Rightarrow> (s\<lparr>threads := (threads s)(w \<mapsto> th\<lparr>th_joinlist := th_joinlist th @ [(tid, affinity)]\<rparr>)\<rparr>, Interrupted)
     | None \<Rightarrow> (s, Completed))"

definition handle_yield_request :: "nat \<Rightarrow> 'g YieldRequest option \<Rightarrow> 'g SmpScheduler \<Rightarrow> ('g SmpScheduler \<times> YieldResume) sres" where
  "handle_yield_request tid req s = (case threads s tid of None \<Rightarrow> Panic | Some th \<Rightarrow>
     (let affinity = th_affinity th in case req of
        None \<Rightarrow> map_result (\<lambda>s. (s, DoNotResume)) (finish_thread tid affinity s)
      | Some YieldNone \<Rightarrow> map_result (\<lambda>s. (s, Interrupted)) (mark_runnable tid affinity s)
      | Some (Runnable rtid) \<Rightarrow> map_result (\<lambda>s. (s, Completed)) (make_runnable rtid s)
      | Some (Unrunnable rtid) \<Rightarrow> (case threads s rtid of None \<Rightarrow> Panic
          | Some rth \<Rightarrow> if rtid = tid then Ok (s, Interrupted)
                       else map_result (\<lambda>s. (s, Completed)) (mark_unrunnable rtid (th_affinity rth) s))
      | Some (RunnableList rtids) \<Rightarrow> map_result (\<lambda>s. (s, Completed)) (make_list_runnable rtids s)
      | Some (Timeout until) \<Rightarrow> map_result (\<lambda>s. (s, Interrupted)) (waitlist_insert tid affinity until s)
      | Some (JoinOn w) \<Rightarrow> Ok (join_on tid affinity w s)
      | Some (Spawn g a irq) \<Rightarrow> spawned (spawn_with_args g a irq s)
      | Some (SpawnWithArgs g a irq) \<Rightarrow> spawned (spawn_with_args g a irq s)))"

text \<open>
  \<open>check_wakeups\<close> pops the end of the wait list as long as its wake-up time has come; \<open>now i\<close> is what
  the \<open>i\<close>-th look at the clock shows.  The list is passed in the order it is popped in.
\<close>

primrec wake_loop :: "(nat \<Rightarrow> nat) \<Rightarrow> nat \<Rightarrow> nat \<Rightarrow> (nat \<times> nat) list \<Rightarrow> 'g SmpScheduler \<Rightarrow> 'g SmpScheduler" where
  "wake_loop now c i [] s = s\<lparr>waiting := (waiting s)(c := [])\<rparr>"
| "wake_loop now c i (w # ws) s =
     (if fst w \<le> now i then wake_loop now c (Suc i) ws (push_runnable (snd w) c s)
      else s\<lparr>waiting := (waiting s)(c := rev (w # ws))\<rparr>)"

definition check_wakeups :: "(nat \<Rightarrow> nat) \<Rightarrow> nat \<Rightarrow> 'g SmpScheduler \<Rightarrow> 'g SmpScheduler" where
  "check_wakeups now c s = wake_loop now c 0 (rev (waiting s c)) s"

primrec check_interrupt :: "nat \<Rightarrow> nat list \<Rightarrow> 'g SmpScheduler \<Rightarrow> 'g SmpScheduler" where
  "check_interrupt c [] s = s"
| "check_interrupt c (vec # vs) s =
     check_interrupt c vs (case irqvec_to_tid s vec of Some tid \<Rightarrow> push_runnable tid c s | None \<Rightarrow> s)"

text \<open>
  The state of all cores: what each core runs is the thread, its generator, which the table does not
  hold meanwhile, and the answer the thread gets when it is resumed.
\<close>

record 'g cores =
  sched :: "'g SmpScheduler"
  running :: "nat \<rightharpoonup> nat \<times> 'g \<times> YieldResume"

definition run_next :: "nat \<Rightarrow> nat list \<Rightarrow> (nat \<Rightarrow> nat) \<Rightarrow> 'g cores \<Rightarrow> 'g cores sres" where
  "run_next c irqs now m = (if c < MAX_CORES then
     let s = check_wakeups now c (check_interrupt c irqs (sched m)) in
     case runnable s c of
       [] \<Rightarrow> Ok (m\<lparr>sched := s\<rparr>)
     | tid # ts \<Rightarrow> (case generators s tid of None \<Rightarrow> Panic
         | Some g \<Rightarrow> (case threads s tid of None \<Rightarrow> Panic
           | Some th \<Rightarrow> Ok \<lparr>sched = s\<lparr>runnable := (runnable s)(c := ts), generators := (generators s)(tid := None)\<rparr>,
               running = (running m)(c \<mapsto> (tid, g, case th_return_with th of Some r \<Rightarrow> r | None \<Rightarrow> Completed))\<rparr>)) else Panic)"

definition after_request :: "nat \<Rightarrow> nat \<Rightarrow> 'g \<Rightarrow> 'g SmpScheduler \<times> YieldResume \<Rightarrow> 'g cores \<Rightarrow> 'g cores sres" where
  "after_request c tid g r m = (case r of
       (s, Interrupted) \<Rightarrow> (case threads s tid of None \<Rightarrow> Panic
         | Some _ \<Rightarrow> Ok \<lparr>sched = s\<lparr>generators := (generators s)(tid \<mapsto> g)\<rparr>, running = (running m)(c := None)\<rparr>)
     | (s, DoNotResume) \<Rightarrow> Ok \<lparr>sched = s, running = (running m)(c := None)\<rparr>
     | (s, a) \<Rightarrow> Ok \<lparr>sched = s, running = (running m)(c \<mapsto> (tid, g, a))\<rparr>)"

definition run_thread :: "('g \<Rightarrow> YieldResume \<Rightarrow> 'g YieldRequest option \<times> 'g) \<Rightarrow> nat \<Rightarrow> 'g cores \<Rightarrow> 'g cores sres" where
  "run_thread resume c m = (case running m c of None \<Rightarrow> Ok m
     | Some (tid, g, a) \<Rightarrow> (case resume g a of (req, g') \<Rightarrow>
         bind_result (handle_yield_request tid req (sched m)) (\<lambda>r. after_request c tid g' r m)))"

section \<open>The wait list\<close>

lemma later_trans: "later a b \<Longrightarrow> later b c \<Longrightarrow> later a c"
  by (cases a; cases b; cases c) auto

lemma later_total: "\<not> later a b \<Longrightarrow> \<not> later b a \<Longrightarrow> a = b"
  by (cases a; cases b) auto

lemma later_irrefl [simp]: "\<not> later a a"
  by (cases a) simp

lemma sorted_later_split:
  assumes "sorted_wrt later xs" and "m < length xs"
  shows "later (xs ! m) k \<Longrightarrow> i \<le> m \<Longrightarrow> later (xs ! i) k" and "later k (xs ! m) \<Longrightarrow> m \<le> i \<Longrightarrow> i < length xs \<Longrightarrow> later k (xs ! i)"
proof -
  note mono = sorted_wrt_nth_less [OF assms(1)]
  show "later (xs ! i) k" if "later (xs ! m) k" "i \<le> m"
    using that mono [of i m] assms(2) later_trans by (cases "i = m") auto
  show "later k (xs ! i)" if "later k (xs ! m)" "m \<le> i" "i < length xs"
    using that mono [of m i] later_trans by (cases "i = m") auto
qed

definition insertion_point :: "nat \<times> nat \<Rightarrow> (nat \<times> nat) list \<Rightarrow> nat \<Rightarrow> bool" where
  "insertion_point k xs p \<longleftrightarrow> p \<le> length xs \<and> (\<forall>i < p. later (xs ! i) k) \<and> (\<forall>i. p \<le> i \<and> i < length xs \<longrightarrow> later k (xs ! i))"

lemma wl_search_ok:
  assumes "sorted_wrt later xs" and "left \<le> right" and "right \<le> length xs" and "\<forall>i < left. later (xs ! i) k"
    and "\<forall>i. right \<le> i \<and> i < length xs \<longrightarrow> later k (xs ! i)"
  shows "case wl_search k xs left right of Inl p \<Rightarrow> insertion_point k xs p | Inr p \<Rightarrow> p < length xs \<and> xs ! p = k"
  using assms
proof (induction k xs left right rule: wl_search.induct)
  case (1 k xs left right)
  show ?case
  proof (cases "left < right")
    case False
    then show ?thesis using "1.prems" by (subst wl_search.simps) (auto simp: insertion_point_def)
  next
    case True
    define mid where "mid = left + (right - left) div 2"
    have mid: "left \<le> mid" "mid < right" "mid < length xs" using True "1.prems"(3) by (auto simp: mid_def)
    note split = sorted_later_split [OF "1.prems"(1) mid(3), of k]
    consider (up) "later (xs ! mid) k" | (down) "\<not> later (xs ! mid) k" "later k (xs ! mid)" | (here) "\<not> later (xs ! mid) k" "\<not> later k (xs ! mid)"
      by blast
    then show ?thesis
    proof cases
      case up
      have "\<forall>i < mid + 1. later (xs ! i) k" using split(1) [OF up] by auto
      then have "case wl_search k xs (mid + 1) right of Inl p \<Rightarrow> insertion_point k xs p | Inr p \<Rightarrow> p < length xs \<and> xs ! p = k"
        using "1.IH"(1) [OF True mid_def up "1.prems"(1)] mid "1.prems" by simp
      then show ?thesis using True up by (subst wl_search.simps) (simp add: mid_def Let_def)
    next
      case down
      have "\<forall>i. mid \<le> i \<and> i < length xs \<longrightarrow> later k (xs ! i)" using split(2) [OF down(2)] by auto
      then have "case wl_search k xs left mid of Inl p \<Rightarrow> insertion_point k xs p | Inr p \<Rightarrow> p < length xs \<and> xs ! p = k"
        using "1.IH"(2) [OF True mid_def down "1.prems"(1)] mid "1.prems" by simp
      then show ?thesis using True down by (subst wl_search.simps) (simp add: mid_def Let_def)
    next
      case here
      then show ?thesis using True mid later_total [of "xs ! mid" k] by (subst wl_search.simps) (simp add: mid_def Let_def)
    qed
  qed
qed

lemma insert_sorted:
  assumes "sorted_wrt later xs" and "insertion_point k xs p"
  shows "sorted_wrt later (take p xs @ [k] @ drop p xs)"
proof -
  have "x \<in> set (take p xs) \<Longrightarrow> later x k" for x using assms(2) by (auto simp: in_set_conv_nth insertion_point_def)
  moreover have "x \<in> set (drop p xs) \<Longrightarrow> later k x" for x
    using assms(2) by (auto simp: in_set_conv_nth insertion_point_def)
  moreover have "sorted_wrt later (take p xs @ drop p xs)" using assms(1) by simp
  ultimately show ?thesis using later_trans unfolding sorted_wrt_append by auto
qed

lemma set_insert_at: "set (take p xs @ [k] @ drop p xs) = insert k (set xs)"
  by (metis append_take_drop_id set_append Un_insert_right insert_is_Un list.simps(15) append.simps(1,2) list.set(1))

lemma distinct_insert_at: "distinct (map snd xs) \<Longrightarrow> snd k \<notin> snd ` set xs \<Longrightarrow> distinct (map snd (take p xs @ [k] @ drop p xs))"
proof -
  assume d: "distinct (map snd xs)" and k: "snd k \<notin> snd ` set xs"
  have "distinct (map snd (take p xs @ drop p xs))" using d by simp
  moreover have "snd k \<notin> snd ` set (take p xs)" "snd k \<notin> snd ` set (drop p xs)"
    using k set_take_subset [of p xs] set_drop_subset [of p xs] by blast+
  ultimately show ?thesis by (simp del: append_take_drop_id)
qed

lemma waitlist_insert_ok:
  assumes "affinity < MAX_CORES" and "sorted_wrt later (waiting s affinity)" and "(until, tid) \<notin> set (waiting s affinity)"
  shows "\<exists>p. insertion_point (until, tid) (waiting s affinity) p \<and> waitlist_insert tid affinity until s
     = Ok (s\<lparr>waiting := (waiting s)(affinity := take p (waiting s affinity) @ [(until, tid)] @ drop p (waiting s affinity))\<rparr>)"
proof -
  have "case wl_search (until, tid) (waiting s affinity) 0 (length (waiting s affinity)) of
      Inl p \<Rightarrow> insertion_point (until, tid) (waiting s affinity) p
    | Inr p \<Rightarrow> p < length (waiting s affinity) \<and> waiting s affinity ! p = (until, tid)"
    by (rule wl_search_ok [OF assms(2)]) auto
  moreover have "\<not> (p < length (waiting s affinity) \<and> waiting s affinity ! p = (until, tid))" for p using assms(3) nth_mem by metis
  ultimately show ?thesis using assms(1)
    by (cases "wl_search (until, tid) (waiting s affinity) 0 (length (waiting s affinity))") (auto simp: waitlist_insert_def Let_def)
qed

section \<open>Wake-ups\<close>

text \<open>What \<open>check_wakeups\<close> comes down to: the list splits where a wake-up is still to come.\<close>

lemma wake_loop_splits:
  "\<exists>k \<le> length ws. wake_loop now c i ws s = s\<lparr>runnable := (runnable s)(c := runnable s c @ map snd (take k ws)),
       waiting := (waiting s)(c := rev (drop k ws))\<rparr> \<and> (\<forall>j < k. fst (ws ! j) \<le> now (i + j)) \<and> (k < length ws \<longrightarrow> now (i + k) < fst (ws ! k))"
proof (induction ws arbitrary: i s)
  case Nil
  show ?case by (rule exI [of _ 0]) (simp add: fun_upd_def)
next
  case (Cons w ws)
  show ?case
  proof (cases "fst w \<le> now i")
    case False
    then show ?thesis by (intro exI [of _ 0]) (simp add: fun_upd_def)
  next
    case True
    from Cons.IH [of "Suc i" "push_runnable (snd w) c s"] obtain k where k: "k \<le> length ws"
      "wake_loop now c (Suc i) ws (push_runnable (snd w) c s) = (push_runnable (snd w) c s)\<lparr>
         runnable := (runnable (push_runnable (snd w) c s))(c := runnable (push_runnable (snd w) c s) c @ map snd (take k ws)),
         waiting := (waiting (push_runnable (snd w) c s))(c := rev (drop k ws))\<rparr>"
      "\<forall>j < k. fst (ws ! j) \<le> now (Suc i + j)" "k < length ws \<longrightarrow> now (Suc i + k) < fst (ws ! k)" by blast
    have "\<forall>j < Suc k. fst ((w # ws) ! j) \<le> now (i + j)" using True k(3) by (auto simp: less_Suc_eq_0_disj)
    moreover have "wake_loop now c i (w # ws) s = s\<lparr>runnable := (runnable s)(c := runnable s c @ map snd (take (Suc k) (w # ws))),
       waiting := (waiting s)(c := rev (drop (Suc k) (w # ws)))\<rparr>"
      using True k(2) by (simp add: push_runnable_def)
    ultimately show ?thesis using k(1,4) by (intro exI [of _ "Suc k"]) (simp add: fun_upd_def)
  qed
qed

definition wakes :: "(nat \<Rightarrow> nat) \<Rightarrow> (nat \<times> nat) list \<Rightarrow> nat \<Rightarrow> bool" where
  "wakes now ws k \<longleftrightarrow> k \<le> length ws \<and> (\<forall>j < k. fst (rev ws ! j) \<le> now j) \<and> (k < length ws \<longrightarrow> now k < fst (rev ws ! k))"

lemma check_wakeups_splits:
  "\<exists>k. wakes now (waiting s c) k \<and> check_wakeups now c s =
     s\<lparr>runnable := (runnable s)(c := runnable s c @ map snd (take k (rev (waiting s c)))),
       waiting := (waiting s)(c := take (length (waiting s c) - k) (waiting s c))\<rparr>"
  using wake_loop_splits [of "rev (waiting s c)" now c 0 s]
  by (auto simp: wakes_def check_wakeups_def rev_drop)

lemma later_times: "later a b \<Longrightarrow> fst b \<le> fst a"
  by (cases a; cases b) auto

lemma wake_order:
  assumes "sorted_wrt later ws" and "i \<le> j" and "j < length ws"
  shows "fst (rev ws ! i) \<le> fst (rev ws ! j)"
proof (cases "i = j")
  case False
  then have "later (ws ! (length ws - Suc j)) (ws ! (length ws - Suc i))"
    using assms by (intro sorted_wrt_nth_less [OF assms(1)]) auto
  then show ?thesis using later_times assms False by (simp add: rev_nth)
qed simp

section \<open>Where a thread is\<close>

definition on_core :: "'g SmpScheduler \<Rightarrow> nat \<Rightarrow> nat \<Rightarrow> bool" where
  "on_core s t c \<longleftrightarrow> (\<exists>th. threads s t = Some th \<and> th_affinity th = c)"

definition joined :: "'g SmpScheduler \<Rightarrow> nat \<Rightarrow> nat \<Rightarrow> nat \<Rightarrow> bool" where
  "joined s t a x \<longleftrightarrow> (\<exists>th. threads s x = Some th \<and> (t, a) \<in> set (th_joinlist th))"

definition in_join :: "'g SmpScheduler \<Rightarrow> nat \<Rightarrow> bool" where
  "in_join s t \<longleftrightarrow> (\<exists>a x. joined s t a x)"

definition idle :: "'g SmpScheduler \<Rightarrow> (nat \<rightharpoonup> nat) \<Rightarrow> nat \<Rightarrow> nat \<Rightarrow> bool" where
  "idle s R t c \<longleftrightarrow> on_core s t c \<and> t \<notin> set (runnable s c) \<and> R c \<noteq> Some t"

text \<open>
  Runnable and running threads exist and are on their core; a thread that waits for its time-out or
  for the end of another thread is in one such place only and neither runnable nor running.
\<close>

definition queues_ok :: "'g SmpScheduler \<Rightarrow> (nat \<rightharpoonup> nat) \<Rightarrow> bool" where
  "queues_ok s R \<longleftrightarrow> (\<forall>c t. t \<in> set (runnable s c) \<longrightarrow> on_core s t c) \<and> (\<forall>c t. R c = Some t \<longrightarrow> on_core s t c)
     \<and> (\<forall>c w. w \<in> set (waiting s c) \<longrightarrow> idle s R (snd w) c)
     \<and> (\<forall>c. sorted_wrt later (waiting s c)) \<and> (\<forall>c. distinct (map snd (waiting s c)))
     \<and> (\<forall>t a x. joined s t a x \<longrightarrow> idle s R t a \<and> t \<notin> snd ` set (waiting s a))
     \<and> (\<forall>t a b x y. joined s t a x \<longrightarrow> joined s t b y \<longrightarrow> x = y)
     \<and> (\<forall>t th. threads s t = Some th \<longrightarrow> t < tid_counter s \<and> th_affinity th < MAX_CORES)"

lemma queues_okI:
  assumes "\<And>c t. t \<in> set (runnable s c) \<Longrightarrow> on_core s t c" and "\<And>c t. R c = Some t \<Longrightarrow> on_core s t c"
    and "\<And>c w. w \<in> set (waiting s c) \<Longrightarrow> idle s R (snd w) c" and "\<And>c. sorted_wrt later (waiting s c)"
    and "\<And>c. distinct (map snd (waiting s c))" and "\<And>t a x. joined s t a x \<Longrightarrow> idle s R t a"
    and "\<And>t a x. joined s t a x \<Longrightarrow> t \<notin> snd ` set (waiting s a)" and "\<And>t a b x y. joined s t a x \<Longrightarrow> joined s t b y \<Longrightarrow> x = y"
    and "\<And>t th. threads s t = Some th \<Longrightarrow> t < tid_counter s \<and> th_affinity th < MAX_CORES"
  shows "queues_ok s R"
  unfolding queues_ok_def by (intro conjI allI impI) (rule assms; assumption | blast dest: assms(9))+

lemma queues_okD:
  assumes "queues_ok s R"
  shows "t \<in> set (runnable s c) \<Longrightarrow> on_core s t c" and "R c = Some t \<Longrightarrow> on_core s t c"
    and "w \<in> set (waiting s c) \<Longrightarrow> idle s R (snd w) c" and "sorted_wrt later (waiting s c)"
    and "distinct (map snd (waiting s c))" and "joined s t a x \<Longrightarrow> idle s R t a"
    and "joined s t a x \<Longrightarrow> t \<notin> snd ` set (waiting s a)" and "joined s t a x \<Longrightarrow> joined s t b y \<Longrightarrow> x = y"
    and "threads s t = Some th \<Longrightarrow> t < tid_counter s \<and> th_affinity th < MAX_CORES"
  using assms unfolding queues_ok_def by (elim conjE, (elim allE)?, metis)+

lemma on_core_unique: "on_core s t c \<Longrightarrow> on_core s t d \<Longrightarrow> c = d"
  by (auto simp: on_core_def)

lemma on_core_bound: "queues_ok s R \<Longrightarrow> on_core s t c \<Longrightarrow> c < MAX_CORES"
  by (auto simp: on_core_def dest: queues_okD(9))

lemma same_threads:
  assumes "threads s' = threads s"
  shows "on_core s' = on_core s" and "joined s' = joined s" and "in_join s' = in_join s"
proof -
  show j: "joined s' = joined s" using assms by (intro ext) (simp add: joined_def)
  show "on_core s' = on_core s" using assms by (intro ext) (simp add: on_core_def)
  show "in_join s' = in_join s" using j by (intro ext) (simp add: in_join_def)
qed

text \<open>Fewer places: taking threads out of queues keeps the invariant.\<close>

definition part :: "(nat \<times> nat) list \<Rightarrow> (nat \<times> nat) list \<Rightarrow> bool" where
  "part xs ys \<longleftrightarrow> (\<exists>P n. xs = filter P (take n ys))"

lemma partI [simp]: "part xs xs" "part (filter P xs) xs" "part (take n xs) xs" "part [] xs"
proof -
  show "part xs xs" unfolding part_def by (intro exI [of _ "\<lambda>_. True"] exI [of _ "length xs"]) simp
  show "part (filter P xs) xs" unfolding part_def by (intro exI [of _ P] exI [of _ "length xs"]) simp
  show "part (take n xs) xs" unfolding part_def by (intro exI [of _ "\<lambda>_. True"] exI [of _ n]) simp
  show "part [] xs" unfolding part_def by (intro exI [of _ "\<lambda>_. True"] exI [of _ 0]) simp
qed

lemma partD:
  assumes "part xs ys"
  shows "set xs \<subseteq> set ys" and "sorted_wrt later ys \<Longrightarrow> sorted_wrt later xs" and "distinct (map snd ys) \<Longrightarrow> distinct (map snd xs)"
proof -
  obtain P n where x: "xs = filter P (take n ys)" using assms unfolding part_def by blast
  show "set xs \<subseteq> set ys" using x set_take_subset [of n ys] by auto
  show "sorted_wrt later xs" if "sorted_wrt later ys" using that unfolding x by (intro sorted_wrt_filter sorted_wrt_take)
  show "distinct (map snd xs)" if "distinct (map snd ys)"
    using that unfolding x by (intro distinct_map_filter) (simp add: take_map [symmetric])
qed

lemma queues_ok_shrink:
  assumes "queues_ok s R" and "threads s' = threads s" and "tid_counter s' = tid_counter s"
    and "\<And>c. set (runnable s' c) \<subseteq> set (runnable s c)" and "\<And>c. part (waiting s' c) (waiting s c)"
    and "\<And>c t. R' c = Some t \<Longrightarrow> R c = Some t"
  shows "queues_ok s' R'"
proof -
  note d = queues_okD [OF assms(1)] and same = same_threads [OF assms(2)]
  have sub: "set (waiting s' c) \<subseteq> set (waiting s c)" for c using partD(1) [OF assms(5) [of c]] .
  have idle: "idle s R t c \<Longrightarrow> idle s' R' t c" for t c using assms(4) [of c] assms(6) same(1) by (auto simp: idle_def)
  show ?thesis
  proof (rule queues_okI)
    show "on_core s' t c" if "t \<in> set (runnable s' c)" for c t using that d(1) assms(4) same(1) by auto
    show "on_core s' t c" if "R' c = Some t" for c t using that d(2) assms(6) same(1) by auto
    show "idle s' R' (snd w) c" if "w \<in> set (waiting s' c)" for c w using that sub d(3) idle by blast
    show "sorted_wrt later (waiting s' c)" for c using partD(2) [OF assms(5) d(4)] .
    show "distinct (map snd (waiting s' c))" for c using partD(3) [OF assms(5) d(5)] .
    show "idle s' R' t a" if "joined s' t a x" for t a x using that d(6) idle same(2) by simp
    show "t \<notin> snd ` set (waiting s' a)" if "joined s' t a x" for t a x
      using d(7) that sub [of a] unfolding same(2) by (meson image_mono in_mono)
    show "x = y" if "joined s' t a x" "joined s' t b y" for t a b x y using that d(8) same(2) by auto
    show "t < tid_counter s' \<and> th_affinity th < MAX_CORES" if "threads s' t = Some th" for t th using that d(9) assms(2,3) by auto
  qed
qed

lemma push_simps [simp]:
  "threads (push_runnable t c s) = threads s" "generators (push_runnable t c s) = generators s"
  "waiting (push_runnable t c s) = waiting s" "tid_counter (push_runnable t c s) = tid_counter s"
  "irqvec_to_tid (push_runnable t c s) = irqvec_to_tid s"
  "runnable (push_runnable t c s) = (runnable s)(c := runnable s c @ [t])"
  by (simp_all add: push_runnable_def)

text \<open>A thread that is in no other place may be put into the queue of its core.\<close>

lemma push_queues_ok:
  assumes "queues_ok s R" and "on_core s t c" and "t \<notin> snd ` set (waiting s c)" and "\<not> in_join s t"
  shows "queues_ok (push_runnable t c s) R"
proof -
  note d = queues_okD [OF assms(1)]
  have same: "on_core (push_runnable t c s) = on_core s" "joined (push_runnable t c s) = joined s"
    by (rule same_threads; simp add: push_runnable_def)+
  have idle: "idle (push_runnable t c s) R u a" if "idle s R u a" "u \<noteq> t" for u a
    using that same(1) by (auto simp: idle_def push_runnable_def)
  show ?thesis
  proof (rule queues_okI)
    show "on_core (push_runnable t c s) u a" if "u \<in> set (runnable (push_runnable t c s) a)" for a u
      using that d(1) assms(2) unfolding same by (auto simp: push_runnable_def split: if_splits)
    show "idle (push_runnable t c s) R (snd w) a" if "w \<in> set (waiting (push_runnable t c s) a)" for a w
    proof (rule idle)
      have w: "w \<in> set (waiting s a)" using that by (simp add: push_runnable_def)
      then show i: "idle s R (snd w) a" by (rule d(3))
      show "snd w \<noteq> t" using w i assms(2,3) on_core_unique [of s t c a] by (auto simp: idle_def)
    qed
    show "idle (push_runnable t c s) R u a" if "joined (push_runnable t c s) u a x" for u a x
      using that d(6) idle assms(4) unfolding same in_join_def by blast
    show "x = y" if "joined (push_runnable t c s) u a x" "joined (push_runnable t c s) u b y" for u a b x y
      using that d(8) unfolding same by blast
    show "u \<notin> snd ` set (waiting (push_runnable t c s) a)" if "joined (push_runnable t c s) u a x" for u a x
      using that d(7) unfolding same by simp
    show "on_core (push_runnable t c s) u a" if "R a = Some u" for u a using that d(2) unfolding same by simp
  qed (use d in simp_all)
qed

lemma mark_runnable_ok:
  assumes "queues_ok s R" and "on_core s t c" and "t \<notin> snd ` set (waiting s c)" and "\<not> in_join s t"
  shows "mark_runnable t c s = Ok (push_runnable t c s)" and "queues_ok (push_runnable t c s) R"
  using push_queues_ok [OF assms] on_core_bound [OF assms(1,2)] by (simp_all add: mark_runnable_def)

section \<open>Requests keep the invariant\<close>

definition kept :: "'g SmpScheduler \<Rightarrow> 'g SmpScheduler \<Rightarrow> bool" where
  "kept s s' \<longleftrightarrow> threads s' = threads s \<and> generators s' = generators s \<and> tid_counter s' = tid_counter s \<and> irqvec_to_tid s' = irqvec_to_tid s"

lemma kept_refl [simp]: "kept s s"
  by (simp add: kept_def)

lemma kept_trans: "kept s s' \<Longrightarrow> kept s' s'' \<Longrightarrow> kept s s''"
  by (simp add: kept_def)

lemma kept_push [simp]: "kept s (push_runnable t c s)"
  by (simp add: kept_def push_runnable_def)

lemma make_runnable_ok:
  assumes "queues_ok s R" and "threads s t \<noteq> None" and "\<not> in_join s t"
  shows "\<exists>s'. make_runnable t s = Ok s' \<and> queues_ok s' R \<and> kept s s'"
proof -
  obtain th where th: "threads s t = Some th" using assms(2) by auto
  define a where "a = th_affinity th"
  define u where "u = s\<lparr>waiting := (waiting s)(a := filter (\<lambda>w. snd w \<noteq> t) (waiting s a))\<rparr>"
  have a: "on_core s t a" using th by (simp add: on_core_def a_def)
  have b: "a < MAX_CORES" by (rule on_core_bound [OF assms(1) a])
  have u: "queues_ok u R" using assms(1) by (rule queues_ok_shrink) (simp_all add: u_def)
  have same: "on_core u = on_core s" "in_join u = in_join s" by (rule same_threads; simp add: u_def)+
  have "mark_runnable t a u = Ok (push_runnable t a u)" "queues_ok (push_runnable t a u) R"
    by (rule mark_runnable_ok [OF u]; use a assms(3) same in \<open>auto simp: u_def\<close>)+
  moreover have "kept s (push_runnable t a u)" by (simp add: kept_def push_runnable_def u_def)
  moreover have "make_runnable t s = mark_runnable t a u"
    using th b by (simp add: make_runnable_def waitlist_remove_def a_def [symmetric] u_def)
  ultimately show ?thesis by simp
qed

lemma make_list_runnable_ok:
  assumes "queues_ok s R" and "\<forall>t \<in> set ts. threads s t \<noteq> None \<and> \<not> in_join s t"
  shows "\<exists>s'. make_list_runnable ts s = Ok s' \<and> queues_ok s' R \<and> kept s s'"
  using assms
proof (induction ts arbitrary: s)
  case (Cons t ts)
  from make_runnable_ok [of s R t] Cons.prems obtain u where u: "make_runnable t s = Ok u" "queues_ok u R" "kept s u" by auto
  have "\<forall>t \<in> set ts. threads u t \<noteq> None \<and> \<not> in_join u t"
    using Cons.prems(2) u(3) same_threads(3) [of u s] by (simp add: kept_def)
  from Cons.IH [OF u(2) this] show ?case using u kept_trans by auto
qed simp

lemma mark_unrunnable_ok:
  assumes "queues_ok s R" and "on_core s t a"
  shows "\<exists>s'. mark_unrunnable t a s = Ok s' \<and> queues_ok s' R \<and> kept s s'"
proof -
  have "queues_ok (s\<lparr>runnable := (runnable s)(a := filter (\<lambda>u. u \<noteq> t) (runnable s a))\<rparr>) R"
    using assms(1) by (rule queues_ok_shrink) auto
  then show ?thesis using on_core_bound [OF assms] by (simp add: mark_unrunnable_def kept_def)
qed

lemma mark_joiners_ok:
  assumes "queues_ok s R" and "\<forall>(t, a) \<in> set js. on_core s t a \<and> t \<notin> snd ` set (waiting s a) \<and> \<not> in_join s t"
  shows "\<exists>s'. mark_joiners js s = Ok s' \<and> queues_ok s' R \<and> kept s s'
     \<and> (\<forall>c. runnable s' c = runnable s c @ map fst (filter (\<lambda>j. snd j = c) js))"
  using assms
proof (induction js arbitrary: s)
  case (Cons j js)
  obtain t a where j: "j = (t, a)" by (cases j)
  have p: "on_core s t a" "t \<notin> snd ` set (waiting s a)" "\<not> in_join s t" using Cons.prems(2) j by auto
  note m = mark_runnable_ok [OF Cons.prems(1) p]
  have "on_core (push_runnable t a s) = on_core s" "in_join (push_runnable t a s) = in_join s"
    by (rule same_threads; simp add: push_runnable_def)+
  then have "\<forall>(u, b) \<in> set js. on_core (push_runnable t a s) u b \<and> u \<notin> snd ` set (waiting (push_runnable t a s) b)
      \<and> \<not> in_join (push_runnable t a s) u"
    using Cons.prems(2) by (auto simp: push_runnable_def)
  from Cons.IH [OF m(2) this] obtain s' where s': "mark_joiners js (push_runnable t a s) = Ok s'" "queues_ok s' R"
    "kept (push_runnable t a s) s'"
    "\<forall>c. runnable s' c = runnable (push_runnable t a s) c @ map fst (filter (\<lambda>j. snd j = c) js)" by blast
  have "mark_joiners (j # js) s = Ok s'" using m(1) s'(1) j by simp
  moreover have "kept s s'" using kept_trans [OF kept_push s'(3)] .
  moreover have "\<forall>c. runnable s' c = runnable s c @ map fst (filter (\<lambda>j. snd j = c) (j # js))"
    using s'(4) j by (auto simp: push_runnable_def)
  ultimately show ?case using s'(2) by blast
qed simp

text \<open>The end of a thread: those that wait for it become runnable on their cores, in order.\<close>

definition without_thread :: "nat \<Rightarrow> nat \<Rightarrow> 'g SmpScheduler \<Rightarrow> 'g SmpScheduler" where
  "without_thread t c s = s\<lparr>runnable := (runnable s)(c := filter (\<lambda>u. u \<noteq> t) (runnable s c)), threads := (threads s)(t := None)\<rparr>"

lemma without_thread_simps [simp]:
  "threads (without_thread t c s) = (threads s)(t := None)" "waiting (without_thread t c s) = waiting s"
  "tid_counter (without_thread t c s) = tid_counter s" "generators (without_thread t c s) = generators s"
  "irqvec_to_tid (without_thread t c s) = irqvec_to_tid s" "on_core (without_thread t c s) v b \<longleftrightarrow> on_core s v b \<and> v \<noteq> t"
  by (auto simp: without_thread_def on_core_def)

lemma without_running:
  assumes "queues_ok s R" and "R c = Some t"
  shows "joined (without_thread t c s) v a x \<Longrightarrow> joined s v a x \<and> v \<noteq> t" and "runnable (without_thread t c s) b = filter (\<lambda>v. v \<noteq> t) (runnable s b)"
    and "idle s R v b \<Longrightarrow> v \<noteq> t" and "(R(c := None)) b = Some v \<Longrightarrow> v \<noteq> t"
proof -
  note d = queues_okD [OF assms(1)]
  have oc: "on_core s t c" by (rule d(2) [OF assms(2)])
  show i: "v \<noteq> t" if "idle s R v b" for v b using that assms(2) oc on_core_unique [of s t c b] by (auto simp: idle_def)
  show "joined s v a x \<and> v \<noteq> t" if "joined (without_thread t c s) v a x"
  proof -
    have j: "joined s v a x" using that by (auto simp: joined_def split: if_splits)
    then show ?thesis using i d(6) by blast
  qed
  show "runnable (without_thread t c s) b = filter (\<lambda>v. v \<noteq> t) (runnable s b)"
  proof (cases "b = c")
    case False
    then have "t \<notin> set (runnable s b)" using d(1) oc on_core_unique by blast
    then have "filter (\<lambda>v. v \<noteq> t) (runnable s b) = runnable s b" by (intro filter_True) blast
    then show ?thesis using False by (simp add: without_thread_def)
  qed (simp add: without_thread_def)
  show "v \<noteq> t" if R: "(R(c := None)) b = Some v"
  proof
    assume "v = t"
    then have "b \<noteq> c" "R b = Some t" using R by (simp_all split: if_splits)
    then show False using d(2) oc on_core_unique by blast
  qed
qed

lemma without_thread_ok:
  assumes "queues_ok s R" and "R c = Some t"
  shows "queues_ok (without_thread t c s) (R(c := None))"
proof -
  note d = queues_okD [OF assms(1)] and w = without_running [OF assms]
  have idle: "idle (without_thread t c s) (R(c := None)) v b" if "idle s R v b" for v b
    using that w(3) [OF that] unfolding idle_def w(2) by simp
  show ?thesis
  proof (rule queues_okI)
    show "on_core (without_thread t c s) v b" if "v \<in> set (runnable (without_thread t c s) b)" for b v using that d(1) unfolding w(2) by simp
    show "on_core (without_thread t c s) v b" if "(R(c := None)) b = Some v" for b v using that w(4) [OF that] d(2) by (simp split: if_splits)
    show "idle (without_thread t c s) (R(c := None)) (snd x) b" if "x \<in> set (waiting (without_thread t c s) b)" for b x
      using that d(3) idle by simp
    show "idle (without_thread t c s) (R(c := None)) v a" if "joined (without_thread t c s) v a x" for v a x using w(1) [OF that] d(6) idle by blast
    show "v \<notin> snd ` set (waiting (without_thread t c s) a)" if "joined (without_thread t c s) v a x" for v a x
      using w(1) [OF that] d(7) [of v a x] by simp
    show "x = y" if "joined (without_thread t c s) v a x" "joined (without_thread t c s) v b y" for v a b x y using that w(1) d(8) by blast
    show "v < tid_counter (without_thread t c s) \<and> th_affinity h < MAX_CORES" if "threads (without_thread t c s) v = Some h" for v h
      using that d(9) by (simp split: if_splits)
  qed (use d in simp_all)
qed

lemma joiners_free:
  assumes "queues_ok s R" and "R c = Some t" and "threads s t = Some th" and "(v, a) \<in> set (th_joinlist th)"
  shows "on_core (without_thread t c s) v a" and "v \<notin> snd ` set (waiting s a)" and "\<not> in_join (without_thread t c s) v"
proof -
  note d = queues_okD [OF assms(1)] and w = without_running [OF assms(1,2)]
  have j: "joined s v a t" using assms(3,4) by (auto simp: joined_def)
  show "on_core (without_thread t c s) v a" using d(6) [OF j] w(3) by (auto simp: idle_def)
  show "v \<notin> snd ` set (waiting s a)" by (rule d(7) [OF j])
  show "\<not> in_join (without_thread t c s) v"
  proof
    assume "in_join (without_thread t c s) v"
    then obtain b x where x: "joined (without_thread t c s) v b x" unfolding in_join_def by blast
    then have "x = t" using w(1) d(8) j by blast
    then show False using x by (simp add: joined_def)
  qed
qed

lemma finish_thread_ok:
  assumes "queues_ok s R" and "R c = Some t" and "threads s t = Some th"
  shows "\<exists>s'. finish_thread t c s = Ok s' \<and> queues_ok s' (R(c := None)) \<and> threads s' = (threads s)(t := None)
     \<and> generators s' = generators s
     \<and> (\<forall>d. runnable s' d = filter (\<lambda>u. u \<noteq> t) (runnable s d) @ map fst (filter (\<lambda>j. snd j = d) (th_joinlist th)))"
proof -
  have "\<forall>(v, a) \<in> set (th_joinlist th). on_core (without_thread t c s) v a \<and> v \<notin> snd ` set (waiting (without_thread t c s) a)
      \<and> \<not> in_join (without_thread t c s) v"
  proof (intro ballI case_prodI2)
    fix x v a assume "x \<in> set (th_joinlist th)" "x = (v, a)"
    then show "on_core (without_thread t c s) v a \<and> v \<notin> snd ` set (waiting (without_thread t c s) a)
      \<and> \<not> in_join (without_thread t c s) v"
      using joiners_free [OF assms, of v a] by simp
  qed
  from mark_joiners_ok [OF without_thread_ok [OF assms(1,2)] this] obtain s' where
    s': "mark_joiners (th_joinlist th) (without_thread t c s) = Ok s'" "queues_ok s' (R(c := None))" "kept (without_thread t c s) s'"
    "\<forall>d. runnable s' d = runnable (without_thread t c s) d @ map fst (filter (\<lambda>j. snd j = d) (th_joinlist th))" by blast
  have "finish_thread t c s = Ok s'"
    using s'(1) assms(3) on_core_bound [OF assms(1) queues_okD(2) [OF assms(1,2)]]
    by (simp add: finish_thread_def mark_unrunnable_def without_thread_def)
  then show ?thesis using s' without_running(2) [OF assms(1,2)] by (auto simp: kept_def)
qed

lemma waitlist_insert_queues:
  assumes "queues_ok s R" and "R c = Some t" and "t \<notin> set (runnable s c)"
  shows "\<exists>s'. waitlist_insert t c until s = Ok s' \<and> queues_ok s' (R(c := None)) \<and> kept s s'"
proof -
  note d = queues_okD [OF assms(1)]
  have oc: "on_core s t c" by (rule d(2) [OF assms(2)])
  have nw: "t \<notin> snd ` set (waiting s b)" for b
    using d(3) [of _ b] oc on_core_unique assms(2) by (fastforce simp: idle_def)
  then have "(until, t) \<notin> set (waiting s c)" by force
  from waitlist_insert_ok [OF on_core_bound [OF assms(1) oc] d(4) this] obtain p where
    p: "insertion_point (until, t) (waiting s c) p" "waitlist_insert t c until s
     = Ok (s\<lparr>waiting := (waiting s)(c := take p (waiting s c) @ [(until, t)] @ drop p (waiting s c))\<rparr>)" by blast
  define u where "u = s\<lparr>waiting := (waiting s)(c := take p (waiting s c) @ [(until, t)] @ drop p (waiting s c))\<rparr>"
  have same: "on_core u = on_core s" "joined u = joined s" by (rule same_threads; simp add: u_def)+
  have wc: "waiting u c = take p (waiting s c) @ [(until, t)] @ drop p (waiting s c)" by (simp add: u_def)
  have wb: "b \<noteq> c \<Longrightarrow> waiting u b = waiting s b" for b by (simp add: u_def)
  have set: "set (waiting u b) = (if b = c then insert (until, t) (set (waiting s c)) else set (waiting s b))" for b
    using set_insert_at [of p "waiting s c" "(until, t)"] wb wc by simp
  have idle: "idle s R v b \<Longrightarrow> idle u (R(c := None)) v b" for v b unfolding idle_def same by (simp add: u_def)
  have "queues_ok u (R(c := None))"
  proof (rule queues_okI)
    show "on_core u v b" if "v \<in> set (runnable u b)" for b v using that d(1) unfolding same by (simp add: u_def)
    show "on_core u v b" if "(R(c := None)) b = Some v" for b v using that d(2) unfolding same by (simp split: if_splits)
    show "idle u (R(c := None)) (snd w) b" if "w \<in> set (waiting u b)" for b w
    proof (cases "b = c \<and> w = (until, t)")
      case True
      then show ?thesis using oc assms(3) unfolding idle_def same by (simp add: u_def)
    next
      case False
      then have "w \<in> set (waiting s b)" using that unfolding set by (auto split: if_splits)
      then show ?thesis by (intro idle d(3))
    qed
    show "sorted_wrt later (waiting u b)" for b
      using insert_sorted [OF d(4) p(1)] d(4) wb wc by (cases "b = c") simp_all
    show "distinct (map snd (waiting u b))" for b
      using distinct_insert_at [OF d(5), of "(until, t)" c p] nw d(5) wb wc by (cases "b = c") simp_all
    show "idle u (R(c := None)) v a" if "joined u v a x" for v a x using that d(6) idle unfolding same by blast
    show "v \<notin> snd ` set (waiting u a)" if "joined u v a x" for v a x
    proof -
      have j: "joined s v a x" using that unfolding same .
      have "\<not> (a = c \<and> v = t)" using d(6) [OF j] assms(2) by (auto simp: idle_def)
      then show ?thesis using d(7) [OF j] unfolding set by auto
    qed
    show "x = y" if "joined u v a x" "joined u v b y" for v a b x y using that d(8) unfolding same by blast
    show "v < tid_counter u \<and> th_affinity h < MAX_CORES" if "threads u v = Some h" for v h using that d(9) by (simp add: u_def)
  qed
  then show ?thesis using p(2) by (simp add: u_def kept_def)
qed

lemma join_on_ok:
  assumes "queues_ok s R" and "R c = Some t" and "t \<notin> set (runnable s c)" and "threads s w = Some th"
  shows "\<exists>s'. join_on t c w s = (s', Interrupted) \<and> queues_ok s' (R(c := None)) \<and> dom (threads s') = dom (threads s)
     \<and> generators s' = generators s"
proof -
  note d = queues_okD [OF assms(1)]
  have oc: "on_core s t c" by (rule d(2) [OF assms(2)])
  define u where "u = s\<lparr>threads := (threads s)(w \<mapsto> th\<lparr>th_joinlist := th_joinlist th @ [(t, c)]\<rparr>)\<rparr>"
  have on: "on_core u = on_core s" using assms(4) by (intro ext) (auto simp: on_core_def u_def)
  have J: "joined u v a x \<longleftrightarrow> joined s v a x \<or> v = t \<and> a = c \<and> x = w" for v a x
    using assms(4) by (auto simp: joined_def u_def)
  have nj: "\<not> joined s t a x" for a x
    using d(6) [of t a x] assms(2) oc on_core_unique [of s t c a] by (auto simp: idle_def)
  have nw: "t \<notin> snd ` set (waiting s c)" using d(3) [of _ c] assms(2) by (auto simp: idle_def)
  have idle: "idle s R v b \<Longrightarrow> idle u (R(c := None)) v b" for v b unfolding idle_def on by (simp add: u_def)
  have it: "idle u (R(c := None)) t c" using oc assms(3) unfolding idle_def on by (simp add: u_def)
  have "queues_ok u (R(c := None))"
  proof (rule queues_okI)
    show "on_core u v b" if "v \<in> set (runnable u b)" for b v using that d(1) unfolding on by (simp add: u_def)
    show "on_core u v b" if "(R(c := None)) b = Some v" for b v using that d(2) unfolding on by (simp split: if_splits)
    show "idle u (R(c := None)) (snd w) b" if "w \<in> set (waiting u b)" for b w using that by (intro idle d(3)) (simp add: u_def)
    show "idle u (R(c := None)) v a" if "joined u v a x" for v a x using that d(6) idle it unfolding J by blast
    show "v \<notin> snd ` set (waiting u a)" if "joined u v a x" for v a x using that d(7) nw unfolding J by (auto simp: u_def)
    show "x = y" if "joined u v a x" "joined u v b y" for v a b x y using that d(8) nj unfolding J by blast
    show "v < tid_counter u \<and> th_affinity h < MAX_CORES" if "threads u v = Some h" for v h
      using that d(9) [of v] d(9) [OF assms(4)] by (auto simp: u_def split: if_splits)
  qed (use d in \<open>simp_all add: u_def\<close>)
  then show ?thesis using assms(4) by (auto simp: join_on_def u_def)
qed

lemma spawn_with_args_ok:
  assumes "queues_ok s R" and "a < MAX_CORES" and "card (dom (threads s)) \<le> MAX_THREADS"
  shows "\<exists>s'. spawn_with_args g a irq s = Ok (s', Some (tid_counter s)) \<and> queues_ok s' R
     \<and> threads s' = (threads s)(tid_counter s \<mapsto> Thread_new a irq) \<and> generators s' = (generators s)(tid_counter s \<mapsto> g)
     \<and> threads s (tid_counter s) = None"
proof -
  note d = queues_okD [OF assms(1)]
  define n where "n = tid_counter s"
  have fresh: "threads s n = None" using d(9) [of n] by (cases "threads s n") (auto simp: n_def)
  define u where "u = s\<lparr>tid_counter := n + 1, generators := (generators s)(n \<mapsto> g), threads := (threads s)(n \<mapsto> Thread_new a irq)\<rparr>"
  have on: "on_core u v b \<longleftrightarrow> on_core s v b \<or> v = n \<and> b = a" for v b using fresh by (auto simp: on_core_def u_def Thread_new_def)
  have J: "joined u = joined s" using fresh by (intro ext) (auto simp: joined_def u_def Thread_new_def)
  have idle: "idle s R v b \<Longrightarrow> idle u R v b" for v b unfolding idle_def on by (simp add: u_def)
  have new: "\<not> on_core s n b" for b using fresh by (simp add: on_core_def)
  have q: "queues_ok u R"
  proof (rule queues_okI)
    show "on_core u v b" if "v \<in> set (runnable u b)" for b v using that d(1) unfolding on by (simp add: u_def)
    show "on_core u v b" if "R b = Some v" for b v using that d(2) unfolding on by blast
    show "idle u R (snd w) b" if "w \<in> set (waiting u b)" for b w using that by (intro idle d(3)) (simp add: u_def)
    show "idle u R v b" if "joined u v b x" for v b x using that d(6) idle unfolding J by blast
    show "v \<notin> snd ` set (waiting u b)" if "joined u v b x" for v b x using that d(7) unfolding J by (simp add: u_def)
    show "x = y" if "joined u v b x" "joined u v e y" for v b e x y using that d(8) unfolding J by blast
    show "v < tid_counter u \<and> th_affinity h < MAX_CORES" if "threads u v = Some h" for v h
      using that d(9) [of v] assms(2) by (auto simp: u_def n_def Thread_new_def split: if_splits)
  qed (use d in \<open>simp_all add: u_def\<close>)
  have "on_core u n a" unfolding on by simp
  moreover have "n \<notin> snd ` set (waiting u a)" using d(3) [of _ a] new by (auto simp: u_def idle_def)
  moreover have "\<not> in_join u n" using d(6) new unfolding in_join_def J idle_def by blast
  ultimately have m: "mark_runnable n a u = Ok (push_runnable n a u)" "queues_ok (push_runnable n a u) R"
    using mark_runnable_ok [OF q] by blast+
  define s' where "s' = (case irq of None \<Rightarrow> push_runnable n a u | Some vec \<Rightarrow> (push_runnable n a u)\<lparr>irqvec_to_tid := (irqvec_to_tid u)(vec \<mapsto> n)\<rparr>)"
  have "queues_ok s' R" using m(2) by (rule queues_ok_shrink) (auto simp: s'_def split: option.splits)
  moreover have "spawn_with_args g a irq s = Ok (s', Some n)"
    using m(1) fresh assms(3) by (simp add: spawn_with_args_def add_thread_def s'_def u_def n_def Let_def split: option.splits)
  moreover have "threads s' = (threads s)(n \<mapsto> Thread_new a irq)" "generators s' = (generators s)(n \<mapsto> g)"
    by (simp_all add: s'_def u_def split: option.splits)
  ultimately show ?thesis using fresh unfolding n_def by blast
qed

text \<open>
  What threads are asked to respect: they name threads that exist, they do not wake a thread that
  waits for the end of another one, they do not wait while they are already runnable again, and
  they spawn on a core that exists and while there is room.
\<close>

definition wakeable :: "'g SmpScheduler \<Rightarrow> nat \<Rightarrow> bool" where
  "wakeable s t \<longleftrightarrow> threads s t \<noteq> None \<and> \<not> in_join s t"

fun polite :: "'g SmpScheduler \<Rightarrow> nat \<Rightarrow> nat \<Rightarrow> 'g YieldRequest option \<Rightarrow> bool" where
  "polite s c t None \<longleftrightarrow> True"
| "polite s c t (Some YieldNone) \<longleftrightarrow> True"
| "polite s c t (Some (Timeout _)) \<longleftrightarrow> t \<notin> set (runnable s c)"
| "polite s c t (Some (Runnable r)) \<longleftrightarrow> wakeable s r"
| "polite s c t (Some (Unrunnable r)) \<longleftrightarrow> threads s r \<noteq> None"
| "polite s c t (Some (RunnableList rs)) \<longleftrightarrow> (\<forall>r \<in> set rs. wakeable s r)"
| "polite s c t (Some (JoinOn w)) \<longleftrightarrow> threads s w = None \<or> t \<notin> set (runnable s c)"
| "polite s c t (Some (Spawn g a irq)) \<longleftrightarrow> a < MAX_CORES \<and> card (dom (threads s)) \<le> MAX_THREADS"
| "polite s c t (Some (SpawnWithArgs g a irq)) \<longleftrightarrow> a < MAX_CORES \<and> card (dom (threads s)) \<le> MAX_THREADS"

text \<open>What a request may do to the tables, where \<open>t\<close> is the thread that makes it.\<close>

definition tables_ok :: "nat \<Rightarrow> YieldResume \<Rightarrow> 'g SmpScheduler \<Rightarrow> 'g SmpScheduler \<Rightarrow> bool" where
  "tables_ok t a s s' \<longleftrightarrow> (\<exists>N. N \<inter> dom (threads s) = {} \<and> dom (generators s') = dom (generators s) \<union> N
     \<and> dom (threads s') = (if a = DoNotResume then dom (threads s) - {t} else dom (threads s) \<union> N) \<and> (a = DoNotResume \<longrightarrow> N = {}))"

definition leaves :: "YieldResume \<Rightarrow> bool" where
  "leaves a \<longleftrightarrow> a = Interrupted \<or> a = DoNotResume"

lemma tables_kept: "kept s s' \<Longrightarrow> a \<noteq> DoNotResume \<Longrightarrow> tables_ok t a s s'"
  unfolding tables_ok_def kept_def by (intro exI [of _ "{}"]) simp

lemma spawned_ok:
  assumes "queues_ok s R" and "a < MAX_CORES" and "card (dom (threads s)) \<le> MAX_THREADS"
  shows "\<exists>s' r. spawned (spawn_with_args g a irq s) = Ok (s', r) \<and> queues_ok s' (if leaves r then R(c := None) else R) \<and> tables_ok t r s s'"
proof -
  from spawn_with_args_ok [OF assms, of g irq] obtain s' where s': "spawn_with_args g a irq s = Ok (s', Some (tid_counter s))"
    "queues_ok s' R" "threads s' = (threads s)(tid_counter s \<mapsto> Thread_new a irq)" "generators s' = (generators s)(tid_counter s \<mapsto> g)"
    "threads s (tid_counter s) = None" by blast
  then have "tables_ok t (Spawned (tid_counter s)) s s'"
    unfolding tables_ok_def by (intro exI [of _ "{tid_counter s}"]) auto
  then show ?thesis using s'(1,2) by (auto simp: spawned_def leaves_def)
qed

lemma queues_ok_leave: "queues_ok s R \<Longrightarrow> queues_ok s (R(c := None))"
  by (erule queues_ok_shrink) (simp_all split: if_splits)

lemma handle_yield_request_ok:
  assumes "queues_ok s R" and "R c = Some t" and "polite s c t req"
  shows "\<exists>s' a. handle_yield_request t req s = Ok (s', a) \<and> queues_ok s' (if leaves a then R(c := None) else R) \<and> tables_ok t a s s'"
proof -
  note d = queues_okD [OF assms(1)]
  have oc: "on_core s t c" by (rule d(2) [OF assms(2)])
  then obtain th where th: "threads s t = Some th" "th_affinity th = c" unfolding on_core_def by blast
  note h = handle_yield_request_def th leaves_def tables_kept
  show ?thesis
  proof (cases req)
    case None
    from finish_thread_ok [OF assms(1,2) th(1)] obtain s' where s': "finish_thread t c s = Ok s'" "queues_ok s' (R(c := None))"
      "threads s' = (threads s)(t := None)" "generators s' = generators s" by blast
    have "tables_ok t DoNotResume s s'" unfolding tables_ok_def s' by (intro exI [of _ "{}"]) auto
    then show ?thesis using None s'(1,2) by (simp add: h)
  next
    case (Some q)
    note [simp] = h Some
    show ?thesis
    proof (cases q)
      case YieldNone
      have "\<not> in_join s t" using d(6) assms(2) oc on_core_unique [of s t c] unfolding in_join_def idle_def by blast
      moreover have "t \<notin> snd ` set (waiting s c)" using d(3) [of _ c] assms(2) by (auto simp: idle_def)
      ultimately show ?thesis using YieldNone mark_runnable_ok [OF assms(1) oc] queues_ok_leave by auto
    next
      case (Timeout until)
      then show ?thesis using waitlist_insert_queues [OF assms(1,2), of until] assms(3) by auto
    next
      case (Runnable r)
      then show ?thesis using make_runnable_ok [OF assms(1), of r] assms(3) by (auto simp: wakeable_def)
    next
      case (Unrunnable r)
      then obtain rth where "threads s r = Some rth" using assms(3) by auto
      moreover from this have "on_core s r (th_affinity rth)" by (simp add: on_core_def)
      ultimately show ?thesis
        using Unrunnable mark_unrunnable_ok [OF assms(1), of r "th_affinity rth"] queues_ok_leave [OF assms(1)] by auto
    next
      case (RunnableList rs)
      then show ?thesis using make_list_runnable_ok [OF assms(1), of rs] assms(3) by (auto simp: wakeable_def)
    next
      case (JoinOn w)
      show ?thesis
      proof (cases "threads s w")
        case None
        then show ?thesis using JoinOn assms(1) by (simp add: join_on_def)
      next
        case (Some wth)
        from join_on_ok [OF assms(1,2) _ Some] JoinOn assms(3) Some obtain s' where
          s': "join_on t c w s = (s', Interrupted)" "queues_ok s' (R(c := None))" "dom (threads s') = dom (threads s)" "generators s' = generators s"
          by auto
        have "tables_ok t Interrupted s s'" unfolding tables_ok_def using s'(3,4) by (intro exI [of _ "{}"]) simp
        then show ?thesis using JoinOn s'(1,2) by simp
      qed
    next
      case (Spawn g a irq)
      then show ?thesis using spawned_ok [OF assms(1)] assms(3) by simp
    next
      case (SpawnWithArgs g a irq)
      then show ?thesis using spawned_ok [OF assms(1)] assms(3) by simp
    qed
  qed
qed

section \<open>The cores keep the invariant\<close>

definition runs :: "'g cores \<Rightarrow> nat \<rightharpoonup> nat" where
  "runs m c = map_option fst (running m c)"

definition cores_ok :: "'g cores \<Rightarrow> bool" where
  "cores_ok m \<longleftrightarrow> queues_ok (sched m) (runs m) \<and> dom (generators (sched m)) = dom (threads (sched m)) - ran (runs m)"

lemma runs_upd: "runs \<lparr>sched = s, running = (running m)(c := r)\<rparr> = (runs m)(c := map_option fst r)"
  by (auto simp: runs_def)

lemma runs_sched [simp]: "runs (m\<lparr>sched := s\<rparr>) = runs m"
  by (auto simp: runs_def)

lemma runs_unique: "queues_ok s R \<Longrightarrow> R c = Some t \<Longrightarrow> ran (R(c := None)) = ran R - {t}"
  using queues_okD(2) [of s R] on_core_unique [of s t c] by (fastforce simp: ran_def split: if_splits)

lemma running_exists: "queues_ok s R \<Longrightarrow> ran R \<subseteq> dom (threads s)"
  using queues_okD(2) [of s R] by (fastforce simp: ran_def on_core_def)

lemma run_thread_ok:
  assumes "cores_ok m" and "running m c = Some (t, g, a)" and "polite (sched m) c t (fst (resume g a))"
  shows "\<exists>m'. run_thread resume c m = Ok m' \<and> cores_ok m'"
proof -
  have q: "queues_ok (sched m) (runs m)" and g: "dom (generators (sched m)) = dom (threads (sched m)) - ran (runs m)"
    using assms(1) by (simp_all add: cores_ok_def)
  have t: "runs m c = Some t" using assms(2) by (simp add: runs_def)
  obtain req g' where r: "resume g a = (req, g')" by (cases "resume g a")
  then have "polite (sched m) c t req" using assms(3) by simp
  from handle_yield_request_ok [OF q t this] obtain s' b where h: "handle_yield_request t req (sched m) = Ok (s', b)"
    "queues_ok s' (if leaves b then (runs m)(c := None) else runs m)" "tables_ok t b (sched m) s'" by blast
  have run: "run_thread resume c m = after_request c t g' (s', b) m" using assms(2) r h(1) by (simp add: run_thread_def)
  obtain N where N: "N \<inter> dom (threads (sched m)) = {}" "dom (generators s') = dom (generators (sched m)) \<union> N"
    "dom (threads s') = (if b = DoNotResume then dom (threads (sched m)) - {t} else dom (threads (sched m)) \<union> N)"
    "b = DoNotResume \<longrightarrow> N = {}" using h(3) unfolding tables_ok_def by blast
  have live: "ran (runs m) \<subseteq> dom (threads (sched m))" by (rule running_exists [OF q])
  have rt: "t \<in> ran (runs m)" using t by (rule ranI)
  note un = runs_unique [OF q t]
  have tup: "(runs m)(c := Some t) = runs m" using t by auto
  show ?thesis
  proof (cases b)
    case Interrupted
    have "dom (generators s') \<union> {t} = dom (threads s') - ran ((runs m)(c := None))"
      unfolding un using N(1-3) g live rt Interrupted by auto
    moreover have "threads s' t \<noteq> None" using N(3) live rt Interrupted by (auto simp: dom_def)
    moreover have "queues_ok (s'\<lparr>generators := (generators s')(t \<mapsto> g')\<rparr>) ((runs m)(c := None))"
      by (rule queues_ok_shrink [of s' "(runs m)(c := None)"]) (use h(2) Interrupted in \<open>simp_all add: leaves_def\<close>)
    ultimately show ?thesis unfolding run by (auto simp: after_request_def Interrupted cores_ok_def runs_upd)
  next
    case DoNotResume
    have "dom (generators s') = dom (threads s') - ran ((runs m)(c := None))"
      unfolding un using N g live rt DoNotResume by auto
    then show ?thesis unfolding run using h(2) by (simp add: after_request_def DoNotResume cores_ok_def runs_upd leaves_def)
  next
    case Completed
    have "dom (generators s') = dom (threads s') - ran (runs m)" using N(1-3) g live Completed by auto
    then show ?thesis unfolding run using h(2) tup by (simp add: after_request_def Completed cores_ok_def runs_upd leaves_def)
  next
    case (Spawned n)
    have "dom (generators s') = dom (threads s') - ran (runs m)" using N(1-3) g live Spawned by auto
    then show ?thesis unfolding run using h(2) tup by (simp add: after_request_def Spawned cores_ok_def runs_upd leaves_def)
  qed
qed

text \<open>Interrupts are for threads of this core that are in no other place.\<close>

definition irqs_polite :: "'g SmpScheduler \<Rightarrow> nat \<Rightarrow> nat list \<Rightarrow> bool" where
  "irqs_polite s c irqs \<longleftrightarrow> (\<forall>vec \<in> set irqs. \<forall>t. irqvec_to_tid s vec = Some t \<longrightarrow>
     on_core s t c \<and> t \<notin> snd ` set (waiting s c) \<and> \<not> in_join s t)"

lemma check_interrupt_ok:
  assumes "queues_ok s R" and "irqs_polite s c irqs"
  shows "queues_ok (check_interrupt c irqs s) R \<and> kept s (check_interrupt c irqs s)"
  using assms
proof (induction irqs arbitrary: s)
  case (Cons vec irqs)
  define u where "u = (case irqvec_to_tid s vec of Some tid \<Rightarrow> push_runnable tid c s | None \<Rightarrow> s)"
  have u: "kept s u" "waiting u = waiting s" by (simp_all add: u_def split: option.splits)
  have same: "on_core u = on_core s" "in_join u = in_join s" by (rule same_threads; use u(1) in \<open>simp add: kept_def\<close>)+
  have "queues_ok u R" using Cons.prems push_queues_ok [OF Cons.prems(1)] by (auto simp: u_def irqs_polite_def split: option.splits)
  moreover have "irqs_polite u c irqs" using Cons.prems(2) u unfolding irqs_polite_def same by (simp add: kept_def)
  ultimately show ?case using Cons.IH [of u] kept_trans [OF u(1)] by (simp add: u_def [symmetric])
qed simp

lemma push_all_ok:
  assumes "queues_ok s R" and "\<And>t. t \<in> set ts \<Longrightarrow> on_core s t c \<and> t \<notin> snd ` set (waiting s c) \<and> \<not> in_join s t"
  shows "queues_ok (s\<lparr>runnable := (runnable s)(c := runnable s c @ ts)\<rparr>) R"
  using assms
proof (induction ts arbitrary: s)
  case Nil
  then show ?case by simp
next
  case (Cons t ts)
  define u where "u = push_runnable t c s"
  have same: "on_core u = on_core s" "in_join u = in_join s" by (rule same_threads; simp add: u_def)+
  have "queues_ok u R" unfolding u_def using Cons.prems(2) [of t] by (intro push_queues_ok [OF Cons.prems(1)]) simp_all
  then have "queues_ok (u\<lparr>runnable := (runnable u)(c := runnable u c @ ts)\<rparr>) R"
    by (rule Cons.IH) (use Cons.prems(2) in \<open>simp only: same, simp add: u_def\<close>)
  moreover have "u\<lparr>runnable := (runnable u)(c := runnable u c @ ts)\<rparr> = s\<lparr>runnable := (runnable s)(c := runnable s c @ t # ts)\<rparr>"
    unfolding u_def push_runnable_def by simp
  ultimately show ?case by (simp only:)
qed

lemma check_wakeups_ok:
  assumes "queues_ok s R"
  shows "queues_ok (check_wakeups now c s) R \<and> kept s (check_wakeups now c s)"
proof -
  note d = queues_okD [OF assms]
  from check_wakeups_splits [of now s c] obtain k where k: "check_wakeups now c s =
     s\<lparr>runnable := (runnable s)(c := runnable s c @ map snd (take k (rev (waiting s c)))),
       waiting := (waiting s)(c := take (length (waiting s c) - k) (waiting s c))\<rparr>" by blast
  define n where "n = length (waiting s c) - k"
  define u where "u = s\<lparr>waiting := (waiting s)(c := take n (waiting s c))\<rparr>"
  have same: "on_core u = on_core s" "in_join u = in_join s" by (rule same_threads; simp add: u_def)+
  have "queues_ok u R" using assms by (rule queues_ok_shrink) (simp_all add: u_def)
  moreover have "on_core u t c \<and> t \<notin> snd ` set (waiting u c) \<and> \<not> in_join u t" if t: "t \<in> set (map snd (take k (rev (waiting s c))))" for t
  proof -
    have dt: "t \<in> snd ` set (drop n (waiting s c))" using t by (simp add: take_rev n_def)
    then obtain w where w: "w \<in> set (waiting s c)" "t = snd w" using set_drop_subset [of n "waiting s c"] by blast
    have "distinct (map snd (take n (waiting s c) @ drop n (waiting s c)))" using d(5) [of c] by simp
    then have "t \<notin> snd ` set (take n (waiting s c))" using dt by (auto simp del: append_take_drop_id)
    moreover have "on_core s t c" using d(3) [OF w(1)] w(2) by (simp add: idle_def)
    moreover have "\<not> in_join s t" using d(6,7) w calculation(2) on_core_unique [of s t c] unfolding in_join_def idle_def by blast
    ultimately show ?thesis unfolding same by (simp add: u_def)
  qed
  ultimately have "queues_ok (u\<lparr>runnable := (runnable u)(c := runnable u c @ map snd (take k (rev (waiting s c))))\<rparr>) R"
    by (rule push_all_ok)
  moreover have "check_wakeups now c s = u\<lparr>runnable := (runnable u)(c := runnable u c @ map snd (take k (rev (waiting s c))))\<rparr>"
    unfolding k by (simp add: u_def n_def)
  ultimately show ?thesis by (simp add: u_def kept_def)
qed

lemma run_next_ok:
  assumes "cores_ok m" and "running m c = None" and "c < MAX_CORES" and "irqs_polite (sched m) c irqs"
  shows "\<exists>m'. run_next c irqs now m = Ok m' \<and> cores_ok m'"
proof -
  have q: "queues_ok (sched m) (runs m)" and g: "dom (generators (sched m)) = dom (threads (sched m)) - ran (runs m)"
    using assms(1) by (simp_all add: cores_ok_def)
  define s where "s = check_wakeups now c (check_interrupt c irqs (sched m))"
  have s: "queues_ok s (runs m)" "kept (sched m) s"
    using check_interrupt_ok [OF q assms(4)] check_wakeups_ok kept_trans unfolding s_def by blast+
  have none: "runs m c = None" using assms(2) by (simp add: runs_def)
  show ?thesis
  proof (cases "runnable s c")
    case Nil
    then show ?thesis using assms(3) s g by (simp add: run_next_def s_def [symmetric] cores_ok_def kept_def)
  next
    case (Cons t ts)
    then have oc: "on_core s t c" using queues_okD(1) [OF s(1), of t c] by simp
    then obtain th where th: "threads s t = Some th" unfolding on_core_def by blast
    have nr: "t \<notin> ran (runs m)" using queues_okD(2) [OF s(1)] on_core_unique [OF oc] none unfolding ran_def by fastforce
    have gs: "dom (generators s) = dom (threads s) - ran (runs m)" using g s(2) by (simp add: kept_def)
    then obtain gen where gen: "generators s t = Some gen" using nr th by blast
    define s' where "s' = s\<lparr>runnable := (runnable s)(c := ts), generators := (generators s)(t := None)\<rparr>"
    have same: "on_core s' = on_core s" "joined s' = joined s" by (rule same_threads; simp add: s'_def)+
    have sh: "queues_ok s' (runs m)" using s(1) by (rule queues_ok_shrink) (use Cons in \<open>auto simp: s'_def\<close>)
    note d = queues_okD [OF sh]
    have it: "idle s' ((runs m)(c := Some t)) v b" if "idle s (runs m) v b" for v b
    proof -
      have "v \<noteq> t" using that oc on_core_unique [of s t c b] Cons by (auto simp: idle_def)
      then show ?thesis using that Cons unfolding idle_def same by (auto simp: s'_def)
    qed
    have "queues_ok s' ((runs m)(c := Some t))"
    proof (rule queues_okI)
      show "on_core s' v b" if "((runs m)(c := Some t)) b = Some v" for b v using that d(2) oc unfolding same by (auto split: if_splits)
      show "idle s' ((runs m)(c := Some t)) (snd w) b" if "w \<in> set (waiting s' b)" for b w
        using that queues_okD(3) [OF s(1)] it by (simp add: s'_def)
      show "idle s' ((runs m)(c := Some t)) v a" if "joined s' v a x" for v a x
        using that queues_okD(6) [OF s(1)] it unfolding same by blast
    qed (rule d; assumption)+
    moreover have "dom (generators s') = dom (threads s') - ran ((runs m)(c := Some t))"
      using gs none by (auto simp: s'_def)
    moreover have "run_next c irqs now m = Ok \<lparr>sched = s', running = (running m)(c \<mapsto> (t, gen, case th_return_with th of Some r \<Rightarrow> r | None \<Rightarrow> Completed))\<rparr>"
      using assms(3) Cons gen th by (simp add: run_next_def s_def [symmetric] s'_def)
    ultimately show ?thesis by (simp add: cores_ok_def runs_upd)
  qed
qed

section \<open>Runs of the scheduler\<close>

inductive sched_reach :: "('g \<Rightarrow> YieldResume \<Rightarrow> 'g YieldRequest option \<times> 'g) \<Rightarrow> 'g cores \<Rightarrow> bool" for resume where
  sr_start: "sched_reach resume \<lparr>sched = with_upcalls, running = Map.empty\<rparr>"
| sr_spawn: "\<lbrakk>sched_reach resume m; spawn_with_args g a irq (sched m) = Ok (s, r)\<rbrakk> \<Longrightarrow> sched_reach resume (m\<lparr>sched := s\<rparr>)"
| sr_next: "\<lbrakk>sched_reach resume m; running m c = None; irqs_polite (sched m) c irqs; run_next c irqs now m = Ok m'\<rbrakk> \<Longrightarrow> sched_reach resume m'"
| sr_thread: "\<lbrakk>sched_reach resume m; running m c = Some (t, g, a); polite (sched m) c t (fst (resume g a)); run_thread resume c m = Ok m'\<rbrakk>
    \<Longrightarrow> sched_reach resume m'"

lemma queues_ok_count:
  assumes "queues_ok s R" and "tid_counter s \<le> n"
  shows "queues_ok (s\<lparr>tid_counter := n\<rparr>) R"
proof -
  note d = queues_okD [OF assms(1)]
  define u where "u = s\<lparr>tid_counter := n\<rparr>"
  have same: "on_core u = on_core s" "joined u = joined s" by (rule same_threads; simp add: u_def)+
  have idle: "idle u R = idle s R" by (intro ext) (unfold idle_def same, simp add: u_def)
  have fields: "runnable u = runnable s" "waiting u = waiting s" "threads u = threads s" by (simp_all add: u_def)
  have "queues_ok u R"
  proof (rule queues_okI; unfold same idle fields)
    show "t < tid_counter u \<and> th_affinity th < MAX_CORES" if "threads s t = Some th" for t th
      using d(9) [OF that] assms(2) by (simp add: u_def)
  qed (rule d; assumption)+
  then show ?thesis by (simp add: u_def)
qed

lemma spawn_keeps:
  assumes "cores_ok m" and "spawn_with_args g a irq (sched m) = Ok (s, r)"
  shows "cores_ok (m\<lparr>sched := s\<rparr>)"
proof -
  have q: "queues_ok (sched m) (runs m)" and g: "dom (generators (sched m)) = dom (threads (sched m)) - ran (runs m)"
    using assms(1) by (simp_all add: cores_ok_def)
  have fresh: "threads (sched m) (tid_counter (sched m)) = None"
    using queues_okD(9) [OF q, of "tid_counter (sched m)"] by (cases "threads (sched m) (tid_counter (sched m))") auto
  show ?thesis
  proof (cases "card (dom (threads (sched m))) \<le> MAX_THREADS")
    case True
    then have a: "a < MAX_CORES"
      using assms(2) fresh by (auto simp: spawn_with_args_def add_thread_def mark_runnable_def Let_def split: if_splits)
    from spawn_with_args_ok [OF q a True, of g irq] assms(2) have "queues_ok s (runs m)"
      "threads s = (threads (sched m))(tid_counter (sched m) \<mapsto> Thread_new a irq)"
      "generators s = (generators (sched m))(tid_counter (sched m) \<mapsto> g)" by auto
    then show ?thesis using g running_exists [OF q] fresh by (auto simp: cores_ok_def)
  next
    case False
    then have "s = (sched m)\<lparr>tid_counter := tid_counter (sched m) + 1\<rparr>"
      using assms(2) fresh by (simp add: spawn_with_args_def add_thread_def Let_def)
    then show ?thesis using queues_ok_count [OF q] g by (simp add: cores_ok_def)
  qed
qed

lemma sched_reach_ok: "sched_reach resume m \<Longrightarrow> cores_ok m"
proof (induction rule: sched_reach.induct)
  case sr_start
  show ?case by (simp add: cores_ok_def queues_ok_def with_upcalls_def runs_def joined_def)
next
  case (sr_spawn m g a irq s r)
  show ?case by (rule spawn_keeps [OF sr_spawn.IH sr_spawn.hyps(2)])
next
  case (sr_next m c irqs now m')
  then have "c < MAX_CORES" by (simp add: run_next_def split: if_splits)
  then show ?case using run_next_ok [of m c irqs now] sr_next by auto
next
  case (sr_thread m c t g a m')
  then show ?case using run_thread_ok [of m c t g a resume] by auto
qed

section \<open>Properties\<close>


text \<open>Programs for examples: what a thread at a line of its program requests, and the line it goes to.\<close>

fun prog :: "nat \<Rightarrow> YieldResume \<Rightarrow> nat YieldRequest option \<times> nat" where
  "prog n _ = (if n = 1 then (Some (Timeout 10), 0) else if n = 2 then (Some (Runnable 0), 0) else (None, 0))"

definition two_threads :: "nat cores" where
  "two_threads = \<lparr>sched = \<lparr>generators = [0 \<mapsto> 1, 1 \<mapsto> 2], threads = [0 \<mapsto> Thread_new 0 None, 1 \<mapsto> Thread_new 1 None],
     runnable = (\<lambda>_. [])(0 := [0], 1 := [1]), waiting = (\<lambda>_. []), tid_counter = 2, irqvec_to_tid = Map.empty\<rparr>, running = Map.empty\<rparr>"

definition one_runs :: "nat cores" where
  "one_runs = \<lparr>sched = (sched two_threads)\<lparr>runnable := (\<lambda>_. [])(1 := [1]), generators := [1 \<mapsto> 2]\<rparr>, running = [0 \<mapsto> (0, 1, Completed)]\<rparr>"

lemmas run_defs = run_next_def run_thread_def check_wakeups_def handle_yield_request_def after_request_def
  mark_runnable_def waitlist_remove_def make_runnable_def waitlist_insert_def finish_thread_def mark_unrunnable_def
  push_runnable_def wl_search.simps Thread_new_def Let_def fun_upd_def

lemma two_threads_reach: "sched_reach prog two_threads"
proof -
  define m1 where "m1 = \<lparr>sched = \<lparr>generators = [0 \<mapsto> 1], threads = [0 \<mapsto> Thread_new 0 None], runnable = (\<lambda>_. [])(0 := [0]), waiting = (\<lambda>_. []),
    tid_counter = 1, irqvec_to_tid = Map.empty\<rparr>, running = (Map.empty :: nat \<rightharpoonup> nat \<times> nat \<times> YieldResume)\<rparr>"
  have "sched_reach prog (\<lparr>sched = with_upcalls, running = Map.empty\<rparr>\<lparr>sched := sched m1\<rparr>)"
    by (rule sr_spawn [OF sr_start, where g = 1 and a = 0 and irq = None and r = "Some 0"])
      (simp add: spawn_with_args_def add_thread_def mark_runnable_def push_runnable_def with_upcalls_def m1_def)
  then have "sched_reach prog m1" by (simp add: m1_def)
  then have "sched_reach prog (m1\<lparr>sched := sched two_threads\<rparr>)"
    by (rule sr_spawn [where g = 2 and a = 1 and irq = None and r = "Some 1"])
      (simp add: spawn_with_args_def add_thread_def mark_runnable_def push_runnable_def m1_def two_threads_def)
  then show ?thesis by (simp add: m1_def two_threads_def)
qed

lemma one_runs_step: "run_next 0 [] (\<lambda>_. 0) two_threads = Ok one_runs"
  by (auto simp: run_defs two_threads_def one_runs_def)

lemma one_runs_reach: "sched_reach prog one_runs"
  by (rule sr_next [OF two_threads_reach _ _ one_runs_step]) (simp_all add: irqs_polite_def two_threads_def)


text \<open>
  C18. Time-outs: \<open>check_wakeups\<close> takes a tail off the wait list and appends its threads to the run
  queue of the core in the order of their wake-up times, nothing else changes.  Every thread that
  was due at the first look at the clock is among them, none is woken before its time, and those
  that stay are not due yet at the last look.
\<close>

theorem wakeups_in_order:
  assumes "sched_reach resume m" and "mono now"
  shows "let s = sched m; s' = check_wakeups now c s in \<exists>ws. waiting s c = waiting s' c @ rev ws \<and> runnable s' c = runnable s c @ map snd ws \<and> sorted (map fst ws)
     \<and> (\<forall>w \<in> set ws. fst w \<le> now (length ws)) \<and> (\<forall>w \<in> set (waiting s c). fst w \<le> now 0 \<longrightarrow> w \<in> set ws)
     \<and> (\<forall>w \<in> set (waiting s' c). now (length ws) < fst w)
     \<and> s' = s\<lparr>runnable := (runnable s)(c := runnable s' c), waiting := (waiting s)(c := waiting s' c)\<rparr>"
proof -
  define s s' where "s = sched m" and "s' = check_wakeups now c s"
  have "queues_ok s (runs m)" using sched_reach_ok [OF assms(1)] by (simp add: cores_ok_def s_def)
  then have srt: "sorted_wrt later (waiting s c)" by (rule queues_okD(4))
  from check_wakeups_splits [of now s c] obtain k where k: "wakes now (waiting s c) k" "s' =
     s\<lparr>runnable := (runnable s)(c := runnable s c @ map snd (take k (rev (waiting s c)))),
       waiting := (waiting s)(c := take (length (waiting s c) - k) (waiting s c))\<rparr>" unfolding s'_def by blast
  define ws where "ws = take k (rev (waiting s c))"
  have len: "length ws = k" using k(1) by (simp add: ws_def wakes_def)
  have w': "waiting s' c = rev (drop k (rev (waiting s c)))" by (simp add: k(2) rev_drop)
  have split: "waiting s c = waiting s' c @ rev ws"
    unfolding w' ws_def by (metis append_take_drop_id rev_append rev_rev_ident)
  have rest: "now k < fst w" if "w \<in> set (waiting s' c)" for w
  proof -
    have "w \<in> set (drop k (rev (waiting s c)))" using that w' by simp
    then obtain j where "j < length (waiting s c) - k" "w = drop k (rev (waiting s c)) ! j" by (auto simp: in_set_conv_nth)
    then have j: "k + j < length (waiting s c)" "w = rev (waiting s c) ! (k + j)" by simp_all
    have "now k < fst (rev (waiting s c) ! k)" using k(1) j(1) by (simp add: wakes_def)
    also have "\<dots> \<le> fst w" using wake_order [OF srt, of k "k + j"] j by simp
    finally show ?thesis .
  qed
  have early: "fst w \<le> now k" if "w \<in> set ws" for w
  proof -
    obtain j where "j < length ws" "w = ws ! j" using \<open>w \<in> set ws\<close> by (auto simp: in_set_conv_nth)
    then have j: "j < k" "w = rev (waiting s c) ! j" using len by (simp_all add: ws_def)
    then have "fst w \<le> now j" using k(1) by (simp add: wakes_def)
    then show ?thesis using monoD [OF assms(2), of j k] j(1) by simp
  qed
  have "sorted (map fst ws)"
    unfolding sorted_iff_nth_mono ws_def using k(1) wake_order [OF srt] by (auto simp: wakes_def)
  moreover have "w \<in> set ws" if "w \<in> set (waiting s c)" "fst w \<le> now 0" for w
    using that rest [of w] split monoD [OF assms(2), of 0 k] by auto
  moreover have "runnable s' c = runnable s c @ map snd ws" by (simp add: k(2) ws_def)
  moreover have "s' = s\<lparr>runnable := (runnable s)(c := runnable s' c), waiting := (waiting s)(c := waiting s' c)\<rparr>" by (simp add: k(2))
  ultimately show ?thesis unfolding Let_def s_def [symmetric] s'_def [symmetric]
    using split rest early unfolding len [symmetric] by blast
qed

definition one_waits :: "nat cores" where
  "one_waits = \<lparr>sched = (sched two_threads)\<lparr>runnable := (\<lambda>_. [])(1 := [1]), generators := [1 \<mapsto> 2, 0 \<mapsto> 0], waiting := (\<lambda>_. [])(0 := [(10, 0)])\<rparr>,
     running = Map.empty\<rparr>"

lemma one_waits_reach: "sched_reach prog one_waits"
proof (rule sr_thread [OF one_runs_reach])
  show "running one_runs 0 = Some (0, 1, Completed)" by (simp add: one_runs_def)
  show "polite (sched one_runs) 0 0 (fst (prog 1 Completed))" by (simp add: one_runs_def)
  show "run_thread prog 0 one_runs = Ok one_waits"
    by (auto simp: run_defs one_runs_def one_waits_def two_threads_def)
qed

theorem wakeups_in_order_witness:
  "sched_reach prog one_waits \<and> waiting (sched one_waits) 0 = [(10, 0)] \<and> runnable (check_wakeups (\<lambda>i. 10 + i) 0 (sched one_waits)) 0 = [0]"
proof -
  have m: "mono (\<lambda>i :: nat. 10 + i)" by (simp add: mono_def)
  have w: "waiting (sched one_waits) 0 = [(10, 0)]" "runnable (sched one_waits) 0 = []" by (simp_all add: one_waits_def)
  from wakeups_in_order [OF one_waits_reach m, of 0, unfolded Let_def] obtain ws where ws: "waiting (sched one_waits) 0 = waiting (check_wakeups (\<lambda>i. 10 + i) 0 (sched one_waits)) 0 @ rev ws"
    "runnable (check_wakeups (\<lambda>i. 10 + i) 0 (sched one_waits)) 0 = runnable (sched one_waits) 0 @ map snd ws"
    "\<forall>w \<in> set (waiting (sched one_waits) 0). fst w \<le> 10 + 0 \<longrightarrow> w \<in> set ws" by blast
  have "(10, 0) \<in> set ws" using ws(3) w(1) by simp
  then have "ws = [(10, 0)]" using ws(1) w(1) by (cases ws) (auto simp: Cons_eq_append_conv append_eq_Cons_conv)
  then show ?thesis using ws(2) w one_waits_reach by simp
qed

text \<open>
  C39. A wake-up that reaches a thread between its entry into the waiters of a condition variable and
  its request for a time-out leaves a stale entry in the wait list: thread 0 on core 0 is made
  runnable by thread 1 on core 1 while it still runs, asks for a time-out, is dispatched again from
  the run queue and ends.  Nothing removes it from the wait list, and as soon as the time-out
  expires the dispatcher of core 0 finds no generator for it and panics.
\<close>

definition stale_run :: "nat cores sres" where
  "stale_run = bind_result (run_next 1 [] (\<lambda>_. 0) one_runs) (\<lambda>m. bind_result (run_thread prog 1 m) (\<lambda>m.
     bind_result (run_thread prog 0 m) (\<lambda>m. bind_result (run_next 0 [] (\<lambda>_. 0) m) (run_thread prog 0))))"


text \<open>
  An interrupt is queued for its thread on the core that took it, not on the core of the thread: if
  the thread runs on its own core just then, the dispatcher finds no generator.
\<close>

definition irq_thread_runs :: "nat cores" where
  "irq_thread_runs = \<lparr>sched = \<lparr>generators = Map.empty, threads = [0 \<mapsto> Thread_new 0 (Some 5)], runnable = (\<lambda>_. []), waiting = (\<lambda>_. []),
     tid_counter = 1, irqvec_to_tid = [5 \<mapsto> 0]\<rparr>, running = [0 \<mapsto> (0, 1, Completed)]\<rparr>"

lemma irq_on_other_core_panics:
  "sched_reach prog irq_thread_runs \<and> run_next 1 [5] (\<lambda>_. 0) irq_thread_runs = Panic"
proof
  define m where "m = irq_thread_runs\<lparr>sched := (sched irq_thread_runs)\<lparr>generators := [0 \<mapsto> 1], runnable := (\<lambda>_. [])(0 := [0])\<rparr>, running := Map.empty\<rparr>"
  have "sched_reach prog (\<lparr>sched = with_upcalls, running = Map.empty\<rparr>\<lparr>sched := sched m\<rparr>)"
    by (rule sr_spawn [OF sr_start, where g = 1 and a = 0 and irq = "Some 5" and r = "Some 0"])
      (simp add: spawn_with_args_def add_thread_def mark_runnable_def push_runnable_def with_upcalls_def m_def irq_thread_runs_def)
  then have "sched_reach prog m" by (simp add: m_def irq_thread_runs_def)
  then show "sched_reach prog irq_thread_runs"
    by (rule sr_next [where c = 0 and irqs = "[]" and now = "\<lambda>_. 0"])
      (auto simp: irqs_polite_def run_defs m_def irq_thread_runs_def)
  show "run_next 1 [5] (\<lambda>_. 0) irq_thread_runs = Panic" by (simp add: run_defs irq_thread_runs_def)
qed

end
