(* ===== verification/Spec2Isabelle.thy ===== *)
theory Spec2Isabelle
  imports CnrFs VSpaceSpec RwLocks KernelMem KernelNodes Syscalls DetMem BootMem KernelAlloc LineupMutex LineupSched
begin

text \<open>
  \<^bold>\<open>Verification of the node-replicated kernel (NRK).\<close>

  The program is a multi-core kernel in Rust.  Its global state (processes, cores, file system) is
  replicated per NUMA node by a log library; each core has its own memory arenas; user processes
  get page tables, executors and system calls from it, and a library of user-level threads runs on
  top.  All paths below are relative to \<open>src/\<close>.

  \<^bold>\<open>Conventions\<close> (\<open>NrkPrelude\<close>).  A Rust \<open>Result\<close> that may also panic is the type \<open>result\<close> with the
  constructors \<open>Ok\<close>, \<open>Err\<close> and \<open>Panic\<close>; every assertion, \<open>unwrap\<close>, index out of range and checked
  overflow is a \<open>Panic\<close> branch.  Fallible heap allocations draw from a schedule, a list of booleans,
  so that every theorem covers every pattern of allocation failures.  Addresses, sizes and counters
  are natural numbers with their bounds written out; flag words and page-table entries are words of
  64 bits.  Concurrent code is an inductive step relation, one step for each access to shared
  memory, over sequentially consistent memory.

  \<^bold>\<open>Theories and sources.\<close>
  \<^item> \<open>KernelError\<close>, \<open>Kpi\<close>: \<open>kernel/src/error.rs\<close>, \<open>lib/kpi/src/lib.rs\<close>, \<open>io.rs\<close>: errors, system call
    numbers, flags and modes.
  \<^item> \<open>FileBuf\<close>, \<open>MemNodes\<close>, \<open>MlnrFs\<close>: \<open>kernel/src/fs/file.rs\<close>, \<open>mnode.rs\<close>, \<open>mod.rs\<close>: files as lists of
    buffers, inodes, and the in-memory file system.  Writes store exactly the bytes at the offset,
    also when an allocation fails half-way; create and rename refine a map from names to files.
  \<^item> \<open>SlotTable\<close>, \<open>FileDesc\<close>: \<open>kernel/src/fs/fd.rs\<close>: a locale for tables of optional slots with the
    descriptor table as its instance.
  \<^item> \<open>UserMem\<close>, \<open>CnrFs\<close>: \<open>kernel/src/process.rs\<close>, \<open>kernel/src/cnrfs.rs\<close>: buffers of user space, and
    the replicated file system node.  Every operation keeps the invariant of the file system, and
    operations that the node puts into different logs commute.
  \<^item> \<open>RwLocks\<close>: \<open>kernel/src/fs/rwlock.rs\<close>: the distributed readers-writer lock excludes, and a writer
    gets in once the readers have left.
  \<^item> \<open>Frames\<close>, \<open>MCache\<close>, \<open>KernelMem\<close>, \<open>GlobalMem\<close>, \<open>BootMem\<close>: \<open>kernel/src/memory/mod.rs\<close>, \<open>mcache.rs\<close>,
    \<open>kernel/src/kcb.rs\<close>, \<open>kernel/src/arch/x86_64/mod.rs\<close>: frames, page caches, the arenas of a core, and
    how the memory map of the firmware becomes caches.  No page is in two places, none is lost
    between refills.
  \<^item> \<open>EMem\<close>, \<open>KernelAlloc\<close>, \<open>Mpmc\<close>, \<open>DetMem\<close>: \<open>kernel/src/memory/emem.rs\<close>, \<open>memory/mod.rs\<close>, \<open>mpmc.rs\<close>,
    \<open>memory/detmem.rs\<close>: the heap of the kernel with its fallbacks, the bounded lock-free queue
    (first-in first-out, bounded, nothing lost or invented), and the allocator that makes replicas
    see the same allocations.
  \<^item> \<open>MapActions\<close>, \<open>PageTables\<close>, \<open>PageWalk\<close>, \<open>PageMap\<close>, \<open>PageSpec\<close>: \<open>kernel/src/memory/vspace.rs\<close>,
    \<open>kernel/src/arch/x86_64/vspace/page_table.rs\<close>: the four-level page table as words in physical
    memory.  \<open>PageWalk\<close> gives the tree it forms, \<open>PageMap\<close> and \<open>PageSpec\<close> what \<open>resolve\<close> shows after
    each operation and which frames a tear-down frees.
  \<^item> \<open>VSpaces\<close>, \<open>VSpaceSpec\<close>: \<open>arch/x86_64/vspace/mod.rs\<close>, \<open>memory/vspace_model.rs\<close>: the address space over
    the page table, and that it refines the reference model of the repository.
  \<^item> \<open>KernelNodes\<close>, \<open>Processes\<close>, \<open>ElfLoad\<close>, \<open>NrProcs\<close>: \<open>kernel/src/nr.rs\<close>, \<open>process.rs\<close>,
    \<open>arch/x86_64/process.rs\<close>, \<open>nrproc.rs\<close>: identifiers and cores, executors, loading of binaries, and
    the operations of a replicated process.  No two cores run the same executor.
  \<^item> \<open>Tlb\<close>: \<open>arch/x86_64/tlb.rs\<close>, \<open>irq.rs\<close>: the shootdown protocol.  After it no core uses an old
    translation; one initiator always finishes, two may wait for each other.
  \<^item> \<open>Syscalls\<close>: \<open>arch/x86_64/syscall.rs\<close>: the handlers.  Memory that a process maps is fresh and
    zeroed, and buffers that pass the check of user pointers are mapped for user space.
  \<^item> \<open>LineupMutex\<close>, \<open>LineupSched\<close>: \<open>lib/lineup/src/mutex.rs\<close>, \<open>scheduler.rs\<close>, \<open>threads.rs\<close>: the mutex and
    the scheduler of user-level threads.  The mutex excludes and loses no wake-up; the scheduler
    always finds the thread it dispatches as long as threads respect the stated protocol, time-outs
    fire in order, and a run outside the protocol that the library allows panics.

  \<^bold>\<open>Interfaces.\<close>  Libraries are parameters of the definitions that use them: the log that replays
  operations, the slab allocator, the ELF parser, the topology, the interrupt controller, TLB and
  flush instructions, and the generators that run user-level threads.  Interfaces between
  components are locales, interpreted on the definitions of the component that provides them.

  \<^bold>\<open>Bounds and termination.\<close>  Every function is total.  Loops recurse on a list, a page count or a
  range that shrinks; loops that retry an allocation have the retry bound of the source; loops that
  wait for another core or thread are steps of a relation.  Tables have the sizes of the source
  (4096 descriptors, 512 entries, 96 cores, 2048 threads, 64 waiters).

  \<^bold>\<open>Not modelled.\<close>  Code that is mostly assembly or device access: start-up, descriptor tables, ACPI,
  interrupt controllers, serial port, debugger, network drivers and boot loader.  The user-space
  runtime and the user programs, which are glue to the rump kernel in C and benchmarks; the system
  call stubs, which are assembly; remote procedure calls over a network stack; the port of the
  kernel to Unix, and tests.  Of the user-level threads the condition variables, the readers-writer
  lock and the semaphore, stacks, thread-local storage and upcalls.  Weak memory orderings,
  wrap-around of 64-bit counters that only grow, logging, and timing are left out.
\<close>

end
